(* ===== verification/Prelude.thy ===== *)
theory Prelude
  imports Main "HOL-Library.Word"
begin

text \<open>
  What the components share: the result type of kernel code, machine words and byte blocks, the
  little-endian accessors that stand for C's casts of \<open>bp->data\<close>, and the generic lemmas about
  lists and searches that the component proofs use.

  A kernel function of the model takes the state and returns an \<open>outcome\<close>:
  \<^item> \<open>Done r\<close>: the call returned, with its value and the new state in \<open>r\<close>;
  \<^item> \<open>Panic m\<close>: the code called \<open>panic(m)\<close>;
  \<^item> \<open>Sleeps\<close>: the call blocks until another process or an interrupt acts;
  \<^item> \<open>Undef\<close>: the C code would access memory outside an object (or follow a corrupt list for
    ever); nothing is claimed about what happens then.
\<close>

unbundle bit_operations_syntax

named_theorems outcome_simps

type_synonym byte = "8 word"
type_synonym u16 = "16 word"
type_synonym u32 = "32 word"

datatype 'a outcome = Done 'a | Panic string | Sleeps | Undef

text \<open>Sequencing: \<open>bindO\<close> passes the state on, \<open>bindS\<close> a value and the state.\<close>

fun bindO :: "'a outcome \<Rightarrow> ('a \<Rightarrow> 'b outcome) \<Rightarrow> 'b outcome" where
  "bindO (Done a) f = f a"
| "bindO (Panic m) f = Panic m"
| "bindO Sleeps f = Sleeps"
| "bindO Undef f = Undef"

definition bindS :: "('a \<times> 's) outcome \<Rightarrow> ('a \<Rightarrow> 's \<Rightarrow> 'b outcome) \<Rightarrow> 'b outcome" where
  "bindS m f = bindO m (\<lambda>(a, s). f a s)"

lemma bindS_simps [simp]:
  "bindS (Done (a, s)) f = f a s"
  "bindS (Panic m) f = Panic m"
  "bindS Sleeps f = Sleeps"
  "bindS Undef f = Undef"
  by (simp_all add: bindS_def)

lemma bindO_Done_iff [outcome_simps]:
  "bindO m f = Done r \<longleftrightarrow> (\<exists>a. m = Done a \<and> f a = Done r)"
  by (cases m) auto

lemma bindS_Done_iff [outcome_simps]:
  "bindS m f = Done r \<longleftrightarrow> (\<exists>a s. m = Done (a, s) \<and> f a s = Done r)"
  by (cases m) (auto simp: bindS_def)

lemma bindO_cong [fundef_cong]:
  "m = m' \<Longrightarrow> (\<And>a. m' = Done a \<Longrightarrow> f a = g a) \<Longrightarrow> bindO m f = bindO m' g"
  by (cases m') auto

lemma bindO_assoc: "bindO (bindO m f) g = bindO m (\<lambda>a. bindO (f a) g)"
  by (cases m) auto

text \<open>A call that returns, with what it returns: the total-correctness predicate of the proofs.\<close>

definition returns :: "'a outcome \<Rightarrow> ('a \<Rightarrow> bool) \<Rightarrow> bool" where
  "returns m Q \<longleftrightarrow> (\<exists>a. m = Done a \<and> Q a)"

lemma returnsI: "m = Done a \<Longrightarrow> Q a \<Longrightarrow> returns m Q"
  by (simp add: returns_def)

lemma returnsE: "returns m Q \<Longrightarrow> (\<And>a. m = Done a \<Longrightarrow> Q a \<Longrightarrow> R) \<Longrightarrow> R"
  by (auto simp: returns_def)

lemma returns_Done [simp]: "returns (Done a) Q \<longleftrightarrow> Q a"
  by (simp add: returns_def)

lemma returns_bindO: "returns (bindO m f) Q \<longleftrightarrow> returns m (\<lambda>a. returns (f a) Q)"
  by (auto simp: returns_def bindO_Done_iff)

lemma returns_bindS: "returns (bindS m f) Q \<longleftrightarrow> returns m (\<lambda>(a, s). returns (f a s) Q)"
  by (auto simp: returns_def bindS_Done_iff)

lemma returns_mono: "returns m P \<Longrightarrow> (\<And>a. P a \<Longrightarrow> Q a) \<Longrightarrow> returns m Q"
  by (auto simp: returns_def)

text \<open>A counted loop whose body may fail: \<open>foldO f xs s\<close> runs the body for each element in order.\<close>

fun foldO :: "('a \<Rightarrow> 's \<Rightarrow> 's outcome) \<Rightarrow> 'a list \<Rightarrow> 's \<Rightarrow> 's outcome" where
  "foldO f [] s = Done s"
| "foldO f (x # xs) s = bindO (f x s) (foldO f xs)"

lemma foldO_append: "foldO f (xs @ ys) s = bindO (foldO f xs s) (foldO f ys)"
proof (induction xs arbitrary: s)
  case (Cons x xs)
  then show ?case by (cases "f x s") auto
qed simp

text \<open>The loop rule: an invariant indexed by the loop variable, kept by a body that returns.\<close>

lemma foldO_upt_returns:
  assumes "I m s" "m \<le> n"
    and "\<And>i s. m \<le> i \<Longrightarrow> i < n \<Longrightarrow> I i s \<Longrightarrow> returns (f i s) (I (Suc i))"
  shows "returns (foldO f [m..<n] s) (I n)"
  using assms
proof (induction n)
  case 0
  then show ?case by simp
next
  case (Suc n)
  show ?case
  proof (cases "m = Suc n")
    case True
    then show ?thesis using Suc.prems by simp
  next
    case False
    then have "m \<le> n" using Suc.prems(2) by simp
    then have "returns (foldO f [m..<n] s) (I n)"
      using Suc by simp
    moreover have "returns (f n t) (I (Suc n))" if "I n t" for t
      using that \<open>m \<le> n\<close> Suc.prems(3) by simp
    ultimately show ?thesis
      using \<open>m \<le> n\<close> by (auto simp: foldO_append returns_def bindO_Done_iff)
  qed
qed

text \<open>The partial-correctness form: if the loop returns, the invariant holds at its end.\<close>

lemma foldO_Done:
  assumes "foldO f xs s = Done t" "I s" "\<And>x s s'. x \<in> set xs \<Longrightarrow> I s \<Longrightarrow> f x s = Done s' \<Longrightarrow> I s'"
  shows "I t"
  using assms by (induction xs arbitrary: s) (auto simp: bindO_Done_iff)

subsection \<open>Bytes, and words stored in byte blocks\<close>

lemma div_mod_eqI: "(i :: nat) div k = j div k \<Longrightarrow> i mod k = j mod k \<Longrightarrow> i = j"
proof -
  assume a: "i div k = j div k" "i mod k = j mod k"
  have "i = i div k * k + i mod k"
    by (rule div_mult_mod_eq [symmetric])
  also have "\<dots> = j"
    unfolding a by (rule div_mult_mod_eq)
  finally show "i = j" .
qed

lemma uint_eq_iff [simp]: "uint a = uint b \<longleftrightarrow> a = b"
  by (simp add: word_uint_eq_iff)

text \<open>Offsets into structures stay sums.\<close>

declare add_2_eq_Suc [simp del] add_2_eq_Suc' [simp del]

text \<open>
  A block (and any other byte buffer) is a function from offsets to bytes. \<open>get16\<close>/\<open>get32\<close> read a
  little-endian word at an offset, as the x86 does for \<open>((uint*)bp->data)[i]\<close> or a struct field;
  \<open>put16\<close>/\<open>put32\<close> store one.
\<close>

type_synonym block = "nat \<Rightarrow> byte"

definition get16 :: "block \<Rightarrow> nat \<Rightarrow> u16" where
  "get16 b i = ucast (b i) OR push_bit 8 (ucast (b (i + 1)))"

definition put16 :: "nat \<Rightarrow> u16 \<Rightarrow> block \<Rightarrow> block" where
  "put16 i v b = b(i := ucast v, i + 1 := ucast (drop_bit 8 v))"

definition get32 :: "block \<Rightarrow> nat \<Rightarrow> u32" where
  "get32 b i = ucast (b i) OR push_bit 8 (ucast (b (i + 1)))
     OR push_bit 16 (ucast (b (i + 2))) OR push_bit 24 (ucast (b (i + 3)))"

definition put32 :: "nat \<Rightarrow> u32 \<Rightarrow> block \<Rightarrow> block" where
  "put32 i v b = b(i := ucast v, i + 1 := ucast (drop_bit 8 v),
     i + 2 := ucast (drop_bit 16 v), i + 3 := ucast (drop_bit 24 v))"

lemma get16_put16 [simp]: "get16 (put16 i v b) i = v"
proof (rule bit_word_eqI)
  fix n
  assume n: "n < LENGTH(16)"
  consider "n < 8" | "8 \<le> n" "n < 16"
    using n by fastforce
  then show "bit (get16 (put16 i v b) i) n = bit v n"
    by cases (auto simp: get16_def put16_def bit_simps)
qed

lemma get32_put32 [simp]: "get32 (put32 i v b) i = v"
proof (rule bit_word_eqI)
  fix n
  assume n: "n < LENGTH(32)"
  consider "n < 8" | "8 \<le> n" "n < 16" | "16 \<le> n" "n < 24" | "24 \<le> n" "n < 32"
    using n by fastforce
  then show "bit (get32 (put32 i v b) i) n = bit v n"
    by cases (auto simp: get32_def put32_def bit_simps)
qed

lemma get16_put16_other: "j + 2 \<le> i \<or> i + 2 \<le> j \<Longrightarrow> get16 (put16 i v b) j = get16 b j"
  by (auto simp: get16_def put16_def)

lemma get32_put32_other: "j + 4 \<le> i \<or> i + 4 \<le> j \<Longrightarrow> get32 (put32 i v b) j = get32 b j"
  by (auto simp: get32_def put32_def)

lemma get16_put32_other: "j + 2 \<le> i \<or> i + 4 \<le> j \<Longrightarrow> get16 (put32 i v b) j = get16 b j"
  by (auto simp: get16_def put32_def)

lemma get32_put16_other: "j + 4 \<le> i \<or> i + 2 \<le> j \<Longrightarrow> get32 (put16 i v b) j = get32 b j"
  by (auto simp: get32_def put16_def)

lemmas getput_simps = get16_put16_other get32_put32_other get16_put32_other get32_put16_other

lemma put16_apply: "j < i \<or> i + 2 \<le> j \<Longrightarrow> put16 i v b j = b j"
  by (auto simp: put16_def)

lemma put32_apply: "j < i \<or> i + 4 \<le> j \<Longrightarrow> put32 i v b j = b j"
  by (auto simp: put32_def)

text \<open>\<open>memmove\<close> of \<open>n\<close> bytes between two buffers that do not overlap, and \<open>memset\<close>.\<close>

definition copy_bytes :: "nat \<Rightarrow> block \<Rightarrow> nat \<Rightarrow> nat \<Rightarrow> block \<Rightarrow> block" where
  "copy_bytes n src so do dst = (\<lambda>i. if do \<le> i \<and> i < do + n then src (so + (i - do)) else dst i)"

definition fill_bytes :: "nat \<Rightarrow> byte \<Rightarrow> nat \<Rightarrow> block \<Rightarrow> block" where
  "fill_bytes n c do dst = (\<lambda>i. if do \<le> i \<and> i < do + n then c else dst i)"

lemma copy_bytes_in [simp]: "i < n \<Longrightarrow> copy_bytes n src so do dst (do + i) = src (so + i)"
  by (simp add: copy_bytes_def)

lemma copy_bytes_out: "i < do \<or> do + n \<le> i \<Longrightarrow> copy_bytes n src so do dst i = dst i"
  by (auto simp: copy_bytes_def)

subsection \<open>Searching tables\<close>

text \<open>
  The kernel's tables are scanned from index 0 up; the first index that satisfies the test is
  taken. \<open>first_index p n\<close> is that index.
\<close>

definition first_index :: "(nat \<Rightarrow> bool) \<Rightarrow> nat \<Rightarrow> nat option" where
  "first_index p n = find p [0..<n]"

lemma first_index_Some:
  "first_index p n = Some i \<longleftrightarrow> i < n \<and> p i \<and> (\<forall>j<i. \<not> p j)"
  by (auto simp: first_index_def find_Some_iff nth_upt)

lemma first_index_None: "first_index p n = None \<longleftrightarrow> (\<forall>i<n. \<not> p i)"
  by (auto simp: first_index_def find_None_iff)

lemma first_index_eqI: "i < n \<Longrightarrow> p i \<Longrightarrow> (\<And>j. j < i \<Longrightarrow> \<not> p j) \<Longrightarrow> first_index p n = Some i"
  by (simp add: first_index_Some)

lemma first_index_cong:
  "(\<And>i. i < n \<Longrightarrow> p i = q i) \<Longrightarrow> first_index p n = first_index q n"
  unfolding first_index_def by (rule find_cong) auto

lemma first_index_ex: "(\<exists>i<n. p i) \<longleftrightarrow> first_index p n \<noteq> None"
  by (simp add: first_index_None)

end
