(* ===== verification/KernelState.thy ===== *)
theory KernelState
  imports Prelude
begin

text \<open>
  The constants of the xv6 kernel (\<open>param.h\<close>, \<open>fs.h\<close>, \<open>stat.h\<close>, \<open>fcntl.h\<close>) and the state of its
  storage stack: buffer cache, log, super block, in-memory inodes, open files and pipes, and the
  parts of the current process that the file-system calls use.

  The model is that of one process running in the kernel. The spin locks that \<open>bio.c\<close>, \<open>log.c\<close>,
  \<open>fs.c\<close>, \<open>file.c\<close> and \<open>pipe.c\<close> take make the sections they guard atomic; such a section is
  one step of the model and the lock itself has no field here (the lock algorithm is in theory
  \<open>SpinLock\<close>). The sleep locks of buffers and inodes are kept, because code tests them.
  C pointers into the kernel's tables are indices.
\<close>

subsection \<open>Parameters\<close>

abbreviation BSIZE :: nat where "BSIZE \<equiv> 512"
abbreviation MAXOPBLOCKS :: int where "MAXOPBLOCKS \<equiv> 10"
abbreviation LOGSIZE :: int where "LOGSIZE \<equiv> 30"
abbreviation NBUF :: nat where "NBUF \<equiv> 30"
abbreviation NINODE :: nat where "NINODE \<equiv> 50"
abbreviation NFILE :: nat where "NFILE \<equiv> 100"
abbreviation NOFILE :: nat where "NOFILE \<equiv> 16"
abbreviation NDEV :: nat where "NDEV \<equiv> 10"
abbreviation ROOTDEV :: u32 where "ROOTDEV \<equiv> 1"
abbreviation ROOTINO :: u32 where "ROOTINO \<equiv> 1"
abbreviation FSSIZE :: nat where "FSSIZE \<equiv> 2000"
abbreviation NDIRECT :: nat where "NDIRECT \<equiv> 11"
abbreviation NINDIRECT :: nat where "NINDIRECT \<equiv> 128"
abbreviation MAXFILE :: nat where "MAXFILE \<equiv> 16523"
abbreviation IPB :: nat where "IPB \<equiv> 8"
abbreviation BPB :: nat where "BPB \<equiv> 4096"
abbreviation DIRSIZ :: nat where "DIRSIZ \<equiv> 14"

lemma MAXFILE_eq: "MAXFILE = NDIRECT + NINDIRECT + NINDIRECT * NINDIRECT"
  by simp

abbreviation T_DIR :: u16 where "T_DIR \<equiv> 1"
abbreviation T_FILE :: u16 where "T_FILE \<equiv> 2"
abbreviation T_DEV :: u16 where "T_DEV \<equiv> 3"

abbreviation O_RDONLY :: u32 where "O_RDONLY \<equiv> 0"
abbreviation O_WRONLY :: u32 where "O_WRONLY \<equiv> 1"
abbreviation O_RDWR :: u32 where "O_RDWR \<equiv> 2"
abbreviation O_CREATE :: u32 where "O_CREATE \<equiv> 0x200"

subsection \<open>Structs\<close>

text \<open>
  \<open>struct sleeplock\<close>: whether it is held, and the holder's pid. Its spin lock and its debugging
  name have no counterpart.
\<close>

record sleeplock =
  sl_locked :: bool
  sl_pid :: int

text \<open>\<open>struct buf\<close>; \<open>flags\<close> is the two bits \<open>B_VALID\<close> and \<open>B_DIRTY\<close>. \<open>prev\<close> and \<open>next\<close> are in \<open>kst\<close>.\<close>

record buf =
  b_valid :: bool
  b_dirty :: bool
  b_dev :: u32
  b_blockno :: u32
  b_lock :: sleeplock
  b_refcnt :: u32
  b_data :: block

record superblock =
  sb_size :: u32
  sb_nblocks :: u32
  sb_ninodes :: u32
  sb_nlog :: u32
  sb_logstart :: u32
  sb_inodestart :: u32
  sb_bmapstart :: u32

text \<open>
  \<open>struct inode\<close>, the in-memory copy; \<open>addrs\<close> has \<open>NDIRECT + 2\<close> entries: the direct blocks, the
  indirect block and the double-indirect block.
\<close>

record inode =
  i_dev :: u32
  i_inum :: u32
  i_ref :: int
  i_lock :: sleeplock
  i_valid :: bool
  i_type :: u16
  i_major :: u16
  i_minor :: u16
  i_nlink :: u16
  i_size :: u32
  i_addrs :: "nat \<Rightarrow> u32"

datatype filetype = FD_NONE | FD_PIPE | FD_INODE

text \<open>\<open>struct file\<close>; \<open>pipe\<close> and \<open>ip\<close> are indices of the pipe table and the inode cache.\<close>

record kfile =
  f_type :: filetype
  f_ref :: int
  f_readable :: bool
  f_writable :: bool
  f_pipe :: nat
  f_ip :: nat
  f_off :: u32

text \<open>\<open>struct pipe\<close>, a page of kernel memory.\<close>

record kpipe =
  p_data :: block
  p_nread :: u32
  p_nwrite :: u32
  p_readopen :: bool
  p_writeopen :: bool

text \<open>
  The storage state. \<open>bnext\<close> and \<open>bprev\<close> are the links of the buffer list, with \<open>NBUF\<close> for the list
  head. \<open>memdisk\<close> is the disk, block by block; \<open>dwrites\<close> is a history variable: the sequence of
  block writes done so far, which no code reads. \<open>pipes\<close> are the pipes by the number of their page,
  \<open>kpages\<close> the free pages (the free list of \<open>kalloc.c\<close>). \<open>curpid\<close> is \<open>proc->pid\<close>, \<open>killed\<close>
  \<open>proc->killed\<close>, \<open>ofile\<close> and \<open>cwd\<close> the current process's open files and directory; \<open>umem\<close> is its memory
  at user addresses below \<open>usz\<close> (\<open>proc->sz\<close>), \<open>uesp\<close> its stack pointer \<open>proc->tf->esp\<close>.
\<close>

record kst =
  curpid :: int
  bufs :: "nat \<Rightarrow> buf"
  bnext :: "nat \<Rightarrow> nat"
  bprev :: "nat \<Rightarrow> nat"
  memdisk :: "u32 \<Rightarrow> block"
  disksize :: u32
  dwrites :: "(u32 \<times> block) list"
  log_start :: u32
  log_size :: int
  log_outstanding :: int
  log_committing :: bool
  log_dev :: u32
  lh_n :: int
  lh_block :: "nat \<Rightarrow> u32"
  sb :: superblock
  icache :: "nat \<Rightarrow> inode"
  ftable :: "nat \<Rightarrow> kfile"
  ofile :: "nat \<Rightarrow> nat option"
  cwd :: nat
  pipes :: "nat \<Rightarrow> kpipe"
  kpages :: "nat list"
  killed :: bool
  umem :: "u32 \<Rightarrow> byte"
  usz :: u32
  uesp :: u32

subsection \<open>State before initialisation: the zeroed BSS segment\<close>

definition zero_lock :: sleeplock where
  "zero_lock = \<lparr>sl_locked = False, sl_pid = 0\<rparr>"

definition zero_block :: block where
  "zero_block = (\<lambda>_. 0)"

definition zero_buf :: buf where
  "zero_buf = \<lparr>b_valid = False, b_dirty = False, b_dev = 0, b_blockno = 0, b_lock = zero_lock,
     b_refcnt = 0, b_data = zero_block\<rparr>"

definition zero_sb :: superblock where
  "zero_sb = \<lparr>sb_size = 0, sb_nblocks = 0, sb_ninodes = 0, sb_nlog = 0, sb_logstart = 0,
     sb_inodestart = 0, sb_bmapstart = 0\<rparr>"

definition zero_inode :: inode where
  "zero_inode = \<lparr>i_dev = 0, i_inum = 0, i_ref = 0, i_lock = zero_lock, i_valid = False, i_type = 0,
     i_major = 0, i_minor = 0, i_nlink = 0, i_size = 0, i_addrs = (\<lambda>_. 0)\<rparr>"

definition zero_file :: kfile where
  "zero_file = \<lparr>f_type = FD_NONE, f_ref = 0, f_readable = False, f_writable = False, f_pipe = 0,
     f_ip = 0, f_off = 0\<rparr>"

definition zero_pipe :: kpipe where
  "zero_pipe = \<lparr>p_data = zero_block, p_nread = 0, p_nwrite = 0, p_readopen = False, p_writeopen = False\<rparr>"

definition boot_state :: "int \<Rightarrow> u32 \<Rightarrow> (u32 \<Rightarrow> block) \<Rightarrow> kst" where
  "boot_state pid dsz dsk = \<lparr>curpid = pid, bufs = (\<lambda>_. zero_buf), bnext = (\<lambda>_. 0), bprev = (\<lambda>_. 0),
     memdisk = dsk, disksize = dsz, dwrites = [], log_start = 0, log_size = 0, log_outstanding = 0,
     log_committing = False, log_dev = 0, lh_n = 0, lh_block = (\<lambda>_. 0), sb = zero_sb,
     icache = (\<lambda>_. zero_inode), ftable = (\<lambda>_. zero_file), ofile = (\<lambda>_. None), cwd = 0,
     pipes = (\<lambda>_. zero_pipe), kpages = [], killed = False,
     umem = (\<lambda>_. 0), usz = 0, uesp = 0\<rparr>"

subsection \<open>Sleep locks (\<open>sleeplock.c\<close>)\<close>

text \<open>
  \<open>acquiresleep\<close> sleeps while the lock is held; with one process running nobody else releases it,
  so a held lock is the outcome \<open>Sleeps\<close>. \<open>holdingsleep\<close> tests only that the lock is held.
\<close>

definition initsleeplock :: sleeplock where
  "initsleeplock = \<lparr>sl_locked = False, sl_pid = 0\<rparr>"

definition acquiresleep :: "int \<Rightarrow> sleeplock \<Rightarrow> sleeplock outcome" where
  "acquiresleep pid lk = (if sl_locked lk then Sleeps else Done \<lparr>sl_locked = True, sl_pid = pid\<rparr>)"

definition releasesleep :: "sleeplock \<Rightarrow> sleeplock" where
  "releasesleep lk = \<lparr>sl_locked = False, sl_pid = 0\<rparr>"

definition holdingsleep :: "sleeplock \<Rightarrow> bool" where
  "holdingsleep lk = sl_locked lk"

lemma acquiresleep_Done: "acquiresleep pid lk = Done lk' \<longleftrightarrow>
    \<not> sl_locked lk \<and> lk' = \<lparr>sl_locked = True, sl_pid = pid\<rparr>"
  by (auto simp: acquiresleep_def)

lemma releasesleep_simps [simp]: "sl_locked (releasesleep lk) = False"
  by (simp add: releasesleep_def)

end
