(* ===== verification/BlockStore.thy ===== *)
theory BlockStore
  imports Prelude
begin

text \<open>
  The interface between the file system and the block layer below it. The operations are \<open>rd\<close>
  (\<open>bread\<close>: lock a block's buffer and return its handle), \<open>wr\<close> (store new contents through a handle:
  \<open>bwrite\<close>, or \<open>log_write\<close> inside a transaction) and \<open>rel\<close> (\<open>brelse\<close>). \<open>view\<close> is the contents of
  the blocks as the client sees them, \<open>held\<close> the blocks that are locked, and \<open>inv k\<close> the provider's
  invariant together with room for \<open>k\<close> more writes.
\<close>

locale block_store =
  fixes inv :: "nat \<Rightarrow> 's \<Rightarrow> bool"
    and view :: "'s \<Rightarrow> 'b \<Rightarrow> 'd"
    and held :: "'s \<Rightarrow> 'b set"
    and has :: "'s \<Rightarrow> nat \<Rightarrow> 'b \<Rightarrow> bool"
    and dat :: "'s \<Rightarrow> nat \<Rightarrow> 'd"
    and frame :: "'s \<Rightarrow> 's \<Rightarrow> bool"
    and rok :: "'s \<Rightarrow> 'b \<Rightarrow> bool"
    and wok :: "'s \<Rightarrow> 'b \<Rightarrow> bool"
    and rd :: "'b \<Rightarrow> 's \<Rightarrow> (nat \<times> 's) outcome"
    and wr :: "nat \<Rightarrow> 'd \<Rightarrow> 's \<Rightarrow> 's outcome"
    and rel :: "nat \<Rightarrow> 's \<Rightarrow> 's outcome"
  assumes inv_less: "inv (Suc k) s \<Longrightarrow> inv k s"
    and frame_refl: "frame s s"
    and frame_trans: "frame s t \<Longrightarrow> frame t u \<Longrightarrow> frame s u"
    and frame_ok: "frame s t \<Longrightarrow> rok t = rok s \<and> wok t = wok s"
    and wok_rok: "wok s b \<Longrightarrow> rok s b"
    and has_data: "inv k s \<Longrightarrow> has s i b \<Longrightarrow> dat s i = view s b \<and> b \<in> held s"
    and rd: "inv k s \<Longrightarrow> rok s b \<Longrightarrow> b \<notin> held s \<Longrightarrow> card (held s) \<le> k \<Longrightarrow>
      returns (rd b s) (\<lambda>(i, t). inv k t \<and> has t i b \<and> view t = view s
        \<and> held t = insert b (held s) \<and> frame s t \<and> (\<forall>j c. has s j c \<longrightarrow> has t j c))"
    and wr: "inv (Suc k) s \<Longrightarrow> has s i b \<Longrightarrow> wok s b \<Longrightarrow>
      returns (wr i d s) (\<lambda>t. inv k t \<and> view t = (view s)(b := d) \<and> held t = held s
        \<and> frame s t \<and> (\<forall>j c. has t j c = has s j c))"
    and rel: "inv k s \<Longrightarrow> has s i b \<Longrightarrow>
      returns (rel i s) (\<lambda>t. inv k t \<and> view t = view s \<and> held t = held s - {b}
        \<and> frame s t \<and> (\<forall>j c. has t j c \<longleftrightarrow> has s j c \<and> c \<noteq> b))"
begin

lemma inv_mono: "j \<le> k \<Longrightarrow> inv k s \<Longrightarrow> inv j s"
  by (induction k rule: dec_induct) (auto dest: inv_less)

text \<open>The three operations in elimination form, for proofs that follow the code.\<close>

lemma rdE:
  assumes "inv k s" "rok s b" "b \<notin> held s" "card (held s) \<le> k"
  obtains i t where "rd b s = Done (i, t)" "inv k t" "has t i b" "dat t i = view s b"
    "view t = view s" "held t = insert b (held s)" "frame s t" "\<forall>j c. has s j c \<longrightarrow> has t j c"
proof -
  obtain i t where "rd b s = Done (i, t)" "inv k t" "has t i b" "view t = view s"
    "held t = insert b (held s)" "frame s t" "\<forall>j c. has s j c \<longrightarrow> has t j c"
    using rd [OF assms] by (auto simp: returns_def)
  then show thesis
    using that has_data by metis
qed

lemma wrE:
  assumes "inv (Suc k) s" "has s i b" "wok s b"
  obtains t where "wr i d s = Done t" "inv k t" "view t = (view s)(b := d)" "held t = held s"
    "frame s t" "\<forall>j c. has t j c = has s j c"
  using wr [OF assms, of d] by (auto simp: returns_def)

lemma relE:
  assumes "inv k s" "has s i b"
  obtains t where "rel i s = Done t" "inv k t" "view t = view s" "held t = held s - {b}"
    "frame s t" "\<forall>j c. has t j c \<longleftrightarrow> has s j c \<and> c \<noteq> b"
  using rel [OF assms] by (auto simp: returns_def)

text \<open>Reading one block: its contents are the view's, and nothing else changes.\<close>

lemma peek:
  assumes "inv k s" "rok s b" "b \<notin> held s" "card (held s) \<le> k"
  obtains i t u where "rd b s = Done (i, t)" "dat t i = view s b" "rel i t = Done u" "inv k u"
    "view u = view s" "held u = held s" "frame s t" "frame s u" "\<forall>j c. has s j c \<longrightarrow> has u j c"
    "inv k t"
proof -
  obtain i t where 1: "rd b s = Done (i, t)" "inv k t" "has t i b" "dat t i = view s b"
    "view t = view s" "held t = insert b (held s)" "frame s t" "\<forall>j c. has s j c \<longrightarrow> has t j c"
    by (rule rdE [OF assms])
  obtain u where 2: "rel i t = Done u" "inv k u" "view u = view t" "held u = held t - {b}" "frame t u"
    "\<forall>j c. has u j c \<longleftrightarrow> has t j c \<and> c \<noteq> b"
    by (rule relE [OF 1(2,3)])
  have "\<forall>j c. has s j c \<longrightarrow> has u j c"
    using 1(8) 2(6) has_data [OF assms(1)] assms(3) by auto
  then show thesis
    by (intro that [OF 1(1,4) 2(1,2)])
       (use 1(2,5-7) 2(3,4) assms(3) frame_trans [OF 1(7) 2(5)] in auto)
qed

text \<open>Read, modify, write, release: an update of the view at one block.\<close>

lemma modify:
  assumes "inv (Suc k) s" "wok s b" "b \<notin> held s" "card (held s) \<le> Suc k"
  obtains i t u v where "rd b s = Done (i, t)" "dat t i = view s b" "wr i d t = Done u"
    "rel i u = Done v" "inv k v" "view v = (view s)(b := d)" "held v = held s"
    "frame s t" "frame s u" "frame s v" "\<forall>j c. has s j c \<longrightarrow> has v j c"
proof -
  obtain i t where 1: "rd b s = Done (i, t)" "inv (Suc k) t" "has t i b" "dat t i = view s b"
    "view t = view s" "held t = insert b (held s)" "frame s t" "\<forall>j c. has s j c \<longrightarrow> has t j c"
    by (rule rdE [OF assms(1) wok_rok [OF assms(2)] assms(3,4)])
  have "wok t b"
    using frame_ok [OF 1(7)] assms(2) by simp
  then obtain u where 2: "wr i d t = Done u" "inv k u" "view u = (view t)(b := d)" "held u = held t"
    "frame t u" "\<forall>j c. has u j c = has t j c"
    using wrE [OF 1(2,3)] by metis
  have "has u i b"
    using 2(6) 1(3) by simp
  then obtain v where 3: "rel i u = Done v" "inv k v" "view v = view u" "held v = held u - {b}" "frame u v"
    "\<forall>j c. has v j c \<longleftrightarrow> has u j c \<and> c \<noteq> b"
    by (rule relE [OF 2(2)])
  have "\<forall>j c. has s j c \<longrightarrow> has v j c"
    using 1(8) 2(6) 3(6) has_data [OF assms(1)] assms(3) by auto
  then show thesis
    by (intro that [OF 1(1,4) 2(1) 3(1,2)])
       (use 1(5-7) 2(3,4) 3(3,4) assms(3) frame_trans [OF 1(7) 2(5)]
         frame_trans [OF frame_trans [OF 1(7) 2(5)] 3(5)] in auto)
qed

end

end
