(* ===== verification/BufCache.thy ===== *)
theory BufCache
  imports KernelState BlockStore
begin

text \<open>
  The buffer cache (\<open>bio.c\<close>) over the memory disk driver (\<open>memide.c\<close>): \<open>binit\<close>, \<open>bget\<close>, \<open>bread\<close>,
  \<open>bwrite\<close>, \<open>brelse\<close> and \<open>iderw\<close>, with the least-recently-used list as the code's doubly linked
  circular list. The lemmas show that the links always form one circular list of all buffers, that
  a block is cached in at most one buffer, and that the cache is transparent.
\<close>

subsection \<open>Operations\<close>

text \<open>Index \<open>NBUF\<close> stands for \<open>bcache.head\<close>.\<close>

abbreviation BHEAD :: nat where "BHEAD \<equiv> 30"

definition upd_buf :: "nat \<Rightarrow> (buf \<Rightarrow> buf) \<Rightarrow> kst \<Rightarrow> kst" where
  "upd_buf i f s = s\<lparr>bufs := (bufs s)(i := f (bufs s i))\<rparr>"

definition set_data :: "nat \<Rightarrow> block \<Rightarrow> kst \<Rightarrow> kst" where
  "set_data i d = upd_buf i (b_data_update (\<lambda>_. d))"

text \<open>The body of \<open>binit\<close>'s loop links buffer \<open>b\<close> in behind the head.\<close>

definition link_head :: "nat \<Rightarrow> kst \<Rightarrow> kst" where
  "link_head b s =
    (let s = s\<lparr>bnext := (bnext s)(b := bnext s BHEAD)\<rparr>;
         s = s\<lparr>bprev := (bprev s)(b := BHEAD)\<rparr>;
         s = s\<lparr>bprev := (bprev s)(bnext s BHEAD := b)\<rparr>
     in s\<lparr>bnext := (bnext s)(BHEAD := b)\<rparr>)"

definition binit :: "kst \<Rightarrow> kst" where
  "binit s =
    (let s = s\<lparr>bprev := (bprev s)(BHEAD := BHEAD), bnext := (bnext s)(BHEAD := BHEAD)\<rparr>
     in fold (\<lambda>b s. link_head b (upd_buf b (b_lock_update (\<lambda>_. initsleeplock)) s)) [0..<NBUF] s)"

text \<open>
  Following a link from \<open>b\<close> until the head or a buffer that satisfies \<open>p\<close>; \<open>None\<close> when \<open>fuel\<close> steps
  are not enough, which never happens on a well-formed list (\<open>bscan_dll\<close>).
\<close>

fun bscan :: "(nat \<Rightarrow> nat) \<Rightarrow> (nat \<Rightarrow> bool) \<Rightarrow> nat \<Rightarrow> nat \<Rightarrow> nat option option" where
  "bscan nx p 0 b = (if b = BHEAD then Some None else if p b then Some (Some b) else None)"
| "bscan nx p (Suc k) b =
     (if b = BHEAD then Some None else if p b then Some (Some b) else bscan nx p k (nx b))"

definition lock_buf :: "nat \<Rightarrow> kst \<Rightarrow> (nat \<times> kst) outcome" where
  "lock_buf i s = bindO (acquiresleep (curpid s) (b_lock (bufs s i)))
     (\<lambda>lk. Done (i, upd_buf i (b_lock_update (\<lambda>_. lk)) s))"

definition bget :: "u32 \<Rightarrow> u32 \<Rightarrow> kst \<Rightarrow> (nat \<times> kst) outcome" where
  "bget dev blockno s =
    (case bscan (bnext s) (\<lambda>b. b_dev (bufs s b) = dev \<and> b_blockno (bufs s b) = blockno) NBUF
            (bnext s BHEAD) of
       None \<Rightarrow> Undef
     | Some (Some b) \<Rightarrow> lock_buf b (upd_buf b (\<lambda>x. x\<lparr>b_refcnt := b_refcnt x + 1\<rparr>) s)
     | Some None \<Rightarrow>
        (case bscan (bprev s) (\<lambda>b. b_refcnt (bufs s b) = 0 \<and> \<not> b_dirty (bufs s b)) NBUF
                (bprev s BHEAD) of
           None \<Rightarrow> Undef
         | Some (Some b) \<Rightarrow>
             lock_buf b (upd_buf b (\<lambda>x. x\<lparr>b_dev := dev, b_blockno := blockno, b_valid := False,
               b_dirty := False, b_refcnt := 1\<rparr>) s)
         | Some None \<Rightarrow> Panic ''bget: no buffers''))"

definition iderw :: "nat \<Rightarrow> kst \<Rightarrow> kst outcome" where
  "iderw i s =
    (let b = bufs s i in
     if \<not> holdingsleep (b_lock b) then Panic ''iderw: buf not locked''
     else if b_valid b \<and> \<not> b_dirty b then Panic ''iderw: nothing to do''
     else if b_dev b \<noteq> 1 then Panic ''iderw: request not for disk 1''
     else if b_blockno b \<ge> disksize s then Panic ''iderw: block out of range''
     else if b_dirty b then
       Done (upd_buf i (\<lambda>x. x\<lparr>b_dirty := False, b_valid := True\<rparr>)
         (s\<lparr>memdisk := (memdisk s)(b_blockno b := b_data b),
            dwrites := dwrites s @ [(b_blockno b, b_data b)]\<rparr>))
     else Done (upd_buf i (\<lambda>x. x\<lparr>b_data := memdisk s (b_blockno b), b_valid := True\<rparr>) s))"

definition bread :: "u32 \<Rightarrow> u32 \<Rightarrow> kst \<Rightarrow> (nat \<times> kst) outcome" where
  "bread dev blockno s = bindS (bget dev blockno s)
     (\<lambda>b s. if b_valid (bufs s b) then Done (b, s) else bindO (iderw b s) (\<lambda>s. Done (b, s)))"

definition bwrite :: "nat \<Rightarrow> kst \<Rightarrow> kst outcome" where
  "bwrite i s =
    (if \<not> holdingsleep (b_lock (bufs s i)) then Panic ''bwrite''
     else iderw i (upd_buf i (b_dirty_update (\<lambda>_. True)) s))"

text \<open>Unlinking a buffer: \<open>b->next->prev = b->prev; b->prev->next = b->next\<close>.\<close>

definition unlink_buf :: "nat \<Rightarrow> kst \<Rightarrow> kst" where
  "unlink_buf b s =
    (let s = s\<lparr>bprev := (bprev s)(bnext s b := bprev s b)\<rparr>
     in s\<lparr>bnext := (bnext s)(bprev s b := bnext s b)\<rparr>)"

definition brelse :: "nat \<Rightarrow> kst \<Rightarrow> kst outcome" where
  "brelse i s =
    (if \<not> holdingsleep (b_lock (bufs s i)) then Panic ''brelse''
     else let s = upd_buf i (\<lambda>x. x\<lparr>b_lock := releasesleep (b_lock x)\<rparr>) s;
              s = upd_buf i (\<lambda>x. x\<lparr>b_refcnt := b_refcnt x - 1\<rparr>) s
          in Done (if b_refcnt (bufs s i) = 0 then link_head i (unlink_buf i s) else s))"

subsection \<open>The circular list\<close>

text \<open>
  The links represent the list \<open>xs\<close> of buffers, most recently used first: following \<open>next\<close> from the
  head goes through \<open>xs\<close> back to the head, and \<open>prev\<close> goes the other way.
\<close>

definition dll :: "(nat \<Rightarrow> nat) \<Rightarrow> (nat \<Rightarrow> nat) \<Rightarrow> nat list \<Rightarrow> bool" where
  "dll nx pv xs \<longleftrightarrow> map nx (BHEAD # xs) = xs @ [BHEAD] \<and> map pv (xs @ [BHEAD]) = BHEAD # xs
     \<and> distinct (BHEAD # xs)"

definition lru_ok :: "kst \<Rightarrow> bool" where
  "lru_ok s \<longleftrightarrow> (\<exists>xs. dll (bnext s) (bprev s) xs \<and> set xs = {..<NBUF})"

lemma map_upd_notin: "x \<notin> set xs \<Longrightarrow> map (f(x := y)) xs = map f xs"
  by (induction xs) auto

lemma link_head_dll:
  assumes "dll (bnext s) (bprev s) xs" "b \<notin> set xs" "b \<noteq> BHEAD"
  shows "dll (bnext (link_head b s)) (bprev (link_head b s)) (b # xs)"
  using assms by (cases xs) (auto simp: dll_def link_head_def Let_def map_upd_notin)

text \<open>The neighbours of a member of the list, as the links give them.\<close>

lemma dll_neighbours:
  assumes d: "dll nx pv (ys @ b # zs)"
    and us: "BHEAD # ys = us @ [p]" and vs: "zs @ [BHEAD] = n # vs"
  shows "nx p = b" "nx b = n" "pv b = p" "pv n = b"
    "map nx us = ys" "map nx zs = vs" "map pv ys = us" "map pv vs = zs"
proof -
  have "map nx (us @ [p]) @ map nx (b # zs) = (ys @ [b]) @ n # vs"
    using d unfolding dll_def us [symmetric] vs [symmetric] by simp
  moreover have "length (map nx (us @ [p])) = length (ys @ [b])"
    using arg_cong [OF us, of length] by simp
  ultimately have "map nx (us @ [p]) = ys @ [b] \<and> map nx (b # zs) = n # vs"
    by (rule append_eq_append_conv [THEN iffD1, rotated, OF _ disjI1])
  then show "nx p = b" "nx b = n" "map nx us = ys" "map nx zs = vs"
    by simp_all
  have "map pv (ys @ [b]) @ map pv (n # vs) = (us @ [p]) @ b # zs"
    using d unfolding dll_def us [symmetric] vs [symmetric] by simp
  moreover have "length (map pv (ys @ [b])) = length (us @ [p])"
    using arg_cong [OF us, of length] by simp
  ultimately have "map pv (ys @ [b]) = us @ [p] \<and> map pv (n # vs) = b # zs"
    by (rule append_eq_append_conv [THEN iffD1, rotated, OF _ disjI1])
  then show "pv b = p" "pv n = b" "map pv ys = us" "map pv vs = zs"
    by simp_all
qed

lemma dll_unlink:
  assumes d: "dll nx pv (ys @ b # zs)"
  shows "dll (nx(pv b := nx b)) (pv(nx b := pv b)) (ys @ zs)"
proof -
  obtain us p where us: "BHEAD # ys = us @ [p]"
    by (metis append_butlast_last_id list.distinct(1))
  obtain n vs where vs: "zs @ [BHEAD] = n # vs"
    by (cases "zs @ [BHEAD]") auto
  note nb = dll_neighbours [OF d us vs]
  have dist: "distinct ((us @ [p]) @ b # zs)" "distinct (ys @ b # n # vs)"
    using d unfolding dll_def us [symmetric] vs [symmetric] by simp_all
  have e: "BHEAD # ys @ zs = us @ [p] @ zs" "(ys @ zs) @ [BHEAD] = ys @ n # vs"
    using us vs by simp_all
  have "map (nx(p := n)) (us @ [p] @ zs) = ys @ n # vs"
    using dist(1) nb by (simp add: map_upd_notin)
  moreover have "map (pv(n := p)) (ys @ n # vs) = us @ [p] @ zs"
    using dist(2) nb by (simp add: map_upd_notin)
  moreover have "distinct (us @ [p] @ zs)"
    using dist(1) by simp
  ultimately show ?thesis
    unfolding dll_def e nb(2,3) by (intro conjI)
qed

lemma unlink_buf_dll:
  assumes "dll (bnext s) (bprev s) xs" "b \<in> set xs"
  shows "dll (bnext (unlink_buf b s)) (bprev (unlink_buf b s)) (remove1 b xs)"
proof -
  obtain ys zs where xs: "xs = ys @ b # zs" "b \<notin> set ys"
    using assms(2) by (metis split_list_first)
  obtain us p where us: "BHEAD # ys = us @ [p]"
    by (metis append_butlast_last_id list.distinct(1))
  obtain n vs where vs: "zs @ [BHEAD] = n # vs"
    by (cases "zs @ [BHEAD]") auto
  have d: "dll (bnext s) (bprev s) (ys @ b # zs)"
    using assms(1) xs(1) by simp
  have "b \<noteq> n"
    using d vs by (cases zs) (auto simp: dll_def)
  then have "((bprev s)(bnext s b := bprev s b)) b = bprev s b"
    using dll_neighbours(2) [OF d us vs] by simp
  then show ?thesis
    using dll_unlink [OF d] xs by (simp add: unlink_buf_def remove1_append Let_def)
qed

text \<open>A scan that follows a well-formed list visits its members in order and ends at the head.\<close>

lemma bscan_BHEAD [simp]: "bscan nx p k BHEAD = Some None"
  by (cases k) auto

lemma bscan_path:
  "map nx xs = tl xs @ [BHEAD] \<Longrightarrow> BHEAD \<notin> set xs \<Longrightarrow> length xs \<le> k \<Longrightarrow>
   bscan nx p k (hd (xs @ [BHEAD])) = Some (find p xs)"
proof (induction xs arbitrary: k)
  case Nil
  then show ?case by (cases k) auto
next
  case (Cons x xs)
  then show ?case
    by (cases k; cases xs) auto
qed

lemma bscan_next:
  "dll nx pv xs \<Longrightarrow> length xs \<le> k \<Longrightarrow> bscan nx p k (nx BHEAD) = Some (find p xs)"
  using bscan_path [of nx xs k p] by (cases xs) (auto simp: dll_def)

lemma dll_rev:
  assumes "dll nx pv xs"
  shows "dll pv nx (rev xs)"
proof -
  have "map nx (BHEAD # xs) = xs @ [BHEAD]" "map pv (xs @ [BHEAD]) = BHEAD # xs"
    using assms by (simp_all add: dll_def)
  from this [THEN arg_cong, of rev] show ?thesis
    using assms by (simp add: dll_def rev_map)
qed

lemma bscan_prev:
  "dll nx pv xs \<Longrightarrow> length xs \<le> k \<Longrightarrow> bscan pv p k (pv BHEAD) = Some (find p (rev xs))"
  using bscan_next [OF dll_rev] by simp

subsection \<open>The cache invariant and the view of the disk through the cache\<close>

text \<open>
  \<open>bview s bno\<close> is the content of block \<open>bno\<close> as the kernel sees it: the cached copy if there is
  one, else what is on the disk. \<open>heldb\<close> and \<open>dirtyb\<close> are the blocks whose buffers are locked, and
  the ones pinned by \<open>B_DIRTY\<close>.
\<close>

definition bfind :: "kst \<Rightarrow> u32 \<Rightarrow> nat option" where
  "bfind s bno = first_index (\<lambda>i. b_valid (bufs s i) \<and> b_blockno (bufs s i) = bno) NBUF"

definition bview :: "kst \<Rightarrow> u32 \<Rightarrow> block" where
  "bview s bno = (case bfind s bno of Some i \<Rightarrow> b_data (bufs s i) | None \<Rightarrow> memdisk s bno)"

definition heldb :: "kst \<Rightarrow> u32 set" where
  "heldb s = (\<lambda>i. b_blockno (bufs s i)) ` {i. i < NBUF \<and> sl_locked (b_lock (bufs s i))}"

definition dirtyb :: "kst \<Rightarrow> u32 set" where
  "dirtyb s = (\<lambda>i. b_blockno (bufs s i)) ` {i. i < NBUF \<and> b_dirty (bufs s i)}"

definition buf_ok :: "kst \<Rightarrow> buf \<Rightarrow> bool" where
  "buf_ok s b \<longleftrightarrow> b_refcnt b = (if sl_locked (b_lock b) then 1 else 0)
     \<and> (sl_locked (b_lock b) \<longrightarrow> b_valid b) \<and> (b_dirty b \<longrightarrow> b_valid b)
     \<and> b_dev b = (if b_valid b then 1 else 0)
     \<and> (b_valid b \<longrightarrow> b_blockno b < disksize s)
     \<and> (b_valid b \<and> \<not> b_dirty b \<longrightarrow> b_data b = memdisk s (b_blockno b))"

definition bc_inv :: "kst \<Rightarrow> bool" where
  "bc_inv s \<longleftrightarrow> lru_ok s \<and> (\<forall>i<NBUF. buf_ok s (bufs s i))
     \<and> (\<forall>i<NBUF. \<forall>j<NBUF. b_valid (bufs s i) \<and> b_valid (bufs s j)
          \<and> b_blockno (bufs s i) = b_blockno (bufs s j) \<longrightarrow> i = j)"

text \<open>Buffer \<open>i\<close> is the locked buffer of block \<open>bno\<close>: what \<open>bread\<close> returns.\<close>

definition holds :: "kst \<Rightarrow> nat \<Rightarrow> u32 \<Rightarrow> bool" where
  "holds s i bno \<longleftrightarrow> i < NBUF \<and> sl_locked (b_lock (bufs s i)) \<and> b_valid (bufs s i)
     \<and> b_blockno (bufs s i) = bno"

text \<open>The part of the state that the buffer cache leaves alone.\<close>

definition bc_frame :: "kst \<Rightarrow> kst \<Rightarrow> bool" where
  "bc_frame s s' \<longleftrightarrow> s' = s\<lparr>bufs := bufs s', bnext := bnext s', bprev := bprev s',
     memdisk := memdisk s', dwrites := dwrites s'\<rparr>"

lemma bc_frame_refl [simp]: "bc_frame s s"
  by (simp add: bc_frame_def)

lemma bc_frame_trans: "bc_frame s t \<Longrightarrow> bc_frame t u \<Longrightarrow> bc_frame s u"
  unfolding bc_frame_def by (cases s; cases t; cases u) simp

lemma bc_frame_sels:
  assumes "bc_frame s s'"
  shows "curpid s' = curpid s" "disksize s' = disksize s" "log_start s' = log_start s"
    "log_size s' = log_size s" "log_outstanding s' = log_outstanding s"
    "log_committing s' = log_committing s" "log_dev s' = log_dev s" "lh_n s' = lh_n s"
    "lh_block s' = lh_block s" "sb s' = sb s" "icache s' = icache s" "ftable s' = ftable s"
    "ofile s' = ofile s" "cwd s' = cwd s" "pipes s' = pipes s" "kpages s' = kpages s"
    "killed s' = killed s" "umem s' = umem s" "usz s' = usz s" "uesp s' = uesp s"
  using assms unfolding bc_frame_def by (cases s; cases s'; simp)+

lemma bc_frame_upd:
  "bc_frame s (upd_buf i f s)" "bc_frame s (set_data i d s)"
  "bc_frame s (link_head i s)" "bc_frame s (unlink_buf i s)"
  by (simp_all add: bc_frame_def upd_buf_def set_data_def link_head_def unlink_buf_def Let_def)

lemma bc_invD:
  assumes "bc_inv s" "i < NBUF"
  shows "buf_ok s (bufs s i)"
  using assms by (simp add: bc_inv_def)

lemma bc_inv_unique:
  "bc_inv s \<Longrightarrow> i < NBUF \<Longrightarrow> j < NBUF \<Longrightarrow> b_valid (bufs s i) \<Longrightarrow> b_valid (bufs s j) \<Longrightarrow>
   b_blockno (bufs s i) = b_blockno (bufs s j) \<Longrightarrow> i = j"
  unfolding bc_inv_def by blast

lemma bfind_Some:
  assumes "bc_inv s"
  shows "bfind s bno = Some i \<longleftrightarrow> i < NBUF \<and> b_valid (bufs s i) \<and> b_blockno (bufs s i) = bno"
proof
  assume "i < NBUF \<and> b_valid (bufs s i) \<and> b_blockno (bufs s i) = bno"
  moreover from this have "\<not> (b_valid (bufs s j) \<and> b_blockno (bufs s j) = bno)" if "j < i" for j
    using that bc_inv_unique [OF assms, of j i] by auto
  ultimately show "bfind s bno = Some i"
    unfolding bfind_def first_index_Some by blast
qed (simp add: bfind_def first_index_Some)

lemma bfind_None: "bfind s bno = None \<longleftrightarrow> (\<forall>i<NBUF. b_valid (bufs s i) \<longrightarrow> b_blockno (bufs s i) \<noteq> bno)"
  by (auto simp: bfind_def first_index_None)

lemma holds_bfind: "bc_inv s \<Longrightarrow> holds s i bno \<Longrightarrow> bfind s bno = Some i"
  by (simp add: bfind_Some holds_def)

lemma bview_holds: "bc_inv s \<Longrightarrow> holds s i bno \<Longrightarrow> bview s bno = b_data (bufs s i)"
  by (simp add: bview_def holds_bfind)

lemma holds_unique: "bc_inv s \<Longrightarrow> holds s i b \<Longrightarrow> holds s j b \<Longrightarrow> i = j"
  by (auto simp: holds_def dest: bc_inv_unique)

lemma holds_heldb: "holds s i bno \<Longrightarrow> bno \<in> heldb s"
  by (auto simp: holds_def heldb_def)

lemma heldb_holds: "bc_inv s \<Longrightarrow> bno \<in> heldb s \<Longrightarrow> \<exists>i. holds s i bno"
  by (auto simp: holds_def heldb_def bc_inv_def buf_ok_def)

lemma holds_less: "bc_inv s \<Longrightarrow> holds s i bno \<Longrightarrow> bno < disksize s"
  by (auto simp: holds_def bc_inv_def buf_ok_def)

lemma upd_buf_sels [simp]:
  "bufs (upd_buf i f s) j = (if j = i then f (bufs s i) else bufs s j)"
  "bnext (upd_buf i f s) = bnext s" "bprev (upd_buf i f s) = bprev s"
  "memdisk (upd_buf i f s) = memdisk s" "dwrites (upd_buf i f s) = dwrites s"
  "disksize (upd_buf i f s) = disksize s" "curpid (upd_buf i f s) = curpid s"
  by (simp_all add: upd_buf_def)

lemma lru_ok_upd_buf [simp]: "lru_ok (upd_buf i f s) = lru_ok s"
  by (simp add: lru_ok_def)

lemma link_sels [simp]:
  "bufs (link_head i s) = bufs s" "memdisk (link_head i s) = memdisk s"
  "dwrites (link_head i s) = dwrites s" "disksize (link_head i s) = disksize s"
  "bufs (unlink_buf i s) = bufs s" "memdisk (unlink_buf i s) = memdisk s"
  "dwrites (unlink_buf i s) = dwrites s" "disksize (unlink_buf i s) = disksize s"
  by (simp_all add: link_head_def unlink_buf_def Let_def)

text \<open>Releasing a buffer keeps the list a list of all buffers.\<close>

lemma lru_ok_touch:
  assumes "lru_ok s" "i < NBUF"
  shows "lru_ok (link_head i (unlink_buf i s))"
proof -
  obtain xs where xs: "dll (bnext s) (bprev s) xs" "set xs = {..<NBUF}"
    using assms(1) by (auto simp: lru_ok_def)
  have i: "i \<in> set xs" "distinct xs"
    using xs assms(2) by (auto simp: dll_def)
  let ?u = "unlink_buf i s"
  have "dll (bnext ?u) (bprev ?u) (remove1 i xs)"
    by (rule unlink_buf_dll [OF xs(1) i(1)])
  then have "dll (bnext (link_head i ?u)) (bprev (link_head i ?u)) (i # remove1 i xs)"
    by (rule link_head_dll) (use i assms(2) in \<open>auto simp: set_remove1_eq\<close>)
  moreover have "set (i # remove1 i xs) = {..<NBUF}"
    using i xs(2) assms(2) by (auto simp: set_remove1_eq)
  ultimately show ?thesis
    unfolding lru_ok_def by blast
qed

lemma find_set_None: "find p xs = None \<longleftrightarrow> (\<forall>x\<in>set xs. \<not> p x)"
  by (auto simp: find_None_iff)

lemma find_set_Some: "find p xs = Some x \<Longrightarrow> x \<in> set xs \<and> p x"
  by (induction xs) (auto split: if_splits)

lemma upd_buf_upd_buf: "upd_buf i f (upd_buf i g s) = upd_buf i (\<lambda>x. f (g x)) s"
  by (simp add: upd_buf_def)

text \<open>What \<open>bread\<close> does, case by case.\<close>

definition got_cached :: "int \<Rightarrow> buf \<Rightarrow> buf" where
  "got_cached pid x = x\<lparr>b_refcnt := b_refcnt x + 1, b_lock := \<lparr>sl_locked = True, sl_pid = pid\<rparr>\<rparr>"

definition got_fresh :: "int \<Rightarrow> u32 \<Rightarrow> block \<Rightarrow> buf \<Rightarrow> buf" where
  "got_fresh pid bno d x = x\<lparr>b_dev := 1, b_blockno := bno, b_dirty := False,
     b_refcnt := 1, b_lock := \<lparr>sl_locked = True, sl_pid = pid\<rparr>, b_data := d, b_valid := True\<rparr>"

definition evictable :: "kst \<Rightarrow> nat \<Rightarrow> bool" where
  "evictable s i \<longleftrightarrow> i < NBUF \<and> b_refcnt (bufs s i) = 0 \<and> \<not> b_dirty (bufs s i)"

lemma evictable_unlocked: "bc_inv s \<Longrightarrow> evictable s i \<Longrightarrow> \<not> sl_locked (b_lock (bufs s i))"
  by (auto simp: evictable_def buf_ok_def dest!: bc_invD split: if_splits)

lemma bread_hit:
  assumes inv: "bc_inv s" and hit: "bfind s bno = Some i"
  shows "bread 1 bno s = (if sl_locked (b_lock (bufs s i)) then Sleeps
    else Done (i, upd_buf i (got_cached (curpid s)) s))"
proof -
  obtain xs where xs: "dll (bnext s) (bprev s) xs" "set xs = {..<NBUF}"
    using inv by (auto simp: bc_inv_def lru_ok_def)
  let ?p = "\<lambda>b. b_dev (bufs s b) = 1 \<and> b_blockno (bufs s b) = bno"
  have len: "length xs = NBUF"
    using xs by (metis distinct_card card_lessThan dll_def distinct.simps(2))
  have i: "i < NBUF" "b_valid (bufs s i)" "b_blockno (bufs s i) = bno"
    using hit inv by (simp_all add: bfind_Some)
  then have "?p i"
    using bc_invD [OF inv i(1)] by (simp add: buf_ok_def)
  moreover have "j = i" if "j < NBUF" "?p j" for j
    using that i bc_inv_unique [OF inv, of j i] bc_invD [OF inv that(1)]
    by (auto simp: buf_ok_def split: if_splits)
  ultimately have "find ?p xs = Some i"
    using xs(2) i(1) find_set_Some [of ?p xs] find_set_None [of ?p xs]
    by (cases "find ?p xs") blast+
  then have "bscan (bnext s) ?p NBUF (bnext s BHEAD) = Some (Some i)"
    using bscan_next [OF xs(1), of NBUF ?p] len by simp
  then have "bget 1 bno s = lock_buf i (upd_buf i (\<lambda>x. x\<lparr>b_refcnt := b_refcnt x + 1\<rparr>) s)"
    unfolding bget_def by (simp only: option.case)
  also have "\<dots> = (if sl_locked (b_lock (bufs s i)) then Sleeps
      else Done (i, upd_buf i (got_cached (curpid s)) s))"
    by (simp add: lock_buf_def acquiresleep_def upd_buf_upd_buf got_cached_def [abs_def])
  finally show ?thesis
    using i by (simp add: bread_def got_cached_def)
qed

lemma bread_miss:
  assumes inv: "bc_inv s" and miss: "bfind s bno = None"
  shows "(\<forall>i. \<not> evictable s i) \<and> bread 1 bno s = Panic ''bget: no buffers''
    \<or> (\<exists>i. evictable s i \<and> bread 1 bno s = (if disksize s \<le> bno
         then Panic ''iderw: block out of range''
         else Done (i, upd_buf i (got_fresh (curpid s) bno (memdisk s bno)) s)))"
proof -
  obtain xs where xs: "dll (bnext s) (bprev s) xs" "set xs = {..<NBUF}"
    using inv by (auto simp: bc_inv_def lru_ok_def)
  let ?p = "\<lambda>b. b_dev (bufs s b) = 1 \<and> b_blockno (bufs s b) = bno"
  let ?q = "\<lambda>b. b_refcnt (bufs s b) = 0 \<and> \<not> b_dirty (bufs s b)"
  have len: "length xs = NBUF"
    using xs by (metis distinct_card card_lessThan dll_def distinct.simps(2))
  have "\<not> ?p j" if "j < NBUF" for j
    using that miss bc_invD [OF inv that] by (auto simp: bfind_None buf_ok_def split: if_splits)
  then have "find ?p xs = None"
    using xs(2) by (simp add: find_set_None)
  then have n: "bscan (bnext s) ?p NBUF (bnext s BHEAD) = Some None"
    using bscan_next [OF xs(1), of NBUF ?p] len by simp
  have q: "bscan (bprev s) ?q NBUF (bprev s BHEAD) = Some (find ?q (rev xs))"
    using bscan_prev [OF xs(1), of NBUF ?q] len by simp
  show ?thesis
  proof (cases "find ?q (rev xs)")
    case None
    then have "\<not> evictable s i" for i
      using xs(2) by (auto simp: find_set_None evictable_def)
    moreover have "bget 1 bno s = Panic ''bget: no buffers''"
      unfolding bget_def n q None by (simp only: option.case)
    ultimately show ?thesis
      by (simp add: bread_def)
  next
    case (Some i)
    then have ev: "evictable s i"
      using xs(2) find_set_Some [OF Some] by (simp add: evictable_def)
    have "bget 1 bno s = lock_buf i (upd_buf i (\<lambda>x. x\<lparr>b_dev := 1, b_blockno := bno,
        b_valid := False, b_dirty := False, b_refcnt := 1\<rparr>) s)"
      unfolding bget_def n q Some by (simp only: option.case)
    also have "\<dots> = Done (i, upd_buf i (\<lambda>x. x\<lparr>b_dev := 1, b_blockno := bno, b_valid := False,
        b_dirty := False, b_refcnt := 1, b_lock := \<lparr>sl_locked = True, sl_pid = curpid s\<rparr>\<rparr>) s)"
      using evictable_unlocked [OF inv ev]
      by (simp add: lock_buf_def acquiresleep_def upd_buf_upd_buf)
    finally have "bread 1 bno s = (if disksize s \<le> bno then Panic ''iderw: block out of range''
         else Done (i, upd_buf i (got_fresh (curpid s) bno (memdisk s bno)) s))"
      by (simp add: bread_def iderw_def holdingsleep_def got_fresh_def upd_buf_def Let_def)
    with ev show ?thesis
      by blast
  qed
qed


subsection \<open>Laws\<close>

lemma bfind_cong:
  "(\<And>i. i < NBUF \<Longrightarrow> b_valid (bufs s' i) = b_valid (bufs s i)
      \<and> b_blockno (bufs s' i) = b_blockno (bufs s i)) \<Longrightarrow> bfind s' bno = bfind s bno"
  unfolding bfind_def by (rule first_index_cong) simp

lemma bfind_less: "bfind s bno = Some i \<Longrightarrow> i < NBUF"
  by (simp add: bfind_def first_index_Some)

lemma bview_cong:
  assumes "\<And>i. i < NBUF \<Longrightarrow> b_valid (bufs s' i) = b_valid (bufs s i)
      \<and> b_blockno (bufs s' i) = b_blockno (bufs s i) \<and> b_data (bufs s' i) = b_data (bufs s i)"
    and "memdisk s' = memdisk s"
  shows "bview s' = bview s"
proof
  fix bno
  have "bfind s' bno = bfind s bno"
    using assms(1) by (intro bfind_cong) simp
  then show "bview s' bno = bview s bno"
    using assms by (cases "bfind s bno") (simp_all add: bview_def bfind_less)
qed

text \<open>Changing one buffer of a state that satisfies the invariant.\<close>

lemma bc_inv_one:
  assumes inv: "bc_inv s" and i: "i < NBUF" and lru: "lru_ok s'"
    and b: "\<And>j. bufs s' j = (if j = i then b' else bufs s j)"
    and ok: "buf_ok s' b'" and rest: "\<And>j. j < NBUF \<Longrightarrow> j \<noteq> i \<Longrightarrow> buf_ok s' (bufs s j)"
    and uniq: "\<And>j. j < NBUF \<Longrightarrow> j \<noteq> i \<Longrightarrow> b_valid (bufs s j) \<Longrightarrow> b_blockno (bufs s j) \<noteq> b_blockno b'"
  shows "bc_inv s'"
  unfolding bc_inv_def
proof (intro conjI allI impI)
  show "lru_ok s'" by (rule lru)
next
  fix j assume "j < NBUF"
  then show "buf_ok s' (bufs s' j)" by (simp add: b ok rest)
next
  fix j k
  assume "j < NBUF" "k < NBUF" "b_valid (bufs s' j) \<and> b_valid (bufs s' k)
    \<and> b_blockno (bufs s' j) = b_blockno (bufs s' k)"
  then show "j = k"
    using uniq [of j] uniq [of k] bc_inv_unique [OF inv, of j k] by (auto simp: b split: if_splits)
qed

lemma buf_ok_frame: "memdisk s' = memdisk s \<Longrightarrow> disksize s' = disksize s \<Longrightarrow> buf_ok s' b = buf_ok s b"
  by (simp add: buf_ok_def)

lemma buf_ok_upd_buf [simp]: "buf_ok (upd_buf i f s) b = buf_ok s b"
  by (rule buf_ok_frame) simp_all

lemma lru_inv: "bc_inv s \<Longrightarrow> lru_ok s"
  by (simp add: bc_inv_def)

text \<open>The contract of \<open>bread\<close>, as one predicate on the states before and after.\<close>

definition bread_spec :: "u32 \<Rightarrow> kst \<Rightarrow> nat \<Rightarrow> kst \<Rightarrow> bool" where
  "bread_spec bno s i s' \<longleftrightarrow> bc_inv s' \<and> holds s' i bno \<and> bno \<notin> heldb s \<and> bview s' = bview s
     \<and> heldb s' = insert bno (heldb s) \<and> dirtyb s' = dirtyb s \<and> memdisk s' = memdisk s
     \<and> dwrites s' = dwrites s \<and> bc_frame s s' \<and> (\<forall>j b. holds s j b \<longrightarrow> holds s' j b)"


lemma heldb_insert:
  assumes "i < NBUF" "\<And>j. bufs s' j = (if j = i then b' else bufs s j)"
    "\<not> sl_locked (b_lock (bufs s i))" "sl_locked (b_lock b')"
  shows "heldb s' = insert (b_blockno b') (heldb s)"
proof -
  have "{j. j < NBUF \<and> sl_locked (b_lock (bufs s' j))}
      = insert i {j. j < NBUF \<and> sl_locked (b_lock (bufs s j))}"
    using assms by auto
  moreover have "(\<lambda>j. b_blockno (bufs s' j)) ` {j. j < NBUF \<and> sl_locked (b_lock (bufs s j))} = heldb s"
    unfolding heldb_def by (rule image_cong) (use assms(2,3) in auto)
  ultimately show ?thesis
    by (simp add: heldb_def [of s'] assms(2))
qed

lemma heldb_bfind:
  "bc_inv s \<Longrightarrow> bno \<in> heldb s \<Longrightarrow> \<exists>i. bfind s bno = Some i \<and> sl_locked (b_lock (bufs s i))"
  by (meson heldb_holds holds_bfind holds_def)

lemma bread_hit_spec:
  assumes inv: "bc_inv s" and hit: "bfind s bno = Some i"
    and un: "\<not> sl_locked (b_lock (bufs s i))"
  shows "bread_spec bno s i (upd_buf i (got_cached (curpid s)) s)" (is "bread_spec _ _ _ ?s")
proof -
  have i: "i < NBUF" "b_valid (bufs s i)" "b_blockno (bufs s i) = bno"
    using hit inv by (simp_all add: bfind_Some)
  have b: "bufs ?s j = (if j = i then got_cached (curpid s) (bufs s i) else bufs s j)" for j
    by simp
  have ok: "buf_ok s (bufs s i)"
    by (rule bc_invD [OF inv i(1)])
  have "bc_inv ?s"
  proof (rule bc_inv_one [OF inv i(1) _ b])
    show "lru_ok ?s" using lru_inv [OF inv] by simp
    show "buf_ok ?s (got_cached (curpid s) (bufs s i))"
      using ok un i(2) by (simp add: buf_ok_def got_cached_def)
  next
    fix j assume "j < NBUF" "j \<noteq> i"
    then show "buf_ok ?s (bufs s j)"
      using bc_invD [OF inv] by simp
  next
    fix j assume "j < NBUF" "j \<noteq> i" "b_valid (bufs s j)"
    then show "b_blockno (bufs s j) \<noteq> b_blockno (got_cached (curpid s) (bufs s i))"
      using bc_inv_unique [OF inv, of j i] i by (auto simp: got_cached_def)
  qed
  moreover have "heldb ?s = insert bno (heldb s)"
    using heldb_insert [OF i(1) b un] i(3) by (simp add: got_cached_def)
  moreover have "bno \<notin> heldb s"
    using un heldb_bfind [OF inv, of bno] hit by force
  moreover have "bview ?s = bview s"
    by (rule bview_cong) (simp_all add: got_cached_def)
  moreover have "dirtyb ?s = dirtyb s"
    unfolding dirtyb_def by (rule image_cong) (auto simp: got_cached_def)
  moreover have "holds ?s i bno"
    using i by (simp add: holds_def got_cached_def)
  moreover have "holds s j b \<Longrightarrow> holds ?s j b" for j b
    by (auto simp: holds_def got_cached_def)
  ultimately show ?thesis
    by (simp add: bread_spec_def bc_frame_upd)
qed

lemma bread_miss_spec:
  assumes inv: "bc_inv s" and miss: "bfind s bno = None" and ev: "evictable s i"
    and dsk: "bno < disksize s"
  shows "bread_spec bno s i (upd_buf i (got_fresh (curpid s) bno (memdisk s bno)) s)"
    (is "bread_spec _ _ _ ?s")
proof -
  have i: "i < NBUF" "\<not> b_dirty (bufs s i)" "\<not> sl_locked (b_lock (bufs s i))"
    using ev evictable_unlocked [OF inv ev] by (simp_all add: evictable_def)
  have b: "bufs ?s j = (if j = i then got_fresh (curpid s) bno (memdisk s bno) (bufs s i)
      else bufs s j)" for j
    by simp
  have inv': "bc_inv ?s"
  proof (rule bc_inv_one [OF inv i(1) _ b])
    show "lru_ok ?s" using lru_inv [OF inv] by simp
    show "buf_ok ?s (got_fresh (curpid s) bno (memdisk s bno) (bufs s i))"
      using dsk by (simp add: buf_ok_def got_fresh_def)
  next
    fix j assume "j < NBUF" "j \<noteq> i"
    then show "buf_ok ?s (bufs s j)"
      using bc_invD [OF inv] by simp
  next
    fix j assume "j < NBUF" "j \<noteq> i" "b_valid (bufs s j)"
    then show "b_blockno (bufs s j) \<noteq> b_blockno (got_fresh (curpid s) bno (memdisk s bno) (bufs s i))"
      using miss by (auto simp: bfind_None got_fresh_def)
  qed
  have view: "bview ?s b = bview s b" for b
  proof (cases "b = bno")
    case True
    have "bfind ?s bno = Some i"
      using i by (simp add: bfind_Some [OF inv'] got_fresh_def)
    then show ?thesis
      using True miss by (simp add: bview_def got_fresh_def)
  next
    case False
    show ?thesis
    proof (cases "bfind s b")
      case None
      then have "bfind ?s b = None"
        using False by (auto simp: bfind_None got_fresh_def)
      with None show ?thesis by (simp add: bview_def)
    next
      case (Some j)
      then have j: "j < NBUF" "b_valid (bufs s j)" "b_blockno (bufs s j) = b"
        using inv by (simp_all add: bfind_Some)
      show ?thesis
      proof (cases "j = i")
        case True
        have "b_data (bufs s i) = memdisk s b"
          using bc_invD [OF inv i(1)] j True i(2) by (simp add: buf_ok_def)
        moreover have "b_blockno (bufs s k) \<noteq> b" if "k < NBUF" "k \<noteq> i" "b_valid (bufs s k)" for k
          using bc_inv_unique [OF inv that(1) i(1)] that j True by auto
        then have "bfind ?s b = None"
          using False by (auto simp: bfind_None got_fresh_def)
        ultimately show ?thesis
          using Some True by (simp add: bview_def)
      next
        case False
        then have "bfind ?s b = Some j"
          using j by (simp add: bfind_Some [OF inv'])
        with Some False show ?thesis by (simp add: bview_def)
      qed
    qed
  qed
  have "heldb ?s = insert bno (heldb s)"
    using heldb_insert [OF i(1) b i(3)] by (simp add: got_fresh_def)
  moreover have "bno \<notin> heldb s"
    using heldb_bfind [OF inv, of bno] miss by force
  moreover have "dirtyb ?s = dirtyb s"
    unfolding dirtyb_def by (rule image_cong) (use i in \<open>auto simp: got_fresh_def\<close>)
  moreover have "holds ?s i bno"
    using i by (simp add: holds_def got_fresh_def)
  moreover have "holds ?s j b" if "holds s j b" for j b
    using that i(3) by (auto simp: holds_def got_fresh_def)
  ultimately show ?thesis
    using inv' view by (simp add: bread_spec_def bc_frame_upd fun_eq_iff)
qed

lemma bread_correct:
  assumes inv: "bc_inv s" and r: "bread 1 bno s = Done (i, s')"
  shows "bread_spec bno s i s'"
proof (cases "bfind s bno")
  case (Some j)
  then show ?thesis
    using r bread_hit [OF inv Some] bread_hit_spec [OF inv Some] by (auto split: if_splits)
next
  case None
  then show ?thesis
    using r bread_miss [OF inv None] bread_miss_spec [OF inv None] by (auto split: if_splits)
qed

text \<open>
  A call of \<open>bread\<close> succeeds when the block exists, nobody holds it, and it is cached or some buffer
  is neither held nor dirty. Counting blocks is enough: a buffer that cannot be recycled belongs to
  a held or a dirty block.
\<close>

lemma evictable_exists:
  assumes inv: "bc_inv s" and c: "card (heldb s \<union> dirtyb s) < NBUF"
  shows "\<exists>i. evictable s i"
proof (rule ccontr)
  assume "\<nexists>i. evictable s i"
  then have busy: "b_refcnt (bufs s i) \<noteq> 0 \<or> b_dirty (bufs s i)" if "i < NBUF" for i
    using that by (auto simp: evictable_def)
  have ok: "buf_ok s (bufs s i)" if "i < NBUF" for i
    by (rule bc_invD [OF inv that])
  have v: "b_valid (bufs s i) \<and> (sl_locked (b_lock (bufs s i)) \<or> b_dirty (bufs s i))"
    if "i < NBUF" for i
    using busy [OF that] ok [OF that] by (auto simp: buf_ok_def split: if_splits)
  then have "(\<lambda>i. b_blockno (bufs s i)) ` {..<NBUF} \<subseteq> heldb s \<union> dirtyb s"
    by (auto simp: heldb_def dirtyb_def)
  moreover have "inj_on (\<lambda>i. b_blockno (bufs s i)) {..<NBUF}"
    by (rule inj_onI) (use v bc_inv_unique [OF inv] in auto)
  moreover have "finite (heldb s \<union> dirtyb s)"
    by (simp add: heldb_def dirtyb_def)
  ultimately have "NBUF \<le> card (heldb s \<union> dirtyb s)"
    by (metis card_image card_lessThan card_mono)
  with c show False by simp
qed

lemma dirtyb_cached: "bc_inv s \<Longrightarrow> bno \<in> dirtyb s \<Longrightarrow> bfind s bno \<noteq> None"
  by (auto simp: dirtyb_def bfind_None bc_inv_def buf_ok_def)

lemma bread_returns:
  assumes inv: "bc_inv s" and dsk: "bno < disksize s" and free: "bno \<notin> heldb s"
    and room: "bno \<in> dirtyb s \<or> card (heldb s \<union> dirtyb s) < NBUF"
  shows "returns (bread 1 bno s) (\<lambda>(i, s'). bread_spec bno s i s')"
proof (cases "bfind s bno")
  case (Some i)
  have i: "i < NBUF" "b_valid (bufs s i)" "b_blockno (bufs s i) = bno"
    using Some inv by (simp_all add: bfind_Some)
  then have "\<not> sl_locked (b_lock (bufs s i))"
    using free by (auto simp: heldb_def)
  then show ?thesis
    using bread_hit [OF inv Some] bread_hit_spec [OF inv Some] by simp
next
  case None
  then obtain i where "evictable s i"
    using room evictable_exists [OF inv] dirtyb_cached [OF inv] by blast
  then show ?thesis
    using bread_miss [OF inv None] bread_miss_spec [OF inv None] dsk by auto
qed

text \<open>
  Writing a held buffer: \<open>set_data\<close> stands for the stores through \<open>bp->data\<close>. After
  \<open>b->flags |= B_DIRTY\<close> the new content is what every reader sees; after \<open>bwrite\<close> it is also on
  the disk.
\<close>

definition mark_dirty :: "nat \<Rightarrow> kst \<Rightarrow> kst" where
  "mark_dirty i = upd_buf i (b_dirty_update (\<lambda>_. True))"

lemma set_data_sels [simp]:
  "bufs (set_data i d s) j = (if j = i then b_data_update (\<lambda>_. d) (bufs s i) else bufs s j)"
  "bnext (set_data i d s) = bnext s" "bprev (set_data i d s) = bprev s"
  "memdisk (set_data i d s) = memdisk s" "dwrites (set_data i d s) = dwrites s"
  "disksize (set_data i d s) = disksize s" "curpid (set_data i d s) = curpid s"
  by (simp_all add: set_data_def)

lemma bview_upd:
  assumes inv: "bc_inv s" and inv': "bc_inv s'" and h: "holds s i bno"
    and b: "\<And>j. bufs s' j = (if j = i then b' else bufs s j)"
    and b': "b_valid b'" "b_blockno b' = bno"
    and m: "\<And>x. x \<noteq> bno \<Longrightarrow> memdisk s' x = memdisk s x"
  shows "bview s' = (bview s)(bno := b_data b')"
proof
  fix x
  have i: "i < NBUF" "b_valid (bufs s i)" "b_blockno (bufs s i) = bno"
    using h by (simp_all add: holds_def)
  have f: "bfind s' x = bfind s x"
    by (rule bfind_cong) (use i b' in \<open>simp add: b\<close>)
  show "bview s' x = ((bview s)(bno := b_data b')) x"
  proof (cases "x = bno")
    case True
    then show ?thesis
      using holds_bfind [OF inv h] f by (simp add: bview_def b)
  next
    case False
    then have "bfind s x \<noteq> Some i"
      using i inv by (simp add: bfind_Some)
    with False show ?thesis
      using f m by (auto simp: bview_def b split: option.split)
  qed
qed

lemma blocks_minus:
  assumes inv: "bc_inv s" and i: "i < NBUF" "b_valid (bufs s i)"
    and v: "\<And>j. j < NBUF \<Longrightarrow> P j \<Longrightarrow> b_valid (bufs s j)"
  shows "(\<lambda>j. b_blockno (bufs s j)) ` {j. j < NBUF \<and> P j \<and> j \<noteq> i}
    = (\<lambda>j. b_blockno (bufs s j)) ` {j. j < NBUF \<and> P j} - {b_blockno (bufs s i)}" (is "?f ` ?A = ?f ` ?B - _")
proof -
  have "?f j \<noteq> ?f i" if "j \<in> ?A" for j
    using that v bc_inv_unique [OF inv _ i(1) _ i(2), of j] by auto
  moreover have "?B \<subseteq> insert i ?A"
    by auto
  ultimately show ?thesis
    by auto
qed

definition pinned_spec :: "u32 \<Rightarrow> block \<Rightarrow> kst \<Rightarrow> nat \<Rightarrow> kst \<Rightarrow> bool" where
  "pinned_spec bno d s i s' \<longleftrightarrow> bc_inv s' \<and> holds s' i bno \<and> bview s' = (bview s)(bno := d)
     \<and> heldb s' = heldb s \<and> dirtyb s' = insert bno (dirtyb s) \<and> memdisk s' = memdisk s
     \<and> dwrites s' = dwrites s \<and> bc_frame s s' \<and> (\<forall>j b. holds s' j b = holds s j b)"

lemma heldb_same:
  assumes "\<And>j. bufs s' j = (if j = i then b' else bufs s j)"
    "b_lock b' = b_lock (bufs s i)" "b_blockno b' = b_blockno (bufs s i)"
  shows "heldb s' = heldb s"
  unfolding heldb_def by (rule image_cong) (use assms in auto)

lemma mark_dirty_spec:
  assumes inv: "bc_inv s" and h: "holds s i bno"
  shows "pinned_spec bno d s i (mark_dirty i (set_data i d s))" (is "pinned_spec _ _ _ _ ?s")
proof -
  let ?b = "(bufs s i)\<lparr>b_data := d, b_dirty := True\<rparr>"
  have i: "i < NBUF" "sl_locked (b_lock (bufs s i))" "b_valid (bufs s i)" "b_blockno (bufs s i) = bno"
    using h by (simp_all add: holds_def)
  have s: "?s = upd_buf i (\<lambda>x. x\<lparr>b_data := d, b_dirty := True\<rparr>) s"
    by (simp add: mark_dirty_def set_data_def upd_buf_def)
  have b: "bufs ?s j = (if j = i then ?b else bufs s j)" for j
    by (simp add: s)
  have inv': "bc_inv ?s"
  proof (rule bc_inv_one [OF inv i(1) _ b])
    show "lru_ok ?s" using lru_inv [OF inv] by (simp add: s)
    show "buf_ok ?s ?b"
      using bc_invD [OF inv i(1)] i by (simp add: buf_ok_def s)
    show "buf_ok ?s (bufs s j)" if "j < NBUF" "j \<noteq> i" for j
      using bc_invD [OF inv that(1)] by (simp add: s)
    show "b_blockno (bufs s j) \<noteq> b_blockno ?b" if "j < NBUF" "j \<noteq> i" "b_valid (bufs s j)" for j
      using bc_inv_unique [OF inv that(1) i(1)] that i by auto
  qed
  moreover have "bview ?s = (bview s)(bno := d)"
    using bview_upd [OF inv inv' h b] i by (simp add: s)
  moreover have "heldb ?s = heldb s"
    by (rule heldb_same [OF b]) simp_all
  moreover have "dirtyb ?s = insert bno (dirtyb s)"
  proof -
    have "{j. j < NBUF \<and> b_dirty (bufs ?s j)} = insert i {j. j < NBUF \<and> b_dirty (bufs s j)}"
      using i by (auto simp: s)
    moreover have "b_blockno (bufs ?s j) = b_blockno (bufs s j)" for j
      by (simp add: s)
    ultimately show ?thesis
      using i by (simp add: dirtyb_def)
  qed
  moreover have "holds ?s j c = holds s j c" for j c
    using i by (auto simp: s holds_def)
  ultimately show ?thesis
    using h by (simp add: pinned_spec_def s bc_frame_upd)
qed

definition written_spec :: "u32 \<Rightarrow> block \<Rightarrow> kst \<Rightarrow> nat \<Rightarrow> kst \<Rightarrow> bool" where
  "written_spec bno d s i s' \<longleftrightarrow> bc_inv s' \<and> holds s' i bno \<and> bview s' = (bview s)(bno := d)
     \<and> heldb s' = heldb s \<and> dirtyb s' = dirtyb s - {bno} \<and> memdisk s' = (memdisk s)(bno := d)
     \<and> dwrites s' = dwrites s @ [(bno, d)] \<and> bc_frame s s' \<and> (\<forall>j b. holds s' j b = holds s j b)"

lemma bwrite_spec:
  assumes inv: "bc_inv s" and h: "holds s i bno"
  shows "returns (bwrite i (set_data i d s)) (written_spec bno d s i)"
proof -
  let ?b = "(bufs s i)\<lparr>b_data := d, b_dirty := False, b_valid := True\<rparr>"
  let ?s = "upd_buf i (\<lambda>_. ?b) (s\<lparr>memdisk := (memdisk s)(bno := d), dwrites := dwrites s @ [(bno, d)]\<rparr>)"
  have i: "i < NBUF" "sl_locked (b_lock (bufs s i))" "b_valid (bufs s i)" "b_blockno (bufs s i) = bno"
    using h by (simp_all add: holds_def)
  have ok: "buf_ok s (bufs s i)"
    by (rule bc_invD [OF inv i(1)])
  have r: "bwrite i (set_data i d s) = Done ?s"
    using ok i by (simp add: bwrite_def iderw_def set_data_def upd_buf_def holdingsleep_def
        buf_ok_def Let_def not_le)
  have b: "bufs ?s j = (if j = i then ?b else bufs s j)" for j
    by simp
  have inv': "bc_inv ?s"
  proof (rule bc_inv_one [OF inv i(1) _ b])
    show "lru_ok ?s" using lru_inv [OF inv] by (simp add: lru_ok_def)
    show "buf_ok ?s ?b"
      using ok i by (simp add: buf_ok_def)
    show u: "b_blockno (bufs s j) \<noteq> b_blockno ?b" if "j < NBUF" "j \<noteq> i" "b_valid (bufs s j)" for j
      using bc_inv_unique [OF inv that(1) i(1)] that i by auto
    show "buf_ok ?s (bufs s j)" if "j < NBUF" "j \<noteq> i" for j
      using bc_invD [OF inv that(1)] u [OF that] i by (auto simp: buf_ok_def)
  qed
  moreover have "bview ?s = (bview s)(bno := d)"
    using bview_upd [OF inv inv' h b] i by simp
  moreover have "heldb ?s = heldb s"
    by (rule heldb_same [OF b]) simp_all
  moreover have "dirtyb ?s = dirtyb s - {bno}"
  proof -
    have "{j. j < NBUF \<and> b_dirty (bufs ?s j)} = {j. j < NBUF \<and> b_dirty (bufs s j) \<and> j \<noteq> i}"
      by auto
    moreover have "b_blockno (bufs ?s j) = b_blockno (bufs s j)" for j
      by simp
    moreover have "b_valid (bufs s j)" if "j < NBUF" "b_dirty (bufs s j)" for j
      using bc_invD [OF inv that(1)] that(2) by (simp add: buf_ok_def)
    ultimately show ?thesis
      unfolding dirtyb_def using blocks_minus [OF inv i(1,3), of "\<lambda>j. b_dirty (bufs s j)"] i(4)
      by simp
  qed
  moreover have "holds ?s j c = holds s j c" for j c
    using i by (auto simp: holds_def)
  moreover have "bc_frame s ?s"
    by (simp add: bc_frame_def upd_buf_def)
  ultimately show ?thesis
    using h r by (simp add: written_spec_def)
qed

definition released_spec :: "u32 \<Rightarrow> kst \<Rightarrow> kst \<Rightarrow> bool" where
  "released_spec bno s s' \<longleftrightarrow> bc_inv s' \<and> bview s' = bview s \<and> heldb s' = heldb s - {bno}
     \<and> dirtyb s' = dirtyb s \<and> memdisk s' = memdisk s \<and> dwrites s' = dwrites s \<and> bc_frame s s'
     \<and> (\<forall>j b. holds s' j b \<longleftrightarrow> holds s j b \<and> b \<noteq> bno)"

lemma brelse_spec:
  assumes inv: "bc_inv s" and h: "holds s i bno"
  shows "returns (brelse i s) (released_spec bno s)"
proof -
  let ?b = "(bufs s i)\<lparr>b_lock := releasesleep (b_lock (bufs s i)), b_refcnt := 0\<rparr>"
  let ?u = "upd_buf i (\<lambda>_. ?b) s"
  let ?s = "link_head i (unlink_buf i ?u)"
  have i: "i < NBUF" "sl_locked (b_lock (bufs s i))" "b_valid (bufs s i)" "b_blockno (bufs s i) = bno"
    using h by (simp_all add: holds_def)
  have ok: "buf_ok s (bufs s i)"
    by (rule bc_invD [OF inv i(1)])
  have "b_refcnt (bufs s i) = 1"
    using ok i by (simp add: buf_ok_def)
  then have r: "brelse i s = Done ?s"
    using i by (simp add: brelse_def holdingsleep_def upd_buf_def Let_def)
  have b: "bufs ?s j = (if j = i then ?b else bufs s j)" for j
    by simp
  have okf: "buf_ok ?s x = buf_ok s x" for x
    by (simp add: buf_ok_def)
  have u: "b_blockno (bufs s j) \<noteq> bno" if "j < NBUF" "j \<noteq> i" "b_valid (bufs s j)" for j
    using bc_inv_unique [OF inv that(1) i(1)] that i by auto
  have inv': "bc_inv ?s"
  proof (rule bc_inv_one [OF inv i(1) _ b])
    show "lru_ok ?s" using lru_inv [OF inv] i(1) by (intro lru_ok_touch) simp_all
    show "buf_ok ?s ?b"
      using ok by (simp add: okf) (simp add: buf_ok_def)
    show "buf_ok ?s (bufs s j)" if "j < NBUF" "j \<noteq> i" for j
      using bc_invD [OF inv that(1)] by (simp add: okf)
    show "b_blockno (bufs s j) \<noteq> b_blockno ?b" if "j < NBUF" "j \<noteq> i" "b_valid (bufs s j)" for j
      using u [OF that] i by simp
  qed
  moreover have "bview ?s = bview s"
    by (rule bview_cong) simp_all
  moreover have "heldb ?s = heldb s - {bno}"
  proof -
    have "{j. j < NBUF \<and> sl_locked (b_lock (bufs ?s j))}
        = {j. j < NBUF \<and> sl_locked (b_lock (bufs s j)) \<and> j \<noteq> i}"
      by auto
    moreover have "b_blockno (bufs ?s j) = b_blockno (bufs s j)" for j
      by simp
    moreover have "b_valid (bufs s j)" if "j < NBUF" "sl_locked (b_lock (bufs s j))" for j
      using bc_invD [OF inv that(1)] that(2) by (simp add: buf_ok_def)
    ultimately show ?thesis
      unfolding heldb_def
      using blocks_minus [OF inv i(1,3), of "\<lambda>j. sl_locked (b_lock (bufs s j))"] i(4)
      by simp
  qed
  moreover have "dirtyb ?s = dirtyb s"
    unfolding dirtyb_def by (rule image_cong) auto
  moreover have "holds ?s j c \<longleftrightarrow> holds s j c \<and> c \<noteq> bno" for j c
    using i u by (auto simp: holds_def)
  moreover have "bc_frame s ?s"
    by (rule bc_frame_trans [OF bc_frame_upd(1) bc_frame_trans [OF bc_frame_upd(4,3)]])
  ultimately show ?thesis
    using r by (simp add: released_spec_def)
qed

subsection \<open>Initialisation\<close>

definition linked_upto :: "nat \<Rightarrow> nat \<Rightarrow> (buf \<Rightarrow> buf) \<Rightarrow> kst \<Rightarrow> kst \<Rightarrow> bool" where
  "linked_upto m n f s t \<longleftrightarrow> (\<exists>ys. dll (bnext t) (bprev t) ys \<and> set ys = {..<n})
     \<and> memdisk t = memdisk s \<and> dwrites t = dwrites s \<and> bc_frame s t
     \<and> (\<forall>i. bufs t i = (if m \<le> i \<and> i < n then f (bufs s i) else bufs s i))"

lemma linked_step:
  assumes "linked_upto m n f s t" "m \<le> n" "n < NBUF"
  shows "linked_upto m (Suc n) f s (link_head n (upd_buf n f t))"
proof -
  obtain ys where t: "dll (bnext t) (bprev t) ys" "set ys = {..<n}"
    using assms(1) by (auto simp: linked_upto_def)
  have "dll (bnext (link_head n (upd_buf n f t))) (bprev (link_head n (upd_buf n f t))) (n # ys)"
    by (rule link_head_dll) (use t assms(3) in auto)
  moreover have "set (n # ys) = {..<Suc n}"
    by (simp add: t(2) lessThan_Suc)
  moreover have "bc_frame s (link_head n (upd_buf n f t))"
    by (rule bc_frame_trans [OF _ bc_frame_trans [OF bc_frame_upd(1,3)]])
       (use assms(1) in \<open>simp add: linked_upto_def\<close>)
  ultimately show ?thesis
    using assms unfolding linked_upto_def by (auto simp: less_Suc_eq)
qed

lemma linked_fold:
  "m \<le> n \<Longrightarrow> n \<le> NBUF \<Longrightarrow> linked_upto m m f s s \<Longrightarrow>
   linked_upto m n f s (fold (\<lambda>b s. link_head b (upd_buf b f s)) [m..<n] s)"
proof (induction n)
  case (Suc n)
  then show ?case
    by (cases "m = Suc n") (auto intro: linked_step)
qed simp

lemma binit_ok:
  "bc_inv (binit (boot_state pid dsz dsk)) \<and> heldb (binit (boot_state pid dsz dsk)) = {}
   \<and> dirtyb (binit (boot_state pid dsz dsk)) = {} \<and> bview (binit (boot_state pid dsz dsk)) = dsk
   \<and> memdisk (binit (boot_state pid dsz dsk)) = dsk \<and> dwrites (binit (boot_state pid dsz dsk)) = []
   \<and> bc_frame (boot_state pid dsz dsk) (binit (boot_state pid dsz dsk))
   \<and> bufs (binit (boot_state pid dsz dsk)) = (\<lambda>_. zero_buf)"
proof -
  let ?s = "boot_state pid dsz dsk"
  let ?h = "?s\<lparr>bprev := (bprev ?s)(BHEAD := BHEAD), bnext := (bnext ?s)(BHEAD := BHEAD)\<rparr>"
  let ?f = "b_lock_update (\<lambda>_. initsleeplock)"
  let ?t = "binit ?s"
  have t: "?t = fold (\<lambda>b s. link_head b (upd_buf b ?f s)) [0..<NBUF] ?h"
    by (simp only: binit_def Let_def)
  have "dll (bnext ?h) (bprev ?h) []"
    by (simp add: dll_def)
  then have "linked_upto 0 0 ?f ?h ?h"
    by (auto simp: linked_upto_def)
  then have "linked_upto 0 NBUF ?f ?h ?t"
    unfolding t by (intro linked_fold) simp_all
  then obtain ys where ys: "dll (bnext ?t) (bprev ?t) ys" "set ys = {..<NBUF}"
    and r: "memdisk ?t = dsk" "dwrites ?t = []" "bc_frame ?h ?t"
      "\<And>i. bufs ?t i = (if i < NBUF then ?f zero_buf else zero_buf)"
    by (auto simp: linked_upto_def boot_state_def)
  have "bc_frame ?s ?t"
    by (rule bc_frame_trans [OF _ r(3)]) (simp add: bc_frame_def)
  moreover have "bc_inv ?t"
    using ys r by (auto simp: bc_inv_def lru_ok_def buf_ok_def zero_buf_def initsleeplock_def)
  moreover have "bview ?t b = dsk b" for b
    using r by (simp add: bview_def bfind_def first_index_def zero_buf_def find_None_iff
        option.case_eq_if)
  moreover have "bufs ?t = (\<lambda>_. zero_buf)"
    using r(4) by (simp add: fun_eq_iff zero_buf_def initsleeplock_def zero_lock_def)
  ultimately show ?thesis
    using r(1,2) by (auto simp: heldb_def dirtyb_def zero_buf_def zero_lock_def)
qed

subsection \<open>The buffer cache provides the block interface\<close>

definition cache_room :: "nat \<Rightarrow> kst \<Rightarrow> bool" where
  "cache_room k s \<longleftrightarrow> bc_inv s \<and> card (dirtyb s) + k < NBUF"

lemma bread_room:
  assumes "bc_inv s" "b < disksize s" "b \<notin> heldb s" "card (heldb s) \<le> k" "card (dirtyb s) + k < NBUF"
  shows "returns (bread 1 b s) (\<lambda>(i, t). bread_spec b s i t)"
proof (rule bread_returns [OF assms(1-3)])
  have "card (heldb s \<union> dirtyb s) \<le> card (heldb s) + card (dirtyb s)"
    by (rule card_Un_le)
  then show "b \<in> dirtyb s \<or> card (heldb s \<union> dirtyb s) < NBUF"
    using assms(4,5) by linarith
qed

interpretation cache: block_store cache_room bview heldb holds "\<lambda>s i. b_data (bufs s i)" bc_frame
    "\<lambda>s b. b < disksize s" "\<lambda>s b. b < disksize s" "bread 1" "\<lambda>i d s. bwrite i (set_data i d s)" brelse
proof unfold_locales
  show "cache_room (Suc k) s \<Longrightarrow> cache_room k s" for k s
    by (simp add: cache_room_def)
  show "bc_frame s s" for s
    by simp
  show "bc_frame s t \<Longrightarrow> bc_frame t u \<Longrightarrow> bc_frame s u" for s t u
    by (rule bc_frame_trans)
  show "bc_frame s t \<Longrightarrow> (\<lambda>b. b < disksize t) = (\<lambda>b. b < disksize s) \<and>
      (\<lambda>b. b < disksize t) = (\<lambda>b. b < disksize s)" for s t
    by (simp add: bc_frame_sels)
  show "cache_room k s \<Longrightarrow> holds s i b \<Longrightarrow> b_data (bufs s i) = bview s b \<and> b \<in> heldb s" for k s i b
    by (simp add: cache_room_def bview_holds holds_heldb)
  show "returns (bread 1 b s) (\<lambda>(i, t). cache_room k t \<and> holds t i b \<and> bview t = bview s
        \<and> heldb t = insert b (heldb s) \<and> bc_frame s t \<and> (\<forall>j c. holds s j c \<longrightarrow> holds t j c))"
    if "cache_room k s" "b < disksize s" "b \<notin> heldb s" "card (heldb s) \<le> k" for k s b
  proof -
    have c: "bc_inv s" "card (dirtyb s) + k < NBUF"
      using that(1) by (simp_all add: cache_room_def)
    show ?thesis
      by (rule returns_mono [OF bread_room [OF c(1) that(2-4) c(2)]])
         (use c(2) in \<open>auto simp: bread_spec_def cache_room_def\<close>)
  qed
  show "returns (bwrite i (set_data i d s)) (\<lambda>t. cache_room k t \<and> bview t = (bview s)(b := d)
        \<and> heldb t = heldb s \<and> bc_frame s t \<and> (\<forall>j c. holds t j c = holds s j c))"
    if "cache_room (Suc k) s" "holds s i b" for k s i b d
  proof -
    have c: "bc_inv s" "card (dirtyb s) + Suc k < NBUF"
      using that(1) by (simp_all add: cache_room_def)
    have "card (dirtyb s - {b}) \<le> card (dirtyb s)"
      by (rule card_mono) auto
    then have "card (dirtyb s - {b}) + k < NBUF"
      using c(2) by linarith
    then show ?thesis
      by (intro returns_mono [OF bwrite_spec [OF c(1) that(2)]])
         (simp add: written_spec_def cache_room_def)
  qed
  show "returns (brelse i s) (\<lambda>t. cache_room k t \<and> bview t = bview s \<and> heldb t = heldb s - {b}
        \<and> bc_frame s t \<and> (\<forall>j c. holds t j c \<longleftrightarrow> holds s j c \<and> c \<noteq> b))"
    if "cache_room k s" "holds s i b" for k s i b
  proof -
    have c: "bc_inv s" "card (dirtyb s) + k < NBUF"
      using that(1) by (simp_all add: cache_room_def)
    show ?thesis
      by (intro returns_mono [OF brelse_spec [OF c(1) that(2)]])
         (use c(2) in \<open>simp add: released_spec_def cache_room_def\<close>)
  qed
qed simp_all

end
