(* ===== verification/DiskLog.thy ===== *)
theory DiskLog
  imports BufCache
begin

text \<open>
  The write-ahead log (\<open>log.c\<close>): transactions of file-system calls, the commit sequence and recovery
  after a crash. The lemmas show what each disk-writing loop of the commit does, in which order the
  blocks reach the disk, and that after a crash between any two block writes the recovery of the next
  boot leaves either none or all of the transaction's blocks on the disk.
\<close>

subsection \<open>Operations\<close>

text \<open>\<open>readsb\<close> of \<open>fs.c\<close>: block 1 holds the super block.\<close>

definition decode_sb :: "block \<Rightarrow> superblock" where
  "decode_sb b = \<lparr>sb_size = get32 b 0, sb_nblocks = get32 b 4, sb_ninodes = get32 b 8,
     sb_nlog = get32 b 12, sb_logstart = get32 b 16, sb_inodestart = get32 b 20,
     sb_bmapstart = get32 b 24\<rparr>"

definition readsb :: "u32 \<Rightarrow> kst \<Rightarrow> (superblock \<times> kst) outcome" where
  "readsb dev s = bindS (bread dev 1 s)
     (\<lambda>bp s. let x = decode_sb (b_data (bufs s bp)) in bindO (brelse bp s) (\<lambda>s. Done (x, s)))"

definition install_body :: "nat \<Rightarrow> kst \<Rightarrow> kst outcome" where
  "install_body tail s =
    (if LOGSIZE \<le> int tail then Undef else
     bindS (bread (log_dev s) (log_start s + of_nat tail + 1) s) (\<lambda>lbuf s.
     bindS (bread (log_dev s) (lh_block s tail) s) (\<lambda>dbuf s.
     bindO (bwrite dbuf (set_data dbuf (b_data (bufs s lbuf)) s)) (\<lambda>s.
     bindO (brelse lbuf s) (\<lambda>s.
     brelse dbuf s)))))"

definition install_trans :: "kst \<Rightarrow> kst outcome" where
  "install_trans s = foldO install_body [0..<nat (lh_n s)] s"

text \<open>
  \<open>read_head\<close> copies \<open>n\<close> block numbers out of the header block; an \<open>n\<close> above \<open>LOGSIZE\<close> would write
  past \<open>log.lh.block\<close>.
\<close>

definition read_head :: "kst \<Rightarrow> kst outcome" where
  "read_head s = bindS (bread (log_dev s) (log_start s) s) (\<lambda>buf s.
     let lh = b_data (bufs s buf); n = sint (get32 lh 0) in
     if LOGSIZE < n then Undef else
     brelse buf (s\<lparr>lh_n := n,
       lh_block := (\<lambda>i. if int i < n then get32 lh (4 + 4 * i) else lh_block s i)\<rparr>))"

definition encode_head :: "int \<Rightarrow> (nat \<Rightarrow> u32) \<Rightarrow> block \<Rightarrow> block" where
  "encode_head n blk hb =
     fold (\<lambda>i b. put32 (4 + 4 * i) (blk i) b) [0..<nat n] (put32 0 (word_of_int n) hb)"

definition write_head :: "kst \<Rightarrow> kst outcome" where
  "write_head s =
    (if LOGSIZE < lh_n s then Undef else
     bindS (bread (log_dev s) (log_start s) s) (\<lambda>buf s.
     bindO (bwrite buf (set_data buf (encode_head (lh_n s) (lh_block s) (b_data (bufs s buf))) s)) (\<lambda>s.
     brelse buf s)))"

definition recover_from_log :: "kst \<Rightarrow> kst outcome" where
  "recover_from_log s =
     bindO (read_head s) (\<lambda>s.
     bindO (install_trans s) (\<lambda>s.
     write_head (s\<lparr>lh_n := 0\<rparr>)))"

text \<open>\<open>sizeof(struct logheader)\<close> is \<open>4 + 4 * LOGSIZE = 124\<close>, so the first check never fires.\<close>

definition initlog :: "u32 \<Rightarrow> kst \<Rightarrow> kst outcome" where
  "initlog dev s =
    (if int BSIZE \<le> 4 + 4 * LOGSIZE then Panic ''initlog: too big logheader'' else
     bindS (readsb dev s) (\<lambda>x s.
     recover_from_log (s\<lparr>log_start := sb_logstart x, log_size := sint (sb_nlog x), log_dev := dev\<rparr>)))"

definition begin_op :: "kst \<Rightarrow> kst outcome" where
  "begin_op s =
    (if log_committing s then Sleeps
     else if lh_n s + (log_outstanding s + 1) * MAXOPBLOCKS > LOGSIZE then Sleeps
     else Done (s\<lparr>log_outstanding := log_outstanding s + 1\<rparr>))"

definition write_log_body :: "nat \<Rightarrow> kst \<Rightarrow> kst outcome" where
  "write_log_body tail s =
    (if LOGSIZE \<le> int tail then Undef else
     bindS (bread (log_dev s) (log_start s + of_nat tail + 1) s) (\<lambda>to s.
     bindS (bread (log_dev s) (lh_block s tail) s) (\<lambda>fr s.
     bindO (bwrite to (set_data to (b_data (bufs s fr)) s)) (\<lambda>s.
     bindO (brelse fr s) (\<lambda>s.
     brelse to s)))))"

definition write_log :: "kst \<Rightarrow> kst outcome" where
  "write_log s = foldO write_log_body [0..<nat (lh_n s)] s"

definition commit :: "kst \<Rightarrow> kst outcome" where
  "commit s =
    (if 0 < lh_n s then
       bindO (write_log s) (\<lambda>s.
       bindO (write_head s) (\<lambda>s.
       bindO (install_trans s) (\<lambda>s.
       write_head (s\<lparr>lh_n := 0\<rparr>))))
     else Done s)"

text \<open>\<open>wakeup(&log)\<close> changes no state of this model: no other process is waiting in it.\<close>

definition end_op :: "kst \<Rightarrow> kst outcome" where
  "end_op s =
    (let s = s\<lparr>log_outstanding := log_outstanding s - 1\<rparr> in
     if log_committing s then Panic ''log.committing''
     else if log_outstanding s = 0 then
       bindO (commit (s\<lparr>log_committing := True\<rparr>)) (\<lambda>s. Done (s\<lparr>log_committing := False\<rparr>))
     else Done s)"

definition log_write :: "nat \<Rightarrow> kst \<Rightarrow> kst outcome" where
  "log_write b s =
    (if lh_n s \<ge> LOGSIZE \<or> lh_n s \<ge> log_size s - 1 then Panic ''too big a transaction''
     else if log_outstanding s < 1 then Panic ''log_write outside of trans''
     else
       let bno = b_blockno (bufs s b);
           i = (case first_index (\<lambda>i. lh_block s i = bno) (nat (lh_n s)) of
                  Some i \<Rightarrow> i | None \<Rightarrow> nat (lh_n s));
           s = s\<lparr>lh_block := (lh_block s)(i := bno)\<rparr>;
           s = (if int i = lh_n s then s\<lparr>lh_n := lh_n s + 1\<rparr> else s)
       in Done (mark_dirty b s))"

subsection \<open>One block copied to the disk\<close>

text \<open>
  The disk after a sequence of block writes, and the joint effect of such a sequence on cache and
  disk: what both loops of the commit and \<open>write_head\<close> do.
\<close>

definition apply_writes :: "(u32 \<Rightarrow> block) \<Rightarrow> (u32 \<times> block) list \<Rightarrow> u32 \<Rightarrow> block" where
  "apply_writes m ws = fold (\<lambda>(a, d) m. m(a := d)) ws m"

lemma apply_writes_simps [simp]:
  "apply_writes m [] = m"
  "apply_writes m (w # ws) = apply_writes (m(fst w := snd w)) ws"
  "apply_writes m (vs @ ws) = apply_writes (apply_writes m vs) ws"
  by (simp_all add: apply_writes_def case_prod_beta)

lemma apply_writes_other: "a \<notin> fst ` set ws \<Longrightarrow> apply_writes m ws a = m a"
  by (induction ws arbitrary: m) auto

lemma apply_writes_map:
  "inj_on f {..<n} \<Longrightarrow> i < n \<Longrightarrow> apply_writes m (map (\<lambda>i. (f i, d i)) [0..<n]) (f i) = d i"
proof (induction n)
  case (Suc n)
  have "inj_on f {..<n}"
    by (rule inj_on_subset [OF Suc.prems(1)]) auto
  moreover have "i \<noteq> n \<Longrightarrow> f i \<noteq> f n"
    using Suc.prems by (auto dest: inj_onD)
  ultimately show ?case
    using Suc by (cases "i = n") auto
qed simp

definition stored :: "(u32 \<times> block) list \<Rightarrow> kst \<Rightarrow> kst \<Rightarrow> bool" where
  "stored ws s s' \<longleftrightarrow> bc_inv s' \<and> heldb s' = heldb s \<and> dirtyb s' = dirtyb s - fst ` set ws
     \<and> bview s' = apply_writes (bview s) ws \<and> memdisk s' = apply_writes (memdisk s) ws
     \<and> dwrites s' = dwrites s @ ws \<and> bc_frame s s'"

lemma stored_Nil: "bc_inv s \<Longrightarrow> stored [] s s"
  by (simp add: stored_def)

lemma stored_append:
  assumes "stored ws s t" "stored vs t u"
  shows "stored (ws @ vs) s u"
proof -
  have "bc_frame s t" "bc_frame t u"
    using assms by (simp_all add: stored_def)
  then have "bc_frame s u"
    by (rule bc_frame_trans)
  then show ?thesis
    using assms by (simp add: stored_def image_Un set_diff_eq conj_ac)
qed

lemma bread_obtain:
  assumes "bc_inv s" "b < disksize s" "b \<notin> heldb s" "b \<in> dirtyb s \<or> card (heldb s \<union> dirtyb s) < NBUF"
  obtains i s' where "bread 1 b s = Done (i, s')" "bread_spec b s i s'"
  using bread_returns [OF assms] by (auto simp: returns_def)

lemma bwrite_obtain:
  assumes "bc_inv s" "holds s i b"
  obtains s' where "bwrite i (set_data i d s) = Done s'" "written_spec b d s i s'"
  using bwrite_spec [OF assms] by (auto simp: returns_def)

lemma brelse_obtain:
  assumes "bc_inv s" "holds s i b"
  obtains s' where "brelse i s = Done s'" "released_spec b s s'"
  using brelse_spec [OF assms] by (auto simp: returns_def)

lemma finite_blocks [simp]: "finite (heldb s)" "finite (dirtyb s)"
  by (simp_all add: heldb_def dirtyb_def)

lemma two_held:
  assumes s: "bc_inv s" "heldb s = {}" and ab: "a \<noteq> b" "a < disksize s" "b < disksize s"
    and ra: "a \<in> dirtyb s \<or> card (dirtyb s) < NBUF"
    and rb: "b \<in> dirtyb s \<or> card (insert a (dirtyb s)) < NBUF"
  obtains i s1 j s2 where "bread 1 a s = Done (i, s1)" "bread 1 b s1 = Done (j, s2)"
    "bc_inv s2" "holds s2 i a" "holds s2 j b" "heldb s2 = {a, b}" "dirtyb s2 = dirtyb s"
    "bview s2 = bview s" "memdisk s2 = memdisk s" "dwrites s2 = dwrites s" "bc_frame s s2"
    "b_data (bufs s2 i) = bview s a" "b_data (bufs s2 j) = bview s b" "bc_frame s s1"
proof -
  obtain i s1 where 1: "bread 1 a s = Done (i, s1)" "bread_spec a s i s1"
    by (rule bread_obtain [OF s(1) ab(2)]) (use s ra in auto)
  note f1 = 1(2) [unfolded bread_spec_def]
  have fr1: "bc_frame s s1" using f1 by blast
  have "bc_inv s1" "b < disksize s1" "b \<notin> heldb s1" "b \<in> dirtyb s1 \<or> card (heldb s1 \<union> dirtyb s1) < NBUF"
    using f1 s ab rb bc_frame_sels(2) [OF fr1] by simp_all
  then obtain j s2 where 2: "bread 1 b s1 = Done (j, s2)" "bread_spec b s1 j s2"
    by (rule bread_obtain)
  note f2 = 2(2) [unfolded bread_spec_def]
  have fr: "bc_frame s s2"
    using f2 by (intro bc_frame_trans [OF fr1]) simp
  have h: "holds s2 i a" "holds s2 j b" "bc_inv s2"
    using f1 f2 by blast+
  show thesis
    by (rule that [OF 1(1) 2(1)])
       (use f1 f2 s h fr fr1 bview_holds [OF h(3,1)] bview_holds [OF h(3,2)] in auto)
qed

lemma copy_to_first:
  assumes s: "bc_inv s" "heldb s = {}" and ab: "a \<noteq> b" "a < disksize s" "b < disksize s"
    and ra: "a \<in> dirtyb s \<or> card (dirtyb s) < NBUF"
    and rb: "b \<in> dirtyb s \<or> card (insert a (dirtyb s)) < NBUF"
    and gh: "\<And>s'. bc_frame s s' \<Longrightarrow> g s' = 1 \<and> h s' = b"
  shows "returns (bindS (bread 1 a s) (\<lambda>i s. bindS (bread (g s) (h s) s) (\<lambda>j s.
      bindO (bwrite i (set_data i (b_data (bufs s j)) s)) (\<lambda>s.
      bindO (brelse j s) (\<lambda>s. brelse i s))))) (stored [(a, bview s b)] s)"
proof -
  obtain i s1 j s2 where r: "bread 1 a s = Done (i, s1)" "bread 1 b s1 = Done (j, s2)"
    and s2: "bc_inv s2" "holds s2 i a" "holds s2 j b" "heldb s2 = {a, b}" "dirtyb s2 = dirtyb s"
    "bview s2 = bview s" "memdisk s2 = memdisk s" "dwrites s2 = dwrites s" "bc_frame s s2"
    "b_data (bufs s2 i) = bview s a" "b_data (bufs s2 j) = bview s b" "bc_frame s s1"
    by (rule two_held [OF s ab ra rb])
  obtain s3 where 3: "bwrite i (set_data i (bview s b) s2) = Done s3" "written_spec a (bview s b) s2 i s3"
    by (rule bwrite_obtain [OF s2(1,2)])
  note f3 = 3(2) [unfolded written_spec_def]
  have "bc_inv s3" "holds s3 j b"
    using f3 s2 by simp_all
  then obtain s4 where 4: "brelse j s3 = Done s4" "released_spec b s3 s4"
    by (rule brelse_obtain)
  note f4 = 4(2) [unfolded released_spec_def]
  have "bc_inv s4" "holds s4 i a"
    using f3 f4 s2 ab by simp_all
  then obtain s5 where 5: "brelse i s4 = Done s5" "released_spec a s4 s5"
    by (rule brelse_obtain)
  note f5 = 5(2) [unfolded released_spec_def]
  have fr: "bc_frame s2 s3" "bc_frame s3 s4" "bc_frame s4 s5"
    using f3 f4 f5 by simp_all
  note fr5 = bc_frame_trans [OF s2(9) bc_frame_trans [OF fr(1) bc_frame_trans [OF fr(2,3)]]]
  have "heldb s5 = {a, b} - {b} - {a}"
    using f3 f4 f5 s2(4) by simp
  then have "heldb s5 = heldb s"
    unfolding s(2) by blast
  moreover have "bc_inv s5" "dirtyb s5 = dirtyb s - {a}" "bview s5 = (bview s)(a := bview s b)"
    "memdisk s5 = (memdisk s)(a := bview s b)" "dwrites s5 = dwrites s @ [(a, bview s b)]"
    using f3 f4 f5 s2(5,6,7,8) by simp_all
  ultimately have "stored [(a, bview s b)] s s5"
    unfolding stored_def using fr5 by simp
  then show ?thesis
    using r 3 4 5 s2(11) gh [OF s2(12)] by simp
qed

lemma copy_to_second:
  assumes s: "bc_inv s" "heldb s = {}" and ab: "a \<noteq> b" "a < disksize s" "b < disksize s"
    and ra: "a \<in> dirtyb s \<or> card (dirtyb s) < NBUF"
    and rb: "b \<in> dirtyb s \<or> card (insert a (dirtyb s)) < NBUF"
    and gh: "\<And>s'. bc_frame s s' \<Longrightarrow> g s' = 1 \<and> h s' = b"
  shows "returns (bindS (bread 1 a s) (\<lambda>i s. bindS (bread (g s) (h s) s) (\<lambda>j s.
      bindO (bwrite j (set_data j (b_data (bufs s i)) s)) (\<lambda>s.
      bindO (brelse i s) (\<lambda>s. brelse j s))))) (stored [(b, bview s a)] s)"
proof -
  obtain i s1 j s2 where r: "bread 1 a s = Done (i, s1)" "bread 1 b s1 = Done (j, s2)"
    and s2: "bc_inv s2" "holds s2 i a" "holds s2 j b" "heldb s2 = {a, b}" "dirtyb s2 = dirtyb s"
    "bview s2 = bview s" "memdisk s2 = memdisk s" "dwrites s2 = dwrites s" "bc_frame s s2"
    "b_data (bufs s2 i) = bview s a" "b_data (bufs s2 j) = bview s b" "bc_frame s s1"
    by (rule two_held [OF s ab ra rb])
  obtain s3 where 3: "bwrite j (set_data j (bview s a) s2) = Done s3" "written_spec b (bview s a) s2 j s3"
    by (rule bwrite_obtain [OF s2(1,3)])
  note f3 = 3(2) [unfolded written_spec_def]
  have "bc_inv s3" "holds s3 i a"
    using f3 s2 by simp_all
  then obtain s4 where 4: "brelse i s3 = Done s4" "released_spec a s3 s4"
    by (rule brelse_obtain)
  note f4 = 4(2) [unfolded released_spec_def]
  have "bc_inv s4" "holds s4 j b"
    using f3 f4 s2 ab by simp_all
  then obtain s5 where 5: "brelse j s4 = Done s5" "released_spec b s4 s5"
    by (rule brelse_obtain)
  note f5 = 5(2) [unfolded released_spec_def]
  have fr: "bc_frame s2 s3" "bc_frame s3 s4" "bc_frame s4 s5"
    using f3 f4 f5 by simp_all
  note fr5 = bc_frame_trans [OF s2(9) bc_frame_trans [OF fr(1) bc_frame_trans [OF fr(2,3)]]]
  have "heldb s5 = {a, b} - {a} - {b}"
    using f3 f4 f5 s2(4) by simp
  then have "heldb s5 = heldb s"
    unfolding s(2) by blast
  moreover have "bc_inv s5" "dirtyb s5 = dirtyb s - {b}" "bview s5 = (bview s)(b := bview s a)"
    "memdisk s5 = (memdisk s)(b := bview s a)" "dwrites s5 = dwrites s @ [(b, bview s a)]"
    using f3 f4 f5 s2(5,6,7,8) by simp_all
  ultimately have "stored [(b, bview s a)] s s5"
    unfolding stored_def using fr5 by simp
  then show ?thesis
    using r 3 4 5 s2(10) gh [OF s2(12)] by simp
qed

subsection \<open>The header block\<close>

lemma encode_head_0: "get32 (encode_head n blk hb) 0 = word_of_int n"
proof -
  have "get32 (fold (\<lambda>i b. put32 (4 + 4 * i) (blk i) b) [0..<m] b) 0 = get32 b 0" for m b
    by (induction m) (auto simp: get32_put32_other)
  then show ?thesis
    by (simp add: encode_head_def)
qed

lemma encode_head_blk: "i < nat n \<Longrightarrow> get32 (encode_head n blk hb) (4 + 4 * i) = blk i"
proof -
  have "i < m \<Longrightarrow> get32 (fold (\<lambda>i b. put32 (4 + 4 * i) (blk i) b) [0..<m] b) (4 + 4 * i) = blk i" for m b
    by (induction m) (auto simp: get32_put32_other less_Suc_eq)
  then show "i < nat n \<Longrightarrow> ?thesis"
    by (simp add: encode_head_def)
qed

lemma sint_small: "0 \<le> n \<Longrightarrow> n \<le> 30 \<Longrightarrow> sint (word_of_int n :: u32) = n"
  by (simp add: signed_of_int signed_take_bit_int_eq_self_iff)

text \<open>The header \<open>log.lh\<close> names a transaction: the blocks, in order.\<close>

definition head_of :: "block \<Rightarrow> u32 list" where
  "head_of b = map (\<lambda>i. get32 b (4 + 4 * i)) [0..<nat (sint (get32 b 0))]"

lemma head_of_encode:
  assumes "0 \<le> n" "n \<le> 30"
  shows "head_of (encode_head n blk hb) = map blk [0..<nat n]"
  using assms by (auto simp: head_of_def encode_head_0 sint_small encode_head_blk)

subsection \<open>Where the log is\<close>

text \<open>
  The log region has \<open>size\<close> blocks from \<open>start\<close>; \<open>log_at start i\<close> is its block \<open>i\<close>, block 0 being
  the header.
\<close>

definition log_at :: "u32 \<Rightarrow> nat \<Rightarrow> u32" where
  "log_at start i = start + of_nat i"

definition log_region :: "u32 \<Rightarrow> int \<Rightarrow> u32 set" where
  "log_region start sz = log_at start ` {..<nat sz}"

definition log_fits :: "u32 \<Rightarrow> int \<Rightarrow> u32 \<Rightarrow> bool" where
  "log_fits start sz dsz \<longleftrightarrow> 0 < sz \<and> unat start + nat sz \<le> unat dsz"

lemma unat_log_at:
  assumes "log_fits start sz dsz" "i < nat sz"
  shows "unat (log_at start i) = unat start + i"
proof -
  have "unat start + i < 2 ^ 32"
    using assms unsigned_less [of dsz, where ?'a = nat] by (simp add: log_fits_def)
  then show ?thesis
    by (simp add: log_at_def unat_word_ariths unat_of_nat mod_simps)
qed

lemma log_at_less:
  assumes "log_fits start sz dsz" "i < nat sz"
  shows "log_at start i < dsz"
  using unat_log_at [OF assms] assms by (simp add: word_less_nat_alt log_fits_def)

lemma log_at_inj:
  assumes "log_fits start sz dsz"
  shows "inj_on (log_at start) {..<nat sz}"
  by (rule inj_onI) (metis assms unat_log_at lessThan_iff add_left_cancel)

lemma log_region_iff:
  assumes "log_fits start sz dsz"
  shows "b \<in> log_region start sz \<longleftrightarrow> unat start \<le> unat b \<and> unat b < unat start + nat sz"
proof
  assume "b \<in> log_region start sz"
  then show "unat start \<le> unat b \<and> unat b < unat start + nat sz"
    using unat_log_at [OF assms] by (auto simp: log_region_def)
next
  assume b: "unat start \<le> unat b \<and> unat b < unat start + nat sz"
  then have i: "unat b - unat start < nat sz"
    by linarith
  then have "unat (log_at start (unat b - unat start)) = unat b"
    using b by (simp add: unat_log_at [OF assms i])
  then have "log_at start (unat b - unat start) = b"
    by (metis of_nat_unat ucast_id)
  then show "b \<in> log_region start sz"
    using i unfolding log_region_def by (metis imageI lessThan_iff)
qed

lemma log_at_region: "i < nat sz \<Longrightarrow> log_at start i \<in> log_region start sz"
  by (simp add: log_region_def)

subsection \<open>The loops of the commit\<close>

text \<open>The precondition of the two loops, and what they keep.\<close>

definition logged :: "kst \<Rightarrow> u32 list" where
  "logged s = map (lh_block s) [0..<nat (lh_n s)]"

text \<open>
  The transaction in memory: its blocks are distinct, outside the log, on the disk, and there is
  room for them in the log and in the cache.
\<close>

definition trans_ok :: "kst \<Rightarrow> bool" where
  "trans_ok s \<longleftrightarrow> log_dev s = 1 \<and> log_fits (log_start s) (log_size s) (disksize s)
     \<and> 0 \<le> lh_n s \<and> lh_n s < log_size s \<and> lh_n s < LOGSIZE
     \<and> distinct (logged s) \<and> (\<forall>b\<in>set (logged s). b < disksize s)
     \<and> set (logged s) \<inter> log_region (log_start s) (log_size s) = {}"

definition log_writes :: "kst \<Rightarrow> (u32 \<times> block) list" where
  "log_writes s = map (\<lambda>i. (log_at (log_start s) (Suc i), bview s (lh_block s i))) [0..<nat (lh_n s)]"

definition home_writes :: "kst \<Rightarrow> (nat \<Rightarrow> block) \<Rightarrow> (u32 \<times> block) list" where
  "home_writes s d = map (\<lambda>i. (lh_block s i, d i)) [0..<nat (lh_n s)]"

lemma trans_ok_frame: "bc_frame s t \<Longrightarrow> trans_ok t = trans_ok s"
  by (simp add: trans_ok_def logged_def bc_frame_sels)

lemma logged_facts:
  assumes "trans_ok s"
  shows "inj_on (lh_block s) {..<nat (lh_n s)}"
    "i < nat (lh_n s) \<Longrightarrow> lh_block s i < disksize s"
    "i < nat (lh_n s) \<Longrightarrow> lh_block s i \<notin> log_region (log_start s) (log_size s)"
  using assms by (auto simp: trans_ok_def logged_def distinct_map atLeast0LessThan)

lemma logged_at:
  assumes "trans_ok s" "i < nat (lh_n s)" "j < nat (log_size s)"
  shows "lh_block s i \<noteq> log_at (log_start s) j"
  using logged_facts(3) [OF assms(1,2)] log_at_region [OF assms(3)] by metis

lemma trans_okD:
  assumes "trans_ok s"
  shows "log_dev s = 1" "log_fits (log_start s) (log_size s) (disksize s)" "0 \<le> lh_n s"
    "lh_n s < log_size s" "lh_n s < LOGSIZE" "nat (lh_n s) < nat (log_size s)"
  using assms by (auto simp: trans_ok_def log_fits_def)

lemma card_logged: "trans_ok s \<Longrightarrow> D \<subseteq> set (logged s) \<Longrightarrow> card D < NBUF"
proof -
  assume a: "trans_ok s" "D \<subseteq> set (logged s)"
  have "card D \<le> length (logged s)"
    using a(2) by (meson List.finite_set card_length card_mono le_trans)
  also have "\<dots> < NBUF"
    using trans_okD(3,5) [OF a(1)] by (simp add: logged_def nat_less_iff)
  finally show ?thesis .
qed

text \<open>A loop of copies is a sequence of writes.\<close>

lemma stored_loop:
  assumes inv: "bc_inv s"
    and body: "\<And>i t. i < n \<Longrightarrow> stored (map w [0..<i]) s t \<Longrightarrow> returns (f i t) (stored [w i] t)"
  shows "returns (foldO f [0..<n] s) (stored (map w [0..<n]) s)"
proof (rule foldO_upt_returns [where I = "\<lambda>i. stored (map w [0..<i]) s"])
  fix i t
  assume i: "i < n" "stored (map w [0..<i]) s t"
  show "returns (f i t) (stored (map w [0..<Suc i]) s)"
    using body [OF i] stored_append [OF i(2)] by (auto intro: returns_mono)
qed (simp_all add: stored_Nil inv)

text \<open>The cache and its view depend on these fields only.\<close>

lemma bc_same:
  assumes "bufs s' = bufs s" "bnext s' = bnext s" "bprev s' = bprev s" "memdisk s' = memdisk s"
    "disksize s' = disksize s"
  shows "bc_inv s' = bc_inv s" "heldb s' = heldb s" "dirtyb s' = dirtyb s" "bview s' = bview s"
    "holds s' = holds s"
proof -
  show "bc_inv s' = bc_inv s" "heldb s' = heldb s" "dirtyb s' = dirtyb s"
    using assms by (simp_all add: bc_inv_def lru_ok_def buf_ok_def heldb_def dirtyb_def)
  show "bview s' = bview s" "holds s' = holds s"
    using assms by (simp_all add: fun_eq_iff bview_def bfind_def holds_def split: option.splits)
qed

lemma apply_writes_map_other:
  "a \<notin> f ` {..<n} \<Longrightarrow> apply_writes m (map (\<lambda>i. (f i, d i)) [0..<n]) a = m a"
  by (rule apply_writes_other) (auto simp: image_image)

lemma logged_at_Suc:
  assumes "trans_ok s" "i < nat (lh_n s)" "j < nat (lh_n s)"
  shows "lh_block s i \<noteq> log_at (log_start s) (Suc j)"
  by (rule logged_at [OF assms(1,2)]) (use assms(3) trans_okD(6) [OF assms(1)] in linarith)

lemma write_log_stored:
  assumes s: "bc_inv s" "heldb s = {}" "trans_ok s" "dirtyb s = set (logged s)"
  shows "returns (write_log s) (stored (log_writes s) s)"
  unfolding write_log_def log_writes_def
proof (rule stored_loop [OF s(1)])
  fix i t
  let ?w = "\<lambda>i. (log_at (log_start s) (Suc i), bview s (lh_block s i))"
  assume i: "i < nat (lh_n s)" and t: "stored (map ?w [0..<i]) s t"
  note tr = trans_okD [OF s(3)]
  have fr: "bc_frame s t" and inv: "bc_inv t" and held: "heldb t = {}"
    using t s(2) by (simp_all add: stored_def)
  note sel = bc_frame_sels [OF fr]
  have notlog: "log_at (log_start s) (Suc j) \<notin> set (logged s)" if "j < nat (lh_n s)" for j
    using logged_at_Suc [OF s(3) _ that] by (fastforce simp: logged_def)
  have "dirtyb t = set (logged s) - fst ` set (map ?w [0..<i])"
    using t s(4) by (simp add: stored_def)
  also have "\<dots> = set (logged s)"
    using notlog i by auto
  finally have dirty: "dirtyb t = set (logged s)" .
  have home: "lh_block s i \<in> dirtyb t"
    using i by (simp add: dirty logged_def)
  have "bview t (lh_block s i) = apply_writes (bview s) (map ?w [0..<i]) (lh_block s i)"
    using t by (simp add: stored_def)
  also have "\<dots> = bview s (lh_block s i)"
    by (rule apply_writes_map_other) (use logged_at_Suc [OF s(3) i] i in \<open>auto simp: image_iff\<close>)
  finally have view: "bview t (lh_block s i) = bview s (lh_block s i)" .
  let ?a = "log_at (log_start s) (Suc i)"
  have a: "?a = log_start t + of_nat i + 1"
    by (simp add: log_at_def sel)
  have ne: "?a \<noteq> lh_block s i"
    using notlog [OF i] i by (auto simp: logged_def)
  have "?a < disksize s"
    by (rule log_at_less [OF tr(2)]) (use i tr(6) in linarith)
  moreover have "card (dirtyb t) < NBUF"
    by (rule card_logged [OF s(3)]) (simp add: dirty)
  ultimately have c: "returns (bindS (bread 1 ?a t) (\<lambda>i' s'. bindS (bread (log_dev s') (lh_block s' i) s') (\<lambda>j s.
      bindO (bwrite i' (set_data i' (b_data (bufs s j)) s)) (\<lambda>s.
      bindO (brelse j s) (\<lambda>s. brelse i' s))))) (stored [(?a, bview t (lh_block s i))] t)"
    by (intro copy_to_first [OF inv held ne])
       (use home logged_facts(2) [OF s(3) i] tr(1) in \<open>simp_all add: sel bc_frame_sels\<close>)
  have "\<not> LOGSIZE \<le> int i"
    using i tr by linarith
  then show "returns (write_log_body i t) (stored [?w i] t)"
    using c by (simp add: write_log_body_def view a [symmetric]) (simp add: sel tr)
qed


lemma install_trans_stored:
  assumes s: "bc_inv s" "heldb s = {}" "trans_ok s" "dirtyb s = set (logged s) \<or> dirtyb s = {}"
  shows "returns (install_trans s)
    (stored (home_writes s (\<lambda>i. bview s (log_at (log_start s) (Suc i)))) s)"
  unfolding install_trans_def home_writes_def
proof (rule stored_loop [OF s(1)])
  fix i t
  let ?w = "\<lambda>i. (lh_block s i, bview s (log_at (log_start s) (Suc i)))"
  assume i: "i < nat (lh_n s)" and t: "stored (map ?w [0..<i]) s t"
  note tr = trans_okD [OF s(3)]
  have fr: "bc_frame s t" and inv: "bc_inv t" and held: "heldb t = {}"
    using t s(2) by (simp_all add: stored_def)
  note sel = bc_frame_sels [OF fr]
  have dirty: "dirtyb t = dirtyb s - lh_block s ` {..<i}"
    using t by (simp add: stored_def image_image atLeast0LessThan)
  have "lh_block s i \<notin> lh_block s ` {..<i}"
    using i inj_onD [OF logged_facts(1) [OF s(3)]] by fastforce
  then have home: "lh_block s i \<in> dirtyb t \<or> dirtyb t = {}"
    using i s(4) by (auto simp: dirty logged_def)
  let ?a = "log_at (log_start s) (Suc i)"
  have "bview t ?a = apply_writes (bview s) (map ?w [0..<i]) ?a"
    using t by (simp add: stored_def)
  also have "\<dots> = bview s ?a"
    by (rule apply_writes_map_other) (use logged_at_Suc [OF s(3) _ i, THEN not_sym] i in \<open>auto simp: image_iff\<close>)
  finally have view: "bview t ?a = bview s ?a" .
  have a: "?a = log_start t + of_nat i + 1"
    by (simp add: log_at_def sel)
  have ne: "?a \<noteq> lh_block s i"
    using logged_at_Suc [OF s(3) i i] by simp
  have "?a < disksize s"
    by (rule log_at_less [OF tr(2)]) (use i tr(6) in linarith)
  moreover have "card (dirtyb t) < NBUF"
    by (rule card_logged [OF s(3)]) (use s(4) dirty in auto)
  ultimately have c: "returns (bindS (bread 1 ?a t) (\<lambda>i' s'. bindS (bread (log_dev s') (lh_block s' i) s') (\<lambda>j s.
      bindO (bwrite j (set_data j (b_data (bufs s i')) s)) (\<lambda>s.
      bindO (brelse i' s) (\<lambda>s. brelse j s))))) (stored [(lh_block s i, bview t ?a)] t)"
    by (intro copy_to_second [OF inv held ne])
       (use home logged_facts(2) [OF s(3) i] tr(1) in \<open>auto simp add: sel bc_frame_sels\<close>)
  have "\<not> LOGSIZE \<le> int i"
    using i tr by linarith
  then show "returns (install_body i t) (stored [?w i] t)"
    using c by (simp add: install_body_def view a [symmetric]) (simp add: sel tr)
qed

lemma write_head_stored:
  assumes s: "bc_inv s" "heldb s = {}" "trans_ok s" "dirtyb s = set (logged s) \<or> dirtyb s = {}"
    and n: "n = lh_n s \<or> n = 0"
  shows "returns (write_head (s\<lparr>lh_n := n\<rparr>))
    (stored [(log_start s, encode_head n (lh_block s) (bview s (log_start s)))] (s\<lparr>lh_n := n\<rparr>))"
proof -
  let ?s = "s\<lparr>lh_n := n\<rparr>"
  let ?b = "log_start s"
  note tr = trans_okD [OF s(3)]
  have e: "bc_inv ?s" "heldb ?s = {}" "dirtyb ?s = dirtyb s" "bview ?s = bview s"
    using s bc_same [of ?s s] by simp_all
  have "log_at ?b 0 < disksize s"
    by (rule log_at_less [OF tr(2)]) (use tr in simp)
  then have "?b < disksize ?s"
    by (simp add: log_at_def)
  moreover have "card (dirtyb s) < NBUF"
    by (rule card_logged [OF s(3)]) (use s(4) in auto)
  ultimately obtain i t where 1: "bread 1 ?b ?s = Done (i, t)" "bread_spec ?b ?s i t"
    using bread_obtain [OF e(1), of ?b] e by auto
  note f1 = 1(2) [unfolded bread_spec_def]
  let ?d = "encode_head n (lh_block s) (bview s ?b)"
  have f: "bc_frame ?s t" "bc_inv t" "holds t i ?b" using f1 by blast+
  obtain u where 2: "bwrite i (set_data i ?d t) = Done u" "written_spec ?b ?d t i u"
    using f(2,3) by (rule bwrite_obtain)
  note f2 = 2(2) [unfolded written_spec_def]
  obtain v where 3: "brelse i u = Done v" "released_spec ?b u v"
    by (rule brelse_obtain [of u i ?b]) (use f2 f(3) in simp_all)
  note f3 = 3(2) [unfolded released_spec_def]
  have d: "b_data (bufs t i) = bview s ?b"
    using bview_holds [OF f(2,3)] f1 e(4) by simp
  have fr: "bc_frame t u" "bc_frame u v"
    using f2 f3 by simp_all
  note fr' = bc_frame_trans [OF f(1) bc_frame_trans [OF fr]]
  have "write_head ?s = Done v"
    using 1(1) 2(1) 3(1) d n tr bc_frame_sels [OF f(1)] by (auto simp: write_head_def)
  moreover have "stored [(?b, ?d)] ?s v"
    using f1 f2 f3 e fr' by (simp add: stored_def)
  ultimately show ?thesis
    by (rule returnsI)
qed

subsection \<open>The commit\<close>

text \<open>The block writes of a commit, in order: log blocks, header, home blocks, empty header.\<close>

definition commit_head :: "kst \<Rightarrow> block" where
  "commit_head s = encode_head (lh_n s) (lh_block s) (bview s (log_start s))"

definition commit_writes :: "kst \<Rightarrow> (u32 \<times> block) list" where
  "commit_writes s = log_writes s @ [(log_start s, commit_head s)]
     @ home_writes s (\<lambda>i. bview s (lh_block s i))
     @ [(log_start s, encode_head 0 (lh_block s) (commit_head s))]"

lemma stored_lh_n: "stored ws s t \<Longrightarrow> stored ws (s\<lparr>lh_n := n\<rparr>) (t\<lparr>lh_n := n\<rparr>)"
proof -
  assume a: "stored ws s t"
  have "bc_frame (s\<lparr>lh_n := n\<rparr>) (t\<lparr>lh_n := n\<rparr>)"
    using a by (cases s; cases t) (simp add: stored_def bc_frame_def)
  then show ?thesis
    using a by (simp add: stored_def bc_same [of "s\<lparr>lh_n := n\<rparr>" s] bc_same [of "t\<lparr>lh_n := n\<rparr>" t])
qed

lemma storedD:
  assumes "stored ws s t"
  shows "bc_inv t" "heldb t = heldb s" "dirtyb t = dirtyb s - fst ` set ws"
    "bview t = apply_writes (bview s) ws" "memdisk t = apply_writes (memdisk s) ws"
    "dwrites t = dwrites s @ ws" "bc_frame s t"
  using assms by (simp_all add: stored_def)

lemma fst_log_writes: "fst ` set (log_writes s) = (\<lambda>i. log_at (log_start s) (Suc i)) ` {..<nat (lh_n s)}"
  by (simp add: log_writes_def image_image atLeast0LessThan)

lemma fst_home_writes: "fst ` set (home_writes s d) = set (logged s)"
  by (simp add: home_writes_def logged_def image_image)

lemma fst_log_writes_region:
  assumes "trans_ok s"
  shows "fst ` set (log_writes s) \<subseteq> log_region (log_start s) (log_size s) - {log_start s}"
proof -
  note tr = trans_okD [OF assms]
  have "log_at (log_start s) (Suc i) \<in> log_region (log_start s) (log_size s) - {log_start s}"
    if i: "i < nat (lh_n s)" for i
  proof -
    have "Suc i < nat (log_size s)"
      using i tr(6) by linarith
    then show ?thesis
      using log_at_region [of "Suc i"] unat_log_at [OF tr(2), of "Suc i"] by auto
  qed
  then show ?thesis
    by (auto simp: fst_log_writes)
qed

lemma start_region: "log_fits start sz dsz \<Longrightarrow> start \<in> log_region start sz"
  using log_at_region [of 0 sz start] by (simp add: log_fits_def log_at_def)

lemma log_writes_at:
  assumes "trans_ok s" "i < nat (lh_n s)"
  shows "apply_writes m (log_writes s) (log_at (log_start s) (Suc i)) = bview s (lh_block s i)"
  unfolding log_writes_def
proof (rule apply_writes_map [OF _ assms(2)])
  note tr = trans_okD [OF assms(1)]
  have "inj_on (log_at (log_start s)) (Suc ` {..<nat (lh_n s)})"
    by (rule inj_on_subset [OF log_at_inj [OF tr(2)]]) (use tr(6) in auto)
  then show "inj_on (\<lambda>i. log_at (log_start s) (Suc i)) {..<nat (lh_n s)}"
    using comp_inj_on [OF inj_Suc] by (simp add: comp_def)
qed

lemma home_writes_at:
  "trans_ok s \<Longrightarrow> i < nat (lh_n s) \<Longrightarrow> apply_writes m (home_writes s d) (lh_block s i) = d i"
  unfolding home_writes_def by (rule apply_writes_map [OF logged_facts(1)])

lemma home_writes_other:
  "b \<notin> set (logged s) \<Longrightarrow> apply_writes m (home_writes s d) b = m b"
  by (rule apply_writes_other) (simp add: fst_home_writes)

lemma commit_stored:
  assumes s: "bc_inv s" "heldb s = {}" "trans_ok s" "dirtyb s = set (logged s)" "0 < lh_n s"
  shows "returns (commit s) (stored (commit_writes s) (s\<lparr>lh_n := 0\<rparr>))"
proof -
  note tr = trans_okD [OF s(3)] and sr = start_region [OF trans_okD(2) [OF s(3)]]
  have start: "log_start s \<notin> set (logged s)" "log_start s \<notin> fst ` set (log_writes s)"
    using sr s(3) fst_log_writes_region [OF s(3)] by (auto simp: trans_ok_def)
  have dl: "set (logged s) \<inter> fst ` set (log_writes s) = {}"
    using s(3) fst_log_writes_region [OF s(3)] by (auto simp: trans_ok_def)
  obtain t where t: "write_log s = Done t" "stored (log_writes s) s t"
    by (rule returnsE [OF write_log_stored [OF s(1-4)]])
  note ft = storedD [OF t(2)] and st = bc_frame_sels [OF storedD(7) [OF t(2)]]
  have lt: "logged t = logged s" "dirtyb t = set (logged s)"
    using ft(3) s(4) dl by (auto simp: logged_def st)
  have vt: "bview t (log_start s) = bview s (log_start s)"
    using start(2) by (simp add: ft(4) apply_writes_other)
  have tt: "t\<lparr>lh_n := lh_n s\<rparr> = t"
    using st(8) by (cases t) simp
  have "returns (write_head t) (stored [(log_start s, commit_head s)] t)"
    using write_head_stored [OF ft(1), of "lh_n t"] ft(2) s(2,3) lt trans_ok_frame [OF ft(7)] vt
    by (simp add: st tt commit_head_def)
  then obtain u where u: "write_head t = Done u" "stored [(log_start s, commit_head s)] t u"
    by (auto elim: returnsE)
  note fu = storedD [OF u(2)] and su = bc_frame_sels [OF storedD(7) [OF u(2)]]
  have lu: "logged u = logged s" "dirtyb u = set (logged s)" "trans_ok u"
    using fu(3) start lt trans_ok_frame [OF ft(7)] trans_ok_frame [OF fu(7)] s(3)
    by (auto simp: logged_def st su)
  have vu: "bview u (log_at (log_start s) (Suc i)) = bview s (lh_block s i)" if i: "i < nat (lh_n s)" for i
  proof -
    have "log_at (log_start s) (Suc i) \<in> fst ` set (log_writes s)"
      using i by (simp add: fst_log_writes)
    then have "log_at (log_start s) (Suc i) \<noteq> log_start s"
      using start(2) by metis
    then show ?thesis
      using log_writes_at [OF s(3) i] by (simp add: fu(4) ft(4))
  qed
  have "home_writes u (\<lambda>i. bview u (log_at (log_start u) (Suc i))) = home_writes s (\<lambda>i. bview s (lh_block s i))"
    using vu by (auto simp: home_writes_def st su)
  then have "returns (install_trans u) (stored (home_writes s (\<lambda>i. bview s (lh_block s i))) u)"
    using install_trans_stored [OF fu(1)] fu(2) ft(2) s(2) lu by simp
  then obtain v where v: "install_trans u = Done v" "stored (home_writes s (\<lambda>i. bview s (lh_block s i))) u v"
    by (auto elim: returnsE)
  note fv = storedD [OF v(2)] and sv = bc_frame_sels [OF storedD(7) [OF v(2)]]
  have lv: "dirtyb v = {}" "trans_ok v" "heldb v = {}"
    using fv(3) lu trans_ok_frame [OF fv(7)] fv(2) fu(2) ft(2) s(2) by (auto simp: fst_home_writes)
  have "bview v (log_start s) = commit_head s"
    using start by (simp add: fv(4) fu(4) home_writes_other)
  then have "returns (write_head (v\<lparr>lh_n := 0\<rparr>))
      (stored [(log_start s, encode_head 0 (lh_block s) (commit_head s))] (v\<lparr>lh_n := 0\<rparr>))"
    using write_head_stored [OF fv(1) lv(3,2), of 0] lv(1) by (simp add: st su sv)
  then obtain r where r: "write_head (v\<lparr>lh_n := 0\<rparr>) = Done r"
      "stored [(log_start s, encode_head 0 (lh_block s) (commit_head s))] (v\<lparr>lh_n := 0\<rparr>) r"
    by (auto elim: returnsE)
  have "stored (commit_writes s) (s\<lparr>lh_n := 0\<rparr>) r"
    unfolding commit_writes_def
    by (intro stored_append [OF stored_lh_n [OF t(2)]] stored_append [OF stored_lh_n [OF u(2)]]
          stored_append [OF stored_lh_n [OF v(2)]] r(2))
  moreover have "commit s = Done r"
    using s(5) t(1) u(1) v(1) r(1) by (simp add: commit_def)
  ultimately show ?thesis
    by (metis returnsI)
qed

subsection \<open>Disks that recovery can start from\<close>

text \<open>
  Disk \<open>D\<close> holds, after recovery, the contents \<open>m\<close> outside the log region: the header names the
  blocks \<open>h\<close> whose new contents are in the log, and every other block is already as in \<open>m\<close>. An empty
  header is the special case of a disk between transactions.
\<close>

definition log_geo :: "u32 \<Rightarrow> int \<Rightarrow> u32 \<Rightarrow> block \<Rightarrow> bool" where
  "log_geo start sz dsz super \<longleftrightarrow> log_fits start sz dsz \<and> sb_logstart (decode_sb super) = start
     \<and> sint (sb_nlog (decode_sb super)) = sz \<and> 1 \<notin> log_region start sz \<and> 1 < dsz"

definition recoverable :: "u32 \<Rightarrow> int \<Rightarrow> u32 \<Rightarrow> (u32 \<Rightarrow> block) \<Rightarrow> (u32 \<Rightarrow> block) \<Rightarrow> bool" where
  "recoverable start sz dsz m D \<longleftrightarrow> log_geo start sz dsz (D 1) \<and> 0 \<le> sint (get32 (D start) 0)
     \<and> (let h = head_of (D start) in
          int (length h) < sz \<and> int (length h) < LOGSIZE \<and> distinct h
          \<and> (\<forall>b\<in>set h. b < dsz \<and> b \<noteq> 1 \<and> b \<notin> log_region start sz)
          \<and> (\<forall>i<length h. D (log_at start (Suc i)) = m (h ! i))
          \<and> (\<forall>b. b \<notin> log_region start sz \<and> b \<notin> set h \<longrightarrow> D b = m b))"

lemma recoverableD:
  assumes "recoverable start sz dsz m D"
  shows "log_geo start sz dsz (D 1)" "0 \<le> sint (get32 (D start) 0)"
    "int (length (head_of (D start))) < sz" "int (length (head_of (D start))) < LOGSIZE"
    "distinct (head_of (D start))"
    "b \<in> set (head_of (D start)) \<Longrightarrow> b < dsz \<and> b \<noteq> 1 \<and> b \<notin> log_region start sz"
    "i < length (head_of (D start)) \<Longrightarrow> D (log_at start (Suc i)) = m (head_of (D start) ! i)"
    "b \<notin> log_region start sz \<Longrightarrow> b \<notin> set (head_of (D start)) \<Longrightarrow> D b = m b"
  using assms unfolding recoverable_def Let_def by blast+

lemma recoverable_install:
  assumes "recoverable start sz dsz m D" "b \<in> set (head_of (D start))"
  shows "recoverable start sz dsz m (D(b := m b))" "(D(b := m b)) start = D start"
proof -
  note r = recoverableD [OF assms(1)]
  note b = r(6) [OF assms(2)]
  have "start \<in> log_region start sz"
    using r(1) by (intro start_region) (auto simp: log_geo_def)
  then show st: "(D(b := m b)) start = D start"
    using b by auto
  let ?D = "D(b := m b)"
  have 1: "?D 1 = D 1"
    using b by auto
  have 2: "?D (log_at start (Suc i)) = D (log_at start (Suc i))"
    if "i < length (head_of (D start))" for i
  proof -
    have "log_at start (Suc i) \<in> log_region start sz"
      using r(3) that by (intro log_at_region) linarith
    then show ?thesis
      using b by auto
  qed
  have 3: "?D c = m c" if "c \<notin> log_region start sz" "c \<notin> set (head_of (D start))" for c
    using r(8) that by simp
  show "recoverable start sz dsz m ?D"
    unfolding recoverable_def st Let_def 1
    by (intro conjI ballI allI impI r(1-5)) (use r(6,7) 2 3 in simp_all)
qed

lemma recoverable_installs:
  assumes "recoverable start sz dsz m D" "\<forall>w\<in>set ws. fst w \<in> set (head_of (D start)) \<and> snd w = m (fst w)"
  shows "recoverable start sz dsz m (apply_writes D ws) \<and> apply_writes D ws start = D start"
  using assms
proof (induction ws arbitrary: D)
  case (Cons w ws)
  have "fst w \<in> set (head_of (D start))" "snd w = m (fst w)"
    using Cons.prems(2) by auto
  then show ?case
    using Cons.IH [of "D(fst w := m (fst w))"] recoverable_install [OF Cons.prems(1)] Cons.prems(2)
    by (simp del: fun_upd_apply)
qed simp

lemma recoverable_header:
  assumes r: "recoverable start sz dsz m D" and all: "\<And>b. b \<notin> log_region start sz \<Longrightarrow> D b = m b"
    and hd: "get32 d 0 = 0"
  shows "recoverable start sz dsz m (D(start := d))"
proof -
  have "start \<in> log_region start sz" "1 \<notin> log_region start sz"
    using recoverableD(1) [OF r] by (auto simp: log_geo_def intro: start_region)
  moreover from this have "start \<noteq> 1" by auto
  ultimately show ?thesis
    using recoverableD(1) [OF r] all hd
    by (auto simp: recoverable_def head_of_def Let_def log_geo_def log_fits_def)
qed

subsection \<open>Mounting the log\<close>

definition reboot :: "int \<Rightarrow> u32 \<Rightarrow> (u32 \<Rightarrow> block) \<Rightarrow> kst outcome" where
  "reboot pid dsz D = initlog ROOTDEV (binit (boot_state pid dsz D))"

lemma read_release:
  assumes s: "bc_inv s" "heldb s = {}" "dirtyb s = {}" "b < disksize s"
  obtains i t where "bread 1 b s = Done (i, t)" "b_data (bufs t i) = bview s b"
    "bread_spec b s i t" "bc_inv t" "holds t i b"
proof -
  obtain i t where 1: "bread 1 b s = Done (i, t)" "bread_spec b s i t"
    using bread_obtain [OF s(1,4)] s(2,3) by auto
  have t: "bc_inv t" "holds t i b" "bview t = bview s"
    using 1(2) unfolding bread_spec_def by blast+
  show thesis
    by (rule that [OF 1(1) _ 1(2) t(1,2)]) (use bview_holds [OF t(1,2)] t(3) in simp)
qed

lemma readsb_stored:
  assumes s: "bc_inv s" "heldb s = {}" "dirtyb s = {}" "1 < disksize s"
  obtains t where "readsb 1 s = Done (decode_sb (bview s 1), t)" "stored [] s t"
proof -
  obtain i t where 1: "bread 1 1 s = Done (i, t)" "b_data (bufs t i) = bview s 1"
    "bread_spec 1 s i t" "bc_inv t" "holds t i 1"
    by (rule read_release [OF s])
  note f1 = 1(3) [unfolded bread_spec_def]
  obtain u where 2: "brelse i t = Done u" "released_spec 1 t u"
    using 1(4,5) by (rule brelse_obtain)
  note f2 = 2(2) [unfolded released_spec_def]
  have fr: "bc_frame s t" "bc_frame t u"
    using f1 f2 by simp_all
  have "stored [] s u"
    using f1 f2 s bc_frame_trans [OF fr] by (simp add: stored_def)
  then show thesis
    using 1(1,2) 2(1) by (intro that) (simp_all add: readsb_def)
qed

lemma read_head_stored:
  assumes s: "bc_inv s" "heldb s = {}" "dirtyb s = {}" "log_start s < disksize s" "log_dev s = 1"
    and n: "n = sint (get32 (bview s (log_start s)) 0)" "n \<le> LOGSIZE"
  obtains t where "read_head s = Done t"
    "stored [] (s\<lparr>lh_n := n, lh_block := (\<lambda>i. if int i < n then get32 (bview s (log_start s)) (4 + 4 * i)
       else lh_block s i)\<rparr>) t"
proof -
  let ?b = "log_start s"
  obtain i t where 1: "bread 1 ?b s = Done (i, t)" "b_data (bufs t i) = bview s ?b"
    "bread_spec ?b s i t" "bc_inv t" "holds t i ?b"
    by (rule read_release [OF s(1-4)])
  note f1 = 1(3) [unfolded bread_spec_def]
  have fr: "bc_frame s t" using f1 by blast
  let ?blk = "\<lambda>i. if int i < n then get32 (bview s ?b) (4 + 4 * i) else lh_block s i"
  let ?t = "t\<lparr>lh_n := n, lh_block := ?blk\<rparr>" and ?s = "s\<lparr>lh_n := n, lh_block := ?blk\<rparr>"
  have e: "bc_inv ?t" "holds ?t = holds t" "heldb ?t = heldb t" "dirtyb ?t = dirtyb t" "bview ?t = bview t"
    using 1(4) bc_same [of ?t t] by simp_all
  have e': "heldb ?s = heldb s" "dirtyb ?s = dirtyb s" "bview ?s = bview s"
    using bc_same [of ?s s] by simp_all
  obtain u where 2: "brelse i ?t = Done u" "released_spec ?b ?t u"
    by (rule brelse_obtain [OF e(1), of i ?b]) (use 1(5) e(2) in simp)
  note f2 = 2(2) [unfolded released_spec_def]
  have fr': "bc_frame ?s ?t" "bc_frame ?t u"
    using fr f2 by (cases s; cases t; simp add: bc_frame_def)+
  have "stored [] ?s u"
    using f1 f2 e e' s bc_frame_trans [OF fr'] by (simp add: stored_def)
  moreover have "read_head s = Done u"
    using 1(1,2) 2(1) s(5) n bc_frame_sels [OF fr] by (simp add: read_head_def Let_def cong: if_cong)
  ultimately show thesis
    by (intro that)
qed

text \<open>Between transactions: nothing is cached dirty and the header on the disk is empty.\<close>

definition log_idle :: "kst \<Rightarrow> bool" where
  "log_idle s \<longleftrightarrow> bc_inv s \<and> heldb s = {} \<and> dirtyb s = {} \<and> log_dev s = 1 \<and> lh_n s = 0
     \<and> log_outstanding s = 0 \<and> \<not> log_committing s
     \<and> log_geo (log_start s) (log_size s) (disksize s) (memdisk s 1)
     \<and> get32 (memdisk s (log_start s)) 0 = 0"

lemma bview_clean:
  assumes "bc_inv s" "b \<notin> dirtyb s"
  shows "bview s b = memdisk s b"
proof (cases "bfind s b")
  case (Some i)
  then have i: "i < NBUF" "b_valid (bufs s i)" "b_blockno (bufs s i) = b"
    by (auto simp: bfind_Some [OF assms(1)])
  then have "\<not> b_dirty (bufs s i)"
    using assms(2) by (auto simp: dirtyb_def)
  then show ?thesis
    using bc_invD [OF assms(1) i(1)] i Some by (simp add: bview_def buf_ok_def)
qed (simp add: bview_def)

lemma recover_returns:
  assumes s: "bc_inv s" "heldb s = {}" "dirtyb s = {}" "log_dev s = 1"
    and rec: "recoverable (log_start s) (log_size s) (disksize s) m (memdisk s)"
  obtains ws lh r where "recover_from_log s = Done r" "stored ws (s\<lparr>lh_block := lh, lh_n := 0\<rparr>) r"
    "\<And>k. recoverable (log_start s) (log_size s) (disksize s) m (apply_writes (memdisk s) (take k ws))"
    "get32 (memdisk r (log_start s)) 0 = 0"
    "\<And>b. b \<notin> log_region (log_start s) (log_size s) \<Longrightarrow> memdisk r b = m b"
proof -
  let ?st = "log_start s" and ?D = "memdisk s"
  note R = recoverableD [OF rec]
  have fits: "log_fits ?st (log_size s) (disksize s)"
    using R(1) by (simp add: log_geo_def)
  have v: "bview s b = ?D b" for b
    using bview_clean [OF s(1)] s(3) by simp
  have ve: "bview s = ?D"
    using v by (rule ext)
  let ?n = "sint (get32 (?D ?st) 0)"
  let ?h = "head_of (?D ?st)"
  let ?lh = "\<lambda>i. if int i < ?n then get32 (?D ?st) (4 + 4 * i) else lh_block s i"
  have n: "int (length ?h) = ?n"
    using R(2) by (simp add: head_of_def)
  have "log_at ?st 0 < disksize s"
    by (rule log_at_less [OF fits]) (use fits in \<open>simp add: log_fits_def\<close>)
  then have st: "?st < disksize s"
    by (simp add: log_at_def)
  obtain t where t: "read_head s = Done t" "stored [] (s\<lparr>lh_n := ?n, lh_block := ?lh\<rparr>) t"
    by (rule read_head_stored [OF s(1-3) st s(4), of ?n, unfolded ve]) (use n R(4) in simp_all)
  note ft = storedD [OF t(2)] and sel = bc_frame_sels [OF storedD(7) [OF t(2)]]
  let ?s = "s\<lparr>lh_n := ?n, lh_block := ?lh\<rparr>"
  have e: "heldb ?s = {}" "dirtyb ?s = {}" "bview ?s = bview s"
    using bc_same [of ?s s] s by simp_all
  have lt: "logged t = ?h"
    using n by (auto simp: logged_def sel head_of_def)
  have hth: "?lh i = ?h ! i" if "i < length ?h" for i
    using that n by (simp add: head_of_def zless_nat_eq_int_zless)
  have tr: "trans_ok t"
    unfolding trans_ok_def lt using fits s(4) R(2-6) n by (auto simp: sel)
  let ?ws = "home_writes t (\<lambda>i. bview t (log_at (log_start t) (Suc i)))"
  have "returns (install_trans t) (stored ?ws t)"
    by (rule install_trans_stored [OF ft(1) _ tr]) (use ft(2,3) e in simp_all)
  then obtain u where u: "install_trans t = Done u" "stored ?ws t u"
    by (auto elim: returnsE)
  note fu = storedD [OF u(2)] and selu = bc_frame_sels [OF storedD(7) [OF u(2)]]
  have ws: "?ws = map (\<lambda>b. (b, m b)) ?h"
  proof (rule nth_equalityI)
    show "length ?ws = length (map (\<lambda>b. (b, m b)) ?h)"
      using n by (simp add: home_writes_def sel)
    fix i
    assume "i < length ?ws"
    then have i: "i < length ?h"
      using n by (simp add: home_writes_def sel)
    then show "?ws ! i = map (\<lambda>b. (b, m b)) ?h ! i"
      using hth [OF i] R(7) [OF i] n by (simp add: home_writes_def sel ft(4) e(3) v)
  qed
  let ?hd = "encode_head 0 ?lh (bview u ?st)"
  have "returns (write_head (u\<lparr>lh_n := 0\<rparr>)) (stored [(?st, ?hd)] (u\<lparr>lh_n := 0\<rparr>))"
    using write_head_stored [OF fu(1), of 0] fu(2,3) ft(2,3) e trans_ok_frame [OF fu(7)] tr
    by (simp add: sel selu)
  then obtain r where r: "write_head (u\<lparr>lh_n := 0\<rparr>) = Done r" "stored [(?st, ?hd)] (u\<lparr>lh_n := 0\<rparr>) r"
    by (auto elim: returnsE)
  have all: "stored (?ws @ [(?st, ?hd)]) (s\<lparr>lh_block := ?lh, lh_n := 0\<rparr>) r"
    using stored_append [OF stored_append [OF stored_lh_n [OF t(2)] stored_lh_n [OF u(2), of 0]] r(2)]
    by simp
  have pre: "recoverable ?st (log_size s) (disksize s) m (apply_writes ?D (take k ?ws))
      \<and> apply_writes ?D (take k ?ws) ?st = ?D ?st" for k
    by (rule recoverable_installs [OF rec]) (auto simp: ws dest: in_set_takeD)
  have off: "apply_writes ?D ?ws b = m b" if "b \<notin> log_region ?st (log_size s)" for b
  proof (cases "b \<in> set ?h")
    case True
    then obtain i where i: "i < length ?h" "b = ?h ! i"
      by (metis in_set_conv_nth)
    have "?ws = map (\<lambda>i. (?h ! i, m (?h ! i))) [0..<length ?h]"
      unfolding ws by (rule nth_equalityI) simp_all
    moreover have "inj_on (\<lambda>i. ?h ! i) {..<length ?h}"
      by (rule inj_on_nth [OF R(5)]) simp
    ultimately show ?thesis
      using apply_writes_map [of "\<lambda>i. ?h ! i" "length ?h" i ?D "\<lambda>i. m (?h ! i)"] i by simp
  next
    case False
    then have "b \<notin> fst ` set ?ws"
      by (auto simp: ws)
    then show ?thesis
      using R(8) that False by (simp add: apply_writes_other)
  qed
  have h0: "get32 ?hd 0 = 0"
    by (simp add: encode_head_0)
  have full: "recoverable ?st (log_size s) (disksize s) m (apply_writes ?D (?ws @ [(?st, ?hd)]))"
    using recoverable_header [OF _ off h0] pre [of "length ?ws"] by simp
  show thesis
  proof (rule that [OF _ all])
    show "recover_from_log s = Done r"
      using t(1) u(1) r(1) by (simp add: recover_from_log_def)
    show "recoverable ?st (log_size s) (disksize s) m (apply_writes ?D (take k (?ws @ [(?st, ?hd)])))" for k
      using pre [of k] full by (cases "k \<le> length ?ws") simp_all
    have "memdisk r = (apply_writes ?D ?ws)(?st := ?hd)"
      using storedD(5) [OF all] by simp
    then show "get32 (memdisk r ?st) 0 = 0"
      "\<And>b. b \<notin> log_region ?st (log_size s) \<Longrightarrow> memdisk r b = m b"
      using h0 off start_region [OF fits] by auto
  qed
qed

lemma reboot_returns:
  assumes rec: "recoverable start sz dsz m D"
  obtains r where "reboot pid dsz D = Done r" "log_idle r" "log_start r = start" "log_size r = sz"
    "disksize r = dsz" "\<And>k. recoverable start sz dsz m (apply_writes D (take k (dwrites r)))"
    "\<And>b. b \<notin> log_region start sz \<Longrightarrow> memdisk r b = m b"
    "memdisk r = apply_writes D (dwrites r)"
proof -
  let ?b = "boot_state pid dsz D"
  let ?i = "binit ?b"
  note R = recoverableD [OF rec]
  have i: "bc_inv ?i" "heldb ?i = {}" "dirtyb ?i = {}" "bview ?i = D" "memdisk ?i = D"
    "dwrites ?i = []" "bc_frame ?b ?i"
    using binit_ok [of pid dsz D] by blast+
  note seli = bc_frame_sels [OF i(7)]
  have dsi: "disksize ?i = dsz" "log_outstanding ?i = 0" "\<not> log_committing ?i"
    unfolding seli by (simp_all add: boot_state_def)
  have geo: "sb_logstart (decode_sb (D 1)) = start" "sint (sb_nlog (decode_sb (D 1))) = sz"
      "1 \<notin> log_region start sz" "1 < dsz"
    using R(1) by (simp_all add: log_geo_def)
  obtain t where t: "readsb 1 ?i = Done (decode_sb (D 1), t)" "stored [] ?i t"
    using readsb_stored [OF i(1-3)] geo(4) i(4) dsi(1) by auto
  note ft = storedD [OF t(2)] and sel = bc_frame_sels [OF storedD(7) [OF t(2)]]
  let ?t = "t\<lparr>log_start := start, log_size := sz, log_dev := 1\<rparr>"
  have e: "bc_inv ?t" "heldb ?t = {}" "dirtyb ?t = {}" "memdisk ?t = D"
    using ft i bc_same [of ?t t] by simp_all
  obtain ws lh r where r: "recover_from_log ?t = Done r" "stored ws (?t\<lparr>lh_block := lh, lh_n := 0\<rparr>) r"
    "\<And>k. recoverable start sz (disksize ?t) m (apply_writes D (take k ws))"
    "get32 (memdisk r start) 0 = 0" "\<And>b. b \<notin> log_region start sz \<Longrightarrow> memdisk r b = m b"
    by (rule recover_returns [OF e(1-3), of m]) (use rec e in \<open>simp_all add: sel dsi\<close>)
  note fr = storedD [OF r(2)] and selr = bc_frame_sels [OF storedD(7) [OF r(2)]]
  have ds: "disksize r = dsz"
    by (simp add: selr sel dsi)
  have wr: "dwrites r = ws" "memdisk r = apply_writes D ws"
    using fr(5,6) ft(5,6) i(5,6) by simp_all
  have "memdisk r 1 = m 1" "D 1 = m 1"
    using r(5) geo R(6,8) by blast+
  then have "log_geo start sz dsz (memdisk r 1)"
    using R(1) by simp
  then have idle: "log_idle r"
    using fr(1-3) r(4) bc_same [of "?t\<lparr>lh_block := lh, lh_n := 0\<rparr>" t] ft i
    by (simp add: log_idle_def selr sel ds dsi)
  show thesis
  proof (rule that [OF _ idle _ _ ds _ _ ])
    show "reboot pid dsz D = Done r"
      using t(1) r(1) geo by (simp add: reboot_def initlog_def)
    show "recoverable start sz dsz m (apply_writes D (take k (dwrites r)))" for k
      using r(3) [of k] by (simp add: wr sel dsi)
  qed (use r(5) wr in \<open>simp_all add: selr\<close>)
qed

text \<open>
  Crashes: the machine stops after some of the block writes of a boot and boots again, any number of
  times. \<open>crashes pid dsz D D'\<close> says that \<open>D'\<close> is a disk that such a history can leave.
\<close>

inductive crashes :: "int \<Rightarrow> u32 \<Rightarrow> (u32 \<Rightarrow> block) \<Rightarrow> (u32 \<Rightarrow> block) \<Rightarrow> bool" for pid dsz D where
  crashes_refl: "crashes pid dsz D D"
| crashes_step: "crashes pid dsz D D' \<Longrightarrow> reboot pid dsz D' = Done r \<Longrightarrow>
    crashes pid dsz D (apply_writes D' (take k (dwrites r)))"

lemma crashes_recoverable:
  assumes "crashes pid dsz D D'" "recoverable start sz dsz m D"
  shows "recoverable start sz dsz m D'"
  using assms
proof induction
  case (crashes_step D' r k)
  obtain r' where "reboot pid dsz D' = Done r'"
    "\<And>k. recoverable start sz dsz m (apply_writes D' (take k (dwrites r')))"
    using reboot_returns [OF crashes_step.IH [OF crashes_step.prems]] by metis
  then show ?case
    using crashes_step.hyps(2) by simp
qed

text \<open>The disk of an interrupted commit recovers to the old contents or to the new ones.\<close>

definition commit_ready :: "kst \<Rightarrow> bool" where
  "commit_ready s \<longleftrightarrow> bc_inv s \<and> heldb s = {} \<and> trans_ok s \<and> dirtyb s = set (logged s) \<and> 0 < lh_n s
     \<and> log_geo (log_start s) (log_size s) (disksize s) (memdisk s 1) \<and> 1 \<notin> set (logged s)
     \<and> get32 (memdisk s (log_start s)) 0 = 0"

lemma recoverable_empty:
  assumes "log_geo start sz dsz (D 1)" "get32 (D start) 0 = 0"
    and "\<And>b. b \<notin> log_region start sz \<Longrightarrow> D b = m b"
  shows "recoverable start sz dsz m D"
proof -
  have "head_of (D start) = []" "0 < sz"
    using assms(1,2) by (simp_all add: head_of_def log_geo_def log_fits_def)
  then show ?thesis
    unfolding recoverable_def Let_def using assms(2)
    by (intro conjI assms(1) ballI allI impI; simp add: assms(3))
qed

lemma interrupted_before:
  assumes c: "commit_ready s" and k: "k \<le> nat (lh_n s)"
  shows "recoverable (log_start s) (log_size s) (disksize s) (memdisk s)
    (apply_writes (memdisk s) (take k (commit_writes s)))"
proof -
  let ?st = "log_start s" and ?R = "log_region (log_start s) (log_size s)"
  have tr: "trans_ok s" and geo: "log_geo ?st (log_size s) (disksize s) (memdisk s 1)"
    and hd: "get32 (memdisk s ?st) 0 = 0"
    using c by (simp_all add: commit_ready_def)
  have "take k (commit_writes s) = take k (log_writes s)"
    using k by (simp add: commit_writes_def log_writes_def)
  moreover have sub: "fst ` set (take k (log_writes s)) \<subseteq> ?R - {?st}"
    using fst_log_writes_region [OF tr] image_mono [OF set_take_subset, of fst k "log_writes s"]
    by (rule order_trans [rotated])
  moreover have "apply_writes (memdisk s) (take k (log_writes s)) b = memdisk s b" if "b = ?st \<or> b \<notin> ?R" for b
    by (rule apply_writes_other) (use that sub in auto)
  moreover have "1 \<notin> ?R"
    using geo by (simp add: log_geo_def)
  ultimately show ?thesis
    using geo hd by (intro recoverable_empty) simp_all
qed

lemma committed_recoverable:
  assumes c: "commit_ready s"
  defines "D \<equiv> apply_writes (memdisk s) (log_writes s @ [(log_start s, commit_head s)])"
  shows "recoverable (log_start s) (log_size s) (disksize s) (bview s) D" "head_of (D (log_start s)) = logged s"
proof -
  let ?st = "log_start s" and ?R = "log_region (log_start s) (log_size s)"
  have tr: "trans_ok s" and geo: "log_geo ?st (log_size s) (disksize s) (memdisk s 1)"
    and inv: "bc_inv s" and dirty: "dirtyb s = set (logged s)" and one: "1 \<notin> set (logged s)" "1 \<notin> ?R"
    using c by (simp_all add: commit_ready_def log_geo_def)
  note T = trans_okD [OF tr]
  have D: "D = (apply_writes (memdisk s) (log_writes s))(?st := commit_head s)"
    by (simp add: D_def)
  have st: "?st \<in> ?R"
    by (rule start_region [OF T(2)])
  have off: "D b = memdisk s b" if "b \<notin> ?R" for b
    using that st fst_log_writes_region [OF tr] by (auto simp: D intro!: apply_writes_other)
  have hd: "D ?st = commit_head s"
    by (simp add: D)
  show h: "head_of (D ?st) = logged s"
    using T(3,5) by (simp add: hd commit_head_def head_of_encode logged_def)
  have n: "length (logged s) = nat (lh_n s)"
    by (simp add: logged_def)
  have data: "D (log_at ?st (Suc i)) = bview s (logged s ! i)" if i: "i < nat (lh_n s)" for i
  proof -
    have "log_at ?st (Suc i) \<in> fst ` set (log_writes s)"
      using i by (simp add: fst_log_writes)
    then have "log_at ?st (Suc i) \<noteq> ?st"
      using fst_log_writes_region [OF tr] by auto
    then show ?thesis
      using log_writes_at [OF tr i] i by (simp add: D logged_def)
  qed
  have "D 1 = memdisk s 1"
    by (rule off [OF one(2)])
  moreover have "0 \<le> sint (get32 (D ?st) 0)"
    using T(3,5) by (simp add: hd commit_head_def encode_head_0 sint_small)
  moreover have "D b = bview s b" if "b \<notin> ?R" "b \<notin> set (logged s)" for b
    using off [OF that(1)] bview_clean [OF inv] that(2) dirty by simp
  moreover have "b < disksize s \<and> b \<noteq> 1 \<and> b \<notin> ?R" if "b \<in> set (logged s)" for b
    using that tr one by (auto simp: trans_ok_def)
  moreover have "distinct (logged s)"
    using tr by (simp add: trans_ok_def)
  ultimately show "recoverable ?st (log_size s) (disksize s) (bview s) D"
    unfolding recoverable_def h Let_def n using geo T data by (intro conjI allI ballI impI) simp_all
qed

lemma interrupted_after:
  assumes c: "commit_ready s" and k: "nat (lh_n s) < k"
  shows "recoverable (log_start s) (log_size s) (disksize s) (bview s)
    (apply_writes (memdisk s) (take k (commit_writes s)))"
proof -
  let ?st = "log_start s" and ?R = "log_region (log_start s) (log_size s)"
  let ?D = "apply_writes (memdisk s) (log_writes s @ [(?st, commit_head s)])"
  let ?ws = "home_writes s (\<lambda>i. bview s (lh_block s i))"
  let ?e = "encode_head 0 (lh_block s) (commit_head s)"
  have tr: "trans_ok s" and inv: "bc_inv s" and dirty: "dirtyb s = set (logged s)"
    using c by (simp_all add: commit_ready_def)
  note C = committed_recoverable [OF c]
  obtain j where j: "k = Suc (nat (lh_n s)) + j"
    using k less_iff_Suc_add by auto
  have "take k (commit_writes s) = (log_writes s @ [(?st, commit_head s)]) @ take j (?ws @ [(?st, ?e)])"
    by (simp add: commit_writes_def j log_writes_def)
  then have t: "apply_writes (memdisk s) (take k (commit_writes s)) = apply_writes ?D (take j (?ws @ [(?st, ?e)]))"
    by simp
  have pre: "recoverable ?st (log_size s) (disksize s) (bview s) (apply_writes ?D (take j ?ws))" for j
    by (rule conjunct1 [OF recoverable_installs [OF C(1), unfolded C(2)]])
       (auto simp: home_writes_def logged_def dest!: in_set_takeD)
  have off: "apply_writes ?D ?ws b = bview s b" if "b \<notin> ?R" for b
  proof (cases "b \<in> set (logged s)")
    case True
    then obtain i where "i < nat (lh_n s)" "b = lh_block s i"
      by (auto simp: logged_def)
    then show ?thesis
      using home_writes_at [OF tr] by simp
  next
    case False
    then have "apply_writes ?D ?ws b = ?D b"
      by (rule home_writes_other)
    then show ?thesis
      using recoverableD(8) [OF C(1) that] False C(2) by simp
  qed
  show ?thesis
  proof (cases "j \<le> length ?ws")
    case True
    then show ?thesis
      using pre [of j] by (simp add: t)
  next
    case False
    then have "take j (?ws @ [(?st, ?e)]) = ?ws @ [(?st, ?e)]"
      by simp
    moreover have "recoverable ?st (log_size s) (disksize s) (bview s) ((apply_writes ?D ?ws)(?st := ?e))"
      using recoverable_header [where d = ?e, OF _ off] pre [of "length ?ws"] by (simp add: encode_head_0)
    ultimately show ?thesis
      by (simp add: t)
  qed
qed

text \<open>
  C1. A commit is atomic with respect to crashes. From a state that is ready to commit,
  \<open>commit\<close> returns, having done \<open>2 * n + 2\<close> block writes for a transaction of \<open>n\<close> blocks. If the
  machine stops after the first \<open>k\<close> of them, crashes any number of further times during recovery and
  boots again, the boot succeeds and every block outside the log has its old contents when
  \<open>k \<le> n\<close> (the header was not written), and the contents the transaction gave it otherwise.
\<close>

theorem commit_crash_atomic:
  assumes "commit_ready s"
  shows "\<exists>t ws. commit s = Done t \<and> dwrites t = dwrites s @ ws \<and> length ws = 2 * nat (lh_n s) + 2
    \<and> (\<forall>k pid D. crashes pid (disksize s) (apply_writes (memdisk s) (take k ws)) D \<longrightarrow>
        (\<exists>r. reboot pid (disksize s) D = Done r \<and> log_idle r
          \<and> (\<forall>b. b \<notin> log_region (log_start s) (log_size s) \<longrightarrow>
               memdisk r b = (if k \<le> nat (lh_n s) then memdisk s b else bview s b))))"
proof -
  have r: "bc_inv s" "heldb s = {}" "trans_ok s" "dirtyb s = set (logged s)" "0 < lh_n s"
    using assms by (simp_all add: commit_ready_def)
  obtain t where t: "commit s = Done t" "stored (commit_writes s) (s\<lparr>lh_n := 0\<rparr>) t"
    by (rule returnsE [OF commit_stored [OF r]])
  let ?ws = "commit_writes s"
  have "\<exists>r. reboot pid (disksize s) D = Done r \<and> log_idle r
          \<and> (\<forall>b. b \<notin> log_region (log_start s) (log_size s) \<longrightarrow>
               memdisk r b = (if k \<le> nat (lh_n s) then memdisk s b else bview s b))"
    if c: "crashes pid (disksize s) (apply_writes (memdisk s) (take k ?ws)) D" for k pid D
  proof (cases "k \<le> nat (lh_n s)")
    case True
    show ?thesis
      by (rule reboot_returns [OF crashes_recoverable [OF c interrupted_before [OF assms True]]])
         (use True in auto)
  next
    case False
    then have "nat (lh_n s) < k" by simp
    from reboot_returns [OF crashes_recoverable [OF c interrupted_after [OF assms this]]] show ?thesis
      using False by metis
  qed
  moreover have "dwrites t = dwrites s @ ?ws"
    using storedD(6) [OF t(2)] by simp
  moreover have "length ?ws = 2 * nat (lh_n s) + 2"
    by (simp add: commit_writes_def log_writes_def home_writes_def)
  ultimately show ?thesis
    using t(1) by blast
qed

text \<open>A state for the witnesses: block 50 is in the transaction, cached in buffer 0.\<close>

definition demo_disk :: "u32 \<Rightarrow> block" where
  "demo_disk b = (if b = 1 then put32 12 20 (put32 16 2 zero_block) else zero_block)"

definition demo_trans :: kst where
  "demo_trans = (let s = binit (boot_state 1 100 demo_disk) in
     s\<lparr>bufs := (bufs s)(0 := zero_buf\<lparr>b_valid := True, b_dirty := True, b_dev := 1, b_blockno := 50,
         b_data := (\<lambda>_. 7)\<rparr>),
       log_start := 2, log_size := 20, log_dev := 1, lh_n := 1, lh_block := (\<lambda>_. 50)\<rparr>)"

lemma demo_region: "b \<in> log_region 2 20 \<longleftrightarrow> 2 \<le> unat b \<and> unat b < 22"
  using log_region_iff [of 2 20 100 b] by (simp add: log_fits_def)

lemma demo_geo: "log_geo 2 20 100 (demo_disk 1)"
  by (simp add: log_geo_def log_fits_def demo_region demo_disk_def decode_sb_def getput_simps)

lemma demo_trans_ready: "commit_ready demo_trans"
proof -
  let ?i = "binit (boot_state 1 100 demo_disk)"
  have i: "bc_inv ?i" "memdisk ?i = demo_disk" "bufs ?i = (\<lambda>_. zero_buf)"
    "bc_frame (boot_state 1 100 demo_disk) ?i"
    using binit_ok [of 1 100 demo_disk] by blast+
  have dsz: "disksize ?i = 100"
    unfolding bc_frame_sels(2) [OF i(4)] by (simp add: boot_state_def)
  let ?b = "zero_buf\<lparr>b_valid := True, b_dirty := True, b_dev := 1, b_blockno := 50, b_data := (\<lambda>_. 7)\<rparr>"
  have s: "bufs demo_trans = (\<lambda>_. zero_buf)(0 := ?b)" "bnext demo_trans = bnext ?i" "bprev demo_trans = bprev ?i"
    "memdisk demo_trans = demo_disk" "disksize demo_trans = 100" "log_start demo_trans = 2"
    "log_size demo_trans = 20" "log_dev demo_trans = 1" "lh_n demo_trans = 1" "lh_block demo_trans = (\<lambda>_. 50)"
    using i(2,3) dsz by (simp_all add: demo_trans_def Let_def)
  have one: "{i :: nat. i < NBUF \<and> (i = 0 \<longrightarrow> P) \<and> i = 0} = (if P then {0} else {})" for P
    by auto
  have "bc_inv demo_trans"
    using lru_inv [OF i(1)] by (auto simp: bc_inv_def lru_ok_def s buf_ok_def zero_buf_def zero_lock_def)
  moreover have "heldb demo_trans = {}"
    by (auto simp: heldb_def s zero_buf_def zero_lock_def)
  moreover have "{i. i < NBUF \<and> b_dirty (bufs demo_trans i)} = {0}"
    by (auto simp: s zero_buf_def split: if_splits)
  then have "dirtyb demo_trans = {50}"
    by (simp add: dirtyb_def s)
  moreover have "logged demo_trans = [50]"
    by (simp add: logged_def s)
  moreover have "50 \<notin> log_region 2 20"
    by (simp add: demo_region)
  ultimately show ?thesis
    using demo_geo by (simp add: commit_ready_def trans_ok_def s log_geo_def) (simp add: demo_disk_def zero_block_def get32_def)
qed

text \<open>C1 applied: a crash after one of the four writes loses the transaction, a later one keeps it.\<close>

theorem commit_crash_atomic_witness:
  "\<exists>t ws. commit demo_trans = Done t \<and> length ws = 4 \<and> (\<exists>r. reboot 1 (disksize demo_trans)
     (apply_writes (memdisk demo_trans) (take 2 ws)) = Done r \<and> memdisk r 50 = bview demo_trans 50)"
proof -
  obtain t ws where t: "commit demo_trans = Done t" "length ws = 2 * nat (lh_n demo_trans) + 2"
    and c: "\<And>k pid D. crashes pid (disksize demo_trans) (apply_writes (memdisk demo_trans) (take k ws)) D \<Longrightarrow>
        (\<exists>r. reboot pid (disksize demo_trans) D = Done r \<and> log_idle r
          \<and> (\<forall>b. b \<notin> log_region (log_start demo_trans) (log_size demo_trans) \<longrightarrow>
               memdisk r b = (if k \<le> nat (lh_n demo_trans) then memdisk demo_trans b else bview demo_trans b)))"
    using commit_crash_atomic [OF demo_trans_ready] by metis
  have n: "lh_n demo_trans = 1" "logged demo_trans = [50]"
    by (simp_all add: demo_trans_def Let_def logged_def)
  have "50 \<notin> log_region (log_start demo_trans) (log_size demo_trans)"
    using demo_trans_ready n(2) by (simp add: commit_ready_def trans_ok_def)
  then show ?thesis
    using t n c [OF crashes_refl, of 1 2] by auto
qed

subsection \<open>Writing through the log\<close>

text \<open>
  The invariant of the log inside and between transactions: the blocks of the current transaction
  are exactly the pinned ones, none of them is in the log region or the super block, and the header
  on the disk is empty. \<open>log_size \<le> LOGSIZE\<close> is what \<open>mkfs\<close> writes; with a larger log the
  transaction could fill the buffer cache.
\<close>

definition log_inv :: "kst \<Rightarrow> bool" where
  "log_inv s \<longleftrightarrow> bc_inv s \<and> trans_ok s \<and> dirtyb s = set (logged s) \<and> log_size s \<le> LOGSIZE
     \<and> log_geo (log_start s) (log_size s) (disksize s) (memdisk s 1) \<and> 1 \<notin> set (logged s)
     \<and> get32 (memdisk s (log_start s)) 0 = 0"

definition tx_room :: "nat \<Rightarrow> kst \<Rightarrow> bool" where
  "tx_room k s \<longleftrightarrow> log_inv s \<and> 1 \<le> log_outstanding s \<and> lh_n s + int k < log_size s"

definition tx_frame :: "kst \<Rightarrow> kst \<Rightarrow> bool" where
  "tx_frame s s' \<longleftrightarrow> s' = s\<lparr>bufs := bufs s', bnext := bnext s', bprev := bprev s',
     lh_n := lh_n s', lh_block := lh_block s'\<rparr>"

definition tx_block :: "kst \<Rightarrow> u32 \<Rightarrow> bool" where
  "tx_block s b \<longleftrightarrow> b < disksize s \<and> b \<noteq> 1 \<and> b \<notin> log_region (log_start s) (log_size s)"

lemma tx_frame_refl [simp]: "tx_frame s s"
  by (simp add: tx_frame_def)

lemma tx_frame_trans: "tx_frame s t \<Longrightarrow> tx_frame t u \<Longrightarrow> tx_frame s u"
  unfolding tx_frame_def by (cases s; cases t; cases u) simp

lemma tx_frame_bc: "bc_frame s t \<Longrightarrow> memdisk t = memdisk s \<Longrightarrow> dwrites t = dwrites s \<Longrightarrow> tx_frame s t"
  unfolding tx_frame_def bc_frame_def by (cases s; cases t) simp

lemma tx_frame_sels:
  assumes "tx_frame s s'"
  shows "curpid s' = curpid s" "memdisk s' = memdisk s" "dwrites s' = dwrites s"
    "disksize s' = disksize s" "log_start s' = log_start s"
    "log_size s' = log_size s" "log_outstanding s' = log_outstanding s"
    "log_committing s' = log_committing s" "log_dev s' = log_dev s" "sb s' = sb s"
    "icache s' = icache s" "ftable s' = ftable s" "ofile s' = ofile s" "cwd s' = cwd s"
    "pipes s' = pipes s" "kpages s' = kpages s" "killed s' = killed s"
    "umem s' = umem s" "usz s' = usz s" "uesp s' = uesp s"
  using assms unfolding tx_frame_def by (cases s; cases s'; simp)+

lemma log_inv_frame:
  assumes "bc_frame s t" "memdisk t = memdisk s" "dirtyb t = dirtyb s" "bc_inv t" "log_inv s"
  shows "log_inv t"
  using assms trans_ok_frame [OF assms(1)]
  by (simp add: log_inv_def bc_frame_sels [OF assms(1)] logged_def)

definition log_push :: "u32 \<Rightarrow> kst \<Rightarrow> kst" where
  "log_push bno s = (if bno \<in> set (logged s) then s
     else s\<lparr>lh_block := (lh_block s)(nat (lh_n s) := bno), lh_n := lh_n s + 1\<rparr>)"

lemma log_push_sels [simp]:
  "bufs (log_push b s) = bufs s" "bnext (log_push b s) = bnext s" "bprev (log_push b s) = bprev s"
  "memdisk (log_push b s) = memdisk s" "dwrites (log_push b s) = dwrites s"
  "disksize (log_push b s) = disksize s" "log_start (log_push b s) = log_start s"
  "log_size (log_push b s) = log_size s" "log_outstanding (log_push b s) = log_outstanding s"
  "log_dev (log_push b s) = log_dev s" "tx_frame s (log_push b s)"
  by (simp_all add: log_push_def tx_frame_def)

lemma logged_push:
  assumes "0 \<le> lh_n s"
  shows "logged (log_push b s) = (if b \<in> set (logged s) then logged s else logged s @ [b])"
    "lh_n (log_push b s) = (if b \<in> set (logged s) then lh_n s else lh_n s + 1)"
  using assms by (simp_all add: log_push_def logged_def nat_add_distrib)

text \<open>The search loop of \<open>log_write\<close> absorbs a block that is already in the transaction.\<close>

lemma log_write_push:
  assumes "0 \<le> lh_n s" "lh_n s < LOGSIZE" "lh_n s < log_size s - 1" "1 \<le> log_outstanding s"
  shows "log_write i s = Done (mark_dirty i (log_push (b_blockno (bufs s i)) s))"
proof (cases "b_blockno (bufs s i) \<in> set (logged s)")
  case True
  let ?b = "b_blockno (bufs s i)"
  obtain j where j: "first_index (\<lambda>i. lh_block s i = ?b) (nat (lh_n s)) = Some j"
    using True first_index_None [of "\<lambda>i. lh_block s i = ?b"] by (cases "first_index (\<lambda>i. lh_block s i = ?b) (nat (lh_n s))") (auto simp: logged_def)
  then have "j < nat (lh_n s)" "lh_block s j = ?b"
    by (simp_all add: first_index_Some)
  then have "s\<lparr>lh_block := (lh_block s)(j := ?b)\<rparr> = s" "int j \<noteq> lh_n s"
    using fun_upd_triv [of "lh_block s" j] by auto
  then show ?thesis
    using assms True j by (simp add: log_write_def log_push_def Let_def)
next
  case False
  let ?b = "b_blockno (bufs s i)"
  have "first_index (\<lambda>i. lh_block s i = ?b) (nat (lh_n s)) = None"
    using False unfolding first_index_None logged_def by (metis atLeastLessThan_iff imageI le0 set_map set_upt)
  then show ?thesis
    using assms False by (simp add: log_write_def log_push_def Let_def)
qed

lemma log_push_inv:
  assumes s: "log_inv s" and b: "tx_block s b" "lh_n s + 1 < log_size s"
  shows "trans_ok (log_push b s)" "1 \<notin> set (logged (log_push b s))"
    "set (logged (log_push b s)) = insert b (set (logged s))"
proof -
  have t: "trans_ok s" using s by (simp add: log_inv_def)
  note T = trans_okD [OF t]
  have sz: "log_size s \<le> LOGSIZE" using s by (simp add: log_inv_def)
  show "set (logged (log_push b s)) = insert b (set (logged s))" "1 \<notin> set (logged (log_push b s))"
    using s b by (auto simp: logged_push [OF T(3)] log_inv_def tx_block_def)
  show "trans_ok (log_push b s)"
    using t b sz by (auto simp: trans_ok_def logged_push [OF T(3)] tx_block_def)
qed

definition logged_spec :: "u32 \<Rightarrow> block \<Rightarrow> kst \<Rightarrow> kst \<Rightarrow> bool" where
  "logged_spec b d s t \<longleftrightarrow> log_inv t \<and> bview t = (bview s)(b := d) \<and> heldb t = heldb s \<and> tx_frame s t
     \<and> logged t = (if b \<in> set (logged s) then logged s else logged s @ [b])
     \<and> (\<forall>j c. holds t j c = holds s j c)"

lemma log_write_spec:
  assumes s: "log_inv s" "holds s i b" "tx_block s b" "lh_n s + 1 < log_size s" "1 \<le> log_outstanding s"
  shows "returns (log_write i (set_data i d s)) (logged_spec b d s)"
proof -
  have inv: "bc_inv s" and sz: "log_size s \<le> LOGSIZE" and t: "trans_ok s"
    using s(1) by (simp_all add: log_inv_def)
  note T = trans_okD [OF t]
  let ?p = "log_push b s"
  have e: "bc_inv ?p" "heldb ?p = heldb s" "dirtyb ?p = dirtyb s" "bview ?p = bview s" "holds ?p = holds s"
    using bc_same [of ?p s] inv by simp_all
  let ?t = "mark_dirty i (set_data i d ?p)"
  have P: "pinned_spec b d ?p i ?t"
    by (rule mark_dirty_spec [OF e(1)]) (use s(2) e(5) in simp)
  note P' = P [unfolded pinned_spec_def]
  have fr: "bc_frame ?p ?t" using P' by blast
  note sel = bc_frame_sels [OF fr]
  have lg: "logged ?t = logged ?p"
    by (simp add: logged_def sel)
  have c: "set_data i d ?p = log_push b (set_data i d s)"
    by (simp add: log_push_def set_data_def upd_buf_def logged_def)
  have "b_blockno (bufs (set_data i d s) i) = b" "lh_n (set_data i d s) = lh_n s"
      "log_size (set_data i d s) = log_size s" "log_outstanding (set_data i d s) = log_outstanding s"
    using s(2) by (simp_all add: holds_def set_data_def upd_buf_def)
  then have "log_write i (set_data i d s) = Done ?t"
    using log_write_push [of "set_data i d s" i] T s(4,5) sz by (simp add: c)
  moreover have "log_inv ?t"
    using P' log_push_inv [OF s(1,3,4)] trans_ok_frame [OF fr] s(1) e
    by (simp add: log_inv_def sel lg)
  moreover have "tx_frame s ?t"
    by (rule tx_frame_trans [OF log_push_sels(11) tx_frame_bc [OF fr]]) (use P' in simp_all)
  ultimately show ?thesis
    using P' e by (simp add: logged_spec_def lg logged_push [OF T(3)] returns_def)
qed

interpretation tx: block_store tx_room bview heldb holds "\<lambda>s i. b_data (bufs s i)" tx_frame
    "\<lambda>s b. b < disksize s" tx_block "bread 1" "\<lambda>i d s. log_write i (set_data i d s)" brelse
proof unfold_locales
  show "tx_room (Suc k) s \<Longrightarrow> tx_room k s" for k s
    by (simp add: tx_room_def)
  show "tx_frame s s" for s
    by simp
  show "tx_frame s t \<Longrightarrow> tx_frame t u \<Longrightarrow> tx_frame s u" for s t u
    by (rule tx_frame_trans)
  show "tx_frame s t \<Longrightarrow> (\<lambda>b. b < disksize t) = (\<lambda>b. b < disksize s) \<and> tx_block t = tx_block s" for s t
    by (simp add: tx_frame_sels tx_block_def fun_eq_iff)
  show "tx_block s b \<Longrightarrow> b < disksize s" for s b
    by (simp add: tx_block_def)
  show "tx_room k s \<Longrightarrow> holds s i b \<Longrightarrow> b_data (bufs s i) = bview s b \<and> b \<in> heldb s" for k s i b
    by (simp add: tx_room_def log_inv_def bview_holds holds_heldb)
  show "returns (bread 1 b s) (\<lambda>(i, t). tx_room k t \<and> holds t i b \<and> bview t = bview s
        \<and> heldb t = insert b (heldb s) \<and> tx_frame s t \<and> (\<forall>j c. holds s j c \<longrightarrow> holds t j c))"
    if a: "tx_room k s" "b < disksize s" "b \<notin> heldb s" "card (heldb s) \<le> k" for k s b
  proof -
    have c: "log_inv s" "1 \<le> log_outstanding s" "lh_n s + int k < log_size s"
      and inv: "bc_inv s" and d: "dirtyb s = set (logged s)" and sz: "log_size s \<le> LOGSIZE"
      and n: "0 \<le> lh_n s"
      using a(1) by (simp_all add: tx_room_def log_inv_def trans_ok_def)
    have "card (dirtyb s) \<le> nat (lh_n s)"
      using card_length [of "logged s"] by (simp add: d) (simp add: logged_def)
    then have "card (dirtyb s) + k < NBUF"
      using c(3) sz n by linarith
    then obtain i t where r: "bread 1 b s = Done (i, t)" "bread_spec b s i t"
      using bread_room [OF inv a(2-4)] by (auto simp: returns_def)
    note f = r(2) [unfolded bread_spec_def]
    have fr: "bc_frame s t" and m: "memdisk t = memdisk s" "dwrites t = dwrites s"
      using f by blast+
    have "log_inv t"
      by (rule log_inv_frame [OF fr m(1) _ _ c(1)]) (use f in simp_all)
    then show ?thesis
      using f c tx_frame_bc [OF fr m] r(1) bc_frame_sels [OF fr] by (simp add: returns_def tx_room_def)
  qed
  show "returns (log_write i (set_data i d s)) (\<lambda>t. tx_room k t \<and> bview t = (bview s)(b := d)
        \<and> heldb t = heldb s \<and> tx_frame s t \<and> (\<forall>j c. holds t j c = holds s j c))"
    if a: "tx_room (Suc k) s" "holds s i b" "tx_block s b" for k s i b d
  proof -
    have c: "log_inv s" "1 \<le> log_outstanding s" "lh_n s + int (Suc k) < log_size s"
      and n: "0 \<le> lh_n s"
      using a(1) by (simp_all add: tx_room_def log_inv_def trans_ok_def)
    have "lh_n s + 1 < log_size s"
      using c(3) by linarith
    then obtain t where r: "log_write i (set_data i d s) = Done t" "logged_spec b d s t"
      using log_write_spec [OF c(1) a(2,3) _ c(2)] by (auto simp: returns_def)
    note f = r(2) [unfolded logged_spec_def]
    have fr: "tx_frame s t" and inv: "log_inv t" using f by blast+
    have "0 \<le> lh_n t"
      using inv by (simp add: log_inv_def trans_ok_def)
    moreover have "length (logged t) \<le> Suc (length (logged s))"
      using f by simp
    ultimately have "lh_n t \<le> lh_n s + 1"
      using n by (simp add: logged_def)
    then have "tx_room k t"
      using inv c tx_frame_sels [OF fr] by (simp add: tx_room_def)
    then show ?thesis
      using f r(1) by (simp add: returns_def)
  qed
  show "returns (brelse i s) (\<lambda>t. tx_room k t \<and> bview t = bview s \<and> heldb t = heldb s - {b}
        \<and> tx_frame s t \<and> (\<forall>j c. holds t j c \<longleftrightarrow> holds s j c \<and> c \<noteq> b))"
    if a: "tx_room k s" "holds s i b" for k s i b
  proof -
    have c: "log_inv s" "1 \<le> log_outstanding s" "lh_n s + int k < log_size s" and inv: "bc_inv s"
      using a(1) by (simp_all add: tx_room_def log_inv_def)
    obtain t where r: "brelse i s = Done t" "released_spec b s t"
      using inv a(2) by (rule brelse_obtain)
    note f = r(2) [unfolded released_spec_def]
    have fr: "bc_frame s t" and m: "memdisk t = memdisk s" "dwrites t = dwrites s"
      using f by blast+
    have "log_inv t"
      by (rule log_inv_frame [OF fr m(1) _ _ c(1)]) (use f in simp_all)
    then show ?thesis
      using f c tx_frame_bc [OF fr m] r(1) bc_frame_sels [OF fr] by (simp add: returns_def tx_room_def)
  qed
qed

subsection \<open>Transactions: \<open>begin_op\<close>, \<open>log_write\<close>, \<open>end_op\<close>\<close>

lemma commit_ready_iff: "log_size s \<le> LOGSIZE \<Longrightarrow>
    commit_ready s \<longleftrightarrow> log_inv s \<and> heldb s = {} \<and> 0 < lh_n s"
  by (auto simp: commit_ready_def log_inv_def)

text \<open>
  C3. \<open>log_write\<close> of a locked block buffer, inside a transaction that has room, returns; the kernel
  sees the new contents, the disk does not change, the buffer is pinned, and the block takes a slot
  of the log only when it is not already part of the transaction.
\<close>

theorem log_write_absorbs:
  assumes "log_inv s" "holds s i b" "tx_block s b" "lh_n s + 1 < log_size s" "1 \<le> log_outstanding s"
  shows "\<exists>t. log_write i (set_data i d s) = Done t \<and> log_inv t \<and> bview t = (bview s)(b := d)
    \<and> memdisk t = memdisk s \<and> dwrites t = dwrites s \<and> b \<in> dirtyb t
    \<and> lh_n t = (if b \<in> set (logged s) then lh_n s else lh_n s + 1)"
proof -
  obtain t where t: "log_write i (set_data i d s) = Done t" "logged_spec b d s t"
    by (rule returnsE [OF log_write_spec [OF assms]])
  note f = t(2) [unfolded logged_spec_def]
  have fr: "tx_frame s t" and n: "0 \<le> lh_n s" "0 \<le> lh_n t" and d: "dirtyb t = set (logged t)"
    using f assms(1) by (simp_all add: log_inv_def trans_ok_def)
  have "length (logged t) = (if b \<in> set (logged s) then length (logged s) else Suc (length (logged s)))"
    using f by simp
  then have "lh_n t = (if b \<in> set (logged s) then lh_n s else lh_n s + 1)"
    using n by (auto simp: logged_def split: if_splits)
  then show ?thesis
    using f t(1) tx_frame_sels [OF fr] by (auto simp: d)
qed

text \<open>The commit of a transaction that is not empty.\<close>

lemma end_op_nonempty:
  assumes "log_inv s" "heldb s = {}" "log_outstanding s = 1" "\<not> log_committing s" "0 < lh_n s"
  shows "\<exists>t. end_op s = Done t \<and> log_inv t \<and> log_outstanding t = 0 \<and> \<not> log_committing t
    \<and> lh_n t = 0 \<and> dirtyb t = {}
    \<and> (\<forall>b. b \<notin> log_region (log_start s) (log_size s) \<longrightarrow> memdisk t b = bview s b \<and> bview t b = bview s b)"
proof -
  let ?s = "s\<lparr>log_outstanding := 0, log_committing := True\<rparr>"
  let ?R = "log_region (log_start s) (log_size s)"
  have s: "bc_inv s" "trans_ok s" "dirtyb s = set (logged s)" "log_size s \<le> LOGSIZE"
    using assms(1) by (simp_all add: log_inv_def)
  have e: "bc_inv ?s" "heldb ?s = {}" "dirtyb ?s = dirtyb s" "bview ?s = bview s" "logged ?s = logged s"
    using bc_same [of ?s s] s(1) assms(2) by (simp_all add: logged_def)
  have t: "trans_ok ?s"
    using s(2) by (simp add: trans_ok_def e(5))
  obtain u where u: "commit ?s = Done u" "stored (commit_writes ?s) (?s\<lparr>lh_n := 0\<rparr>) u"
    using commit_stored [OF e(1,2) t] assms(5) e(3,5) s(3) by (auto elim: returnsE)
  note f = storedD [OF u(2)] and sel = bc_frame_sels [OF storedD(7) [OF u(2)]]
  have c: "commit_ready s"
    using commit_ready_iff [OF s(4)] assms(1,2,5) by simp
  have ws: "commit_writes ?s = commit_writes s"
    by (simp add: commit_writes_def log_writes_def home_writes_def commit_head_def e(4))
  have len: "nat (lh_n s) < length (commit_writes s)"
    by (simp add: commit_writes_def log_writes_def)
  have m: "memdisk u = apply_writes (memdisk s) (commit_writes s)"
    using f(5) by (simp add: ws)
  have rec: "recoverable (log_start s) (log_size s) (disksize s) (bview s) (memdisk u)"
    using interrupted_after [OF c len] by (simp add: m)
  have hd: "memdisk u (log_start s) = encode_head 0 (lh_block s) (commit_head s)"
    by (simp add: m commit_writes_def)
  then have h: "head_of (memdisk u (log_start s)) = []" "get32 (memdisk u (log_start s)) 0 = 0"
    by (simp_all add: head_of_def encode_head_0)
  have off: "memdisk u b = bview s b" if "b \<notin> ?R" for b
    using recoverableD(8) [OF rec that] h(1) by simp
  let ?s0 = "?s\<lparr>lh_n := 0\<rparr>"
  have "bview ?s0 = bview s" "dirtyb ?s0 = dirtyb s"
    using bc_same [of ?s0 s] by simp_all
  then have "dirtyb u = set (logged s) - fst ` set (commit_writes s)"
    using f(3) s(3) by (simp add: ws)
  moreover have "set (logged s) \<subseteq> fst ` set (commit_writes s)"
    using fst_home_writes [of s "\<lambda>i. bview s (lh_block s i)"] by (auto simp: commit_writes_def image_Un)
  ultimately have d: "dirtyb u = {}"
    by simp
  let ?t = "u\<lparr>log_committing := False\<rparr>"
  have et: "bc_inv ?t" "dirtyb ?t = {}" "bview ?t = bview u"
    using bc_same [of ?t u] f(1) d by simp_all
  have "log_inv ?t"
    using et h(2) s(2,4) recoverableD(1) [OF rec]
    by (simp add: log_inv_def trans_ok_def logged_def sel)
  moreover have "end_op s = Done ?t"
    using assms(3,4) u(1) by (simp add: end_op_def)
  ultimately show ?thesis
    using et bview_clean [OF f(1)] d off by (simp add: sel)
qed

text \<open>
  C2. The last \<open>end_op\<close> of a transaction commits it: it returns with no operation outstanding, an
  empty log and nothing pinned, and every block outside the log region is on the disk as the
  operations of the transaction left it.
\<close>

theorem end_op_commits:
  assumes "log_inv s" "heldb s = {}" "log_outstanding s = 1" "\<not> log_committing s"
  shows "\<exists>t. end_op s = Done t \<and> log_inv t \<and> log_outstanding t = 0 \<and> \<not> log_committing t
    \<and> lh_n t = 0 \<and> dirtyb t = {}
    \<and> (\<forall>b. b \<notin> log_region (log_start s) (log_size s) \<longrightarrow> memdisk t b = bview s b \<and> bview t b = bview s b)"
proof (cases "0 < lh_n s")
  case True
  then show ?thesis
    by (rule end_op_nonempty [OF assms])
next
  case False
  have s: "bc_inv s" "trans_ok s" "dirtyb s = set (logged s)"
    using assms(1) by (simp_all add: log_inv_def)
  have z: "lh_n s = 0" "logged s = []"
    using s(2) False by (simp_all add: trans_ok_def logged_def)
  let ?t = "s\<lparr>log_outstanding := 0, log_committing := False\<rparr>"
  have "end_op s = Done ?t"
    using assms(3,4) z by (simp add: end_op_def commit_def)
  moreover have "log_inv ?t" "dirtyb ?t = {}" "bview ?t = bview s"
    using assms(1) z bc_same [of ?t s] by (simp_all add: log_inv_def trans_ok_def logged_def)
  ultimately show ?thesis
    using z bview_clean [OF s(1)] s(3) by auto
qed

subsection \<open>Witnesses\<close>

text \<open>\<open>demo_trans\<close> inside its operation, and with the buffer of block 50 locked.\<close>

definition demo_locked :: kst where
  "demo_locked = (let s = demo_trans\<lparr>log_outstanding := 1\<rparr> in
     upd_buf 0 (\<lambda>x. x\<lparr>b_lock := \<lparr>sl_locked = True, sl_pid = 1\<rparr>, b_refcnt := 1\<rparr>) s)"

lemma demo_sels: "lh_n demo_trans = 1" "log_size demo_trans = 20" "log_start demo_trans = 2" "disksize demo_trans = 100"
  "bufs demo_trans = (\<lambda>_. zero_buf)(0 := zero_buf\<lparr>b_valid := True, b_dirty := True, b_dev := 1,
     b_blockno := 50, b_data := (\<lambda>_. 7)\<rparr>)" "logged demo_trans = [50]" "\<not> log_committing demo_trans"
proof -
  have i: "bufs (binit (boot_state 1 100 demo_disk)) = (\<lambda>_. zero_buf)"
    "bc_frame (boot_state 1 100 demo_disk) (binit (boot_state 1 100 demo_disk))"
    using binit_ok [of 1 100 demo_disk] by blast+
  show "lh_n demo_trans = 1" "log_size demo_trans = 20" "log_start demo_trans = 2" "logged demo_trans = [50]"
    "bufs demo_trans = (\<lambda>_. zero_buf)(0 := zero_buf\<lparr>b_valid := True, b_dirty := True, b_dev := 1,
     b_blockno := 50, b_data := (\<lambda>_. 7)\<rparr>)"
    by (simp_all add: demo_trans_def Let_def i(1) logged_def)
  show "disksize demo_trans = 100" "\<not> log_committing demo_trans"
    by (simp_all add: demo_trans_def Let_def bc_frame_sels [OF i(2)]) (simp_all add: boot_state_def)
qed

lemma demo_log_inv: "log_inv (demo_trans\<lparr>log_outstanding := 1\<rparr>)" "heldb (demo_trans\<lparr>log_outstanding := 1\<rparr>) = {}"
proof -
  let ?s = "demo_trans\<lparr>log_outstanding := 1\<rparr>"
  have c: "log_inv demo_trans" "heldb demo_trans = {}"
    using demo_trans_ready commit_ready_iff [of demo_trans] by (simp_all add: demo_sels)
  then show "log_inv ?s" "heldb ?s = {}"
    using bc_same [of ?s demo_trans] by (simp_all add: log_inv_def trans_ok_def logged_def)
qed

lemma demo_locked_ok: "log_inv demo_locked" "holds demo_locked 0 50" "tx_block demo_locked 50"
proof -
  let ?s = "demo_trans\<lparr>log_outstanding := 1\<rparr>"
  have s: "log_inv ?s" by (rule demo_log_inv)
  then have b: "bc_inv ?s" "lru_ok ?s" by (simp_all add: log_inv_def lru_inv)
  have l: "demo_locked = upd_buf 0 (\<lambda>x. x\<lparr>b_lock := \<lparr>sl_locked = True, sl_pid = 1\<rparr>, b_refcnt := 1\<rparr>) ?s"
    by (simp add: demo_locked_def)
  have f: "bc_frame ?s demo_locked" and m: "memdisk demo_locked = memdisk ?s"
    by (simp_all add: l bc_frame_upd)
  have "bc_inv demo_locked"
    unfolding bc_inv_def
  proof (intro conjI allI impI)
    show "lru_ok demo_locked"
      using b(2) by (simp add: l)
    show "buf_ok demo_locked (bufs demo_locked i)" if "i < NBUF" for i
      by (simp add: l buf_ok_def demo_sels zero_buf_def zero_lock_def)
    show "i = j" if "b_valid (bufs demo_locked i) \<and> b_valid (bufs demo_locked j)
        \<and> b_blockno (bufs demo_locked i) = b_blockno (bufs demo_locked j)" for i j
      using that by (simp add: l demo_sels zero_buf_def split: if_splits)
  qed
  moreover have "dirtyb demo_locked = dirtyb ?s"
    unfolding dirtyb_def by (rule image_cong) (auto simp: l)
  ultimately show "log_inv demo_locked"
    by (intro log_inv_frame [OF f m _ _ s])
  show "holds demo_locked 0 50"
    by (simp add: l holds_def demo_sels)
  show "tx_block demo_locked 50"
    using demo_region by (simp add: tx_block_def bc_frame_sels [OF f] demo_sels)
qed

text \<open>C3 applied: writing the locked block 50 again is absorbed.\<close>

theorem log_write_absorbs_witness:
  "\<exists>t. log_write 0 (set_data 0 zero_block demo_locked) = Done t \<and> lh_n t = 1 \<and> bview t 50 = zero_block"
proof -
  have "lh_n demo_locked = 1" "log_size demo_locked = 20" "log_outstanding demo_locked = 1" "50 \<in> set (logged demo_locked)"
    using demo_sels(6) by (simp_all add: demo_locked_def upd_buf_def logged_def demo_sels)
  then show ?thesis
    using log_write_absorbs [OF demo_locked_ok, of zero_block] by auto
qed

text \<open>C2 applied: the end of the operation puts block 50 on the disk.\<close>

theorem end_op_commits_witness:
  "\<exists>t. end_op (demo_trans\<lparr>log_outstanding := 1\<rparr>) = Done t \<and> memdisk t 50 = bview (demo_trans\<lparr>log_outstanding := 1\<rparr>) 50"
  using end_op_commits [OF demo_log_inv] demo_region [of 50] by (auto simp: demo_sels)

end
