(* ===== verification/Strings.thy ===== *)
theory Strings
  imports Prelude
begin

text \<open>
  The string and memory functions of the kernel (\<open>string.c\<close>) and of the user library (\<open>ulib.c\<close>). A
  pointer is a buffer (a function from offsets to bytes) and an offset in it; \<open>memmove\<close> and \<open>memset\<close>
  act on one memory, because their result depends on where the operands lie. The lemmas relate each
  loop to what it is for: \<open>memmove\<close> copies the original bytes however the operands overlap,
  \<open>memset\<close>'s two store instructions agree, and comparisons stop at the terminator.
\<close>

subsection \<open>\<open>string.c\<close>\<close>

text \<open>\<open>rep stosb\<close> and \<open>rep stosl\<close> (\<open>x86.h\<close>).\<close>

fun stosb :: "nat \<Rightarrow> byte \<Rightarrow> nat \<Rightarrow> block \<Rightarrow> block" where
  "stosb d c 0 m = m"
| "stosb d c (Suc n) m = stosb (d + 1) c n (m(d := c))"

fun stosl :: "nat \<Rightarrow> u32 \<Rightarrow> nat \<Rightarrow> block \<Rightarrow> block" where
  "stosl d c 0 m = m"
| "stosl d c (Suc n) m = stosl (d + 4) c n (put32 d c m)"

definition memset :: "nat \<Rightarrow> u32 \<Rightarrow> nat \<Rightarrow> block \<Rightarrow> block" where
  "memset dst c n m =
    (if dst mod 4 = 0 \<and> n mod 4 = 0 then
       let c = c AND 0xFF
       in stosl dst (push_bit 24 c OR push_bit 16 c OR push_bit 8 c OR c) (n div 4) m
     else stosb dst (ucast c) n m)"

fun memcmp :: "block \<Rightarrow> nat \<Rightarrow> block \<Rightarrow> nat \<Rightarrow> nat \<Rightarrow> int" where
  "memcmp a s1 b s2 0 = 0"
| "memcmp a s1 b s2 (Suc n) =
     (if a s1 \<noteq> b s2 then uint (a s1) - uint (b s2) else memcmp a (s1 + 1) b (s2 + 1) n)"

fun copy_up :: "nat \<Rightarrow> nat \<Rightarrow> nat \<Rightarrow> block \<Rightarrow> block" where
  "copy_up d s 0 m = m"
| "copy_up d s (Suc n) m = copy_up (d + 1) (s + 1) n (m(d := m s))"

fun copy_down :: "nat \<Rightarrow> nat \<Rightarrow> nat \<Rightarrow> block \<Rightarrow> block" where
  "copy_down d s 0 m = m"
| "copy_down d s (Suc n) m = copy_down (d - 1) (s - 1) n (m(d - 1 := m (s - 1)))"

definition memmove :: "nat \<Rightarrow> nat \<Rightarrow> nat \<Rightarrow> block \<Rightarrow> block" where
  "memmove dst src n m =
    (if src < dst \<and> src + n > dst then copy_down (dst + n) (src + n) n m else copy_up dst src n m)"

fun strncmp :: "block \<Rightarrow> nat \<Rightarrow> block \<Rightarrow> nat \<Rightarrow> nat \<Rightarrow> int" where
  "strncmp a p b q 0 = 0"
| "strncmp a p b q (Suc n) =
     (if a p \<noteq> 0 \<and> a p = b q then strncmp a (p + 1) b (q + 1) n else uint (a p) - uint (b q))"

text \<open>Both loops of \<open>strncpy\<close>: copy up to and including the terminator, then zero the rest.\<close>

fun zero_rest :: "nat \<Rightarrow> nat \<Rightarrow> block \<Rightarrow> block" where
  "zero_rest s 0 m = m"
| "zero_rest s (Suc n) m = zero_rest (s + 1) n (m(s := 0))"

fun strncpy :: "nat \<Rightarrow> block \<Rightarrow> nat \<Rightarrow> nat \<Rightarrow> block \<Rightarrow> block" where
  "strncpy s b t 0 m = m"
| "strncpy s b t (Suc n) m =
     (if b t \<noteq> 0 then strncpy (s + 1) b (t + 1) n (m(s := b t)) else zero_rest (s + 1) n (m(s := b t)))"

fun safecpy_loop :: "nat \<Rightarrow> block \<Rightarrow> nat \<Rightarrow> nat \<Rightarrow> block \<Rightarrow> nat \<times> block" where
  "safecpy_loop s b t 0 m = (s, m)"
| "safecpy_loop s b t (Suc n) m =
     (if b t \<noteq> 0 then safecpy_loop (s + 1) b (t + 1) n (m(s := b t)) else (s + 1, m(s := b t)))"

definition safestrcpy :: "nat \<Rightarrow> block \<Rightarrow> nat \<Rightarrow> int \<Rightarrow> block \<Rightarrow> block" where
  "safestrcpy s b t n m =
    (if n \<le> 0 then m else let (s', m') = safecpy_loop s b t (nat (n - 1)) m in m'(s' := 0))"

text \<open>\<open>strlen\<close> does not return on a buffer without a terminator.\<close>

partial_function (option) strlen_from :: "block \<Rightarrow> nat \<Rightarrow> nat \<Rightarrow> nat option" where
  "strlen_from b s n = (if b (s + n) = 0 then Some n else strlen_from b s (n + 1))"

definition strlen :: "block \<Rightarrow> nat \<Rightarrow> nat option" where
  "strlen b s = strlen_from b s 0"

subsection \<open>Filling and copying\<close>

lemma stosb_fill: "stosb d c n m = fill_bytes n c d m"
  by (induction n arbitrary: d m) (auto simp: fill_bytes_def fun_eq_iff)

lemma stosl_fill:
  assumes "\<And>m d. put32 d w m = fill_bytes 4 c d m"
  shows "stosl d w n m = fill_bytes (4 * n) c d m"
  by (induction n arbitrary: d m) (auto simp: assms fill_bytes_def fun_eq_iff)

lemma put32_repeat:
  "put32 d (let c = c AND 0xFF in push_bit 24 c OR push_bit 16 c OR push_bit 8 c OR c) m = fill_bytes 4 (ucast (c :: u32)) d m"
proof -
  let ?w = "let c = c AND 0xFF in push_bit 24 c OR push_bit 16 c OR push_bit 8 c OR c"
  have a: "c AND 0xFF = take_bit 8 c" for c :: u32
    by (simp add: take_bit_eq_mask mask_eq_exp_minus_1)
  have e: "(ucast ?w :: byte) = ucast c" "(ucast (drop_bit 8 ?w) :: byte) = ucast c"
    "(ucast (drop_bit 16 ?w) :: byte) = ucast c" "(ucast (drop_bit 24 ?w) :: byte) = ucast c"
    unfolding Let_def a by (rule bit_word_eqI, auto simp: bit_simps)+
  show ?thesis
    unfolding put32_def e by (auto simp: fill_bytes_def fun_eq_iff)
qed

lemma memset_fill: "memset dst c n m = fill_bytes n (ucast c) dst m"
proof (cases "dst mod 4 = 0 \<and> n mod 4 = 0")
  case True
  then have "4 * (n div 4) = n"
    by auto
  then show ?thesis
    using True stosl_fill [OF put32_repeat [of _ c], of dst "n div 4" m] by (simp add: memset_def Let_def)
next
  case False
  then have "memset dst c n m = stosb dst (ucast c) n m"
    unfolding memset_def by (rule if_not_P)
  then show ?thesis
    by (simp add: stosb_fill)
qed

lemma copy_bytes_0 [simp]: "copy_bytes 0 src s d m = m"
  by (rule ext) (auto simp: copy_bytes_def)

lemma copy_up_bytes: "d \<le> s \<or> s + n \<le> d \<Longrightarrow> copy_up d s n m = copy_bytes n m s d m"
proof (induction n arbitrary: d s m)
  case (Suc n)
  let ?m = "m(d := m s)"
  have "copy_up (d + 1) (s + 1) n ?m = copy_bytes n ?m (s + 1) (d + 1) ?m"
    by (rule Suc.IH) (use Suc.prems in auto)
  moreover have "copy_bytes n ?m (s + 1) (d + 1) ?m i = copy_bytes (Suc n) m s d m i" for i
  proof (cases "d < i \<and> i < d + Suc n")
    case True
    then have "s + 1 + (i - (d + 1)) = s + (i - d)" "s + (i - d) \<noteq> d"
      using Suc.prems by linarith+
    then show ?thesis
      using True unfolding copy_bytes_def by simp
  next
    case False
    then have "i = d \<or> i < d \<or> d + Suc n \<le> i"
      by linarith
    then show ?thesis
      by (elim disjE) (simp_all add: copy_bytes_def)
  qed
  ultimately show ?case
    by (simp add: fun_eq_iff)
qed simp

lemma copy_down_bytes:
  "s \<le> d \<Longrightarrow> copy_down (d + n) (s + n) n m = copy_bytes n m s d m"
proof (induction n arbitrary: m)
  case 0
  show ?case by simp
next
  case (Suc n)
  have "copy_down (d + n) (s + n) n (m(d + n := m (s + n))) =
      copy_bytes n (m(d + n := m (s + n))) s d (m(d + n := m (s + n)))"
    by (rule Suc.IH) (rule Suc.prems)
  then show ?case
    using Suc.prems by (auto simp: copy_bytes_def fun_eq_iff)
qed

lemma memmove_copies: "memmove dst src n m = copy_bytes n m src dst m"
  by (auto simp: memmove_def copy_down_bytes copy_up_bytes)

subsection \<open>Comparing and copying strings\<close>

text \<open>\<open>cstr_eq a p b q n\<close>: the first \<open>n\<close> bytes agree, as far as the first terminator.\<close>

definition cstr_eq :: "block \<Rightarrow> nat \<Rightarrow> block \<Rightarrow> nat \<Rightarrow> nat \<Rightarrow> bool" where
  "cstr_eq a p b q n \<longleftrightarrow> (\<forall>i<n. (\<forall>j<i. a (p + j) \<noteq> 0) \<longrightarrow> a (p + i) = b (q + i))"

lemma cstr_eq_0 [simp]: "cstr_eq a p b q 0"
  by (simp add: cstr_eq_def)

lemma cstr_eq_Suc: "cstr_eq a p b q (Suc n) \<longleftrightarrow>
    a p = b q \<and> (a p \<noteq> 0 \<longrightarrow> cstr_eq a (p + 1) b (q + 1) n)"
  by (auto simp: cstr_eq_def All_less_Suc2)

lemma strncmp_eq_0: "strncmp a p b q n = 0 \<longleftrightarrow> cstr_eq a p b q n"
  by (induction a p b q n rule: strncmp.induct) (auto simp: cstr_eq_Suc unsigned_eq_0_iff)

lemma strncmp_antisym: "strncmp b q a p n = - strncmp a p b q n"
  by (induction a p b q n rule: strncmp.induct) auto

lemma memcmp_eq_0: "memcmp a s1 b s2 n = 0 \<longleftrightarrow> (\<forall>i<n. a (s1 + i) = b (s2 + i))"
proof (induction a s1 b s2 n rule: memcmp.induct)
  case (2 a s1 b s2 n)
  have "(\<forall>i<Suc n. a (s1 + i) = b (s2 + i)) \<longleftrightarrow>
      a s1 = b s2 \<and> (\<forall>i<n. a (s1 + 1 + i) = b (s2 + 1 + i))"
    by (auto simp: All_less_Suc2)
  then show ?case
    using 2 by auto
qed simp

lemma zero_rest_fill: "zero_rest s n m = fill_bytes n 0 s m"
  by (induction n arbitrary: s m) (auto simp: fill_bytes_def fun_eq_iff)

text \<open>What \<open>strncpy\<close> leaves in byte \<open>i\<close>: the source's byte up to its terminator, then zeros.\<close>

lemma strncpy_apply:
  "strncpy s b t n m i =
     (if s \<le> i \<and> i < s + n then (if \<forall>j<i - s. b (t + j) \<noteq> 0 then b (t + (i - s)) else 0) else m i)"
proof (induction n arbitrary: s t m)
  case (Suc n)
  let ?m = "m(s := b t)"
  note ih = Suc.IH [of "s + 1" "t + 1" ?m]
  consider k where "i = Suc (s + k)" "k < n" | "i = s" | "i < s \<or> s + Suc n \<le> i"
    by (metis add_Suc_right less_iff_Suc_add linorder_neqE_nat nat_add_left_cancel_less not_le Suc_less_eq)
  then show ?case
  proof cases
    case 1
    have "(\<forall>j<Suc k. b (t + j) \<noteq> 0) \<longleftrightarrow> b t \<noteq> 0 \<and> (\<forall>j<k. b (Suc (t + j)) \<noteq> 0)"
      by (auto simp: All_less_Suc2)
    moreover have "strncpy (s + 1) b (t + 1) n ?m i = (if \<forall>j<k. b (Suc (t + j)) \<noteq> 0 then b (Suc (t + k)) else 0)"
      unfolding ih using 1 by auto
    ultimately show ?thesis
      using 1 by (auto simp: zero_rest_fill fill_bytes_def)
  next
    case 2
    then have "strncpy (s + 1) b (t + 1) n ?m i = b t"
      unfolding ih by simp
    then show ?thesis
      using 2 by (simp add: zero_rest_fill fill_bytes_def)
  next
    case 3
    then have "strncpy (s + 1) b (t + 1) n ?m i = ?m i"
      unfolding ih by auto
    then show ?thesis
      using 3 by (auto simp: zero_rest_fill fill_bytes_def)
  qed
qed auto

lemma safecpy_loop_spec:
  "safecpy_loop s b t n m = (s', m') \<Longrightarrow>
   s \<le> s' \<and> s' \<le> s + n \<and> (\<forall>i. i < s \<or> s' \<le> i \<longrightarrow> m' i = m i)
   \<and> (\<forall>i. s \<le> i \<and> i < s' \<longrightarrow> m' i = b (t + (i - s)))
   \<and> (s' < s + n \<longrightarrow> s < s' \<and> b (t + (s' - s - 1)) = 0)"
proof (induction n arbitrary: s t m)
  case (Suc n)
  show ?case
  proof (cases "b t = 0")
    case True
    then show ?thesis using Suc.prems by auto
  next
    case False
    then have e: "safecpy_loop (s + 1) b (t + 1) n (m(s := b t)) = (s', m')"
      using Suc.prems by simp
    note ih = Suc.IH [OF e]
    have "m' i = b (t + (i - s))" if "s \<le> i" "i < s'" for i
    proof (cases "i = s")
      case True
      then show ?thesis using ih by simp
    next
      case False
      then have "t + 1 + (i - (s + 1)) = t + (i - s)" "s + 1 \<le> i"
        using that by linarith+
      then show ?thesis using ih that by metis
    qed
    moreover have "s < s' \<and> b (t + (s' - s - 1)) = 0" if "s' < s + Suc n"
    proof -
      have "s + 1 < s'" "b (t + 1 + (s' - (s + 1) - 1)) = 0"
        using ih that by auto
      moreover from this have "t + 1 + (s' - (s + 1) - 1) = t + (s' - s - 1)"
        by linarith
      ultimately show ?thesis by simp
    qed
    ultimately show ?thesis
      using ih by auto
  qed
qed auto

lemma strlen_from_Some:
  "(\<forall>j<k. b (s + n + j) \<noteq> 0) \<Longrightarrow> b (s + n + k) = 0 \<Longrightarrow> strlen_from b s n = Some (n + k)"
proof (induction k arbitrary: n)
  case 0
  then show ?case by (subst strlen_from.simps) simp
next
  case (Suc k)
  have "strlen_from b s (n + 1) = Some (n + 1 + k)"
    by (rule Suc.IH) (use Suc.prems in \<open>auto simp: All_less_Suc2\<close>)
  moreover have "b (s + n) \<noteq> 0"
    using Suc.prems(1) by (auto simp: All_less_Suc2)
  ultimately show ?case
    by (subst strlen_from.simps) simp
qed

end
