(* ===== verification/Fs.thy ===== *)
theory Fs
  imports DiskLog Strings
begin

text \<open>
  The file system (\<open>fs.c\<close>): block allocation, inodes and their in-memory cache, file contents with
  the direct, indirect and double-indirect blocks of this kernel, directories and path names.
  In-memory inodes are indices of \<open>icache\<close>; structures inside a disk block (\<open>struct dinode\<close>,
  \<open>struct dirent\<close>, arrays of block numbers) are read and written at their byte offsets.
\<close>

subsection \<open>Blocks\<close>

definition BBLOCK :: "nat \<Rightarrow> superblock \<Rightarrow> u32" where
  "BBLOCK b x = of_nat (b div BPB) + sb_bmapstart x"

definition IBLOCK :: "u32 \<Rightarrow> superblock \<Rightarrow> u32" where
  "IBLOCK i x = i div of_nat IPB + sb_inodestart x"

definition bzero :: "u32 \<Rightarrow> u32 \<Rightarrow> kst \<Rightarrow> kst outcome" where
  "bzero dev bno s = bindS (bread dev bno s) (\<lambda>bp s.
     bindO (log_write bp (set_data bp (fill_bytes BSIZE 0 0 (b_data (bufs s bp))) s)) (\<lambda>s.
     brelse bp s))"

text \<open>The bit of block \<open>bi\<close> in a bitmap block: \<open>data[bi/8] & (1 << (bi % 8))\<close>.\<close>

definition bmap_bit :: "block \<Rightarrow> nat \<Rightarrow> bool" where
  "bmap_bit d bi \<longleftrightarrow> d (bi div 8) AND push_bit (bi mod 8) 1 \<noteq> 0"

definition set_bmap_bit :: "nat \<Rightarrow> block \<Rightarrow> block" where
  "set_bmap_bit bi d = d(bi div 8 := d (bi div 8) OR push_bit (bi mod 8) 1)"

definition clear_bmap_bit :: "nat \<Rightarrow> block \<Rightarrow> block" where
  "clear_bmap_bit bi d = d(bi div 8 := d (bi div 8) AND NOT (push_bit (bi mod 8) 1))"

text \<open>
  The outer looo of \<open>balloc\<close>, with \<open>b\<close> a multiple of \<open>BPB\<close>. \<open>b\<close> is an \<open>int\<close>: after \<open>2 ^ 19\<close> rounds
  \<open>b += BPB\<close> would overflow, which is where the fuel ends.
\<close>

fun balloc_from :: "nat \<Rightarrow> u32 \<Rightarrow> nat \<Rightarrow> kst \<Rightarrow> (u32 \<times> kst) outcome" where
  "balloc_from 0 dev b s = (if b < unat (sb_size (sb s)) then Undef else Panic ''balloc: out of blocks'')"
| "balloc_from (Suc k) dev b s =
    (if b < unat (sb_size (sb s)) then
       bindS (bread dev (BBLOCK b (sb s)) s) (\<lambda>bp s.
         case first_index (\<lambda>bi. \<not> bmap_bit (b_data (bufs s bp)) bi) (min BPB (unat (sb_size (sb s)) - b)) of
           Some bi \<Rightarrow>
             bindO (log_write bp (set_data bp (set_bmap_bit bi (b_data (bufs s bp))) s)) (\<lambda>s.
             bindO (brelse bp s) (\<lambda>s.
             bindO (bzero dev (of_nat (b + bi)) s) (\<lambda>s.
             Done (of_nat (b + bi), s))))
         | None \<Rightarrow> bindO (brelse bp s) (balloc_from k dev (b + BPB)))
     else Panic ''balloc: out of blocks'')"

definition balloc :: "u32 \<Rightarrow> kst \<Rightarrow> (u32 \<times> kst) outcome" where
  "balloc dev s = balloc_from (2 ^ 19) dev 0 s"

definition bfree :: "u32 \<Rightarrow> u32 \<Rightarrow> kst \<Rightarrow> kst outcome" where
  "bfree dev b s = bindS (readsb dev s) (\<lambda>x s.
     let s = s\<lparr>sb := x\<rparr> in
     bindS (bread dev (BBLOCK (unat b) (sb s)) s) (\<lambda>bp s.
       let bi = unat b mod BPB in
       if \<not> bmap_bit (b_data (bufs s bp)) bi then Panic ''freeing free block''
       else
         bindO (log_write bp (set_data bp (clear_bmap_bit bi (b_data (bufs s bp))) s)) (\<lambda>s.
         brelse bp s)))"

subsection \<open>Inodes\<close>

definition upd_inode :: "nat \<Rightarrow> (inode \<Rightarrow> inode) \<Rightarrow> kst \<Rightarrow> kst" where
  "upd_inode ip f s = s\<lparr>icache := (icache s)(ip := f (icache s ip))\<rparr>"

text \<open>\<open>struct dinode\<close>: 64 bytes; \<open>type\<close>, \<open>major\<close>, \<open>minor\<close>, \<open>nlink\<close>, \<open>size\<close>, \<open>addrs[NDIRECT+2]\<close>.\<close>

abbreviation NADDRS :: nat where "NADDRS \<equiv> 13"

definition dinode_off :: "u32 \<Rightarrow> nat" where
  "dinode_off inum = 64 * (unat inum mod IPB)"

definition put_addrs :: "(nat \<Rightarrow> u32) \<Rightarrow> nat \<Rightarrow> block \<Rightarrow> block" where
  "put_addrs a p d = fold (\<lambda>i. put32 (p + 4 * i) (a i)) [0..<NADDRS] d"

definition store_dinode :: "inode \<Rightarrow> nat \<Rightarrow> block \<Rightarrow> block" where
  "store_dinode x p d = put_addrs (i_addrs x) (p + 12) (put32 (p + 8) (i_size x)
     (put16 (p + 6) (i_nlink x) (put16 (p + 4) (i_minor x) (put16 (p + 2) (i_major x)
     (put16 p (i_type x) d)))))"

definition load_dinode :: "block \<Rightarrow> nat \<Rightarrow> inode \<Rightarrow> inode" where
  "load_dinode d p x = x\<lparr>i_type := get16 d p, i_major := get16 d (p + 2), i_minor := get16 d (p + 4),
     i_nlink := get16 d (p + 6), i_size := get32 d (p + 8),
     i_addrs := (\<lambda>i. if i < NADDRS then get32 d (p + 12 + 4 * i) else i_addrs x i)\<rparr>"

definition iinit :: "u32 \<Rightarrow> kst \<Rightarrow> kst outcome" where
  "iinit dev s =
    (let s = fold (\<lambda>i. upd_inode i (\<lambda>x. x\<lparr>i_lock := initsleeplock\<rparr>)) [0..<NINODE] s in
     bindS (readsb dev s) (\<lambda>x s. Done (s\<lparr>sb := x\<rparr>)))"

definition iget :: "u32 \<Rightarrow> u32 \<Rightarrow> kst \<Rightarrow> (nat \<times> kst) outcome" where
  "iget dev inum s =
    (case first_index (\<lambda>i. 0 < i_ref (icache s i) \<and> i_dev (icache s i) = dev
             \<and> i_inum (icache s i) = inum) NINODE of
       Some ip \<Rightarrow> Done (ip, upd_inode ip (\<lambda>x. x\<lparr>i_ref := i_ref x + 1\<rparr>) s)
     | None \<Rightarrow>
         (case first_index (\<lambda>i. i_ref (icache s i) = 0) NINODE of
            None \<Rightarrow> Panic ''iget: no inodes''
          | Some ip \<Rightarrow> Done (ip, upd_inode ip (\<lambda>x. x\<lparr>i_dev := dev, i_inum := inum, i_ref := 1,
                i_valid := False\<rparr>) s)))"

text \<open>\<open>inum\<close> is an \<open>int\<close>, compared unsigned; the fuel ends where \<open>inum++\<close> would overflow.\<close>

fun ialloc_from :: "nat \<Rightarrow> u32 \<Rightarrow> u16 \<Rightarrow> nat \<Rightarrow> kst \<Rightarrow> (nat \<times> kst) outcome" where
  "ialloc_from 0 dev ty inum s = (if inum < unat (sb_ninodes (sb s)) then Undef else Panic ''ialloc: no inodes'')"
| "ialloc_from (Suc k) dev ty inum s =
    (if inum < unat (sb_ninodes (sb s)) then
       bindS (bread dev (IBLOCK (of_nat inum) (sb s)) s) (\<lambda>bp s.
         let p = dinode_off (of_nat inum); d = b_data (bufs s bp) in
         if get16 d p = 0 then
           bindO (log_write bp (set_data bp (put16 p ty (fill_bytes 64 0 p d)) s)) (\<lambda>s.
           bindO (brelse bp s) (\<lambda>s.
           iget dev (of_nat inum) s))
         else bindO (brelse bp s) (ialloc_from k dev ty (inum + 1)))
     else Panic ''ialloc: no inodes'')"

definition ialloc :: "u32 \<Rightarrow> u16 \<Rightarrow> kst \<Rightarrow> (nat \<times> kst) outcome" where
  "ialloc dev ty s = ialloc_from (2 ^ 31 - 1) dev ty 1 s"

definition iupdate :: "nat \<Rightarrow> kst \<Rightarrow> kst outcome" where
  "iupdate ip s = bindS (bread (i_dev (icache s ip)) (IBLOCK (i_inum (icache s ip)) (sb s)) s) (\<lambda>bp s.
     let x = icache s ip in
     bindO (log_write bp (set_data bp (store_dinode x (dinode_off (i_inum x)) (b_data (bufs s bp))) s)) (\<lambda>s.
     brelse bp s))"

definition idup :: "nat \<Rightarrow> kst \<Rightarrow> kst" where
  "idup ip s = upd_inode ip (\<lambda>x. x\<lparr>i_ref := i_ref x + 1\<rparr>) s"

text \<open>Inode pointers of the model are never null.\<close>

definition ilock :: "nat \<Rightarrow> kst \<Rightarrow> kst outcome" where
  "ilock ip s =
    (if i_ref (icache s ip) < 1 then Panic ''ilock'' else
     bindO (acquiresleep (curpid s) (i_lock (icache s ip))) (\<lambda>lk.
       let s = upd_inode ip (\<lambda>x. x\<lparr>i_lock := lk\<rparr>) s in
       if i_valid (icache s ip) then Done s else
       bindS (bread (i_dev (icache s ip)) (IBLOCK (i_inum (icache s ip)) (sb s)) s) (\<lambda>bp s.
         let d = b_data (bufs s bp);
             s = upd_inode ip (\<lambda>x. load_dinode d (dinode_off (i_inum x)) x) s in
         bindO (brelse bp s) (\<lambda>s.
           let s = upd_inode ip (\<lambda>x. x\<lparr>i_valid := True\<rparr>) s in
           if i_type (icache s ip) = 0 then Panic ''ilock: no type'' else Done s))))"

definition iunlock :: "nat \<Rightarrow> kst \<Rightarrow> kst outcome" where
  "iunlock ip s =
    (if \<not> holdingsleep (i_lock (icache s ip)) \<or> i_ref (icache s ip) < 1 then Panic ''iunlock''
     else Done (upd_inode ip (\<lambda>x. x\<lparr>i_lock := releasesleep (i_lock x)\<rparr>) s))"

subsection \<open>Inode contents\<close>

text \<open>\<open>a[i]\<close> of a block that holds an array of block numbers.\<close>

definition set_addr :: "nat \<Rightarrow> nat \<Rightarrow> u32 \<Rightarrow> kst \<Rightarrow> kst" where
  "set_addr bp i a s = set_data bp (put32 (4 * i) a (b_data (bufs s bp))) s"

definition addr_at :: "nat \<Rightarrow> nat \<Rightarrow> kst \<Rightarrow> u32" where
  "addr_at bp i s = get32 (b_data (bufs s bp)) (4 * i)"

text \<open>The pattern \<open>if((addr = ip->addrs[i]) == 0) ip->addrs[i] = addr = balloc(ip->dev)\<close>.\<close>

definition inode_addr :: "nat \<Rightarrow> nat \<Rightarrow> kst \<Rightarrow> (u32 \<times> kst) outcome" where
  "inode_addr ip i s =
    (let addr = i_addrs (icache s ip) i in
     if addr = 0 then
       bindS (balloc (i_dev (icache s ip)) s) (\<lambda>addr s.
         Done (addr, upd_inode ip (\<lambda>x. x\<lparr>i_addrs := (i_addrs x)(i := addr)\<rparr>) s))
     else Done (addr, s))"

text \<open>The same for an entry of the (double) indirect block \<open>tbl\<close>: read it, fill in the entry, release it.\<close>

definition table_addr :: "nat \<Rightarrow> u32 \<Rightarrow> nat \<Rightarrow> kst \<Rightarrow> (u32 \<times> kst) outcome" where
  "table_addr ip tbl i s =
    bindS (bread (i_dev (icache s ip)) tbl s) (\<lambda>bp s.
      let addr = addr_at bp i s in
      if addr = 0 then
        bindS (balloc (i_dev (icache s ip)) s) (\<lambda>addr s.
        bindO (log_write bp (set_addr bp i addr s)) (\<lambda>s.
        bindO (brelse bp s) (\<lambda>s. Done (addr, s))))
      else bindO (brelse bp s) (\<lambda>s. Done (addr, s)))"

definition bmap :: "nat \<Rightarrow> u32 \<Rightarrow> kst \<Rightarrow> (u32 \<times> kst) outcome" where
  "bmap ip bn s =
    (if bn < of_nat NDIRECT then inode_addr ip (unat bn) s
     else let bn = bn - of_nat NDIRECT in
     if bn < of_nat NINDIRECT then
       bindS (inode_addr ip NDIRECT s) (\<lambda>addr s. table_addr ip addr (unat bn) s)
     else let bn = bn - of_nat NINDIRECT in
     if bn < of_nat (NINDIRECT * NINDIRECT) then
       bindS (inode_addr ip (NDIRECT + 1) s) (\<lambda>addr s.
       bindS (table_addr ip addr (unat bn div NINDIRECT) s) (\<lambda>addr s.
       table_addr ip addr (unat bn mod NINDIRECT) s))
     else Panic ''bmap: out of range'')"

text \<open>\<open>if(a[j]) bfree(ip->dev, a[j])\<close> for one entry, and for all entries of a table.\<close>

definition free_entry :: "nat \<Rightarrow> nat \<Rightarrow> nat \<Rightarrow> kst \<Rightarrow> kst outcome" where
  "free_entry ip bp j s =
    (if addr_at bp j s \<noteq> 0 then bfree (i_dev (icache s ip)) (addr_at bp j s) s else Done s)"

definition free_direct :: "nat \<Rightarrow> nat \<Rightarrow> kst \<Rightarrow> kst outcome" where
  "free_direct ip i s =
    (if i_addrs (icache s ip) i \<noteq> 0 then
       bindO (bfree (i_dev (icache s ip)) (i_addrs (icache s ip) i) s) (\<lambda>s.
       Done (upd_inode ip (\<lambda>x. x\<lparr>i_addrs := (i_addrs x)(i := 0)\<rparr>) s))
     else Done s)"

definition free_indirect :: "nat \<Rightarrow> kst \<Rightarrow> kst outcome" where
  "free_indirect ip s =
    (if i_addrs (icache s ip) NDIRECT \<noteq> 0 then
       bindS (bread (i_dev (icache s ip)) (i_addrs (icache s ip) NDIRECT) s) (\<lambda>bp s.
       bindO (foldO (free_entry ip bp) [0..<NINDIRECT] s) (\<lambda>s.
       bindO (brelse bp s) (\<lambda>s.
       bindO (bfree (i_dev (icache s ip)) (i_addrs (icache s ip) NDIRECT) s) (\<lambda>s.
       Done (upd_inode ip (\<lambda>x. x\<lparr>i_addrs := (i_addrs x)(NDIRECT := 0)\<rparr>) s)))))
     else Done s)"

definition free_table :: "nat \<Rightarrow> nat \<Rightarrow> nat \<Rightarrow> kst \<Rightarrow> kst outcome" where
  "free_table ip bp j s =
    (if addr_at bp j s \<noteq> 0 then
       bindS (bread (i_dev (icache s ip)) (addr_at bp j s) s) (\<lambda>bq s.
       bindO (foldO (free_entry ip bq) [0..<NINDIRECT] s) (\<lambda>s.
       bindO (brelse bq s) (\<lambda>s.
       bfree (i_dev (icache s ip)) (addr_at bp j s) s)))
     else Done s)"

definition free_double :: "nat \<Rightarrow> kst \<Rightarrow> kst outcome" where
  "free_double ip s =
    (if i_addrs (icache s ip) (NDIRECT + 1) \<noteq> 0 then
       bindS (bread (i_dev (icache s ip)) (i_addrs (icache s ip) (NDIRECT + 1)) s) (\<lambda>bp s.
       bindO (foldO (free_table ip bp) [0..<NINDIRECT] s) (\<lambda>s.
       bindO (brelse bp s) (\<lambda>s.
       Done (upd_inode ip (\<lambda>x. x\<lparr>i_addrs := (i_addrs x)(NDIRECT + 1 := 0)\<rparr>) s))))
     else Done s)"

definition itrunc :: "nat \<Rightarrow> kst \<Rightarrow> kst outcome" where
  "itrunc ip s =
    bindO (foldO (free_direct ip) [0..<NDIRECT] s) (\<lambda>s.
    bindO (free_indirect ip s) (\<lambda>s.
    bindO (free_double ip s) (\<lambda>s.
    iupdate ip (upd_inode ip (\<lambda>x. x\<lparr>i_size := 0\<rparr>) s))))"

definition iput :: "nat \<Rightarrow> kst \<Rightarrow> kst outcome" where
  "iput ip s =
    bindO (if i_ref (icache s ip) = 1 \<and> i_valid (icache s ip) \<and> i_nlink (icache s ip) = 0 then
             bindO (itrunc ip s) (\<lambda>s.
             bindO (iupdate ip (upd_inode ip (\<lambda>x. x\<lparr>i_type := 0\<rparr>) s)) (\<lambda>s.
             Done (upd_inode ip (\<lambda>x. x\<lparr>i_valid := False\<rparr>) s)))
           else Done s)
      (\<lambda>s. Done (upd_inode ip (\<lambda>x. x\<lparr>i_ref := i_ref x - 1\<rparr>) s))"

definition iunlockput :: "nat \<Rightarrow> kst \<Rightarrow> kst outcome" where
  "iunlockput ip s = bindO (iunlock ip s) (iput ip)"

record stat =
  st_type :: u16
  st_dev :: u32
  st_ino :: u32
  st_nlink :: u16
  st_size :: u32

definition stati :: "nat \<Rightarrow> kst \<Rightarrow> stat" where
  "stati ip s = (let x = icache s ip in
     \<lparr>st_type = i_type x, st_dev = i_dev x, st_ino = i_inum x, st_nlink = i_nlink x, st_size = i_size x\<rparr>)"

text \<open>
  \<open>struct devsw\<close> (\<open>file.h\<close>): the read and write functions of a device, which drivers install at boot.
  They are an argument of everything that may reach them.
\<close>

record devops =
  dv_read :: "(nat \<Rightarrow> block \<Rightarrow> u32 \<Rightarrow> kst \<Rightarrow> ((int \<times> block) \<times> kst) outcome) option"
  dv_write :: "(nat \<Rightarrow> block \<Rightarrow> u32 \<Rightarrow> kst \<Rightarrow> (int \<times> kst) outcome) option"

type_synonym devsw = "nat \<Rightarrow> devops"

definition bad_major :: "u16 \<Rightarrow> bool" where
  "bad_major m \<longleftrightarrow> sint m < 0 \<or> sint m \<ge> int NDEV"

text \<open>How much one round of the copy loops moves: \<open>min(n - tot, BSIZE - off%BSIZE)\<close>.\<close>

definition chunk :: "u32 \<Rightarrow> u32 \<Rightarrow> u32 \<Rightarrow> u32" where
  "chunk tot n off = (if n - tot < of_nat BSIZE - off mod of_nat BSIZE then n - tot
     else of_nat BSIZE - off mod of_nat BSIZE)"

lemma mod_BSIZE: "unat (off mod (512 :: u32)) = unat off mod 512"
  by (simp add: unat_mod_distrib)

lemma unat_rest: "unat ((512 :: u32) - off mod 512) = 512 - unat off mod 512"
proof -
  have "off mod 512 \<le> (512 :: u32)"
    by (simp add: word_le_nat_alt mod_BSIZE less_imp_le)
  then show ?thesis
    by (simp add: unat_sub mod_BSIZE)
qed

lemma unat_chunk:
  assumes "tot < n"
  shows "unat (chunk tot n off) = min (unat n - unat tot) (512 - unat off mod 512)"
proof -
  have "unat (n - tot) = unat n - unat tot"
    using assms by (intro unat_sub less_imp_le)
  then show ?thesis
    using unat_rest [of off] by (simp add: chunk_def word_less_nat_alt)
qed

lemma chunk_progress:
  assumes "tot < n"
  shows "unat (n - (tot + chunk tot n off)) < unat (n - tot)"
proof -
  have c: "unat (chunk tot n off) = min (unat n - unat tot) (512 - unat off mod 512)"
    by (rule unat_chunk [OF assms])
  have t: "unat tot < unat n"
    using assms by (simp add: word_less_nat_alt)
  have "unat tot + unat (chunk tot n off) \<le> unat n"
    using c t by simp
  moreover from this have "unat (tot + chunk tot n off) = unat tot + unat (chunk tot n off)"
    using unsigned_less [of n, where ?'a = nat] by (simp add: unat_word_ariths)
  moreover have "0 < unat (chunk tot n off)"
    using c t by simp
  ultimately show ?thesis
    using t by (simp add: unat_sub word_le_nat_alt)
qed

function readi_loop :: "nat \<Rightarrow> block \<Rightarrow> u32 \<Rightarrow> u32 \<Rightarrow> u32 \<Rightarrow> kst \<Rightarrow> (block \<times> kst) outcome" where
  "readi_loop ip dst tot n off s =
    (if tot < n then
       bindS (bmap ip (off div of_nat BSIZE) s) (\<lambda>addr s.
       bindS (bread (i_dev (icache s ip)) addr s) (\<lambda>bp s.
         let m = chunk tot n off;
             dst = copy_bytes (unat m) (b_data (bufs s bp)) (unat (off mod of_nat BSIZE)) (unat tot) dst
         in bindO (brelse bp s) (readi_loop ip dst (tot + m) n (off + m))))
     else Done (dst, s))"
  by pat_completeness auto
termination
  by (relation "measure (\<lambda>(ip, dst, tot, n, off, s). unat (n - tot))") (auto simp: chunk_progress)

definition readi :: "devsw \<Rightarrow> nat \<Rightarrow> block \<Rightarrow> u32 \<Rightarrow> u32 \<Rightarrow> kst \<Rightarrow> ((int \<times> block) \<times> kst) outcome" where
  "readi dv ip dst off n s =
    (let x = icache s ip in
     if i_type x = T_DEV then
       (if bad_major (i_major x) then Done ((-1, dst), s)
        else case dv_read (dv (unat (i_major x))) of
               None \<Rightarrow> Done ((-1, dst), s)
             | Some f \<Rightarrow> f ip dst n s)
     else if off > i_size x \<or> off + n < off then Done ((-1, dst), s)
     else
       let n = (if off + n > i_size x then i_size x - off else n) in
       bindS (readi_loop ip dst 0 n off s) (\<lambda>dst s. Done ((sint n, dst), s)))"

function writei_loop :: "nat \<Rightarrow> block \<Rightarrow> u32 \<Rightarrow> u32 \<Rightarrow> u32 \<Rightarrow> kst \<Rightarrow> (u32 \<times> kst) outcome" where
  "writei_loop ip src tot n off s =
    (if tot < n then
       bindS (bmap ip (off div of_nat BSIZE) s) (\<lambda>addr s.
       bindS (bread (i_dev (icache s ip)) addr s) (\<lambda>bp s.
         let m = chunk tot n off in
         bindO (log_write bp (set_data bp (copy_bytes (unat m) src (unat tot)
           (unat (off mod of_nat BSIZE)) (b_data (bufs s bp))) s)) (\<lambda>s.
         bindO (brelse bp s) (writei_loop ip src (tot + m) n (off + m)))))
     else Done (off, s))"
  by pat_completeness auto
termination
  by (relation "measure (\<lambda>(ip, src, tot, n, off, s). unat (n - tot))") (auto simp: chunk_progress)

definition writei :: "devsw \<Rightarrow> nat \<Rightarrow> block \<Rightarrow> u32 \<Rightarrow> u32 \<Rightarrow> kst \<Rightarrow> (int \<times> kst) outcome" where
  "writei dv ip src off n s =
    (let x = icache s ip in
     if i_type x = T_DEV then
       (if bad_major (i_major x) then Done (-1, s)
        else case dv_write (dv (unat (i_major x))) of
               None \<Rightarrow> Done (-1, s)
             | Some f \<Rightarrow> f ip src n s)
     else if off > i_size x \<or> off + n < off then Done (-1, s)
     else if off + n > of_nat (MAXFILE * BSIZE) then Done (-1, s)
     else
       bindS (writei_loop ip src 0 n off s) (\<lambda>off s.
         if n > 0 \<and> off > i_size (icache s ip) then
           bindO (iupdate ip (upd_inode ip (\<lambda>x. x\<lparr>i_size := off\<rparr>) s)) (\<lambda>s. Done (sint n, s))
         else Done (sint n, s)))"

subsection \<open>Directories\<close>

text \<open>\<open>struct dirent\<close>: 16 bytes, \<open>inum\<close> at 0 and the 14 bytes of \<open>name\<close> at 2.\<close>

definition namecmp :: "block \<Rightarrow> nat \<Rightarrow> block \<Rightarrow> nat \<Rightarrow> int" where
  "namecmp s i t j = strncmp s i t j DIRSIZ"

definition de_inum :: "block \<Rightarrow> u16" where
  "de_inum de = get16 de 0"

text \<open>
  The scans over a directory, 16 bytes at a time. \<open>off\<close> is 32 bits wide: after \<open>2 ^ 28\<close> rounds it would
  start again from 0, and the loop would not end (\<open>Undef\<close>).
\<close>

fun dirlookup_from :: "nat \<Rightarrow> devsw \<Rightarrow> nat \<Rightarrow> block \<Rightarrow> u32 \<Rightarrow> block \<Rightarrow> kst \<Rightarrow> ((u32 \<times> nat) option \<times> kst) outcome" where
  "dirlookup_from 0 dv dp name off de s = Undef"
| "dirlookup_from (Suc k) dv dp name off de s =
    (if off < i_size (icache s dp) then
       bindS (readi dv dp de off 16 s) (\<lambda>(r, de) s.
         if r \<noteq> 16 then Panic ''dirlink read''
         else if de_inum de = 0 then dirlookup_from k dv dp name (off + 16) de s
         else if namecmp name 0 de 2 = 0 then
           bindS (iget (i_dev (icache s dp)) (ucast (de_inum de)) s) (\<lambda>ip s. Done (Some (off, ip), s))
         else dirlookup_from k dv dp name (off + 16) de s)
     else Done (None, s))"

definition dirlookup :: "devsw \<Rightarrow> nat \<Rightarrow> block \<Rightarrow> kst \<Rightarrow> ((u32 \<times> nat) option \<times> kst) outcome" where
  "dirlookup dv dp name s =
    (if i_type (icache s dp) \<noteq> T_DIR then Panic ''dirlookup not DIR''
     else dirlookup_from (2 ^ 28 + 1) dv dp name 0 zero_block s)"

fun free_dirent :: "nat \<Rightarrow> devsw \<Rightarrow> nat \<Rightarrow> u32 \<Rightarrow> block \<Rightarrow> kst \<Rightarrow> ((u32 \<times> block) \<times> kst) outcome" where
  "free_dirent 0 dv dp off de s = Undef"
| "free_dirent (Suc k) dv dp off de s =
    (if off < i_size (icache s dp) then
       bindS (readi dv dp de off 16 s) (\<lambda>(r, de) s.
         if r \<noteq> 16 then Panic ''dirlink read''
         else if de_inum de = 0 then Done ((off, de), s)
         else free_dirent k dv dp (off + 16) de s)
     else Done ((off, de), s))"

definition dirlink :: "devsw \<Rightarrow> nat \<Rightarrow> block \<Rightarrow> u32 \<Rightarrow> kst \<Rightarrow> (int \<times> kst) outcome" where
  "dirlink dv dp name inum s =
    bindS (dirlookup dv dp name s) (\<lambda>r s.
      case r of
        Some (_, ip) \<Rightarrow> bindO (iput ip s) (\<lambda>s. Done (-1, s))
      | None \<Rightarrow>
          bindS (free_dirent (2 ^ 28 + 1) dv dp 0 zero_block s) (\<lambda>(off, de) s.
            let de = put16 0 (ucast inum) (strncpy 2 name 0 DIRSIZ de) in
            bindS (writei dv dp de off 16 s) (\<lambda>r s.
              if r \<noteq> 16 then Panic ''dirlink'' else Done (0, s))))"

subsection \<open>Paths\<close>

text \<open>
  A path is the list of its bytes before the terminator (\<open>47\<close> is the slash), \<open>name\<close> a buffer of
  \<open>DIRSIZ\<close> bytes, whose tail keeps what it held when a shorter element is copied in.
\<close>

definition put_name :: "byte list \<Rightarrow> block \<Rightarrow> block" where
  "put_name el name =
    (if DIRSIZ \<le> length el then (\<lambda>i. if i < DIRSIZ then el ! i else name i)
     else (\<lambda>i. if i < length el then el ! i else if i = length el then 0 else name i))"

definition skipelem :: "byte list \<Rightarrow> block \<Rightarrow> (byte list \<times> block) option" where
  "skipelem path name =
    (let path = dropWhile (\<lambda>c. c = 47) path in
     if path = [] then None
     else let el = takeWhile (\<lambda>c. c \<noteq> 47) path; path = dropWhile (\<lambda>c. c \<noteq> 47) path
          in Some (dropWhile (\<lambda>c. c = 47) path, put_name el name))"

lemma skipelem_shorter: "skipelem path name = Some (path', name') \<Longrightarrow> length path' < length path"
proof -
  assume a: "skipelem path name = Some (path', name')"
  let ?p = "dropWhile (\<lambda>c. c = 47) path"
  have ne: "?p \<noteq> []" and p': "path' = dropWhile (\<lambda>c. c = 47) (dropWhile (\<lambda>c. c \<noteq> 47) ?p)"
    using a by (auto simp: skipelem_def Let_def split: if_splits)
  have "hd ?p \<noteq> 47"
    using hd_dropWhile [OF ne] by simp
  then have "length (dropWhile (\<lambda>c. c \<noteq> 47) ?p) < length ?p"
    using ne by (cases ?p) (auto simp: length_dropWhile_le le_imp_less_Suc)
  then show ?thesis
    unfolding p' using length_dropWhile_le [of "\<lambda>c. c = 47" path]
      length_dropWhile_le [of "\<lambda>c. c = 47" "dropWhile (\<lambda>c. c \<noteq> 47) ?p"] by linarith
qed

function namex_loop :: "devsw \<Rightarrow> byte list \<Rightarrow> bool \<Rightarrow> block \<Rightarrow> nat \<Rightarrow> kst \<Rightarrow> ((nat option \<times> block) \<times> kst) outcome" where
  "namex_loop dv path parent name ip s =
    (case skipelem path name of
       None \<Rightarrow>
         if parent then bindO (iput ip s) (\<lambda>s. Done ((None, name), s))
         else Done ((Some ip, name), s)
     | Some (path, name) \<Rightarrow>
         bindO (ilock ip s) (\<lambda>s.
           if i_type (icache s ip) \<noteq> T_DIR then bindO (iunlockput ip s) (\<lambda>s. Done ((None, name), s))
           else if parent \<and> path = [] then bindO (iunlock ip s) (\<lambda>s. Done ((Some ip, name), s))
           else
             bindS (dirlookup dv ip name s) (\<lambda>r s.
               case r of
                 None \<Rightarrow> bindO (iunlockput ip s) (\<lambda>s. Done ((None, name), s))
               | Some (_, nxt) \<Rightarrow>
                   bindO (iunlockput ip s) (namex_loop dv path parent name nxt))))"
  by pat_completeness auto
termination
proof (relation "measure (\<lambda>(dv, path, parent, name, ip, s). length path)", rule wf_measure, goal_cases)
  case prems: (1 dv path parent name ip s x path' name')
  then show ?case
    using skipelem_shorter [of path name path' name'] by simp
qed

definition namex :: "devsw \<Rightarrow> byte list \<Rightarrow> bool \<Rightarrow> block \<Rightarrow> kst \<Rightarrow> ((nat option \<times> block) \<times> kst) outcome" where
  "namex dv path parent name s =
    bindS (if path \<noteq> [] \<and> hd path = 47 then iget ROOTDEV ROOTINO s else Done (cwd s, idup (cwd s) s))
      (\<lambda>ip s. namex_loop dv path parent name ip s)"

definition namei :: "devsw \<Rightarrow> byte list \<Rightarrow> kst \<Rightarrow> (nat option \<times> kst) outcome" where
  "namei dv path s = bindS (namex dv path False zero_block s) (\<lambda>(ip, _) s. Done (ip, s))"

definition nameiparent :: "devsw \<Rightarrow> byte list \<Rightarrow> block \<Rightarrow> kst \<Rightarrow> ((nat option \<times> block) \<times> kst) outcome" where
  "nameiparent dv path name s = namex dv path True name s"

declare readi_loop.simps [simp del] writei_loop.simps [simp del] namex_loop.simps [simp del]

end
