(* ===== verification/FsAlloc.thy ===== *)
theory FsAlloc
  imports Fs
begin

text \<open>
  Lemmas on the lower half of \<open>fs.c\<close>: the bitmap, the layout of the disk, \<open>balloc\<close> and \<open>bfree\<close>, the
  on-disk inodes with \<open>iupdate\<close> and \<open>ilock\<close>. They follow the code through the block interface
  \<open>tx\<close> that theory \<open>DiskLog\<close> provides.
\<close>

subsection \<open>The bitmap\<close>

lemma bmap_bit_iff: "bmap_bit d bi \<longleftrightarrow> bit (d (bi div 8)) (bi mod 8)"
  by (simp add: bmap_bit_def bit_iff_and_push_bit_not_eq_0)

lemma bmap_bit_set [simp]: "bmap_bit (set_bmap_bit bi d) bj \<longleftrightarrow> bi = bj \<or> bmap_bit d bj"
proof (cases "bi div 8 = bj div 8")
  case True
  have "bit (push_bit (bi mod 8) 1 :: byte) (bj mod 8) \<longleftrightarrow> bi mod 8 = bj mod 8"
    by (auto simp: bit_simps)
  then show ?thesis
    using True div_mod_eqI [OF True] by (auto simp: bmap_bit_iff set_bmap_bit_def bit_or_iff)
qed (auto simp: bmap_bit_iff set_bmap_bit_def)

lemma bmap_bit_clear [simp]: "bmap_bit (clear_bmap_bit bi d) bj \<longleftrightarrow> bi \<noteq> bj \<and> bmap_bit d bj"
proof (cases "bi div 8 = bj div 8")
  case True
  have "bit (NOT (push_bit (bi mod 8) 1) :: byte) (bj mod 8) \<longleftrightarrow> bi mod 8 \<noteq> bj mod 8"
    by (auto simp: bit_simps)
  then show ?thesis
    using True div_mod_eqI [OF True] by (auto simp: bmap_bit_iff clear_bmap_bit_def bit_and_iff)
qed (auto simp: bmap_bit_iff clear_bmap_bit_def)

subsection \<open>The layout of the disk\<close>

text \<open>
  \<open>meta_block\<close>: the blocks that hold no file data: boot block, super block, log, inodes and bitmap.
  \<open>fs_geo\<close> is the layout that \<open>mkfs\<close> makes, as far as the kernel relies on it: bitmap and inode
  blocks are ordinary blocks of the disk, and the meta data blocks are marked as used.
\<close>

definition bitmap_blocks :: "kst \<Rightarrow> u32 set" where
  "bitmap_blocks s = (\<lambda>b. BBLOCK b (sb s)) ` {b. b < unat (sb_size (sb s))}"

definition inode_blocks :: "kst \<Rightarrow> u32 set" where
  "inode_blocks s = (\<lambda>i. IBLOCK i (sb s)) ` {i. i < sb_ninodes (sb s)}"

definition meta_block :: "kst \<Rightarrow> u32 \<Rightarrow> bool" where
  "meta_block s b \<longleftrightarrow> b = 0 \<or> b = 1 \<or> b \<in> log_region (log_start s) (log_size s)
     \<or> b \<in> bitmap_blocks s \<or> b \<in> inode_blocks s"

definition in_use :: "kst \<Rightarrow> u32 \<Rightarrow> bool" where
  "in_use s b \<longleftrightarrow> bmap_bit (bview s (BBLOCK (unat b) (sb s))) (unat b mod BPB)"

definition fs_geo :: "kst \<Rightarrow> bool" where
  "fs_geo s \<longleftrightarrow> decode_sb (bview s 1) = sb s \<and> unat (sb_size (sb s)) \<le> 2 ^ 31
     \<and> unat (sb_size (sb s)) \<le> unat (disksize s)
     \<and> (\<forall>b \<in> bitmap_blocks s \<union> inode_blocks s. tx_block s b)
     \<and> bitmap_blocks s \<inter> inode_blocks s = {}
     \<and> (\<forall>b < sb_size (sb s). meta_block s b \<longrightarrow> in_use s b)"

text \<open>These depend on the super block, the log's place and what the kernel sees on the disk.\<close>

lemma fs_geo_same:
  assumes "tx_frame s t" "bview t = bview s"
  shows "fs_geo t = fs_geo s" "in_use t = in_use s" "meta_block t = meta_block s"
proof -
  note sel = tx_frame_sels [OF assms(1)]
  have tb: "tx_block t = tx_block s"
    by (rule ext) (simp add: tx_block_def sel)
  show iu: "in_use t = in_use s"
    by (rule ext) (simp add: in_use_def assms(2) sel)
  have bb: "bitmap_blocks t = bitmap_blocks s" "inode_blocks t = inode_blocks s"
    by (simp_all add: bitmap_blocks_def inode_blocks_def sel)
  show mb: "meta_block t = meta_block s"
    by (rule ext) (simp add: meta_block_def bb sel)
  show "fs_geo t = fs_geo s"
    by (simp add: fs_geo_def assms(2) sel bb tb iu mb)
qed

lemma BBLOCK_group: "b mod BPB = 0 \<Longrightarrow> bi < BPB \<Longrightarrow> BBLOCK (b + bi) x = BBLOCK b x"
  by (auto simp: BBLOCK_def elim!: dvdE simp: mod_eq_0_iff_dvd)

lemma in_use_group:
  assumes "b mod BPB = 0" "bi < BPB" "unat a = b + bi"
  shows "in_use s a \<longleftrightarrow> bmap_bit (bview s (BBLOCK b (sb s))) bi"
proof -
  obtain q where "b = BPB * q"
    using assms(1) by (auto simp: mod_eq_0_iff_dvd)
  then have "unat a mod BPB = bi"
    using assms(2,3) by simp
  then show ?thesis
    by (simp only: in_use_def assms(3) BBLOCK_group [OF assms(1,2)])
qed

text \<open>A free block is a data block: the log may write it, and nothing else lives there.\<close>

lemma free_block:
  assumes "fs_geo s" "b < sb_size (sb s)" "\<not> in_use s b"
  shows "tx_block s b" "\<not> meta_block s b" "b \<noteq> 0"
proof -
  show m: "\<not> meta_block s b" and "b \<noteq> 0"
    using assms by (auto simp: fs_geo_def meta_block_def)
  have "unat b < unat (disksize s)"
    using assms(1,2) by (simp add: fs_geo_def word_less_nat_alt)
  then show "tx_block s b"
    using m by (simp add: tx_block_def meta_block_def word_less_nat_alt)
qed

text \<open>\<open>bzero\<close> inside a transaction.\<close>

definition updated :: "(u32 \<times> block) list \<Rightarrow> nat \<Rightarrow> kst \<Rightarrow> kst \<Rightarrow> bool" where
  "updated ws k s t \<longleftrightarrow> tx_room k t \<and> bview t = apply_writes (bview s) ws \<and> heldb t = heldb s
     \<and> tx_frame s t \<and> (\<forall>j c. holds s j c \<longrightarrow> holds t j c)"

lemma updated_trans: "updated ws j s t \<Longrightarrow> updated vs k t u \<Longrightarrow> updated (ws @ vs) k s u"
  unfolding updated_def using tx_frame_trans by auto

lemma updatedD:
  assumes "updated ws k s t"
  shows "tx_room k t" "bview t = apply_writes (bview s) ws" "heldb t = heldb s" "tx_frame s t"
    "holds s j c \<Longrightarrow> holds t j c"
  using assms by (auto simp: updated_def)

lemma bzero_updated:
  assumes "tx_room (Suc k) s" "tx_block s b" "b \<notin> heldb s" "card (heldb s) \<le> Suc k"
  shows "returns (bzero 1 b s) (updated [(b, fill_bytes BSIZE 0 0 (bview s b))] k s)"
proof -
  let ?d = "fill_bytes BSIZE 0 0 (bview s b)"
  obtain i t u v where 1: "bread 1 b s = Done (i, t)" "b_data (bufs t i) = bview s b"
    "log_write i (set_data i ?d t) = Done u" "brelse i u = Done v" "tx_room k v"
    "bview v = (bview s)(b := ?d)" "heldb v = heldb s" "tx_frame s v" "\<forall>j c. holds s j c \<longrightarrow> holds v j c"
    by (rule tx.modify [OF assms, where d = ?d])
  then show ?thesis
    by (intro returnsI [of _ v]) (simp_all add: bzero_def updated_def)
qed

subsection \<open>Allocating and freeing blocks\<close>

text \<open>\<open>balloc\<close> takes the lowest-numbered free block, marks it in the bitmap and zeroes it.\<close>

definition alloc_writes :: "kst \<Rightarrow> u32 \<Rightarrow> (u32 \<times> block) list" where
  "alloc_writes s a =
    [(BBLOCK (unat a) (sb s), set_bmap_bit (unat a mod BPB) (bview s (BBLOCK (unat a) (sb s)))),
     (a, fill_bytes BSIZE 0 0 (bview s a))]"

definition alloc_spec :: "nat \<Rightarrow> kst \<Rightarrow> u32 \<times> kst \<Rightarrow> bool" where
  "alloc_spec k s = (\<lambda>(a, t). a < sb_size (sb s) \<and> \<not> in_use s a \<and> (\<forall>c<a. in_use s c)
     \<and> updated (alloc_writes s a) k s t)"

text \<open>What the callers of \<open>balloc\<close> hold: used blocks, none of them in the bitmap.\<close>

definition alloc_ready :: "nat \<Rightarrow> kst \<Rightarrow> bool" where
  "alloc_ready k s \<longleftrightarrow> tx_room k s \<and> fs_geo s \<and> card (heldb s) < k
     \<and> (\<forall>c\<in>heldb s. c \<notin> bitmap_blocks s \<and> in_use s c)"

lemma alloc_ready_same:
  assumes "alloc_ready k s" "tx_room k t" "tx_frame s t" "bview t = bview s" "heldb t = heldb s"
  shows "alloc_ready k t"
proof -
  have "bitmap_blocks t = bitmap_blocks s"
    by (simp add: bitmap_blocks_def tx_frame_sels [OF assms(3)])
  then show ?thesis
    using assms fs_geo_same [OF assms(3,4)] by (simp add: alloc_ready_def)
qed

lemma updated_same:
  assumes "updated ws k t u" "bview t = bview s" "heldb t = heldb s" "tx_frame s t"
    "\<forall>j c. holds s j c \<longrightarrow> holds t j c"
  shows "updated ws k s u"
  using assms tx_frame_trans [of s t u] by (auto simp: updated_def)

lemma balloc_from_spec:
  assumes "alloc_ready (Suc (Suc k)) s" "b mod BPB = 0" "\<forall>c. unat c < b \<longrightarrow> in_use s c"
    "\<exists>c < sb_size (sb s). \<not> in_use s c" "unat (sb_size (sb s)) \<le> b + n * BPB"
  shows "returns (balloc_from n 1 b s) (alloc_spec k s)"
  using assms
proof (induction n arbitrary: b s)
  case 0
  then show ?case
    by (auto simp: word_less_nat_alt)
next
  case (Suc n)
  let ?sz = "unat (sb_size (sb s))" and ?bb = "BBLOCK b (sb s)"
  have geo: "fs_geo s" and room: "tx_room (Suc (Suc k)) s"
    and held: "card (heldb s) \<le> Suc (Suc k)" "card (heldb s) \<le> Suc k" "\<forall>c\<in>heldb s. c \<notin> bitmap_blocks s \<and> in_use s c"
    using Suc.prems(1) by (simp_all add: alloc_ready_def)
  obtain c where c: "unat c < ?sz" "\<not> in_use s c"
    using Suc.prems(4) by (auto simp: word_less_nat_alt)
  then have "b \<le> unat c"
    using Suc.prems(3) by force
  then have b: "b < ?sz"
    using c by simp
  then have bm: "?bb \<in> bitmap_blocks s"
    by (auto simp: bitmap_blocks_def)
  then have tb: "tx_block s ?bb" and nh: "?bb \<notin> heldb s"
    using geo held(3) by (auto simp: fs_geo_def)
  have sz: "?sz \<le> 2 ^ 31" using geo by (simp add: fs_geo_def)
  let ?m = "min BPB (?sz - b)"
  let ?free = "\<lambda>bi. \<not> bmap_bit (bview s ?bb) bi"
  have use: "in_use s a \<longleftrightarrow> \<not> ?free bi" if "bi < ?m" "unat a = b + bi" for a bi
    using in_use_group [OF Suc.prems(2) _ that(2), of s] that by simp
  show ?case
  proof (cases "first_index ?free ?m")
    case None
    obtain i t u where 1: "bread 1 ?bb s = Done (i, t)" "b_data (bufs t i) = bview s ?bb"
      "brelse i t = Done u" "bview u = bview s" "heldb u = heldb s" "tx_frame s t" "tx_frame s u"
      "\<forall>j c. holds s j c \<longrightarrow> holds u j c" "tx_room (Suc (Suc k)) u"
      by (rule tx.peek [OF room tx.wok_rok [OF tb] nh held(1)])
    note same = fs_geo_same [OF 1(7,4)] and sel = tx_frame_sels [OF 1(7)]
    have less: "in_use s d" if "unat d < b + BPB" "unat d < ?sz" for d
    proof (cases "unat d < b")
      case False
      then have "unat d - b < ?m" "b + (unat d - b) = unat d"
        using that by linarith+
      then show ?thesis
        using use [of "unat d - b" d] None by (simp add: first_index_None)
    qed (use Suc.prems(3) in blast)
    show ?thesis
    proof (cases "b + BPB < ?sz")
      case True
      have "returns (balloc_from n 1 (b + BPB) u) (alloc_spec k u)"
      proof (rule Suc.IH)
        show "alloc_ready (Suc (Suc k)) u"
          by (rule alloc_ready_same [OF Suc.prems(1) 1(9,7,4,5)])
        show "\<forall>c. unat c < b + BPB \<longrightarrow> in_use u c"
          using less True by (simp add: same)
      qed (use Suc.prems in \<open>simp_all add: same sel\<close>)
      then have "returns (balloc_from n 1 (b + BPB) u) (alloc_spec k s)"
      proof (rule returns_mono)
        fix r
        assume "alloc_spec k u r"
        moreover have "alloc_writes u = alloc_writes s"
          by (rule ext) (simp add: alloc_writes_def sel 1(4))
        ultimately show "alloc_spec k s r"
          using updated_same [OF _ 1(4,5,7,8)] by (simp add: alloc_spec_def case_prod_beta same sel)
      qed
      then show ?thesis
        using 1(1,2,3) b None tx_frame_sels(10) [OF 1(6)] by simp
    next
      case False
      then show ?thesis
        using less [of c] c by simp
    qed
  next
    case (Some bi)
    then have bi: "bi < ?m" "?free bi" "\<forall>j<bi. \<not> ?free j"
      by (auto simp: first_index_Some)
    define a where "a = (of_nat (b + bi) :: u32)"
    have ua: "unat a = b + bi"
    proof -
      have "b + bi < ?sz"
        using bi(1) by (simp add: less_diff_conv add.commute)
      then have "b + bi < 2 ^ 32"
        using sz by (rule less_le_trans [OF less_le_trans]) simp
      then show ?thesis
        by (simp del: of_nat_add add: a_def unat_of_nat)
    qed
    have ba: "BBLOCK (unat a) (sb s) = ?bb" and ma: "unat a mod BPB = bi"
      unfolding ua using BBLOCK_group [OF Suc.prems(2)] bi(1) Suc.prems(2) by (auto simp: mod_eq_0_iff_dvd)
    have a: "a < sb_size (sb s)" "\<not> in_use s a"
      using use [OF bi(1) ua] bi(1,2) unfolding word_less_nat_alt ua by auto
    have fa: "tx_block s a" "\<not> meta_block s a"
      using free_block [OF geo a] by blast+
    let ?d = "set_bmap_bit bi (bview s ?bb)"
    obtain i t u v where 1: "bread 1 ?bb s = Done (i, t)" "b_data (bufs t i) = bview s ?bb"
      "log_write i (set_data i ?d t) = Done u" "brelse i u = Done v" "tx_room (Suc k) v"
      "bview v = (bview s)(?bb := ?d)" "heldb v = heldb s" "tx_frame s t" "tx_frame s v"
      "\<forall>j c. holds s j c \<longrightarrow> holds v j c"
      by (rule tx.modify [OF room tb nh held(1), where d = ?d])
    note sel = tx_frame_sels [OF 1(9)]
    have "a \<noteq> ?bb"
      using fa(2) bm by (auto simp: meta_block_def)
    then have va: "bview v a = bview s a"
      unfolding 1(6) by (rule fun_upd_other)
    have hv: "tx_block v a" "a \<notin> heldb v" "card (heldb v) \<le> Suc k"
      using fa(1) tx.frame_ok [OF 1(9)] held(2,3) a(2) 1(7) by auto
    obtain w where w: "bzero 1 a v = Done w" "updated [(a, fill_bytes BSIZE 0 0 (bview v a))] k v w"
      by (rule returnsE [OF bzero_updated [OF 1(5) hv]])
    have "updated [(?bb, ?d)] (Suc k) s v"
      using 1(5-10) by (simp add: updated_def)
    from updated_trans [OF this w(2)] have "updated (alloc_writes s a) k s w"
      by (simp add: alloc_writes_def ba ma va)
    moreover have "in_use s d" if "d < a" for d
    proof (cases "unat d < b")
      case False
      moreover have "unat d < b + bi"
        using that unfolding word_less_nat_alt ua .
      ultimately have "unat d - b < bi" "unat d - b < ?m" "unat d = b + (unat d - b)"
        using bi(1) by linarith+
      then show ?thesis
        using use [of "unat d - b" d] bi(3) by blast
    qed (use Suc.prems(3) in blast)
    ultimately have "alloc_spec k s (a, w)"
      using a by (simp add: alloc_spec_def)
    moreover have "balloc_from (Suc n) 1 b s = Done (a, w)"
      using 1(1-4) w(1) b Some tx_frame_sels(10) [OF 1(8)] by (simp add: a_def)
    ultimately show ?thesis
      by (rule returnsI [rotated])
  qed
qed

lemma balloc_spec:
  assumes "alloc_ready (Suc (Suc k)) s" "\<exists>c < sb_size (sb s). \<not> in_use s c"
  shows "returns (balloc 1 s) (alloc_spec k s)"
  unfolding balloc_def
  by (rule balloc_from_spec [OF assms(1) _ _ assms(2)])
     (use assms(1) in \<open>simp_all add: alloc_ready_def fs_geo_def\<close>)

lemma alloc_ready_sb: "alloc_ready k s \<Longrightarrow> fs_geo s"
  by (simp add: alloc_ready_def)

lemma BBLOCK_bitmap: "c < sb_size (sb s) \<Longrightarrow> BBLOCK (unat c) (sb s) \<in> bitmap_blocks s"
  by (auto simp: bitmap_blocks_def word_less_nat_alt)

lemma same_bit:
  fixes c b :: u32
  assumes "BBLOCK (unat c) x = BBLOCK (unat b) x" "unat c mod BPB = unat b mod BPB"
  shows "c = b"
proof -
  have d: "unat d div BPB < 2 ^ 32" for d :: u32
    using unsigned_less [of d, where ?'a = nat] div_le_dividend [of "unat d" BPB] by (simp add: le_less_trans)
  have "(of_nat (unat c div BPB) :: u32) = of_nat (unat b div BPB)"
    using assms(1) by (simp add: BBLOCK_def)
  then have "unat (of_nat (unat c div BPB) :: u32) = unat (of_nat (unat b div BPB) :: u32)"
    by (rule arg_cong)
  then have e: "unat c div BPB = unat b div BPB"
    using d [of c] d [of b] by (simp add: unat_of_nat)
  have "unat c = unat c div BPB * BPB + unat c mod BPB"
    by (rule div_mult_mod_eq [symmetric])
  also have "\<dots> = unat b"
    unfolding e assms(2) by (rule div_mult_mod_eq)
  finally show ?thesis
    by (simp add: word_unat_eq_iff)
qed

text \<open>Changing one bit of the bitmap, and some data blocks.\<close>

lemma in_use_change:
  assumes geo: "fs_geo s" and b: "b < sb_size (sb s)"
    and t: "bview t (BBLOCK (unat b) (sb s)) = f (bview s (BBLOCK (unat b) (sb s)))"
      "\<And>m. m \<in> bitmap_blocks s \<Longrightarrow> m \<noteq> BBLOCK (unat b) (sb s) \<Longrightarrow> bview t m = bview s m"
      "bview t 1 = bview s 1" "tx_frame s t"
    and f: "\<And>bj. bmap_bit (f (bview s (BBLOCK (unat b) (sb s)))) bj \<longleftrightarrow>
      (if bj = unat b mod BPB then v else bmap_bit (bview s (BBLOCK (unat b) (sb s))) bj)"
    and c: "c < sb_size (sb s)"
  shows "in_use t c \<longleftrightarrow> (if c = b then v else in_use s c)"
proof -
  note sel = tx_frame_sels [OF t(4)]
  show ?thesis
  proof (cases "BBLOCK (unat c) (sb s) = BBLOCK (unat b) (sb s)")
    case True
    then show ?thesis
      using t(1) f same_bit [OF True] by (auto simp: in_use_def sel)
  next
    case False
    then show ?thesis
      using t(2) [OF BBLOCK_bitmap [OF c] False] by (auto simp: in_use_def sel)
  qed
qed

lemma fs_geo_change:
  assumes "fs_geo s" "tx_frame s t" "bview t 1 = bview s 1"
    "\<And>c. c < sb_size (sb s) \<Longrightarrow> meta_block s c \<Longrightarrow> in_use t c"
  shows "fs_geo t" "meta_block t = meta_block s" "bitmap_blocks t = bitmap_blocks s"
    "inode_blocks t = inode_blocks s"
proof -
  note sel = tx_frame_sels [OF assms(2)]
  have tb: "tx_block t = tx_block s"
    by (rule ext) (simp add: tx_block_def sel)
  show bb: "bitmap_blocks t = bitmap_blocks s" "inode_blocks t = inode_blocks s"
    by (simp_all add: bitmap_blocks_def inode_blocks_def sel)
  show mb: "meta_block t = meta_block s"
    by (rule ext) (simp add: meta_block_def bb sel)
  show "fs_geo t"
    using assms(1,3,4) by (simp add: fs_geo_def sel bb tb mb)
qed

lemma geo_one: "fs_geo s \<Longrightarrow> m \<in> bitmap_blocks s \<Longrightarrow> m \<noteq> 1"
  by (auto simp: fs_geo_def tx_block_def)

text \<open>What the callers of \<open>balloc\<close> need of its result.\<close>

lemma alloc_facts:
  assumes geo: "fs_geo s" and sp: "alloc_spec k s (a, t)"
  shows "a < sb_size (sb s)" "\<not> in_use s a" "\<not> meta_block s a" "tx_block s a" "a \<noteq> 0"
    "tx_room k t" "heldb t = heldb s" "tx_frame s t" "holds s j c \<Longrightarrow> holds t j c"
    "fs_geo t" "bitmap_blocks t = bitmap_blocks s" "meta_block t = meta_block s"
    "c < sb_size (sb s) \<Longrightarrow> in_use t c \<longleftrightarrow> c = a \<or> in_use s c"
    "bview t a = fill_bytes BSIZE 0 0 (bview s a)"
    "c \<noteq> a \<Longrightarrow> c \<notin> bitmap_blocks s \<Longrightarrow> bview t c = bview s c"
proof -
  let ?bb = "BBLOCK (unat a) (sb s)"
  have sp': "a < sb_size (sb s)" "\<not> in_use s a" "updated (alloc_writes s a) k s t"
    using sp by (simp_all add: alloc_spec_def)
  note u = updatedD [OF sp'(3)]
  note fb = free_block [OF geo sp'(1,2)]
  show "a < sb_size (sb s)" "\<not> in_use s a" "\<not> meta_block s a" "tx_block s a" "a \<noteq> 0"
    "tx_room k t" "heldb t = heldb s" "tx_frame s t" "holds s j c \<Longrightarrow> holds t j c"
    using sp' fb u by simp_all
  have bb: "?bb \<in> bitmap_blocks s"
    by (rule BBLOCK_bitmap [OF sp'(1)])
  have ne: "a \<notin> bitmap_blocks s" "a \<noteq> 1"
    using fb(2) by (simp_all add: meta_block_def)
  have v: "bview t = (bview s)(?bb := set_bmap_bit (unat a mod BPB) (bview s ?bb),
      a := fill_bytes BSIZE 0 0 (bview s a))"
    using u(2) by (simp add: alloc_writes_def)
  have v1: "bview t 1 = bview s 1"
    using geo_one [OF geo bb] ne(2) by (auto simp: v)
  show "bview t a = fill_bytes BSIZE 0 0 (bview s a)"
    by (simp add: v)
  show "c \<noteq> a \<Longrightarrow> c \<notin> bitmap_blocks s \<Longrightarrow> bview t c = bview s c"
    using bb by (auto simp: v)
  have iu: "in_use t c \<longleftrightarrow> (if c = a then True else in_use s c)" if "c < sb_size (sb s)" for c
    by (rule in_use_change [OF geo sp'(1) _ _ v1 u(4) _ that, where f = "set_bmap_bit (unat a mod BPB)"])
       (use bb ne in \<open>auto simp: v\<close>)
  then show "c < sb_size (sb s) \<Longrightarrow> in_use t c \<longleftrightarrow> c = a \<or> in_use s c"
    by simp
  have m: "in_use t c" if "c < sb_size (sb s)" "meta_block s c" for c
    using iu [OF that(1)] that geo by (simp add: fs_geo_def)
  show "fs_geo t" "bitmap_blocks t = bitmap_blocks s" "meta_block t = meta_block s"
    using fs_geo_change [OF geo u(4) v1 m] by blast+
qed

text \<open>\<open>bfree\<close> clears the bit, and panics on a block that is already free.\<close>

definition free_ready :: "nat \<Rightarrow> kst \<Rightarrow> bool" where
  "free_ready k s \<longleftrightarrow> tx_room k s \<and> fs_geo s \<and> card (heldb s) \<le> k \<and> 1 \<notin> heldb s
     \<and> heldb s \<inter> bitmap_blocks s = {}"

definition free_write :: "kst \<Rightarrow> u32 \<Rightarrow> (u32 \<times> block) list" where
  "free_write s b =
    [(BBLOCK (unat b) (sb s), clear_bmap_bit (unat b mod BPB) (bview s (BBLOCK (unat b) (sb s))))]"

lemma bfree_spec:
  assumes r: "free_ready (Suc k) s" and b: "b < sb_size (sb s)"
  shows "if in_use s b then returns (bfree 1 b s) (updated (free_write s b) k s)
    else bfree 1 b s = Panic ''freeing free block''"
proof -
  let ?bb = "BBLOCK (unat b) (sb s)"
  have room: "tx_room (Suc k) s" and geo: "fs_geo s" and held: "card (heldb s) \<le> Suc k" "1 \<notin> heldb s"
    "heldb s \<inter> bitmap_blocks s = {}"
    using r by (simp_all add: free_ready_def)
  have one: "1 < disksize s"
    using room by (simp add: tx_room_def log_inv_def log_geo_def)
  obtain i t u where 1: "bread 1 1 s = Done (i, t)" "b_data (bufs t i) = bview s 1"
      "brelse i t = Done u" "bview u = bview s" "heldb u = heldb s" "tx_frame s t" "tx_frame s u"
      "\<forall>j c. holds s j c \<longrightarrow> holds u j c" "tx_room (Suc k) u"
    by (rule tx.peek [OF room one held(2,1)])
  note sel = tx_frame_sels [OF 1(7)]
  have "u\<lparr>sb := sb s\<rparr> = u"
    using sel(10) by (cases u) simp
  then have rs: "readsb 1 s = Done (sb s, u)" "u\<lparr>sb := sb s\<rparr> = u"
    using 1(1-3) geo by (simp_all add: readsb_def fs_geo_def)
  have bb: "?bb \<in> bitmap_blocks s" "tx_block s ?bb"
    using BBLOCK_bitmap [OF b] geo by (auto simp: fs_geo_def)
  have h: "tx_block u ?bb" "?bb \<notin> heldb u" "card (heldb u) \<le> Suc k"
    using bb held 1(5) tx.frame_ok [OF 1(7)] by auto
  let ?d = "clear_bmap_bit (unat b mod BPB) (bview s ?bb)"
  show ?thesis
  proof (cases "in_use s b")
    case True
    obtain j v w x where 2: "bread 1 ?bb u = Done (j, v)" "b_data (bufs v j) = bview u ?bb"
      "log_write j (set_data j ?d v) = Done w" "brelse j w = Done x" "tx_room k x"
      "bview x = (bview u)(?bb := ?d)" "heldb x = heldb u" "tx_frame u v" "tx_frame u x"
      "\<forall>j c. holds u j c \<longrightarrow> holds x j c"
      by (rule tx.modify [OF 1(9) h, where d = ?d])
    have "updated (free_write s b) k u x"
      using 2(5-10) by (simp add: updated_def free_write_def 1(4))
    then have "updated (free_write s b) k s x"
      by (rule updated_same [OF _ 1(4,5,7,8)])
    moreover have "bfree 1 b s = Done x"
      using 2(1-4) True 1(4) by (simp add: rs bfree_def in_use_def sel Let_def)
    ultimately show ?thesis
      using True by (simp add: returns_def)
  next
    case False
    obtain j v where 2: "bread 1 ?bb u = Done (j, v)" "b_data (bufs v j) = bview u ?bb"
      by (rule tx.peek [OF 1(9) tx.wok_rok [OF h(1)] h(2,3)])
    then show ?thesis
      using False 1(4) by (simp add: rs bfree_def in_use_def sel Let_def)
  qed
qed

lemma free_facts:
  assumes geo: "fs_geo s" and b: "b < sb_size (sb s)" "\<not> meta_block s b"
    and up: "updated (free_write s b) k s t"
  shows "fs_geo t" "bitmap_blocks t = bitmap_blocks s" "meta_block t = meta_block s"
    "c < sb_size (sb s) \<Longrightarrow> in_use t c \<longleftrightarrow> c \<noteq> b \<and> in_use s c"
    "c \<notin> bitmap_blocks s \<Longrightarrow> bview t c = bview s c"
proof -
  let ?bb = "BBLOCK (unat b) (sb s)"
  note u = updatedD [OF up]
  have bb: "?bb \<in> bitmap_blocks s"
    by (rule BBLOCK_bitmap [OF b(1)])
  have v: "bview t = (bview s)(?bb := clear_bmap_bit (unat b mod BPB) (bview s ?bb))"
    using u(2) by (simp add: free_write_def)
  have v1: "bview t 1 = bview s 1"
    using geo_one [OF geo bb] by (auto simp: v)
  show "c \<notin> bitmap_blocks s \<Longrightarrow> bview t c = bview s c"
    using bb by (auto simp: v)
  have iu: "in_use t c \<longleftrightarrow> (if c = b then False else in_use s c)" if "c < sb_size (sb s)" for c
    by (rule in_use_change [OF geo b(1) _ _ v1 u(4) _ that, where f = "clear_bmap_bit (unat b mod BPB)"])
       (use bb in \<open>auto simp: v\<close>)
  then show "c < sb_size (sb s) \<Longrightarrow> in_use t c \<longleftrightarrow> c \<noteq> b \<and> in_use s c"
    by simp
  have m: "in_use t c" if "c < sb_size (sb s)" "meta_block s c" for c
    using iu [OF that(1)] that geo b(2) by (auto simp: fs_geo_def)
  show "fs_geo t" "bitmap_blocks t = bitmap_blocks s" "meta_block t = meta_block s"
    using fs_geo_change [OF geo u(4) v1 m] by blast+
qed

subsection \<open>Inodes on the disk\<close>

lemma put_addrs_get:
  "i < NADDRS \<Longrightarrow> get32 (put_addrs a p d) (p + 4 * i) = a i"
proof -
  have "i < n \<Longrightarrow> get32 (fold (\<lambda>i. put32 (p + 4 * i) (a i)) [0..<n] d) (p + 4 * i) = a i" for n
    by (induction n) (auto simp: get32_put32_other less_Suc_eq)
  then show "i < NADDRS \<Longrightarrow> ?thesis"
    by (simp only: put_addrs_def)
qed

lemma put_addrs_apply: "j < p \<or> p + 52 \<le> j \<Longrightarrow> put_addrs a p d j = d j"
proof -
  have "n \<le> 13 \<Longrightarrow> j < p \<or> p + 52 \<le> j \<Longrightarrow> fold (\<lambda>i. put32 (p + 4 * i) (a i)) [0..<n] d j = d j" for n
  proof (induction n)
    case (Suc n)
    then have "j < p + 4 * n \<or> p + 4 * n + 4 \<le> j"
      by auto
    then show ?case
      using Suc by (simp add: put32_apply)
  qed simp
  then show "j < p \<or> p + 52 \<le> j \<Longrightarrow> ?thesis"
    by (simp only: put_addrs_def order.refl)
qed

lemma get_cong:
  "b i = c i \<Longrightarrow> b (i + 1) = c (i + 1) \<Longrightarrow> get16 b i = get16 c i"
  "b i = c i \<Longrightarrow> b (i + 1) = c (i + 1) \<Longrightarrow> b (i + 2) = c (i + 2) \<Longrightarrow> b (i + 3) = c (i + 3)
   \<Longrightarrow> get32 b i = get32 c i"
  by (simp_all add: get16_def get32_def)

lemma store_dinode_get:
  "get16 (store_dinode x p d) p = i_type x"
  "get16 (store_dinode x p d) (p + 2) = i_major x"
  "get16 (store_dinode x p d) (p + 4) = i_minor x"
  "get16 (store_dinode x p d) (p + 6) = i_nlink x"
  "get32 (store_dinode x p d) (p + 8) = i_size x"
  "i < NADDRS \<Longrightarrow> get32 (store_dinode x p d) (p + 12 + 4 * i) = i_addrs x i"
proof -
  let ?d = "put32 (p + 8) (i_size x) (put16 (p + 6) (i_nlink x) (put16 (p + 4) (i_minor x)
     (put16 (p + 2) (i_major x) (put16 p (i_type x) d))))"
  have s: "store_dinode x p d = put_addrs (i_addrs x) (p + 12) ?d"
    by (simp add: store_dinode_def)
  have 16: "get16 (put_addrs a (p + 12) ?d) (p + j) = get16 ?d (p + j)" if "j \<le> 10" for a j
    by (rule get_cong) (use that in \<open>simp_all add: put_addrs_apply\<close>)
  have 32: "get32 (put_addrs a (p + 12) ?d) (p + 8) = get32 ?d (p + 8)" for a
    by (rule get_cong) (simp_all add: put_addrs_apply)
  show "get16 (store_dinode x p d) p = i_type x"
    using 16 [of 0] by (simp add: s getput_simps)
  show "get16 (store_dinode x p d) (p + 2) = i_major x" "get16 (store_dinode x p d) (p + 4) = i_minor x"
    "get16 (store_dinode x p d) (p + 6) = i_nlink x" "get32 (store_dinode x p d) (p + 8) = i_size x"
    by (simp_all add: s 16 32 getput_simps)
  show "i < NADDRS \<Longrightarrow> get32 (store_dinode x p d) (p + 12 + 4 * i) = i_addrs x i"
    by (simp only: s put_addrs_get)
qed

lemma store_dinode_apply: "j < p \<or> p + 64 \<le> j \<Longrightarrow> store_dinode x p d j = d j"
  by (auto simp: store_dinode_def put_addrs_apply put32_apply put16_apply)

text \<open>The fields that the disk keeps.\<close>

definition same_dinode :: "inode \<Rightarrow> inode \<Rightarrow> bool" where
  "same_dinode x y \<longleftrightarrow> i_type x = i_type y \<and> i_major x = i_major y \<and> i_minor x = i_minor y
     \<and> i_nlink x = i_nlink y \<and> i_size x = i_size y \<and> (\<forall>i<NADDRS. i_addrs x i = i_addrs y i)"

lemma load_store_dinode: "same_dinode (load_dinode (store_dinode x p d) p y) x"
  by (simp add: same_dinode_def load_dinode_def store_dinode_get)

lemma load_other_dinode:
  assumes "p + 64 \<le> q \<or> q + 64 \<le> p"
  shows "load_dinode (store_dinode x p d) q y = load_dinode d q y"
proof -
  have e: "store_dinode x p d (q + j) = d (q + j)" if "j < 64" for j
    by (rule store_dinode_apply) (use assms that in linarith)
  have "get16 (store_dinode x p d) (q + j) = get16 d (q + j)" if "j \<le> 10" for j
    by (rule get_cong) (use e [of j] e [of "j + 1"] that in \<open>simp_all add: add.assoc\<close>)
  from this [of 0] this have 16: "get16 (store_dinode x p d) q = get16 d q"
      "j \<le> 10 \<Longrightarrow> get16 (store_dinode x p d) (q + j) = get16 d (q + j)" for j
    by simp_all
  have 32: "get32 (store_dinode x p d) (q + j) = get32 d (q + j)" if "j \<le> 60" for j
    by (rule get_cong)
       (use e [of j] e [of "j + 1"] e [of "j + 2"] e [of "j + 3"] that in \<open>simp_all add: add.assoc\<close>)
  have "get32 (store_dinode x p d) (q + 12 + 4 * i) = get32 d (q + 12 + 4 * i)" if "i < NADDRS" for i
    using 32 [of "12 + 4 * i"] that by (simp add: add.assoc)
  then show ?thesis
    by (simp add: load_dinode_def 16 32 cong: if_cong)
qed

lemma dinode_off_sep: "i mod 8 \<noteq> j mod 8 \<Longrightarrow> unat i div 8 = unat j div 8 \<Longrightarrow>
    dinode_off i + 64 \<le> dinode_off j \<or> dinode_off j + 64 \<le> dinode_off i"
proof -
  assume "i mod 8 \<noteq> (j :: u32) mod 8"
  then have "unat i mod 8 \<noteq> unat j mod 8"
    by (simp add: word_unat_eq_iff unat_mod_distrib)
  then show ?thesis
    by (simp add: dinode_off_def) linarith
qed

text \<open>Inode cache updates do not concern the layers below.\<close>

lemma upd_inode_below [simp]:
  "tx_room k (upd_inode ip f s) = tx_room k s" "bview (upd_inode ip f s) = bview s"
  "heldb (upd_inode ip f s) = heldb s" "holds (upd_inode ip f s) = holds s"
  "fs_geo (upd_inode ip f s) = fs_geo s" "in_use (upd_inode ip f s) = in_use s"
  "meta_block (upd_inode ip f s) = meta_block s" "bitmap_blocks (upd_inode ip f s) = bitmap_blocks s"
  "inode_blocks (upd_inode ip f s) = inode_blocks s" "tx_block (upd_inode ip f s) = tx_block s"
proof -
  let ?t = "upd_inode ip f s"
  have b: "bc_inv ?t = bc_inv s" "heldb ?t = heldb s" "dirtyb ?t = dirtyb s" "bview ?t = bview s" "holds ?t = holds s"
    using bc_same [of ?t s] by (simp_all add: upd_inode_def)
  show "bview ?t = bview s" "heldb ?t = heldb s" "holds ?t = holds s"
    by (fact b)+
  show "tx_room k ?t = tx_room k s"
    by (simp add: tx_room_def log_inv_def b trans_ok_def logged_def upd_inode_def [of ip f s]
        b [unfolded upd_inode_def])
  show i: "in_use ?t = in_use s"
    by (rule ext) (simp add: in_use_def b, simp add: upd_inode_def)
  show bb: "bitmap_blocks ?t = bitmap_blocks s" "inode_blocks ?t = inode_blocks s"
    by (simp_all add: bitmap_blocks_def inode_blocks_def upd_inode_def)
  show tb: "tx_block ?t = tx_block s"
    by (rule ext) (simp add: tx_block_def upd_inode_def)
  show m: "meta_block ?t = meta_block s"
    by (rule ext) (simp add: meta_block_def bb, simp add: upd_inode_def)
  have "sb ?t = sb s" "disksize ?t = disksize s"
    by (simp_all add: upd_inode_def)
  then show "fs_geo ?t = fs_geo s"
    by (simp add: fs_geo_def b i bb tb m)
qed

lemma upd_inode_sels [simp]:
  "icache (upd_inode ip f s) = (icache s)(ip := f (icache s ip))"
  "sb (upd_inode ip f s) = sb s" "curpid (upd_inode ip f s) = curpid s" "bufs (upd_inode ip f s) = bufs s"
  "memdisk (upd_inode ip f s) = memdisk s" "dwrites (upd_inode ip f s) = dwrites s"
  by (simp_all add: upd_inode_def)

lemma IBLOCK_inode: "i < sb_ninodes (sb s) \<Longrightarrow> IBLOCK i (sb s) \<in> inode_blocks s"
  by (auto simp: inode_blocks_def)

text \<open>\<open>iupdate\<close> writes the cached inode to its slot.\<close>

definition inode_write :: "kst \<Rightarrow> nat \<Rightarrow> (u32 \<times> block) list" where
  "inode_write s ip = (let x = icache s ip; b = IBLOCK (i_inum x) (sb s) in
     [(b, store_dinode x (dinode_off (i_inum x)) (bview s b))])"

lemma iupdate_spec:
  assumes "tx_room (Suc k) s" "fs_geo s" "heldb s = {}" "i_dev (icache s ip) = 1"
    "i_inum (icache s ip) < sb_ninodes (sb s)"
  shows "returns (iupdate ip s) (updated (inode_write s ip) k s)"
proof -
  let ?x = "icache s ip" and ?b = "IBLOCK (i_inum (icache s ip)) (sb s)"
  let ?d = "store_dinode ?x (dinode_off (i_inum ?x)) (bview s ?b)"
  have b: "tx_block s ?b"
    using IBLOCK_inode [OF assms(5)] assms(2) by (auto simp: fs_geo_def)
  obtain i t u v where 1: "bread 1 ?b s = Done (i, t)" "b_data (bufs t i) = bview s ?b"
      "log_write i (set_data i ?d t) = Done u" "brelse i u = Done v" "tx_room k v"
      "bview v = (bview s)(?b := ?d)" "heldb v = heldb s" "tx_frame s t" "tx_frame s v"
      "\<forall>j c. holds s j c \<longrightarrow> holds v j c"
    by (rule tx.modify [OF assms(1) b, where d = ?d]) (simp_all add: assms(3))
  have "updated (inode_write s ip) k s v"
    using 1(5-10) by (simp add: updated_def inode_write_def Let_def)
  moreover have "iupdate ip s = Done v"
    using 1(1-4) tx_frame_sels(11) [OF 1(8)] assms(4) by (simp add: iupdate_def Let_def)
  ultimately show ?thesis
    by (simp add: returns_def)
qed

lemma ilock_spec:
  assumes "tx_room k s" "fs_geo s" "heldb s = {}" "i_dev (icache s ip) = 1"
    "i_inum (icache s ip) < sb_ninodes (sb s)" "1 \<le> i_ref (icache s ip)" "\<not> sl_locked (i_lock (icache s ip))"
    and x: "x = (icache s ip)\<lparr>i_lock := \<lparr>sl_locked = True, sl_pid = curpid s\<rparr>\<rparr>"
    and y: "y = (if i_valid x then x else (load_dinode (bview s (IBLOCK (i_inum x) (sb s)))
              (dinode_off (i_inum x)) x)\<lparr>i_valid := True\<rparr>)"
    and ty: "i_valid x \<or> i_type y \<noteq> 0"
  shows "returns (ilock ip s) (\<lambda>t. icache t = (icache s)(ip := y) \<and> tx_room k t \<and> bview t = bview s
    \<and> heldb t = {} \<and> tx_frame (s\<lparr>icache := icache t\<rparr>) t)"
proof (cases "i_valid x")
  case True
  let ?t = "upd_inode ip (\<lambda>_. x) s"
  have "ilock ip s = Done ?t"
    using assms True by (simp add: ilock_def acquiresleep_def Let_def upd_inode_def)
  moreover have "y = x"
    using True y by simp
  ultimately show ?thesis
    using assms(1,3) by (simp add: returns_def) (simp add: upd_inode_def tx_frame_def)
next
  case False
  let ?u = "upd_inode ip (\<lambda>_. x) s"
  let ?b = "IBLOCK (i_inum x) (sb s)"
  let ?z = "load_dinode (bview s ?b) (dinode_off (i_inum x)) x"
  have inum: "i_inum x = i_inum (icache s ip)" "i_dev x = 1"
    using x assms(4) by simp_all
  have b: "?b < disksize ?u"
    using IBLOCK_inode [OF assms(5)] assms(2) inum by (auto simp: fs_geo_def tx_block_def upd_inode_def)
  obtain i t where 1: "bread 1 ?b ?u = Done (i, t)" "tx_room k t" "holds t i ?b" "b_data (bufs t i) = bview ?u ?b"
    "bview t = bview ?u" "heldb t = insert ?b (heldb ?u)" "tx_frame ?u t"
    by (rule tx.rdE [of k ?u ?b]) (use assms(1,3) b in simp_all)
  let ?t = "upd_inode ip (\<lambda>_. ?z) t"
  obtain v where 2: "brelse i ?t = Done v" "tx_room k v" "bview v = bview ?t" "heldb v = heldb ?t - {?b}" "tx_frame ?t v"
    by (rule tx.relE [of k ?t i ?b]) (use 1(2,3) in simp_all)
  note sel = tx_frame_sels [OF 1(7)] tx_frame_sels [OF 2(5)]
  let ?v = "upd_inode ip (\<lambda>_. y) v"
  have y': "y = ?z\<lparr>i_valid := True\<rparr>"
    using False y by simp
  have z: "i_valid ?z = False" "i_inum ?z = i_inum x"
    using False by (simp_all add: load_dinode_def)
  have e1: "upd_inode ip (\<lambda>x. load_dinode (bview s ?b) (dinode_off (i_inum x)) x) t = ?t"
    by (simp add: upd_inode_def sel)
  have e2: "upd_inode ip (\<lambda>x. x\<lparr>i_valid := True\<rparr>) v = ?v"
    by (simp add: upd_inode_def sel y')
  have a: "acquiresleep (curpid s) (i_lock (icache s ip)) = Done \<lparr>sl_locked = True, sl_pid = curpid s\<rparr>"
      "upd_inode ip (\<lambda>w. w\<lparr>i_lock := \<lparr>sl_locked = True, sl_pid = curpid s\<rparr>\<rparr>) s = ?u"
    using assms(7) x by (simp_all add: acquiresleep_def upd_inode_def)
  have iv: "i_valid (icache s ip) = i_valid x"
    using x by simp
  have ic: "icache v ip = ?z" "i_type ?z = i_type y"
    by (simp_all add: sel y')
  have "ilock ip s = Done ?v"
    using assms(4,6) 1(1,4) 2(1) a False ty inum e1 e2 iv ic
    by (simp add: ilock_def Let_def)
  moreover have "icache ?v = (icache s)(ip := y)"
    by (simp add: sel)
  moreover have "tx_frame (s\<lparr>icache := (icache s)(ip := y)\<rparr>) ?v"
    using 1(7) 2(5) unfolding tx_frame_def upd_inode_def by (cases s; cases t; cases v) simp
  ultimately show ?thesis
    using 1(5,6) 2(2-4) assms(3) by (simp add: returns_def)
qed

end
