(* ===== verification/FsMap.thy ===== *)
theory FsMap
  imports FsAlloc
begin

text \<open>
  Lemmas on the contents of files: the pointer tree of an inode with its direct, indirect and
  double-indirect blocks, \<open>bmap\<close>, and what \<open>readi\<close> and \<open>writei\<close> do to the bytes of a file.
\<close>

subsection \<open>The block map of an inode\<close>

text \<open>
  The block pointers of an inode: direct, the indirect block and its entries, the double-indirect
  block, its tables and their entries. \<open>ptr s ip p\<close> is the block number stored at \<open>p\<close>, 0 when there
  is none; \<open>up p\<close> is the pointer to the table that holds \<open>p\<close>, with the index in it.
\<close>

datatype pos = Direct nat | Ind | IndE nat | Dbl | DblT nat | DblE nat nat

fun pos_ok :: "pos \<Rightarrow> bool" where
  "pos_ok (Direct i) = (i < NDIRECT)"
| "pos_ok (IndE i) = (i < NINDIRECT)"
| "pos_ok (DblT i) = (i < NINDIRECT)"
| "pos_ok (DblE i j) = (i < NINDIRECT \<and> j < NINDIRECT)"
| "pos_ok _ = True"

fun up :: "pos \<Rightarrow> (pos \<times> nat) option" where
  "up (IndE i) = Some (Ind, i)"
| "up (DblT i) = Some (Dbl, i)"
| "up (DblE i j) = Some (DblT i, j)"
| "up _ = None"

fun slot :: "pos \<Rightarrow> nat" where
  "slot (Direct i) = i"
| "slot Ind = NDIRECT"
| "slot _ = NDIRECT + 1"

definition entry :: "kst \<Rightarrow> u32 \<Rightarrow> nat \<Rightarrow> u32" where
  "entry s b i = (if b = 0 then 0 else get32 (bview s b) (4 * i))"

fun ptr :: "kst \<Rightarrow> nat \<Rightarrow> pos \<Rightarrow> u32" where
  "ptr s ip (Direct i) = i_addrs (icache s ip) i"
| "ptr s ip Ind = i_addrs (icache s ip) NDIRECT"
| "ptr s ip Dbl = i_addrs (icache s ip) (NDIRECT + 1)"
| "ptr s ip (IndE i) = entry s (i_addrs (icache s ip) NDIRECT) i"
| "ptr s ip (DblT i) = entry s (i_addrs (icache s ip) (NDIRECT + 1)) i"
| "ptr s ip (DblE i j) = entry s (entry s (i_addrs (icache s ip) (NDIRECT + 1)) i) j"

lemma ptr_up: "up p = Some (r, i) \<Longrightarrow>
    ptr s ip p = (if ptr s ip r = 0 then 0 else get32 (bview s (ptr s ip r)) (4 * i))"
  by (cases p) (auto simp: entry_def)

lemma ptr_slot: "up p = None \<Longrightarrow> ptr s ip p = i_addrs (icache s ip) (slot p)"
  by (cases p) auto

lemma pos_ok_up: "pos_ok p \<Longrightarrow> up p = Some (r, i) \<Longrightarrow> pos_ok r \<and> i < NINDIRECT"
  by (cases p) auto

lemma slot_inj: "pos_ok p \<Longrightarrow> pos_ok q \<Longrightarrow> up p = None \<Longrightarrow> up q = None \<Longrightarrow> slot p = slot q \<Longrightarrow> p = q"
  by (cases p; cases q) auto

lemma up_inj: "up p = Some (r, i) \<Longrightarrow> up q = Some (r, i) \<Longrightarrow> p = q"
  by (cases p; cases q) auto

text \<open>Induction from a pointer's table to the pointer.\<close>

lemma pos_induct:
  assumes "\<And>p. (\<And>r i. up p = Some (r, i) \<Longrightarrow> P r) \<Longrightarrow> P p"
  shows "P p"
proof -
  have a: "P (Direct i)" "P Ind" "P Dbl" for i
    by (rule assms; simp)+
  have b: "P (IndE i)" "P (DblT i)" for i
    by (rule assms, use a in simp)+
  have "P (DblE i j)" for i j
    by (rule assms, use b in simp)
  then show ?thesis
    using a b by (cases p) auto
qed

text \<open>
  A well-formed inode: its blocks are data blocks in use, each pointed to once. \<open>table_block\<close>: the
  blocks that hold pointers.
\<close>

definition map_ok :: "kst \<Rightarrow> nat \<Rightarrow> bool" where
  "map_ok s ip \<longleftrightarrow>
     (\<forall>p. pos_ok p \<and> ptr s ip p \<noteq> 0 \<longrightarrow>
        ptr s ip p < sb_size (sb s) \<and> in_use s (ptr s ip p) \<and> \<not> meta_block s (ptr s ip p))
   \<and> (\<forall>p q. pos_ok p \<and> pos_ok q \<and> ptr s ip p \<noteq> 0 \<and> ptr s ip p = ptr s ip q \<longrightarrow> p = q)"

lemma map_okD:
  assumes "map_ok s ip" "pos_ok p" "ptr s ip p \<noteq> 0"
  shows "ptr s ip p < sb_size (sb s)" "in_use s (ptr s ip p)" "\<not> meta_block s (ptr s ip p)"
    "pos_ok q \<Longrightarrow> ptr s ip p = ptr s ip q \<Longrightarrow> p = q"
  using assms by (auto simp: map_ok_def)

lemma not_meta: "\<not> meta_block s b \<Longrightarrow> b \<notin> bitmap_blocks s \<and> b \<noteq> 0 \<and> b \<noteq> 1 \<and> b \<notin> inode_blocks s"
  by (simp add: meta_block_def)

lemma data_tx: "fs_geo s \<Longrightarrow> b < sb_size (sb s) \<Longrightarrow> \<not> meta_block s b \<Longrightarrow> tx_block s b"
  by (auto simp: fs_geo_def tx_block_def meta_block_def word_less_nat_alt)

definition is_table :: "pos \<Rightarrow> bool" where
  "is_table p \<longleftrightarrow> (\<exists>q i. up q = Some (p, i))"

lemma get32_entry: "(i :: nat) \<noteq> j \<Longrightarrow> get32 (put32 (4 * j) v b) (4 * i) = get32 b (4 * i)"
  by (rule get32_put32_other) (cases "i < j"; simp)

text \<open>
  What allocating the missing pointer \<open>p\<close> does to all pointers: \<open>p\<close> gets the new block \<open>a\<close>, the others
  stay; the new block is empty, and every other data block of the disk keeps its contents, except
  that the table of \<open>p\<close> gets the entry.
\<close>

lemma ptr_after_alloc:
  assumes p: "pos_ok p" "ptr s ip p = 0" and a: "a \<noteq> 0"
    and addrs: "i_addrs (icache t ip) = (if up p = None then (i_addrs (icache s ip))(slot p := a) else i_addrs (icache s ip))"
    and table: "\<And>r i. up p = Some (r, i) \<Longrightarrow> ptr s ip r \<noteq> 0 \<and> bview t (ptr s ip r) = put32 (4 * i) a (bview s (ptr s ip r))"
    and keep: "\<And>q. pos_ok q \<Longrightarrow> ptr s ip q \<noteq> 0 \<Longrightarrow> (\<forall>i. up p \<noteq> Some (q, i)) \<Longrightarrow> bview t (ptr s ip q) = bview s (ptr s ip q)"
    and zero: "\<And>i. i < BSIZE \<Longrightarrow> bview t a i = 0"
    and q: "pos_ok q"
  shows "ptr t ip q = (if q = p then a else ptr s ip q)"
  using q
proof (induction q rule: pos_induct)
  case (1 q)
  show ?case
  proof (cases "up q")
    case None
    then show ?thesis
      using slot_inj [OF 1(2) p(1) None] by (auto simp: ptr_slot addrs)
  next
    case (Some ri)
    then obtain r i where r: "up q = Some (r, i)"
      by (cases ri) auto
    have ri: "pos_ok r" "i < NINDIRECT"
      using pos_ok_up [OF 1(2) r] by simp_all
    have ih: "ptr t ip r = (if r = p then a else ptr s ip r)"
      by (rule 1(1) [OF r ri(1)])
    show ?thesis
    proof (cases "r = p")
      case True
      have "get32 (bview t a) (4 * i) = 0"
        using ri(2) by (simp add: get32_def zero)
      moreover have "q \<noteq> p"
        using True r by (cases p) auto
      ultimately show ?thesis
        using ih True p(2) a by (simp add: ptr_up [OF r])
    next
      case False
      show ?thesis
      proof (cases "up p = Some (r, i)")
        case True
        then show ?thesis
          using table [OF True] ih False a up_inj [OF r True] by (simp add: ptr_up [OF r] ptr_up [OF True])
      next
        case ne: False
        then have "q \<noteq> p" using r by auto
        moreover have "get32 (bview t (ptr s ip r)) (4 * i) = get32 (bview s (ptr s ip r)) (4 * i)" if "ptr s ip r \<noteq> 0"
        proof (cases "\<exists>j. up p = Some (r, j)")
          case True
          then obtain j where j: "up p = Some (r, j)" by blast
          then have "i \<noteq> j" using ne by auto
          then show ?thesis
            using table [OF j] by (simp add: get32_entry)
        next
          case False
          then show ?thesis
            using keep [OF ri(1) that] by simp
        qed
        ultimately show ?thesis
          using ih False by (simp add: ptr_up [OF r])
      qed
    qed
  qed
qed

definition tables :: "kst \<Rightarrow> nat \<Rightarrow> u32 set" where
  "tables s ip = {ptr s ip r | r. pos_ok r \<and> is_table r \<and> ptr s ip r \<noteq> 0}"

definition nfree :: "kst \<Rightarrow> nat" where
  "nfree s = card {c. c < sb_size (sb s) \<and> \<not> in_use s c}"

text \<open>
  \<open>grown ip s t\<close>: between \<open>s\<close> and \<open>t\<close> blocks were only added to inode \<open>ip\<close>. Existing pointers stay,
  new blocks were free and (for file data) are zero, and every other block keeps its contents.
\<close>

definition only_addrs :: "nat \<Rightarrow> kst \<Rightarrow> kst \<Rightarrow> bool" where
  "only_addrs ip s t \<longleftrightarrow> (\<exists>a. icache t = (icache s)(ip := (icache s ip)\<lparr>i_addrs := a\<rparr>))
     \<and> tx_frame (s\<lparr>icache := icache t\<rparr>) t"

lemma only_addrs_refl [simp]: "only_addrs ip s s"
  unfolding only_addrs_def by (intro conjI exI [of _ "i_addrs (icache s ip)"]) simp_all

lemma only_addrs_trans:
  assumes "only_addrs ip s t" "only_addrs ip t u"
  shows "only_addrs ip s u"
proof -
  obtain a b where a: "icache t = (icache s)(ip := (icache s ip)\<lparr>i_addrs := a\<rparr>)"
    and b: "icache u = (icache t)(ip := (icache t ip)\<lparr>i_addrs := b\<rparr>)"
    using assms by (auto simp: only_addrs_def)
  have "icache u = (icache s)(ip := (icache s ip)\<lparr>i_addrs := b\<rparr>)"
    unfolding b a by simp
  moreover have "tx_frame (s\<lparr>icache := icache u\<rparr>) u"
    using assms unfolding only_addrs_def tx_frame_def by (cases s; cases t; cases u) simp
  ultimately show ?thesis
    unfolding only_addrs_def by blast
qed

definition grown :: "nat \<Rightarrow> kst \<Rightarrow> kst \<Rightarrow> bool" where
  "grown ip s t \<longleftrightarrow> fs_geo t \<and> map_ok t ip \<and> heldb t = heldb s
     \<and> only_addrs ip s t
     \<and> (\<forall>q. pos_ok q \<and> ptr s ip q \<noteq> 0 \<longrightarrow> ptr t ip q = ptr s ip q)
     \<and> (\<forall>q. pos_ok q \<and> ptr s ip q = 0 \<and> ptr t ip q \<noteq> 0 \<longrightarrow> \<not> in_use s (ptr t ip q)
          \<and> (\<not> is_table q \<longrightarrow> (\<forall>i<BSIZE. bview t (ptr t ip q) i = 0)))
     \<and> (\<forall>c < sb_size (sb s). in_use s c \<longrightarrow> in_use t c)
     \<and> (\<forall>c. c \<notin> bitmap_blocks s \<and> c \<notin> tables s ip \<and> (c < sb_size (sb s) \<longrightarrow> in_use s c)
          \<longrightarrow> bview t c = bview s c)"

lemma grown_frame:
  assumes "grown ip s t"
  shows "sb t = sb s" "bitmap_blocks t = bitmap_blocks s" "inode_blocks t = inode_blocks s"
    "meta_block t = meta_block s" "tx_block t = tx_block s" "curpid t = curpid s"
    "log_outstanding t = log_outstanding s" "ftable t = ftable s" "disksize t = disksize s"
    "memdisk t = memdisk s" "dwrites t = dwrites s"
proof -
  have f: "tx_frame (s\<lparr>icache := icache t\<rparr>) t"
    using assms unfolding grown_def only_addrs_def by blast
  note sel = tx_frame_sels(1-10,12) [OF f]
  show s: "sb t = sb s" "curpid t = curpid s" "log_outstanding t = log_outstanding s" "ftable t = ftable s"
    "disksize t = disksize s" "memdisk t = memdisk s" "dwrites t = dwrites s"
    by (simp_all add: sel)
  show b: "bitmap_blocks t = bitmap_blocks s" "inode_blocks t = inode_blocks s"
    by (simp_all add: bitmap_blocks_def inode_blocks_def s)
  show "meta_block t = meta_block s" "tx_block t = tx_block s"
    by (simp_all add: fun_eq_iff meta_block_def tx_block_def b sel)
qed

lemma grown_refl: "fs_geo s \<Longrightarrow> map_ok s ip \<Longrightarrow> grown ip s s"
  by (simp add: grown_def)

lemma grown_trans:
  assumes st: "grown ip s t" and tu: "grown ip t u" and m: "map_ok s ip"
  shows "grown ip s u"
proof -
  note fs = grown_frame [OF st]
  have keep_ptr: "ptr u ip q = ptr s ip q" if "pos_ok q" "ptr s ip q \<noteq> 0" for q
    using st tu that by (auto simp: grown_def)
  have mt: "map_ok t ip"
    using st by (simp add: grown_def)
  have new: "\<not> in_use s (ptr u ip q) \<and> (\<not> is_table q \<longrightarrow> (\<forall>i<BSIZE. bview u (ptr u ip q) i = 0))"
    if q: "pos_ok q" "ptr s ip q = 0" "ptr u ip q \<noteq> 0" for q
  proof (cases "ptr t ip q = 0")
    case True
    have "ptr u ip q < sb_size (sb u)" "sb u = sb t"
      using map_okD(1) [of u ip q] q tu grown_frame(1) [OF tu] by (auto simp: grown_def)
    then have "ptr u ip q < sb_size (sb s)"
      using fs(1) by simp
    then show ?thesis
      using True q st tu by (auto simp: grown_def)
  next
    case False
    then have e: "ptr u ip q = ptr t ip q"
      using tu q by (simp add: grown_def)
    have "bview u (ptr t ip q) = bview t (ptr t ip q)" if nt: "\<not> is_table q"
    proof -
      have "ptr t ip q \<notin> tables t ip"
        using map_okD(4) [OF mt q(1) False] nt by (auto simp: tables_def)
      moreover have "ptr t ip q \<notin> bitmap_blocks t" "in_use t (ptr t ip q)"
        using map_okD(2,3) [OF mt q(1) False] not_meta by blast+
      ultimately show ?thesis
        using tu by (simp add: grown_def)
    qed
    then show ?thesis
      using e st q False by (simp add: grown_def)
  qed
  have other: "bview u c = bview s c"
    if c: "c \<notin> bitmap_blocks s" "c \<notin> tables s ip" "c < sb_size (sb s) \<longrightarrow> in_use s c" for c
  proof -
    have "c \<notin> tables t ip"
    proof
      assume "c \<in> tables t ip"
      then obtain r where r: "pos_ok r" "is_table r" "c = ptr t ip r" "ptr t ip r \<noteq> 0"
        by (auto simp: tables_def)
      have "ptr s ip r = 0"
        using r c(2) st by (auto simp: tables_def grown_def)
      then have "\<not> in_use s c"
        using r st by (simp add: grown_def)
      then show False
        using c(3) map_okD(1) [OF mt r(1,4)] r(3) fs(1) by simp
    qed
    moreover have "c < sb_size (sb t) \<longrightarrow> in_use t c"
      using c(3) st by (simp add: grown_def fs(1))
    ultimately have "bview u c = bview t c"
      using tu c(1) by (simp add: grown_def fs(2))
    then show ?thesis
      using st c by (simp add: grown_def)
  qed
  have fr: "only_addrs ip s u"
    by (rule only_addrs_trans [of _ _ t]) (use st tu in \<open>simp_all add: grown_def\<close>)
  have "in_use u c" if "c < sb_size (sb s)" "in_use s c" for c
    using st tu that fs(1) by (simp add: grown_def)
  then show ?thesis
    unfolding grown_def using keep_ptr new other fr tu st
    by (intro conjI allI impI) (simp_all add: grown_def)
qed

text \<open>One step of \<open>bmap\<close>: pointer \<open>p\<close> is there afterwards, and no other pointer was added.\<close>

definition step_spec :: "nat \<Rightarrow> pos \<Rightarrow> nat \<Rightarrow> kst \<Rightarrow> u32 \<times> kst \<Rightarrow> bool" where
  "step_spec ip p k s = (\<lambda>(a, t). a = ptr t ip p \<and> a \<noteq> 0 \<and> tx_room k t \<and> grown ip s t
     \<and> nfree s \<le> nfree t + 1 \<and> (\<forall>q. pos_ok q \<and> q \<noteq> p \<longrightarrow> ptr t ip q = ptr s ip q))"

definition map_ready :: "nat \<Rightarrow> nat \<Rightarrow> kst \<Rightarrow> bool" where
  "map_ready k ip s \<longleftrightarrow> tx_room k s \<and> fs_geo s \<and> heldb s = {} \<and> map_ok s ip \<and> i_dev (icache s ip) = 1"

lemma nfree_ex: "0 < nfree s \<Longrightarrow> \<exists>c < sb_size (sb s). \<not> in_use s c"
  by (auto simp: nfree_def card_gt_0_iff)

lemma nfree_alloc:
  assumes "sb t = sb s" "\<And>c. c < sb_size (sb s) \<Longrightarrow> in_use t c \<longleftrightarrow> c = a \<or> in_use s c"
  shows "nfree s \<le> nfree t + 1"
proof -
  have "{c. c < sb_size (sb s) \<and> \<not> in_use s c} \<subseteq> insert a {c. c < sb_size (sb t) \<and> \<not> in_use t c}"
    using assms by auto
  then have "nfree s \<le> card (insert a {c. c < sb_size (sb t) \<and> \<not> in_use t c})"
    unfolding nfree_def by (rule card_mono [rotated]) simp
  also have "\<dots> \<le> nfree t + 1"
    unfolding nfree_def by (simp add: card_insert_if)
  finally show ?thesis .
qed

text \<open>The common part: a fresh block \<open>a\<close> was linked in at \<open>p\<close>.\<close>

lemma grown_step:
  assumes s: "fs_geo s" "map_ok s ip" and p: "pos_ok p" "ptr s ip p = 0"
    and a: "a < sb_size (sb s)" "\<not> in_use s a" "\<not> meta_block s a"
    and t: "fs_geo t" "heldb t = heldb s" "only_addrs ip s t"
      "\<And>c. c < sb_size (sb s) \<Longrightarrow> in_use t c \<longleftrightarrow> c = a \<or> in_use s c"
    and zero: "\<And>i. i < BSIZE \<Longrightarrow> bview t a i = 0"
    and addrs: "i_addrs (icache t ip) = (if up p = None then (i_addrs (icache s ip))(slot p := a) else i_addrs (icache s ip))"
    and table: "\<And>r i. up p = Some (r, i) \<Longrightarrow> ptr s ip r \<noteq> 0 \<and> bview t (ptr s ip r) = put32 (4 * i) a (bview s (ptr s ip r))"
    and keep: "\<And>c. c \<noteq> a \<Longrightarrow> c \<notin> bitmap_blocks s \<Longrightarrow> (\<forall>r i. up p = Some (r, i) \<longrightarrow> c \<noteq> ptr s ip r) \<Longrightarrow> bview t c = bview s c"
  shows "grown ip s t" "\<And>q. pos_ok q \<Longrightarrow> ptr t ip q = (if q = p then a else ptr s ip q)" "nfree s \<le> nfree t + 1"
proof -
  have fr: "tx_frame (s\<lparr>icache := icache t\<rparr>) t"
    using t(3) by (simp add: only_addrs_def)
  note sel = tx_frame_sels(1-10,12) [OF fr]
  have sbt: "sb t = sb s" by (simp add: sel)
  have mb: "meta_block t = meta_block s"
    by (simp add: fun_eq_iff meta_block_def bitmap_blocks_def inode_blocks_def sel)
  have a0: "a \<noteq> 0"
    using a(3) not_meta by blast
  show pt: "ptr t ip q = (if q = p then a else ptr s ip q)" if q: "pos_ok q" for q
  proof (rule ptr_after_alloc [OF p a0 addrs table _ zero q])
    fix q
    assume q: "pos_ok q" "ptr s ip q \<noteq> 0" "\<forall>i. up p \<noteq> Some (q, i)"
    show "bview t (ptr s ip q) = bview s (ptr s ip q)"
    proof (rule keep)
      show "ptr s ip q \<noteq> a" "ptr s ip q \<notin> bitmap_blocks s"
        using map_okD(2,3) [OF s(2) q(1,2)] a(2) not_meta by auto
      show "\<forall>r i. up p = Some (r, i) \<longrightarrow> ptr s ip q \<noteq> ptr s ip r"
        using map_okD(4) [OF s(2) q(1,2)] pos_ok_up [OF p(1)] q(3) by metis
    qed
  qed auto
  have mt: "map_ok t ip"
    unfolding map_ok_def
  proof (intro conjI allI impI)
    fix q
    assume q: "pos_ok q \<and> ptr t ip q \<noteq> 0"
    then have "q \<noteq> p \<longrightarrow> ptr s ip q \<noteq> 0"
      using pt [of q] by auto
    then show "ptr t ip q < sb_size (sb t)" "in_use t (ptr t ip q)" "\<not> meta_block t (ptr t ip q)"
      using q pt [of q] a t(4) map_okD(1-3) [OF s(2), of q] by (auto simp: sbt mb split: if_splits)
  next
    fix q q'
    assume q: "pos_ok q \<and> pos_ok q' \<and> ptr t ip q \<noteq> 0 \<and> ptr t ip q = ptr t ip q'"
    show "q = q'"
    proof -
      have e: "(if q = p then a else ptr s ip q) = (if q' = p then a else ptr s ip q')"
        using q pt [of q, symmetric] pt [of q'] by (metis (no_types))
      have na: "ptr s ip r \<noteq> a" if "pos_ok r" for r
        using map_okD(2) [OF s(2) that] a(2) a0 by auto
      have nz: "(if q = p then a else ptr s ip q) \<noteq> 0"
        using q pt [of q] by metis
      consider "q = p" "q' = p" | "q = p" "q' \<noteq> p" | "q \<noteq> p" "q' = p" | "q \<noteq> p" "q' \<noteq> p"
        by blast
      then show ?thesis
      proof cases
        case 2
        then have "a = ptr s ip q'" using e by simp
        then show ?thesis using na [of q'] q by auto
      next
        case 3
        then have "ptr s ip q = a" using e by simp
        then show ?thesis using na [of q] q by auto
      next
        case 4
        then have "ptr s ip q = ptr s ip q'" "ptr s ip q \<noteq> 0"
          using e nz by simp_all
        then show ?thesis using map_okD(4) [OF s(2)] q by blast
      qed simp
    qed
  qed
  show "nfree s \<le> nfree t + 1"
    by (rule nfree_alloc [OF sbt t(4)])
  have "bview t c = bview s c"
    if c: "c \<notin> bitmap_blocks s" "c \<notin> tables s ip" "c < sb_size (sb s) \<longrightarrow> in_use s c" for c
  proof (rule keep [OF _ c(1)])
    show "c \<noteq> a"
      using c(3) a(1,2) by auto
    show "\<forall>r i. up p = Some (r, i) \<longrightarrow> c \<noteq> ptr s ip r"
    proof (intro allI impI notI)
      fix r i
      assume "up p = Some (r, i)" "c = ptr s ip r"
      then show False
        using c(2) table pos_ok_up [OF p(1)] by (auto simp: tables_def is_table_def)
    qed
  qed
  then show "grown ip s t"
    unfolding grown_def using t mt pt a zero p(2)
    by (intro conjI allI impI) (auto split: if_splits)
qed

lemma inode_addr_spec:
  assumes r: "map_ready (Suc (Suc k)) ip s" and n: "0 < nfree s" and p: "pos_ok p" "up p = None"
  shows "returns (inode_addr ip (slot p) s) (step_spec ip p k s)"
proof (cases "ptr s ip p = 0")
  case False
  have "tx_room k s" "fs_geo s" "map_ok s ip"
    using r tx.inv_mono [of k "Suc (Suc k)"] by (simp_all add: map_ready_def)
  then show ?thesis
    using False p grown_refl by (auto simp: inode_addr_def step_spec_def ptr_slot Let_def)
next
  case True
  have s: "tx_room (Suc (Suc k)) s" "fs_geo s" "heldb s = {}" "map_ok s ip" "i_dev (icache s ip) = 1"
    using r by (simp_all add: map_ready_def)
  then have "alloc_ready (Suc (Suc k)) s"
    by (simp add: alloc_ready_def)
  then obtain a t where a: "balloc 1 s = Done (a, t)" "alloc_spec k s (a, t)"
    using balloc_spec [OF _ nfree_ex [OF n]] by (force simp: returns_def)
  note f = alloc_facts [OF s(2) a(2)]
  let ?t = "upd_inode ip (\<lambda>x. x\<lparr>i_addrs := (i_addrs x)(slot p := a)\<rparr>) t"
  have ic: "icache t = icache s"
    by (rule tx_frame_sels [OF f(8)])
  have "only_addrs ip s ?t"
    unfolding only_addrs_def
  proof (intro conjI exI)
    show "icache ?t = (icache s)(ip := (icache s ip)\<lparr>i_addrs := (i_addrs (icache s ip))(slot p := a)\<rparr>)"
      by (simp add: ic)
    show "tx_frame (s\<lparr>icache := icache ?t\<rparr>) ?t"
      using f(8) unfolding tx_frame_def upd_inode_def by (cases s; cases t) simp
  qed
  note g = grown_step [OF s(2,4) p(1) True f(1-3) _ _ this]
  have g': "grown ip s ?t" "pos_ok q \<Longrightarrow> ptr ?t ip q = (if q = p then a else ptr s ip q)" "nfree s \<le> nfree ?t + 1" for q
    by (rule g; use f p in \<open>simp add: ic fill_bytes_def\<close>)+
  have "inode_addr ip (slot p) s = Done (a, ?t)"
    using True a(1) s(5) by (simp add: inode_addr_def ptr_slot [OF p(2)])
  moreover have "step_spec ip p k s (a, ?t)"
    using g' f(5,6) p by (simp add: step_spec_def)
  ultimately show ?thesis
    by (rule returnsI)
qed

lemma table_addr_spec:
  assumes r: "map_ready (Suc (Suc (Suc k))) ip s" and n: "0 < nfree s"
    and p: "pos_ok p" "up p = Some (r, i)" and tbl: "ptr s ip r \<noteq> 0"
  shows "returns (table_addr ip (ptr s ip r) i s) (step_spec ip p k s)"
proof -
  let ?b = "ptr s ip r"
  have s: "tx_room (Suc (Suc (Suc k))) s" "fs_geo s" "heldb s = {}" "map_ok s ip" "i_dev (icache s ip) = 1"
    using r by (simp_all add: map_ready_def)
  have ri: "pos_ok r" "i < NINDIRECT"
    using pos_ok_up [OF p] by simp_all
  note b = map_okD(1-3) [OF s(4) ri(1) tbl]
  have tb: "tx_block s ?b"
    by (rule data_tx [OF s(2) b(1,3)])
  have pp: "ptr s ip p = get32 (bview s ?b) (4 * i)"
    using tbl by (simp add: ptr_up [OF p(2)])
  obtain bp t where 1: "bread 1 ?b s = Done (bp, t)" "tx_room (Suc (Suc (Suc k))) t" "holds t bp ?b"
    "b_data (bufs t bp) = bview s ?b" "bview t = bview s" "heldb t = insert ?b (heldb s)" "tx_frame s t"
    by (rule tx.rdE [OF s(1) tx.wok_rok [OF tb]]) (use s(3) in simp_all)
  note same = fs_geo_same [OF 1(7,5)] and sel = tx_frame_sels [OF 1(7)]
  have at: "addr_at bp i t = ptr s ip p"
    by (simp add: addr_at_def 1(4) pp)
  show ?thesis
  proof (cases "ptr s ip p = 0")
    case False
    obtain u where 2: "brelse bp t = Done u" "tx_room (Suc (Suc (Suc k))) u" "bview u = bview t"
      "heldb u = heldb t - {?b}" "tx_frame t u"
      by (rule tx.relE [OF 1(2,3)])
    have fr: "tx_frame s u"
      by (rule tx_frame_trans [OF 1(7) 2(5)])
    have v: "bview u = bview s" "heldb u = heldb s"
      using 2(3,4) 1(5,6) s(3) by simp_all
    note same' = fs_geo_same [OF fr v(1)] and sel' = tx_frame_sels [OF fr]
    have pe: "ptr u ip q = ptr s ip q" for q
      by (cases q) (simp_all add: sel' entry_def v)
    have "only_addrs ip s u"
      using only_addrs_refl [of ip s] fr sel'(11) unfolding only_addrs_def by simp
    moreover have "map_ok u ip"
      using s(4) unfolding map_ok_def pe same' sel' .
    ultimately have "grown ip s u"
      using s(2) v by (simp add: grown_def pe same')
    moreover have "nfree u = nfree s"
      by (simp add: nfree_def same' sel')
    moreover have "tx_room k u"
      by (rule tx.inv_mono [OF _ 2(2)]) simp
    ultimately have "step_spec ip p k s (ptr s ip p, u)"
      using False by (simp add: step_spec_def pe)
    moreover have "table_addr ip ?b i s = Done (ptr s ip p, u)"
      using 1(1) 2(1) False s(5) by (simp add: table_addr_def at Let_def)
    ultimately show ?thesis
      by (rule returnsI [rotated])
  next
    case True
    have al: "alloc_ready (Suc (Suc (Suc k))) t"
      using 1(2,6) s(2,3) b not_meta [OF b(3)] same by (simp add: alloc_ready_def bitmap_blocks_def sel)
    have "0 < nfree t"
      using n by (simp add: nfree_def same sel)
    then obtain a u where a: "balloc 1 t = Done (a, u)" "alloc_spec (Suc k) t (a, u)"
      using balloc_spec [OF al nfree_ex] by (auto simp: returns_def)
    have geo: "fs_geo t"
      using s(2) same by simp
    note f = alloc_facts [OF geo a(2)]
    have h: "holds u bp ?b"
      by (rule f(9) [OF 1(3)])
    note fu = tx_frame_trans [OF 1(7) f(8)]
    note selu = tx_frame_sels [OF fu]
    have bu: "tx_block u ?b" "?b \<noteq> a" "?b \<notin> bitmap_blocks t"
      using tb tx.frame_ok [OF fu] b(2) f(2) not_meta [OF b(3)] by (auto simp: same bitmap_blocks_def sel)
    have vb: "bview u ?b = bview s ?b"
      using f(15) [OF bu(2,3)] 1(5) by simp
    have du: "b_data (bufs u bp) = bview s ?b"
      using tx.has_data [OF f(6) h] vb by simp
    obtain v where 2: "log_write bp (set_data bp (put32 (4 * i) a (bview s ?b)) u) = Done v" "tx_room k v"
      "bview v = (bview u)(?b := put32 (4 * i) a (bview s ?b))" "heldb v = heldb u" "tx_frame u v"
      "\<forall>j c. holds v j c = holds u j c"
      by (rule tx.wrE [OF f(6) h bu(1)])
    have "holds v bp ?b"
      using 2(6) h by simp
    then obtain w where 3: "brelse bp v = Done w" "tx_room k w" "bview w = bview v" "heldb w = heldb v - {?b}"
      "tx_frame v w"
      by (rule tx.relE [OF 2(2)])
    note fw = tx_frame_trans [OF fu tx_frame_trans [OF 2(5) 3(5)]]
    note selw = tx_frame_sels [OF fw]
    have vw: "bview w = (bview u)(?b := put32 (4 * i) a (bview s ?b))"
      using 2(3) 3(3) by simp
    have bms: "bitmap_blocks t = bitmap_blocks s"
      by (simp add: bitmap_blocks_def sel)
    have keep: "bview w c = bview s c" if "c \<noteq> a" "c \<notin> bitmap_blocks s" "c \<noteq> ?b" for c
      using f(15) [of c] that 1(5) by (simp add: vw bms)
    have one: "1 \<noteq> ?b" "1 \<noteq> a"
      using not_meta [OF b(3)] not_meta [OF f(3)] by auto
    have bmw: "bview w c = bview u c" if "c \<in> bitmap_blocks s" for c
      using that not_meta [OF b(3)] by (auto simp: vw)
    have iw: "in_use w c \<longleftrightarrow> c = a \<or> in_use s c" if "c < sb_size (sb s)" for c
    proof -
      have "in_use w c = in_use u c"
        using bmw [OF BBLOCK_bitmap [OF that]] by (simp add: in_use_def selw selu)
      then show ?thesis
        using f(13) [of c] that by (simp add: sel same)
    qed
    have "bview w 1 = bview u 1"
      using one by (simp add: vw)
    moreover have "tx_frame u w"
      by (rule tx_frame_trans [OF 2(5) 3(5)])
    moreover have "in_use w c" if "c < sb_size (sb u)" "meta_block u c" for c
      using iw [of c] that s(2) f(12) same by (auto simp: selu fs_geo_def)
    ultimately have gw: "fs_geo w"
      using fs_geo_change(1) [OF f(10)] by blast
    have hw: "heldb w = heldb s"
      using 3(4) 2(4) f(7) 1(6) s(3) by simp
    have oa: "only_addrs ip s w"
      using only_addrs_refl [of ip s] fw selw(11) unfolding only_addrs_def by simp
    have za: "bview w a i = 0" if "i < BSIZE" for i
      using f(14) bu(2) that by (simp add: vw fill_bytes_def)
    have af: "a < sb_size (sb s)" "\<not> in_use s a" "\<not> meta_block s a"
      using f(1,2,3) by (simp_all add: sel same)
    have ad: "i_addrs (icache w ip) = (if up p = None then (i_addrs (icache s ip))(slot p := a) else i_addrs (icache s ip))"
      using p(2) by (simp add: selw)
    have tbl': "\<And>r' i'. up p = Some (r', i') \<Longrightarrow>
        ptr s ip r' \<noteq> 0 \<and> bview w (ptr s ip r') = put32 (4 * i') a (bview s (ptr s ip r'))"
      using p(2) tbl by (auto simp: vw)
    have kp: "\<And>c. c \<noteq> a \<Longrightarrow> c \<notin> bitmap_blocks s \<Longrightarrow>
        (\<forall>r i. up p = Some (r, i) \<longrightarrow> c \<noteq> ptr s ip r) \<Longrightarrow> bview w c = bview s c"
      using keep p(2) by auto
    have g: "grown ip s w" "nfree s \<le> nfree w + 1"
      "\<And>q. pos_ok q \<Longrightarrow> ptr w ip q = (if q = p then a else ptr s ip q)"
      by (rule grown_step [OF s(2,4) p(1) True af gw hw oa]; (rule iw za ad tbl' kp)?; assumption)+
    have "step_spec ip p k s (a, w)"
      using g p(1) f(5) 3(2) by (simp add: step_spec_def)
    moreover have "table_addr ip ?b i s = Done (a, w)"
      using 1(1) a(1) 2(1) 3(1) True s(5) du by (simp add: table_addr_def at Let_def sel set_addr_def)
    ultimately show ?thesis
      by (rule returnsI [rotated])
  qed
qed

subsection \<open>\<open>bmap\<close> and the bytes of a file\<close>

text \<open>The pointer of file block \<open>bn\<close>, and byte \<open>i\<close> of the file; a missing block reads as zeros.\<close>

definition pos_of :: "nat \<Rightarrow> pos" where
  "pos_of bn = (if bn < NDIRECT then Direct bn
     else if bn - NDIRECT < NINDIRECT then IndE (bn - NDIRECT)
     else DblE ((bn - NDIRECT - NINDIRECT) div NINDIRECT) ((bn - NDIRECT - NINDIRECT) mod NINDIRECT))"

definition fbyte :: "kst \<Rightarrow> nat \<Rightarrow> nat \<Rightarrow> byte" where
  "fbyte s ip i = (let a = ptr s ip (pos_of (i div BSIZE)) in if a = 0 then 0 else bview s a (i mod BSIZE))"

lemma pos_of_ok: "bn < MAXFILE \<Longrightarrow> pos_ok (pos_of bn)"
  by (auto simp: pos_of_def less_mult_imp_div_less)

lemma pos_of_data: "\<not> is_table (pos_of bn)"
proof
  assume "is_table (pos_of bn)"
  then obtain q i where "up q = Some (pos_of bn, i)"
    by (auto simp: is_table_def)
  then show False
    by (cases q) (auto simp: pos_of_def split: if_splits)
qed

lemma pos_of_cases:
  obtains "bn < NDIRECT" "pos_of bn = Direct bn"
  | i where "bn = NDIRECT + i" "i < NINDIRECT" "pos_of bn = IndE i"
  | i where "bn = NDIRECT + NINDIRECT + i" "pos_of bn = DblE (i div NINDIRECT) (i mod NINDIRECT)"
proof -
  consider "bn < NDIRECT" | "NDIRECT \<le> bn" "bn < NDIRECT + NINDIRECT" | "NDIRECT + NINDIRECT \<le> bn"
    by linarith
  then show thesis
  proof cases
    case 1
    then show ?thesis by (intro that(1)) (simp_all add: pos_of_def)
  next
    case 2
    then show ?thesis by (intro that(2) [of "bn - NDIRECT"]) (simp_all add: pos_of_def)
  next
    case 3
    then show ?thesis by (intro that(3) [of "bn - NDIRECT - NINDIRECT"]) (simp_all add: pos_of_def)
  qed
qed

lemma pos_of_inj: "pos_of a = pos_of b \<Longrightarrow> a = b"
proof -
  assume e: "pos_of a = pos_of b"
  show ?thesis
  proof (cases rule: pos_of_cases [of a])
    case 1
    then show ?thesis
      using e by (cases rule: pos_of_cases [of b]) simp_all
  next
    case (2 i)
    then show ?thesis
      using e by (cases rule: pos_of_cases [of b]) simp_all
  next
    case (3 i)
    note a = 3
    show ?thesis
    proof (cases rule: pos_of_cases [of b])
      case (3 j)
      then have "i div NINDIRECT = j div NINDIRECT" "i mod NINDIRECT = j mod NINDIRECT"
        using a e by simp_all
      then have "i = j"
        by (rule div_mod_eqI)
      then show ?thesis
        using a 3 by simp
    qed (use a e in simp_all)
  qed
qed

lemma map_ready_grown:
  assumes "map_ready j ip s" "grown ip s t" "tx_room k t"
  shows "map_ready k ip t"
proof -
  have "i_dev (icache t ip) = i_dev (icache s ip)"
    using assms(2) by (auto simp: grown_def only_addrs_def)
  then show ?thesis
    using assms by (simp add: map_ready_def grown_def)
qed

lemma stepE:
  assumes "returns m (step_spec ip p k s)"
  obtains a t where "m = Done (a, t)" "a = ptr t ip p" "a \<noteq> 0" "tx_room k t" "grown ip s t" "nfree s \<le> nfree t + 1"
  using assms by (auto simp: returns_def step_spec_def)

definition bmap_spec :: "nat \<Rightarrow> nat \<Rightarrow> nat \<Rightarrow> kst \<Rightarrow> u32 \<times> kst \<Rightarrow> bool" where
  "bmap_spec ip bn k s = (\<lambda>(a, t). a = ptr t ip (pos_of bn) \<and> a \<noteq> 0 \<and> tx_room k t \<and> grown ip s t
     \<and> nfree s \<le> nfree t + 3)"

lemma bmap_returns:
  assumes r: "map_ready (k + 8) ip s" and n: "3 \<le> nfree s" and bn: "unat bn < MAXFILE"
  shows "returns (bmap ip bn s) (bmap_spec ip (unat bn) k s)"
proof -
  have m: "map_ok s ip" and tr: "tx_room (k + 8) s"
    using r by (simp_all add: map_ready_def)
  have rr: "map_ready (k + j) ip s" if "j \<le> 8" for j
    using r tx.inv_mono [OF _ tr, of "k + j"] that by (simp add: map_ready_def)
  have d: "unat (bn - 11) = unat bn - 11" if "\<not> bn < 11"
    using that by (simp add: unat_sub word_le_nat_alt not_less)
  have d2: "unat (bn - 11 - 128) = unat bn - 11 - 128" if "\<not> bn < 11" "\<not> bn - 11 < 128"
    using that(2) d [OF that(1)] by (simp add: unat_sub word_le_nat_alt not_less)
  have k: "k + 2 = Suc (Suc k)" "k + 5 = Suc (Suc (k + 3))" "k + 8 = Suc (Suc (k + 6))"
      "k + 3 = Suc (Suc (Suc k))" "k + 6 = Suc (Suc (Suc (k + 3)))"
    by simp_all
  have r2: "map_ready (Suc (Suc k)) ip s" "map_ready (Suc (Suc (k + 3))) ip s" "map_ready (Suc (Suc (k + 6))) ip s"
    using rr [of 2] rr [of 5] r unfolding k(1-3) by simp_all
  consider "bn < 11" | "\<not> bn < 11" "bn - 11 < 128" | "\<not> bn < 11" "\<not> bn - 11 < 128"
    by blast
  then show ?thesis
  proof cases
    case 1
    then have u: "unat bn < 11"
      by (simp add: word_less_nat_alt)
    obtain a t where a: "inode_addr ip (slot (Direct (unat bn))) s = Done (a, t)"
      "a = ptr t ip (Direct (unat bn))" "a \<noteq> 0" "tx_room k t" "grown ip s t" "nfree s \<le> nfree t + 1"
      by (rule stepE [OF inode_addr_spec [of k ip s "Direct (unat bn)"]])
         (use r2 n u in simp_all)
    then have "bmap_spec ip (unat bn) k s (a, t)"
      using u by (simp add: bmap_spec_def pos_of_def)
    moreover have "bmap ip bn s = Done (a, t)"
      using 1 a(1) by (simp add: bmap_def)
    ultimately show ?thesis by (rule returnsI [rotated])
  next
    case 2
    then have u: "\<not> unat bn < 11" "unat bn - 11 < 128"
      using d by (simp_all add: word_less_nat_alt)
    obtain a t where a: "inode_addr ip (slot Ind) s = Done (a, t)"
      "a = ptr t ip Ind" "a \<noteq> 0" "tx_room (k + 3) t" "grown ip s t" "nfree s \<le> nfree t + 1"
      by (rule stepE [OF inode_addr_spec [of "k + 3" ip s Ind]])
         (use r2 n in simp_all)
    have mt: "map_ready (k + 3) ip t"
      by (rule map_ready_grown [OF r a(5,4)])
    obtain b v where b: "table_addr ip (ptr t ip Ind) (unat bn - 11) t = Done (b, v)"
      "b = ptr v ip (IndE (unat bn - 11))" "b \<noteq> 0" "tx_room k v" "grown ip t v" "nfree t \<le> nfree v + 1"
      by (rule stepE [OF table_addr_spec [of k ip t "IndE (unat bn - 11)" Ind "unat bn - 11"]])
         (use mt [unfolded k(4)] n u a(2,3,6) in simp_all)
    have "grown ip s v"
      by (rule grown_trans [OF a(5) b(5) m])
    then have "bmap_spec ip (unat bn) k s (b, v)"
      using u b a(6) by (simp add: bmap_spec_def pos_of_def)
    moreover have "bmap ip bn s = Done (b, v)"
      using 2 a(1,2) b(1) d by (simp add: bmap_def)
    ultimately show ?thesis by (rule returnsI [rotated])
  next
    case 3
    let ?m = "unat bn - 11 - 128"
    have u: "\<not> unat bn < 11" "\<not> unat bn - 11 < 128"
      using 3 d by (simp_all add: word_less_nat_alt)
    have um: "?m < 16384"
      using bn by simp
    then have dm: "?m div 128 < 128" "?m mod 128 < 128"
      by (simp_all add: less_mult_imp_div_less)
    have lt: "bn - 11 - 128 < 16384"
      using um d2 [OF 3] by (simp add: word_less_nat_alt)
    obtain a t where a: "inode_addr ip (slot Dbl) s = Done (a, t)"
      "a = ptr t ip Dbl" "a \<noteq> 0" "tx_room (k + 6) t" "grown ip s t" "nfree s \<le> nfree t + 1"
      by (rule stepE [OF inode_addr_spec [of "k + 6" ip s Dbl]])
         (use r2 n in simp_all)
    have mt: "map_ready (k + 6) ip t"
      by (rule map_ready_grown [OF r a(5,4)])
    obtain b v where b: "table_addr ip (ptr t ip Dbl) (?m div 128) t = Done (b, v)"
      "b = ptr v ip (DblT (?m div 128))" "b \<noteq> 0" "tx_room (k + 3) v" "grown ip t v" "nfree t \<le> nfree v + 1"
      by (rule stepE [OF table_addr_spec [of "k + 3" ip t "DblT (?m div 128)" Dbl "?m div 128"]])
         (use mt [unfolded k(5)] n dm a(2,3,6) in simp_all)
    have mv: "map_ready (k + 3) ip v"
      by (rule map_ready_grown [OF mt b(5,4)])
    obtain c w where c: "table_addr ip (ptr v ip (DblT (?m div 128))) (?m mod 128) v = Done (c, w)"
      "c = ptr w ip (DblE (?m div 128) (?m mod 128))" "c \<noteq> 0" "tx_room k w" "grown ip v w" "nfree v \<le> nfree w + 1"
      by (rule stepE [OF table_addr_spec [of k ip v "DblE (?m div 128) (?m mod 128)" "DblT (?m div 128)" "?m mod 128"]])
         (use mv [unfolded k(4)] n dm a(6) b(2,3,6) in simp_all)
    have "grown ip s w"
      by (rule grown_trans [OF grown_trans [OF a(5) b(5) m] c(5) m])
    then have "bmap_spec ip (unat bn) k s (c, w)"
      using u c a(6) b(6) by (simp add: bmap_spec_def pos_of_def)
    moreover have e: "bmap ip bn s = bindS (inode_addr ip (slot Dbl) s) (\<lambda>addr s.
        bindS (table_addr ip addr (unat (bn - 11 - 128) div 128) s) (\<lambda>addr s.
        table_addr ip addr (unat (bn - 11 - 128) mod 128) s))"
      unfolding bmap_def Let_def using 3 lt by simp
    have "bmap ip bn s = Done (c, w)"
      unfolding e d2 [OF 3] using a(1,2) b(1,2) c(1) by simp
    ultimately show ?thesis by (rule returnsI [rotated])
  qed
qed

text \<open>Growing a file does not change what it reads as.\<close>

lemma grown_fbyte:
  assumes m: "map_ok s ip" and g: "grown ip s t" and i: "i < MAXFILE * BSIZE"
  shows "fbyte t ip i = fbyte s ip i"
proof -
  let ?q = "pos_of (i div BSIZE)"
  have q: "pos_ok ?q"
    by (rule pos_of_ok) (use i in \<open>simp add: less_mult_imp_div_less\<close>)
  show ?thesis
  proof (cases "ptr s ip ?q = 0")
    case True
    then show ?thesis
      using g q pos_of_data [of "i div BSIZE"] by (simp add: fbyte_def Let_def grown_def)
  next
    case False
    then have e: "ptr t ip ?q = ptr s ip ?q"
      using g q by (simp add: grown_def)
    have "ptr s ip ?q \<notin> tables s ip"
      using map_okD(4) [OF m q False] pos_of_data by (auto simp: tables_def)
    moreover have "ptr s ip ?q \<notin> bitmap_blocks s" "in_use s (ptr s ip ?q)"
      using map_okD(2,3) [OF m q False] not_meta by blast+
    ultimately have "bview t (ptr s ip ?q) = bview s (ptr s ip ?q)"
      using g by (simp add: grown_def)
    then show ?thesis
      using e by (simp add: fbyte_def Let_def)
  qed
qed

subsection \<open>Reading a file\<close>

text \<open>
  Reading needs no transaction: \<open>read_ready\<close> holds in any state of the cache in which the file's
  blocks below its size exist.
\<close>

definition read_ready :: "nat \<Rightarrow> kst \<Rightarrow> bool" where
  "read_ready ip s \<longleftrightarrow> cache_room 1 s \<and> heldb s = {} \<and> i_dev (icache s ip) = 1
     \<and> (\<forall>p. pos_ok p \<longrightarrow> ptr s ip p < disksize s)
     \<and> (\<forall>bn. bn * BSIZE < unat (i_size (icache s ip)) \<longrightarrow> bn < MAXFILE \<and> ptr s ip (pos_of bn) \<noteq> 0)"

text \<open>The effect of an operation that only reads.\<close>

definition only_read :: "kst \<Rightarrow> kst \<Rightarrow> bool" where
  "only_read s t \<longleftrightarrow> cache_room 1 t \<and> bview t = bview s \<and> heldb t = heldb s \<and> bc_frame s t"

lemma only_read_trans: "only_read s t \<Longrightarrow> only_read t u \<Longrightarrow> only_read s u"
  unfolding only_read_def using bc_frame_trans [of s t u] by simp

lemma only_read_ptr: "only_read s t \<Longrightarrow> ptr t ip p = ptr s ip p"
  by (cases p) (simp_all add: only_read_def entry_def bc_frame_sels [of s t])

lemma only_read_ready:
  assumes "only_read s t" "read_ready ip s"
  shows "read_ready ip t" "fbyte t ip = fbyte s ip"
proof -
  have f: "bc_frame s t" using assms(1) by (simp add: only_read_def)
  show "read_ready ip t"
    using assms by (simp add: read_ready_def only_read_ptr [OF assms(1)] bc_frame_sels [OF f])
      (simp add: only_read_def)
  show "fbyte t ip = fbyte s ip"
  proof -
    have "bview t = bview s"
      using assms(1) by (simp add: only_read_def)
    then show ?thesis
      by (intro ext) (simp only: fbyte_def only_read_ptr [OF assms(1)])
  qed
qed

declare ptr.simps [simp del]

lemma ptr_up_nz: "up p = Some (r, i) \<Longrightarrow> ptr s ip p \<noteq> 0 \<Longrightarrow> ptr s ip r \<noteq> 0"
  by (auto simp: ptr_up split: if_splits)

lemma inode_addr_there:
  "up p = None \<Longrightarrow> ptr s ip p \<noteq> 0 \<Longrightarrow> inode_addr ip (slot p) s = Done (ptr s ip p, s)"
  by (simp add: inode_addr_def ptr_slot)

lemma table_addr_there:
  assumes r: "read_ready ip s" and p: "pos_ok p" "up p = Some (r, i)" "ptr s ip p \<noteq> 0"
  obtains t where "table_addr ip (ptr s ip r) i s = Done (ptr s ip p, t)" "only_read s t"
proof -
  let ?b = "ptr s ip r"
  have s: "cache_room 1 s" "heldb s = {}" "i_dev (icache s ip) = 1" "?b < disksize s"
    using r pos_ok_up [OF p(1,2)] by (simp_all add: read_ready_def)
  obtain bp t u where 1: "bread 1 ?b s = Done (bp, t)" "b_data (bufs t bp) = bview s ?b" "brelse bp t = Done u"
    "cache_room 1 u" "bview u = bview s" "heldb u = heldb s" "bc_frame s t" "bc_frame s u"
    by (rule cache.peek [OF s(1,4)]) (use s(2) in simp_all)
  have at: "addr_at bp i t = ptr s ip p"
    using ptr_up_nz [OF p(2,3)] by (simp add: addr_at_def 1(2) ptr_up [OF p(2)])
  show thesis
  proof (rule that)
    show "table_addr ip ?b i s = Done (ptr s ip p, u)"
      using 1(1,3) s(3) p(3) by (simp add: table_addr_def at Let_def)
    show "only_read s u"
      using 1(4,5,6,8) by (simp add: only_read_def)
  qed
qed

lemma bmap_there:
  assumes r: "read_ready ip s" and bn: "unat bn < MAXFILE" "ptr s ip (pos_of (unat bn)) \<noteq> 0"
  obtains t where "bmap ip bn s = Done (ptr s ip (pos_of (unat bn)), t)" "only_read s t"
proof -
  have refl: "only_read s s"
    using r by (simp add: only_read_def read_ready_def)
  show thesis
  proof (cases rule: pos_of_cases [of "unat bn"])
    case 1
    then have "bn < 11"
      by (simp add: word_less_nat_alt)
    then have "bmap ip bn s = Done (ptr s ip (Direct (unat bn)), s)"
      using inode_addr_there [of "Direct (unat bn)" s ip] bn(2) 1 by (simp add: bmap_def)
    then show ?thesis
      using that refl 1 by simp
  next
    case (2 i)
    have lt: "\<not> bn < 11" using 2(1) by (simp add: word_less_nat_alt)
    then have i: "unat (bn - 11) = i"
      using 2(1) by (simp add: unat_sub word_le_nat_alt)
    then have lt2: "bn - 11 < 128"
      using 2(2) by (simp add: word_less_nat_alt)
    have p: "ptr s ip (IndE i) \<noteq> 0" using bn(2) 2(3) by simp
    obtain t where t: "table_addr ip (ptr s ip Ind) i s = Done (ptr s ip (IndE i), t)" "only_read s t"
      by (rule table_addr_there [OF r, of "IndE i" Ind i]) (use p 2(2) in simp_all)
    have "inode_addr ip NDIRECT s = Done (ptr s ip Ind, s)"
      using inode_addr_there [of Ind s ip] ptr_up_nz [of "IndE i" Ind i, OF _ p] by simp
    then have "bmap ip bn s = Done (ptr s ip (IndE i), t)"
      using lt lt2 t(1) i by (simp add: bmap_def)
    then show ?thesis
      using that t(2) 2(3) by simp
  next
    case (3 i)
    let ?j = "i div NINDIRECT" and ?k = "i mod NINDIRECT"
    have lt: "\<not> bn < 11" using 3(1) by (simp add: word_less_nat_alt)
    then have a: "unat (bn - 11) = 128 + i"
      using 3(1) by (simp add: unat_sub word_le_nat_alt)
    then have lt2: "\<not> bn - 11 < 128"
      by (simp add: word_less_nat_alt)
    have i: "unat (bn - 11 - 128) = i"
      by (subst unat_sub) (use a in \<open>simp_all add: word_le_nat_alt\<close>)
    have im: "i < 16384" using bn(1) 3(1) by simp
    then have lt3: "bn - 11 - 128 < 16384"
      using i by (simp add: word_less_nat_alt)
    have jk: "?j < NINDIRECT" "?k < NINDIRECT"
      using im by (simp_all add: less_mult_imp_div_less)
    have p: "ptr s ip (DblE ?j ?k) \<noteq> 0" using bn(2) 3(2) by simp
    have q: "ptr s ip (DblT ?j) \<noteq> 0" by (rule ptr_up_nz [OF _ p]) simp
    have z: "ptr s ip Dbl \<noteq> 0" by (rule ptr_up_nz [OF _ q]) simp
    obtain t where t: "table_addr ip (ptr s ip Dbl) ?j s = Done (ptr s ip (DblT ?j), t)" "only_read s t"
      by (rule table_addr_there [OF r, of "DblT ?j" Dbl ?j]) (use q jk in simp_all)
    note pt = only_read_ptr [OF t(2)]
    obtain u where u: "table_addr ip (ptr t ip (DblT ?j)) ?k t = Done (ptr t ip (DblE ?j ?k), u)" "only_read t u"
      by (rule table_addr_there [OF only_read_ready(1) [OF t(2) r], of "DblE ?j ?k" "DblT ?j" ?k])
         (use p jk pt in simp_all)
    have e: "bmap ip bn s = bindS (inode_addr ip (slot Dbl) s) (\<lambda>addr s.
        bindS (table_addr ip addr (unat (bn - 11 - 128) div 128) s) (\<lambda>addr s.
        table_addr ip addr (unat (bn - 11 - 128) mod 128) s))"
      unfolding bmap_def Let_def using lt lt2 lt3 by simp
    have "inode_addr ip (slot Dbl) s = Done (ptr s ip Dbl, s)"
      by (rule inode_addr_there [OF _ z]) simp
    then have "bmap ip bn s = Done (ptr s ip (DblE ?j ?k), u)"
      unfolding e i using t(1) u(1) pt by simp
    then show ?thesis
      using that only_read_trans [OF t(2) u(2)] 3(2) by simp
  qed
qed

end
