(* ===== verification/FsData.thy ===== *)
theory FsData
  imports FsMap
begin

text \<open>
  Reading and writing the contents of a file (\<open>readi\<close> and \<open>writei\<close> of \<open>fs.c\<close>): the loops over
  the blocks of a file, by induction on the bytes left. The contents of inode \<open>ip\<close> as the kernel
  sees them are \<open>fbyte s ip\<close>; reading copies them, writing replaces a range of them and leaves
  everything that is not part of the file.
\<close>

lemma unat_add_le: "unat (a :: u32) + unat b \<le> unat (c :: u32) \<Longrightarrow> unat (a + b) = unat a + unat b"
  using unsigned_less [of c, where ?'a = nat] by (simp add: unat_word_ariths)

lemma chunk_le:
  assumes "tot < n"
  shows "0 < unat (chunk tot n off)" "unat tot + unat (chunk tot n off) \<le> unat n"
    "unat off mod 512 + unat (chunk tot n off) \<le> 512"
  using unat_chunk [OF assms, of off] assms by (simp_all add: word_less_nat_alt)

lemma fbyte_at:
  assumes "ptr s ip (pos_of (off div BSIZE)) \<noteq> 0" "off mod BSIZE + j < BSIZE"
  shows "fbyte s ip (off + j) = bview s (ptr s ip (pos_of (off div BSIZE))) (off mod BSIZE + j)"
proof -
  have "off + j = BSIZE * (off div BSIZE) + (off mod BSIZE + j)"
    by simp
  then have "(off + j) div BSIZE = off div BSIZE" "(off + j) mod BSIZE = off mod BSIZE + j"
    using assms(2) by (metis div_mult_self4 div_less zero_neq_numeral add_0_right add.commute,
        metis mod_mult_self4 mod_less)
  then show ?thesis
    using assms(1) by (simp add: fbyte_def)
qed

lemma readi_loop_spec:
  assumes "read_ready ip s" "tot \<le> n" "unat off + (unat n - unat tot) \<le> unat (i_size (icache s ip))"
  shows "returns (readi_loop ip dst tot n off s) (\<lambda>(d, t). only_read s t
    \<and> (\<forall>i. d i = (if unat tot \<le> i \<and> i < unat n then fbyte s ip (unat off + (i - unat tot)) else dst i)))"
  using assms
proof (induction "unat (n - tot)" arbitrary: dst tot off s rule: less_induct)
  case less
  show ?case
  proof (cases "tot < n")
    case False
    then have "tot = n"
      using less.prems(2) by simp
    then show ?thesis
      using less.prems(1) by (auto simp: readi_loop.simps [of _ _ n] only_read_def read_ready_def)
  next
    case True
    let ?m = "chunk tot n off" and ?bn = "off div of_nat BSIZE" and ?a = "ptr s ip (pos_of (unat off div BSIZE))"
    note m = chunk_le [OF True, of off]
    have tn: "unat tot < unat n"
      using True by (simp add: word_less_nat_alt)
    have bn: "unat ?bn = unat off div BSIZE"
      by (simp add: unat_div_distrib)
    have os: "unat off < unat (i_size (icache s ip))"
      using less.prems(3) tn by linarith
    have "unat off div BSIZE * BSIZE \<le> unat off"
      by (rule div_times_less_eq_dividend)
    then have ex: "unat off div BSIZE < MAXFILE" "?a \<noteq> 0"
      using less.prems(1) os by (auto simp: read_ready_def)
    obtain t where t: "bmap ip ?bn s = Done (?a, t)" "only_read s t"
      by (rule bmap_there [OF less.prems(1), of ?bn]) (use ex bn in simp_all)
    note rt = only_read_ready [OF t(2) less.prems(1)]
    have ft: "bc_frame s t" and vt: "bview t = bview s"
      using t(2) by (simp_all add: only_read_def)
    note sel = bc_frame_sels [OF ft]
    have st: "cache_room 1 t" "heldb t = {}" "?a < disksize t" "i_dev (icache t ip) = 1"
      using rt(1) pos_of_ok [OF ex(1)] only_read_ptr [OF t(2)] by (auto simp: read_ready_def)
    obtain bp u v where 1: "bread 1 ?a t = Done (bp, u)" "b_data (bufs u bp) = bview t ?a" "brelse bp u = Done v"
      "cache_room 1 v" "bview v = bview t" "heldb v = heldb t" "bc_frame t u" "bc_frame t v"
      by (rule cache.peek [OF st(1,3)]) (use st(2) in simp_all)
    have ov: "only_read t v"
      using 1(4,5,6,8) by (simp add: only_read_def)
    note osv = only_read_trans [OF t(2) ov]
    have fv: "bc_frame s v"
      using osv by (simp add: only_read_def)
    note rv = only_read_ready [OF osv less.prems(1)]
    have um: "unat (off mod of_nat BSIZE) = unat off mod BSIZE"
      by (simp add: unat_mod_distrib)
    let ?d = "copy_bytes (unat ?m) (bview s ?a) (unat off mod BSIZE) (unat tot) dst"
    have ut: "unat (tot + ?m) = unat tot + unat ?m"
      by (rule unat_add_le [OF m(2)])
    have uo: "unat (off + ?m) = unat off + unat ?m"
      by (rule unat_add_le [of _ _ "i_size (icache s ip)"]) (use less.prems(3) m(2) in linarith)
    have "returns (readi_loop ip ?d (tot + ?m) n (off + ?m) v) (\<lambda>(d, w). only_read v w
        \<and> (\<forall>i. d i = (if unat (tot + ?m) \<le> i \<and> i < unat n
              then fbyte v ip (unat (off + ?m) + (i - unat (tot + ?m))) else ?d i)))"
    proof (rule less.hyps [OF chunk_progress [OF True] rv(1)])
      show "tot + ?m \<le> n"
        using m(2) ut by (simp add: word_le_nat_alt)
      show "unat (off + ?m) + (unat n - unat (tot + ?m)) \<le> unat (i_size (icache v ip))"
        using less.prems(3) m(2) by (simp add: ut uo bc_frame_sels [OF fv])
    qed
    then obtain d w where w: "readi_loop ip ?d (tot + ?m) n (off + ?m) v = Done (d, w)" "only_read v w"
      "\<And>i. d i = (if unat (tot + ?m) \<le> i \<and> i < unat n
              then fbyte v ip (unat (off + ?m) + (i - unat (tot + ?m))) else ?d i)"
      by (auto simp: returns_def)
    have "d i = (if unat tot \<le> i \<and> i < unat n then fbyte s ip (unat off + (i - unat tot)) else dst i)" for i
    proof -
      consider "unat tot + unat ?m \<le> i" | "unat tot \<le> i" "i < unat tot + unat ?m" | "i < unat tot"
        by linarith
      then show ?thesis
      proof cases
        case 1
        then have "unat off + unat ?m + (i - (unat tot + unat ?m)) = unat off + (i - unat tot)"
          by linarith
        then show ?thesis
          using 1 m(1) by (simp add: w(3) ut uo rv(2) copy_bytes_def)
      next
        case 2
        then have "fbyte s ip (unat off + (i - unat tot)) = bview s ?a (unat off mod BSIZE + (i - unat tot))"
          by (intro fbyte_at ex(2)) (use m(3) in linarith)
        then show ?thesis
          using 2 m(2) by (simp add: w(3) ut copy_bytes_def)
      next
        case 3
        then show ?thesis
          by (simp add: w(3) ut copy_bytes_def)
      qed
    qed
    moreover have "readi_loop ip dst tot n off s = Done (d, w)"
      using True t(1) 1(1-3) w(1) st(4) vt um by (simp add: readi_loop.simps [of _ _ tot] Let_def)
    ultimately show ?thesis
      using only_read_trans [OF osv w(2)] by (simp add: returns_def)
  qed
qed

subsection \<open>Writing a file\<close>

text \<open>
  \<open>written ip s t\<close>: between \<open>s\<close> and \<open>t\<close> only the contents and the block map of inode \<open>ip\<close> changed:
  its pointers stay, new blocks were free, and every block that is not part of the file keeps its
  contents.
\<close>

definition ip_blocks :: "kst \<Rightarrow> nat \<Rightarrow> u32 set" where
  "ip_blocks s ip = {ptr s ip r | r. pos_ok r \<and> ptr s ip r \<noteq> 0}"

definition written :: "nat \<Rightarrow> kst \<Rightarrow> kst \<Rightarrow> bool" where
  "written ip s t \<longleftrightarrow> fs_geo t \<and> map_ok t ip \<and> heldb t = heldb s \<and> only_addrs ip s t
     \<and> (\<forall>q. pos_ok q \<and> ptr s ip q \<noteq> 0 \<longrightarrow> ptr t ip q = ptr s ip q)
     \<and> (\<forall>q. pos_ok q \<and> ptr s ip q = 0 \<and> ptr t ip q \<noteq> 0 \<longrightarrow> \<not> in_use s (ptr t ip q))
     \<and> (\<forall>c < sb_size (sb s). in_use s c \<longrightarrow> in_use t c)
     \<and> (\<forall>c. c \<notin> bitmap_blocks s \<and> c \<notin> ip_blocks s ip \<and> (c < sb_size (sb s) \<longrightarrow> in_use s c)
          \<longrightarrow> bview t c = bview s c)"

lemma tables_blocks: "tables s ip \<subseteq> ip_blocks s ip"
  by (auto simp: tables_def ip_blocks_def)

lemma grown_written: "grown ip s t \<Longrightarrow> written ip s t"
  using tables_blocks [of s ip] unfolding grown_def written_def by blast

lemma only_addrs_frame:
  assumes "only_addrs ip s t"
  shows "sb t = sb s" "bitmap_blocks t = bitmap_blocks s" "disksize t = disksize s"
    "meta_block t = meta_block s" "tx_block t = tx_block s" "inode_blocks t = inode_blocks s"
    "i_dev (icache t ip) = i_dev (icache s ip)" "i_size (icache t ip) = i_size (icache s ip)"
    "i_inum (icache t ip) = i_inum (icache s ip)"
proof -
  have f: "tx_frame (s\<lparr>icache := icache t\<rparr>) t"
    using assms unfolding only_addrs_def by blast
  note sel = tx_frame_sels(1-10,12) [OF f]
  show s: "sb t = sb s" "disksize t = disksize s"
    by (simp_all add: sel)
  show b: "bitmap_blocks t = bitmap_blocks s" "inode_blocks t = inode_blocks s"
    by (simp_all add: bitmap_blocks_def inode_blocks_def s)
  show "meta_block t = meta_block s" "tx_block t = tx_block s"
    by (simp_all add: fun_eq_iff meta_block_def tx_block_def b sel)
  obtain a where "icache t = (icache s)(ip := (icache s ip)\<lparr>i_addrs := a\<rparr>)"
    using assms by (auto simp: only_addrs_def)
  then show "i_dev (icache t ip) = i_dev (icache s ip)" "i_size (icache t ip) = i_size (icache s ip)"
    "i_inum (icache t ip) = i_inum (icache s ip)"
    by simp_all
qed

lemma writtenD:
  assumes "written ip s t"
  shows "fs_geo t" "map_ok t ip" "heldb t = heldb s" "only_addrs ip s t"
    "pos_ok q \<Longrightarrow> ptr s ip q \<noteq> 0 \<Longrightarrow> ptr t ip q = ptr s ip q"
    "pos_ok q \<Longrightarrow> ptr s ip q = 0 \<Longrightarrow> ptr t ip q \<noteq> 0 \<Longrightarrow> \<not> in_use s (ptr t ip q)"
    "c < sb_size (sb s) \<Longrightarrow> in_use s c \<Longrightarrow> in_use t c"
    "c \<notin> bitmap_blocks s \<Longrightarrow> c \<notin> ip_blocks s ip \<Longrightarrow> (c < sb_size (sb s) \<Longrightarrow> in_use s c)
      \<Longrightarrow> bview t c = bview s c"
  using assms unfolding written_def by blast+

lemma written_trans:
  assumes st: "written ip s t" and tu: "written ip t u"
  shows "written ip s u"
proof -
  note S = writtenD [OF st] and T = writtenD [OF tu]
  note fs = only_addrs_frame [OF S(4)] and ft = only_addrs_frame [OF T(4)]
  have new: "\<not> in_use s (ptr u ip q)" if q: "pos_ok q" "ptr s ip q = 0" "ptr u ip q \<noteq> 0" for q
  proof (cases "ptr t ip q = 0")
    case True
    have "ptr u ip q < sb_size (sb s)"
      using map_okD(1) [OF T(2) q(1,3)] by (simp add: fs ft)
    then show ?thesis
      using T(6) [OF q(1) True q(3)] S(7) by blast
  next
    case False
    then show ?thesis
      using S(6) [OF q(1,2) False] T(5) [OF q(1) False] by simp
  qed
  have other: "bview u c = bview s c"
    if c: "c \<notin> bitmap_blocks s" "c \<notin> ip_blocks s ip" "c < sb_size (sb s) \<longrightarrow> in_use s c" for c
  proof -
    have "c \<notin> ip_blocks t ip"
    proof
      assume "c \<in> ip_blocks t ip"
      then obtain r where r: "pos_ok r" "c = ptr t ip r" "ptr t ip r \<noteq> 0"
        by (auto simp: ip_blocks_def)
      have "ptr s ip r = 0"
        using r c(2) S(5) [of r] by (auto simp: ip_blocks_def)
      then have "\<not> in_use s c"
        using S(6) r by simp
      then show False
        using c(3) map_okD(1) [OF S(2) r(1,3)] r(2) fs(1) by simp
    qed
    moreover have "c < sb_size (sb t) \<longrightarrow> in_use t c"
      using c(3) S(7) by (simp add: fs(1))
    ultimately have "bview u c = bview t c"
      using T(8) [of c] c(1) by (simp add: fs(2))
    then show ?thesis
      using S(8) [of c] c by simp
  qed
  have "only_addrs ip s u"
    by (rule only_addrs_trans [OF S(4) T(4)])
  moreover have "ptr u ip q = ptr s ip q" if "pos_ok q" "ptr s ip q \<noteq> 0" for q
    using S(5) [OF that] T(5) [OF that(1)] that(2) by simp
  moreover have "in_use u c" if "c < sb_size (sb s)" "in_use s c" for c
    using S(7) [OF that] T(7) that(1) by (simp add: fs(1))
  moreover have "heldb u = heldb s"
    using S(3) T(3) by simp
  ultimately show ?thesis
    unfolding written_def using T(1,2) new other by blast
qed

text \<open>A change of one block that is neither a bitmap block nor a table of the file.\<close>

lemma block_write:
  assumes s: "fs_geo s" "map_ok s ip" and t: "tx_frame s t" "\<And>c. c \<noteq> m \<Longrightarrow> bview t c = bview s c"
    and m: "m \<notin> bitmap_blocks s" "m \<noteq> 1"
    and tab: "\<And>r. pos_ok r \<Longrightarrow> is_table r \<Longrightarrow> ptr s ip r \<noteq> 0 \<Longrightarrow> ptr s ip r \<noteq> m"
  shows "fs_geo t" "map_ok t ip" "nfree t = nfree s" "pos_ok p \<Longrightarrow> ptr t ip p = ptr s ip p"
    "c < sb_size (sb s) \<Longrightarrow> in_use t c = in_use s c"
proof -
  note sel = tx_frame_sels [OF t(1)]
  have iu: "in_use t c = in_use s c" if "c < sb_size (sb s)" for c
  proof -
    have "BBLOCK (unat c) (sb s) \<noteq> m"
      using BBLOCK_bitmap [OF that] m(1) by auto
    then show ?thesis
      by (simp add: in_use_def sel t(2))
  qed
  then show "c < sb_size (sb s) \<Longrightarrow> in_use t c = in_use s c" .
  have pt: "ptr t ip p = ptr s ip p" if "pos_ok p" for p
    using that
  proof (induction p rule: pos_induct)
    case (1 p)
    show ?case
    proof (cases "up p")
      case None
      then show ?thesis by (simp add: ptr_slot sel)
    next
      case (Some ri)
      then obtain r i where r: "up p = Some (r, i)" by (cases ri) auto
      have "pos_ok r" "is_table r"
        using pos_ok_up [OF 1(2) r] r by (auto simp: is_table_def)
      then show ?thesis
        using 1(1) [OF r] tab [of r] t(2) by (simp add: ptr_up [OF r])
    qed
  qed
  then show "pos_ok p \<Longrightarrow> ptr t ip p = ptr s ip p" .
  show "fs_geo t"
    using fs_geo_change(1) [OF s(1) t(1)] t(2) [of 1] m(2) iu s(1) by (auto simp: fs_geo_def)
  have mb: "meta_block t = meta_block s" "bitmap_blocks t = bitmap_blocks s"
    by (simp_all add: fun_eq_iff meta_block_def bitmap_blocks_def inode_blocks_def sel)
  show "map_ok t ip"
    unfolding map_ok_def
  proof (intro conjI allI impI)
    fix p
    assume p: "pos_ok p \<and> ptr t ip p \<noteq> 0"
    then have e: "ptr t ip p = ptr s ip p" "pos_ok p" "ptr s ip p \<noteq> 0"
      by (auto simp: pt)
    note m = map_okD(1-3) [OF s(2) e(2,3)]
    show "ptr t ip p < sb_size (sb t)" "in_use t (ptr t ip p)" "\<not> meta_block t (ptr t ip p)"
      using m iu [OF m(1)] by (simp_all add: e(1) sel mb)
  next
    fix p p'
    assume "pos_ok p \<and> pos_ok p' \<and> ptr t ip p \<noteq> 0 \<and> ptr t ip p = ptr t ip p'"
    then have "pos_ok p" "pos_ok p'" "ptr t ip p \<noteq> 0" "ptr t ip p = ptr t ip p'"
      by blast+
    then show "p = p'"
      using map_okD(4) [OF s(2), of p p'] pt [of p] pt [of p'] by simp
  qed
  have "{c. c < sb_size (sb t) \<and> \<not> in_use t c} = {c. c < sb_size (sb s) \<and> \<not> in_use s c}"
    using iu by (auto simp: sel)
  then show "nfree t = nfree s"
    by (simp add: nfree_def)
qed

text \<open>Overwriting one data block of the file.\<close>

lemma data_write:
  assumes s: "fs_geo s" "map_ok s ip" and q: "bn < MAXFILE" "ptr s ip (pos_of bn) \<noteq> 0"
    and t: "bview t = (bview s)(ptr s ip (pos_of bn) := d)" "tx_frame s t" "heldb t = heldb s"
  shows "written ip s t" "nfree t = nfree s" "map_ok t ip" "fs_geo t"
    "i < MAXFILE * BSIZE \<Longrightarrow> fbyte t ip i = (if i div BSIZE = bn then d (i mod BSIZE) else fbyte s ip i)"
proof -
  let ?a = "ptr s ip (pos_of bn)"
  note sel = tx_frame_sels [OF t(2)]
  have ok: "pos_ok (pos_of bn)" by (rule pos_of_ok [OF q(1)])
  note a = map_okD(1-3) [OF s(2) ok q(2)]
  have nm: "?a \<notin> bitmap_blocks s" "?a \<noteq> 1"
    using not_meta [OF a(3)] by auto
  have v: "bview t c = bview s c" if "c \<noteq> ?a" for c
    using that by (simp add: t(1))
  have tab: "ptr s ip r \<noteq> ?a" if "pos_ok r" "is_table r" "ptr s ip r \<noteq> 0" for r
    using map_okD(4) [OF s(2) that(1,3) ok] pos_of_data [of bn] that(2) by auto
  note w = block_write [OF s t(2) v nm tab]
  show mt: "nfree t = nfree s" "map_ok t ip" "fs_geo t"
    by (rule w; assumption)+
  have pt: "ptr t ip p = ptr s ip p" if "pos_ok p" for p
    by (rule w(4)) (use that in auto)
  have iu: "in_use t c = in_use s c" if "c < sb_size (sb s)" for c
    by (rule w(5)) (use that in auto)
  have "only_addrs ip s t"
    using only_addrs_refl [of ip s] t(2) sel(11) unfolding only_addrs_def by simp
  moreover have "bview t c = bview s c" if "c \<notin> ip_blocks s ip" for c
    using that ok q(2) v [of c] by (auto simp: ip_blocks_def)
  ultimately show "written ip s t"
    unfolding written_def using mt t(3) pt iu by (intro conjI allI impI) auto
  show "fbyte t ip i = (if i div BSIZE = bn then d (i mod BSIZE) else fbyte s ip i)" if i: "i < MAXFILE * BSIZE"
  proof -
    have oki: "pos_ok (pos_of (i div BSIZE))"
      by (rule pos_of_ok) (use i in \<open>simp add: less_mult_imp_div_less\<close>)
    show ?thesis
    proof (cases "i div BSIZE = bn")
      case True
      then show ?thesis
        using q(2) pt [OF oki] by (simp add: fbyte_def t(1))
    next
      case False
      then have "pos_of (i div BSIZE) \<noteq> pos_of bn"
        using pos_of_inj by blast
      then have "ptr s ip (pos_of (i div BSIZE)) \<noteq> ?a"
        using map_okD(4) [OF s(2) ok q(2) oki] by auto
      then show ?thesis
        using False pt [OF oki] v by (simp add: fbyte_def Let_def)
    qed
  qed
qed

lemma round_up: "(x + (BSIZE - x mod BSIZE)) mod BSIZE = 0"
proof -
  have "x + (BSIZE - x mod BSIZE) = BSIZE * (x div BSIZE + 1)"
  proof -
    have "x = 512 * (x div 512) + x mod 512" "x mod 512 < 512"
      by simp_all
    then show ?thesis
      unfolding distrib_left by linarith
  qed
  then show ?thesis
    by simp
qed

lemma chunk_range:
  fixes off m i :: nat
  assumes "off mod BSIZE + m \<le> BSIZE"
  shows "off \<le> i \<and> i < off + m \<longleftrightarrow> i div BSIZE = off div BSIZE \<and> off mod BSIZE \<le> i mod BSIZE \<and> i mod BSIZE < off mod BSIZE + m"
    "i div BSIZE = off div BSIZE \<Longrightarrow> i - off = i mod BSIZE - off mod BSIZE"
proof -
  define q r q' r' where "q = off div BSIZE" "r = off mod BSIZE" "q' = i div BSIZE" "r' = i mod BSIZE"
  then have e: "off = 512 * q + r" "i = 512 * q' + r'" "r' < 512" "r + m \<le> 512"
    using assms by simp_all
  consider "q' + 1 \<le> q" | "q' = q" | "q + 1 \<le> q'"
    by linarith
  then have "off \<le> i \<and> i < off + m \<longleftrightarrow> q' = q \<and> r \<le> r' \<and> r' < r + m"
    by cases (use e in linarith)+
  then show "off \<le> i \<and> i < off + m \<longleftrightarrow> i div BSIZE = off div BSIZE \<and> off mod BSIZE \<le> i mod BSIZE \<and> i mod BSIZE < off mod BSIZE + m"
    unfolding q_r_q'_r'_def .
  have "q' = q \<Longrightarrow> i - off = r' - r"
    using e by linarith
  then show "i div BSIZE = off div BSIZE \<Longrightarrow> i - off = i mod BSIZE - off mod BSIZE"
    unfolding q_r_q'_r'_def .
qed

definition write_spec :: "nat \<Rightarrow> block \<Rightarrow> nat \<Rightarrow> nat \<Rightarrow> nat \<Rightarrow> nat \<Rightarrow> kst \<Rightarrow> u32 \<times> kst \<Rightarrow> bool" where
  "write_spec ip src tot n off k s = (\<lambda>(off', t). unat off' = off + (n - tot) \<and> tx_room k t \<and> written ip s t
     \<and> (\<forall>i < MAXFILE * BSIZE. fbyte t ip i
          = (if off \<le> i \<and> i < off + (n - tot) then src (tot + (i - off)) else fbyte s ip i))
     \<and> (\<forall>i. off \<le> i \<and> i < off + (n - tot) \<longrightarrow> ptr t ip (pos_of (i div BSIZE)) \<noteq> 0))"

lemma writei_loop_spec:
  assumes "map_ready (k + 9 * j) ip s" "3 * j \<le> nfree s" "tot \<le> n"
    "unat off + (unat n - unat tot) \<le> MAXFILE * BSIZE"
    "tot < n \<Longrightarrow> unat off mod BSIZE + (unat n - unat tot) \<le> j * BSIZE"
  shows "returns (writei_loop ip src tot n off s) (write_spec ip src (unat tot) (unat n) (unat off) k s)"
  using assms
proof (induction "unat (n - tot)" arbitrary: tot off s j rule: less_induct)
  case less
  note room = less.prems(1)
  have s: "fs_geo s" "map_ok s ip" "heldb s = {}" "i_dev (icache s ip) = 1" "tx_room (k + 9 * j) s"
    using room by (simp_all add: map_ready_def)
  show ?case
  proof (cases "tot < n")
    case False
    then have "tot = n"
      using less.prems(3) by simp
    moreover have "tx_room k s"
      by (rule tx.inv_mono [OF _ s(5)]) simp
    ultimately show ?thesis
      using grown_written [OF grown_refl [OF s(1,2)]] by (auto simp: writei_loop.simps [of _ _ n] write_spec_def)
  next
    case True
    let ?m = "chunk tot n off" and ?bn = "off div of_nat BSIZE" and ?q = "pos_of (unat off div BSIZE)"
    note m = chunk_le [OF True, of off]
    have tn: "unat tot < unat n"
      using True by (simp add: word_less_nat_alt)
    have bn: "unat ?bn = unat off div BSIZE"
      by (simp add: unat_div_distrib)
    have bm: "unat off div BSIZE < MAXFILE"
      using less.prems(4) tn by (simp add: less_mult_imp_div_less)
    have "0 < j"
      using less.prems(5) [OF True] tn by (cases j) auto
    then obtain l where j: "j = Suc l" by (cases j) auto
    let ?k = "k + 9 * l"
    have r8: "map_ready (Suc ?k + 8) ip s"
      using room unfolding j by (simp add: algebra_simps)
    obtain a t where "bmap ip ?bn s = Done (a, t)" "bmap_spec ip (unat ?bn) (Suc ?k) s (a, t)"
      using bmap_returns [OF r8, of ?bn] less.prems(2) bm j by (auto simp: returns_def unat_div_distrib)
    then have t: "bmap ip ?bn s = Done (ptr t ip ?q, t)" "ptr t ip ?q \<noteq> 0" "tx_room (Suc ?k) t" "grown ip s t"
        "nfree s \<le> nfree t + 3"
      by (auto simp: bmap_spec_def unat_div_distrib)
    note wt = grown_written [OF t(4)]
    note W = writtenD [OF wt] and fr = only_addrs_frame [OF writtenD(4) [OF wt]]
    have ok: "pos_ok ?q" by (rule pos_of_ok [OF bm])
    let ?a = "ptr t ip ?q"
    have b: "tx_block t ?a" "?a \<notin> heldb t"
      using map_okD(1,3) [OF W(2) ok t(2)] data_tx [OF W(1)] s(3) W(3) by simp_all
    let ?d = "copy_bytes (unat ?m) src (unat tot) (unat off mod BSIZE) (bview t ?a)"
    obtain bp u v w where 1: "bread 1 ?a t = Done (bp, u)" "b_data (bufs u bp) = bview t ?a"
        "log_write bp (set_data bp ?d u) = Done v" "brelse bp v = Done w" "tx_room ?k w"
        "bview w = (bview t)(?a := ?d)" "heldb w = heldb t" "tx_frame t w"
      by (rule tx.modify [OF t(3) b, where d = ?d]) (use s(3) W(3) in simp_all)
    note dw = data_write [OF W(1,2) bm t(2) 1(6,8,7)]
    have sw: "written ip s w"
      by (rule written_trans [OF wt dw(1)])
    note frw = only_addrs_frame [OF writtenD(4) [OF sw]]
    have ut: "unat (tot + ?m) = unat tot + unat ?m"
      by (rule unat_add_le [OF m(2)])
    have uo: "unat (off + ?m) = unat off + unat ?m"
      by (rule unat_add_le [of _ _ "of_nat (MAXFILE * BSIZE)"]) (use less.prems(4) m(2) in simp)
    have um: "unat (off mod of_nat BSIZE) = unat off mod BSIZE"
      by (simp add: unat_mod_distrib)
    have mm: "unat ?m = min (unat n - unat tot) (BSIZE - unat off mod BSIZE)"
      by (rule unat_chunk [OF True])
    have "returns (writei_loop ip src (tot + ?m) n (off + ?m) w)
        (write_spec ip src (unat (tot + ?m)) (unat n) (unat (off + ?m)) k w)"
    proof (rule less.hyps [OF chunk_progress [OF True]])
      show "map_ready (k + 9 * l) ip w"
        using 1(5) dw(3,4) s(3,4) W(3) 1(7) frw(7) by (simp add: map_ready_def)
      show "3 * l \<le> nfree w"
        using less.prems(2) t(5) dw(2) j by simp
      show "tot + ?m \<le> n"
        using m(2) ut by (simp add: word_le_nat_alt)
      show "unat (off + ?m) + (unat n - unat (tot + ?m)) \<le> MAXFILE * BSIZE"
        using less.prems(4) m(2) by (simp add: ut uo)
      show "unat (off + ?m) mod BSIZE + (unat n - unat (tot + ?m)) \<le> l * BSIZE" if "tot + ?m < n"
      proof -
        have "unat ?m < unat n - unat tot"
          using that ut by (simp add: word_less_nat_alt)
        then have e: "unat ?m = BSIZE - unat off mod BSIZE"
          using mm by (simp add: min_def split: if_splits)
        then have "(unat off + unat ?m) mod BSIZE = 0"
            using round_up [of "unat off"]
          by simp
        then show ?thesis
          using less.prems(5) [OF True] e m(3) j by (simp add: ut uo)
      qed
    qed
    then obtain o' z where z: "writei_loop ip src (tot + ?m) n (off + ?m) w = Done (o', z)"
        "write_spec ip src (unat tot + unat ?m) (unat n) (unat off + unat ?m) k w (o', z)"
      by (auto simp: returns_def ut uo)
    note Z = z(2) [unfolded write_spec_def prod.case]
    have e: "writei_loop ip src tot n off s = Done (o', z)"
      using True t(1) 1(1-4) z(1) s(4) fr(7) um by (simp add: writei_loop.simps [of _ _ tot] Let_def)
    have "unat o' = unat off + (unat n - unat tot)" "tx_room k z" "written ip w z"
      using Z m(2) by simp_all
    moreover have "fbyte z ip i = (if unat off \<le> i \<and> i < unat off + (unat n - unat tot) then src (unat tot + (i - unat off))
        else fbyte s ip i)" if i: "i < MAXFILE * BSIZE" for i
    proof -
      have f: "fbyte t ip i = fbyte s ip i"
        by (rule grown_fbyte [OF s(2) t(4) i])
      have bw: "fbyte w ip i = (if unat off \<le> i \<and> i < unat off + unat ?m then src (unat tot + (i - unat off)) else fbyte s ip i)"
        using dw(5) [OF i] f t(2) chunk_range [OF m(3), of i] by (auto simp: copy_bytes_def fbyte_def Let_def)
      consider "unat off + unat ?m \<le> i" | "i < unat off + unat ?m"
        by linarith
      then show ?thesis
        using m(2) conjunct1 [OF conjunct2 [OF conjunct2 [OF conjunct2 [OF Z]]], rule_format, OF i] bw by cases (auto simp: algebra_simps)
    qed
    moreover have "ptr z ip (pos_of (i div BSIZE)) \<noteq> 0" if i: "unat off \<le> i" "i < unat off + (unat n - unat tot)" for i
    proof (cases "i < unat off + unat ?m")
      case True
      then have "i div BSIZE = unat off div BSIZE"
        using chunk_range(1) [OF m(3), of i] i(1) by blast
      moreover have "ptr w ip ?q = ptr t ip ?q"
        by (rule writtenD(5) [OF dw(1) ok t(2)])
      then have "ptr z ip ?q = ptr t ip ?q"
        using Z writtenD(5) [of ip w z ?q] ok t(2) by simp
      ultimately show ?thesis
        using t(2) by simp
    next
      case False
      then show ?thesis
        using Z i m(2) by simp
    qed
    ultimately have "write_spec ip src (unat tot) (unat n) (unat off) k s (o', z)"
      using written_trans [OF sw] by (simp add: write_spec_def)
    then show ?thesis
      by (rule returnsI [OF e])
  qed
qed

text \<open>What an update of an inode block leaves of a file.\<close>

lemma inode_update_file:
  assumes s: "fs_geo s" "map_ok s ip" and t: "updated (inode_write s ip') k s t"
    and i: "i_inum (icache s ip') < sb_ninodes (sb s)"
  shows "fs_geo t" "map_ok t ip" "nfree t = nfree s" "j < MAXFILE * BSIZE \<Longrightarrow> fbyte t ip j = fbyte s ip j"
    "pos_ok p \<Longrightarrow> ptr t ip p = ptr s ip p"
proof -
  let ?b = "IBLOCK (i_inum (icache s ip')) (sb s)"
  note T = updatedD [OF t]
  have fr: "tx_frame s t" using T by simp
  have ib: "?b \<in> inode_blocks s"
    by (rule IBLOCK_inode [OF i])
  have v: "bview t c = bview s c" if "c \<noteq> ?b" for c
    using T that by (simp add: inode_write_def Let_def)
  have nb: "?b \<notin> bitmap_blocks s" "?b \<noteq> 1"
    using s(1) ib by (auto simp: fs_geo_def tx_block_def)
  have nf: "ptr s ip r \<noteq> ?b" if "pos_ok r" "ptr s ip r \<noteq> 0" for r
    using map_okD(3) [OF s(2) that] not_meta [of s "ptr s ip r"] ib by auto
  note w = block_write [OF s fr v nb nf]
  show "fs_geo t" "map_ok t ip" "nfree t = nfree s"
    by (rule w; assumption)+
  have pt: "ptr t ip p = ptr s ip p" if "pos_ok p" for p
    by (rule w(4)) (use that in auto)
  then show "pos_ok p \<Longrightarrow> ptr t ip p = ptr s ip p" .
  show "fbyte t ip j = fbyte s ip j" if "j < MAXFILE * BSIZE"
  proof -
    have "pos_ok (pos_of (j div BSIZE))"
      by (rule pos_of_ok) (use that in \<open>simp add: less_mult_imp_div_less\<close>)
    then show ?thesis
      using pt nf v by (simp add: fbyte_def Let_def)
  qed
qed

text \<open>An update of a cached inode that keeps its addresses keeps the file.\<close>

lemma upd_inode_file:
  assumes f: "\<And>x. i_addrs (f x) = i_addrs x"
  shows "ptr (upd_inode ip f s) ip' p = ptr s ip' p" "map_ok (upd_inode ip f s) ip' = map_ok s ip'"
    "nfree (upd_inode ip f s) = nfree s" "fbyte (upd_inode ip f s) ip' j = fbyte s ip' j"
proof -
  show p: "ptr (upd_inode ip f s) ip' p = ptr s ip' p" for p
    by (cases p) (auto simp: ptr.simps entry_def f)
  show "map_ok (upd_inode ip f s) ip' = map_ok s ip'" "nfree (upd_inode ip f s) = nfree s"
    "fbyte (upd_inode ip f s) ip' j = fbyte s ip' j"
    by (simp_all add: map_ok_def nfree_def fbyte_def Let_def p)
qed

lemma readi_returns:
  assumes "read_ready ip s" "i_type (icache s ip) \<noteq> T_DEV" "off \<le> i_size (icache s ip)" "unat off + unat n < 2 ^ 32"
    and m: "m = min (unat n) (unat (i_size (icache s ip)) - unat off)"
  shows "\<exists>d t. readi dv ip dst off n s = Done ((sint (of_nat m :: u32), d), t) \<and> bview t = bview s
    \<and> icache t = icache s \<and> heldb t = {} \<and> (\<forall>i. d i = (if i < m then fbyte s ip (unat off + i) else dst i))"
proof -
  let ?z = "i_size (icache s ip)"
  have u: "unat (off + n) = unat off + unat n"
    using assms(4) by (simp add: unat_word_ariths)
  then have nw: "\<not> off + n < off" "\<not> off > i_size (icache s ip)"
    using assms(3) by (simp_all add: word_less_nat_alt word_le_nat_alt)
  let ?n = "if off + n > ?z then ?z - off else n"
  have un: "unat ?n = m"
    using assms(3) u by (simp add: m unat_sub word_less_nat_alt word_le_nat_alt)
  then have nm: "?n = of_nat m"
    by (simp add: word_unat_eq_iff flip: un) 
  have "unat off + (unat ?n - unat (0 :: u32)) \<le> unat ?z"
    unfolding un using assms(3) m by (simp add: word_le_nat_alt)
  then obtain d t where t: "readi_loop ip dst 0 ?n off s = Done (d, t)" "only_read s t"
      "\<forall>i. d i = (if unat (0 :: u32) \<le> i \<and> i < unat ?n then fbyte s ip (unat off + (i - unat (0 :: u32))) else dst i)"
    using readi_loop_spec [OF assms(1), of 0 ?n off dst] by (auto simp: returns_def)
  have "readi dv ip dst off n s = Done ((sint (of_nat m :: u32), d), t)"
    using assms(2) nw t(1) unfolding readi_def Let_def nm by simp
  moreover have "bview t = bview s" "heldb t = {}" "icache t = icache s"
    using t(2) assms(1) bc_frame_sels(11) [of s t] by (simp_all add: only_read_def read_ready_def bc_frame_sels)
  ultimately show ?thesis
    using t(3) unfolding un by auto
qed

text \<open>Every block below the size of the file exists.\<close>

definition sized :: "kst \<Rightarrow> nat \<Rightarrow> bool" where
  "sized s ip \<longleftrightarrow> (\<forall>bn. bn * BSIZE < unat (i_size (icache s ip)) \<longrightarrow> ptr s ip (pos_of bn) \<noteq> 0)"

lemma writei_returns:
  assumes r: "map_ready (k + 9 * j + 1) ip s" and free: "3 * j \<le> nfree s"
    and i: "i_type (icache s ip) \<noteq> T_DEV" "i_inum (icache s ip) < sb_ninodes (sb s)"
    and b: "off \<le> i_size (icache s ip)" "unat off + unat n \<le> MAXFILE * BSIZE" "unat off mod BSIZE + unat n \<le> j * BSIZE"
    and sz: "sized s ip" "unat (i_size (icache s ip)) \<le> MAXFILE * BSIZE"
  shows "\<exists>t. writei dv ip src off n s = Done (sint n, t) \<and> map_ready k ip t \<and> sized t ip
    \<and> i_type (icache t ip) = i_type (icache s ip) \<and> unat (i_size (icache t ip)) = max (unat (i_size (icache s ip))) (unat off + unat n)
    \<and> (\<forall>x < MAXFILE * BSIZE. fbyte t ip x
        = (if unat off \<le> x \<and> x < unat off + unat n then src (x - unat off) else fbyte s ip x))"
proof -
  have u: "unat (off + n) = unat off + unat n"
    using b(2) by (simp add: unat_word_ariths)
  then have g: "\<not> off > i_size (icache s ip)" "\<not> off + n < off" "\<not> off + n > of_nat (MAXFILE * BSIZE)"
    using b(1,2) by (simp_all add: word_less_nat_alt word_le_nat_alt)
  have r': "map_ready (Suc k + 9 * j) ip s"
    using r by simp
  obtain o' t where t: "writei_loop ip src 0 n off s = Done (o', t)" "write_spec ip src (unat (0 :: u32)) (unat n) (unat off) (Suc k) s (o', t)"
    using writei_loop_spec [OF r' free, of 0 n off src] b by (auto simp: returns_def)
  then have T: "unat o' = unat off + unat n" "tx_room (Suc k) t" "written ip s t"
      "\<And>x. x < MAXFILE * BSIZE \<Longrightarrow> fbyte t ip x = (if unat off \<le> x \<and> x < unat off + unat n then src (x - unat off) else fbyte s ip x)"
      "\<And>x. unat off \<le> x \<Longrightarrow> x < unat off + unat n \<Longrightarrow> ptr t ip (pos_of (x div BSIZE)) \<noteq> 0"
    by (simp_all add: write_spec_def)
  note W = writtenD [OF T(3)] and fr = only_addrs_frame [OF writtenD(4) [OF T(3)]]
  have s: "heldb s = {}" "i_dev (icache s ip) = 1"
    using r by (simp_all add: map_ready_def)
  have ex: "ptr t ip (pos_of bn) \<noteq> 0"
    if "bn * BSIZE < max (unat (i_size (icache s ip))) (unat off + unat n)" for bn
  proof (cases "bn * BSIZE < unat (i_size (icache s ip))")
    case True
    then have "ptr s ip (pos_of bn) \<noteq> 0" "bn < MAXFILE"
      using sz by (auto simp: sized_def)
    then show ?thesis
      using W(5) [OF pos_of_ok] by simp
  next
    case False
    then show ?thesis
      using T(5) [of "bn * BSIZE"] that b(1) by (simp add: word_le_nat_alt)
  qed
  have ty: "i_type (icache t ip) = i_type (icache s ip)"
    using W(4) by (auto simp: only_addrs_def)
  show ?thesis
  proof (cases "n > 0 \<and> o' > i_size (icache t ip)")
    case False
    then have "writei dv ip src off n s = Done (sint n, t)"
      using i g t(1) False by (auto simp: writei_def)
    moreover have "map_ready k ip t"
      using W s fr tx.inv_mono [OF _ T(2), of k] by (simp add: map_ready_def)
    moreover have "unat (i_size (icache s ip)) = max (unat (i_size (icache s ip))) (unat off + unat n)"
      using False fr(8) b(1) T(1) by (auto simp: word_less_nat_alt word_le_nat_alt not_less)
    ultimately show ?thesis
      using T(4) fr(8) ty ex by (intro exI [of _ t]) (simp add: sized_def)
  next
    case True
    let ?t = "upd_inode ip (\<lambda>x. x\<lparr>i_size := o'\<rparr>) t"
    have inum: "i_inum (icache ?t ip) < sb_ninodes (sb ?t)"
      using i(2) fr by simp
    obtain v where v: "iupdate ip ?t = Done v" "updated (inode_write ?t ip) k ?t v"
      using iupdate_spec [of k ?t ip] T(2) W s fr inum by (auto simp: returns_def)
    note us = upd_inode_file [of "\<lambda>x. x\<lparr>i_size := o'\<rparr>", simplified]
    have gt: "fs_geo ?t" "map_ok ?t ip"
      using W us(2) by simp_all
    note iu = inode_update_file [OF gt v(2) inum]
    note V = updatedD [OF v(2)]
    have ic: "icache v = icache ?t"
      by (rule tx_frame_sels [OF V(4)])
    have "writei dv ip src off n s = Done (sint n, v)"
      using i g t(1) True v(1) by (simp add: writei_def)
    moreover have "map_ready k ip v"
      using iu(1,2) V(1,3) W s fr by (simp add: map_ready_def ic)
    moreover have "unat (i_size (icache v ip)) = max (unat (i_size (icache s ip))) (unat off + unat n)"
      using True fr(8) T(1) by (auto simp: word_less_nat_alt ic)
    moreover have "sized v ip"
      unfolding sized_def calculation(3)
    proof (intro allI impI)
      fix bn
      assume bn: "bn * BSIZE < max (unat (i_size (icache s ip))) (unat off + unat n)"
      then have "bn < MAXFILE"
        using sz(2) b(2) by linarith
      then show "ptr v ip (pos_of bn) \<noteq> 0"
        using iu(5) [OF pos_of_ok] ex [OF bn] us(1) by simp
    qed
    ultimately show ?thesis
      using T(4) iu(4) us(4) ty by (intro exI [of _ v]) (simp add: ic)
  qed
qed


text \<open>A writer of the file can read it.\<close>

lemma map_ready_read:
  assumes "map_ready 1 ip s" "sized s ip" "unat (i_size (icache s ip)) \<le> MAXFILE * BSIZE"
  shows "read_ready ip s"
proof -
  have s: "tx_room 1 s" "fs_geo s" "heldb s = {}" "map_ok s ip" "i_dev (icache s ip) = 1"
    using assms(1) by (simp_all add: map_ready_def)
  then have l: "bc_inv s" "dirtyb s = set (logged s)" "lh_n s + 1 < 30" "0 \<le> lh_n s" "1 < disksize s"
    by (auto simp: tx_room_def log_inv_def trans_ok_def log_geo_def)
  have "card (dirtyb s) \<le> nat (lh_n s)"
    using card_length [of "logged s"] unfolding l(2) by (simp add: logged_def)
  then have "cache_room 1 s"
    using l by (simp add: cache_room_def)
  moreover have "ptr s ip p < disksize s" if "pos_ok p" for p
  proof (cases "ptr s ip p = 0")
    case False
    then show ?thesis
      using map_okD(1) [OF s(4) that] s(2) by (simp add: fs_geo_def word_less_nat_alt)
  qed (use l(5) in \<open>simp add: word_less_nat_alt\<close>)
  moreover have "bn < MAXFILE" if "bn * BSIZE < unat (i_size (icache s ip))" for bn
    using that assms(3) by linarith
  ultimately show ?thesis
    using s assms(2) by (simp add: read_ready_def sized_def)
qed

end
