(* ===== verification/FsSpec.thy ===== *)
theory FsSpec
  imports FsData
begin

text \<open>
  The properties of the file system's block allocator, inodes and file contents (\<open>fs.c\<close>), and a
  concrete file system at which they are applied.
\<close>

subsection \<open>A file system for the witnesses\<close>

text \<open>
  A disk of 100 blocks as \<open>mkfs\<close> lays it out: log of 20 blocks from 2, one inode block 30, one bitmap
  block 40 with the first 50 blocks in use, and a file in block 45 with inode number 3.
\<close>

definition fs_sb :: superblock where
  "fs_sb = \<lparr>sb_size = 100, sb_nblocks = 50, sb_ninodes = 8, sb_nlog = 20, sb_logstart = 2,
     sb_inodestart = 30, sb_bmapstart = 40\<rparr>"

definition fs_disk :: "u32 \<Rightarrow> block" where
  "fs_disk b = (if b = 1 then put32 0 100 (put32 4 50 (put32 8 8 (put32 12 20 (put32 16 2 (put32 20 30
       (put32 24 40 zero_block))))))
     else if b = 40 then (\<lambda>i. if i < 6 then 255 else if i = 6 then 3 else 0)
     else if b = 45 then (\<lambda>i. of_nat i)
     else zero_block)"

definition fs_inode :: inode where
  "fs_inode = zero_inode\<lparr>i_dev := 1, i_inum := 3, i_ref := 1, i_valid := True, i_type := T_FILE, i_nlink := 1,
     i_size := 10, i_addrs := (\<lambda>_. 0)(0 := 45)\<rparr>"

definition demo_fs :: kst where
  "demo_fs = (binit (boot_state 1 100 fs_disk))\<lparr>log_start := 2, log_size := 20, log_outstanding := 1,
     log_dev := 1, sb := fs_sb, icache := (\<lambda>_. zero_inode)(0 := fs_inode)\<rparr>"

lemma fs_log_geo: "log_geo 2 20 100 (fs_disk 1)"
  by (simp add: log_geo_def log_fits_def demo_region fs_disk_def decode_sb_def getput_simps)

lemma demo_fs_sels: "bc_inv demo_fs" "heldb demo_fs = {}" "dirtyb demo_fs = {}" "bview demo_fs = fs_disk"
  "memdisk demo_fs = fs_disk" "disksize demo_fs = 100" "log_start demo_fs = 2" "log_size demo_fs = 20"
  "log_outstanding demo_fs = 1" "log_dev demo_fs = 1" "lh_n demo_fs = 0" "sb demo_fs = fs_sb"
  "icache demo_fs = (\<lambda>_. zero_inode)(0 := fs_inode)" "curpid demo_fs = 1"
proof -
  let ?i = "binit (boot_state 1 100 fs_disk)"
  have i: "bc_inv ?i" "heldb ?i = {}" "dirtyb ?i = {}" "bview ?i = fs_disk" "memdisk ?i = fs_disk"
    "bc_frame (boot_state 1 100 fs_disk) ?i"
    using binit_ok [of 1 100 fs_disk] by blast+
  have e: "bufs demo_fs = bufs ?i" "bnext demo_fs = bnext ?i" "bprev demo_fs = bprev ?i"
    "memdisk demo_fs = memdisk ?i" "disksize demo_fs = disksize ?i"
    by (simp_all add: demo_fs_def)
  show "bc_inv demo_fs" "heldb demo_fs = {}" "dirtyb demo_fs = {}" "bview demo_fs = fs_disk"
    using i(1-4) by (simp_all add: bc_same [OF e])
  show "memdisk demo_fs = fs_disk"
    using i(5) e by simp
  show "disksize demo_fs = 100" "lh_n demo_fs = 0" "curpid demo_fs = 1"
    by (simp_all add: demo_fs_def bc_frame_sels [OF i(6)]) (simp_all add: boot_state_def)
  show "log_start demo_fs = 2" "log_size demo_fs = 20" "log_outstanding demo_fs = 1" "log_dev demo_fs = 1"
    "sb demo_fs = fs_sb" "icache demo_fs = (\<lambda>_. zero_inode)(0 := fs_inode)"
    by (simp_all add: demo_fs_def)
qed

lemma fs_sb_sels: "sb_size fs_sb = 100" "sb_ninodes fs_sb = 8" "sb_inodestart fs_sb = 30" "sb_bmapstart fs_sb = 40"
  by (simp_all add: fs_sb_def)

lemma demo_fs_room: "k < 20 \<Longrightarrow> tx_room k demo_fs"
  using fs_log_geo by (simp add: tx_room_def log_inv_def trans_ok_def demo_fs_sels logged_def log_geo_def)
    (simp add: fs_disk_def zero_block_def get32_def)

lemma demo_blocks: "bitmap_blocks demo_fs = {40}" "inode_blocks demo_fs = {30}"
  "meta_block demo_fs b \<longleftrightarrow> b = 0 \<or> b = 1 \<or> 2 \<le> unat b \<and> unat b < 22 \<or> b = 40 \<or> b = 30"
proof -
  show 1: "bitmap_blocks demo_fs = {40}"
    by (auto simp: bitmap_blocks_def demo_fs_sels fs_sb_sels BBLOCK_def image_iff) (rule exI [of _ 0], simp)
  have "i div 8 = 0" if "i < 8" for i :: u32
    using that by (simp add: word_unat_eq_iff unat_div_distrib word_less_nat_alt)
  then show 2: "inode_blocks demo_fs = {30}"
    by (auto simp: inode_blocks_def demo_fs_sels fs_sb_sels IBLOCK_def image_iff) (rule exI [of _ 0], simp)
  show "meta_block demo_fs b \<longleftrightarrow> b = 0 \<or> b = 1 \<or> 2 \<le> unat b \<and> unat b < 22 \<or> b = 40 \<or> b = 30"
    by (simp add: meta_block_def 1 2 demo_fs_sels demo_region)
qed

lemma demo_bits: "bmap_bit (\<lambda>i. if i < 6 then 255 else if i = 6 then 3 else 0) n \<longleftrightarrow> n < 50"
proof -
  have bits: "bit (255 :: byte) k \<longleftrightarrow> k < 8" "bit (3 :: byte) k \<longleftrightarrow> k < 2" for k
  proof -
    have e: "(255 :: byte) = mask 8" "(3 :: byte) = mask 2"
      by (simp_all add: mask_eq_exp_minus_1)
    show "bit (255 :: byte) k \<longleftrightarrow> k < 8" "bit (3 :: byte) k \<longleftrightarrow> k < 2"
      unfolding e by (auto simp: bit_mask_iff)
  qed
  have n: "n = 8 * (n div 8) + n mod 8" "n mod 8 < 8"
    by simp_all
  have "n < 48" if "n div 8 < 6"
    using n that by linarith
  moreover have "n = 48 + n mod 8" if "n div 8 = 6"
    using n(1) that by simp
  moreover have "56 \<le> n" if "6 < n div 8"
    using n(1) that by linarith
  ultimately consider "n div 8 < 6" "n < 48" | "n div 8 = 6" "n = 48 + n mod 8" | "6 < n div 8" "56 \<le> n"
    using linorder_less_linear [of "n div 8" 6] by blast
  then show ?thesis
  proof cases
    case 1
    then show ?thesis
      using n(2) bits(1) [of "n mod 8"] by (simp add: bmap_bit_iff)
  next
    case 2
    have "n mod 8 < 2 \<longleftrightarrow> n < 50"
      using 2(2) by linarith
    then show ?thesis
      using 2(1) bits(2) [of "n mod 8"] by (simp add: bmap_bit_iff)
  next
    case 3
    then show ?thesis
      by (simp add: bmap_bit_iff)
  qed
qed

lemma demo_in_use: "b < 100 \<Longrightarrow> in_use demo_fs b \<longleftrightarrow> unat b < 50"
  by (simp add: in_use_def demo_fs_sels fs_sb_sels BBLOCK_def fs_disk_def demo_bits word_less_nat_alt)

lemma demo_fs_geo: "fs_geo demo_fs"
proof -
  have "decode_sb (fs_disk 1) = fs_sb"
    by (simp add: decode_sb_def fs_disk_def fs_sb_def getput_simps)
  moreover have "tx_block demo_fs 40" "tx_block demo_fs 30"
    by (simp_all add: tx_block_def demo_fs_sels demo_region)
  moreover have "\<forall>b < 100. meta_block demo_fs b \<longrightarrow> in_use demo_fs b"
    by (auto simp: demo_in_use demo_blocks)
  ultimately show ?thesis
    by (simp add: fs_geo_def demo_fs_sels fs_sb_sels demo_blocks)
qed

lemma demo_entry: "entry demo_fs 0 i = 0"
  by (simp add: entry_def demo_fs_sels fs_disk_def zero_block_def get32_def)

lemma demo_ptr: "pos_ok p \<Longrightarrow> ptr demo_fs 0 p = (if p = Direct 0 then 45 else 0)"
  by (induction p rule: pos_induct)
    (case_tac p; simp add: ptr.simps demo_entry demo_fs_sels fs_inode_def)

lemma demo_fs_map: "map_ok demo_fs 0"
  by (auto simp: map_ok_def demo_ptr demo_fs_sels fs_sb_sels demo_in_use demo_blocks split: if_splits)

lemma demo_fs_ready: "k < 20 \<Longrightarrow> map_ready k 0 demo_fs"
  by (simp add: map_ready_def demo_fs_room demo_fs_geo demo_fs_map demo_fs_sels) (simp add: fs_inode_def)

lemma demo_nfree: "10 \<le> nfree demo_fs"
proof -
  have "of_nat ` {50..<60} \<subseteq> {c. c < sb_size (sb demo_fs) \<and> \<not> in_use demo_fs c}"
    by (auto simp: demo_fs_sels fs_sb_sels demo_in_use word_less_nat_alt unat_of_nat)
  moreover have "card ((of_nat :: nat \<Rightarrow> u32) ` {50..<60}) = 10"
    by (subst card_image) (auto simp: inj_on_def word_unat_eq_iff unat_of_nat)
  ultimately show ?thesis
    unfolding nfree_def by (metis (no_types, lifting) card_mono finite)
qed

subsection \<open>The block allocator\<close>

text \<open>
  C8. Inside a transaction with room for two blocks, \<open>balloc\<close> returns the lowest-numbered block that
  is not in use whenever there is one: it is not a meta data block, it is zeroed, it is in use
  afterwards, every other block keeps its bit, and every block outside the bitmap its contents.
\<close>

theorem balloc_allocates:
  assumes "alloc_ready (Suc (Suc k)) s" "\<exists>c < sb_size (sb s). \<not> in_use s c"
  shows "\<exists>a t. balloc 1 s = Done (a, t) \<and> a < sb_size (sb s) \<and> \<not> in_use s a \<and> (\<forall>c<a. in_use s c)
    \<and> \<not> meta_block s a \<and> (\<forall>i < BSIZE. bview t a i = 0) \<and> (\<forall>c < sb_size (sb s). in_use t c \<longleftrightarrow> c = a \<or> in_use s c)
    \<and> (\<forall>c. c \<noteq> a \<and> c \<notin> bitmap_blocks s \<longrightarrow> bview t c = bview s c) \<and> fs_geo t \<and> tx_room k t"
proof -
  obtain a t where t: "balloc 1 s = Done (a, t)" "alloc_spec k s (a, t)"
    using balloc_spec [OF assms] by (auto simp: returns_def)
  note f = alloc_facts [OF alloc_ready_sb [OF assms(1)] t(2)]
  have "\<forall>c<a. in_use s c"
    using t(2) by (simp add: alloc_spec_def)
  then show ?thesis
    using t(1) f(1-3,6,10) f(13) f(14) f(15) by (intro exI [of _ a] exI [of _ t]) (simp add: fill_bytes_def)
qed

lemma demo_alloc_ready: "k < 20 \<Longrightarrow> 0 < k \<Longrightarrow> alloc_ready k demo_fs"
  by (simp add: alloc_ready_def demo_fs_room demo_fs_geo demo_fs_sels)

lemma demo_free_ex: "\<exists>c < sb_size (sb demo_fs). \<not> in_use demo_fs c"
  by (intro exI [of _ 50]) (simp add: demo_fs_sels fs_sb_sels demo_in_use)

text \<open>C8 applied: the first free block of the example disk is 50.\<close>

theorem balloc_allocates_witness:
  "\<exists>t. balloc 1 demo_fs = Done (50, t) \<and> in_use t 50 \<and> \<not> in_use t 51"
proof -
  have r: "alloc_ready (Suc (Suc 1)) demo_fs"
    by (rule demo_alloc_ready) simp_all
  obtain a t where t: "balloc 1 demo_fs = Done (a, t)" "a < 100" "\<not> in_use demo_fs a" "\<forall>c<a. in_use demo_fs c"
      "\<forall>c < 100. in_use t c \<longleftrightarrow> c = a \<or> in_use demo_fs c"
    using balloc_allocates [OF r demo_free_ex] by (auto simp: demo_fs_sels fs_sb_sels)
  have "\<not> a < 50" "\<not> 50 < a"
    using t(2,3) demo_in_use [of a] spec [OF t(4), of 50] demo_in_use [of 50] by (auto simp: word_less_nat_alt)
  then have "a = 50" by simp
  then show ?thesis
    using t(1,5) by (simp add: demo_in_use)
qed

text \<open>
  C9. \<open>bfree\<close> of a data block that is in use clears its bit, keeps every other bit and every block
  outside the bitmap; of a block that is already free it panics.
\<close>

theorem bfree_frees:
  assumes "free_ready (Suc k) s" "b < sb_size (sb s)" "\<not> meta_block s b"
  shows "if in_use s b
    then \<exists>t. bfree 1 b s = Done t \<and> (\<forall>c < sb_size (sb s). in_use t c \<longleftrightarrow> c \<noteq> b \<and> in_use s c)
      \<and> (\<forall>c. c \<notin> bitmap_blocks s \<longrightarrow> bview t c = bview s c) \<and> fs_geo t \<and> tx_room k t
    else bfree 1 b s = Panic ''freeing free block''"
proof (cases "in_use s b")
  case True
  then obtain t where t: "bfree 1 b s = Done t" "updated (free_write s b) k s t"
    using bfree_spec [OF assms(1,2)] by (auto simp: returns_def)
  have geo: "fs_geo s"
    using assms(1) by (simp add: free_ready_def)
  note f = free_facts [OF geo assms(2,3) t(2)]
  show ?thesis
    using True t(1) updatedD(1) [OF t(2)] f(1,4,5) by auto
next
  case False
  then show ?thesis
    using bfree_spec [OF assms(1,2)] by simp
qed

text \<open>C9 applied: freeing block 45 works, freeing block 60 panics.\<close>

theorem bfree_frees_witness:
  "(\<exists>t. bfree 1 45 demo_fs = Done t \<and> \<not> in_use t 45) \<and> bfree 1 60 demo_fs = Panic ''freeing free block''"
proof
  have r: "free_ready (Suc 1) demo_fs"
    by (simp add: free_ready_def demo_fs_room demo_fs_geo demo_fs_sels)
  show "\<exists>t. bfree 1 45 demo_fs = Done t \<and> \<not> in_use t 45"
    using bfree_frees [OF r, of 45] by (auto simp: demo_fs_sels fs_sb_sels demo_in_use demo_blocks)
  show "bfree 1 60 demo_fs = Panic ''freeing free block''"
    using bfree_frees [OF r, of 60] by (simp add: demo_fs_sels fs_sb_sels demo_in_use demo_blocks)
qed

subsection \<open>File contents\<close>

text \<open>
  C6. Reading a file gives its contents: \<open>readi\<close> of an ordinary inode returns the number of bytes
  that lie below the file's size, copies exactly those bytes of the file, leaves the rest of the
  buffer, and changes nothing the kernel sees.
\<close>

theorem readi_reads:
  assumes "read_ready ip s" "i_type (icache s ip) \<noteq> T_DEV" "off \<le> i_size (icache s ip)" "unat off + unat n < 2 ^ 32"
    and m: "m = min (unat n) (unat (i_size (icache s ip)) - unat off)"
  shows "\<exists>d t. readi dv ip dst off n s = Done ((sint (of_nat m :: u32), d), t) \<and> bview t = bview s
    \<and> icache t = icache s \<and> heldb t = {} \<and> (\<forall>i. d i = (if i < m then fbyte s ip (unat off + i) else dst i))"
  by (rule readi_returns [OF assms])

text \<open>A machine without character devices.\<close>

definition no_dev :: devsw where
  "no_dev = (\<lambda>_. \<lparr>dv_read = None, dv_write = None\<rparr>)"

lemma demo_sized: "sized demo_fs 0" "unat (i_size (icache demo_fs 0)) = 10"
  by (auto simp: sized_def demo_fs_sels fs_inode_def demo_ptr pos_of_def)

lemma demo_read_ready: "read_ready 0 demo_fs"
  by (rule map_ready_read) (simp_all add: demo_fs_ready demo_sized)

lemma demo_fbyte: "i < 512 \<Longrightarrow> fbyte demo_fs 0 i = of_nat i"
  by (simp add: fbyte_def demo_ptr pos_of_def demo_fs_sels fs_disk_def)

lemma fs_inode_sels: "i_type fs_inode = 2" "i_size fs_inode = 10" "i_inum fs_inode = 3"
  by (simp_all add: fs_inode_def)

lemma demo_inode_sels: "i_type (icache demo_fs 0) = 2" "i_size (icache demo_fs 0) = 10" "i_inum (icache demo_fs 0) = 3"
  by (simp_all add: demo_fs_sels fs_inode_def)

text \<open>C6 applied: reading 20 bytes from offset 4 of the 10-byte file gives its last 6 bytes.\<close>

theorem readi_reads_witness:
  "\<exists>d t. readi no_dev 0 (\<lambda>_. 99) 4 20 demo_fs = Done ((6, d), t) \<and> d 0 = 4 \<and> d 5 = 9 \<and> d 6 = 99"
proof -
  obtain d t where "readi no_dev 0 (\<lambda>_. 99) 4 20 demo_fs = Done ((sint (of_nat 6 :: u32), d), t)"
      "\<forall>i. d i = (if i < 6 then fbyte demo_fs 0 (unat (4 :: u32) + i) else 99)"
    using readi_reads [OF demo_read_ready, of 4 20 6 no_dev "\<lambda>_. 99"] by (auto simp: demo_inode_sels)
  then show ?thesis
    by (intro exI [of _ d] exI [of _ t]) (simp add: demo_fbyte)
qed

text \<open>
  C5. Writing a file changes exactly the written range: with room in the transaction and enough free
  blocks, \<open>writei\<close> returns the number of bytes, the file reads as before outside the range and as the
  source inside it, its size grows to the end of the range if that is beyond it, all its blocks
  exist, and no block is shared between two places of the file or with the meta data.
\<close>

theorem writei_writes:
  assumes r: "map_ready (k + 9 * j + 1) ip s" and free: "3 * j \<le> nfree s"
    and i: "i_type (icache s ip) \<noteq> T_DEV" "i_inum (icache s ip) < sb_ninodes (sb s)"
    and b: "off \<le> i_size (icache s ip)" "unat off + unat n \<le> MAXFILE * BSIZE" "unat off mod BSIZE + unat n \<le> j * BSIZE"
    and sz: "sized s ip" "unat (i_size (icache s ip)) \<le> MAXFILE * BSIZE"
  shows "\<exists>t. writei dv ip src off n s = Done (sint n, t) \<and> map_ready k ip t \<and> sized t ip
    \<and> i_type (icache t ip) = i_type (icache s ip)
    \<and> unat (i_size (icache t ip)) = max (unat (i_size (icache s ip))) (unat off + unat n)
    \<and> (\<forall>x < MAXFILE * BSIZE. fbyte t ip x
        = (if unat off \<le> x \<and> x < unat off + unat n then src (x - unat off) else fbyte s ip x))"
  by (rule writei_returns [OF assms])

text \<open>C5 applied: five bytes appended to the 10-byte file.\<close>

theorem writei_writes_witness:
  "\<exists>t. writei no_dev 0 (\<lambda>_. 7) 10 5 demo_fs = Done (5, t) \<and> unat (i_size (icache t 0)) = 15
    \<and> fbyte t 0 9 = 9 \<and> fbyte t 0 10 = 7 \<and> fbyte t 0 14 = 7 \<and> fbyte t 0 15 = 15"
proof -
  have r: "map_ready (1 + 9 * 1 + 1) 0 demo_fs"
    by (rule demo_fs_ready) simp
  have f: "3 * 1 \<le> nfree demo_fs"
    using demo_nfree by simp
  obtain t where "writei no_dev 0 (\<lambda>_. 7) 10 5 demo_fs = Done (sint (5 :: u32), t)"
      "unat (i_size (icache t 0)) = max 10 (10 + 5)"
      "\<forall>x < MAXFILE * BSIZE. fbyte t 0 x = (if 10 \<le> x \<and> x < 10 + 5 then 7 else fbyte demo_fs 0 x)"
    using writei_writes [OF r f, of 10 5 no_dev "\<lambda>_. 7"] by (auto simp: fs_inode_sels demo_sized demo_fs_sels fs_sb_sels)
  then show ?thesis
    by (intro exI [of _ t]) (simp add: demo_fbyte)
qed

text \<open>
  C7. What is written is read back: after \<open>writei\<close> of a range, \<open>readi\<close> of the same range returns
  the same number of bytes and exactly the bytes that were written.
\<close>

theorem write_read_back:
  assumes r: "map_ready (9 * j + 2) ip s" "3 * j \<le> nfree s"
    and i: "i_type (icache s ip) \<noteq> T_DEV" "i_inum (icache s ip) < sb_ninodes (sb s)"
    and b: "off \<le> i_size (icache s ip)" "unat off + unat n \<le> MAXFILE * BSIZE" "unat off mod BSIZE + unat n \<le> j * BSIZE"
    and sz: "sized s ip" "unat (i_size (icache s ip)) \<le> MAXFILE * BSIZE"
  shows "\<exists>t d u. writei dv ip src off n s = Done (sint n, t) \<and> readi dv ip dst off n t = Done ((sint n, d), u)
    \<and> (\<forall>i < unat n. d i = src i)"
proof -
  have r': "map_ready (1 + 9 * j + 1) ip s"
    using r by (simp add: numeral_2_eq_2)
  obtain t where t: "writei dv ip src off n s = Done (sint n, t)" "map_ready 1 ip t" "sized t ip"
      "i_type (icache t ip) = i_type (icache s ip)"
      "unat (i_size (icache t ip)) = max (unat (i_size (icache s ip))) (unat off + unat n)"
      "\<forall>x < MAXFILE * BSIZE. fbyte t ip x = (if unat off \<le> x \<and> x < unat off + unat n then src (x - unat off) else fbyte s ip x)"
    using writei_returns [OF r' r(2) i b sz, of dv src] by blast
  have rr: "read_ready ip t"
    by (rule map_ready_read [OF t(2,3)]) (use t(5) b(2) sz(2) in simp)
  have m: "unat n = min (unat n) (unat (i_size (icache t ip)) - unat off)"
    using t(5) by simp
  have le: "off \<le> i_size (icache t ip)"
    using t(5) by (simp add: word_le_nat_alt)
  obtain d u where d: "readi dv ip dst off n t = Done ((sint (of_nat (unat n) :: u32), d), u)"
      "\<forall>i. d i = (if i < unat n then fbyte t ip (unat off + i) else dst i)"
    using readi_returns [OF rr _ le _ m, of dv dst] t(4) i(1) b(2) by auto
  have "\<forall>i < unat n. d i = src i"
    using d(2) t(6) b(2) by simp
  then show ?thesis
    using t(1) d(1) by simp
qed

text \<open>C7 applied to the example file.\<close>

theorem write_read_back_witness:
  "\<exists>t d u. writei no_dev 0 (\<lambda>_. 7) 10 5 demo_fs = Done (5, t) \<and> readi no_dev 0 (\<lambda>_. 0) 10 5 t = Done ((5, d), u)
    \<and> (\<forall>i < 5. d i = 7)"
proof -
  have r: "map_ready (9 * 1 + 2) 0 demo_fs"
    by (rule demo_fs_ready) simp
  have f: "3 * 1 \<le> nfree demo_fs"
    using demo_nfree by simp
  show ?thesis
    using write_read_back [OF r f, of 10 5 no_dev "\<lambda>_. 7" "\<lambda>_. 0"] by (auto simp: fs_inode_sels demo_sized demo_fs_sels fs_sb_sels)
qed

end
