(* ===== verification/Mkfs.thy ===== *)
theory Mkfs
  imports FsSpec
begin

text \<open>
  The builder of the disk image (\<open>mkfs.c\<close>), a program of the host. The image is a file: its sectors and its
  length in sectors. A failed assertion and the exit with an error message are \<open>Panic\<close>. The messages are left out.
  The structures of the disk are read and written at their byte offsets, as in \<open>Fs\<close>; the host is little-endian,
  where \<open>xshort\<close> and \<open>xint\<close> are the identity.
\<close>

abbreviation NINODES :: nat where "NINODES \<equiv> 200"

abbreviation nbitmap :: nat where "nbitmap \<equiv> FSSIZE div (BSIZE * 8) + 1"
abbreviation ninodeblocks :: nat where "ninodeblocks \<equiv> NINODES div IPB + 1"
abbreviation nlog :: nat where "nlog \<equiv> 30"
abbreviation nmeta :: nat where "nmeta \<equiv> 2 + nlog + ninodeblocks + nbitmap"

record mkfs_st =
  img :: "u32 \<Rightarrow> block"
  img_len :: nat
  freeinode :: u32
  freeblock :: u32

text \<open>The variable \<open>sb\<close>, as \<open>main\<close> sets it.\<close>

definition mk_sb :: superblock where
  "mk_sb = \<lparr>sb_size = of_nat FSSIZE, sb_nblocks = of_nat (FSSIZE - nmeta), sb_ninodes = of_nat NINODES,
     sb_nlog = of_nat nlog, sb_logstart = 2, sb_inodestart = of_nat (2 + nlog),
     sb_bmapstart = of_nat (2 + nlog + ninodeblocks)\<rparr>"

text \<open>The offset \<open>sec * BSIZE\<close> is computed in 32 bits.\<close>

definition sect :: "u32 \<Rightarrow> u32" where
  "sect sec = (sec * of_nat BSIZE) div of_nat BSIZE"

definition wsect :: "u32 \<Rightarrow> block \<Rightarrow> mkfs_st \<Rightarrow> mkfs_st" where
  "wsect sec buf s = s\<lparr>img := (img s)(sect sec := buf), img_len := max (img_len s) (unat (sect sec) + 1)\<rparr>"

definition rsect :: "u32 \<Rightarrow> mkfs_st \<Rightarrow> block outcome" where
  "rsect sec s = (if unat (sect sec) < img_len s then Done (img s (sect sec)) else Panic ''read'')"

definition winode :: "u32 \<Rightarrow> inode \<Rightarrow> mkfs_st \<Rightarrow> mkfs_st outcome" where
  "winode inum x s =
    (let bn = IBLOCK inum mk_sb in
     bindO (rsect bn s) (\<lambda>buf. Done (wsect bn (store_dinode x (dinode_off inum) buf) s)))"

definition rinode :: "u32 \<Rightarrow> mkfs_st \<Rightarrow> inode outcome" where
  "rinode inum s = bindO (rsect (IBLOCK inum mk_sb) s) (\<lambda>buf. Done (load_dinode buf (dinode_off inum) zero_inode))"

definition mk_ialloc :: "u16 \<Rightarrow> mkfs_st \<Rightarrow> (u32 \<times> mkfs_st) outcome" where
  "mk_ialloc ty s =
    (let inum = freeinode s; s = s\<lparr>freeinode := freeinode s + 1\<rparr> in
     bindO (winode inum (zero_inode\<lparr>i_type := ty, i_nlink := 1, i_size := 0\<rparr>) s) (\<lambda>s. Done (inum, s)))"

definition new_block :: "mkfs_st \<Rightarrow> u32 \<times> mkfs_st" where
  "new_block s = (freeblock s, s\<lparr>freeblock := freeblock s + 1\<rparr>)"

text \<open>An entry of the inode's \<open>addrs\<close>, filled in when it is 0.\<close>

definition addr_or_new :: "nat \<Rightarrow> inode \<Rightarrow> mkfs_st \<Rightarrow> inode \<times> mkfs_st" where
  "addr_or_new k x s =
    (if i_addrs x k = 0 then let (b, s) = new_block s in (x\<lparr>i_addrs := (i_addrs x)(k := b)\<rparr>, s) else (x, s))"

text \<open>The block of \<open>iappend\<close> for file block \<open>fbn\<close>. The array \<open>indirect\<close> has \<open>NINDIRECT\<close> entries.\<close>

definition file_block :: "nat \<Rightarrow> inode \<Rightarrow> mkfs_st \<Rightarrow> ((u32 \<times> inode) \<times> mkfs_st) outcome" where
  "file_block fbn x s =
    (if fbn < NDIRECT then let (x, s) = addr_or_new fbn x s in Done ((i_addrs x fbn, x), s)
     else let (x, s) = addr_or_new NDIRECT x s; a = i_addrs x NDIRECT in
       bindO (rsect a s) (\<lambda>ind.
         if NINDIRECT \<le> fbn - NDIRECT then Undef
         else if get32 ind (4 * (fbn - NDIRECT)) = 0 then
           let (b, s) = new_block s in Done ((b, x), wsect a (put32 (4 * (fbn - NDIRECT)) b ind) s)
         else Done ((get32 ind (4 * (fbn - NDIRECT)), x), s)))"

text \<open>The bytes up to the end of the block.\<close>

definition room_in_block :: "u32 \<Rightarrow> nat" where
  "room_in_block off = unat ((off div of_nat BSIZE + 1) * of_nat BSIZE - off)"

lemma room_in_block: "room_in_block off = BSIZE - unat off mod BSIZE"
proof -
  have "(q + 1) * 512 - (q * 512 + r) = (512 - r :: u32)" for q r
    by (simp add: algebra_simps)
  from this [of "off div 512" "off mod 512"] have "(off div 512 + 1) * 512 - off = 512 - off mod 512"
    by (simp only: word_mod_div_equality)
  moreover have "unat (512 - off mod 512) = 512 - unat (off mod 512)"
    by (subst unat_sub) (simp_all add: word_le_nat_alt unat_mod_distrib less_imp_le)
  moreover have "unat (off mod 512) = unat off mod 512"
    by (simp add: unat_mod_distrib)
  ultimately show ?thesis
    unfolding room_in_block_def by (simp only: of_nat_numeral)
qed

function iappend_loop :: "inode \<Rightarrow> u32 \<Rightarrow> byte list \<Rightarrow> mkfs_st \<Rightarrow> ((inode \<times> u32) \<times> mkfs_st) outcome" where
  "iappend_loop x off p s =
    (if p = [] then Done ((x, off), s)
     else let fbn = unat (off div of_nat BSIZE) in
       if \<not> fbn < MAXFILE then Panic ''assert''
       else bindS (file_block fbn x s) (\<lambda>(b, x) s.
         let n1 = min (length p) (room_in_block off) in
         bindO (rsect b s) (\<lambda>buf.
           iappend_loop x (off + of_nat n1) (drop n1 p)
             (wsect b (copy_bytes n1 (\<lambda>i. p ! i) 0 (unat (off - of_nat (fbn * BSIZE))) buf) s))))"
  by pat_completeness auto
termination
  by (relation "measure (\<lambda>(x, off, p, s). length p)") (auto simp: room_in_block)

declare iappend_loop.simps [simp del]

definition iappend :: "u32 \<Rightarrow> byte list \<Rightarrow> mkfs_st \<Rightarrow> mkfs_st outcome" where
  "iappend inum p s =
    bindO (rinode inum s) (\<lambda>x.
    bindS (iappend_loop x (i_size x) p s) (\<lambda>(x, off) s.
    winode inum (x\<lparr>i_size := off\<rparr>) s))"

definition mk_bitmap :: "nat \<Rightarrow> block" where
  "mk_bitmap used = fold set_bmap_bit [0..<used] zero_block"

definition mk_balloc :: "u32 \<Rightarrow> mkfs_st \<Rightarrow> mkfs_st outcome" where
  "mk_balloc used s =
    (if \<not> sint used < int BSIZE * 8 then Panic ''assert''
     else Done (wsect (sb_bmapstart mk_sb) (mk_bitmap (nat (sint used))) s))"

text \<open>\<open>struct dirent\<close>: the inode number and the name, at most \<open>DIRSIZ\<close> characters, padded with zeros.\<close>

definition dirent_bytes :: "u32 \<Rightarrow> byte list \<Rightarrow> byte list" where
  "dirent_bytes inum name =
    [ucast inum, ucast (drop_bit 8 inum)] @ take DIRSIZ name @ replicate (DIRSIZ - length name) 0"

text \<open>A file on the command line: its name, and what the calls of \<open>read\<close> return, if it can be opened.\<close>

type_synonym host_file = "byte list \<times> byte list list option"

definition add_file :: "host_file \<Rightarrow> mkfs_st \<Rightarrow> mkfs_st outcome" where
  "add_file f s =
    (case f of (name, content) \<Rightarrow>
       if 47 \<in> set name then Panic ''assert''
       else case content of
         None \<Rightarrow> Panic ''open''
       | Some chunks \<Rightarrow>
           let name = (if take 1 name = [95] then tl name else name) in
           bindS (mk_ialloc T_FILE s) (\<lambda>inum s.
           bindO (iappend 1 (dirent_bytes inum name) s) (\<lambda>s.
           foldO (iappend inum) chunks s)))"

definition encode_sb :: "superblock \<Rightarrow> block" where
  "encode_sb x = put32 24 (sb_bmapstart x) (put32 20 (sb_inodestart x) (put32 16 (sb_logstart x) (put32 12 (sb_nlog x)
     (put32 8 (sb_ninodes x) (put32 4 (sb_nblocks x) (put32 0 (sb_size x) zero_block))))))"

text \<open>\<open>main\<close>, up to the files, and behind them.\<close>

definition mk_root :: "mkfs_st outcome" where
  "mk_root =
    (let s = \<lparr>img = (\<lambda>_. zero_block), img_len = 0, freeinode = 1, freeblock = of_nat nmeta\<rparr>;
         s = fold (\<lambda>i. wsect (of_nat i) zero_block) [0..<FSSIZE] s
     in bindS (mk_ialloc T_DIR (wsect 1 (encode_sb mk_sb) s)) (\<lambda>rootino s.
        if rootino \<noteq> ROOTINO then Panic ''assert''
        else bindO (iappend rootino (dirent_bytes rootino [46]) s) (\<lambda>s. iappend rootino (dirent_bytes rootino [46, 46]) s)))"

definition mk_end :: "mkfs_st \<Rightarrow> mkfs_st outcome" where
  "mk_end s =
    bindO (rinode ROOTINO s) (\<lambda>x.
    bindO (winode ROOTINO (x\<lparr>i_size := (i_size x div of_nat BSIZE + 1) * of_nat BSIZE\<rparr>) s) (\<lambda>s.
    mk_balloc (freeblock s) s))"

definition mkfs :: "host_file list \<Rightarrow> mkfs_st outcome" where
  "mkfs fs = bindO mk_root (\<lambda>s. bindO (foldO add_file fs s) mk_end)"

end
