(* ===== verification/MkfsSpec.thy ===== *)
theory MkfsSpec
  imports Mkfs
begin

text \<open>
  The image that \<open>mkfs\<close> builds: every file on the command line is in it with its name and its contents, and the
  free map and the super block describe it.
\<close>

subsection \<open>Files in the image\<close>

text \<open>\<open>mkfs\<close> fills the direct blocks and the indirect block.\<close>

abbreviation MAXBLOCKS :: nat where "MAXBLOCKS \<equiv> NDIRECT + NINDIRECT"

definition fptr :: "inode \<Rightarrow> (u32 \<Rightarrow> block) \<Rightarrow> nat \<Rightarrow> u32" where
  "fptr x im k = (if k < NDIRECT then i_addrs x k else if i_addrs x NDIRECT = 0 then 0
     else get32 (im (i_addrs x NDIRECT)) (4 * (k - NDIRECT)))"

definition file_blocks :: "inode \<Rightarrow> (u32 \<Rightarrow> block) \<Rightarrow> nat \<Rightarrow> u32 set" where
  "file_blocks x im n = fptr x im ` {..<n} \<union> (if NDIRECT < n then {i_addrs x NDIRECT} else {})"

text \<open>The inode maps its first \<open>n\<close> blocks, to different blocks below \<open>F\<close>.\<close>

definition imap_ok :: "u32 \<Rightarrow> inode \<Rightarrow> (u32 \<Rightarrow> block) \<Rightarrow> nat \<Rightarrow> bool" where
  "imap_ok F x im n \<longleftrightarrow> n \<le> MAXBLOCKS \<and> (\<forall>k<MAXBLOCKS. fptr x im k \<noteq> 0 \<longleftrightarrow> k < n) \<and> (i_addrs x NDIRECT \<noteq> 0 \<longleftrightarrow> NDIRECT < n)
     \<and> (\<forall>b\<in>file_blocks x im n. of_nat nmeta \<le> b \<and> b < F) \<and> inj_on (fptr x im) {..<n}
     \<and> (NDIRECT < n \<longrightarrow> (\<forall>k<n. fptr x im k \<noteq> i_addrs x NDIRECT))"

definition fresh :: "mkfs_st \<Rightarrow> bool" where
  "fresh s \<longleftrightarrow> img_len s = FSSIZE \<and> of_nat nmeta \<le> freeblock s \<and> freeblock s \<le> of_nat FSSIZE
     \<and> (\<forall>b. freeblock s \<le> b \<longrightarrow> b < of_nat FSSIZE \<longrightarrow> img s b = zero_block)"

text \<open>Blocks for \<open>n\<close> blocks of data.\<close>

definition with_table :: "nat \<Rightarrow> nat" where
  "with_table n = (if NDIRECT < n then n + 1 else n)"

lemma sect_small: "unat b < 2000 \<Longrightarrow> sect b = b"
proof -
  assume a: "unat b < 2000"
  then have m: "unat (b * 512) = unat b * 512"
    by (simp add: unat_word_ariths)
  then show ?thesis
    by (simp add: sect_def word_unat_eq_iff unat_div_distrib)
qed

lemma less_FSSIZE: "b < 2000 \<longleftrightarrow> unat (b :: u32) < 2000" "b \<le> 2000 \<longleftrightarrow> unat (b :: u32) \<le> 2000"
  by (simp_all add: word_less_nat_alt word_le_nat_alt)

lemma rsect_ok: "img_len s = FSSIZE \<Longrightarrow> b < of_nat FSSIZE \<Longrightarrow> rsect b s = Done (img s b)"
  by (simp add: rsect_def sect_small less_FSSIZE)

lemma wsect_ok: "img_len s = FSSIZE \<Longrightarrow> b < of_nat FSSIZE \<Longrightarrow> wsect b d s = s\<lparr>img := (img s)(b := d)\<rparr>"
  by (simp add: wsect_def sect_small less_FSSIZE)

lemma imap_okD:
  assumes "imap_ok F x im n" "k < n"
  shows "fptr x im k \<noteq> 0" "fptr x im k < F" "NDIRECT < n \<Longrightarrow> i_addrs x NDIRECT < F" "NDIRECT < n \<Longrightarrow> i_addrs x NDIRECT \<noteq> 0"
    "n \<le> MAXBLOCKS"
  using assms by (auto simp: imap_ok_def file_blocks_def)

lemma imap_ok_zero: "imap_ok F x im n \<Longrightarrow> n \<le> k \<Longrightarrow> k < MAXBLOCKS \<Longrightarrow> fptr x im k = 0"
  "imap_ok F x im n \<Longrightarrow> n \<le> NDIRECT \<Longrightarrow> i_addrs x NDIRECT = 0"
  by (auto simp: imap_ok_def not_less [symmetric])

lemma file_block_there:
  assumes "imap_ok (freeblock s) x (img s) n" "k < n" "fresh s"
  shows "file_block k x s = Done ((fptr x (img s) k, x), s)"
proof (cases "k < NDIRECT")
  case True
  then show ?thesis
    using imap_okD(1) [OF assms(1,2)] by (simp add: file_block_def addr_or_new_def fptr_def)
next
  case False
  then have n: "NDIRECT < n"
    using assms(2) by simp
  have f: "freeblock s \<le> of_nat FSSIZE" "img_len s = FSSIZE"
    using assms(3) by (simp_all add: fresh_def)
  have "i_addrs x NDIRECT < of_nat FSSIZE"
    using imap_okD(3) [OF assms(1,2) n] f(1) by (rule less_le_trans)
  from rsect_ok [OF f(2) this] show ?thesis
    using False imap_okD [OF assms(1,2)] n assms(2) by (simp add: file_block_def addr_or_new_def fptr_def Let_def split: if_splits)
qed

lemma imap_ok_extend:
  assumes m: "imap_ok F x im n" and n: "n < MAXBLOCKS" and F: "of_nat nmeta \<le> F" "F \<le> F'" and b: "F \<le> b" "b < F'"
    and p: "\<And>k. k < MAXBLOCKS \<Longrightarrow> fptr x' im' k = (if k = n then b else fptr x im k)"
    and i: "n \<noteq> NDIRECT \<Longrightarrow> i_addrs x' NDIRECT = i_addrs x NDIRECT"
      "n = NDIRECT \<Longrightarrow> F \<le> i_addrs x' NDIRECT \<and> i_addrs x' NDIRECT < F' \<and> i_addrs x' NDIRECT \<noteq> b"
  shows "imap_ok F' x' im' (Suc n)" "file_blocks x' im' (Suc n) \<subseteq> file_blocks x im n \<union> {F..<F'}"
proof -
  have z: "c \<noteq> 0" if "F \<le> c" for c
    using F(1) that by (auto simp: word_le_nat_alt)
  have old: "fptr x im k < F" if "k < n" for k
    using imap_okD(2) [OF m that] .
  have "(\<forall>k<MAXBLOCKS. fptr x' im' k \<noteq> 0 \<longleftrightarrow> k < Suc n)"
    using m p z [OF b(1)] by (auto simp: imap_ok_def less_Suc_eq)
  moreover have "i_addrs x' NDIRECT \<noteq> 0 \<longleftrightarrow> NDIRECT < Suc n"
    using m i z by (cases "n = NDIRECT") (auto simp: imap_ok_def)
  moreover have "inj_on (fptr x' im') {..<Suc n}"
  proof -
    have "inj_on (fptr x' im') {..<n} \<longleftrightarrow> inj_on (fptr x im) {..<n}"
      using n p by (intro inj_on_cong) simp
    moreover have "b \<notin> fptr x im ` {..<n}"
      using b(1) old by (metis imageE leD lessThan_iff)
    moreover have "fptr x' im' ` {..<n} = fptr x im ` {..<n}"
      using n p by (intro image_cong) auto
    ultimately show ?thesis
      using m n p [OF n] by (simp add: imap_ok_def lessThan_Suc)
  qed
  moreover have "fptr x' im' k \<noteq> i_addrs x' NDIRECT" if "NDIRECT < Suc n" "k < Suc n" for k
  proof (cases "n = NDIRECT")
    case True
    then show ?thesis
      using i(2) p [of k] old [of k] that n by (auto simp: less_Suc_eq)
  next
    case False
    then have "i_addrs x NDIRECT < F" "\<forall>k<n. fptr x im k \<noteq> i_addrs x NDIRECT"
      using m that(1) by (auto simp: imap_ok_def file_blocks_def)
    then show ?thesis
      using i(1) [OF False] p [of k] that n b(1) by (auto simp: less_Suc_eq)
  qed
  moreover show sub: "file_blocks x' im' (Suc n) \<subseteq> file_blocks x im n \<union> {F..<F'}"
    using p n i b by (cases "n = NDIRECT") (auto simp: file_blocks_def less_Suc_eq)
  moreover have "of_nat nmeta \<le> c \<and> c < F'" if "c \<in> file_blocks x' im' (Suc n)" for c
    using subsetD [OF sub that] m F by (auto simp: imap_ok_def)
  ultimately show "imap_ok F' x' im' (Suc n)"
    using n by (simp add: imap_ok_def)
qed

text \<open>What getting the next block of a file does.\<close>

definition extended :: "mkfs_st \<Rightarrow> inode \<Rightarrow> nat \<Rightarrow> mkfs_st \<Rightarrow> inode \<Rightarrow> u32 \<Rightarrow> bool" where
  "extended s x n s' x' b \<longleftrightarrow> imap_ok (freeblock s') x' (img s') (Suc n) \<and> fptr x' (img s') n = b
     \<and> (\<forall>k<n. fptr x' (img s') k = fptr x (img s) k) \<and> x' = x\<lparr>i_addrs := i_addrs x'\<rparr> \<and> fresh s' \<and> img s' b = zero_block
     \<and> (\<forall>c. c \<notin> file_blocks x (img s) n \<longrightarrow> c < freeblock s \<longrightarrow> img s' c = img s c)
     \<and> (\<forall>k<n. img s' (fptr x (img s) k) = img s (fptr x (img s) k))
     \<and> s' = s\<lparr>img := img s', freeblock := freeblock s'\<rparr>
     \<and> unat (freeblock s') + with_table n = unat (freeblock s) + with_table (Suc n) \<and> freeblock s \<le> b
     \<and> file_blocks x' (img s') (Suc n) \<subseteq> file_blocks x (img s) n \<union> {freeblock s..<freeblock s'}"

lemma freeblock_step:
  assumes "fresh s" "unat (freeblock s) + j \<le> FSSIZE"
  shows "unat (freeblock s + of_nat j) = unat (freeblock s) + j"
  using assms by (simp add: unat_word_ariths unat_of_nat)

lemma fresh_next:
  assumes "fresh s" "unat (freeblock s) + j \<le> FSSIZE"
    "\<And>c. freeblock s + of_nat j \<le> c \<Longrightarrow> d c = img s c"
  shows "fresh (s\<lparr>img := d, freeblock := freeblock s + of_nat j\<rparr>)" "freeblock s \<le> freeblock s + of_nat j"
proof -
  note u = freeblock_step [OF assms(1,2)]
  show le: "freeblock s \<le> freeblock s + of_nat j"
    using u by (simp add: word_le_nat_alt)
  have "freeblock s + of_nat j \<le> of_nat FSSIZE"
    using u assms(2) by (simp add: word_le_nat_alt)
  then show "fresh (s\<lparr>img := d, freeblock := freeblock s + of_nat j\<rparr>)"
    using assms(1,3) le by (auto simp: fresh_def intro: order_trans)
qed

lemma file_block_direct:
  assumes "imap_ok (freeblock s) x (img s) n" "n < NDIRECT" "fresh s" "unat (freeblock s) + 1 \<le> FSSIZE"
  shows "\<exists>b x' s'. file_block n x s = Done ((b, x'), s') \<and> extended s x n s' x' b"
proof -
  let ?F = "freeblock s"
  let ?x = "x\<lparr>i_addrs := (i_addrs x)(n := ?F)\<rparr>" and ?s = "s\<lparr>img := img s, freeblock := ?F + of_nat 1\<rparr>"
  have z: "i_addrs x n = 0" "i_addrs x NDIRECT = 0"
    using imap_ok_zero [OF assms(1)] assms(2) by (force simp: fptr_def)+
  have p: "fptr ?x (img s) k = (if k = n then ?F else fptr x (img s) k)" for k
    using assms(2) z by (simp add: fptr_def)
  note fr = fresh_next [OF assms(3,4), of "img s", OF HOL.refl] and u = freeblock_step [OF assms(3,4)]
  have F: "of_nat nmeta \<le> ?F" "?F < of_nat FSSIZE" "?F < ?F + of_nat 1"
    using assms(3,4) u by (simp_all add: fresh_def word_less_nat_alt)
  note e = imap_ok_extend [OF assms(1) _ F(1) fr(2) order_refl F(3) p]
  have "imap_ok (?F + of_nat 1) ?x (img s) (Suc n)" "file_blocks ?x (img s) (Suc n) \<subseteq> file_blocks x (img s) n \<union> {?F..<?F + of_nat 1}"
    using assms(2) by (intro e; simp)+
  moreover have "img s ?F = zero_block"
    using assms(3) F(2) by (simp add: fresh_def)
  ultimately have "extended s x n ?s ?x ?F"
    using p [of n] p fr(1) u assms(2) by (simp add: extended_def with_table_def)
  moreover have "file_block n x s = Done ((?F, ?x), ?s)"
    using z assms(2) by (simp add: file_block_def addr_or_new_def new_block_def)
  ultimately show ?thesis
    by blast
qed

lemma file_block_entry:
  assumes m: "imap_ok (freeblock s) x (img s) n" and n: "NDIRECT < n" "n < MAXBLOCKS" and f: "fresh s" "unat (freeblock s) + 1 \<le> FSSIZE"
  shows "\<exists>b x' s'. file_block n x s = Done ((b, x'), s') \<and> extended s x n s' x' b"
proof -
  let ?F = "freeblock s" and ?a = "i_addrs x NDIRECT"
  let ?d = "(img s)(?a := put32 (4 * (n - NDIRECT)) ?F (img s ?a))"
  let ?s = "s\<lparr>img := ?d, freeblock := ?F + of_nat 1\<rparr>"
  have a: "?a \<noteq> 0" "?a < ?F" "?a \<in> file_blocks x (img s) n" "\<And>k. k < n \<Longrightarrow> fptr x (img s) k \<noteq> ?a"
    using m n(1) by (auto simp: imap_ok_def file_blocks_def)
  have z: "get32 (img s ?a) (4 * (n - NDIRECT)) = 0"
    using imap_ok_zero(1) [OF m, of n] n a(1) by (simp add: fptr_def)
  have p: "fptr x ?d k = (if k = n then ?F else fptr x (img s) k)" for k
  proof -
    have "k < n \<or> k = n \<or> n < k"
      by linarith
    then show ?thesis
      using n a(1) by (auto simp: fptr_def intro!: get32_put32_other)
  qed
  have below: "?d c = img s c" if "?F + of_nat 1 \<le> c" for c
    using a(2) that fresh_next(2) [OF f, of "img s"] by auto
  note fr = fresh_next [OF f, of ?d, OF below] and u = freeblock_step [OF f]
  have F: "of_nat nmeta \<le> ?F" "?F < of_nat FSSIZE" "?F < ?F + of_nat 1"
    using f u by (simp_all add: fresh_def word_less_nat_alt)
  note e = imap_ok_extend [OF m n(2) F(1) fr(2) order_refl F(3) p]
  have "imap_ok (?F + of_nat 1) x ?d (Suc n)" "file_blocks x ?d (Suc n) \<subseteq> file_blocks x (img s) n \<union> {?F..<?F + of_nat 1}"
    using n by (intro e; simp)+
  moreover have "?d ?F = zero_block"
    using f(1) F(2) a(2) by (auto simp: fresh_def)
  ultimately have "extended s x n ?s x ?F"
    using p [of n] p fr(1) u n a by (auto simp: extended_def with_table_def)
  moreover have "file_block n x s = Done ((?F, x), ?s)"
    using z n a f(1) less_trans [OF a(2) F(2)]
    by (simp add: file_block_def addr_or_new_def new_block_def Let_def rsect_ok wsect_ok fresh_def)
  ultimately show ?thesis
    by blast
qed

lemma file_block_table:
  assumes m: "imap_ok (freeblock s) x (img s) NDIRECT" and f: "fresh s" "unat (freeblock s) + 2 \<le> FSSIZE"
  shows "\<exists>b x' s'. file_block NDIRECT x s = Done ((b, x'), s') \<and> extended s x NDIRECT s' x' b"
proof -
  let ?F = "freeblock s" and ?b = "freeblock s + of_nat 1"
  let ?x = "x\<lparr>i_addrs := (i_addrs x)(NDIRECT := ?F)\<rparr>"
  let ?d = "(img s)(?F := put32 0 ?b zero_block)"
  let ?s = "s\<lparr>img := ?d, freeblock := ?F + of_nat 2\<rparr>"
  have f1: "unat ?F + 1 \<le> FSSIZE"
    using f(2) by simp
  note u = freeblock_step [OF f] freeblock_step [OF f(1) f1]
  have F: "of_nat nmeta \<le> ?F" "?F < of_nat FSSIZE" "?F < ?b" "?b < ?F + of_nat 2" "?b < of_nat FSSIZE"
    using f u by (simp_all add: fresh_def word_less_nat_alt)
  have nz: "?F \<noteq> 0" "?b \<noteq> 0"
    using F(1,3) by (auto simp: word_le_nat_alt word_less_nat_alt)
  have z: "i_addrs x NDIRECT = 0"
    using imap_ok_zero(2) [OF m] by simp
  have "get32 zero_block j = 0" for j
    by (simp add: get32_def zero_block_def)
  then have p: "fptr ?x ?d k = (if k = NDIRECT then ?b else fptr x (img s) k)" for k
    using z nz by (auto simp: fptr_def get32_put32_other)
  have below: "?d c = img s c" if "?F + of_nat 2 \<le> c" for c
    using that F by auto
  note fr = fresh_next [OF f, of ?d, OF below]
  have le: "?F \<le> ?b"
    using F(3) by simp
  note e = imap_ok_extend [OF m _ F(1) fr(2) le F(4) p]
  have "imap_ok (?F + of_nat 2) ?x ?d (Suc NDIRECT)"
    "file_blocks ?x ?d (Suc NDIRECT) \<subseteq> file_blocks x (img s) NDIRECT \<union> {?F..<?F + of_nat 2}"
    using F by (intro e; simp)+
  moreover have "?d ?b = zero_block" "img s ?F = zero_block"
    using f(1) F by (auto simp: fresh_def)
  moreover have "fptr x (img s) k \<noteq> ?F" if "k < NDIRECT" for k
    using imap_okD(2) [OF m that] by simp
  ultimately have "extended s x NDIRECT ?s ?x ?b"
    using p fr(1) u le by (auto simp: extended_def with_table_def)
  moreover have "file_block NDIRECT x s = Done ((?b, ?x), ?s)"
    using z f(1) F \<open>img s ?F = zero_block\<close> \<open>\<And>j. get32 zero_block j = 0\<close>
    by (simp add: file_block_def addr_or_new_def new_block_def Let_def rsect_ok wsect_ok fresh_def)
  ultimately show ?thesis
    by blast
qed

lemma file_block_new:
  assumes "imap_ok (freeblock s) x (img s) n" "n < MAXBLOCKS" "fresh s" "unat (freeblock s) + with_table (Suc n) \<le> FSSIZE + with_table n"
  shows "\<exists>b x' s'. file_block n x s = Done ((b, x'), s') \<and> extended s x n s' x' b"
proof -
  consider "n < NDIRECT" | "n = NDIRECT" | "NDIRECT < n"
    by linarith
  then show ?thesis
    using assms file_block_direct file_block_table file_block_entry by cases (auto simp: with_table_def)
qed

subsection \<open>Appending\<close>

definition nblocks :: "nat \<Rightarrow> nat" where
  "nblocks l = (l + 511) div 512"

text \<open>The file of inode \<open>x\<close> has the contents \<open>L\<close>.\<close>

definition file_ok :: "u32 \<Rightarrow> inode \<Rightarrow> (u32 \<Rightarrow> block) \<Rightarrow> byte list \<Rightarrow> bool" where
  "file_ok F x im L \<longleftrightarrow> imap_ok F x im (nblocks (length L))
     \<and> (\<forall>i<length L. im (fptr x im (i div BSIZE)) (i mod BSIZE) = L ! i)"

lemma fptr_write:
  assumes "imap_ok F x im n" "k < n"
  shows "fptr x (im(fptr x im k := d)) = fptr x im"
proof
  fix j
  have "NDIRECT < n \<Longrightarrow> fptr x im k \<noteq> i_addrs x NDIRECT" "n \<le> NDIRECT \<Longrightarrow> i_addrs x NDIRECT = 0"
    using assms imap_ok_zero(2) [OF assms(1)] by (auto simp: imap_ok_def)
  then show "fptr x (im(fptr x im k := d)) j = fptr x im j"
    by (cases "NDIRECT < n") (auto simp: fptr_def [of _ _ j])
qed

lemma imap_ok_cong: "fptr x im' = fptr x im \<Longrightarrow> imap_ok F x im' n = imap_ok F x im n" "fptr x im' = fptr x im \<Longrightarrow> file_blocks x im' n = file_blocks x im n"
  by (simp_all add: imap_ok_def file_blocks_def)

lemma write_chunk:
  assumes m: "imap_ok F x im (nblocks (length L + n1))" and n1: "0 < n1" "n1 \<le> 512 - length L mod 512" "n1 \<le> length p"
    and old: "\<And>i. i < length L \<Longrightarrow> im (fptr x im (i div BSIZE)) (i mod BSIZE) = L ! i"
    and b: "b = fptr x im (length L div 512)"
  shows "file_ok F x (im(b := copy_bytes n1 (\<lambda>i. p ! i) 0 (length L mod 512) (im b))) (L @ take n1 p)"
proof -
  let ?k = "length L div 512" and ?n = "nblocks (length L + n1)"
  let ?im = "im(b := copy_bytes n1 (\<lambda>i. p ! i) 0 (length L mod 512) (im b))"
  have k: "?k < ?n"
    using n1 by (simp add: nblocks_def)
  have e: "fptr x ?im = fptr x im"
    unfolding b by (rule fptr_write [OF m k])
  have "?im (fptr x im (i div BSIZE)) (i mod BSIZE) = (L @ take n1 p) ! i" if i: "i < length L + n1" for i
  proof (cases "i < length L")
    case True
    show ?thesis
    proof (cases "i div 512 = ?k")
      case same: True
      have "i mod 512 < length L mod 512"
        using True same by (metis div_mod_decomp add_less_cancel_left)
      then show ?thesis
        using True same old [OF True] by (simp add: b copy_bytes_out nth_append)
    next
      case False
      then have "i div 512 < ?n"
        using i n1(1) by (simp add: nblocks_def)
      then have "fptr x im (i div 512) \<noteq> b"
        using m k False by (auto simp: b imap_ok_def dest: inj_onD)
      then show ?thesis
        using True old [OF True] by (simp add: nth_append)
    qed
  next
    case False
    define j where "j = i - length L"
    have j: "i = length L + j" "j < n1"
      using False i by (simp_all add: j_def)
    have "i div 512 = ?k" "i mod 512 = length L mod 512 + j"
    proof -
      have r: "length L mod 512 + j < 512"
        using j n1(2) by simp
      have e: "i = length L mod 512 + j + ?k * 512"
        using j by simp
      show "i div 512 = ?k" "i mod 512 = length L mod 512 + j"
        using r by (simp_all only: e div_mult_self3 mod_mult_self1 div_less mod_less)
    qed
    then show ?thesis
      using j n1(3) by (simp add: b nth_append copy_bytes_def)
  qed
  then show ?thesis
    using n1(3) m by (simp add: file_ok_def e imap_ok_cong(1) [OF e] min_def)
qed

text \<open>What appending \<open>p\<close> to a file does.\<close>

definition appended :: "mkfs_st \<Rightarrow> inode \<Rightarrow> byte list \<Rightarrow> mkfs_st \<Rightarrow> inode \<Rightarrow> byte list \<Rightarrow> bool" where
  "appended s x L t y p \<longleftrightarrow> file_ok (freeblock t) y (img t) (L @ p) \<and> fresh t \<and> y = x\<lparr>i_addrs := i_addrs y\<rparr>
     \<and> t = s\<lparr>img := img t, freeblock := freeblock t\<rparr>
     \<and> (\<forall>c. c \<notin> file_blocks x (img s) (nblocks (length L)) \<longrightarrow> c < freeblock s \<longrightarrow> img t c = img s c)
     \<and> unat (freeblock t) + with_table (nblocks (length L)) = unat (freeblock s) + with_table (nblocks (length (L @ p)))
     \<and> file_blocks y (img t) (nblocks (length (L @ p))) \<subseteq> file_blocks x (img s) (nblocks (length L)) \<union> {freeblock s..<freeblock t}"

lemma with_table_mono: "m \<le> n \<Longrightarrow> with_table m \<le> with_table n"
  by (simp add: with_table_def)

lemma nblocks_mono: "m \<le> n \<Longrightarrow> nblocks m \<le> nblocks n"
  by (simp add: nblocks_def div_le_mono)

lemma appended_free: "appended s x L t y p \<Longrightarrow> freeblock s \<le> freeblock t"
  using with_table_mono [OF nblocks_mono [of "length L" "length (L @ p)"]] by (simp add: appended_def word_le_nat_alt)

lemma appended_Nil: "file_ok (freeblock s) x (img s) L \<Longrightarrow> fresh s \<Longrightarrow> appended s x L s x []"
  by (simp add: appended_def)

lemma appended_trans:
  assumes a: "appended s x L t y p" and b: "appended t y (L @ p) u z q"
  shows "appended s x L u z (p @ q)"
proof -
  note le = appended_free [OF a] appended_free [OF b]
  have "img u c = img s c" if "c \<notin> file_blocks x (img s) (nblocks (length L))" "c < freeblock s" for c
  proof -
    have "c \<notin> file_blocks y (img t) (nblocks (length (L @ p)))"
      using a that by (auto simp: appended_def not_le [symmetric])
    moreover have "c < freeblock t"
      using that(2) le(1) by (rule less_le_trans)
    ultimately have "img u c = img t c"
      using b by (simp add: appended_def)
    then show ?thesis
      using a that by (simp add: appended_def)
  qed
  moreover have "file_blocks z (img u) (nblocks (length (L @ p @ q))) \<subseteq> file_blocks x (img s) (nblocks (length L)) \<union> {freeblock s..<freeblock u}"
  proof -
    have "{freeblock s..<freeblock t} \<subseteq> {freeblock s..<freeblock u}" "{freeblock t..<freeblock u} \<subseteq> {freeblock s..<freeblock u}"
      using le by (auto intro: less_le_trans order_trans)
    moreover have "file_blocks y (img t) (nblocks (length (L @ p))) \<subseteq> file_blocks x (img s) (nblocks (length L)) \<union> {freeblock s..<freeblock t}"
      "file_blocks z (img u) (nblocks (length (L @ p @ q))) \<subseteq> file_blocks y (img t) (nblocks (length (L @ p))) \<union> {freeblock t..<freeblock u}"
      using a b by (simp_all add: appended_def)
    ultimately show ?thesis
      by blast
  qed
  moreover have "unat (freeblock u) + with_table (nblocks (length L)) = unat (freeblock s) + with_table (nblocks (length (L @ p @ q)))"
    using a b by (simp add: appended_def)
  moreover have "z = x\<lparr>i_addrs := i_addrs z\<rparr>" "u = s\<lparr>img := img u, freeblock := freeblock u\<rparr>"
  proof -
    have y: "y = x\<lparr>i_addrs := i_addrs y\<rparr>" "z = y\<lparr>i_addrs := i_addrs z\<rparr>"
      and t: "t = s\<lparr>img := img t, freeblock := freeblock t\<rparr>" "u = t\<lparr>img := img u, freeblock := freeblock u\<rparr>"
      using a b by (simp_all add: appended_def)
    show "z = x\<lparr>i_addrs := i_addrs z\<rparr>"
      by (subst y(2), subst y(1)) simp
    show "u = s\<lparr>img := img u, freeblock := freeblock u\<rparr>"
      by (subst t(2), subst t(1)) simp
  qed
  ultimately show ?thesis
    using b by (simp add: appended_def)
qed

lemma fresh_write: "fresh s \<Longrightarrow> b < freeblock s \<Longrightarrow> fresh (s\<lparr>img := (img s)(b := d)\<rparr>)"
  by (auto simp: fresh_def)

text \<open>Writing a chunk into the last block of a file, which \<open>file_block\<close> has just provided.\<close>

lemma chunk_appended:
  assumes s': "imap_ok (freeblock s') y (img s') (nblocks (length L + n1))" "fresh s'" "y = x\<lparr>i_addrs := i_addrs y\<rparr>"
      "s' = s\<lparr>img := img s', freeblock := freeblock s'\<rparr>"
    and n1: "0 < n1" "n1 \<le> 512 - length L mod 512" "n1 \<le> length p"
    and old: "\<And>i. i < length L \<Longrightarrow> img s' (fptr y (img s') (i div BSIZE)) (i mod BSIZE) = L ! i"
    and b: "b = fptr y (img s') (length L div 512)" "b \<in> file_blocks x (img s) (nblocks (length L)) \<or> freeblock s \<le> b"
    and frame: "\<And>c. c \<notin> file_blocks x (img s) (nblocks (length L)) \<Longrightarrow> c < freeblock s \<Longrightarrow> img s' c = img s c"
    and count: "unat (freeblock s') + with_table (nblocks (length L)) = unat (freeblock s) + with_table (nblocks (length L + n1))"
    and sub: "file_blocks y (img s') (nblocks (length L + n1)) \<subseteq> file_blocks x (img s) (nblocks (length L)) \<union> {freeblock s..<freeblock s'}"
  shows "appended s x L (s'\<lparr>img := (img s')(b := copy_bytes n1 (\<lambda>i. p ! i) 0 (length L mod 512) (img s' b))\<rparr>) y (take n1 p)"
proof -
  let ?d = "copy_bytes n1 (\<lambda>i. p ! i) 0 (length L mod 512) (img s' b)"
  have k: "length L div 512 < nblocks (length L + n1)"
    using n1 by (simp add: nblocks_def)
  have F: "b < freeblock s'"
    unfolding b(1) by (rule imap_okD(2) [OF s'(1) k])
  have e: "fptr y ((img s')(b := ?d)) = fptr y (img s')"
    unfolding b(1) by (rule fptr_write [OF s'(1) k])
  define t where "t = s'\<lparr>img := (img s')(b := ?d)\<rparr>"
  have t: "img t = (img s')(b := ?d)" "freeblock t = freeblock s'" "fresh t"
    using fresh_write [OF s'(2) F] by (simp_all add: t_def)
  have "t = s\<lparr>img := img t, freeblock := freeblock t\<rparr>"
    unfolding t_def by (subst (1) s'(4)) simp
  moreover have "file_ok (freeblock t) y (img t) (L @ take n1 p)"
    unfolding t by (rule write_chunk [OF s'(1) n1 old b(1)])
  moreover have "img t c = img s c" if "c \<notin> file_blocks x (img s) (nblocks (length L))" "c < freeblock s" for c
    using frame [OF that] b(2) that by (auto simp: t(1))
  ultimately have "appended s x L t y (take n1 p)"
    using t(3) s'(3) count sub n1(3) unfolding appended_def t(1,2) by (simp add: imap_ok_cong(2) [OF e] min_def)
  then show ?thesis
    by (simp add: t_def)
qed

lemma nblocks_partial:
  assumes "l mod 512 \<noteq> 0" "n \<le> 512 - l mod 512"
  shows "nblocks (l + n) = Suc (l div 512)"
proof -
  define r where "r = l mod 512 + n - 1"
  have r: "r < 512" "l + n + 511 = r + Suc (l div 512) * 512"
    using assms by (simp_all add: r_def)
  show ?thesis
    unfolding nblocks_def r(2) using r(1) by (simp del: mult_Suc)
qed

lemma append_chunk:
  assumes f: "file_ok (freeblock s) x (img s) L" "fresh s" and p: "p \<noteq> []" and n1: "n1 = min (length p) (512 - length L mod 512)"
    and len: "length L + n1 \<le> MAXBLOCKS * BSIZE"
    and room: "unat (freeblock s) + with_table (nblocks (length L + n1)) \<le> FSSIZE + with_table (nblocks (length L))"
  obtains b y s' where "file_block (length L div 512) x s = Done ((b, y), s')" "b < of_nat FSSIZE" "img_len s' = FSSIZE"
    "appended s x L (s'\<lparr>img := (img s')(b := copy_bytes n1 (\<lambda>i. p ! i) 0 (length L mod 512) (img s' b))\<rparr>) y (take n1 p)"
proof -
  let ?n = "nblocks (length L)" and ?k = "length L div 512"
  have m: "imap_ok (freeblock s) x (img s) ?n" and old: "\<And>i. i < length L \<Longrightarrow> img s (fptr x (img s) (i div BSIZE)) (i mod BSIZE) = L ! i"
    using f(1) by (simp_all add: file_ok_def)
  have n1': "0 < n1" "n1 \<le> 512 - length L mod 512" "n1 \<le> length p"
    using p n1 by simp_all
  have disk: "b < of_nat FSSIZE" if "fresh u" "b < freeblock u" for u b
    using that by (auto simp: fresh_def intro: less_le_trans)
  show ?thesis
  proof (cases "length L mod 512 = 0")
    case True
    then have n: "?n = ?k" "nblocks (length L + n1) = Suc ?n"
      using n1' by (auto simp: nblocks_def elim!: dvdE)
    have "?n < MAXBLOCKS"
      using len n(1) n1'(1) True by (auto elim!: dvdE)
    then obtain b y s' where e: "file_block ?k x s = Done ((b, y), s')" "extended s x ?n s' y b"
      using file_block_new [OF m _ f(2)] room n by auto
    have ltk: "i div 512 < ?n" if "i < length L" for i
      using that True n(1) by (auto elim!: dvdE)
    have M: "imap_ok (freeblock s') y (img s') (nblocks (length L + n1))" "fptr y (img s') ?n = b"
      using e(2) n by (simp_all add: extended_def)
    show ?thesis
    proof (rule that [OF e(1)])
      show "b < of_nat FSSIZE" "img_len s' = FSSIZE"
        using disk [of s' b] e(2) imap_okD(2) [OF M(1), of ?n] M(2) n by (simp_all add: extended_def fresh_def)
      show "appended s x L (s'\<lparr>img := (img s')(b := copy_bytes n1 (\<lambda>i. p ! i) 0 (length L mod 512) (img s' b))\<rparr>) y (take n1 p)"
        by (rule chunk_appended [OF M(1) _ _ _ n1']) (use e(2) n old ltk in \<open>auto simp: extended_def\<close>)
    qed
  next
    case False
    then have n: "?k < ?n" "nblocks (length L + n1) = ?n"
      using nblocks_partial [of "length L" n1] nblocks_partial [of "length L" 0] n1' by simp_all
    note b = imap_okD [OF m n(1)]
    show ?thesis
    proof (rule that [OF file_block_there [OF m n(1) f(2)]])
      show "fptr x (img s) ?k < of_nat FSSIZE" "img_len s = FSSIZE"
        using disk [OF f(2) b(2)] f(2) by (simp_all add: fresh_def)
      show "appended s x L (s\<lparr>img := (img s)(fptr x (img s) ?k := copy_bytes n1 (\<lambda>i. p ! i) 0 (length L mod 512) (img s (fptr x (img s) ?k)))\<rparr>) x (take n1 p)"
        by (rule chunk_appended [OF _ _ _ _ n1']) (use f m n old in \<open>auto simp: file_blocks_def\<close>)
    qed
  qed
qed

lemma offset_in_block:
  assumes "l < 2 ^ 32"
  shows "unat ((of_nat l :: u32) div of_nat BSIZE) = l div BSIZE" "room_in_block (of_nat l) = BSIZE - l mod BSIZE"
    "unat ((of_nat l :: u32) - of_nat (l div BSIZE * BSIZE)) = l mod BSIZE"
proof -
  have u: "unat (of_nat l :: u32) = l"
    using assms by (simp add: unat_of_nat)
  then show "unat ((of_nat l :: u32) div of_nat BSIZE) = l div BSIZE" "room_in_block (of_nat l) = BSIZE - l mod BSIZE"
    by (simp_all add: room_in_block unat_div_distrib)
  have "(of_nat l :: u32) - of_nat (l div 512 * 512) = of_nat (l - l div 512 * 512)"
    by (subst of_nat_diff) simp_all
  also have "l - l div 512 * 512 = l mod 512"
    by (simp add: minus_div_mult_eq_mod)
  finally show "unat ((of_nat l :: u32) - of_nat (l div BSIZE * BSIZE)) = l mod BSIZE"
    by (simp add: unat_of_nat)
qed

lemma iappend_loop_ok:
  assumes "file_ok (freeblock s) x (img s) L" "fresh s" "length (L @ p) \<le> MAXBLOCKS * BSIZE"
    "unat (freeblock s) + with_table (nblocks (length (L @ p))) \<le> FSSIZE + with_table (nblocks (length L))"
  shows "\<exists>y t. iappend_loop x (of_nat (length L)) p s = Done ((y, of_nat (length (L @ p))), t) \<and> appended s x L t y p"
  using assms
proof (induction "length p" arbitrary: p L x s rule: less_induct)
  case less
  show ?case
  proof (cases "p = []")
    case True
    then show ?thesis
      using appended_Nil [OF less.prems(1,2)] by (simp add: iappend_loop.simps)
  next
    case False
    define n1 where "n1 = min (length p) (512 - length L mod 512)"
    have n: "n1 \<le> length p" "0 < n1"
      using False by (simp_all add: n1_def)
    have l: "length L < 2 ^ 32" "length L div 512 < MAXFILE" "length L + n1 \<le> MAXBLOCKS * BSIZE"
      using less.prems(3) n False by auto
    note off = offset_in_block [OF l(1)]
    have "with_table (nblocks (length L + n1)) \<le> with_table (nblocks (length (L @ p)))"
      using n by (intro with_table_mono nblocks_mono) simp
    then have room: "unat (freeblock s) + with_table (nblocks (length L + n1)) \<le> FSSIZE + with_table (nblocks (length L))"
      using less.prems(4) by linarith
    obtain b y s' where b: "file_block (length L div 512) x s = Done ((b, y), s')" "b < of_nat FSSIZE" "img_len s' = FSSIZE"
      and a: "appended s x L (s'\<lparr>img := (img s')(b := copy_bytes n1 (\<lambda>i. p ! i) 0 (length L mod 512) (img s' b))\<rparr>) y (take n1 p)"
      using append_chunk [OF less.prems(1,2) False n1_def l(3) room] .
    define t where "t = s'\<lparr>img := (img s')(b := copy_bytes n1 (\<lambda>i. p ! i) 0 (length L mod 512) (img s' b))\<rparr>"
    have a: "appended s x L t y (take n1 p)"
      using a by (simp add: t_def)
    have "\<exists>z u. iappend_loop y (of_nat (length (L @ take n1 p))) (drop n1 p) t
        = Done ((z, of_nat (length ((L @ take n1 p) @ drop n1 p))), u) \<and> appended t y (L @ take n1 p) u z (drop n1 p)"
    proof (rule less.hyps)
      show "length (drop n1 p) < length p" "file_ok (freeblock t) y (img t) (L @ take n1 p)" "fresh t"
        using n a by (simp_all add: appended_def)
      show "length ((L @ take n1 p) @ drop n1 p) \<le> MAXBLOCKS * BSIZE"
        using less.prems(3) by simp
      show "unat (freeblock t) + with_table (nblocks (length ((L @ take n1 p) @ drop n1 p)))
          \<le> FSSIZE + with_table (nblocks (length (L @ take n1 p)))"
        using less.prems(4) a by (simp add: appended_def)
    qed
    moreover have len: "length (L @ take n1 p) = length L + n1" "(L @ take n1 p) @ drop n1 p = L @ p"
      using n(1) by simp_all
    ultimately obtain z u where zu: "iappend_loop y (of_nat (length L + n1)) (drop n1 p) t = Done ((z, of_nat (length (L @ p))), u)"
        "appended t y (L @ take n1 p) u z (drop n1 p)"
      unfolding len by blast
    have app: "appended s x L u z p"
      using appended_trans [OF a zu(2)] by simp
    have "iappend_loop x (of_nat (length L)) p s = iappend_loop y (of_nat (length L) + of_nat n1) (drop n1 p) t"
      using False l(2) b off by (subst iappend_loop.simps) (simp add: n1_def [symmetric] rsect_ok wsect_ok t_def Let_def)
    then show ?thesis
      using zu(1) app by auto
  qed
qed

subsection \<open>Inodes\<close>

definition dino :: "mkfs_st \<Rightarrow> nat \<Rightarrow> inode" where
  "dino s i = load_dinode (img s (IBLOCK (of_nat i) mk_sb)) (dinode_off (of_nat i)) zero_inode"

abbreviation INODES :: nat where "INODES \<equiv> ninodeblocks * IPB"

lemma IBLOCK_mk: "i < INODES \<Longrightarrow> unat (IBLOCK (of_nat i) mk_sb) = i div 8 + 32"
  by (simp add: IBLOCK_def mk_sb_def unat_word_ariths unat_div_distrib unat_of_nat)

lemma IBLOCK_meta: "i < INODES \<Longrightarrow> IBLOCK (of_nat i) mk_sb < of_nat FSSIZE \<and> IBLOCK (of_nat i) mk_sb < of_nat nmeta - 1 \<and> 31 < IBLOCK (of_nat i) mk_sb"
proof -
  assume i: "i < INODES"
  then have "i div 8 < 26"
    by simp
  then show ?thesis
    using IBLOCK_mk [OF i] by (simp add: word_less_nat_alt)
qed

lemma rinode_ok: "img_len s = FSSIZE \<Longrightarrow> i < INODES \<Longrightarrow> rinode (of_nat i) s = Done (dino s i)"
  using IBLOCK_meta [of i] by (simp add: rinode_def rsect_ok dino_def)

lemma winode_ok:
  assumes "img_len s = FSSIZE" "i < INODES"
  obtains d where "winode (of_nat i) x s = Done (s\<lparr>img := d\<rparr>)" "same_dinode (dino (s\<lparr>img := d\<rparr>) i) x"
    "\<And>j. j < INODES \<Longrightarrow> j \<noteq> i \<Longrightarrow> dino (s\<lparr>img := d\<rparr>) j = dino s j" "\<And>b. of_nat nmeta - 1 \<le> b \<or> b < 32 \<Longrightarrow> d b = img s b"
proof -
  let ?b = "IBLOCK (of_nat i) mk_sb"
  let ?d = "(img s)(?b := store_dinode x (dinode_off (of_nat i)) (img s ?b))"
  note b = IBLOCK_meta [OF assms(2)]
  show ?thesis
  proof (rule that [of ?d])
    show "winode (of_nat i) x s = Done (s\<lparr>img := ?d\<rparr>)"
      using b assms(1) by (simp add: winode_def rsect_ok wsect_ok Let_def)
    show "same_dinode (dino (s\<lparr>img := ?d\<rparr>) i) x"
      by (simp add: dino_def load_store_dinode)
    show "dino (s\<lparr>img := ?d\<rparr>) j = dino s j" if j: "j < INODES" "j \<noteq> i" for j
    proof (cases "j div 8 = i div 8")
      case True
      then have "j mod 8 \<noteq> i mod 8"
        using j(2) div_mod_eqI by blast
      then have "dinode_off (of_nat i) + 64 \<le> dinode_off (of_nat j) \<or> dinode_off (of_nat j) + 64 \<le> dinode_off (of_nat i :: u32)"
        using True j(1) assms(2)
        by (intro dinode_off_sep) (simp_all add: word_unat_eq_iff unat_mod_distrib unat_of_nat)
      then show ?thesis
        by (simp add: dino_def load_other_dinode)
    next
      case False
      then have "IBLOCK (of_nat j) mk_sb \<noteq> ?b"
        using IBLOCK_mk [OF j(1)] IBLOCK_mk [OF assms(2)] by (auto simp: word_unat_eq_iff)
      then show ?thesis
        by (simp add: dino_def)
    qed
    show "?d c = img s c" if "of_nat nmeta - 1 \<le> c \<or> c < 32" for c
      using b that by (auto simp: word_less_nat_alt word_le_nat_alt)
  qed
qed

lemma file_ok_frame:
  assumes "file_ok F x im L" "F \<le> F'" "same_dinode y x" "\<And>b. b \<in> file_blocks x im (nblocks (length L)) \<Longrightarrow> im' b = im b"
  shows "file_ok F' y im' L" "file_blocks y im' (nblocks (length L)) = file_blocks x im (nblocks (length L))"
proof -
  let ?n = "nblocks (length L)"
  have m: "imap_ok F x im ?n"
    using assms(1) by (simp add: file_ok_def)
  have a: "i_addrs y k = i_addrs x k" if "k < 13" for k
    using assms(3) that by (simp add: same_dinode_def)
  have t: "im' (i_addrs x NDIRECT) = im (i_addrs x NDIRECT)" if "NDIRECT < ?n"
    using assms(4) that by (simp add: file_blocks_def)
  have p: "fptr y im' = fptr x im"
    using a t imap_ok_zero(2) [OF m] by (cases "NDIRECT < ?n") (auto simp: fptr_def intro!: ext)
  show b: "file_blocks y im' ?n = file_blocks x im ?n"
    using a p by (simp add: file_blocks_def)
  have "im' (fptr x im k) = im (fptr x im k)" if "k < ?n" for k
    using assms(4) that by (simp add: file_blocks_def)
  moreover have "i div 512 < ?n" if "i < length L" for i
    using that by (simp add: nblocks_def)
  moreover have "imap_ok F' y im' ?n"
    using m assms(2) a unfolding imap_ok_def b p by (auto intro: less_le_trans)
  ultimately show "file_ok F' y im' L"
    using assms(1) by (simp add: file_ok_def p)
qed

subsection \<open>The image\<close>

type_synonym image_file = "u16 \<times> byte list"

abbreviation size_of :: "image_file \<Rightarrow> nat" where "size_of f \<equiv> with_table (nblocks (length (snd f)))"

definition total_blocks :: "image_file list \<Rightarrow> nat" where
  "total_blocks fs = sum_list (map size_of fs)"

definition inode_blocks_of :: "mkfs_st \<Rightarrow> image_file list \<Rightarrow> nat \<Rightarrow> u32 set" where
  "inode_blocks_of s fs i = file_blocks (dino s (i + 1)) (img s) (nblocks (length (snd (fs ! i))))"

text \<open>Inode \<open>i + 1\<close> holds file \<open>f\<close>.\<close>

definition holds_file :: "mkfs_st \<Rightarrow> nat \<Rightarrow> image_file \<Rightarrow> bool" where
  "holds_file s i f \<longleftrightarrow> (let x = dino s (i + 1) in i_type x = fst f \<and> i_nlink x = 1 \<and> i_size x = of_nat (length (snd f))
     \<and> file_ok (freeblock s) x (img s) (snd f))"

text \<open>The boot block, the super block and the log.\<close>

definition boot_area :: "u32 \<Rightarrow> block" where
  "boot_area b = (if b = 1 then encode_sb mk_sb else zero_block)"

definition image_ok :: "mkfs_st \<Rightarrow> image_file list \<Rightarrow> bool" where
  "image_ok s fs \<longleftrightarrow> fresh s \<and> freeinode s = of_nat (length fs + 1) \<and> length fs < INODES
     \<and> unat (freeblock s) = nmeta + total_blocks fs \<and> (\<forall>b<32. img s b = boot_area b)
     \<and> (\<forall>i<length fs. holds_file s i (fs ! i))
     \<and> (\<forall>i<length fs. \<forall>j<length fs. i \<noteq> j \<longrightarrow> inode_blocks_of s fs i \<inter> inode_blocks_of s fs j = {})"

lemma file_size [simp]: "file_ok F (x\<lparr>i_size := n\<rparr>) im L = file_ok F x im L" "file_blocks (x\<lparr>i_size := n\<rparr>) im k = file_blocks x im k"
proof -
  have "fptr (x\<lparr>i_size := n\<rparr>) im = fptr x im"
    by (simp add: fptr_def fun_eq_iff)
  then show "file_ok F (x\<lparr>i_size := n\<rparr>) im L = file_ok F x im L" "file_blocks (x\<lparr>i_size := n\<rparr>) im k = file_blocks x im k"
    by (simp_all add: file_ok_def imap_ok_def file_blocks_def)
qed

lemma holds_file_blocks:
  "holds_file s i (fs ! i) \<Longrightarrow> b \<in> inode_blocks_of s fs i \<Longrightarrow> of_nat nmeta \<le> b \<and> b < freeblock s"
  by (auto simp: holds_file_def Let_def file_ok_def imap_ok_def inode_blocks_of_def)

lemma size_of_update:
  "i < length fs \<Longrightarrow> total_blocks (fs[i := f]) + size_of (fs ! i) = total_blocks fs + size_of f"
  by (induction fs arbitrary: i) (auto simp: total_blocks_def split: nat.splits)

lemma fresh_frame:
  assumes "fresh s" "img_len t = img_len s" "freeblock t = freeblock s" "\<And>b. of_nat nmeta \<le> b \<Longrightarrow> img t b = img s b"
  shows "fresh t"
proof -
  have "img t b = zero_block" if "freeblock s \<le> b" "b < of_nat FSSIZE" for b
  proof -
    have "of_nat nmeta \<le> b"
      using assms(1) that(1) by (auto simp: fresh_def intro: order_trans)
    then show ?thesis
      using assms(1,4) that by (simp add: fresh_def)
  qed
  then show ?thesis
    using assms(1-3) by (simp add: fresh_def)
qed

text \<open>A step that leaves the blocks and the inode of a file alone.\<close>

lemma holds_file_frame:
  assumes "holds_file s i (fs ! i)" "freeblock s \<le> freeblock t" "dino t (i + 1) = dino s (i + 1)"
    "\<And>b. b \<in> inode_blocks_of s fs i \<Longrightarrow> img t b = img s b"
  shows "holds_file t i (fs ! i)" "inode_blocks_of t fs i = inode_blocks_of s fs i"
proof -
  have "same_dinode x x" for x
    by (simp add: same_dinode_def)
  from file_ok_frame [OF _ assms(2) this, of "dino s (i + 1)" "img s" "snd (fs ! i)" "img t"] assms
  show "holds_file t i (fs ! i)" "inode_blocks_of t fs i = inode_blocks_of s fs i"
    by (simp_all add: holds_file_def Let_def inode_blocks_of_def)
qed

lemma mk_ialloc_ok:
  assumes "image_ok s fs" "length fs + 1 < INODES"
  shows "\<exists>t. mk_ialloc ty s = Done (of_nat (length fs + 1), t) \<and> image_ok t (fs @ [(ty, [])])"
proof -
  let ?n = "length fs + 1"
  let ?x = "zero_inode\<lparr>i_type := ty, i_nlink := 1, i_size := 0\<rparr>" and ?u = "s\<lparr>freeinode := freeinode s + 1\<rparr>"
  have s: "img_len ?u = FSSIZE" "freeinode s = of_nat ?n" "fresh s"
    using assms(1) by (simp_all add: image_ok_def fresh_def)
  obtain d where d: "winode (of_nat ?n) ?x ?u = Done (?u\<lparr>img := d\<rparr>)" "same_dinode (dino (?u\<lparr>img := d\<rparr>) ?n) ?x"
    "\<And>j. j < INODES \<Longrightarrow> j \<noteq> ?n \<Longrightarrow> dino (?u\<lparr>img := d\<rparr>) j = dino ?u j" "\<And>b. of_nat nmeta - 1 \<le> b \<or> b < 32 \<Longrightarrow> d b = img ?u b"
    using winode_ok [OF s(1) assms(2), of ?x] by blast
  define t where "t = ?u\<lparr>img := d\<rparr>"
  have t: "img_len t = img_len s" "freeblock t = freeblock s" "freeinode t = freeinode s + 1" "img t = d"
    by (simp_all add: t_def)
  have dj: "dino t j = dino s j" if "j < INODES" "j \<noteq> ?n" for j
    using d(3) [OF that] by (simp add: t_def dino_def)
  have db: "d b = img s b" if "of_nat nmeta \<le> b \<or> b < 32" for b
    using d(4) [of b] that by (auto simp: word_le_nat_alt)
  have fr: "fresh t"
    by (rule fresh_frame [OF s(3)]) (simp_all add: t db)
  have old: "holds_file t i (fs ! i)" "inode_blocks_of t fs i = inode_blocks_of s fs i" if "i < length fs" for i
  proof -
    have h: "holds_file s i (fs ! i)"
      using assms(1) that by (simp add: image_ok_def)
    have "dino t (i + 1) = dino s (i + 1)"
      using that assms(2) by (intro dj) simp_all
    from holds_file_frame [OF h _ this] show "holds_file t i (fs ! i)" "inode_blocks_of t fs i = inode_blocks_of s fs i"
      using db holds_file_blocks [OF h] by (simp_all add: t)
  qed
  have x: "i_type (dino t ?n) = ty" "i_nlink (dino t ?n) = 1" "i_size (dino t ?n) = 0" "\<And>k. k < 13 \<Longrightarrow> i_addrs (dino t ?n) k = 0"
    using d(2) by (simp_all add: t_def same_dinode_def zero_inode_def)
  have "imap_ok F (dino t ?n) (img t) 0" for F
    using x(4) by (simp add: imap_ok_def fptr_def file_blocks_def)
  then have new: "holds_file t (length fs) (ty, [])" "file_blocks (dino t ?n) (img t) 0 = {}"
    using x(1-3) by (simp_all add: holds_file_def Let_def file_ok_def nblocks_def file_blocks_def)
  have nth: "inode_blocks_of t (fs @ [(ty, [])]) i = (if i < length fs then inode_blocks_of s fs i else {})" if "i < length fs + 1" for i
    using old(2) [of i] new(2) that by (auto simp: inode_blocks_of_def nth_append nblocks_def less_Suc_eq)
  have "image_ok t (fs @ [(ty, [])])"
    unfolding image_ok_def
    using assms fr old(1) new(1) s(2) nth db
    by (auto simp: image_ok_def t total_blocks_def with_table_def nblocks_def nth_append less_Suc_eq)
  moreover have "mk_ialloc ty s = Done (of_nat ?n, t)"
    using d(1) s(2) by (simp add: mk_ialloc_def Let_def t_def)
  ultimately show ?thesis
    by blast
qed

text \<open>The state after \<open>iappend\<close>: the inode is written back behind the loop.\<close>

lemma append_written:
  assumes im: "image_ok s fs" and i: "i < length fs" "fs ! i = (ty, L)" and a: "appended s (dino s (i + 1)) L u y p"
  obtains t where "winode (of_nat (i + 1)) (y\<lparr>i_size := of_nat (length (L @ p))\<rparr>) u = Done t"
    "fresh t" "freeblock t = freeblock u" "freeinode t = freeinode s" "\<forall>b<32. img t b = img s b" "holds_file t i (ty, L @ p)"
    "file_blocks (dino t (i + 1)) (img t) (nblocks (length (L @ p))) \<subseteq> inode_blocks_of s fs i \<union> {freeblock s..<freeblock u}"
    "\<And>j. j < INODES \<Longrightarrow> j \<noteq> i + 1 \<Longrightarrow> dino t j = dino s j"
    "\<And>c. of_nat nmeta \<le> c \<Longrightarrow> c \<notin> inode_blocks_of s fs i \<Longrightarrow> c < freeblock s \<Longrightarrow> img t c = img s c"
proof -
  let ?x = "dino s (i + 1)" and ?y = "y\<lparr>i_size := of_nat (length (L @ p))\<rparr>" and ?n = "nblocks (length (L @ p))"
  have n: "i + 1 < INODES" "fresh s" "holds_file s i (fs ! i)"
    using im i(1) by (simp_all add: image_ok_def)
  have u: "file_ok (freeblock u) y (img u) (L @ p)" "fresh u" "y = ?x\<lparr>i_addrs := i_addrs y\<rparr>"
      "u = s\<lparr>img := img u, freeblock := freeblock u\<rparr>"
      "\<And>c. c \<notin> inode_blocks_of s fs i \<Longrightarrow> c < freeblock s \<Longrightarrow> img u c = img s c"
      "file_blocks y (img u) ?n \<subseteq> inode_blocks_of s fs i \<union> {freeblock s..<freeblock u}"
    using a i(2) by (simp_all add: appended_def inode_blocks_of_def)
  have meta: "img u c = img s c" if "c < of_nat nmeta" for c
  proof (rule u(5))
    show "c \<notin> inode_blocks_of s fs i"
      using holds_file_blocks [OF n(3)] that by (auto simp: not_le [symmetric])
    show "c < freeblock s"
      using n(2) that by (auto simp: fresh_def intro: less_le_trans)
  qed
  have "img_len u = FSSIZE"
    using u(2) by (simp add: fresh_def)
  then obtain d where d: "winode (of_nat (i + 1)) ?y u = Done (u\<lparr>img := d\<rparr>)" "same_dinode (dino (u\<lparr>img := d\<rparr>) (i + 1)) ?y"
    "\<And>j. j < INODES \<Longrightarrow> j \<noteq> i + 1 \<Longrightarrow> dino (u\<lparr>img := d\<rparr>) j = dino u j" "\<And>b. of_nat nmeta - 1 \<le> b \<or> b < 32 \<Longrightarrow> d b = img u b"
    using winode_ok [OF _ n(1), of u ?y] by blast
  define t where "t = u\<lparr>img := d\<rparr>"
  have t: "img t = d" "freeblock t = freeblock u" "freeinode t = freeinode s" "img_len t = img_len u"
    using arg_cong [OF u(4), of freeinode] by (simp_all add: t_def)
  have db: "d b = img u b" if "of_nat nmeta \<le> b \<or> b < 32" for b
    using d(4) [of b] that by (auto simp: word_le_nat_alt)
  have ub: "of_nat nmeta \<le> b" if "b \<in> file_blocks y (img u) ?n" for b
    using u(1) that by (auto simp: file_ok_def imap_ok_def)
  have sd: "same_dinode (dino t (i + 1)) ?y"
    using d(2) by (simp add: t_def)
  have own: "file_ok (freeblock t) (dino t (i + 1)) (img t) (L @ p)" "file_blocks (dino t (i + 1)) (img t) ?n = file_blocks y (img u) ?n"
    using file_ok_frame [OF _ _ sd, of "freeblock u" "img u" "L @ p" "freeblock t" "img t"] u(1) ub db by (simp_all add: t)
  have low: "img u b = img s b" if "b < 32" for b
    using meta [of b] that by (simp add: word_less_nat_alt)
  have "i_type y = ty" "i_nlink y = 1"
    using n(3) i(2) arg_cong [OF u(3), of i_type] arg_cong [OF u(3), of i_nlink] by (simp_all add: holds_file_def Let_def)
  then have "holds_file t i (ty, L @ p)"
    using own(1) sd by (simp add: holds_file_def Let_def same_dinode_def)
  moreover have "dino t j = dino s j" if "j < INODES" "j \<noteq> i + 1" for j
    using d(3) [OF that] meta [of "IBLOCK (of_nat j) mk_sb"] IBLOCK_meta [OF that(1)] by (simp add: t_def dino_def word_less_nat_alt)
  moreover have "fresh t"
    by (rule fresh_frame [OF u(2)]) (simp_all add: t db)
  ultimately show ?thesis
    using d(1) own(2) u(5,6) db meta low by (intro that [of t]) (simp_all add: t t_def [symmetric])
qed

lemma iappend_ok:
  assumes im: "image_ok s fs" and i: "i < length fs" "fs ! i = (ty, L)" and len: "length (L @ p) \<le> MAXBLOCKS * BSIZE"
    and room: "nmeta + total_blocks (fs[i := (ty, L @ p)]) \<le> FSSIZE"
  shows "\<exists>t. iappend (of_nat (i + 1)) p s = Done t \<and> image_ok t (fs[i := (ty, L @ p)])"
proof -
  let ?fs = "fs[i := (ty, L @ p)]" and ?x = "dino s (i + 1)"
  have n: "i + 1 < INODES" "img_len s = FSSIZE" "fresh s"
    using im i(1) by (simp_all add: image_ok_def fresh_def)
  have h: "holds_file s j (fs ! j)" if "j < length fs" for j
    using im that by (simp add: image_ok_def)
  have x: "file_ok (freeblock s) ?x (img s) L" "i_size ?x = of_nat (length L)"
    using h [OF i(1)] i(2) by (simp_all add: holds_file_def Let_def)
  have tot: "total_blocks ?fs + with_table (nblocks (length L)) = total_blocks fs + with_table (nblocks (length (L @ p)))"
    using size_of_update [OF i(1), of "(ty, L @ p)"] i(2) by simp
  then have "unat (freeblock s) + with_table (nblocks (length (L @ p))) \<le> FSSIZE + with_table (nblocks (length L))"
    using room im by (simp add: image_ok_def)
  then obtain y u where y: "iappend_loop ?x (of_nat (length L)) p s = Done ((y, of_nat (length (L @ p))), u)" "appended s ?x L u y p"
    using iappend_loop_ok [OF x(1) n(3) len] by blast
  have F: "freeblock s \<le> freeblock u" "unat (freeblock u) = nmeta + total_blocks ?fs"
    using appended_free [OF y(2)] y(2) tot im by (simp_all add: appended_def image_ok_def)
  obtain t where t: "winode (of_nat (i + 1)) (y\<lparr>i_size := of_nat (length (L @ p))\<rparr>) u = Done t"
    "fresh t" "freeblock t = freeblock u" "freeinode t = freeinode s" "\<forall>b<32. img t b = img s b" "holds_file t i (ty, L @ p)"
    "file_blocks (dino t (i + 1)) (img t) (nblocks (length (L @ p))) \<subseteq> inode_blocks_of s fs i \<union> {freeblock s..<freeblock u}"
    "\<And>j. j < INODES \<Longrightarrow> j \<noteq> i + 1 \<Longrightarrow> dino t j = dino s j"
    "\<And>c. of_nat nmeta \<le> c \<Longrightarrow> c \<notin> inode_blocks_of s fs i \<Longrightarrow> c < freeblock s \<Longrightarrow> img t c = img s c"
    using append_written [OF im i y(2)] by blast
  have other: "holds_file t j (fs ! j)" "inode_blocks_of t fs j = inode_blocks_of s fs j" if j: "j < length fs" "j \<noteq> i" for j
  proof -
    have e: "dino t (j + 1) = dino s (j + 1)"
      using j im by (intro t(8)) (simp_all add: image_ok_def)
    have "inode_blocks_of s fs i \<inter> inode_blocks_of s fs j = {}"
      using im j i(1) by (auto simp: image_ok_def)
    then have "img t b = img s b" if "b \<in> inode_blocks_of s fs j" for b
      using t(9) [of b] holds_file_blocks [OF h [OF j(1)] that] that by blast
    from holds_file_frame [OF h [OF j(1)] _ e this] F(1) show "holds_file t j (fs ! j)" "inode_blocks_of t fs j = inode_blocks_of s fs j"
      by (simp_all add: t(3))
  qed
  have own: "inode_blocks_of t ?fs i \<subseteq> inode_blocks_of s fs i \<union> {freeblock s..<freeblock u}"
    using t(7) i(1) by (simp add: inode_blocks_of_def)
  have bl: "inode_blocks_of t ?fs j = inode_blocks_of s fs j" if "j < length fs" "j \<noteq> i" for j
    using other(2) [OF that] that by (simp add: inode_blocks_of_def)
  have dis: "inode_blocks_of t ?fs i \<inter> inode_blocks_of t ?fs j = {}" if j: "j < length fs" "j \<noteq> i" for j
  proof -
    have "inode_blocks_of s fs i \<inter> inode_blocks_of s fs j = {}"
      using im j i(1) by (auto simp: image_ok_def)
    moreover have "{freeblock s..<freeblock u} \<inter> inode_blocks_of s fs j = {}"
      using holds_file_blocks [OF h [OF j(1)]] by (auto simp: not_le [symmetric])
    ultimately show ?thesis
      using own bl [OF j] by blast
  qed
  have "inode_blocks_of t ?fs j \<inter> inode_blocks_of t ?fs k = {}" if "j < length fs" "k < length fs" "j \<noteq> k" for j k
    using im that dis [of j] dis [of k] bl [of j] bl [of k] by (cases "j = i"; cases "k = i") (auto simp: image_ok_def)
  then have "image_ok t ?fs"
    using im t(2-6) other(1) i(1) F(2) by (auto simp: image_ok_def nth_list_update)
  moreover have "iappend (of_nat (i + 1)) p s = Done t"
    using rinode_ok [OF n(2,1)] y(1) x(2) t(1) by (simp add: iappend_def)
  ultimately show ?thesis
    by blast
qed

subsection \<open>The files of the command line\<close>

text \<open>The contents of the inodes, from 1 on: the root directory, then the files in their order.\<close>

definition stripped :: "byte list \<Rightarrow> byte list" where
  "stripped name = (if take 1 name = [95] then tl name else name)"

definition root_entries :: "host_file list \<Rightarrow> byte list" where
  "root_entries fs = dirent_bytes 1 [46] @ dirent_bytes 1 [46, 46]
     @ concat (map (\<lambda>k. dirent_bytes (of_nat (k + 2)) (stripped (fst (fs ! k)))) [0..<length fs])"

definition image_of :: "host_file list \<Rightarrow> image_file list" where
  "image_of fs = (T_DIR, root_entries fs) # map (\<lambda>f. (T_FILE, concat (the (snd f)))) fs"

text \<open>No name has a slash, every file can be opened and is not too long, and there are inodes and blocks for all.\<close>

definition fits :: "host_file list \<Rightarrow> bool" where
  "fits fs \<longleftrightarrow> (\<forall>f\<in>set fs. 47 \<notin> set (fst f) \<and> snd f \<noteq> None \<and> length (concat (the (snd f))) \<le> MAXBLOCKS * BSIZE)
     \<and> length fs + 1 < NINODES \<and> nmeta + total_blocks (image_of fs) \<le> FSSIZE"

lemma length_dirent [simp]: "length (dirent_bytes i name) = 16"
  by (simp add: dirent_bytes_def)

lemma length_root: "length (root_entries fs) = 16 * (length fs + 2)"
  by (simp add: root_entries_def length_concat comp_def sum_list_triv)

lemma root_snoc: "root_entries (fs @ [f]) = root_entries fs @ dirent_bytes (of_nat (length fs + 2)) (stripped (fst f))"
  by (auto simp: root_entries_def nth_append intro!: arg_cong [where f = concat])

lemma total_simps [simp]: "total_blocks [] = 0" "total_blocks (f # fs) = size_of f + total_blocks fs"
  "total_blocks (fs @ gs) = total_blocks fs + total_blocks gs"
  by (simp_all add: total_blocks_def)

lemma size_mono: "length L \<le> length M \<Longrightarrow> size_of (a, L) \<le> size_of (b, M)"
  by (simp add: with_table_mono nblocks_mono)

lemma no_blocks [simp]: "with_table (nblocks 0) = 0"
  by (simp add: with_table_def nblocks_def)

lemma chunks_ok:
  assumes "image_ok s (xs @ [(ty, L)])" "length (L @ concat chunks) \<le> MAXBLOCKS * BSIZE"
    "nmeta + total_blocks (xs @ [(ty, L @ concat chunks)]) \<le> FSSIZE"
  shows "\<exists>t. foldO (iappend (of_nat (length xs + 1))) chunks s = Done t \<and> image_ok t (xs @ [(ty, L @ concat chunks)])"
  using assms
proof (induction chunks arbitrary: L s)
  case (Cons c cs)
  let ?fs = "xs @ [(ty, L)]"
  have e: "?fs[length xs := (ty, L @ c)] = xs @ [(ty, L @ c)]" "?fs ! length xs = (ty, L)" "length xs < length ?fs"
    by simp_all
  have "size_of (ty, L @ c) \<le> size_of (ty, L @ concat (c # cs))"
    by (rule size_mono) simp
  then have "nmeta + total_blocks (?fs[length xs := (ty, L @ c)]) \<le> FSSIZE" "length (L @ c) \<le> MAXBLOCKS * BSIZE"
    using Cons.prems(2,3) by (simp_all add: e(1))
  then obtain u where u: "iappend (of_nat (length xs + 1)) c s = Done u" "image_ok u (xs @ [(ty, L @ c)])"
    using iappend_ok [OF Cons.prems(1) e(3,2)] by (auto simp: e(1))
  obtain t where "foldO (iappend (of_nat (length xs + 1))) cs u = Done t" "image_ok t (xs @ [(ty, (L @ c) @ concat cs)])"
    using Cons.IH [OF u(2)] Cons.prems(2,3) by auto
  then show ?case
    using u(1) by simp
qed simp

lemma add_file_ok:
  assumes "image_ok s (image_of fs)" "fits (fs @ [f])"
  shows "\<exists>t. add_file f s = Done t \<and> image_ok t (image_of (fs @ [f]))"
proof -
  obtain name chunks where f: "f = (name, Some chunks)" "47 \<notin> set name" "length (concat chunks) \<le> MAXBLOCKS * BSIZE"
    using assms(2) by (cases f) (auto simp: fits_def)
  let ?ino = "of_nat (length fs + 2) :: u32" and ?tail = "map (\<lambda>f. (T_FILE, concat (the (snd f)))) fs"
  let ?d = "dirent_bytes ?ino (stripped name)"
  have len: "length fs + 2 < NINODES" and room: "nmeta + total_blocks (image_of (fs @ [f])) \<le> FSSIZE"
    using assms(2) by (simp_all add: fits_def)
  have im: "image_of fs = (T_DIR, root_entries fs) # ?tail"
    "image_of (fs @ [f]) = ((T_DIR, root_entries fs @ ?d) # ?tail) @ [(T_FILE, concat chunks)]"
    by (simp_all add: image_of_def root_snoc f(1))
  obtain u where u: "mk_ialloc T_FILE s = Done (?ino, u)" "image_ok u (image_of fs @ [(T_FILE, [])])"
    using mk_ialloc_ok [OF assms(1), of T_FILE] len by (auto simp: im(1))
  let ?fs = "image_of fs @ [(T_FILE, [])]"
  have e: "?fs[0 := (T_DIR, root_entries fs @ ?d)] = ((T_DIR, root_entries fs @ ?d) # ?tail) @ [(T_FILE, [])]"
    "?fs ! 0 = (T_DIR, root_entries fs)" "0 < length ?fs"
    by (simp_all add: im(1))
  have n: "length (root_entries fs @ ?d) \<le> MAXBLOCKS * BSIZE" "nmeta + total_blocks (?fs[0 := (T_DIR, root_entries fs @ ?d)]) \<le> FSSIZE"
    unfolding e(1) using len room by (simp_all add: length_root im(2))
  obtain v where v: "iappend 1 ?d u = Done v" "image_ok v (((T_DIR, root_entries fs @ ?d) # ?tail) @ [(T_FILE, [])])"
    using iappend_ok [OF u(2) e(3,2) n] unfolding e(1) by auto
  obtain t where t: "foldO (iappend ?ino) chunks v = Done t" "image_ok t (image_of (fs @ [f]))"
    using chunks_ok [OF v(2), of chunks] f(3) room by (auto simp: im(2) add.commute [of 2])
  have "add_file f s = Done t"
    unfolding add_file_def stripped_def [symmetric] Let_def using f(1,2) u(1) v(1) t(1) by simp
  then show ?thesis
    using t(2) by blast
qed

lemma zeroed:
  "n \<le> FSSIZE \<Longrightarrow> fold (\<lambda>i. wsect (of_nat i) zero_block) [0..<n] s
     = s\<lparr>img := (\<lambda>b. if unat b < n then zero_block else img s b), img_len := max (img_len s) n\<rparr>"
proof (induction n)
  case (Suc n)
  have "sect (of_nat n) = of_nat n" "unat (of_nat n :: u32) = n"
    using Suc.prems by (simp_all add: sect_small unat_of_nat)
  moreover have "(\<lambda>b. if unat b < Suc n then zero_block else img s b) = (\<lambda>b. if unat b < n then zero_block else img s b)(of_nat n := zero_block)"
    using Suc.prems by (auto simp: fun_eq_iff less_Suc_eq word_unat_eq_iff unat_of_nat)
  ultimately show ?case
    using Suc by (simp add: wsect_def max_def)
qed simp

lemma mk_root_ok: "\<exists>t. mk_root = Done t \<and> image_ok t (image_of [])"
proof -
  let ?s = "\<lparr>img = (\<lambda>_. zero_block), img_len = 0, freeinode = 1, freeblock = of_nat nmeta\<rparr>"
  define u where "u = wsect 1 (encode_sb mk_sb) (fold (\<lambda>i. wsect (of_nat i) zero_block) [0..<FSSIZE] ?s)"
  have u: "img u = (\<lambda>_. zero_block)(1 := encode_sb mk_sb)" "img_len u = FSSIZE" "freeinode u = 1" "freeblock u = of_nat nmeta"
    unfolding u_def zeroed [OF order_refl] by (simp_all add: wsect_def sect_def if_cancel cong: if_cong)
  have "image_ok u []"
    by (auto simp: image_ok_def fresh_def u word_le_nat_alt boot_area_def)
  then obtain v where v: "mk_ialloc T_DIR u = Done (1, v)" "image_ok v [(T_DIR, [])]"
    using mk_ialloc_ok [of u "[]" T_DIR] by auto
  have b: "nblocks 16 = 1" "nblocks 32 = 1"
    by (simp_all add: nblocks_def)
  obtain w where w: "iappend 1 (dirent_bytes 1 [46]) v = Done w" "image_ok w [(T_DIR, dirent_bytes 1 [46])]"
    using iappend_ok [OF v(2), of 0 T_DIR "[]" "dirent_bytes 1 [46]"] b by (auto simp: with_table_def)
  obtain t where t: "iappend 1 (dirent_bytes 1 [46, 46]) w = Done t" "image_ok t [(T_DIR, dirent_bytes 1 [46] @ dirent_bytes 1 [46, 46])]"
    using iappend_ok [OF w(2), of 0 T_DIR "dirent_bytes 1 [46]" "dirent_bytes 1 [46, 46]"] b by (auto simp: with_table_def)
  have "mk_root = Done t"
    using v(1) w(1) t(1) by (simp add: mk_root_def Let_def u_def)
  then show ?thesis
    using t(2) by (auto simp: image_of_def root_entries_def)
qed

lemma fits_prefix: "fits (fs @ [f]) \<Longrightarrow> fits fs"
proof -
  assume a: "fits (fs @ [f])"
  have "size_of (T_DIR, root_entries fs) \<le> size_of (T_DIR, root_entries (fs @ [f]))"
    by (rule size_mono) (simp add: root_snoc)
  then show "fits fs"
    using a by (simp add: fits_def image_of_def)
qed

lemma add_files_ok:
  assumes "image_ok s (image_of [])" "fits fs"
  shows "\<exists>t. foldO add_file fs s = Done t \<and> image_ok t (image_of fs)"
  using assms(2)
proof (induction fs rule: rev_induct)
  case Nil
  then show ?case
    using assms(1) by simp
next
  case (snoc f fs)
  then obtain u where "foldO add_file fs s = Done u" "image_ok u (image_of fs)"
    using fits_prefix by blast
  then show ?case
    using add_file_ok [OF _ snoc.prems] by (fastforce simp: foldO_append)
qed

lemma mk_bitmap_bit: "n \<le> 4096 \<Longrightarrow> b < 4096 \<Longrightarrow> bmap_bit (mk_bitmap n) b \<longleftrightarrow> b < n"
proof (induction n)
  case 0
  show ?case
    by (simp add: mk_bitmap_def bmap_bit_def zero_block_def)
next
  case (Suc n)
  have "mk_bitmap (Suc n) = set_bmap_bit n (mk_bitmap n)"
    by (simp add: mk_bitmap_def)
  then show ?case
    using Suc by auto
qed

text \<open>The size of the root directory is rounded up, and the bitmap is written; files and blocks stay.\<close>

definition final_size :: "image_file list \<Rightarrow> nat \<Rightarrow> nat" where
  "final_size fs i = (let n = length (snd (fs ! i)) in if i = 0 then (n div BSIZE + 1) * BSIZE else n)"

lemma mk_end_ok:
  assumes im: "image_ok s fs" and fs: "0 < length fs" "length (snd (fs ! 0)) \<le> MAXBLOCKS * BSIZE" "nmeta + total_blocks fs \<le> FSSIZE"
  shows "\<exists>t. mk_end s = Done t \<and> img_len t = FSSIZE \<and> freeblock t = freeblock s \<and> (\<forall>b<32. img t b = boot_area b)
    \<and> img t (sb_bmapstart mk_sb) = mk_bitmap (unat (freeblock s))
    \<and> (\<forall>i<length fs. i_type (dino t (i + 1)) = fst (fs ! i) \<and> i_nlink (dino t (i + 1)) = 1
      \<and> i_size (dino t (i + 1)) = of_nat (final_size fs i) \<and> file_ok (freeblock t) (dino t (i + 1)) (img t) (snd (fs ! i))
      \<and> inode_blocks_of t fs i = inode_blocks_of s fs i)"
proof -
  let ?x = "dino s 1" and ?sz = "of_nat ((length (snd (fs ! 0)) div BSIZE + 1) * BSIZE) :: u32"
  let ?y = "?x\<lparr>i_size := ?sz\<rparr>" and ?bm = "sb_bmapstart mk_sb"
  have h: "holds_file s i (fs ! i)" if "i < length fs" for i
    using im that by (simp add: image_ok_def)
  have s: "img_len s = FSSIZE" "length fs < INODES" "unat (freeblock s) = nmeta + total_blocks fs" "\<forall>b<32. img s b = boot_area b"
    using im by (simp_all add: image_ok_def fresh_def)
  have bm: "?bm = of_nat nmeta - 1"
    by (simp add: mk_sb_def)
  have one: "1 < INODES"
    by simp
  obtain d where d: "winode (of_nat 1) ?y s = Done (s\<lparr>img := d\<rparr>)" "same_dinode (dino (s\<lparr>img := d\<rparr>) 1) ?y"
    "\<And>j. j < INODES \<Longrightarrow> j \<noteq> 1 \<Longrightarrow> dino (s\<lparr>img := d\<rparr>) j = dino s j" "\<And>b. of_nat nmeta - 1 \<le> b \<or> b < 32 \<Longrightarrow> d b = img s b"
    using winode_ok [OF s(1) one, of ?y] by blast
  define t where "t = s\<lparr>img := d(?bm := mk_bitmap (unat (freeblock s)))\<rparr>"
  have sz: "(i_size ?x div of_nat BSIZE + 1) * of_nat BSIZE = ?sz"
  proof -
    have "i_size ?x = of_nat (length (snd (fs ! 0)))"
      using h [OF fs(1)] by (simp add: holds_file_def Let_def)
    moreover have "of_nat n div 512 = (of_nat (n div 512) :: u32)" if "n < 2 ^ 32" for n
      using that by (simp add: word_unat_eq_iff unat_div_distrib unat_of_nat)
    ultimately show ?thesis
      using fs(2) by simp
  qed
  have "uint (freeblock s) = int (nmeta + total_blocks fs)"
    using s(3) by (metis uint_nat)
  then have "sint (freeblock s) = int (unat (freeblock s))"
    using s(3) fs(3) by (simp add: sint_uint signed_take_bit_int_eq_self)
  then have "mk_balloc (freeblock s) (s\<lparr>img := d\<rparr>) = Done t"
    using s(1,3) fs(3) wsect_ok [of "s\<lparr>img := d\<rparr>" ?bm] by (simp add: mk_balloc_def t_def bm less_FSSIZE nat_add_distrib)
  moreover have "rinode ROOTINO s = Done ?x" "winode ROOTINO ?y s = Done (s\<lparr>img := d\<rparr>)" "freeblock (s\<lparr>img := d\<rparr>) = freeblock s"
    using rinode_ok [OF s(1) one] d(1) by simp_all
  ultimately have run: "mk_end s = Done t"
    by (simp only: mk_end_def sz bindO.simps)
  have dj: "dino t j = dino (s\<lparr>img := d\<rparr>) j" if "j < INODES" for j
    using IBLOCK_meta [OF that] by (auto simp: dino_def t_def bm)
  have sd: "same_dinode (dino t (i + 1)) (if i = 0 then ?y else dino s (i + 1))" if "i < length fs" for i
    using d(2,3) dj [of "i + 1"] that s(2) by (auto simp: same_dinode_def)
  have blk: "img t b = img s b" if "i < length fs" "b \<in> inode_blocks_of s fs i" for i b
    using d(4) [of b] holds_file_blocks [OF h that(2)] that(1) by (auto simp: t_def bm word_le_nat_alt)
  have x: "file_ok (freeblock s) (if i = 0 then ?y else dino s (i + 1)) (img s) (snd (fs ! i))"
      "file_blocks (if i = 0 then ?y else dino s (i + 1)) (img s) (nblocks (length (snd (fs ! i)))) = inode_blocks_of s fs i"
    if "i < length fs" for i
    using h [OF that] by (auto simp: holds_file_def Let_def inode_blocks_of_def)
  have own: "file_ok (freeblock t) (dino t (i + 1)) (img t) (snd (fs ! i))" "inode_blocks_of t fs i = inode_blocks_of s fs i" if i: "i < length fs" for i
    using file_ok_frame [OF x(1) [OF i] _ sd [OF i], of "freeblock t" "img t"] blk [OF i] x(2) [OF i]
    by (simp_all add: t_def inode_blocks_of_def)
  have f: "i_type (dino t (i + 1)) = fst (fs ! i) \<and> i_nlink (dino t (i + 1)) = 1 \<and> i_size (dino t (i + 1)) = of_nat (final_size fs i)"
    if "i < length fs" for i
    using sd [OF that] h [OF that] by (cases "i = 0") (simp_all add: holds_file_def Let_def final_size_def same_dinode_def)
  show ?thesis
    using run f own s(1,4) d(4) by (intro exI [of _ t]) (auto simp: t_def bm)
qed

text \<open>
  The image as the kernel finds it: the log is empty, so that recovery leaves the disk as it is, and the layout is
  the one the file system relies on.
\<close>

lemma decode_encode_sb: "decode_sb (encode_sb mk_sb) = mk_sb"
  by (simp add: decode_sb_def encode_sb_def mk_sb_def getput_simps)

lemma mk_log_region: "b \<in> log_region 2 30 \<longleftrightarrow> 2 \<le> unat b \<and> unat b < 32"
  using log_region_iff [of 2 30 2000 b] by (simp add: log_fits_def)

lemma boot_area_idle:
  assumes "\<forall>b<32. im b = boot_area b"
  shows "recoverable 2 30 (of_nat FSSIZE) im im"
proof -
  have b: "im 1 = encode_sb mk_sb" "im 2 = zero_block"
    using assms by (simp_all add: boot_area_def word_less_nat_alt)
  have h: "get32 (im 2) 0 = 0" "head_of (im 2) = []"
    by (simp_all add: b(2) head_of_def get32_def zero_block_def)
  have "sb_logstart mk_sb = 2" "sint (sb_nlog mk_sb) = 30"
    by (simp_all add: mk_sb_def)
  then show ?thesis
    by (simp add: recoverable_def h log_geo_def log_fits_def b(1) decode_encode_sb mk_log_region)
qed

lemma boot_area_geo:
  assumes "\<forall>b<32. im b = boot_area b" "\<And>b. b < BPB \<Longrightarrow> bmap_bit (im (sb_bmapstart mk_sb)) b \<longleftrightarrow> b < n" "nmeta \<le> n"
    and s: "bview s = im" "sb s = mk_sb" "log_start s = 2" "log_size s = 30" "FSSIZE \<le> unat (disksize s)"
  shows "fs_geo s"
proof -
  have sz: "unat (sb_size mk_sb) = 2000" "sb_ninodes mk_sb = 200"
    by (simp_all add: mk_sb_def)
  have bb: "BBLOCK b mk_sb = 58" if "b < 2000" for b
    using that by (simp add: BBLOCK_def mk_sb_def)
  have ib: "32 \<le> unat (IBLOCK i mk_sb) \<and> unat (IBLOCK i mk_sb) < 58" if "i < 200" for i
  proof -
    have "unat i < 200"
      using that by (simp add: word_less_nat_alt)
    then show ?thesis
      using IBLOCK_mk [of "unat i"] by simp
  qed
  have B: "bitmap_blocks s \<subseteq> {58}" "\<And>b. b \<in> inode_blocks s \<Longrightarrow> 32 \<le> unat b \<and> unat b < 58"
    using bb ib by (auto simp: bitmap_blocks_def inode_blocks_def s(2) sz)
  have tx: "tx_block s b" if "32 \<le> unat b" "unat b < 59" for b
    using that s(5) by (auto simp: tx_block_def s(3,4) mk_log_region word_less_nat_alt)
  have used: "in_use s b" if "unat b < 59" for b
    using that assms(2) [of "unat b"] assms(3) bb [of "unat b"] by (simp add: in_use_def s(1,2) mk_sb_def)
  have "decode_sb (bview s 1) = sb s"
    using assms(1) by (simp add: s(1,2) boot_area_def decode_encode_sb word_less_nat_alt)
  moreover have "tx_block s b" if "b \<in> bitmap_blocks s \<union> inode_blocks s" for b
    using that B(1) B(2) [of b] by (fastforce intro: tx)
  moreover have "bitmap_blocks s \<inter> inode_blocks s = {}"
    using B by force
  moreover have "in_use s b" if "meta_block s b" for b
    using that B(1) B(2) [of b] by (auto simp: meta_block_def s(3,4) mk_log_region intro!: used)
  ultimately show ?thesis
    using s(5) by (simp add: fs_geo_def s(2) sz)
qed

text \<open>
  C38. The image of \<open>mkfs\<close>. If no name has a slash, every file can be opened, none is longer than the direct and the
  indirect blocks hold, and there are inodes and blocks for all, \<open>mkfs\<close> ends with an image of \<open>FSSIZE\<close> sectors, in which
  inode 1 is the root directory with \<open>.\<close>, \<open>..\<close> and an entry for every file, the others are the files with their
  contents, and their blocks lie between the meta data and the first free block, each in one file only. The bitmap
  marks exactly the blocks below that one. The kernel finds an empty log in it and, with the super block read,
  the layout \<open>fs_geo\<close> of its file system.
\<close>

theorem mkfs_builds_image:
  assumes "fits fs"
  shows "\<exists>t. mkfs fs = Done t \<and> img_len t = FSSIZE \<and> img t 1 = encode_sb mk_sb
    \<and> (\<forall>i<length (image_of fs). case image_of fs ! i of (ty, L) \<Rightarrow> let x = dino t (i + 1) in
         i_type x = ty \<and> i_nlink x = 1 \<and> i_size x = of_nat (final_size (image_of fs) i)
         \<and> (\<forall>k<length L. img t (fptr x (img t) (k div BSIZE)) (k mod BSIZE) = L ! k)
         \<and> (\<forall>b\<in>inode_blocks_of t (image_of fs) i. of_nat nmeta \<le> b \<and> b < freeblock t)
         \<and> (\<forall>j<length (image_of fs). i \<noteq> j \<longrightarrow> inode_blocks_of t (image_of fs) i \<inter> inode_blocks_of t (image_of fs) j = {}))
    \<and> unat (freeblock t) = nmeta + total_blocks (image_of fs)
    \<and> (\<forall>b<BPB. bmap_bit (img t (sb_bmapstart mk_sb)) b \<longleftrightarrow> b < unat (freeblock t))
    \<and> recoverable 2 30 (of_nat FSSIZE) (img t) (img t)
    \<and> (\<forall>s. bview s = img t \<and> sb s = decode_sb (img t 1) \<and> log_start s = 2 \<and> log_size s = 30 \<and> FSSIZE \<le> unat (disksize s)
         \<longrightarrow> fs_geo s)"
proof -
  let ?fs = "image_of fs"
  obtain r where r: "mk_root = Done r" "image_ok r (image_of [])"
    using mk_root_ok by blast
  obtain s where s: "foldO add_file fs r = Done s" "image_ok s ?fs"
    using add_files_ok [OF r(2) assms] by blast
  have len: "0 < length ?fs" "length (snd (?fs ! 0)) \<le> MAXBLOCKS * BSIZE" "nmeta + total_blocks ?fs \<le> FSSIZE"
    using assms by (simp_all add: fits_def image_of_def length_root)
  obtain t where t: "mk_end s = Done t" "img_len t = FSSIZE" "freeblock t = freeblock s" "\<forall>b<32. img t b = boot_area b"
    "img t (sb_bmapstart mk_sb) = mk_bitmap (unat (freeblock s))"
    and f: "\<forall>i<length ?fs. i_type (dino t (i + 1)) = fst (?fs ! i) \<and> i_nlink (dino t (i + 1)) = 1
      \<and> i_size (dino t (i + 1)) = of_nat (final_size ?fs i) \<and> file_ok (freeblock t) (dino t (i + 1)) (img t) (snd (?fs ! i))
      \<and> inode_blocks_of t ?fs i = inode_blocks_of s ?fs i"
    using mk_end_ok [OF s(2) len] by blast
  have F: "unat (freeblock s) = nmeta + total_blocks ?fs"
    using s(2) by (simp add: image_ok_def)
  have blocks: "of_nat nmeta \<le> b \<and> b < freeblock t" if "i < length ?fs" "b \<in> inode_blocks_of t ?fs i" for i b
    using t(3) f that(1) holds_file_blocks [of s i ?fs b] s(2) that by (simp add: image_ok_def)
  have apart: "inode_blocks_of t ?fs i \<inter> inode_blocks_of t ?fs j = {}" if "i < length ?fs" "j < length ?fs" "i \<noteq> j" for i j
    using s(2) that f by (simp add: image_ok_def)
  have data: "img t (fptr (dino t (i + 1)) (img t) (k div BSIZE)) (k mod BSIZE) = snd (?fs ! i) ! k"
    if "i < length ?fs" "k < length (snd (?fs ! i))" for i k
    using f that by (simp add: file_ok_def)
  have inodes: "case ?fs ! i of (ty, L) \<Rightarrow> let x = dino t (i + 1) in
         i_type x = ty \<and> i_nlink x = 1 \<and> i_size x = of_nat (final_size ?fs i)
         \<and> (\<forall>k<length L. img t (fptr x (img t) (k div BSIZE)) (k mod BSIZE) = L ! k)
         \<and> (\<forall>b\<in>inode_blocks_of t ?fs i. of_nat nmeta \<le> b \<and> b < freeblock t)
         \<and> (\<forall>j<length ?fs. i \<noteq> j \<longrightarrow> inode_blocks_of t ?fs i \<inter> inode_blocks_of t ?fs j = {})" if "i < length ?fs" for i
    unfolding case_prod_unfold Let_def
    using f that data [OF that] blocks [OF that] apart [OF that] by blast
  have bits: "bmap_bit (img t (sb_bmapstart mk_sb)) b \<longleftrightarrow> b < unat (freeblock t)" if "b < BPB" for b
    unfolding t(3,5) using F len(3) that by (intro mk_bitmap_bit) simp_all
  have one: "img t 1 = encode_sb mk_sb"
    using t(4) by (simp add: boot_area_def word_less_nat_alt)
  show ?thesis
  proof (intro exI [of _ t] conjI allI impI)
    show "mkfs fs = Done t"
      unfolding mkfs_def r(1) using s(1) t(1) by simp
    show "unat (freeblock t) = nmeta + total_blocks ?fs"
      using F by (simp only: t(3))
    show "fs_geo s" if "bview s = img t \<and> sb s = decode_sb (img t 1) \<and> log_start s = 2 \<and> log_size s = 30 \<and> FSSIZE \<le> unat (disksize s)" for s
      using that F by (intro boot_area_geo [OF t(4) bits]) (simp_all add: t(3) one decode_encode_sb)
  qed (rule t(2) one inodes bits boot_area_idle [OF t(4)]; assumption)+
qed

text \<open>C38 applied: the programs \<open>_ls\<close>, read in two pieces, and \<open>README\<close>, empty.\<close>

definition demo_files :: "host_file list" where
  "demo_files = [([95, 108, 115], Some [replicate 512 1, [2, 3]]), ([82, 69, 65, 68, 77, 69], Some [])]"

theorem mkfs_builds_image_witness:
  "fits demo_files \<and> (\<exists>t. mkfs demo_files = Done t \<and> i_size (dino t 2) = 514 \<and> i_size (dino t 3) = 0
     \<and> unat (freeblock t) = nmeta + 3)"
proof -
  have im: "image_of demo_files = [(T_DIR, root_entries demo_files), (T_FILE, replicate 512 1 @ [2, 3]), (T_FILE, [])]"
    by (simp add: image_of_def demo_files_def)
  have tot: "total_blocks (image_of demo_files) = 3"
    unfolding im by (simp add: length_root nblocks_def with_table_def) (simp add: demo_files_def)
  have f: "fits demo_files"
    unfolding fits_def tot by (simp add: demo_files_def)
  have l: "length (image_of demo_files) = 3" "image_of demo_files ! 1 = (T_FILE, replicate 512 1 @ [2, 3])"
      "image_of demo_files ! 2 = (T_FILE, [])"
    by (simp_all add: im)
  obtain t where t: "mkfs demo_files = Done t" "unat (freeblock t) = nmeta + 3"
    and all: "\<forall>i<3. case image_of demo_files ! i of (ty, L) \<Rightarrow> i_size (dino t (i + 1)) = of_nat (final_size (image_of demo_files) i)"
    using mkfs_builds_image [OF f] unfolding tot l(1) by (fastforce simp: Let_def case_prod_unfold)
  have "i_size (dino t 2) = 514" "i_size (dino t 3) = 0"
    using all [rule_format, of 1] all [rule_format, of 2] l(2,3) by (simp_all add: final_size_def numeral_2_eq_2 numeral_3_eq_3)
  then show ?thesis
    using f t by blast
qed

end
