(* ===== verification/LogRoom.thy ===== *)
theory LogRoom
  imports FsAlloc
begin

text \<open>
  The room that \<open>begin_op\<close> reserves in the log (\<open>log.c\<close>) against what the operations it admits may write: runs of
  \<open>bzero\<close> that fill the log up to its last block.
\<close>

text \<open>\<open>bzero\<close> of a block that is not yet in the transaction takes one slot of the log; without a slot it panics.\<close>

lemma lh_n_logged: "log_inv s \<Longrightarrow> lh_n s = int (length (logged s))"
  by (simp add: log_inv_def trans_ok_def logged_def)

lemma log_room_read:
  assumes "log_inv s" "heldb s = {}" "b < disksize s"
  obtains i t where "bread 1 b s = Done (i, t)" "log_inv t" "holds t i b" "heldb t = {b}" "bc_frame s t" "tx_frame s t"
proof -
  have "card (dirtyb s) < NBUF"
    using assms(1) card_logged [of s "dirtyb s"] by (simp add: log_inv_def)
  then obtain i t where t: "bread 1 b s = Done (i, t)" "bread_spec b s i t"
    using bread_obtain [of s b] assms by (auto simp: log_inv_def)
  note f = t(2) [unfolded bread_spec_def]
  have fr: "bc_frame s t" "memdisk t = memdisk s" "dwrites t = dwrites s" "dirtyb t = dirtyb s" "bc_inv t"
    using f by blast+
  show ?thesis
    using t(1) log_inv_frame [OF fr(1,2,4,5) assms(1)] f assms(2) fr(1) tx_frame_bc [OF fr(1-3)] by (intro that) auto
qed

lemma bzero_logs:
  assumes "log_inv s" "heldb s = {}" "tx_block s b" "b \<notin> set (logged s)" "lh_n s + 1 < log_size s" "1 \<le> log_outstanding s"
  shows "\<exists>t. bzero 1 b s = Done t \<and> log_inv t \<and> heldb t = {} \<and> tx_frame s t \<and> logged t = logged s @ [b]"
proof -
  obtain i t where t: "bread 1 b s = Done (i, t)" "log_inv t" "holds t i b" "heldb t = {b}" "bc_frame s t" "tx_frame s t"
    using log_room_read [OF assms(1,2)] assms(3) by (metis tx_block_def)
  have e: "logged t = logged s" "tx_block t b" "lh_n t = lh_n s" "log_size t = log_size s" "log_outstanding t = log_outstanding s"
    using assms(3) by (simp_all add: logged_def tx_block_def bc_frame_sels [OF t(5)])
  let ?d = "fill_bytes BSIZE 0 0 (b_data (bufs t i))"
  obtain u where u: "log_write i (set_data i ?d t) = Done u" "logged_spec b ?d t u"
    using log_write_spec [OF t(2,3) e(2)] assms(5,6) e by (auto simp: returns_def)
  note f = u(2) [unfolded logged_spec_def]
  have iu: "log_inv u" "holds u i b" "heldb u = {b}" "tx_frame t u" "logged u = logged s @ [b]"
    using f t(3,4) e(1) assms(4) by simp_all
  then have "bc_inv u"
    by (simp add: log_inv_def)
  obtain v where v: "brelse i u = Done v" "released_spec b u v"
    using brelse_obtain [OF \<open>bc_inv u\<close> iu(2)] by blast
  note g = v(2) [unfolded released_spec_def]
  have fr: "bc_frame u v" "memdisk v = memdisk u" "dwrites v = dwrites u" "dirtyb v = dirtyb u" "bc_inv v"
    using g by blast+
  have "logged v = logged s @ [b]"
    using iu(5) by (simp add: logged_def bc_frame_sels [OF fr(1)])
  moreover have "bzero 1 b s = Done v"
    using t(1) u(1) v(1) by (simp add: bzero_def)
  ultimately show ?thesis
    using log_inv_frame [OF fr(1,2,4,5) iu(1)] g iu(3) tx_frame_trans [OF t(6) tx_frame_trans [OF iu(4) tx_frame_bc [OF fr(1-3)]]]
    by simp
qed

lemma bzero_overflows:
  assumes "log_inv s" "heldb s = {}" "tx_block s b" "lh_n s + 1 = log_size s"
  shows "bzero 1 b s = Panic ''too big a transaction''"
proof -
  obtain i t where t: "bread 1 b s = Done (i, t)" "bc_frame s t"
    using log_room_read [OF assms(1,2)] assms(3) by (metis tx_block_def)
  have "lh_n t + 1 = log_size t"
    using assms(4) by (simp add: bc_frame_sels [OF t(2)])
  then have "log_write i (set_data i d t) = Panic ''too big a transaction''" for d
    by (simp add: log_write_def set_data_def upd_buf_def)
  then show ?thesis
    using t(1) by (simp add: bzero_def)
qed

lemma bzeros_log:
  assumes "log_inv s" "heldb s = {}" "\<forall>b\<in>set bs. tx_block s b" "distinct (logged s @ bs)"
    "lh_n s + int (length bs) < log_size s" "1 \<le> log_outstanding s"
  shows "\<exists>t. foldO (bzero 1) bs s = Done t \<and> log_inv t \<and> heldb t = {} \<and> tx_frame s t \<and> logged t = logged s @ bs"
  using assms
proof (induction bs arbitrary: s)
  case (Cons b bs)
  obtain t where t: "bzero 1 b s = Done t" "log_inv t" "heldb t = {}" "tx_frame s t" "logged t = logged s @ [b]"
    using bzero_logs [of s b] Cons.prems by auto
  note sel = tx_frame_sels [OF t(4)]
  have "lh_n t = lh_n s + 1"
    using t(5) lh_n_logged [OF t(2)] lh_n_logged [OF Cons.prems(1)] by simp
  then obtain u where "foldO (bzero 1) bs t = Done u" "log_inv u" "heldb u = {}" "tx_frame t u" "logged u = logged s @ b # bs"
    using Cons.IH [OF t(2,3)] Cons.prems t(5) by (auto simp: sel tx_block_def)
  then show ?case
    using t(1,4) tx_frame_trans by auto
qed simp

text \<open>
  C4. \<open>begin_op\<close> reserves more than the log holds. With the log that \<open>mkfs\<close> makes, 30 blocks of which 29 can be
  used, it admits three operations into an empty log and makes a fourth one wait. When each of the three then zeroes
  the \<open>MAXOPBLOCKS = 10\<close> blocks it reserved, whichever blocks these are, the first 29 are written and the last one panics.
\<close>

theorem begin_op_overcommits:
  assumes "log_inv s" "heldb s = {}" "lh_n s = 0" "log_outstanding s = 0" "\<not> log_committing s" "log_size s = LOGSIZE"
    and bs: "distinct bs" "int (length bs) = 3 * MAXOPBLOCKS" "\<forall>b\<in>set bs. tx_block s b"
  shows "\<exists>a b c d. begin_op s = Done a \<and> begin_op a = Done b \<and> begin_op b = Done c \<and> begin_op c = Sleeps
    \<and> foldO (bzero 1) (take 29 bs) c = Done d \<and> lh_n d = 29
    \<and> foldO (bzero 1) bs c = Panic ''too big a transaction''"
proof -
  let ?c = "s\<lparr>log_outstanding := 3\<rparr>"
  have c: "begin_op s = Done (s\<lparr>log_outstanding := 1\<rparr>)" "begin_op (s\<lparr>log_outstanding := 1\<rparr>) = Done (s\<lparr>log_outstanding := 2\<rparr>)"
      "begin_op (s\<lparr>log_outstanding := 2\<rparr>) = Done ?c" "begin_op ?c = Sleeps"
    using assms(3-6) by (simp_all add: begin_op_def)
  have e: "log_inv ?c" "heldb ?c = {}" "logged ?c = []" "\<forall>b\<in>set bs. tx_block ?c b"
    using assms(1-3) bs(3) bc_same [of ?c s] by (simp_all add: log_inv_def trans_ok_def logged_def tx_block_def)
  obtain d where d: "foldO (bzero 1) (take 29 bs) ?c = Done d" "log_inv d" "heldb d = {}" "tx_frame ?c d" "logged d = take 29 bs"
    using bzeros_log [OF e(1,2), of "take 29 bs"] e(3,4) bs(1,2) assms(3,6) by (auto dest: in_set_takeD)
  have n: "lh_n d = 29"
    using d(5) lh_n_logged [OF d(2)] bs(2) by simp
  have "bs = take 29 bs @ [bs ! 29]"
    using bs(2) by (intro nth_equalityI) (auto simp: nth_append less_Suc_eq numeral_eq_Suc)
  moreover have "bzero 1 (bs ! 29) d = Panic ''too big a transaction''"
  proof (rule bzero_overflows [OF d(2,3)])
    have "tx_block s (bs ! 29)"
      using bs(2,3) by simp
    then show "tx_block d (bs ! 29)"
      by (simp add: tx_block_def tx_frame_sels [OF d(4)])
    show "lh_n d + 1 = log_size d"
      using n assms(6) by (simp add: tx_frame_sels [OF d(4)])
  qed
  ultimately have "foldO (bzero 1) bs ?c = Panic ''too big a transaction''"
    using d(1) foldO_append [of "bzero 1" "take 29 bs" "[bs ! 29]" ?c] by simp
  then show ?thesis
    using c d(1) n by blast
qed

text \<open>C4 applied: a disk of 100 blocks with a full-size log, and 30 blocks behind it.\<close>

definition wide_disk :: "u32 \<Rightarrow> block" where
  "wide_disk b = (if b = 1 then put32 12 30 (put32 16 2 zero_block) else zero_block)"

definition wide_log :: kst where
  "wide_log = (binit (boot_state 1 100 wide_disk))\<lparr>log_start := 2, log_size := 30, log_dev := 1\<rparr>"

lemma wide_log_ok: "log_inv wide_log" "heldb wide_log = {}" "lh_n wide_log = 0" "log_outstanding wide_log = 0"
  "\<not> log_committing wide_log" "log_size wide_log = LOGSIZE" "tx_block wide_log b \<longleftrightarrow> b < 100 \<and> b \<noteq> 1 \<and> \<not> (2 \<le> unat b \<and> unat b < 32)"
proof -
  let ?i = "binit (boot_state 1 100 wide_disk)"
  have i: "bc_inv ?i" "heldb ?i = {}" "dirtyb ?i = {}" "memdisk ?i = wide_disk" "bc_frame (boot_state 1 100 wide_disk) ?i"
    using binit_ok [of 1 100 wide_disk] by blast+
  have sel: "disksize wide_log = 100" "lh_n wide_log = 0" "log_outstanding wide_log = 0" "\<not> log_committing wide_log"
    "log_size wide_log = 30" "log_start wide_log = 2" "log_dev wide_log = 1" "memdisk wide_log = wide_disk"
    by (simp_all add: wide_log_def bc_frame_sels [OF i(5)] i(4)) (simp_all add: boot_state_def)
  have e: "bc_inv wide_log" "heldb wide_log = {}" "dirtyb wide_log = {}"
    using bc_same [of wide_log ?i] i by (simp_all add: wide_log_def)
  have reg: "b \<in> log_region 2 30 \<longleftrightarrow> 2 \<le> unat b \<and> unat b < 32" for b
    using log_region_iff [of 2 30 100 b] by (simp add: log_fits_def)
  have "log_geo 2 30 100 (wide_disk 1)"
    by (simp add: log_geo_def log_fits_def reg wide_disk_def decode_sb_def getput_simps)
  moreover have "get32 (wide_disk 2) 0 = 0"
    by (simp add: wide_disk_def zero_block_def get32_def)
  ultimately show "log_inv wide_log"
    using e by (simp add: log_inv_def trans_ok_def sel logged_def log_geo_def)
  show "heldb wide_log = {}" "lh_n wide_log = 0" "log_outstanding wide_log = 0" "\<not> log_committing wide_log" "log_size wide_log = LOGSIZE"
    using e sel by simp_all
  show "tx_block wide_log b \<longleftrightarrow> b < 100 \<and> b \<noteq> 1 \<and> \<not> (2 \<le> unat b \<and> unat b < 32)"
    by (simp add: tx_block_def sel reg)
qed

theorem begin_op_overcommits_witness:
  "\<exists>a b c. begin_op wide_log = Done a \<and> begin_op a = Done b \<and> begin_op b = Done c
     \<and> foldO (bzero 1) (map of_nat [50..<80]) c = Panic ''too big a transaction''"
proof -
  have "distinct (map of_nat [50..<80] :: u32 list)"
    by (simp add: distinct_map inj_on_def word_unat_eq_iff unat_of_nat)
  moreover have "\<forall>b\<in>set (map of_nat [50..<80]). tx_block wide_log b"
    by (auto simp: wide_log_ok(7) word_less_nat_alt word_unat_eq_iff unat_of_nat)
  ultimately show ?thesis
    using begin_op_overcommits [OF wide_log_ok(1-6), of "map of_nat [50..<80]"] by auto
qed

end
