(* ===== verification/Ring.thy ===== *)
theory Ring
  imports Prelude
begin

text \<open>
  Ring buffers: the arithmetic of a circular array addressed by free-running 32-bit counters, and
  the interface \<open>fifo\<close> of a bounded queue of bytes. The pipes (theory \<open>Pipe\<close>) and the console's
  input buffer (theory \<open>Console\<close>) implement it.
\<close>

subsection \<open>Circular arrays\<close>

text \<open>
  \<open>window d m r w\<close>: the bytes between the counters \<open>r\<close> and \<open>w\<close> of a circular array of \<open>m\<close> bytes.
  When \<open>m\<close> divides \<open>2 ^ 32\<close>, the counters may wrap around.
\<close>

definition window :: "block \<Rightarrow> nat \<Rightarrow> u32 \<Rightarrow> u32 \<Rightarrow> byte list" where
  "window d m r w = map (\<lambda>j. d (unat (r + of_nat j) mod m)) [0..<unat (w - r)]"

lemma length_window [simp]: "length (window d m r w) = unat (w - r)"
  by (simp add: window_def)

lemma window_pop:
  assumes "w \<noteq> r"
  shows "window d m r w = d (unat r mod m) # window d m (r + 1) w"
proof -
  have "w - r \<noteq> 0"
    using assms by simp
  then have n: "unat (w - r) = Suc (unat (w - (r + 1)))"
    using unat_minus_one [of "w - r"] unat_gt_0 [of "w - r"] by (simp add: diff_diff_eq)
  show ?thesis
    unfolding window_def n upt_conv_Cons [OF zero_less_Suc] by (simp add: map_Suc_upt [symmetric] add.assoc del: upt_Suc)
qed

lemma ring_slot_inj:
  fixes r :: u32
  assumes "m dvd 2 ^ 32" "i < m" "j < m" "unat (r + of_nat i) mod m = unat (r + of_nat j) mod m"
  shows "i = j"
proof -
  have "m \<le> 2 ^ 32"
    using assms(1) by (rule dvd_imp_le) simp
  then have u: "unat (r + of_nat k) mod m = (unat r + k) mod m" if "k < m" for k
    using assms(1) that by (simp add: unat_word_ariths unat_of_nat mod_mod_cancel mod_add_right_eq)
  have eq: "i = j" if "(a + i) mod m = (a + j) mod m" "i \<le> j" "j < m" for a i j :: nat
  proof -
    have "m dvd (a + j) - (a + i)"
      using that(1,2) mod_eq_dvd_iff_nat [of "a + i" "a + j" m] by simp
    then show ?thesis
      using that(2,3) by (auto dest: dvd_imp_le)
  qed
  have "(unat r + i) mod m = (unat r + j) mod m"
    using u assms(2-4) by simp
  then show ?thesis
    using eq [of "unat r" i j] eq [of "unat r" j i] assms(2,3) by (cases "i \<le> j") auto
qed

lemma window_push:
  assumes "m dvd 2 ^ 32" "m < 2 ^ 32" "unat (w - r) < m"
  shows "window (d(unat w mod m := c)) m r (w + 1) = window d m r w @ [c]"
proof -
  let ?n = "unat (w - r)"
  have n1: "unat (w + 1 - r) = Suc ?n"
  proof -
    have e: "w + 1 - r = (w - r) + 1"
      by simp
    show ?thesis
      unfolding e using assms by (simp add: unat_word_ariths)
  qed
  have w: "r + of_nat ?n = w"
    by simp
  have "unat (r + of_nat j) mod m \<noteq> unat w mod m" if "j < ?n" for j
    using ring_slot_inj [OF assms(1), of j ?n r] that assms(3) w by auto
  then show ?thesis
    unfolding window_def n1 by (simp add: w)
qed

lemma window_empty: "window d m r w = [] \<longleftrightarrow> r = w"
  by (auto simp: window_def unsigned_eq_0_iff)

subsection \<open>Bounded queues\<close>

text \<open>
  The copying loops of the code: append the bytes \<open>src i, src (i + 1), \<dots>\<close> until \<open>k\<close> are in or the
  queue is full; remove bytes into \<open>dst\<close> until \<open>k\<close> are out or the queue is empty. Both return the
  index reached.
\<close>

fun push_all :: "('q \<Rightarrow> bool) \<Rightarrow> (byte \<Rightarrow> 'q \<Rightarrow> 'q) \<Rightarrow> block \<Rightarrow> nat \<Rightarrow> nat \<Rightarrow> 'q \<Rightarrow> nat \<times> 'q" where
  "push_all full put src i 0 q = (i, q)"
| "push_all full put src i (Suc k) q =
    (if full q then (i, q) else push_all full put src (i + 1) k (put (src i) q))"

fun pull_all :: "('q \<Rightarrow> bool) \<Rightarrow> ('q \<Rightarrow> byte \<times> 'q) \<Rightarrow> block \<Rightarrow> nat \<Rightarrow> nat \<Rightarrow> 'q \<Rightarrow> (nat \<times> block) \<times> 'q" where
  "pull_all emp get dst i 0 q = ((i, dst), q)"
| "pull_all emp get dst i (Suc k) q =
    (if emp q then ((i, dst), q)
     else let (c, q) = get q in pull_all emp get (dst(i := c)) (i + 1) k q)"

locale fifo =
  fixes inv :: "'q \<Rightarrow> bool" and contents :: "'q \<Rightarrow> byte list" and cap :: nat
    and full :: "'q \<Rightarrow> bool" and put :: "byte \<Rightarrow> 'q \<Rightarrow> 'q"
    and emp :: "'q \<Rightarrow> bool" and get :: "'q \<Rightarrow> byte \<times> 'q"
  assumes cap: "inv q \<Longrightarrow> length (contents q) \<le> cap"
    and full: "inv q \<Longrightarrow> full q \<longleftrightarrow> length (contents q) = cap"
    and put: "inv q \<Longrightarrow> \<not> full q \<Longrightarrow> inv (put c q) \<and> contents (put c q) = contents q @ [c]"
    and emp: "inv q \<Longrightarrow> emp q \<longleftrightarrow> contents q = []"
    and get: "inv q \<Longrightarrow> \<not> emp q \<Longrightarrow> inv (snd (get q)) \<and> contents q = fst (get q) # contents (snd (get q))"
begin

lemma push_all:
  assumes "inv q" "push_all full put src i k q = (j, t)"
  shows "inv t" "j = i + min k (cap - length (contents q))" "contents t = contents q @ map src [i..<j]"
proof -
  have "inv t \<and> j = i + min k (cap - length (contents q)) \<and> contents t = contents q @ map src [i..<j]"
    using assms
  proof (induction k arbitrary: i q)
    case (Suc k)
    show ?case
    proof (cases "full q")
      case True
      then show ?thesis
        using Suc.prems full [OF Suc.prems(1)] by simp
    next
      case False
      note p = put [OF Suc.prems(1) False, of "src i"]
      have l: "length (contents q) < cap"
        using cap [OF Suc.prems(1)] full [OF Suc.prems(1)] False by simp
      have IH: "inv t" "j = i + 1 + min k (cap - length (contents (put (src i) q)))"
          "contents t = contents (put (src i) q) @ map src [i + 1..<j]"
        using Suc.IH [of "put (src i) q" "i + 1"] p Suc.prems(2) False by simp_all
      have "map src [i..<j] = src i # map src [i + 1..<j]"
        using IH(2) by (subst upt_conv_Cons) simp_all
      then show ?thesis
        using IH p l by (simp add: min_def) linarith
    qed
  qed simp
  then show "inv t" "j = i + min k (cap - length (contents q))" "contents t = contents q @ map src [i..<j]"
    by blast+
qed

lemma pull_all:
  assumes "inv q" "pull_all emp get dst i k q = ((j, d), t)"
  shows "inv t" "j = i + min k (length (contents q))" "contents q = map d [i..<j] @ contents t"
    "x < i \<or> j \<le> x \<Longrightarrow> d x = dst x"
proof -
  have "inv t \<and> j = i + min k (length (contents q)) \<and> contents q = map d [i..<j] @ contents t
    \<and> (\<forall>x. x < i \<or> j \<le> x \<longrightarrow> d x = dst x)"
    using assms
  proof (induction k arbitrary: i q dst)
    case (Suc k)
    show ?case
    proof (cases "emp q")
      case True
      then show ?thesis
        using Suc.prems emp [OF Suc.prems(1)] by simp
    next
      case False
      obtain c q' where g: "get q = (c, q')" by (cases "get q") auto
      have q': "inv q'" "contents q = c # contents q'"
        using get [OF Suc.prems(1) False] g by simp_all
      have "pull_all emp get (dst(i := c)) (i + 1) k q' = ((j, d), t)"
        using Suc.prems(2) False g by simp
      from Suc.IH [OF q'(1) this]
      have IH: "inv t" "j = i + 1 + min k (length (contents q'))" "contents q' = map d [i + 1..<j] @ contents t"
          "\<forall>x. x < i + 1 \<or> j \<le> x \<longrightarrow> d x = (dst(i := c)) x"
        by blast+
      have "map d [i..<j] = c # map d [i + 1..<j]"
        using IH(2,4) by (subst upt_conv_Cons) simp_all
      then have "contents q = map d [i..<j] @ contents t"
        using IH(3) q'(2) by simp
      moreover have "d x = dst x" if "x < i \<or> j \<le> x" for x
        using IH(4) [rule_format, of x] IH(2) that by (auto split: if_splits)
      moreover have "j = i + min (Suc k) (length (contents q))"
        using IH(2) unfolding q'(2) by simp
      ultimately show ?thesis
        using IH(1) by blast
    qed
  qed simp
  then show "inv t" "j = i + min k (length (contents q))" "contents q = map d [i..<j] @ contents t"
    "x < i \<or> j \<le> x \<Longrightarrow> d x = dst x"
    by blast+
qed

end

end
