(* ===== verification/Pipe.thy ===== *)
theory Pipe
  imports KernelState Ring
begin

text \<open>
  Pipes (\<open>pipe.c\<close>). A call that holds \<open>p->lock\<close> up to its return or to its \<open>sleep\<close> is one step, a
  function from the pipe to the call's result, the channels it wakes up and the new pipe: \<open>PRet r\<close> for a call
  that returns \<open>r\<close>, \<open>PSleep i\<close> for one that sleeps at its loop index \<open>i\<close> and goes on from there when woken up.
  \<open>pipe_step\<close> interleaves any number of readers and writers; its histories are all bytes that writers
  put in and all bytes that readers took out. \<open>pipe_sched\<close> is the same with the processes themselves: the calls they are
  in, the channels they sleep on, and who has been killed.
\<close>

abbreviation PIPESIZE :: nat where "PIPESIZE \<equiv> 512"

datatype pipe_result = PRet int | PSleep nat

text \<open>The channels \<open>&p->nread\<close> and \<open>&p->nwrite\<close>.\<close>

datatype pipe_chan = Nread | Nwrite

definition pipe_full :: "kpipe \<Rightarrow> bool" where
  "pipe_full p \<longleftrightarrow> p_nwrite p = p_nread p + of_nat PIPESIZE"

definition pipe_put :: "byte \<Rightarrow> kpipe \<Rightarrow> kpipe" where
  "pipe_put c p = p\<lparr>p_data := (p_data p)(unat (p_nwrite p) mod PIPESIZE := c), p_nwrite := p_nwrite p + 1\<rparr>"

definition pipe_empty :: "kpipe \<Rightarrow> bool" where
  "pipe_empty p \<longleftrightarrow> p_nread p = p_nwrite p"

definition pipe_get :: "kpipe \<Rightarrow> byte \<times> kpipe" where
  "pipe_get p = (p_data p (unat (p_nread p) mod PIPESIZE), p\<lparr>p_nread := p_nread p + 1\<rparr>)"

text \<open>\<open>i\<close> is the loop index at which the call goes on: 0 at its start.\<close>

definition pipewrite :: "bool \<Rightarrow> block \<Rightarrow> nat \<Rightarrow> int \<Rightarrow> kpipe \<Rightarrow> (pipe_result \<times> pipe_chan list) \<times> kpipe" where
  "pipewrite kd addr i n p =
    (let (j, p) = push_all pipe_full pipe_put addr i (nat n - i) p in
     if int j < n then (if \<not> p_readopen p \<or> kd then ((PRet (-1), []), p) else ((PSleep j, [Nread]), p))
     else ((PRet n, [Nread]), p))"

definition piperead :: "bool \<Rightarrow> block \<Rightarrow> int \<Rightarrow> kpipe \<Rightarrow> (pipe_result \<times> pipe_chan list \<times> block) \<times> kpipe" where
  "piperead kd addr n p =
    (if pipe_empty p \<and> p_writeopen p then
       if kd then ((PRet (-1), [], addr), p) else ((PSleep 0, [], addr), p)
     else let ((j, addr), p) = pull_all pipe_empty pipe_get addr 0 (nat n) p
          in ((PRet (int j), [Nwrite], addr), p))"

text \<open>\<open>pipeclose\<close>: whether the page of the pipe is freed, the channel it wakes up, and the new pipe.\<close>

definition pipeclose :: "bool \<Rightarrow> kpipe \<Rightarrow> (bool \<times> pipe_chan) \<times> kpipe" where
  "pipeclose writable p =
    (let p = (if writable then p\<lparr>p_writeopen := False\<rparr> else p\<lparr>p_readopen := False\<rparr>)
     in ((\<not> p_readopen p \<and> \<not> p_writeopen p, if writable then Nread else Nwrite), p))"

text \<open>\<open>pipealloc\<close>'s initialisation of the page it got from \<open>kalloc\<close>.\<close>

definition new_pipe :: "kpipe \<Rightarrow> kpipe" where
  "new_pipe p = p\<lparr>p_readopen := True, p_writeopen := True, p_nwrite := 0, p_nread := 0\<rparr>"

subsection \<open>A pipe is a bounded queue\<close>

definition pipe_inv :: "kpipe \<Rightarrow> bool" where
  "pipe_inv p \<longleftrightarrow> unat (p_nwrite p - p_nread p) \<le> PIPESIZE"

definition pipe_bytes :: "kpipe \<Rightarrow> byte list" where
  "pipe_bytes p = window (p_data p) PIPESIZE (p_nread p) (p_nwrite p)"

lemma full_unat: "unat (w - r :: u32) = 512 \<longleftrightarrow> w = r + 512"
proof
  assume "unat (w - r) = 512"
  then have "w - r = 512"
    by (simp add: word_unat_eq_iff)
  then show "w = r + 512"
    by (simp add: algebra_simps)
qed simp

interpretation pipe_fifo: fifo pipe_inv pipe_bytes PIPESIZE pipe_full pipe_put pipe_empty pipe_get
proof unfold_locales
  show "length (pipe_bytes p) \<le> PIPESIZE" if "pipe_inv p" for p
    using that by (simp add: pipe_inv_def pipe_bytes_def)
  show "pipe_full p \<longleftrightarrow> length (pipe_bytes p) = PIPESIZE" if "pipe_inv p" for p
    by (simp add: pipe_full_def pipe_bytes_def full_unat)
  show "pipe_inv (pipe_put c p) \<and> pipe_bytes (pipe_put c p) = pipe_bytes p @ [c]"
    if "pipe_inv p" "\<not> pipe_full p" for c p
  proof -
    have "unat (p_nwrite p - p_nread p) \<noteq> 512"
      using that(2) by (simp add: pipe_full_def full_unat)
    then have l: "unat (p_nwrite p - p_nread p) < 512"
      using that(1) by (simp add: pipe_inv_def)
    have w: "window ((p_data p)(unat (p_nwrite p) mod 512 := c)) 512 (p_nread p) (p_nwrite p + 1)
        = window (p_data p) 512 (p_nread p) (p_nwrite p) @ [c]"
      by (rule window_push) (use l in simp_all)
    have "unat (p_nwrite p + 1 - p_nread p) = length (window (p_data p) 512 (p_nread p) (p_nwrite p) @ [c])"
      unfolding w [symmetric] by (rule length_window [symmetric])
    then have "unat (p_nwrite p + 1 - p_nread p) = Suc (unat (p_nwrite p - p_nread p))"
      by simp
    then show ?thesis
      using w l by (simp add: pipe_put_def pipe_bytes_def pipe_inv_def)
  qed
  show "pipe_empty p \<longleftrightarrow> pipe_bytes p = []" if "pipe_inv p" for p
    by (simp add: pipe_empty_def pipe_bytes_def window_empty)
  show "pipe_inv (snd (pipe_get p)) \<and> pipe_bytes p = fst (pipe_get p) # pipe_bytes (snd (pipe_get p))"
    if "pipe_inv p" "\<not> pipe_empty p" for p
  proof -
    have w: "window (p_data p) 512 (p_nread p) (p_nwrite p)
        = p_data p (unat (p_nread p) mod 512) # window (p_data p) 512 (p_nread p + 1) (p_nwrite p)"
      by (rule window_pop) (use that(2) in \<open>simp add: pipe_empty_def eq_commute\<close>)
    then have "length (window (p_data p) 512 (p_nread p) (p_nwrite p))
        = Suc (length (window (p_data p) 512 (p_nread p + 1) (p_nwrite p)))"
      by simp
    then have "unat (p_nwrite p - p_nread p) = Suc (unat (p_nwrite p - (p_nread p + 1)))"
      unfolding length_window .
    then show ?thesis
      using w that(1) by (simp add: pipe_get_def pipe_bytes_def pipe_inv_def)
  qed
qed

subsection \<open>Readers and writers\<close>

type_synonym pipe_hist = "kpipe \<times> byte list \<times> byte list"

inductive pipe_step :: "pipe_hist \<Rightarrow> pipe_hist \<Rightarrow> bool" where
  writes: "pipewrite kd addr i n p = ((r, ch), q) \<Longrightarrow> j = fst (push_all pipe_full pipe_put addr i (nat n - i) p)
    \<Longrightarrow> pipe_step (p, ws, rs) (q, ws @ map addr [i..<j], rs)"
| sleeps: "piperead kd addr n p = ((PSleep j, ch, addr'), q) \<Longrightarrow> pipe_step (p, ws, rs) (q, ws, rs)"
| reads: "piperead kd addr n p = ((PRet m, ch, addr'), q) \<Longrightarrow> pipe_step (p, ws, rs) (q, ws, rs @ map addr' [0..<nat m])"
| closes: "pipeclose w p = (fr, q) \<Longrightarrow> pipe_step (p, ws, rs) (q, ws, rs)"

inductive_cases pipe_stepE: "pipe_step s t"

lemma pipewrite_bytes:
  assumes "pipe_inv p" "pipewrite kd addr i n p = ((r, ch), q)" "j = fst (push_all pipe_full pipe_put addr i (nat n - i) p)"
  shows "pipe_inv q" "pipe_bytes q = pipe_bytes p @ map addr [i..<j]"
    "j = i + min (nat n - i) (PIPESIZE - length (pipe_bytes p))"
    "r = PSleep k \<Longrightarrow> k = j \<and> length (pipe_bytes q) = PIPESIZE \<and> int j < n"
proof -
  obtain j' t where a: "push_all pipe_full pipe_put addr i (nat n - i) p = (j', t)"
    by (cases "push_all pipe_full pipe_put addr i (nat n - i) p")
  have e: "j = j'" "q = t"
    using assms(2,3) a by (auto simp: pipewrite_def split: if_splits)
  note f = pipe_fifo.push_all [OF assms(1) a]
  show "pipe_inv q" "pipe_bytes q = pipe_bytes p @ map addr [i..<j]"
    and j: "j = i + min (nat n - i) (PIPESIZE - length (pipe_bytes p))"
    using f e by simp_all
  assume "r = PSleep k"
  then have k: "k = j" "int j < n"
    using assms(2) a e by (auto simp: pipewrite_def split: if_splits)
  then have "j = i + (PIPESIZE - length (pipe_bytes p))"
    using j by (simp add: min_def split: if_splits)
  then have "length (pipe_bytes q) = PIPESIZE"
    using f(3) e pipe_fifo.cap [OF assms(1)] by simp
  then show "k = j \<and> length (pipe_bytes q) = PIPESIZE \<and> int j < n"
    using k by simp
qed

lemma piperead_bytes:
  assumes "pipe_inv p" "piperead kd addr n p = ((r, ch, d), q)"
  shows "pipe_inv q" "r = PSleep j \<Longrightarrow> q = p \<and> pipe_bytes p = []"
    "r = PRet m \<Longrightarrow> pipe_bytes p = map d [0..<nat m] @ pipe_bytes q"
    "r = PRet m \<Longrightarrow> 0 \<le> m \<Longrightarrow> m = int (min (nat n) (length (pipe_bytes p)))"
proof -
  have F: "pipe_inv q \<and> (r = PSleep j \<longrightarrow> q = p \<and> pipe_bytes p = [])
    \<and> (r = PRet m \<longrightarrow> pipe_bytes p = map d [0..<nat m] @ pipe_bytes q)
    \<and> (r = PRet m \<longrightarrow> 0 \<le> m \<longrightarrow> m = int (min (nat n) (length (pipe_bytes p))))" for j m
  proof (cases "pipe_empty p \<and> p_writeopen p")
    case True
    then show ?thesis
      using assms pipe_fifo.emp [OF assms(1)] by (auto simp: piperead_def split: if_splits)
  next
    case False
    obtain j' d' t where a: "pull_all pipe_empty pipe_get addr 0 (nat n) p = ((j', d'), t)"
      by (cases "pull_all pipe_empty pipe_get addr 0 (nat n) p") (auto)
    then have e: "r = PRet (int j')" "d = d'" "q = t"
      using assms(2) False by (auto simp: piperead_def)
    note f = pipe_fifo.pull_all(1-3) [OF assms(1) a]
    have m: "m = int j'" if "r = PRet m"
      using that e(1) by simp
    show ?thesis
    proof (intro conjI impI)
      show "pipe_inv q" using f(1) e(3) by simp
      show "pipe_bytes p = map d [0..<nat m] @ pipe_bytes q" if "r = PRet m"
        unfolding m [OF that] nat_int e(2,3) by (rule f(3))
      show "m = int (min (nat n) (length (pipe_bytes p)))" if "r = PRet m"
        unfolding m [OF that] f(2) by simp
    qed (use e(1) in simp_all)
  qed
  show "pipe_inv q"
    by (rule F [THEN conjunct1])
  show "r = PSleep j \<Longrightarrow> q = p \<and> pipe_bytes p = []"
    by (rule F [THEN conjunct2, THEN conjunct1, THEN mp])
  show "r = PRet m \<Longrightarrow> pipe_bytes p = map d [0..<nat m] @ pipe_bytes q"
    by (rule F [THEN conjunct2, THEN conjunct2, THEN conjunct1, THEN mp])
  show "r = PRet m \<Longrightarrow> 0 \<le> m \<Longrightarrow> m = int (min (nat n) (length (pipe_bytes p)))"
    by (rule F [THEN conjunct2, THEN conjunct2, THEN conjunct2, THEN mp, THEN mp])
qed

lemma piperead_returns: "\<not> pipe_empty p \<Longrightarrow> \<exists>k d q. piperead kd dst n p = ((PRet (int k), [Nwrite], d), q)"
  by (cases "pull_all pipe_empty pipe_get dst 0 (nat n) p") (auto simp: piperead_def)

lemma pipe_step_inv:
  assumes "pipe_step s t" "pipe_inv (fst s)" "fst (snd s) = snd (snd s) @ pipe_bytes (fst s)"
  shows "pipe_inv (fst t) \<and> fst (snd t) = snd (snd t) @ pipe_bytes (fst t)"
  using assms
proof (induction rule: pipe_step.induct)
  case (writes kd addr i n p r ch q j ws rs)
  then show ?case
    using pipewrite_bytes [OF _ writes(1,2)] by simp
next
  case (sleeps kd addr n p j ch addr' q ws rs)
  then show ?case
    using piperead_bytes(1,2) [OF _ sleeps(1)] by simp
next
  case (reads kd addr n p m ch addr' q ws rs)
  then show ?case
    using piperead_bytes(1,3) [OF _ reads(1)] by simp
next
  case (closes w p fr q ws rs)
  then show ?case
    by (auto simp: pipeclose_def Let_def pipe_inv_def pipe_bytes_def split: if_splits)
qed

lemma new_pipe_inv: "pipe_inv (new_pipe p)" "pipe_bytes (new_pipe p) = []"
  by (simp_all add: pipe_inv_def pipe_bytes_def new_pipe_def window_def)

text \<open>
  C10. Whatever calls of whichever readers and writers interleave on a new pipe, with the counters
  wrapping around as often as they may: the bytes that readers got followed by those still in the
  pipe are exactly the bytes that writers put in, in order, and never more than 512 are in between.
\<close>

theorem pipe_delivers_in_order:
  assumes "pipe_step\<^sup>*\<^sup>* (new_pipe p0, [], []) (p, ws, rs)"
  shows "ws = rs @ pipe_bytes p \<and> length (pipe_bytes p) \<le> PIPESIZE"
proof -
  have "pipe_inv (fst t) \<and> fst (snd t) = snd (snd t) @ pipe_bytes (fst t)"
    if "pipe_step\<^sup>*\<^sup>* (new_pipe p0, [], []) t" for t
    using that
  proof (induction rule: rtranclp_induct)
    case base
    then show ?case by (simp add: new_pipe_inv)
  next
    case (step s t)
    then show ?case using pipe_step_inv [of s t] by blast
  qed
  from this [OF assms] show ?thesis
    using pipe_fifo.cap by simp
qed

text \<open>C10 applied: three bytes written, two of them read.\<close>

theorem pipe_delivers_in_order_witness:
  "\<exists>p. pipe_step\<^sup>*\<^sup>* (new_pipe zero_pipe, [], []) (p, [5, 6, 7], [5, 6])
    \<and> [5, 6, 7] = [5, 6] @ pipe_bytes p \<and> length (pipe_bytes p) \<le> PIPESIZE"
proof -
  let ?src = "\<lambda>i. of_nat i + 5 :: byte"
  define q where "q = snd (pipewrite False ?src 0 3 (new_pipe zero_pipe))"
  define p where "p = snd (piperead False (\<lambda>_. 0) 2 q)"
  have k: "push_all pipe_full pipe_put ?src 0 (nat 3) (new_pipe zero_pipe) = (3, q)"
      "pipewrite False ?src 0 3 (new_pipe zero_pipe) = ((PRet 3, [Nread]), q)"
  proof -
    have n: "nat 3 = Suc (Suc (Suc 0))" "nat 3 - 0 = Suc (Suc (Suc 0))"
      by simp_all
    show "push_all pipe_full pipe_put ?src 0 (nat 3) (new_pipe zero_pipe) = (3, q)"
        "pipewrite False ?src 0 3 (new_pipe zero_pipe) = ((PRet 3, [Nread]), q)"
      unfolding q_def pipewrite_def n by (simp_all add: pipe_full_def pipe_put_def new_pipe_def Let_def)
  qed
  have w: "pipe_step (new_pipe zero_pipe, [], []) (q, [] @ map ?src [0..<3], [])"
    by (rule pipe_step.writes [OF k(2)]) (use k(1) in simp)
  have q: "pipe_inv q" "pipe_bytes q = [5, 6, 7]"
    using pipe_fifo.push_all [OF new_pipe_inv(1) k(1)] by (simp_all add: new_pipe_inv numeral_3_eq_3)
  then have "\<not> pipe_empty q"
    using pipe_fifo.emp by simp
  then obtain m d where "piperead False (\<lambda>_. 0) 2 q = ((PRet (int m), [Nwrite], d), p)"
    using piperead_returns [of q False "\<lambda>_. 0" 2] by (auto simp: p_def)
  moreover from this have "m = 2"
    using piperead_bytes(4) [OF q(1) _ refl, of _ _ _ "int m"] q(2) by fastforce
  ultimately have d: "piperead False (\<lambda>_. 0) 2 q = ((PRet 2, [Nwrite], d), p)"
    by simp
  have "map d [0..<nat 2] = [5, 6]"
    using piperead_bytes(3) [OF q(1) d refl] q(2) by (simp add: numeral_2_eq_2)
  then have r: "pipe_step (q, [5, 6, 7], []) (p, [5, 6, 7], [5, 6])"
    using pipe_step.reads [OF d, of "[5, 6, 7]" "[]"] by simp
  have "[] @ map ?src [0..<3] = [5, 6, 7]"
    by (simp add: numeral_3_eq_3)
  then have "pipe_step\<^sup>*\<^sup>* (new_pipe zero_pipe, [], []) (p, [5, 6, 7], [5, 6])"
    using w r by (auto intro: converse_rtranclp_into_rtranclp)
  then show ?thesis
    using pipe_delivers_in_order by blast
qed

subsection \<open>Sleeping and waking up\<close>

text \<open>
  The calls that processes are in, with the variables of their frames; \<open>pipe_turn\<close> is one turn of a call, from the
  lock to the return or the sleep.
\<close>

datatype pipe_call = Reading block int | Writing block nat int

definition pipe_turn :: "bool \<Rightarrow> pipe_call \<Rightarrow> kpipe \<Rightarrow> (pipe_call option \<times> pipe_chan option \<times> pipe_chan list) \<times> kpipe" where
  "pipe_turn kd c p =
    (case c of
       Reading addr n \<Rightarrow>
         (case piperead kd addr n p of
            ((PRet r, ch, d), p) \<Rightarrow> ((None, None, ch), p)
          | ((PSleep i, ch, d), p) \<Rightarrow> ((Some c, Some Nread, ch), p))
     | Writing addr i n \<Rightarrow>
         (case pipewrite kd addr i n p of
            ((PRet r, ch), p) \<Rightarrow> ((None, None, ch), p)
          | ((PSleep j, ch), p) \<Rightarrow> ((Some (Writing addr j n), Some Nwrite, ch), p)))"

text \<open>
  The processes around one pipe: what they are doing, the channel on which they sleep, who has been killed; the
  history variable \<open>killed_wrote\<close> says that a process that was already killed has had a turn in \<open>pipewrite\<close>.
\<close>

record pipe_sys =
  the_pipe :: kpipe
  in_call :: "nat \<Rightarrow> pipe_call option"
  asleep_on :: "nat \<Rightarrow> pipe_chan option"
  marked :: "nat set"
  killed_wrote :: bool

definition wake_chans :: "pipe_chan list \<Rightarrow> (nat \<Rightarrow> pipe_chan option) \<Rightarrow> nat \<Rightarrow> pipe_chan option" where
  "wake_chans ch z x = (if z x \<in> Some ` set ch then None else z x)"

lemma wake_none [simp]: "wake_chans [] z = z"
  by (simp add: wake_chans_def fun_eq_iff)

definition is_writing :: "pipe_call \<Rightarrow> bool" where
  "is_writing c = (case c of Writing _ _ _ \<Rightarrow> True | Reading _ _ \<Rightarrow> False)"

text \<open>
  A process calls only through an open file, and while it is in its call that file keeps its end of the pipe open.
  A kill takes the process out of its sleep.
\<close>

inductive pipe_sched :: "pipe_sys \<Rightarrow> pipe_sys \<Rightarrow> bool" where
  reads: "in_call s x = None \<Longrightarrow> p_readopen (the_pipe s)
    \<Longrightarrow> pipe_sched s (s\<lparr>in_call := (in_call s)(x \<mapsto> Reading addr n)\<rparr>)"
| writes: "in_call s x = None \<Longrightarrow> p_writeopen (the_pipe s)
    \<Longrightarrow> pipe_sched s (s\<lparr>in_call := (in_call s)(x \<mapsto> Writing addr 0 n)\<rparr>)"
| turn: "in_call s x = Some c \<Longrightarrow> asleep_on s x = None \<Longrightarrow> pipe_turn (x \<in> marked s) c (the_pipe s) = ((c', z, ch), p)
    \<Longrightarrow> pipe_sched s (s\<lparr>the_pipe := p, in_call := (in_call s)(x := c'), asleep_on := (wake_chans ch (asleep_on s))(x := z),
          killed_wrote := killed_wrote s \<or> x \<in> marked s \<and> is_writing c\<rparr>)"
| closes: "\<forall>x c. in_call s x = Some c \<longrightarrow> is_writing c \<noteq> w \<Longrightarrow> pipeclose w (the_pipe s) = ((fr, ch), p)
    \<Longrightarrow> pipe_sched s (s\<lparr>the_pipe := p, asleep_on := wake_chans [ch] (asleep_on s)\<rparr>)"
| kills: "pipe_sched s (s\<lparr>marked := insert x (marked s), asleep_on := (asleep_on s)(x := None)\<rparr>)"

definition pipe_start :: "kpipe \<Rightarrow> pipe_sys" where
  "pipe_start p = \<lparr>the_pipe = new_pipe p, in_call = (\<lambda>_. None), asleep_on = (\<lambda>_. None), marked = {}, killed_wrote = False\<rparr>"

text \<open>Sleeping processes are in the calls that sleep on their channels, and have a reason to sleep.\<close>

definition sleeps_well :: "pipe_sys \<Rightarrow> bool" where
  "sleeps_well s \<longleftrightarrow> pipe_inv (the_pipe s)
     \<and> (\<forall>x c. in_call s x = Some c \<longrightarrow> (if is_writing c then p_writeopen (the_pipe s) else p_readopen (the_pipe s)))
     \<and> (\<forall>x. asleep_on s x = Some Nwrite \<longrightarrow> pipe_full (the_pipe s) \<and> p_readopen (the_pipe s)
          \<and> (\<exists>c. in_call s x = Some c \<and> is_writing c))
     \<and> (\<forall>x. asleep_on s x = Some Nread \<longrightarrow> (killed_wrote s \<or> pipe_empty (the_pipe s) \<and> p_writeopen (the_pipe s))
          \<and> (\<exists>c. in_call s x = Some c \<and> \<not> is_writing c))"

lemma push_all_ends: "push_all pipe_full pipe_put addr i k p = (j, q) \<Longrightarrow> p_readopen q = p_readopen p \<and> p_writeopen q = p_writeopen p"
  by (induction k arbitrary: i p) (auto simp: pipe_put_def split: if_splits)

lemma pull_all_ends: "pull_all pipe_empty pipe_get addr i k p = ((j, d), q) \<Longrightarrow> p_readopen q = p_readopen p \<and> p_writeopen q = p_writeopen p"
  by (induction k arbitrary: addr i p) (auto simp: pipe_get_def split: if_splits)

lemma pipewrite_turn:
  assumes "pipe_inv p" "pipewrite kd addr i n p = ((r, ch), q)"
  shows "pipe_inv q" "p_readopen q = p_readopen p" "p_writeopen q = p_writeopen p"
    "r = PSleep j \<Longrightarrow> pipe_full q \<and> p_readopen q \<and> \<not> kd" "ch = [Nread] \<or> (\<exists>m. r = PRet m) \<and> ch = [] \<and> (\<not> p_readopen q \<or> kd)"
proof -
  show q: "pipe_inv q"
    by (rule pipewrite_bytes(1) [OF assms refl])
  show "p_readopen q = p_readopen p" "p_writeopen q = p_writeopen p"
      "ch = [Nread] \<or> (\<exists>m. r = PRet m) \<and> ch = [] \<and> (\<not> p_readopen q \<or> kd)"
    using assms(2) push_all_ends [of addr i "nat n - i" p] by (auto simp: pipewrite_def split: prod.splits if_splits)
  show "pipe_full q \<and> p_readopen q \<and> \<not> kd" if "r = PSleep j"
    using pipewrite_bytes(4) [OF assms refl that] pipe_fifo.full [OF q] assms(2) that
    by (auto simp: pipewrite_def split: prod.splits if_splits)
qed

lemma piperead_turn:
  assumes "pipe_inv p" "piperead kd addr n p = ((r, ch, d), q)"
  shows "pipe_inv q" "p_readopen q = p_readopen p" "p_writeopen q = p_writeopen p"
    "r = PSleep j \<Longrightarrow> q = p \<and> pipe_empty p \<and> p_writeopen p \<and> \<not> kd"
    "ch = [Nwrite] \<or> ch = [] \<and> q = p"
  using assms(2) piperead_bytes(1) [OF assms] pull_all_ends [of addr 0 "nat n" p]
  by (auto simp: piperead_def split: prod.splits if_splits)

lemma turn_sleeps_well:
  assumes "sleeps_well s" "in_call s x = Some c" "asleep_on s x = None"
    and t: "pipe_turn (x \<in> marked s) c (the_pipe s) = ((c', z, ch), p)"
  shows "sleeps_well (s\<lparr>the_pipe := p, in_call := (in_call s)(x := c'), asleep_on := (wake_chans ch (asleep_on s))(x := z),
    killed_wrote := killed_wrote s \<or> x \<in> marked s \<and> is_writing c\<rparr>)"
proof (cases c)
  case (Reading addr n)
  have i: "pipe_inv (the_pipe s)"
    using assms(1) by (simp add: sleeps_well_def)
  obtain r d where r: "piperead (x \<in> marked s) addr n (the_pipe s) = ((r, ch, d), p)"
      "(c', z) = (case r of PRet _ \<Rightarrow> (None, None) | PSleep _ \<Rightarrow> (Some c, Some Nread))"
    using t Reading by (auto simp: pipe_turn_def split: prod.splits pipe_result.splits)
  note T = piperead_turn [OF i r(1)]
  have "pipe_empty p" if "pipe_empty (the_pipe s)"
    using piperead_bytes(2,3) [OF i r(1)] that pipe_fifo.emp [OF i] pipe_fifo.emp [OF T(1)] by (cases r) auto
  then show ?thesis
    using assms(1,2) T r(2) Reading
    by (cases r) (auto simp: sleeps_well_def wake_chans_def is_writing_def split: if_splits)
next
  case (Writing addr i n)
  have inv: "pipe_inv (the_pipe s)"
    using assms(1) by (simp add: sleeps_well_def)
  obtain r where r: "pipewrite (x \<in> marked s) addr i n (the_pipe s) = ((r, ch), p)"
      "(c', z) = (case r of PRet _ \<Rightarrow> (None, None) | PSleep j \<Rightarrow> (Some (Writing addr j n), Some Nwrite))"
    using t Writing by (auto simp: pipe_turn_def split: prod.splits pipe_result.splits)
  note T = pipewrite_turn [OF inv r(1)]
  have "pipe_full p" if "pipe_full (the_pipe s)"
    using pipewrite_bytes(2) [OF inv r(1) refl] that pipe_fifo.full [OF inv] pipe_fifo.full [OF T(1)] pipe_fifo.cap [OF T(1)]
    by simp
  then show ?thesis
    using assms(1,2) T r(2) Writing
    by (cases r) (auto simp: sleeps_well_def wake_chans_def is_writing_def split: if_splits)
qed

lemma pipe_sched_sleeps_well: "pipe_sched s t \<Longrightarrow> sleeps_well s \<Longrightarrow> sleeps_well t"
proof (induction rule: pipe_sched.induct)
  case (turn s x c c' z ch p)
  then show ?case
    by (intro turn_sleeps_well)
next
  case (closes s w fr ch p)
  then show ?case
    by (auto simp: sleeps_well_def pipeclose_def Let_def wake_chans_def pipe_inv_def pipe_full_def pipe_empty_def split: if_splits)
qed (auto simp: sleeps_well_def is_writing_def)

text \<open>
  C11. No wakeup is lost. However calls, closings and kills interleave on a new pipe: a writer sleeps only while the
  pipe is full and open for reading; a reader sleeps only while it is empty and open for writing, unless a process that
  was already killed has run in \<open>pipewrite\<close>. So a reader and a writer are never asleep at the same time.
\<close>

theorem pipe_progress:
  assumes "pipe_sched\<^sup>*\<^sup>* (pipe_start p0) s"
  shows "(asleep_on s x = Some Nwrite \<longrightarrow> length (pipe_bytes (the_pipe s)) = PIPESIZE \<and> p_readopen (the_pipe s))
    \<and> (asleep_on s x = Some Nread \<and> \<not> killed_wrote s \<longrightarrow> pipe_bytes (the_pipe s) = [] \<and> p_writeopen (the_pipe s))
    \<and> (asleep_on s x = Some Nread \<and> \<not> killed_wrote s \<longrightarrow> asleep_on s y \<noteq> Some Nwrite)"
proof -
  have "sleeps_well s"
    using assms
  proof (induction rule: rtranclp_induct)
    case base
    then show ?case
      by (simp add: sleeps_well_def pipe_start_def new_pipe_inv)
  next
    case (step s t)
    then show ?case
      using pipe_sched_sleeps_well by blast
  qed
  then have i: "pipe_inv (the_pipe s)" and w: "asleep_on s u = Some Nwrite \<longrightarrow> pipe_full (the_pipe s) \<and> p_readopen (the_pipe s)"
    and r: "asleep_on s u = Some Nread \<and> \<not> killed_wrote s \<longrightarrow> pipe_empty (the_pipe s) \<and> p_writeopen (the_pipe s)" for u
    by (auto simp: sleeps_well_def)
  show ?thesis
    using w [of x] w [of y] r [of x] pipe_fifo.full [OF i] pipe_fifo.emp [OF i] by auto
qed

text \<open>
  The exception is real: a reader sleeps on the empty pipe, and a killed writer fills it and returns -1 without the
  wakeup; the reader sleeps on with 512 bytes in the pipe.
\<close>

lemma reader_falls_asleep:
  "pipe_sched\<^sup>*\<^sup>* (pipe_start p0)
     ((pipe_start p0)\<lparr>in_call := [0 \<mapsto> Reading (\<lambda>_. 0) 1], asleep_on := [0 \<mapsto> Nread]\<rparr>)"
proof -
  let ?s = "pipe_start p0"
  let ?t = "?s\<lparr>in_call := [0 \<mapsto> Reading (\<lambda>_. 0) 1]\<rparr>"
  have "pipe_sched ?s ?t"
    using pipe_sched.reads [of ?s 0 "\<lambda>_. 0" 1] by (simp add: pipe_start_def new_pipe_def)
  moreover have "pipe_turn (0 \<in> marked ?t) (Reading (\<lambda>_. 0) 1) (the_pipe ?t) = ((Some (Reading (\<lambda>_. 0) 1), Some Nread, []), the_pipe ?t)"
    by (simp add: pipe_turn_def pipe_start_def piperead_def pipe_empty_def new_pipe_def)
  then have "pipe_sched ?t (?t\<lparr>asleep_on := [0 \<mapsto> Nread]\<rparr>)"
    using pipe_sched.turn [of ?t 0 "Reading (\<lambda>_. 0) 1"] by (simp add: pipe_start_def is_writing_def)
  ultimately show ?thesis
    by (simp add: pipe_start_def)
qed

lemma killed_writer_wakes_nobody:
  "\<exists>s. pipe_sched\<^sup>*\<^sup>* (pipe_start p0) s \<and> asleep_on s 0 = Some Nread \<and> length (pipe_bytes (the_pipe s)) = 512
     \<and> in_call s 1 = None"
proof -
  let ?a = "\<lambda>_ :: nat. 7 :: byte"
  let ?s = "(pipe_start p0)\<lparr>in_call := [0 \<mapsto> Reading (\<lambda>_. 0) 1], asleep_on := [0 \<mapsto> Nread]\<rparr>"
  let ?t = "?s\<lparr>in_call := (in_call ?s)(1 \<mapsto> Writing ?a 0 600)\<rparr>"
  let ?u = "?t\<lparr>marked := insert 1 (marked ?t), asleep_on := (asleep_on ?t)(1 := None)\<rparr>"
  have "pipe_sched ?s ?t"
    by (rule pipe_sched.writes) (simp_all add: pipe_start_def new_pipe_def)
  moreover have "pipe_sched ?t ?u"
    by (rule pipe_sched.kills)
  ultimately have t: "pipe_sched\<^sup>*\<^sup>* (pipe_start p0) ?u"
    using reader_falls_asleep by (meson rtranclp.rtrancl_into_rtrancl)
  obtain j q where q: "push_all pipe_full pipe_put ?a 0 (nat 600 - 0) (new_pipe p0) = (j, q)"
    by (cases "push_all pipe_full pipe_put ?a 0 (nat 600 - 0) (new_pipe p0)")
  note Q = pipe_fifo.push_all [OF new_pipe_inv(1) q]
  have "j = 512"
    using Q(2) by (simp add: new_pipe_inv)
  then have "pipewrite True ?a 0 600 (new_pipe p0) = ((PRet (-1), []), q)" "length (pipe_bytes q) = 512"
    using q Q(3) by (simp_all add: pipewrite_def new_pipe_inv)
  then have "pipe_turn (1 \<in> marked ?u) (Writing ?a 0 600) (the_pipe ?u) = ((None, None, []), q)"
    by (simp add: pipe_turn_def pipe_start_def)
  from pipe_sched.turn [OF _ _ this] obtain v where v: "pipe_sched ?u v" "asleep_on v 0 = Some Nread" "the_pipe v = q" "in_call v 1 = None"
    by (simp add: pipe_start_def)
  have "pipe_sched\<^sup>*\<^sup>* (pipe_start p0) v"
    using t v(1) by (rule rtranclp.rtrancl_into_rtrancl)
  then show ?thesis
    using v(2-4) \<open>length (pipe_bytes q) = 512\<close> by blast
qed

text \<open>C11 applied: a reader of a new pipe has fallen asleep.\<close>

theorem pipe_progress_witness:
  "asleep_on ((pipe_start zero_pipe)\<lparr>in_call := [0 \<mapsto> Reading (\<lambda>_. 0) 1], asleep_on := [0 \<mapsto> Nread]\<rparr>) 0 = Some Nread
   \<and> pipe_bytes (new_pipe zero_pipe) = [] \<and> p_writeopen (new_pipe zero_pipe)"
  using pipe_progress [OF reader_falls_asleep, of zero_pipe 0] by (simp add: pipe_start_def)

end
