(* ===== verification/File.thy ===== *)
theory File
  imports Fs Pipe
begin

text \<open>
  Open files (\<open>file.c\<close>) and the part of \<open>pipe.c\<close> that allocates and frees pipes. A \<open>struct file*\<close>
  is an index of \<open>ftable\<close>; a \<open>struct pipe*\<close> is the number of its page, an index of \<open>pipes\<close>.
\<close>

subsection \<open>The file table\<close>

definition upd_file :: "nat \<Rightarrow> (kfile \<Rightarrow> kfile) \<Rightarrow> kst \<Rightarrow> kst" where
  "upd_file f g s = s\<lparr>ftable := (ftable s)(f := g (ftable s f))\<rparr>"

lemma upd_file_sels [simp]:
  "ftable (upd_file f g s) = (ftable s)(f := g (ftable s f))" "ofile (upd_file f g s) = ofile s"
  "pipes (upd_file f g s) = pipes s" "kpages (upd_file f g s) = kpages s" "icache (upd_file f g s) = icache s"
  by (simp_all add: upd_file_def)

definition filealloc :: "kst \<Rightarrow> nat option \<times> kst" where
  "filealloc s =
    (case first_index (\<lambda>f. f_ref (ftable s f) = 0) NFILE of
       Some f \<Rightarrow> (Some f, upd_file f (\<lambda>x. x\<lparr>f_ref := 1\<rparr>) s)
     | None \<Rightarrow> (None, s))"

definition filedup :: "nat \<Rightarrow> kst \<Rightarrow> kst outcome" where
  "filedup f s =
    (if f_ref (ftable s f) < 1 then Panic ''filedup''
     else Done (upd_file f (\<lambda>x. x\<lparr>f_ref := f_ref x + 1\<rparr>) s))"

text \<open>
  A pipe's page goes back to the free list: \<open>kfree\<close> fills it with the byte 1, so that the stale
  structure reads as junk.
\<close>

definition junk_pipe :: kpipe where
  "junk_pipe = \<lparr>p_data = (\<lambda>_. 1), p_nread = 0x01010101, p_nwrite = 0x01010101, p_readopen = True,
     p_writeopen = True\<rparr>"

definition kfree_page :: "nat \<Rightarrow> kst \<Rightarrow> kst" where
  "kfree_page pi s = s\<lparr>pipes := (pipes s)(pi := junk_pipe), kpages := pi # kpages s\<rparr>"

definition kalloc_page :: "kst \<Rightarrow> nat option \<times> kst" where
  "kalloc_page s = (case kpages s of [] \<Rightarrow> (None, s) | pi # ps \<Rightarrow> (Some pi, s\<lparr>kpages := ps\<rparr>))"

definition close_pipe :: "nat \<Rightarrow> bool \<Rightarrow> kst \<Rightarrow> kst" where
  "close_pipe pi writable s =
    (let ((fr, ch), p) = pipeclose writable (pipes s pi);
         s = s\<lparr>pipes := (pipes s)(pi := p)\<rparr>
     in if fr then kfree_page pi s else s)"

definition fileclose :: "nat \<Rightarrow> kst \<Rightarrow> kst outcome" where
  "fileclose f s =
    (if f_ref (ftable s f) < 1 then Panic ''fileclose'' else
     let s = upd_file f (\<lambda>x. x\<lparr>f_ref := f_ref x - 1\<rparr>) s in
     if f_ref (ftable s f) > 0 then Done s else
     let ff = ftable s f;
         s = upd_file f (\<lambda>x. x\<lparr>f_ref := 0, f_type := FD_NONE\<rparr>) s
     in case f_type ff of
          FD_PIPE \<Rightarrow> Done (close_pipe (f_pipe ff) (f_writable ff) s)
        | FD_INODE \<Rightarrow> bindO (begin_op s) (\<lambda>s. bindO (iput (f_ip ff) s) end_op)
        | FD_NONE \<Rightarrow> Done s)"

definition filestat :: "nat \<Rightarrow> kst \<Rightarrow> (stat option \<times> kst) outcome" where
  "filestat f s =
    (let x = ftable s f in
     if f_type x = FD_INODE then
       bindO (ilock (f_ip x) s) (\<lambda>s.
         let st = stati (f_ip x) s in
         bindO (iunlock (f_ip x) s) (\<lambda>s. Done (Some st, s)))
     else Done (None, s))"

subsection \<open>Reading and writing an open file\<close>

text \<open>
  A read or write of a pipe, as the calling process sees it: it may block. The processes it wakes up are not part of
  this state.
\<close>

definition read_pipe :: "nat \<Rightarrow> block \<Rightarrow> int \<Rightarrow> kst \<Rightarrow> ((int \<times> block) \<times> kst) outcome" where
  "read_pipe pi dst n s =
    (case piperead (killed s) dst n (pipes s pi) of
       ((PRet r, ch, dst), p) \<Rightarrow> Done ((r, dst), s\<lparr>pipes := (pipes s)(pi := p)\<rparr>)
     | ((PSleep i, ch, dst), p) \<Rightarrow> Sleeps)"

definition write_pipe :: "nat \<Rightarrow> block \<Rightarrow> int \<Rightarrow> kst \<Rightarrow> (int \<times> kst) outcome" where
  "write_pipe pi src n s =
    (case pipewrite (killed s) src 0 n (pipes s pi) of
       ((PRet r, ch), p) \<Rightarrow> Done (r, s\<lparr>pipes := (pipes s)(pi := p)\<rparr>)
     | ((PSleep i, ch), p) \<Rightarrow> Sleeps)"

definition advance :: "nat \<Rightarrow> int \<Rightarrow> kst \<Rightarrow> kst" where
  "advance f r s = (if r > 0 then upd_file f (\<lambda>x. x\<lparr>f_off := f_off x + word_of_int r\<rparr>) s else s)"

definition fileread :: "devsw \<Rightarrow> nat \<Rightarrow> block \<Rightarrow> int \<Rightarrow> kst \<Rightarrow> ((int \<times> block) \<times> kst) outcome" where
  "fileread dv f dst n s =
    (let x = ftable s f in
     if \<not> f_readable x then Done ((-1, dst), s)
     else case f_type x of
       FD_PIPE \<Rightarrow> read_pipe (f_pipe x) dst n s
     | FD_INODE \<Rightarrow>
         bindO (ilock (f_ip x) s) (\<lambda>s.
         bindS (readi dv (f_ip x) dst (f_off x) (word_of_int n) s) (\<lambda>(r, dst) s.
         bindO (iunlock (f_ip x) (advance f r s)) (\<lambda>s. Done ((r, dst), s))))
     | FD_NONE \<Rightarrow> Panic ''fileread'')"

text \<open>\<open>max\<close> of \<open>filewrite\<close>, in bytes.\<close>

abbreviation maxwrite :: int where "maxwrite \<equiv> ((LOGSIZE - 1 - 1 - 2) div 2) * 512"

text \<open>The chunk loop of \<open>filewrite\<close>, from byte \<open>i\<close> on.\<close>

function filewrite_loop :: "devsw \<Rightarrow> nat \<Rightarrow> block \<Rightarrow> int \<Rightarrow> int \<Rightarrow> kst \<Rightarrow> (int \<times> kst) outcome" where
  "filewrite_loop dv f src n i s =
    (if i < n then
       let n1 = min (n - i) maxwrite; ip = f_ip (ftable s f) in
       bindO (begin_op s) (\<lambda>s.
       bindO (ilock ip s) (\<lambda>s.
       bindS (writei dv ip (\<lambda>j. src (nat i + j)) (f_off (ftable s f)) (word_of_int n1) s) (\<lambda>r s.
       bindO (iunlock ip (advance f r s)) (\<lambda>s.
       bindO (end_op s) (\<lambda>s.
         if r < 0 then Done (-1, s)
         else if r \<noteq> n1 then Panic ''short filewrite''
         else filewrite_loop dv f src n (i + n1) s)))))
     else Done (if i = n then n else -1, s))"
  by pat_completeness auto
termination
  by (relation "measure (\<lambda>(dv, f, src, n, i, s). nat (n - i))") auto

definition filewrite :: "devsw \<Rightarrow> nat \<Rightarrow> block \<Rightarrow> int \<Rightarrow> kst \<Rightarrow> (int \<times> kst) outcome" where
  "filewrite dv f src n s =
    (let x = ftable s f in
     if \<not> f_writable x then Done (-1, s)
     else case f_type x of
       FD_PIPE \<Rightarrow> write_pipe (f_pipe x) src n s
     | FD_INODE \<Rightarrow> filewrite_loop dv f src n 0 s
     | FD_NONE \<Rightarrow> Panic ''filewrite'')"

declare filewrite_loop.simps [simp del]

subsection \<open>Creating a pipe\<close>

definition close_opt :: "nat option \<Rightarrow> kst \<Rightarrow> kst outcome" where
  "close_opt fo s = (case fo of None \<Rightarrow> Done s | Some f \<Rightarrow> fileclose f s)"

definition pipealloc :: "kst \<Rightarrow> ((nat \<times> nat) option \<times> kst) outcome" where
  "pipealloc s =
    (let bad = (\<lambda>f0 f1 s. bindO (close_opt f0 s) (\<lambda>s. bindO (close_opt f1 s) (\<lambda>s. Done (None, s)))) in
     case filealloc s of
       (None, s) \<Rightarrow> bad None None s
     | (Some f0, s) \<Rightarrow>
       (case filealloc s of
          (None, s) \<Rightarrow> bad (Some f0) None s
        | (Some f1, s) \<Rightarrow>
          (case kalloc_page s of
             (None, s) \<Rightarrow> bad (Some f0) (Some f1) s
           | (Some pi, s) \<Rightarrow>
               let s = s\<lparr>pipes := (pipes s)(pi := new_pipe (pipes s pi))\<rparr>;
                   s = upd_file f0 (\<lambda>x. x\<lparr>f_type := FD_PIPE, f_readable := True, f_writable := False, f_pipe := pi\<rparr>) s;
                   s = upd_file f1 (\<lambda>x. x\<lparr>f_type := FD_PIPE, f_readable := False, f_writable := True, f_pipe := pi\<rparr>) s
               in Done (Some (f0, f1), s))))"

end
