(* ===== verification/SysArgs.thy ===== *)
theory SysArgs
  imports KernelState
begin

text \<open>
  Fetching system call arguments from user memory (\<open>syscall.c\<close>). The current process's memory is
  \<open>umem\<close> below \<open>usz\<close>; a user pointer that passed its check is a 32-bit address. The functions return
  \<open>None\<close> where the code returns -1.
\<close>

definition ubuf :: "u32 \<Rightarrow> kst \<Rightarrow> block" where
  "ubuf a s = (\<lambda>i. umem s (a + of_nat i))"

definition uput :: "u32 \<Rightarrow> nat \<Rightarrow> block \<Rightarrow> kst \<Rightarrow> kst" where
  "uput a n d s = s\<lparr>umem := (\<lambda>x. if unat (x - a) < n then d (unat (x - a)) else umem s x)\<rparr>"

definition fetchint :: "u32 \<Rightarrow> kst \<Rightarrow> u32 option" where
  "fetchint a s = (if a \<ge> usz s \<or> a + 4 > usz s then None else Some (get32 (ubuf a s) 0))"

text \<open>The address and the length of the string.\<close>

definition fetchstr :: "u32 \<Rightarrow> kst \<Rightarrow> (u32 \<times> nat) option" where
  "fetchstr a s =
    (if a \<ge> usz s then None
     else map_option (Pair a) (first_index (\<lambda>i. umem s (a + of_nat i) = 0) (unat (usz s) - unat a)))"

definition argint :: "nat \<Rightarrow> kst \<Rightarrow> u32 option" where
  "argint n s = fetchint (uesp s + 4 + 4 * of_nat n) s"

definition argptr :: "nat \<Rightarrow> int \<Rightarrow> kst \<Rightarrow> u32 option" where
  "argptr n sz s =
    (case argint n s of
       None \<Rightarrow> None
     | Some i \<Rightarrow> if sz < 0 \<or> i \<ge> usz s \<or> i + word_of_int sz > usz s then None else Some i)"

definition argstr :: "nat \<Rightarrow> kst \<Rightarrow> (u32 \<times> nat) option" where
  "argstr n s = (case argint n s of None \<Rightarrow> None | Some a \<Rightarrow> fetchstr a s)"

definition ustring :: "u32 \<times> nat \<Rightarrow> kst \<Rightarrow> byte list" where
  "ustring p s = map (ubuf (fst p) s) [0..<snd p]"

text \<open>
  C16. User space ends at \<open>KERNBASE\<close>. For a process whose size respects that, a pointer accepted by
  \<open>argptr\<close> for a size that fits an \<open>int\<close> refers to a range that lies inside the process without
  wrapping around, and one accepted by \<open>argstr\<close> to a terminated string inside it.
\<close>

theorem arguments_in_user_space:
  assumes "unat (usz s) \<le> 2 ^ 31"
  shows "(argptr n sz s = Some p \<and> sz < 2 ^ 31 \<longrightarrow> 0 \<le> sz \<and> unat p + nat sz \<le> unat (usz s))
    \<and> (argstr n s = Some (a, l) \<longrightarrow> unat a + l < unat (usz s) \<and> umem s (a + of_nat l) = 0
        \<and> (\<forall>i<l. umem s (a + of_nat i) \<noteq> 0))"
proof (intro conjI impI; (elim conjE)?)
  assume a: "argptr n sz s = Some p" "sz < 2 ^ 31"
  then have b: "0 \<le> sz" "p < usz s" "p + word_of_int sz \<le> usz s"
    by (auto simp: argptr_def not_less not_le split: option.splits if_splits)
  have u: "unat (word_of_int sz :: u32) = nat sz"
    using a(2) b(1) by (simp add: unat_eq_nat_uint uint_word_of_int)
  have "unat p + nat sz < 2 ^ 32"
    using b(2) assms a(2) b(1) by (simp add: word_less_nat_alt)
  then have "unat (p + word_of_int sz) = unat p + nat sz"
    by (simp add: unat_word_ariths u)
  then have le: "unat p + nat sz \<le> unat (usz s)"
    using b(3) by (simp add: word_le_nat_alt)
  show "0 \<le> sz" "unat p + nat sz \<le> unat (usz s)"
    using b(1) le by simp_all
next
  assume "argstr n s = Some (a, l)"
  then have b: "a < usz s" "first_index (\<lambda>i. umem s (a + of_nat i) = 0) (unat (usz s) - unat a) = Some l"
    by (auto simp: argstr_def fetchstr_def not_le split: option.splits if_splits)
  then show "unat a + l < unat (usz s)" "umem s (a + of_nat l) = 0" "\<forall>i<l. umem s (a + of_nat i) \<noteq> 0"
    by (auto simp: first_index_Some)
qed

definition demo_user :: kst where
  "demo_user = (boot_state 1 100 (\<lambda>_. zero_block))\<lparr>umem := (\<lambda>a. if a = 4 then 16 else if a = 16 then 65 else 0),
     usz := 32\<rparr>"

text \<open>C16 applied: the first argument is the pointer 16, to the string "A".\<close>

theorem arguments_in_user_space_witness:
  "argptr 0 16 demo_user = Some 16 \<and> unat (16 :: u32) + 16 \<le> unat (usz demo_user)
   \<and> argptr 0 17 demo_user = None \<and> argstr 0 demo_user = Some (16, 1) \<and> unat (16 :: u32) + 1 < unat (usz demo_user)"
proof -
  have i: "argint 0 demo_user = Some 16"
    by (simp add: argint_def fetchint_def demo_user_def boot_state_def ubuf_def get32_def)
  have p: "argptr 0 16 demo_user = Some 16" "argptr 0 17 demo_user = None"
    by (simp_all add: argptr_def i) (simp_all add: demo_user_def)
  have "first_index (\<lambda>k. umem demo_user (16 + of_nat k) = 0) 16 = Some 1"
    by (simp add: first_index_Some demo_user_def)
  then have t: "argstr 0 demo_user = Some (16, 1)"
    by (simp add: argstr_def i fetchstr_def) (simp add: demo_user_def)
  have "unat (usz demo_user) \<le> 2 ^ 31"
    by (simp add: demo_user_def)
  from arguments_in_user_space [OF this, of 0 16 16 16 1] p t show ?thesis
    by simp
qed

end
