(* ===== verification/SysFile.thy ===== *)
theory SysFile
  imports File SysArgs
begin

text \<open>
  The file system calls (\<open>sysfile.c\<close>): argument checks and calls into \<open>file.c\<close> and \<open>fs.c\<close>. Every
  \<open>sys_\<close> function takes the device switch and the state of the calling process and returns what is
  put into the process's \<open>%eax\<close>.
\<close>

subsection \<open>File descriptors\<close>

definition argfd :: "nat \<Rightarrow> kst \<Rightarrow> (nat \<times> nat) option" where
  "argfd n s =
    (case argint n s of
       None \<Rightarrow> None
     | Some w \<Rightarrow> let fd = sint w in
         if fd < 0 \<or> fd \<ge> int NOFILE then None else map_option (Pair (nat fd)) (ofile s (nat fd)))"

definition fdalloc :: "nat \<Rightarrow> kst \<Rightarrow> nat option \<times> kst" where
  "fdalloc f s =
    (case first_index (\<lambda>fd. ofile s fd = None) NOFILE of
       Some fd \<Rightarrow> (Some fd, s\<lparr>ofile := (ofile s)(fd := Some f)\<rparr>)
     | None \<Rightarrow> (None, s))"

definition sys_dup :: "kst \<Rightarrow> (int \<times> kst) outcome" where
  "sys_dup s =
    (case argfd 0 s of
       None \<Rightarrow> Done (-1, s)
     | Some (_, f) \<Rightarrow>
       (case fdalloc f s of
          (None, s) \<Rightarrow> Done (-1, s)
        | (Some fd, s) \<Rightarrow> bindO (filedup f s) (\<lambda>s. Done (int fd, s))))"

definition sys_read :: "devsw \<Rightarrow> kst \<Rightarrow> (int \<times> kst) outcome" where
  "sys_read dv s =
    (case (argfd 0 s, argint 2 s) of
       (Some (_, f), Some w) \<Rightarrow>
         (case argptr 1 (sint w) s of
            None \<Rightarrow> Done (-1, s)
          | Some p \<Rightarrow>
              bindS (fileread dv f (ubuf p s) (sint w) s) (\<lambda>(r, d) s.
              Done (r, uput p (nat (sint w)) d s)))
     | _ \<Rightarrow> Done (-1, s))"

definition sys_write :: "devsw \<Rightarrow> kst \<Rightarrow> (int \<times> kst) outcome" where
  "sys_write dv s =
    (case (argfd 0 s, argint 2 s) of
       (Some (_, f), Some w) \<Rightarrow>
         (case argptr 1 (sint w) s of
            None \<Rightarrow> Done (-1, s)
          | Some p \<Rightarrow> filewrite dv f (ubuf p s) (sint w) s)
     | _ \<Rightarrow> Done (-1, s))"

definition sys_close :: "kst \<Rightarrow> (int \<times> kst) outcome" where
  "sys_close s =
    (case argfd 0 s of
       None \<Rightarrow> Done (-1, s)
     | Some (fd, f) \<Rightarrow> bindO (fileclose f (s\<lparr>ofile := (ofile s)(fd := None)\<rparr>)) (\<lambda>s. Done (0, s)))"

text \<open>\<open>struct stat\<close> in user memory: 20 bytes, \<open>type\<close>, \<open>dev\<close>, \<open>ino\<close>, \<open>nlink\<close> and \<open>size\<close> at multiples of 4.\<close>

definition store_stat :: "stat \<Rightarrow> block \<Rightarrow> block" where
  "store_stat st d = put32 16 (st_size st) (put16 12 (st_nlink st) (put32 8 (st_ino st)
     (put32 4 (st_dev st) (put16 0 (st_type st) d))))"

definition sys_fstat :: "kst \<Rightarrow> (int \<times> kst) outcome" where
  "sys_fstat s =
    (case argfd 0 s of
       None \<Rightarrow> Done (-1, s)
     | Some (_, f) \<Rightarrow>
       (case argptr 1 20 s of
          None \<Rightarrow> Done (-1, s)
        | Some p \<Rightarrow>
            bindS (filestat f s) (\<lambda>st s.
              case st of
                None \<Rightarrow> Done (-1, s)
              | Some x \<Rightarrow> Done (0, uput p 20 (store_stat x (ubuf p s)) s))))"

subsection \<open>Links\<close>

text \<open>Leaving a system call with an error: \<open>end_op\<close> and -1.\<close>

definition fail_op :: "kst \<Rightarrow> (int \<times> kst) outcome" where
  "fail_op s = bindO (end_op s) (\<lambda>s. Done (-1, s))"

definition upd_nlink :: "nat \<Rightarrow> (u16 \<Rightarrow> u16) \<Rightarrow> kst \<Rightarrow> kst outcome" where
  "upd_nlink ip f s = iupdate ip (upd_inode ip (\<lambda>x. x\<lparr>i_nlink := f (i_nlink x)\<rparr>) s)"

text \<open>The label \<open>bad\<close> of \<open>sys_link\<close>: take the link count back.\<close>

definition link_bad :: "nat \<Rightarrow> kst \<Rightarrow> (int \<times> kst) outcome" where
  "link_bad ip s =
    bindO (ilock ip s) (\<lambda>s.
    bindO (upd_nlink ip (\<lambda>n. n - 1) s) (\<lambda>s.
    bindO (iunlockput ip s) fail_op))"

definition sys_link :: "devsw \<Rightarrow> kst \<Rightarrow> (int \<times> kst) outcome" where
  "sys_link dv s =
    (case (argstr 0 s, argstr 1 s) of
       (Some old, Some new) \<Rightarrow>
         bindO (begin_op s) (\<lambda>s.
         bindS (namei dv (ustring old s) s) (\<lambda>ipo s.
           case ipo of
             None \<Rightarrow> fail_op s
           | Some ip \<Rightarrow>
               bindO (ilock ip s) (\<lambda>s.
               if i_type (icache s ip) = T_DIR then bindO (iunlockput ip s) fail_op
               else
                 bindO (upd_nlink ip (\<lambda>n. n + 1) s) (\<lambda>s.
                 bindO (iunlock ip s) (\<lambda>s.
                 bindS (nameiparent dv (ustring new s) zero_block s) (\<lambda>(dpo, name) s.
                   case dpo of
                     None \<Rightarrow> link_bad ip s
                   | Some dp \<Rightarrow>
                       bindO (ilock dp s) (\<lambda>s.
                       bindS (if i_dev (icache s dp) \<noteq> i_dev (icache s ip) then Done (-1, s)
                              else dirlink dv dp name (i_inum (icache s ip)) s) (\<lambda>r s.
                         bindO (iunlockput dp s) (\<lambda>s.
                           if r < 0 then link_bad ip s
                           else bindO (iput ip s) (\<lambda>s. bindO (end_op s) (\<lambda>s. Done (0, s))))))))))))
     | _ \<Rightarrow> Done (-1, s))"

text \<open>The scan of \<open>isdirempty\<close> from the third entry on; \<open>off\<close> would overflow where the fuel ends.\<close>

fun isdirempty_from :: "nat \<Rightarrow> devsw \<Rightarrow> nat \<Rightarrow> u32 \<Rightarrow> block \<Rightarrow> kst \<Rightarrow> (bool \<times> kst) outcome" where
  "isdirempty_from 0 dv dp off de s = Undef"
| "isdirempty_from (Suc k) dv dp off de s =
    (if off < i_size (icache s dp) then
       bindS (readi dv dp de off 16 s) (\<lambda>(r, de) s.
         if r \<noteq> 16 then Panic ''isdirempty: readi''
         else if de_inum de \<noteq> 0 then Done (False, s)
         else isdirempty_from k dv dp (off + 16) de s)
     else Done (True, s))"

definition isdirempty :: "devsw \<Rightarrow> nat \<Rightarrow> kst \<Rightarrow> (bool \<times> kst) outcome" where
  "isdirempty dv dp s = isdirempty_from (2 ^ 28 + 1) dv dp 32 zero_block s"

text \<open>The names "." and "..".\<close>

definition dot :: block where
  "dot = (\<lambda>_. 0)(0 := 46)"

definition dotdot :: block where
  "dotdot = (\<lambda>_. 0)(0 := 46, 1 := 46)"

text \<open>The part of \<open>sys_unlink\<close> after the entry has been found, with both inodes locked.\<close>

definition unlink_entry :: "devsw \<Rightarrow> nat \<Rightarrow> nat \<Rightarrow> u32 \<Rightarrow> kst \<Rightarrow> (int \<times> kst) outcome" where
  "unlink_entry dv dp ip off s =
    bindS (writei dv dp zero_block off 16 s) (\<lambda>r s.
      if r \<noteq> 16 then Panic ''unlink: writei'' else
      bindO (if i_type (icache s ip) = T_DIR then upd_nlink dp (\<lambda>n. n - 1) s else Done s) (\<lambda>s.
      bindO (iunlockput dp s) (\<lambda>s.
      bindO (upd_nlink ip (\<lambda>n. n - 1) s) (\<lambda>s.
      bindO (iunlockput ip s) (\<lambda>s.
      bindO (end_op s) (\<lambda>s. Done (0, s)))))))"

definition sys_unlink :: "devsw \<Rightarrow> kst \<Rightarrow> (int \<times> kst) outcome" where
  "sys_unlink dv s =
    (case argstr 0 s of
       None \<Rightarrow> Done (-1, s)
     | Some path \<Rightarrow>
         bindO (begin_op s) (\<lambda>s.
         bindS (nameiparent dv (ustring path s) zero_block s) (\<lambda>(dpo, name) s.
           case dpo of
             None \<Rightarrow> fail_op s
           | Some dp \<Rightarrow>
               let bad = (\<lambda>s. bindO (iunlockput dp s) fail_op) in
               bindO (ilock dp s) (\<lambda>s.
               if namecmp name 0 dot 0 = 0 \<or> namecmp name 0 dotdot 0 = 0 then bad s
               else
                 bindS (dirlookup dv dp name s) (\<lambda>r s.
                   case r of
                     None \<Rightarrow> bad s
                   | Some (off, ip) \<Rightarrow>
                       bindO (ilock ip s) (\<lambda>s.
                       if sint (i_nlink (icache s ip)) < 1 then Panic ''unlink: nlink < 1''
                       else
                         bindS (if i_type (icache s ip) = T_DIR then isdirempty dv ip s else Done (True, s)) (\<lambda>e s.
                           if \<not> e then bindO (iunlockput ip s) bad
                           else unlink_entry dv dp ip off s)))))))"

subsection \<open>Creating and opening\<close>

definition create :: "devsw \<Rightarrow> byte list \<Rightarrow> u16 \<Rightarrow> u16 \<Rightarrow> u16 \<Rightarrow> kst \<Rightarrow> (nat option \<times> kst) outcome" where
  "create dv path ty major minor s =
    bindS (nameiparent dv path zero_block s) (\<lambda>(dpo, name) s.
      case dpo of
        None \<Rightarrow> Done (None, s)
      | Some dp \<Rightarrow>
          bindO (ilock dp s) (\<lambda>s.
          bindS (dirlookup dv dp name s) (\<lambda>r s.
            case r of
              Some (_, ip) \<Rightarrow>
                bindO (iunlockput dp s) (\<lambda>s.
                bindO (ilock ip s) (\<lambda>s.
                if ty = T_FILE \<and> i_type (icache s ip) = T_FILE then Done (Some ip, s)
                else bindO (iunlockput ip s) (\<lambda>s. Done (None, s))))
            | None \<Rightarrow>
                bindS (ialloc (i_dev (icache s dp)) ty s) (\<lambda>ip s.
                bindO (ilock ip s) (\<lambda>s.
                bindO (iupdate ip (upd_inode ip (\<lambda>x. x\<lparr>i_major := major, i_minor := minor, i_nlink := 1\<rparr>) s)) (\<lambda>s.
                bindO (if ty = T_DIR then
                         bindO (upd_nlink dp (\<lambda>n. n + 1) s) (\<lambda>s.
                         bindS (dirlink dv ip dot (i_inum (icache s ip)) s) (\<lambda>r1 s.
                           if r1 < 0 then Panic ''create dots'' else
                         bindS (dirlink dv ip dotdot (i_inum (icache s dp)) s) (\<lambda>r2 s.
                           if r2 < 0 then Panic ''create dots'' else Done s)))
                       else Done s) (\<lambda>s.
                bindS (dirlink dv dp name (i_inum (icache s ip)) s) (\<lambda>r s.
                  if r < 0 then Panic ''create: dirlink''
                  else bindO (iunlockput dp s) (\<lambda>s. Done (Some ip, s)))))))))) "

text \<open>The second half of \<open>sys_open\<close>: a file structure and a descriptor for the locked inode.\<close>

definition open_inode :: "u32 \<Rightarrow> nat \<Rightarrow> kst \<Rightarrow> (int \<times> kst) outcome" where
  "open_inode omode ip s =
    (let bad = (\<lambda>s. bindO (iunlockput ip s) fail_op) in
     case filealloc s of
       (None, s) \<Rightarrow> bad s
     | (Some f, s) \<Rightarrow>
       (case fdalloc f s of
          (None, s) \<Rightarrow> bindO (fileclose f s) bad
        | (Some fd, s) \<Rightarrow>
            bindO (iunlock ip s) (\<lambda>s.
            bindO (end_op s) (\<lambda>s.
            Done (int fd, upd_file f (\<lambda>x. x\<lparr>f_type := FD_INODE, f_ip := ip, f_off := 0,
              f_readable := (omode AND O_WRONLY = 0),
              f_writable := (omode AND O_WRONLY \<noteq> 0 \<or> omode AND O_RDWR \<noteq> 0)\<rparr>) s)))))"

definition sys_open :: "devsw \<Rightarrow> kst \<Rightarrow> (int \<times> kst) outcome" where
  "sys_open dv s =
    (case (argstr 0 s, argint 1 s) of
       (Some path, Some omode) \<Rightarrow>
         bindO (begin_op s) (\<lambda>s.
         if omode AND O_CREATE \<noteq> 0 then
           bindS (create dv (ustring path s) T_FILE 0 0 s) (\<lambda>ipo s.
             case ipo of None \<Rightarrow> fail_op s | Some ip \<Rightarrow> open_inode omode ip s)
         else
           bindS (namei dv (ustring path s) s) (\<lambda>ipo s.
             case ipo of
               None \<Rightarrow> fail_op s
             | Some ip \<Rightarrow>
                 bindO (ilock ip s) (\<lambda>s.
                 if i_type (icache s ip) = T_DIR \<and> omode \<noteq> O_RDONLY then bindO (iunlockput ip s) fail_op
                 else open_inode omode ip s)))
     | _ \<Rightarrow> Done (-1, s))"

text \<open>The end of \<open>sys_mkdir\<close> and \<open>sys_mknod\<close>.\<close>

definition made :: "nat option \<Rightarrow> kst \<Rightarrow> (int \<times> kst) outcome" where
  "made ipo s = (case ipo of None \<Rightarrow> fail_op s
     | Some ip \<Rightarrow> bindO (iunlockput ip s) (\<lambda>s. bindO (end_op s) (\<lambda>s. Done (0, s))))"

definition sys_mkdir :: "devsw \<Rightarrow> kst \<Rightarrow> (int \<times> kst) outcome" where
  "sys_mkdir dv s =
    bindO (begin_op s) (\<lambda>s.
      case argstr 0 s of
        None \<Rightarrow> fail_op s
      | Some path \<Rightarrow> bindS (create dv (ustring path s) T_DIR 0 0 s) made)"

definition sys_mknod :: "devsw \<Rightarrow> kst \<Rightarrow> (int \<times> kst) outcome" where
  "sys_mknod dv s =
    bindO (begin_op s) (\<lambda>s.
      case (argstr 0 s, argint 1 s, argint 2 s) of
        (Some path, Some major, Some minor) \<Rightarrow>
          bindS (create dv (ustring path s) T_DEV (ucast major) (ucast minor) s) made
      | _ \<Rightarrow> fail_op s)"

definition sys_chdir :: "devsw \<Rightarrow> kst \<Rightarrow> (int \<times> kst) outcome" where
  "sys_chdir dv s =
    bindO (begin_op s) (\<lambda>s.
      case argstr 0 s of
        None \<Rightarrow> fail_op s
      | Some path \<Rightarrow>
          bindS (namei dv (ustring path s) s) (\<lambda>ipo s.
            case ipo of
              None \<Rightarrow> fail_op s
            | Some ip \<Rightarrow>
                bindO (ilock ip s) (\<lambda>s.
                if i_type (icache s ip) \<noteq> T_DIR then bindO (iunlockput ip s) fail_op
                else
                  bindO (iunlock ip s) (\<lambda>s.
                  bindO (iput (cwd s) s) (\<lambda>s.
                  bindO (end_op s) (\<lambda>s. Done (0, s\<lparr>cwd := ip\<rparr>)))))))"

subsection \<open>Exec's arguments, and pipes\<close>

abbreviation MAXARG :: nat where "MAXARG \<equiv> 32"

text \<open>The loop of \<open>sys_exec\<close> that collects \<open>argv\<close> from entry \<open>i\<close> on; \<open>k\<close> entries fit.\<close>

fun exec_args :: "nat \<Rightarrow> u32 \<Rightarrow> nat \<Rightarrow> kst \<Rightarrow> byte list list option" where
  "exec_args 0 uargv i s = None"
| "exec_args (Suc k) uargv i s =
    (case fetchint (uargv + 4 * of_nat i) s of
       None \<Rightarrow> None
     | Some uarg \<Rightarrow>
         if uarg = 0 then Some []
         else case fetchstr uarg s of
                None \<Rightarrow> None
              | Some p \<Rightarrow> map_option ((#) (ustring p s)) (exec_args k uargv (i + 1) s))"

text \<open>\<open>exec\<close> runs on a state that contains the storage state \<open>k\<close>.\<close>

definition sys_exec :: "(byte list \<Rightarrow> byte list list \<Rightarrow> 's \<Rightarrow> (int \<times> 's) outcome) \<Rightarrow> kst \<Rightarrow> 's \<Rightarrow> (int \<times> 's) outcome" where
  "sys_exec exec k s =
    (case (argstr 0 k, argint 1 k) of
       (Some path, Some uargv) \<Rightarrow>
         (case exec_args MAXARG uargv 0 k of
            None \<Rightarrow> Done (-1, s)
          | Some argv \<Rightarrow> exec (ustring path k) argv s)
     | _ \<Rightarrow> Done (-1, s))"

definition sys_pipe :: "kst \<Rightarrow> (int \<times> kst) outcome" where
  "sys_pipe s =
    (case argptr 0 8 s of
       None \<Rightarrow> Done (-1, s)
     | Some p \<Rightarrow>
         bindS (pipealloc s) (\<lambda>r s.
           case r of
             None \<Rightarrow> Done (-1, s)
           | Some (rf, wrf) \<Rightarrow>
               let close2 = (\<lambda>s. bindO (fileclose rf s) (\<lambda>s. bindO (fileclose wrf s) (\<lambda>s. Done (-1, s)))) in
               (case fdalloc rf s of
                  (None, s) \<Rightarrow> close2 s
                | (Some fd0, s) \<Rightarrow>
                  (case fdalloc wrf s of
                     (None, s) \<Rightarrow> close2 (s\<lparr>ofile := (ofile s)(fd0 := None)\<rparr>)
                   | (Some fd1, s) \<Rightarrow>
                       Done (0, uput p 8 (put32 4 (of_nat fd1) (put32 0 (of_nat fd0) (ubuf p s))) s)))))"

end
