(* ===== verification/Kalloc.thy ===== *)
theory Kalloc
  imports Prelude
begin

text \<open>
  The physical page allocator (\<open>kalloc.c\<close>). Kernel memory is a map from kernel virtual addresses to
  bytes; the free list is threaded through the free pages themselves, each holding in its first four
  bytes the address of the next one (\<open>struct run\<close>). \<open>kend\<close> and \<open>kdata\<close> are the
  linker's symbols \<open>end\<close> and \<open>data\<close>.
\<close>

abbreviation PGSIZE :: u32 where "PGSIZE \<equiv> 4096"
abbreviation KERNBASE :: u32 where "KERNBASE \<equiv> 0x80000000"
abbreviation PHYSTOP :: u32 where "PHYSTOP \<equiv> 0xE000000"
abbreviation DEVSPACE :: u32 where "DEVSPACE \<equiv> 0xFE000000"
abbreviation EXTMEM :: u32 where "EXTMEM \<equiv> 0x100000"

definition V2P :: "u32 \<Rightarrow> u32" where "V2P a = a - KERNBASE"

definition P2V :: "u32 \<Rightarrow> u32" where "P2V a = a + KERNBASE"

definition PGROUNDUP :: "u32 \<Rightarrow> u32" where
  "PGROUNDUP a = (a + PGSIZE - 1) AND NOT (PGSIZE - 1)"

definition PGROUNDDOWN :: "u32 \<Rightarrow> u32" where
  "PGROUNDDOWN a = a AND NOT (PGSIZE - 1)"

type_synonym memory = "u32 \<Rightarrow> byte"

definition load32 :: "memory \<Rightarrow> u32 \<Rightarrow> u32" where
  "load32 m a = get32 (\<lambda>i. m (a + of_nat i)) 0"

definition store32 :: "u32 \<Rightarrow> u32 \<Rightarrow> memory \<Rightarrow> memory" where
  "store32 a v m = m(a := ucast v, a + 1 := ucast (drop_bit 8 v), a + 2 := ucast (drop_bit 16 v),
     a + 3 := ucast (drop_bit 24 v))"

text \<open>\<open>memset\<close> and \<open>memmove\<close> on kernel addresses.\<close>

definition mem_fill :: "u32 \<Rightarrow> byte \<Rightarrow> nat \<Rightarrow> memory \<Rightarrow> memory" where
  "mem_fill a c n m = (\<lambda>x. if unat (x - a) < n then c else m x)"

definition mem_put :: "u32 \<Rightarrow> nat \<Rightarrow> block \<Rightarrow> memory \<Rightarrow> memory" where
  "mem_put a n d m = (\<lambda>x. if unat (x - a) < n then d (unat (x - a)) else m x)"

record mst =
  kmem :: memory
  freelist :: u32
  use_lock :: bool
  kend :: u32
  kdata :: u32

subsection \<open>Operations\<close>

definition kfree :: "u32 \<Rightarrow> mst \<Rightarrow> mst outcome" where
  "kfree v s =
    (if v mod PGSIZE \<noteq> 0 \<or> v < kend s \<or> V2P v \<ge> PHYSTOP then Panic ''kfree''
     else let s = s\<lparr>kmem := mem_fill v 1 (unat PGSIZE) (kmem s)\<rparr>
          in Done (s\<lparr>kmem := store32 v (freelist s) (kmem s), freelist := v\<rparr>))"

text \<open>\<open>kalloc\<close> returns 0 when there is no free page.\<close>

definition kalloc :: "mst \<Rightarrow> u32 \<times> mst" where
  "kalloc s = (let r = freelist s in
     (r, if r \<noteq> 0 then s\<lparr>freelist := load32 (kmem s) r\<rparr> else s))"

text \<open>The loop of \<open>freerange\<close>; there are at most \<open>2 ^ 20\<close> pages.\<close>

fun freerange_from :: "nat \<Rightarrow> u32 \<Rightarrow> u32 \<Rightarrow> mst \<Rightarrow> mst outcome" where
  "freerange_from 0 p vend s = (if p + PGSIZE \<le> vend then Undef else Done s)"
| "freerange_from (Suc k) p vend s =
    (if p + PGSIZE \<le> vend then bindO (kfree p s) (freerange_from k (p + PGSIZE) vend) else Done s)"

definition freerange :: "u32 \<Rightarrow> u32 \<Rightarrow> mst \<Rightarrow> mst outcome" where
  "freerange vstart vend s = freerange_from (2 ^ 20) (PGROUNDUP vstart) vend s"

definition kinit1 :: "u32 \<Rightarrow> u32 \<Rightarrow> mst \<Rightarrow> mst outcome" where
  "kinit1 vstart vend s = freerange vstart vend (s\<lparr>use_lock := False\<rparr>)"

definition kinit2 :: "u32 \<Rightarrow> u32 \<Rightarrow> mst \<Rightarrow> mst outcome" where
  "kinit2 vstart vend s = bindO (freerange vstart vend s) (\<lambda>s. Done (s\<lparr>use_lock := True\<rparr>))"

subsection \<open>Memory lemmas\<close>

lemma load32_store32 [simp]: "load32 (store32 a v m) a = v"
proof -
  have "get32 (\<lambda>i. store32 a v m (a + of_nat i)) 0 = get32 (put32 0 v (\<lambda>_. 0)) 0"
    unfolding get32_def store32_def put32_def by simp
  then show ?thesis
    by (simp add: load32_def)
qed

lemma load32_cong:
  "(\<And>i. i < 4 \<Longrightarrow> m (a + of_nat i) = m' (a + of_nat i)) \<Longrightarrow> load32 m a = load32 m' a"
proof -
  assume a: "\<And>i. i < 4 \<Longrightarrow> m (a + of_nat i) = m' (a + of_nat i)"
  show ?thesis
    using a [of 0] a [of 1] a [of 2] a [of 3] by (simp add: load32_def get32_def)
qed

text \<open>\<open>page a\<close>: the addresses of the page that starts at \<open>a\<close>.\<close>

definition page :: "u32 \<Rightarrow> u32 set" where
  "page a = {x. unat (x - a) < 4096}"

lemma page_self [simp]: "i < 4096 \<Longrightarrow> a + of_nat i \<in> page a"
  by (simp add: page_def unat_of_nat)

lemma page_off: "x \<in> page a \<Longrightarrow> \<exists>i < 4096. x = a + of_nat i"
  by (intro exI [of _ "unat (x - a)"]) (simp add: page_def)

lemma mod_page: "(a :: u32) mod 4096 = 0 \<longleftrightarrow> 4096 dvd unat a"
  unfolding word_unat_eq_iff unat_mod_distrib dvd_eq_mod_eq_0 by simp

lemma aligned_page:
  fixes a x :: u32
  assumes "4096 dvd unat a"
  shows "x \<in> page a \<longleftrightarrow> unat x div 4096 = unat a div 4096"
proof -
  have ua: "unat a = 4096 * (unat a div 4096)"
    using assms by simp
  have "unat (x - a) < 4096 \<longleftrightarrow> unat x div 4096 = unat a div 4096"
  proof (cases "a \<le> x")
    case True
    then have "unat (x - a) = unat x - unat a" "unat a \<le> unat x"
      by (simp_all add: unat_sub word_le_nat_alt)
    then show ?thesis
      using ua by linarith
  next
    case False
    then have lt: "unat x < unat a"
      by (simp add: word_less_nat_alt not_le)
    have "unat (x - a) = 2 ^ 32 + unat x - unat a"
      using False by (simp add: unat_sub_if_size word_size word_le_nat_alt)
    moreover have "unat a \<le> 2 ^ 32 - 4096"
    proof -
      have "unat a div 4096 < 2 ^ 20"
        using unsigned_less [of a, where ?'a = nat] by (simp add: less_mult_imp_div_less)
      then show ?thesis
        by (subst ua) simp
    qed
    ultimately show ?thesis
      using lt ua by linarith
  qed
  then show ?thesis
    by (simp add: page_def)
qed

lemma aligned_disjoint:
  assumes "4096 dvd unat (a :: u32)" "4096 dvd unat b" "a \<noteq> b"
  shows "page a \<inter> page b = {}"
proof -
  have "unat a div 4096 \<noteq> unat b div 4096"
    using assms by (metis dvd_div_mult_self word_unat_eq_iff)
  then show ?thesis
    using assms(1,2) by (auto simp: aligned_page)
qed

lemma mem_fill_apply: "mem_fill a c 4096 m x = (if x \<in> page a then c else m x)"
  by (simp add: mem_fill_def page_def)

lemma store32_other: "x \<notin> page a \<Longrightarrow> store32 a v m x = m x"
  using page_self [of 0 a] page_self [of 1 a] page_self [of 2 a] page_self [of 3 a]
  by (auto simp: store32_def)

subsection \<open>The free list is a stack of pages\<close>

fun chain :: "memory \<Rightarrow> u32 \<Rightarrow> u32 list \<Rightarrow> bool" where
  "chain m r [] \<longleftrightarrow> r = 0"
| "chain m r (p # ps) \<longleftrightarrow> r = p \<and> p \<noteq> 0 \<and> chain m (load32 m p) ps"

definition page_ok :: "mst \<Rightarrow> u32 \<Rightarrow> bool" where
  "page_ok s p \<longleftrightarrow> p mod PGSIZE = 0 \<and> kend s \<le> p \<and> V2P p < PHYSTOP \<and> p \<noteq> 0"

definition free_pages :: "mst \<Rightarrow> u32 list \<Rightarrow> bool" where
  "free_pages s ps \<longleftrightarrow> chain (kmem s) (freelist s) ps \<and> distinct ps \<and> (\<forall>p \<in> set ps. page_ok s p)"

lemma chain_fun: "chain m r ps \<Longrightarrow> chain m r qs \<Longrightarrow> ps = qs"
  by (induction m r ps arbitrary: qs rule: chain.induct) (case_tac qs; auto)+

lemma chain_cong:
  "chain m r ps \<Longrightarrow> (\<And>p. p \<in> set ps \<Longrightarrow> load32 m' p = load32 m p) \<Longrightarrow> chain m' r ps"
  by (induction m r ps rule: chain.induct) auto

text \<open>Writing to pages that are not free keeps the free list.\<close>

lemma free_pages_write:
  assumes "free_pages s ps" "\<And>x p. p \<in> set ps \<Longrightarrow> x \<in> page p \<Longrightarrow> m x = kmem s x"
  shows "free_pages (s\<lparr>kmem := m\<rparr>) ps"
proof -
  have "load32 m p = load32 (kmem s) p" if "p \<in> set ps" for p
    by (rule load32_cong) (use assms(2) [OF that] in simp)
  then show ?thesis
    using assms(1) chain_cong [of "kmem s" "freelist s" ps m] by (simp add: free_pages_def page_ok_def)
qed

lemma kalloc_pop:
  assumes "free_pages s ps"
  shows "ps = [] \<Longrightarrow> kalloc s = (0, s)"
    "ps = q # qs \<Longrightarrow> \<exists>t. kalloc s = (q, t) \<and> free_pages t qs \<and> kmem t = kmem s \<and> kend t = kend s"
  using assms by (auto simp: free_pages_def kalloc_def page_ok_def)

lemma kfree_push:
  assumes "free_pages s ps" "page_ok s p" "p \<notin> set ps"
  shows "\<exists>t. kfree p s = Done t \<and> free_pages t (p # ps) \<and> kend t = kend s
    \<and> (\<forall>x. x \<notin> page p \<longrightarrow> kmem t x = kmem s x) \<and> (\<forall>i. 4 \<le> i \<and> i < 4096 \<longrightarrow> kmem t (p + of_nat i) = 1)"
proof -
  let ?m = "store32 p (freelist s) (mem_fill p 1 4096 (kmem s))"
  let ?t = "s\<lparr>kmem := ?m, freelist := p\<rparr>"
  have al: "4096 dvd unat p"
    using assms(2) by (simp add: page_ok_def mod_page)
  have e: "kfree p s = Done ?t"
    using assms(2) by (auto simp: kfree_def page_ok_def Let_def)
  have keep: "?m x = kmem s x" if "x \<notin> page p" for x
    using that by (simp add: store32_other mem_fill_apply)
  have "free_pages (s\<lparr>kmem := ?m\<rparr>) ps"
  proof (rule free_pages_write [OF assms(1)])
    fix x q
    assume q: "q \<in> set ps" "x \<in> page q"
    then have "4096 dvd unat q" "q \<noteq> p"
      using assms by (auto simp: free_pages_def page_ok_def mod_page)
    then show "?m x = kmem s x"
      using aligned_disjoint [OF al, of q] q(2) by (intro keep) auto
  qed
  then have "free_pages ?t (p # ps)"
    using assms(2,3) by (simp add: free_pages_def page_ok_def)
  moreover have "?m (p + of_nat i) = 1" if "4 \<le> i" "i < 4096" for i
  proof -
    have "p + of_nat i \<noteq> p + of_nat j" if "j < 4" for j
    proof -
      have "(of_nat i :: u32) \<noteq> of_nat j"
        using that \<open>4 \<le> i\<close> \<open>i < 4096\<close> by (auto simp: word_unat_eq_iff unat_of_nat)
      then show ?thesis
        by simp
    qed
    from this [of 0] this [of 1] this [of 2] this [of 3]
    have "store32 p (freelist s) (mem_fill p 1 4096 (kmem s)) (p + of_nat i) = mem_fill p 1 4096 (kmem s) (p + of_nat i)"
      by (simp add: store32_def)
    then show ?thesis
      using that(2) by (simp add: mem_fill_apply)
  qed
  ultimately show ?thesis
    using e keep by auto
qed

text \<open>
  C15. The allocator is a stack of distinct pages: \<open>kalloc\<close> takes the top one off, or returns 0 when
  there is none; \<open>kfree\<close> of a page that is not free puts it on top, filled with the byte 1 behind its
  link, and changes no other page; it panics on an address that is no page of the allocator.
\<close>

theorem kalloc_is_a_stack:
  assumes "free_pages s ps"
  shows "(case ps of
      [] \<Rightarrow> kalloc s = (0, s)
    | q # qs \<Rightarrow> \<exists>t. kalloc s = (q, t) \<and> free_pages t qs \<and> q \<notin> set qs \<and> kmem t = kmem s)
    \<and> (if page_ok s p then p \<in> set ps \<or> (\<exists>t. kfree p s = Done t \<and> free_pages t (p # ps)
        \<and> (\<forall>x. x \<notin> page p \<longrightarrow> kmem t x = kmem s x) \<and> (\<forall>i. 4 \<le> i \<and> i < 4096 \<longrightarrow> kmem t (p + of_nat i) = 1))
      else p = 0 \<or> kfree p s = Panic ''kfree'')"
proof (rule conjI)
  show "case ps of [] \<Rightarrow> kalloc s = (0, s)
    | q # qs \<Rightarrow> \<exists>t. kalloc s = (q, t) \<and> free_pages t qs \<and> q \<notin> set qs \<and> kmem t = kmem s"
    using kalloc_pop [OF assms] assms by (auto simp: free_pages_def split: list.split)
  show "if page_ok s p then p \<in> set ps \<or> (\<exists>t. kfree p s = Done t \<and> free_pages t (p # ps)
        \<and> (\<forall>x. x \<notin> page p \<longrightarrow> kmem t x = kmem s x) \<and> (\<forall>i. 4 \<le> i \<and> i < 4096 \<longrightarrow> kmem t (p + of_nat i) = 1))
      else p = 0 \<or> kfree p s = Panic ''kfree''"
  proof (cases "page_ok s p")
    case True
    then show ?thesis
      using kfree_push [OF assms True] by auto
  next
    case False
    then show ?thesis
      by (auto simp: page_ok_def kfree_def not_le not_less)
  qed
qed

text \<open>C15 applied: one page at address \<open>0x80400000\<close> freed into an empty allocator.\<close>

definition demo_mem :: mst where
  "demo_mem = \<lparr>kmem = (\<lambda>_. 0), freelist = 0, use_lock = False, kend = 0x80300000,
     kdata = 0x80108000\<rparr>"

theorem kalloc_is_a_stack_witness:
  "kalloc demo_mem = (0, demo_mem) \<and> (\<exists>t. kfree 0x80400000 demo_mem = Done t \<and> free_pages t [0x80400000])
    \<and> kfree 0x80400004 demo_mem = Panic ''kfree''"
proof -
  have f: "free_pages demo_mem []"
    by (simp add: free_pages_def demo_mem_def)
  have p: "page_ok demo_mem 0x80400000" "\<not> page_ok demo_mem 0x80400004"
    by (simp_all add: page_ok_def demo_mem_def V2P_def)
  show ?thesis
    using kalloc_is_a_stack [OF f, of "0x80400000"] kalloc_is_a_stack [OF f, of "0x80400004"] p by auto
qed

end
