(* ===== verification/Vm.thy ===== *)
theory Vm
  imports Kalloc
begin

text \<open>
  Page tables (\<open>vm.c\<close>). A page directory is a page of 1024 four-byte entries in kernel memory; a
  present entry holds the physical address of a page table of 1024 entries, and each of those that is
  present the physical address of a page. Pointers to entries are kernel addresses, 0 for the null
  pointer. The code that loads the x86 segment and page-directory registers is left out; \<open>loaduvm\<close>,
  which reads a file, is in theory \<open>Exec\<close>.
\<close>

subsection \<open>Addresses and entries (\<open>mmu.h\<close>)\<close>

abbreviation PTE_P :: u32 where "PTE_P \<equiv> 1"
abbreviation PTE_W :: u32 where "PTE_W \<equiv> 2"
abbreviation PTE_U :: u32 where "PTE_U \<equiv> 4"

definition PDX :: "u32 \<Rightarrow> u32" where "PDX va = drop_bit 22 va AND 0x3FF"

definition PTX :: "u32 \<Rightarrow> u32" where "PTX va = drop_bit 12 va AND 0x3FF"

definition PGADDR :: "u32 \<Rightarrow> u32 \<Rightarrow> u32 \<Rightarrow> u32" where
  "PGADDR d t off = push_bit 22 d OR push_bit 12 t OR off"

definition PTE_ADDR :: "u32 \<Rightarrow> u32" where "PTE_ADDR e = e AND NOT 0xFFF"

definition PTE_FLAGS :: "u32 \<Rightarrow> u32" where "PTE_FLAGS e = e AND 0xFFF"

definition set32 :: "u32 \<Rightarrow> u32 \<Rightarrow> mst \<Rightarrow> mst" where
  "set32 a v s = s\<lparr>kmem := store32 a v (kmem s)\<rparr>"

definition zero_page :: "u32 \<Rightarrow> mst \<Rightarrow> mst" where
  "zero_page a s = s\<lparr>kmem := mem_fill a 0 (unat PGSIZE) (kmem s)\<rparr>"

definition present :: "u32 \<Rightarrow> bool" where "present e \<longleftrightarrow> e AND PTE_P \<noteq> 0"

subsection \<open>Walking and mapping\<close>

definition walkpgdir :: "u32 \<Rightarrow> u32 \<Rightarrow> bool \<Rightarrow> mst \<Rightarrow> u32 \<times> mst" where
  "walkpgdir pgdir va alloc s =
    (let pde = pgdir + 4 * PDX va; e = load32 (kmem s) pde in
     if present e then (P2V (PTE_ADDR e) + 4 * PTX va, s)
     else if \<not> alloc then (0, s)
     else let (pgtab, s) = kalloc s in
       if pgtab = 0 then (0, s)
       else (pgtab + 4 * PTX va, set32 pde (V2P pgtab OR PTE_P OR PTE_W OR PTE_U) (zero_page pgtab s)))"

text \<open>The loop of \<open>mappages\<close> goes from page \<open>a\<close> to page \<open>lst\<close>, at most once around the \<open>2 ^ 20\<close> pages.\<close>

fun mappages_from :: "nat \<Rightarrow> u32 \<Rightarrow> u32 \<Rightarrow> u32 \<Rightarrow> u32 \<Rightarrow> u32 \<Rightarrow> mst \<Rightarrow> (int \<times> mst) outcome" where
  "mappages_from 0 pgdir a lst pa perm s = Undef"
| "mappages_from (Suc k) pgdir a lst pa perm s =
    (let (pte, s) = walkpgdir pgdir a True s in
     if pte = 0 then Done (-1, s)
     else if present (load32 (kmem s) pte) then Panic ''remap''
     else let s = set32 pte (pa OR perm OR PTE_P) s in
       if a = lst then Done (0, s)
       else mappages_from k pgdir (a + PGSIZE) lst (pa + PGSIZE) perm s)"

definition mappages :: "u32 \<Rightarrow> u32 \<Rightarrow> u32 \<Rightarrow> u32 \<Rightarrow> u32 \<Rightarrow> mst \<Rightarrow> (int \<times> mst) outcome" where
  "mappages pgdir va sz pa perm s =
    mappages_from (2 ^ 20) pgdir (PGROUNDDOWN va) (PGROUNDDOWN (va + sz - 1)) pa perm s"

text \<open>\<open>kmap\<close>: virtual start, physical start and end, permissions.\<close>

definition kmap :: "mst \<Rightarrow> (u32 \<times> u32 \<times> u32 \<times> u32) list" where
  "kmap s = [(KERNBASE, 0, EXTMEM, PTE_W),
     (KERNBASE + EXTMEM, V2P (KERNBASE + EXTMEM), V2P (kdata s), 0),
     (kdata s, V2P (kdata s), PHYSTOP, PTE_W),
     (DEVSPACE, DEVSPACE, 0, PTE_W)]"

fun map_kernel :: "u32 \<Rightarrow> (u32 \<times> u32 \<times> u32 \<times> u32) list \<Rightarrow> mst \<Rightarrow> (u32 \<times> mst) outcome" where
  "map_kernel pgdir [] s = Done (pgdir, s)"
| "map_kernel pgdir ((virt, pstart, pend, perm) # ks) s =
    bindS (mappages pgdir virt (pend - pstart) pstart perm s) (\<lambda>r s.
      if r < 0 then Done (0, s) else map_kernel pgdir ks s)"

definition setupkvm :: "mst \<Rightarrow> (u32 \<times> mst) outcome" where
  "setupkvm s =
    (let (pgdir, s) = kalloc s in
     if pgdir = 0 then Done (0, s)
     else let s = zero_page pgdir s in
       if P2V PHYSTOP > DEVSPACE then Panic ''PHYSTOP too high''
       else map_kernel pgdir (kmap s) s)"

subsection \<open>User memory\<close>

text \<open>The code does not test whether \<open>kalloc\<close> returned the null pointer.\<close>

definition inituvm :: "u32 \<Rightarrow> block \<Rightarrow> u32 \<Rightarrow> mst \<Rightarrow> mst outcome" where
  "inituvm pgdir init sz s =
    (if sz \<ge> PGSIZE then Panic ''inituvm: more than a page''
     else let (mem, s) = kalloc s in
       if mem = 0 then Undef
       else bindS (mappages pgdir 0 PGSIZE (V2P mem) (PTE_W OR PTE_U) (zero_page mem s)) (\<lambda>_ s.
         Done (s\<lparr>kmem := mem_put mem (unat sz) init (kmem s)\<rparr>)))"

fun deallocuvm_from :: "nat \<Rightarrow> u32 \<Rightarrow> u32 \<Rightarrow> u32 \<Rightarrow> mst \<Rightarrow> mst outcome" where
  "deallocuvm_from 0 pgdir a oldsz s = (if a < oldsz then Undef else Done s)"
| "deallocuvm_from (Suc k) pgdir a oldsz s =
    (if a < oldsz then
       let (pte, s) = walkpgdir pgdir a False s in
       if pte = 0 then deallocuvm_from k pgdir (PGADDR (PDX a + 1) 0 0 - PGSIZE + PGSIZE) oldsz s
       else if present (load32 (kmem s) pte) then
         let pa = PTE_ADDR (load32 (kmem s) pte) in
         if pa = 0 then Panic ''kfree''
         else bindO (kfree (P2V pa) s) (\<lambda>s. deallocuvm_from k pgdir (a + PGSIZE) oldsz (set32 pte 0 s))
       else deallocuvm_from k pgdir (a + PGSIZE) oldsz s
     else Done s)"

definition deallocuvm :: "u32 \<Rightarrow> u32 \<Rightarrow> u32 \<Rightarrow> mst \<Rightarrow> (u32 \<times> mst) outcome" where
  "deallocuvm pgdir oldsz newsz s =
    (if newsz \<ge> oldsz then Done (oldsz, s)
     else bindO (deallocuvm_from (2 ^ 20) pgdir (PGROUNDUP newsz) oldsz s) (\<lambda>s. Done (newsz, s)))"

fun allocuvm_from :: "nat \<Rightarrow> u32 \<Rightarrow> u32 \<Rightarrow> u32 \<Rightarrow> u32 \<Rightarrow> mst \<Rightarrow> (u32 \<times> mst) outcome" where
  "allocuvm_from 0 pgdir a oldsz newsz s = (if a < newsz then Undef else Done (newsz, s))"
| "allocuvm_from (Suc k) pgdir a oldsz newsz s =
    (if a < newsz then
       let (mem, s) = kalloc s in
       if mem = 0 then bindS (deallocuvm pgdir newsz oldsz s) (\<lambda>_ s. Done (0, s))
       else bindS (mappages pgdir a PGSIZE (V2P mem) (PTE_W OR PTE_U) (zero_page mem s)) (\<lambda>r s.
         if r < 0 then bindS (deallocuvm pgdir newsz oldsz s) (\<lambda>_ s. bindO (kfree mem s) (\<lambda>s. Done (0, s)))
         else allocuvm_from k pgdir (a + PGSIZE) oldsz newsz s)
     else Done (newsz, s))"

definition allocuvm :: "u32 \<Rightarrow> u32 \<Rightarrow> u32 \<Rightarrow> mst \<Rightarrow> (u32 \<times> mst) outcome" where
  "allocuvm pgdir oldsz newsz s =
    (if newsz \<ge> KERNBASE then Done (0, s)
     else if newsz < oldsz then Done (oldsz, s)
     else allocuvm_from (2 ^ 20) pgdir (PGROUNDUP oldsz) oldsz newsz s)"

definition free_table_at :: "u32 \<Rightarrow> nat \<Rightarrow> mst \<Rightarrow> mst outcome" where
  "free_table_at pgdir i s =
    (let e = load32 (kmem s) (pgdir + 4 * of_nat i) in
     if present e then kfree (P2V (PTE_ADDR e)) s else Done s)"

definition freevm :: "u32 \<Rightarrow> mst \<Rightarrow> mst outcome" where
  "freevm pgdir s =
    (if pgdir = 0 then Panic ''freevm: no pgdir''
     else bindS (deallocuvm pgdir KERNBASE 0 s) (\<lambda>_ s.
       bindO (foldO (free_table_at pgdir) [0..<1024] s) (kfree pgdir)))"

definition clearpteu :: "u32 \<Rightarrow> u32 \<Rightarrow> mst \<Rightarrow> mst outcome" where
  "clearpteu pgdir uva s =
    (let (pte, s) = walkpgdir pgdir uva False s in
     if pte = 0 then Panic ''clearpteu''
     else Done (set32 pte (load32 (kmem s) pte AND NOT PTE_U) s))"

fun copyuvm_from :: "nat \<Rightarrow> u32 \<Rightarrow> u32 \<Rightarrow> u32 \<Rightarrow> u32 \<Rightarrow> mst \<Rightarrow> (u32 \<times> mst) outcome" where
  "copyuvm_from 0 pgdir d i sz s = (if i < sz then Undef else Done (d, s))"
| "copyuvm_from (Suc k) pgdir d i sz s =
    (if i < sz then
       let (pte, s) = walkpgdir pgdir i False s in
       if pte = 0 then Panic ''copyuvm: pte should exist''
       else let e = load32 (kmem s) pte in
         if \<not> present e then Panic ''copyuvm: page not present''
         else let (mem, s) = kalloc s in
           if mem = 0 then bindO (freevm d s) (\<lambda>s. Done (0, s))
           else let s = s\<lparr>kmem := mem_put mem (unat PGSIZE) (\<lambda>j. kmem s (P2V (PTE_ADDR e) + of_nat j)) (kmem s)\<rparr> in
             bindS (mappages d i PGSIZE (V2P mem) (PTE_FLAGS e) s) (\<lambda>r s.
               if r < 0 then bindO (freevm d s) (\<lambda>s. Done (0, s))
               else copyuvm_from k pgdir d (i + PGSIZE) sz s)
     else Done (d, s))"

definition copyuvm :: "u32 \<Rightarrow> u32 \<Rightarrow> mst \<Rightarrow> (u32 \<times> mst) outcome" where
  "copyuvm pgdir sz s =
    bindS (setupkvm s) (\<lambda>d s. if d = 0 then Done (0, s) else copyuvm_from (2 ^ 20) pgdir d 0 sz s)"

text \<open>\<open>uva2ka\<close> dereferences the result of \<open>walkpgdir\<close> without a test.\<close>

definition uva2ka :: "u32 \<Rightarrow> u32 \<Rightarrow> mst \<Rightarrow> u32 outcome" where
  "uva2ka pgdir uva s =
    (let (pte, _) = walkpgdir pgdir uva False s; e = load32 (kmem s) pte in
     if pte = 0 then Undef
     else if e AND PTE_P = 0 then Done 0
     else if e AND PTE_U = 0 then Done 0
     else Done (P2V (PTE_ADDR e)))"

text \<open>The bytes of page \<open>va\<close> from \<open>va\<close> on, at most \<open>len\<close>.\<close>

definition page_rest :: "u32 \<Rightarrow> u32 \<Rightarrow> u32" where
  "page_rest va len = (let n = PGSIZE - (va - PGROUNDDOWN va) in if n > len then len else n)"

lemma PGROUNDDOWN_off: "unat (va - PGROUNDDOWN va) = unat va mod 4096"
proof -
  have "va AND NOT (mask 12) = push_bit 12 (drop_bit 12 va)"
    by (rule bit_word_eqI) (auto simp: bit_simps)
  then have "PGROUNDDOWN va = push_bit 12 (drop_bit 12 va)"
    by (simp add: PGROUNDDOWN_def mask_eq_exp_minus_1)
  then have "va - PGROUNDDOWN va = take_bit 12 va"
    using bits_ident [of 12 va] by (simp add: algebra_simps)
  also have "\<dots> = va mod 4096"
    by (simp add: take_bit_eq_mod)
  finally show ?thesis
    by (simp add: unat_mod_distrib)
qed

lemma page_rest:
  assumes "0 < len"
  shows "unat (page_rest va len) = min (4096 - unat va mod 4096) (unat len)" "0 < unat (page_rest va len)"
proof -
  have "va - PGROUNDDOWN va \<le> 4096"
    by (simp add: word_le_nat_alt PGROUNDDOWN_off less_imp_le)
  then have "unat (PGSIZE - (va - PGROUNDDOWN va)) = 4096 - unat va mod 4096"
    by (simp add: unat_sub PGROUNDDOWN_off)
  then show "unat (page_rest va len) = min (4096 - unat va mod 4096) (unat len)"
    by (simp add: page_rest_def Let_def word_less_nat_alt)
  then show "0 < unat (page_rest va len)"
    using assms by (simp add: word_less_nat_alt)
qed

text \<open>The source is \<open>buf\<close> from offset \<open>j\<close> on.\<close>

function copyout :: "u32 \<Rightarrow> u32 \<Rightarrow> block \<Rightarrow> nat \<Rightarrow> u32 \<Rightarrow> mst \<Rightarrow> (int \<times> mst) outcome" where
  "copyout pgdir va buf j len s =
    (if len > 0 then
       let va0 = PGROUNDDOWN va in
       bindO (uva2ka pgdir va0 s) (\<lambda>pa0.
         if pa0 = 0 then Done (-1, s)
         else let n = page_rest va len in
           copyout pgdir (va0 + PGSIZE) buf (j + unat n) (len - n)
             (s\<lparr>kmem := mem_put (pa0 + (va - va0)) (unat n) (\<lambda>i. buf (j + i)) (kmem s)\<rparr>))
     else Done (0, s))"
  by pat_completeness auto
termination
proof (relation "measure (\<lambda>(pgdir, va, buf, j, len, s). unat len)", rule wf_measure, goal_cases)
  case prems: (1 pgdir va buf j len s va0 pa0 n)
  then have "n \<le> len" "0 < unat n"
    using page_rest [of len va] by (simp_all add: word_le_nat_alt word_less_nat_alt)
  then show ?case
    using prems(1) by (simp add: unat_sub word_less_nat_alt)
qed

declare copyout.simps [simp del]

end
