(* ===== verification/Proc.thy ===== *)
theory Proc
  imports Vm File
begin

text \<open>
  Processes (\<open>proc.c\<close>), on one CPU. A \<open>struct proc*\<close> is an index of the table \<open>procs\<close>; the trap frame
  that \<open>tf\<close> points to is a field. The kernel switches processes only in \<open>sched\<close>: what a process does
  between two calls of it holds \<open>ptable.lock\<close> or runs alone, and is one function of the state.
  \<open>curproc\<close> is the per-CPU variable \<open>proc\<close>, and \<open>rr\<close> the loop variable of \<open>scheduler\<close>. A function
  that went to sleep returns \<open>None\<close> as its result: it goes on from the head of its loop when the
  process runs again.
\<close>

subsection \<open>State\<close>

abbreviation NPROC :: nat where "NPROC \<equiv> 64"
abbreviation KSTACKSIZE :: u32 where "KSTACKSIZE \<equiv> 4096"

datatype procstate = UNUSED | EMBRYO | SLEEPING | RUNNABLE | RUNNING | ZOMBIE

text \<open>The saved registers (\<open>x86.h\<close>).\<close>

record trapframe =
  tf_edi :: u32
  tf_esi :: u32
  tf_ebp :: u32
  tf_oesp :: u32
  tf_ebx :: u32
  tf_edx :: u32
  tf_ecx :: u32
  tf_eax :: u32
  tf_gs :: u16
  tf_fs :: u16
  tf_es :: u16
  tf_ds :: u16
  tf_trapno :: u32
  tf_err :: u32
  tf_eip :: u32
  tf_cs :: u16
  tf_eflags :: u32
  tf_esp :: u32
  tf_ss :: u16

text \<open>A sleep channel: the address of a process structure, or another address; \<open>NoChan\<close> is 0.\<close>

datatype chan = NoChan | ProcChan nat | AddrChan u32

record proc =
  pr_sz :: u32
  pr_pgdir :: u32
  pr_kstack :: u32
  pr_state :: procstate
  pr_pid :: int
  pr_parent :: "nat option"
  pr_tf :: trapframe
  pr_fresh :: bool
  pr_chan :: chan
  pr_killed :: bool
  pr_ofile :: "nat \<Rightarrow> nat option"
  pr_cwd :: "nat option"
  pr_name :: block
  pr_level :: int
  pr_isThread :: bool
  pr_ustack :: u32
  pr_retval :: u32

text \<open>
  \<open>pr_fresh\<close>: the saved context starts at \<open>forkret\<close>. \<open>mm\<close> is kernel memory with the page allocator, \<open>io\<close>
  the storage state, \<open>cr3\<close> the page directory register, \<open>first\<close> the static variable of \<open>forkret\<close>.
\<close>

record pst =
  procs :: "nat \<Rightarrow> proc"
  nextpid :: int
  curproc :: "nat option"
  initproc :: "nat option"
  rr :: nat
  mm :: mst
  io :: kst
  cr3 :: u32
  first_ret :: bool
  ticks :: u32

definition upd_proc :: "nat \<Rightarrow> (proc \<Rightarrow> proc) \<Rightarrow> pst \<Rightarrow> pst" where
  "upd_proc p f s = s\<lparr>procs := (procs s)(p := f (procs s p))\<rparr>"

lemma upd_proc_sels [simp]:
  "procs (upd_proc p f s) = (procs s)(p := f (procs s p))" "nextpid (upd_proc p f s) = nextpid s"
  "curproc (upd_proc p f s) = curproc s" "initproc (upd_proc p f s) = initproc s" "rr (upd_proc p f s) = rr s"
  "mm (upd_proc p f s) = mm s" "io (upd_proc p f s) = io s" "ticks (upd_proc p f s) = ticks s"
  by (simp_all add: upd_proc_def)

text \<open>The same change to every entry of the table, as the loops over \<open>ptable.proc\<close> make it.\<close>

definition for_procs :: "(nat \<Rightarrow> proc \<Rightarrow> proc) \<Rightarrow> pst \<Rightarrow> pst" where
  "for_procs f s = fold (\<lambda>p. upd_proc p (f p)) [0..<NPROC] s"

lemma fold_upd_proc: "fold (\<lambda>p. upd_proc p (f p)) [0..<n] s
    = s\<lparr>procs := (\<lambda>p. if p < n then f p (procs s p) else procs s p)\<rparr>"
proof (induction n)
  case (Suc n)
  have "(\<lambda>p. if p < Suc n then f p (procs s p) else procs s p)
      = (\<lambda>p. if p < n then f p (procs s p) else procs s p)(n := f n (procs s n))"
    by (auto simp: fun_eq_iff less_Suc_eq)
  then show ?case
    by (simp add: Suc) (simp add: upd_proc_def)
qed simp

lemma for_procs_eq: "for_procs f s = s\<lparr>procs := (\<lambda>p. if p < NPROC then f p (procs s p) else procs s p)\<rparr>"
  unfolding for_procs_def by (rule fold_upd_proc)

text \<open>Calls into the memory system and into the storage stack.\<close>

definition with_mm :: "(mst \<Rightarrow> ('a \<times> mst) outcome) \<Rightarrow> pst \<Rightarrow> ('a \<times> pst) outcome" where
  "with_mm f s = bindS (f (mm s)) (\<lambda>a m. Done (a, s\<lparr>mm := m\<rparr>))"

definition with_io :: "(kst \<Rightarrow> kst outcome) \<Rightarrow> pst \<Rightarrow> pst outcome" where
  "with_io f s = bindO (f (io s)) (\<lambda>k. Done (s\<lparr>io := k\<rparr>))"

subsection \<open>Creating processes\<close>

definition allocproc :: "pst \<Rightarrow> nat option \<times> pst" where
  "allocproc s =
    (case first_index (\<lambda>p. pr_state (procs s p) = UNUSED) NPROC of
       None \<Rightarrow> (None, s)
     | Some p \<Rightarrow>
         let s = upd_proc p (\<lambda>x. x\<lparr>pr_state := EMBRYO, pr_pid := nextpid s\<rparr>) (s\<lparr>nextpid := nextpid s + 1\<rparr>);
             (k, m) = kalloc (mm s);
             s = upd_proc p (\<lambda>x. x\<lparr>pr_kstack := k\<rparr>) (s\<lparr>mm := m\<rparr>)
         in if k = 0 then (None, upd_proc p (\<lambda>x. x\<lparr>pr_state := UNUSED\<rparr>) s)
            else (Some p, upd_proc p (\<lambda>x. x\<lparr>pr_fresh := True\<rparr>) s))"

definition zero_tf :: trapframe where
  "zero_tf = \<lparr>tf_edi = 0, tf_esi = 0, tf_ebp = 0, tf_oesp = 0, tf_ebx = 0, tf_edx = 0, tf_ecx = 0,
     tf_eax = 0, tf_gs = 0, tf_fs = 0, tf_es = 0, tf_ds = 0, tf_trapno = 0, tf_err = 0, tf_eip = 0,
     tf_cs = 0, tf_eflags = 0, tf_esp = 0, tf_ss = 0\<rparr>"

text \<open>\<open>userinit\<close>; the boot code's blob \<open>initcode\<close> is an argument. \<open>p\<close> is not tested.\<close>

definition userinit :: "devsw \<Rightarrow> block \<Rightarrow> u32 \<Rightarrow> pst \<Rightarrow> pst outcome" where
  "userinit dv initcode isize s =
    (case allocproc s of
       (None, s) \<Rightarrow> Undef
     | (Some p, s) \<Rightarrow>
         let s = s\<lparr>initproc := Some p\<rparr> in
         bindS (with_mm setupkvm s) (\<lambda>pgdir s.
           let s = upd_proc p (\<lambda>x. x\<lparr>pr_pgdir := pgdir\<rparr>) s in
           if pgdir = 0 then Panic ''userinit: out of memory?''
           else bindO (inituvm pgdir initcode isize (mm s)) (\<lambda>m.
             let s = upd_proc p (\<lambda>x. x\<lparr>pr_sz := PGSIZE, pr_tf := zero_tf\<lparr>tf_es := 43, tf_ds := 43,
                       tf_cs := 35, tf_eflags := 0x200, tf_esp := PGSIZE, tf_ss := 43\<rparr>,
                       pr_name := safestrcpy 0 (\<lambda>i. [105,110,105,116,99,111,100,101,0] ! i) 0 16 (pr_name x)\<rparr>)
                     (s\<lparr>mm := m\<rparr>) in
             bindS (namei dv [47] (io s)) (\<lambda>ip k.
               Done (upd_proc p (\<lambda>x. x\<lparr>pr_cwd := ip, pr_state := RUNNABLE\<rparr>) (s\<lparr>io := k\<rparr>))))))"

text \<open>The loop of \<open>fork\<close> and \<open>clone\<close> that duplicates the open files of process \<open>c\<close> into \<open>np\<close>.\<close>

definition dup_file :: "nat \<Rightarrow> nat \<Rightarrow> nat \<Rightarrow> pst \<Rightarrow> pst outcome" where
  "dup_file c np i s =
    (case pr_ofile (procs s c) i of
       None \<Rightarrow> Done s
     | Some f \<Rightarrow> bindO (with_io (filedup f) s) (\<lambda>s.
         Done (upd_proc np (\<lambda>x. x\<lparr>pr_ofile := (pr_ofile x)(i := Some f)\<rparr>) s)))"

text \<open>\<open>np->cwd = idup(proc->cwd)\<close>.\<close>

definition dup_cwd :: "nat \<Rightarrow> nat \<Rightarrow> pst \<Rightarrow> pst outcome" where
  "dup_cwd c np s =
    (case pr_cwd (procs s c) of
       None \<Rightarrow> Undef
     | Some ip \<Rightarrow> Done (upd_proc np (\<lambda>x. x\<lparr>pr_cwd := Some ip\<rparr>) (s\<lparr>io := idup ip (io s)\<rparr>)))"

definition fork :: "nat \<Rightarrow> pst \<Rightarrow> (int \<times> pst) outcome" where
  "fork c s =
    (case allocproc s of
       (None, s) \<Rightarrow> Done (-1, s)
     | (Some np, s) \<Rightarrow>
         bindS (with_mm (copyuvm (pr_pgdir (procs s c)) (pr_sz (procs s c))) s) (\<lambda>d s.
           let s = upd_proc np (\<lambda>x. x\<lparr>pr_pgdir := d\<rparr>) s in
           if d = 0 then
             bindO (kfree (pr_kstack (procs s np)) (mm s)) (\<lambda>m.
             Done (-1, upd_proc np (\<lambda>x. x\<lparr>pr_kstack := 0, pr_state := UNUSED\<rparr>) (s\<lparr>mm := m\<rparr>)))
           else
             let s = upd_proc np (\<lambda>x. x\<lparr>pr_sz := pr_sz (procs s c), pr_parent := Some c,
                       pr_tf := (pr_tf (procs s c))\<lparr>tf_eax := 0\<rparr>\<rparr>) s in
             bindO (foldO (dup_file c np) [0..<NOFILE] s) (\<lambda>s.
             bindO (dup_cwd c np s) (\<lambda>s.
               let s = upd_proc np (\<lambda>x. x\<lparr>pr_name := safestrcpy 0 (pr_name (procs s c)) 0 16 (pr_name x)\<rparr>) s;
                   pid = pr_pid (procs s np)
               in Done (pid, upd_proc np (\<lambda>x. x\<lparr>pr_isThread := False, pr_state := RUNNABLE\<rparr>) s)))))"

text \<open>
  A store of the kernel to a user address of the running process goes through its page directory;
  where the page is not mapped the CPU faults, and \<open>trap\<close> panics.
\<close>

definition user_ka :: "u32 \<Rightarrow> u32 \<Rightarrow> mst \<Rightarrow> u32 option" where
  "user_ka pgdir va s =
    (let pte = fst (walkpgdir pgdir va False s); e = load32 (kmem s) pte in
     if pte = 0 \<or> \<not> present e then None else Some (P2V (PTE_ADDR e) + (va - PGROUNDDOWN va)))"

definition user_byte :: "u32 \<Rightarrow> u32 \<Rightarrow> byte \<Rightarrow> mst \<Rightarrow> mst outcome" where
  "user_byte pgdir va v s =
    (case user_ka pgdir va s of
       None \<Rightarrow> Panic ''trap''
     | Some ka \<Rightarrow> Done (s\<lparr>kmem := (kmem s)(ka := v)\<rparr>))"

definition user_store32 :: "u32 \<Rightarrow> u32 \<Rightarrow> u32 \<Rightarrow> mst \<Rightarrow> mst outcome" where
  "user_store32 pgdir va v s =
    foldO (\<lambda>i. user_byte pgdir (va + of_nat i) (ucast (drop_bit (8 * i) v))) [0..<4] s"

text \<open>
  \<open>clone\<close>. The two stores go to the stack pointer copied from the caller, and 16 bytes below it
  (\<open>(uint*)(esp) - 4\<close> counts in words); only afterwards \<open>esp\<close> is set to the new stack.
\<close>

definition clone :: "u32 \<Rightarrow> u32 \<Rightarrow> u32 \<Rightarrow> nat \<Rightarrow> pst \<Rightarrow> (int \<times> pst) outcome" where
  "clone start arg stack c s =
    (let me = procs s c in
     if stack + PGSIZE > pr_sz me then Done (-1, s)
     else if stack mod PGSIZE \<noteq> 0 then Done (-1, s)
     else case allocproc s of
       (None, s) \<Rightarrow> Done (-1, s)
     | (Some nt, s) \<Rightarrow>
         let tf = pr_tf me;
             s = upd_proc nt (\<lambda>x. x\<lparr>pr_sz := pr_sz me, pr_parent := Some c, pr_pgdir := pr_pgdir me,
                   pr_isThread := True, pr_tf := tf\<lparr>tf_eax := 0, tf_eip := start\<rparr>, pr_ustack := stack\<rparr>) s in
         bindO (foldO (dup_file c nt) [0..<NOFILE] s) (\<lambda>s.
         bindO (dup_cwd c nt s) (\<lambda>s.
         bindO (user_store32 (pr_pgdir me) (tf_esp tf) arg (mm s)) (\<lambda>m.
         bindO (user_store32 (pr_pgdir me) (tf_esp tf - 16) 0xffffffff m) (\<lambda>m.
           let s = upd_proc nt (\<lambda>x. x\<lparr>pr_tf := (pr_tf x)\<lparr>tf_esp := stack + PGSIZE - 4 - 4\<rparr>,
                     pr_name := safestrcpy 0 (pr_name me) 0 16 (pr_name x), pr_state := RUNNABLE\<rparr>) (s\<lparr>mm := m\<rparr>)
           in Done (pr_pid (procs s nt), s))))))"

subsection \<open>Memory size\<close>

definition switchuvm :: "nat \<Rightarrow> pst \<Rightarrow> pst outcome" where
  "switchuvm p s =
    (if pr_kstack (procs s p) = 0 then Panic ''switchuvm: no kstack''
     else if pr_pgdir (procs s p) = 0 then Panic ''switchuvm: no pgdir''
     else Done (s\<lparr>cr3 := V2P (pr_pgdir (procs s p))\<rparr>))"

text \<open>The loop at the end of \<open>growproc\<close>, for the caller \<open>c\<close>.\<close>

definition spread_sz :: "nat \<Rightarrow> u32 \<Rightarrow> pst \<Rightarrow> pst" where
  "spread_sz c sz s = for_procs (\<lambda>p x. if pr_parent x \<noteq> Some c \<or> pr_isThread x then x\<lparr>pr_sz := sz\<rparr> else x) s"

definition growproc :: "int \<Rightarrow> nat \<Rightarrow> pst \<Rightarrow> (int \<times> pst) outcome" where
  "growproc n c s =
    (let sz = pr_sz (procs s c); pgdir = pr_pgdir (procs s c) in
     bindS (if n > 0 then with_mm (allocuvm pgdir sz (sz + word_of_int n)) s
            else if n < 0 then with_mm (deallocuvm pgdir sz (sz + word_of_int n)) s
            else Done (sz, s)) (\<lambda>sz' s.
       if n \<noteq> 0 \<and> sz' = 0 then Done (-1, s)
       else bindO (switchuvm c (spread_sz c sz' (upd_proc c (\<lambda>x. x\<lparr>pr_sz := sz'\<rparr>) s))) (\<lambda>s. Done (0, s))))"

subsection \<open>Scheduling\<close>

text \<open>
  \<open>sched\<close> leaves the CPU to the scheduler, which goes on behind the \<open>swtch\<close> in its loop. Its tests of
  the lock and of the interrupt flag concern \<open>ptable.lock\<close>, which is not part of this state.
\<close>

definition sched :: "nat \<Rightarrow> pst \<Rightarrow> pst outcome" where
  "sched c s =
    (if pr_state (procs s c) = RUNNING then Panic ''sched running''
     else Done (s\<lparr>curproc := None, rr := rr s + 1\<rparr>))"

text \<open>One test of \<open>scheduler\<close>'s inner loop, or its restart from the first process.\<close>

definition scheduler :: "pst \<Rightarrow> pst outcome" where
  "scheduler s =
    (if rr s \<ge> NPROC then Done (s\<lparr>rr := 0\<rparr>)
     else if pr_state (procs s (rr s)) \<noteq> RUNNABLE then Done (s\<lparr>rr := rr s + 1\<rparr>)
     else bindO (switchuvm (rr s) (s\<lparr>curproc := Some (rr s)\<rparr>)) (\<lambda>s.
       Done (upd_proc (rr s) (\<lambda>x. x\<lparr>pr_state := RUNNING\<rparr>) s)))"

definition yield :: "nat \<Rightarrow> pst \<Rightarrow> pst outcome" where
  "yield c s = sched c (upd_proc c (\<lambda>x. x\<lparr>pr_state := RUNNABLE\<rparr>) s)"

text \<open>\<open>sleep\<close> up to its call of \<open>sched\<close>, and the rest of it when the process runs again.\<close>

definition sleep :: "chan \<Rightarrow> nat \<Rightarrow> pst \<Rightarrow> pst outcome" where
  "sleep ch c s = sched c (upd_proc c (\<lambda>x. x\<lparr>pr_chan := ch, pr_state := SLEEPING\<rparr>) s)"

definition woken :: "nat \<Rightarrow> pst \<Rightarrow> pst" where
  "woken c s = upd_proc c (\<lambda>x. x\<lparr>pr_chan := NoChan\<rparr>) s"

definition wakeup1 :: "chan \<Rightarrow> pst \<Rightarrow> pst" where
  "wakeup1 ch s = for_procs (\<lambda>p x. if pr_state x = SLEEPING \<and> pr_chan x = ch then x\<lparr>pr_state := RUNNABLE\<rparr> else x) s"

definition wakeup :: "chan \<Rightarrow> pst \<Rightarrow> pst" where
  "wakeup ch s = wakeup1 ch s"

definition kill :: "int \<Rightarrow> pst \<Rightarrow> int \<times> pst" where
  "kill pid s =
    (case first_index (\<lambda>p. pr_pid (procs s p) = pid) NPROC of
       None \<Rightarrow> (-1, s)
     | Some p \<Rightarrow> (0, upd_proc p (\<lambda>x. x\<lparr>pr_killed := True,
         pr_state := (if pr_state x = SLEEPING then RUNNABLE else pr_state x)\<rparr>) s))"

text \<open>The first return of a new process; the very first one initialises the file system.\<close>

definition forkret :: "nat \<Rightarrow> pst \<Rightarrow> pst outcome" where
  "forkret c s =
    (let s = upd_proc c (\<lambda>x. x\<lparr>pr_fresh := False\<rparr>) s in
     if first_ret s then
       bindO (with_io (iinit ROOTDEV) (s\<lparr>first_ret := False\<rparr>)) (with_io (initlog ROOTDEV))
     else Done s)"

subsection \<open>Exit and wait\<close>

definition parent_chan :: "nat option \<Rightarrow> chan" where
  "parent_chan p = (case p of None \<Rightarrow> NoChan | Some p \<Rightarrow> ProcChan p)"

text \<open>One step of the loop that passes abandoned children to init.\<close>

definition reparent :: "nat \<Rightarrow> nat \<Rightarrow> pst \<Rightarrow> pst" where
  "reparent c p s =
    (if pr_parent (procs s p) = Some c then
       let s = upd_proc p (\<lambda>x. x\<lparr>pr_parent := initproc s\<rparr>) s in
       if pr_state (procs s p) = ZOMBIE then wakeup1 (parent_chan (initproc s)) s else s
     else s)"

text \<open>The end that \<open>exit\<close> and \<open>thexit\<close> share: give up the directory, tell the parent, become a zombie.\<close>

definition leave :: "nat \<Rightarrow> pst \<Rightarrow> pst outcome" where
  "leave c s =
    (case pr_cwd (procs s c) of
       None \<Rightarrow> Undef
     | Some ip \<Rightarrow>
         bindO (with_io begin_op s) (\<lambda>s.
         bindO (with_io (iput ip) s) (\<lambda>s.
         bindO (with_io end_op s) (\<lambda>s.
           let s = upd_proc c (\<lambda>x. x\<lparr>pr_cwd := None\<rparr>) s;
               s = wakeup1 (parent_chan (pr_parent (procs s c))) s;
               s = fold (reparent c) [0..<NPROC] s
           in sched c (upd_proc c (\<lambda>x. x\<lparr>pr_state := ZOMBIE\<rparr>) s)))))"

definition thexit :: "nat \<Rightarrow> pst \<Rightarrow> pst outcome" where
  "thexit c s = (if Some c = initproc s then Panic ''init exiting'' else leave c s)"

definition close_fd :: "nat \<Rightarrow> nat \<Rightarrow> pst \<Rightarrow> pst outcome" where
  "close_fd c fd s =
    (case pr_ofile (procs s c) fd of
       None \<Rightarrow> Done s
     | Some f \<Rightarrow> bindO (with_io (fileclose f) s) (\<lambda>s.
         Done (upd_proc c (\<lambda>x. x\<lparr>pr_ofile := (pr_ofile x)(fd := None)\<rparr>) s)))"

definition exit :: "nat \<Rightarrow> pst \<Rightarrow> pst outcome" where
  "exit c s =
    (if Some c = initproc s then Panic ''init exiting''
     else bindO (foldO (close_fd c) [0..<NOFILE] s) (leave c))"

definition set_first_zero :: "block \<Rightarrow> block" where
  "set_first_zero b = b(0 := 0)"

definition wait :: "nat \<Rightarrow> pst \<Rightarrow> (int option \<times> pst) outcome" where
  "wait c s =
    (let kid = (\<lambda>p. pr_parent (procs s p) = Some c \<and> \<not> pr_isThread (procs s p)) in
     case first_index (\<lambda>p. kid p \<and> pr_state (procs s p) = ZOMBIE) NPROC of
       Some p \<Rightarrow>
         let pid = pr_pid (procs s p) in
         bindO (kfree (pr_kstack (procs s p)) (mm s)) (\<lambda>m.
           let s = upd_proc p (\<lambda>x. x\<lparr>pr_kstack := 0\<rparr>) (s\<lparr>mm := m\<rparr>) in
           bindO (freevm (pr_pgdir (procs s p)) (mm s)) (\<lambda>m.
           Done (Some pid, upd_proc p (\<lambda>x. x\<lparr>pr_state := UNUSED, pr_pid := 0, pr_parent := None,
             pr_killed := False, pr_name := set_first_zero (pr_name x), pr_isThread := False\<rparr>) (s\<lparr>mm := m\<rparr>))))
     | None \<Rightarrow>
         if first_index kid NPROC = None \<or> pr_killed (procs s c) then Done (Some (-1), s)
         else bindO (sleep (ProcChan c) c s) (\<lambda>s. Done (None, s)))"

text \<open>\<open>join\<close> also returns the thread's stack and value, which the code stores through the caller's pointers.\<close>

definition join :: "int \<Rightarrow> nat \<Rightarrow> pst \<Rightarrow> ((int \<times> u32 \<times> u32) option \<times> pst) outcome" where
  "join tid c s =
    (let kid = (\<lambda>p. pr_parent (procs s p) = Some c \<and> pr_isThread (procs s p)) in
     case first_index (\<lambda>p. kid p \<and> pr_state (procs s p) = ZOMBIE \<and> pr_pid (procs s p) = tid) NPROC of
       Some p \<Rightarrow>
         let pid = pr_pid (procs s p) in
         bindO (kfree (pr_kstack (procs s p)) (mm s)) (\<lambda>m.
         Done (Some (pid, pr_ustack (procs s p), pr_retval (procs s p)),
           upd_proc p (\<lambda>x. x\<lparr>pr_kstack := 0, pr_state := UNUSED, pr_pid := 0, pr_parent := None,
             pr_killed := False, pr_name := set_first_zero (pr_name x), pr_isThread := False\<rparr>) (s\<lparr>mm := m\<rparr>)))
     | None \<Rightarrow>
         if first_index kid NPROC = None \<or> pr_killed (procs s c) then Done (Some (-1, 0, 0), s)
         else bindO (sleep (ProcChan c) c s) (\<lambda>s. Done (None, s)))"

end
