(* ===== verification/ProcSpec.thy ===== *)
theory ProcSpec
  imports Proc
begin

text \<open>
  The kernel's processes as a state machine: what each operation of \<open>proc.c\<close> does to the states of the
  processes and to the CPU, the step relation they form, its invariants, and the fairness of the
  scheduler.
\<close>

subsection \<open>What an operation does to the states of processes\<close>

text \<open>
  \<open>quiet s t\<close>: the CPU stays where it is, the running processes are the same, and every runnable process is
  still runnable.
\<close>

abbreviation st :: "pst \<Rightarrow> nat \<Rightarrow> procstate" where "st s p \<equiv> pr_state (procs s p)"

definition quiet :: "pst \<Rightarrow> pst \<Rightarrow> bool" where
  "quiet s t \<longleftrightarrow> curproc t = curproc s \<and> rr t = rr s \<and> initproc t = initproc s
     \<and> (\<forall>p. (st t p = RUNNING \<longleftrightarrow> st s p = RUNNING) \<and> (st s p = RUNNABLE \<longrightarrow> st t p = RUNNABLE))"

lemma quiet_refl [simp]: "quiet s s"
  by (simp add: quiet_def)

lemma quiet_trans [trans]: "quiet s t \<Longrightarrow> quiet t u \<Longrightarrow> quiet s u"
  by (simp add: quiet_def)

lemma quietD:
  assumes "quiet s t"
  shows "curproc t = curproc s" "rr t = rr s" "initproc t = initproc s" "st t p = RUNNING \<longleftrightarrow> st s p = RUNNING"
    "st s p = RUNNABLE \<Longrightarrow> st t p = RUNNABLE"
  using assms by (simp_all add: quiet_def)

lemma quiet_upd: "(\<And>x. pr_state (f x) = pr_state x) \<Longrightarrow> quiet s (upd_proc p f s)"
  by (simp add: quiet_def)

lemma quiet_upd_state:
  "st s p \<noteq> RUNNABLE \<Longrightarrow> st s p \<noteq> RUNNING \<Longrightarrow> pr_state (f (procs s p)) \<noteq> RUNNING \<Longrightarrow> quiet s (upd_proc p f s)"
  by (simp add: quiet_def)

lemma quiet_same [simp]:
  "quiet s (t\<lparr>mm := m\<rparr>) = quiet s t" "quiet s (t\<lparr>io := k\<rparr>) = quiet s t" "quiet s (t\<lparr>cr3 := c\<rparr>) = quiet s t"
  "quiet s (t\<lparr>nextpid := n\<rparr>) = quiet s t" "quiet s (t\<lparr>first_ret := b\<rparr>) = quiet s t"
  "quiet (s\<lparr>first_ret := b\<rparr>) t = quiet s t"
  by (simp_all add: quiet_def)

lemma quiet_foldO:
  assumes "foldO f xs s = Done t" "\<And>x u v. f x u = Done v \<Longrightarrow> quiet u v"
  shows "quiet s t"
  by (rule foldO_Done [OF assms(1)]) (use assms(2) quiet_trans in auto)

lemma quiet_with_mm: "with_mm f s = Done (a, t) \<Longrightarrow> quiet s t"
  by (auto simp: with_mm_def outcome_simps)

lemma quiet_with_io: "with_io f s = Done t \<Longrightarrow> quiet s t"
  by (auto simp: with_io_def outcome_simps)

lemma quiet_wakeup1: "quiet s (wakeup1 ch s)"
  by (simp add: wakeup1_def for_procs_eq quiet_def)

lemma quiet_reparent: "quiet s (reparent c p s)"
  using quiet_trans [OF quiet_upd quiet_wakeup1] by (auto simp: reparent_def Let_def quiet_upd)

lemma quiet_reparent_all: "quiet s (fold (reparent c) xs s)"
  by (induction xs arbitrary: s) (auto intro: quiet_trans quiet_reparent)

lemma quiet_allocproc:
  assumes "allocproc s = (r, t)"
  shows "quiet s t" "r = Some p \<Longrightarrow> st s p = UNUSED \<and> st t p = EMBRYO \<and> p < NPROC \<and> pr_kstack (procs t p) \<noteq> 0
    \<and> pr_pid (procs t p) = nextpid s"
proof -
  show "quiet s t"
    using assms by (auto simp: allocproc_def Let_def quiet_def first_index_Some split: option.splits prod.splits if_splits)
  show "r = Some p \<Longrightarrow> st s p = UNUSED \<and> st t p = EMBRYO \<and> p < NPROC \<and> pr_kstack (procs t p) \<noteq> 0
    \<and> pr_pid (procs t p) = nextpid s"
    using assms by (auto simp: allocproc_def Let_def first_index_Some split: option.splits prod.splits if_splits)
qed

lemma dup_file_quiet:
  assumes "dup_file c np i s = Done t"
  shows "quiet s t" "st t p = st s p"
  using assms by (auto simp: dup_file_def with_io_def outcome_simps quiet_def split: option.splits if_splits)

lemma dup_cwd_quiet:
  assumes "dup_cwd c np s = Done t"
  shows "quiet s t" "st t p = st s p"
  using assms by (auto simp: dup_cwd_def quiet_def split: option.splits if_splits)

lemma dup_files_st: "foldO (dup_file c np) xs s = Done t \<Longrightarrow> st t p = st s p"
  by (rule foldO_Done [where I = "\<lambda>t. st t p = st s p"]) (auto simp: dup_file_quiet)

text \<open>The part that \<open>fork\<close> and \<open>clone\<close> share: files and directory of \<open>c\<close> for the new process.\<close>

lemma dup_all_quiet:
  assumes "foldO (dup_file c np) xs s = Done t" "dup_cwd c np t = Done u"
  shows "quiet s u" "st u p = st s p"
proof -
  have "quiet s t"
    by (rule quiet_foldO [OF assms(1)]) (rule dup_file_quiet)
  then show "quiet s u"
    using quiet_trans dup_cwd_quiet(1) [OF assms(2)] by blast
  show "st u p = st s p"
    using dup_files_st [OF assms(1)] dup_cwd_quiet(2) [OF assms(2)] by simp
qed

lemma with_mm_st: "with_mm f s = Done (a, t) \<Longrightarrow> procs t = procs s"
  by (auto simp: with_mm_def outcome_simps)

lemma fork_Done:
  assumes "fork c s = Done (r, t)"
  obtains (none) "r = -1" "allocproc s = (None, t)"
  | (nomem) np s1 s2 m where "r = -1" "allocproc s = (Some np, s1)"
      "with_mm (copyuvm (pr_pgdir (procs s1 c)) (pr_sz (procs s1 c))) s1 = Done (0, s2)"
      "t = upd_proc np (\<lambda>x. x\<lparr>pr_kstack := 0, pr_state := UNUSED\<rparr>)
         (upd_proc np (\<lambda>x. x\<lparr>pr_pgdir := 0\<rparr>) s2\<lparr>mm := m\<rparr>)"
  | (new) np s1 d s2 s3 s4 s5 where "allocproc s = (Some np, s1)"
      "with_mm (copyuvm (pr_pgdir (procs s1 c)) (pr_sz (procs s1 c))) s1 = Done (d, s2)" "d \<noteq> 0"
      "s3 = upd_proc np (\<lambda>x. x\<lparr>pr_sz := pr_sz (procs (upd_proc np (\<lambda>x. x\<lparr>pr_pgdir := d\<rparr>) s2) c), pr_parent := Some c,
         pr_tf := (pr_tf (procs (upd_proc np (\<lambda>x. x\<lparr>pr_pgdir := d\<rparr>) s2) c))\<lparr>tf_eax := 0\<rparr>\<rparr>)
         (upd_proc np (\<lambda>x. x\<lparr>pr_pgdir := d\<rparr>) s2)"
      "foldO (dup_file c np) [0..<NOFILE] s3 = Done s4" "dup_cwd c np s4 = Done s5"
      "r = pr_pid (procs s5 np)"
      "t = upd_proc np (\<lambda>x. x\<lparr>pr_isThread := False, pr_state := RUNNABLE\<rparr>)
         (upd_proc np (\<lambda>x. x\<lparr>pr_name := safestrcpy 0 (pr_name (procs s5 c)) 0 16 (pr_name x)\<rparr>) s5)"
proof (cases "allocproc s")
  case (Pair a s1)
  show thesis
  proof (cases a)
    case None
    then show thesis
      using assms Pair none by (simp add: fork_def)
  next
    case (Some np)
    note A = Pair [unfolded Some]
    obtain d s2 where 2: "with_mm (copyuvm (pr_pgdir (procs s1 c)) (pr_sz (procs s1 c))) s1 = Done (d, s2)"
      using assms A by (auto simp: fork_def outcome_simps)
    show thesis
    proof (cases "d = 0")
      case True
      then show thesis
        using assms A 2 nomem by (auto simp: fork_def Let_def outcome_simps)
    next
      case False
      then show thesis
        using assms A 2 new [OF A 2 False refl] by (auto simp: fork_def Let_def outcome_simps)
    qed
  qed
qed

lemma fork_quiet:
  assumes "fork c s = Done (r, t)"
  shows "quiet s t"
  using assms
proof (cases rule: fork_Done)
  case none
  show ?thesis by (rule quiet_allocproc(1) [OF none(2)])
next
  case (nomem np s1 s2 m)
  note q1 = quiet_allocproc(1) [OF nomem(2)] and e = quiet_allocproc(2) [OF nomem(2) refl]
  note q2 = quiet_with_mm [OF nomem(3)]
  have "quiet s2 t"
    unfolding nomem(4) using e with_mm_st [OF nomem(3)]
    by (intro quiet_trans [OF _ quiet_upd_state]) (simp_all add: quiet_upd)
  then show ?thesis
    using q1 q2 quiet_trans by blast
next
  case (new np s1 d s2 s3 s4 s5)
  note q1 = quiet_allocproc(1) [OF new(1)] and e = quiet_allocproc(2) [OF new(1) refl]
  note q2 = quiet_with_mm [OF new(2)]
  have q3: "quiet s2 s3"
    unfolding new(4) by (rule quiet_trans [OF quiet_upd quiet_upd]) simp_all
  have st: "st s3 np = EMBRYO"
    using e with_mm_st [OF new(2)] by (simp add: new(4))
  have "quiet s5 t"
    unfolding new(8) using dup_all_quiet(2) [OF new(5,6), of np] st
    by (intro quiet_trans [OF quiet_upd quiet_upd_state]) simp_all
  then show ?thesis
    using q1 q2 q3 dup_all_quiet(1) [OF new(5,6)] quiet_trans by blast
qed


lemma clone_quiet:
  assumes "clone start arg stack c s = Done (r, t)"
  shows "quiet s t"
proof (cases "allocproc s")
  case (Pair a s1)
  show ?thesis
  proof (cases "stack + PGSIZE > pr_sz (procs s c) \<or> stack mod PGSIZE \<noteq> 0 \<or> a = None")
    case True
    then show ?thesis
      using assms Pair quiet_allocproc(1) [OF Pair] by (auto simp: clone_def Let_def split: if_splits)
  next
    case False
    then obtain nt where A: "allocproc s = (Some nt, s1)"
      using Pair by auto
    note q1 = quiet_allocproc(1) [OF A] and e = quiet_allocproc(2) [OF A refl]
    let ?s2 = "upd_proc nt (\<lambda>x. x\<lparr>pr_sz := pr_sz (procs s c), pr_parent := Some c, pr_pgdir := pr_pgdir (procs s c),
        pr_isThread := True, pr_tf := (pr_tf (procs s c))\<lparr>tf_eax := 0, tf_eip := start\<rparr>, pr_ustack := stack\<rparr>) s1"
    obtain s3 s4 m where d: "foldO (dup_file c nt) [0..<NOFILE] ?s2 = Done s3" "dup_cwd c nt s3 = Done s4"
        "t = upd_proc nt (\<lambda>x. x\<lparr>pr_tf := (pr_tf x)\<lparr>tf_esp := stack + PGSIZE - 4 - 4\<rparr>,
          pr_name := safestrcpy 0 (pr_name (procs s c)) 0 16 (pr_name x), pr_state := RUNNABLE\<rparr>) (s4\<lparr>mm := m\<rparr>)"
      using assms A False unfolding clone_def Let_def
      by (auto simp: outcome_simps simp del: upt_Suc)
    have "quiet s1 ?s2"
      by (rule quiet_upd) simp
    moreover have "st ?s2 nt = EMBRYO"
      using e by simp
    then have "quiet s4 t"
      unfolding d(3) using dup_all_quiet(2) [OF d(1,2), of nt]
      by (intro quiet_trans [OF _ quiet_upd_state]) simp_all
    ultimately show ?thesis
      using q1 dup_all_quiet(1) [OF d(1,2)] quiet_trans by blast
  qed
qed

lemma spread_sz_quiet: "quiet s (spread_sz c sz s)"
  by (simp add: spread_sz_def for_procs_eq quiet_def)

lemma growproc_quiet:
  assumes "growproc n c s = Done (r, t)"
  shows "quiet s t"
proof -
  obtain sz u where u: "(if n > 0 then with_mm (allocuvm (pr_pgdir (procs s c)) (pr_sz (procs s c)) (pr_sz (procs s c) + word_of_int n)) s
            else if n < 0 then with_mm (deallocuvm (pr_pgdir (procs s c)) (pr_sz (procs s c)) (pr_sz (procs s c) + word_of_int n)) s
            else Done (pr_sz (procs s c), s)) = Done (sz, u)"
      "t = u \<or> (\<exists>v. t = spread_sz c sz (upd_proc c (\<lambda>x. x\<lparr>pr_sz := sz\<rparr>) u)\<lparr>cr3 := v\<rparr>)"
    using assms unfolding growproc_def Let_def bindS_Done_iff
    by (auto simp: switchuvm_def outcome_simps split: if_splits)
  have "quiet s u"
    using u(1) quiet_with_mm by (auto split: if_splits)
  moreover have "quiet u (spread_sz c sz (upd_proc c (\<lambda>x. x\<lparr>pr_sz := sz\<rparr>) u))"
    by (rule quiet_trans [OF quiet_upd spread_sz_quiet]) simp
  ultimately show ?thesis
    using u(2) quiet_trans by auto
qed

lemma kill_quiet: "kill pid s = (r, t) \<Longrightarrow> quiet s t"
  by (auto simp: kill_def quiet_def split: option.splits if_splits)

lemma forkret_quiet:
  assumes "forkret c s = Done t"
  shows "quiet s t"
proof -
  let ?s = "upd_proc c (\<lambda>x. x\<lparr>pr_fresh := False\<rparr>) s"
  have q: "quiet ?s t"
    using assms by (auto simp: forkret_def Let_def outcome_simps split: if_splits dest!: quiet_with_io intro: quiet_trans)
  show ?thesis
    by (rule quiet_trans [OF quiet_upd q]) simp
qed

text \<open>
  Giving up the CPU: \<open>c\<close> leaves with a state other than \<open>RUNNING\<close>, and the scheduler goes on behind it.
\<close>

definition gave_up :: "nat \<Rightarrow> pst \<Rightarrow> pst \<Rightarrow> bool" where
  "gave_up c s t \<longleftrightarrow> curproc t = None \<and> rr t = rr s + 1 \<and> initproc t = initproc s \<and> st t c \<noteq> RUNNING
     \<and> (\<forall>p. p \<noteq> c \<longrightarrow> (st t p = RUNNING \<longleftrightarrow> st s p = RUNNING) \<and> (st s p = RUNNABLE \<longrightarrow> st t p = RUNNABLE))"

lemma quiet_gave_up: "quiet s t \<Longrightarrow> gave_up c t u \<Longrightarrow> gave_up c s u"
  by (simp add: quiet_def gave_up_def)

lemma sched_gave_up:
  assumes "sched c (upd_proc c f s) = Done t"
  shows "gave_up c s t"
  using assms by (auto simp: sched_def gave_up_def split: if_splits)

lemma yield_gave_up: "yield c s = Done t \<Longrightarrow> gave_up c s t \<and> st t c = RUNNABLE"
  by (auto simp: yield_def sched_def gave_up_def)

lemma sleep_gave_up: "sleep ch c s = Done t \<Longrightarrow> gave_up c s t \<and> st t c = SLEEPING \<and> pr_chan (procs t c) = ch"
  by (auto simp: sleep_def sched_def gave_up_def)

lemma leave_gave_up:
  assumes "leave c s = Done t"
  shows "gave_up c s t" "st t c = ZOMBIE"
proof -
  obtain s1 s2 s3 u where u: "with_io begin_op s = Done s1" "with_io (iput (the (pr_cwd (procs s c)))) s1 = Done s2"
      "with_io end_op s2 = Done s3"
      "u = fold (reparent c) [0..<NPROC] (wakeup1 (parent_chan (pr_parent (procs (upd_proc c (\<lambda>x. x\<lparr>pr_cwd := None\<rparr>) s3) c)))
         (upd_proc c (\<lambda>x. x\<lparr>pr_cwd := None\<rparr>) s3))" "sched c (upd_proc c (\<lambda>x. x\<lparr>pr_state := ZOMBIE\<rparr>) u) = Done t"
    using assms by (auto simp: leave_def Let_def outcome_simps split: option.splits)
  have "quiet s3 u"
    unfolding u(4) by (rule quiet_trans [OF quiet_trans [OF quiet_upd quiet_wakeup1] quiet_reparent_all]) simp
  then have "quiet s u"
    using quiet_with_io [OF u(1)] quiet_with_io [OF u(2)] quiet_with_io [OF u(3)] quiet_trans by blast
  then show "gave_up c s t"
    using sched_gave_up [OF u(5)] quiet_gave_up by blast
  show "st t c = ZOMBIE"
    using u(5) by (auto simp: sched_def split: if_splits)
qed

lemma close_fd_quiet: "close_fd c fd s = Done t \<Longrightarrow> quiet s t"
  by (auto simp: close_fd_def with_io_def outcome_simps quiet_def split: option.splits if_splits)

lemma exit_gave_up:
  assumes "exit c s = Done t"
  shows "gave_up c s t" "st t c = ZOMBIE"
proof -
  obtain u where u: "foldO (close_fd c) [0..<NOFILE] s = Done u" "leave c u = Done t"
    using assms by (auto simp: exit_def outcome_simps split: if_splits)
  have "quiet s u"
    by (rule quiet_foldO [OF u(1)]) (rule close_fd_quiet)
  then show "gave_up c s t" "st t c = ZOMBIE"
    using leave_gave_up [OF u(2)] quiet_gave_up by blast+
qed

lemma thexit_gave_up: "thexit c s = Done t \<Longrightarrow> gave_up c s t \<and> st t c = ZOMBIE"
  using leave_gave_up by (auto simp: thexit_def split: if_splits)

lemma wait_effect:
  assumes "wait c s = Done (r, t)"
  shows "r \<noteq> None \<Longrightarrow> quiet s t" "r = None \<Longrightarrow> gave_up c s t \<and> st t c = SLEEPING"
proof -
  show "quiet s t" if r: "r \<noteq> None"
    using assms r by (auto simp: wait_def Let_def outcome_simps first_index_Some quiet_def split: option.splits if_splits)
  show "gave_up c s t \<and> st t c = SLEEPING" if r: "r = None"
    using assms r sleep_gave_up by (auto simp: wait_def Let_def outcome_simps split: option.splits if_splits)
qed

lemma join_effect:
  assumes "join tid c s = Done (r, t)"
  shows "r \<noteq> None \<Longrightarrow> quiet s t" "r = None \<Longrightarrow> gave_up c s t \<and> st t c = SLEEPING"
proof -
  show "quiet s t" if r: "r \<noteq> None"
    using assms r by (auto simp: join_def Let_def outcome_simps first_index_Some quiet_def split: option.splits if_splits)
  show "gave_up c s t \<and> st t c = SLEEPING" if r: "r = None"
    using assms r sleep_gave_up by (auto simp: join_def Let_def outcome_simps split: option.splits if_splits)
qed


subsection \<open>The running kernel as a state machine\<close>

text \<open>
  A step is one round of the scheduler's loop, when no process has the CPU, or one operation of the
  process \<open>c\<close> that has it. \<open>interrupt\<close> stands for what interrupt handlers do to the table: wake-ups.
\<close>

inductive cpu_step :: "pst \<Rightarrow> pst \<Rightarrow> bool" where
  scheduler: "curproc s = None \<Longrightarrow> scheduler s = Done t \<Longrightarrow> cpu_step s t"
| forkret: "curproc s = Some c \<Longrightarrow> forkret c s = Done t \<Longrightarrow> cpu_step s t"
| fork: "curproc s = Some c \<Longrightarrow> fork c s = Done (r, t) \<Longrightarrow> cpu_step s t"
| clone: "curproc s = Some c \<Longrightarrow> clone start arg stack c s = Done (r, t) \<Longrightarrow> cpu_step s t"
| growproc: "curproc s = Some c \<Longrightarrow> growproc n c s = Done (r, t) \<Longrightarrow> cpu_step s t"
| kill: "curproc s = Some c \<Longrightarrow> kill pid s = (r, t) \<Longrightarrow> cpu_step s t"
| interrupt: "cpu_step s (wakeup ch s)"
| woken: "curproc s = Some c \<Longrightarrow> cpu_step s (woken c s)"
| storage: "curproc s = Some c \<Longrightarrow> with_io f s = Done t \<Longrightarrow> cpu_step s t"
| wait: "curproc s = Some c \<Longrightarrow> wait c s = Done (r, t) \<Longrightarrow> cpu_step s t"
| join: "curproc s = Some c \<Longrightarrow> join tid c s = Done (r', t) \<Longrightarrow> cpu_step s t"
| yield: "curproc s = Some c \<Longrightarrow> yield c s = Done t \<Longrightarrow> cpu_step s t"
| sleep: "curproc s = Some c \<Longrightarrow> sleep ch c s = Done t \<Longrightarrow> cpu_step s t"
| exit: "curproc s = Some c \<Longrightarrow> exit c s = Done t \<Longrightarrow> cpu_step s t"
| thexit: "curproc s = Some c \<Longrightarrow> thexit c s = Done t \<Longrightarrow> cpu_step s t"

lemma woken_quiet: "quiet s (woken c s)"
  unfolding woken_def by (rule quiet_upd) simp

lemma wakeup_quiet: "quiet s (wakeup ch s)"
  unfolding wakeup_def by (rule quiet_wakeup1)

text \<open>Every step is one of three kinds.\<close>

lemma cpu_step_cases:
  assumes "cpu_step s t"
  obtains (quiet) "quiet s t"
  | (gave_up) c where "curproc s = Some c" "gave_up c s t"
  | (scheduled) "curproc s = None" "scheduler s = Done t"
  using assms
proof (cases rule: cpu_step.cases)
  case (wait c r)
  then show thesis
    using wait_effect [OF wait(2)] quiet gave_up by (cases r) auto
next
  case (join c tid r')
  then show thesis
    using join_effect [OF join(2)] quiet gave_up by (cases r') auto
next
  case (yield c)
  then show thesis
    using yield_gave_up gave_up by blast
next
  case (sleep c ch)
  then show thesis
    using sleep_gave_up gave_up by blast
next
  case (exit c)
  then show thesis
    using exit_gave_up(1) gave_up by blast
next
  case (thexit c)
  then show thesis
    using thexit_gave_up gave_up by blast
next
  case scheduler
  show thesis by (rule scheduled [OF scheduler])
next
  case (forkret c)
  show thesis by (rule quiet [OF forkret_quiet [OF forkret(2)]])
next
  case (fork c r)
  show thesis by (rule quiet [OF fork_quiet [OF fork(2)]])
next
  case (clone c start arg stack r)
  show thesis by (rule quiet [OF clone_quiet [OF clone(2)]])
next
  case (growproc c n r)
  show thesis by (rule quiet [OF growproc_quiet [OF growproc(2)]])
next
  case (kill c pid r)
  show thesis by (rule quiet [OF kill_quiet [OF kill(2)]])
next
  case (interrupt ch)
  then show thesis
    using quiet wakeup_quiet by simp
next
  case (woken c)
  then show thesis
    using quiet woken_quiet by simp
next
  case (storage c f)
  show thesis by (rule quiet [OF quiet_with_io [OF storage(2)]])
qed

text \<open>The process that has the CPU is the one that is \<open>RUNNING\<close>.\<close>

definition run_inv :: "pst \<Rightarrow> bool" where
  "run_inv s \<longleftrightarrow> (\<forall>p. st s p = RUNNING \<longleftrightarrow> curproc s = Some p)"

lemma scheduler_cases:
  assumes "scheduler s = Done t"
  obtains (restart) "NPROC \<le> rr s" "t = s\<lparr>rr := 0\<rparr>"
  | (skip) "rr s < NPROC" "st s (rr s) \<noteq> RUNNABLE" "t = s\<lparr>rr := rr s + 1\<rparr>"
  | (pick) "rr s < NPROC" "st s (rr s) = RUNNABLE" "curproc t = Some (rr s)" "rr t = rr s" "initproc t = initproc s"
      "procs t = (procs s)(rr s := (procs s (rr s))\<lparr>pr_state := RUNNING\<rparr>)"
proof -
  have "NPROC \<le> rr s \<and> t = s\<lparr>rr := 0\<rparr> \<or> rr s < NPROC \<and> st s (rr s) \<noteq> RUNNABLE \<and> t = s\<lparr>rr := rr s + 1\<rparr>
    \<or> rr s < NPROC \<and> st s (rr s) = RUNNABLE \<and> curproc t = Some (rr s) \<and> rr t = rr s \<and> initproc t = initproc s
      \<and> procs t = (procs s)(rr s := (procs s (rr s))\<lparr>pr_state := RUNNING\<rparr>)"
    using assms by (auto simp: scheduler_def switchuvm_def outcome_simps Let_def split: if_splits)
  then show thesis
    using restart skip pick by blast
qed

lemma run_inv_step:
  assumes "cpu_step s t" "run_inv s"
  shows "run_inv t"
  using assms(1)
proof (cases rule: cpu_step_cases)
  case quiet
  then show ?thesis
    using assms(2) by (simp add: run_inv_def quietD [OF quiet])
next
  case (gave_up c)
  have "st t p \<noteq> RUNNING" for p
    using gave_up assms(2) by (cases "p = c") (simp_all add: gave_up_def run_inv_def)
  moreover have "curproc t = None"
    using gave_up(2) by (simp add: gave_up_def)
  ultimately show ?thesis
    by (simp add: run_inv_def)
next
  case scheduled
  from scheduled(2) show ?thesis
    using scheduled(1) assms(2) by (cases rule: scheduler_cases) (auto simp: run_inv_def)
qed

text \<open>
  C12. In every state that the kernel reaches from one in which it holds, a process is \<open>RUNNING\<close> exactly when
  it is the one that has the CPU: whatever operations are called in whatever order, no process runs
  beside the current one, none that gave up the CPU is left \<open>RUNNING\<close>.
\<close>

theorem one_process_runs:
  assumes "cpu_step\<^sup>*\<^sup>* s t" "\<And>p. st s p = RUNNING \<longleftrightarrow> curproc s = Some p"
  shows "st t p = RUNNING \<longleftrightarrow> curproc t = Some p"
proof -
  have "run_inv s"
    using assms(2) by (simp add: run_inv_def)
  with assms(1) have "run_inv t"
    by (induction rule: rtranclp_induct) (auto intro: run_inv_step)
  then show ?thesis
    by (simp add: run_inv_def)
qed

text \<open>
  \<open>passed p n s t\<close>: an execution from \<open>s\<close> to \<open>t\<close> in which the scheduler handed the CPU to other
  processes than \<open>p\<close> exactly \<open>n\<close> times, and never to \<open>p\<close>.
\<close>

inductive passed :: "nat \<Rightarrow> nat \<Rightarrow> pst \<Rightarrow> pst \<Rightarrow> bool" where
  start: "passed p 0 s s"
| other: "passed p n s t \<Longrightarrow> cpu_step t u \<Longrightarrow> \<not> (curproc t = None \<and> curproc u \<noteq> None) \<Longrightarrow> passed p n s u"
| handed: "passed p n s t \<Longrightarrow> cpu_step t u \<Longrightarrow> curproc t = None \<Longrightarrow> curproc u = Some q \<Longrightarrow> q \<noteq> p
    \<Longrightarrow> passed p (n + 1) s u"

text \<open>How many slots the scheduler still visits before \<open>p\<close>; one less while a process runs.\<close>

definition ahead :: "nat \<Rightarrow> pst \<Rightarrow> nat" where
  "ahead p s = (if rr s \<le> p then p - rr s else NPROC + 1 + p - rr s)"


definition sched_inv :: "pst \<Rightarrow> bool" where
  "sched_inv s \<longleftrightarrow> run_inv s \<and> rr s \<le> NPROC \<and> (\<forall>c. curproc s = Some c \<longrightarrow> rr s = c \<and> c < NPROC)"

lemma sched_inv_step:
  assumes "cpu_step s t" "sched_inv s"
  shows "sched_inv t"
proof -
  have r: "run_inv t"
    using run_inv_step assms by (auto simp: sched_inv_def)
  from assms(1) show ?thesis
  proof (cases rule: cpu_step_cases)
    case quiet
    then show ?thesis
      using assms(2) r by (simp add: sched_inv_def quietD [OF quiet])
  next
    case (gave_up c)
    then show ?thesis
      using assms(2) r by (auto simp: sched_inv_def gave_up_def)
  next
    case scheduled
    from scheduled(2) show ?thesis
      using scheduled(1) assms(2) r by (cases rule: scheduler_cases) (auto simp: sched_inv_def)
  qed
qed

text \<open>One step: \<open>p\<close> stays runnable, and its turn comes closer with every handing over.\<close>

definition turn :: "nat \<Rightarrow> pst \<Rightarrow> int" where
  "turn p s = int (ahead p s) - (if curproc s = None then 0 else 1)"

lemma turn_step:
  assumes "cpu_step s t" "sched_inv s" "st s p = RUNNABLE" "p < NPROC" "curproc t \<noteq> Some p"
  shows "st t p = RUNNABLE" "turn p t \<le> turn p s" "curproc s = None \<Longrightarrow> curproc t \<noteq> None \<Longrightarrow> turn p t + 1 \<le> turn p s"
proof -
  have i: "rr s \<le> NPROC" "\<And>c. curproc s = Some c \<Longrightarrow> rr s = c \<and> c < NPROC" "\<And>q. st s q = RUNNING \<longleftrightarrow> curproc s = Some q"
    using assms(2) by (auto simp: sched_inv_def run_inv_def)
  have np: "curproc s \<noteq> Some p"
    using i(3) [of p] assms(3) by auto
  from assms(1) have "st t p = RUNNABLE \<and> turn p t \<le> turn p s \<and> (curproc s = None \<and> curproc t \<noteq> None \<longrightarrow> turn p t + 1 \<le> turn p s)"
  proof (cases rule: cpu_step_cases)
    case quiet
    then show ?thesis
      using assms(3) by (auto simp: quietD [OF quiet] turn_def ahead_def)
  next
    case (gave_up c)
    then have "p \<noteq> c" "rr s = c" "c < NPROC"
      using np i(2) by auto
    then show ?thesis
      using gave_up assms(3) by (auto simp: gave_up_def turn_def ahead_def)
  next
    case scheduled
    from scheduled(2) show ?thesis
    proof (cases rule: scheduler_cases)
      case restart
      then show ?thesis
        using scheduled(1) assms(3,4) i(1) by (auto simp: turn_def ahead_def)
    next
      case skip
      then have "rr s \<noteq> p"
        using assms(3) by auto
      then show ?thesis
        using skip scheduled(1) assms(3) by (auto simp: turn_def ahead_def)
    next
      case pick
      then have "rr s \<noteq> p"
        using assms(5) by auto
      then show ?thesis
        using pick scheduled(1) assms(3) by (auto simp: turn_def ahead_def)
    qed
  qed
  then show "st t p = RUNNABLE" "turn p t \<le> turn p s" "curproc s = None \<Longrightarrow> curproc t \<noteq> None \<Longrightarrow> turn p t + 1 \<le> turn p s"
    by blast+
qed

lemma cpu_kept:
  assumes "cpu_step t u" "\<not> (curproc t = None \<and> curproc u \<noteq> None)"
  shows "curproc u = curproc t \<or> curproc u = None"
  using assms(1) by (cases rule: cpu_step_cases) (use assms(2) in \<open>auto simp: gave_up_def dest: quietD(1)\<close>)

lemma passed_turn:
  assumes "passed p n s t" "sched_inv s" "st s p = RUNNABLE" "p < NPROC"
  shows "sched_inv t \<and> st t p = RUNNABLE \<and> int n + turn p t \<le> turn p s"
  using assms
proof (induction rule: passed.induct)
  case (other p n s t u)
  then have IH: "sched_inv t" "st t p = RUNNABLE" "int n + turn p t \<le> turn p s"
    by auto
  have "st t p = RUNNING \<longleftrightarrow> curproc t = Some p"
    using IH(1) unfolding sched_inv_def run_inv_def by blast
  then have "curproc u \<noteq> Some p"
    using IH(2) cpu_kept [OF other(2,3)] by auto
  then show ?case
    using turn_step [OF other(2) IH(1,2) other.prems(3)] sched_inv_step [OF other(2) IH(1)] IH(3) by simp
next
  case (handed p n s t u q)
  then have IH: "sched_inv t" "st t p = RUNNABLE" "int n + turn p t \<le> turn p s"
    by auto
  have "curproc u \<noteq> Some p"
    using handed(4,5) by simp
  then show ?case
    using turn_step [OF handed(2) IH(1,2) handed.prems(3)] handed(3,4) sched_inv_step [OF handed(2) IH(1)] IH(3) by simp
qed simp


text \<open>
  C13. The scheduler is round robin: from a state in which process \<open>p\<close> is runnable, the CPU is handed to
  other processes at most 64 times before \<open>p\<close> gets it, whatever the processes do, and until then \<open>p\<close>
  stays runnable.
\<close>

theorem scheduler_is_fair:
  assumes "passed p n s t" "st s p = RUNNABLE" "p < NPROC"
    "\<And>q. st s q = RUNNING \<longleftrightarrow> curproc s = Some q" "rr s \<le> NPROC"
    "\<And>c. curproc s = Some c \<Longrightarrow> rr s = c \<and> c < NPROC"
  shows "n \<le> NPROC \<and> st t p = RUNNABLE"
proof -
  have "sched_inv s"
    using assms(4-6) by (auto simp: sched_inv_def run_inv_def)
  then have t: "sched_inv t" "st t p = RUNNABLE" "int n + turn p t \<le> turn p s"
    using passed_turn [OF assms(1) _ assms(2,3)] by auto
  have "st t p = RUNNING \<longleftrightarrow> curproc t = Some p"
    using t(1) unfolding sched_inv_def run_inv_def by blast
  then have "curproc t \<noteq> Some p"
    using t(2) by simp
  then have "0 \<le> turn p t"
    using t(1) assms(3) by (cases "curproc t") (auto simp: turn_def ahead_def sched_inv_def)
  moreover have "turn p s \<le> int NPROC"
    using assms(3,5) by (auto simp: turn_def ahead_def)
  ultimately show ?thesis
    using t(2,3) by simp
qed

subsection \<open>A process table for the witnesses\<close>

definition idle_proc :: proc where
  "idle_proc = \<lparr>pr_sz = 0, pr_pgdir = 0, pr_kstack = 0, pr_state = UNUSED, pr_pid = 0, pr_parent = None,
     pr_tf = zero_tf, pr_fresh = False, pr_chan = NoChan, pr_killed = False, pr_ofile = (\<lambda>_. None), pr_cwd = None,
     pr_name = (\<lambda>_. 0), pr_level = 0, pr_isThread = False, pr_ustack = 0, pr_retval = 0\<rparr>"

text \<open>Two runnable processes in slots 0 and 1; the scheduler is about to look at slot 0.\<close>

definition demo_procs :: pst where
  "demo_procs = \<lparr>procs = (\<lambda>p. if p < 2 then idle_proc\<lparr>pr_state := RUNNABLE, pr_pid := int p + 1,
       pr_kstack := 0x80400000, pr_pgdir := 0x80401000, pr_sz := 4096\<rparr> else idle_proc),
     nextpid = 3, curproc = None, initproc = Some 0, rr = 0, mm = demo_mem, io = boot_state 1 100 (\<lambda>_. zero_block),
     cr3 = 0, first_ret = False, ticks = 0\<rparr>"

definition demo_running :: pst where
  "demo_running = upd_proc 0 (\<lambda>x. x\<lparr>pr_state := RUNNING\<rparr>) (demo_procs\<lparr>curproc := Some 0, cr3 := V2P 0x80401000\<rparr>)"

lemma demo_procs_sels: "st demo_procs p = (if p < 2 then RUNNABLE else UNUSED)" "curproc demo_procs = None"
  "rr demo_procs = 0" "pr_pid (procs demo_procs p) = (if p < 2 then int p + 1 else 0)"
  by (simp_all add: demo_procs_def idle_proc_def)

lemma demo_picks: "scheduler demo_procs = Done demo_running"
  by (simp add: scheduler_def demo_procs_sels switchuvm_def demo_running_def)
    (simp add: demo_procs_def upd_proc_def)

lemma demo_step: "cpu_step demo_procs demo_running"
  by (rule cpu_step.scheduler [OF _ demo_picks]) (simp add: demo_procs_sels)

text \<open>C12 applied: the first process is picked.\<close>

theorem one_process_runs_witness:
  "st demo_running 0 = RUNNING \<and> st demo_running 1 \<noteq> RUNNING"
proof -
  have "cpu_step\<^sup>*\<^sup>* demo_procs demo_running"
    using demo_step by blast
  from one_process_runs [OF this] show ?thesis
    by (simp add: demo_procs_sels) (simp add: demo_running_def)
qed

text \<open>C13 applied: the second process is passed over once.\<close>

theorem scheduler_is_fair_witness:
  "passed 1 1 demo_procs demo_running \<and> 1 \<le> NPROC \<and> st demo_running 1 = RUNNABLE"
proof -
  have "passed 1 (0 + 1) demo_procs demo_running"
    by (rule passed.handed [OF passed.start demo_step, of 0]) (simp_all add: demo_procs_sels, simp add: demo_running_def)
  then have p: "passed 1 1 demo_procs demo_running"
    by simp
  show ?thesis
    using scheduler_is_fair [OF p] p by (simp add: demo_procs_sels)
qed

end
