(* ===== verification/Exec.thy ===== *)
theory Exec
  imports ProcSpec SysFile
begin

text \<open>
  Running a program (\<open>exec.c\<close>, \<open>elf.h\<close>, and \<open>loaduvm\<close> of \<open>vm.c\<close>). The path and the arguments are the
  byte strings that \<open>sys_exec\<close> found in user memory; \<open>c\<close> is the calling process. Where the code jumps to
  \<open>bad\<close> the parts return \<open>None\<close>, and \<open>exec_bad\<close> is the code at that label.
\<close>

subsection \<open>The file format\<close>

record elfhdr =
  e_magic :: u32
  e_type :: u16
  e_machine :: u16
  e_version :: u32
  e_entry :: u32
  e_phoff :: u32
  e_shoff :: u32
  e_flags :: u32
  e_ehsize :: u16
  e_phentsize :: u16
  e_phnum :: u16
  e_shentsize :: u16
  e_shnum :: u16
  e_shstrndx :: u16

record proghdr =
  ph_type :: u32
  ph_off :: u32
  ph_vaddr :: u32
  ph_paddr :: u32
  ph_filesz :: u32
  ph_memsz :: u32
  ph_flags :: u32
  ph_align :: u32

abbreviation ELF_MAGIC :: u32 where "ELF_MAGIC \<equiv> 0x464C457F"
abbreviation ELF_PROG_LOAD :: u32 where "ELF_PROG_LOAD \<equiv> 1"

definition decode_elf :: "block \<Rightarrow> elfhdr" where
  "decode_elf b = \<lparr>e_magic = get32 b 0, e_type = get16 b 16, e_machine = get16 b 18, e_version = get32 b 20,
     e_entry = get32 b 24, e_phoff = get32 b 28, e_shoff = get32 b 32, e_flags = get32 b 36, e_ehsize = get16 b 40,
     e_phentsize = get16 b 42, e_phnum = get16 b 44, e_shentsize = get16 b 46, e_shnum = get16 b 48, e_shstrndx = get16 b 50\<rparr>"

definition decode_ph :: "block \<Rightarrow> proghdr" where
  "decode_ph b = \<lparr>ph_type = get32 b 0, ph_off = get32 b 4, ph_vaddr = get32 b 8, ph_paddr = get32 b 12,
     ph_filesz = get32 b 16, ph_memsz = get32 b 20, ph_flags = get32 b 24, ph_align = get32 b 28\<rparr>"

subsection \<open>Loading the program\<close>

text \<open>\<open>readi\<close> into a local variable of the kernel, and into kernel memory at \<open>a\<close>.\<close>

definition read_local :: "devsw \<Rightarrow> nat \<Rightarrow> u32 \<Rightarrow> u32 \<Rightarrow> pst \<Rightarrow> ((int \<times> block) \<times> pst) outcome" where
  "read_local dv ip off n s = bindS (readi dv ip zero_block off n (io s)) (\<lambda>r k. Done (r, s\<lparr>io := k\<rparr>))"

definition read_mem :: "devsw \<Rightarrow> nat \<Rightarrow> u32 \<Rightarrow> u32 \<Rightarrow> u32 \<Rightarrow> pst \<Rightarrow> (int \<times> pst) outcome" where
  "read_mem dv ip a off n s =
    bindS (readi dv ip (\<lambda>i. kmem (mm s) (a + of_nat i)) off n (io s)) (\<lambda>(r, b) k.
      Done (r, s\<lparr>io := k, mm := (mm s)\<lparr>kmem := mem_put a (unat n) b (kmem (mm s))\<rparr>\<rparr>))"

text \<open>The loop of \<open>loaduvm\<close>; \<open>k\<close> bounds its rounds by the pages of the address space.\<close>

fun loaduvm_from :: "nat \<Rightarrow> devsw \<Rightarrow> u32 \<Rightarrow> u32 \<Rightarrow> nat \<Rightarrow> u32 \<Rightarrow> u32 \<Rightarrow> u32 \<Rightarrow> pst \<Rightarrow> (int \<times> pst) outcome" where
  "loaduvm_from 0 dv pgdir addr ip off sz i s = (if i < sz then Undef else Done (0, s))"
| "loaduvm_from (Suc k) dv pgdir addr ip off sz i s =
    (if i < sz then
       let (pte, m) = walkpgdir pgdir (addr + i) False (mm s) in
       if pte = 0 then Panic ''loaduvm: address should exist''
       else let pa = PTE_ADDR (load32 (kmem m) pte); n = (if sz - i < PGSIZE then sz - i else PGSIZE) in
         bindS (read_mem dv ip (P2V pa) (off + i) n (s\<lparr>mm := m\<rparr>)) (\<lambda>r s.
           if word_of_int r \<noteq> n then Done (-1, s)
           else loaduvm_from k dv pgdir addr ip off sz (i + PGSIZE) s)
     else Done (0, s))"

definition loaduvm :: "devsw \<Rightarrow> u32 \<Rightarrow> u32 \<Rightarrow> nat \<Rightarrow> u32 \<Rightarrow> u32 \<Rightarrow> pst \<Rightarrow> (int \<times> pst) outcome" where
  "loaduvm dv pgdir addr ip off sz s =
    (if addr mod PGSIZE \<noteq> 0 then Panic ''loaduvm: addr must be page aligned''
     else loaduvm_from (2 ^ 20) dv pgdir addr ip off sz 0 s)"

text \<open>The loop over the program headers; \<open>k\<close> of them are left, the next one at \<open>off\<close>.\<close>

fun load_segments :: "nat \<Rightarrow> devsw \<Rightarrow> u32 \<Rightarrow> nat \<Rightarrow> u32 \<Rightarrow> u32 \<Rightarrow> pst \<Rightarrow> (u32 option \<times> pst) outcome" where
  "load_segments 0 dv pgdir ip off sz s = Done (Some sz, s)"
| "load_segments (Suc k) dv pgdir ip off sz s =
    bindS (read_local dv ip off 32 s) (\<lambda>(r, b) s.
      let ph = decode_ph b in
      if r \<noteq> 32 then Done (None, s)
      else if ph_type ph \<noteq> ELF_PROG_LOAD then load_segments k dv pgdir ip (off + 32) sz s
      else if ph_memsz ph < ph_filesz ph then Done (None, s)
      else if ph_vaddr ph + ph_memsz ph < ph_vaddr ph then Done (None, s)
      else bindS (with_mm (allocuvm pgdir sz (ph_vaddr ph + ph_memsz ph)) s) (\<lambda>sz s.
        if sz = 0 then Done (None, s)
        else if ph_vaddr ph mod PGSIZE \<noteq> 0 then Done (None, s)
        else bindS (loaduvm dv pgdir (ph_vaddr ph) ip (ph_off ph) (ph_filesz ph) s) (\<lambda>r s.
          if r < 0 then Done (None, s) else load_segments k dv pgdir ip (off + 32) sz s)))"

text \<open>The new page directory (0 if there is none yet), and the size and entry point unless loading failed.\<close>

definition load_image :: "devsw \<Rightarrow> nat \<Rightarrow> pst \<Rightarrow> ((u32 \<times> (u32 \<times> u32) option) \<times> pst) outcome" where
  "load_image dv ip s =
    bindS (read_local dv ip 0 52 s) (\<lambda>(r, b) s.
      let elf = decode_elf b in
      if r \<noteq> 52 then Done ((0, None), s)
      else if e_magic elf \<noteq> ELF_MAGIC then Done ((0, None), s)
      else bindS (with_mm setupkvm s) (\<lambda>pgdir s.
        if pgdir = 0 then Done ((0, None), s)
        else bindS (load_segments (unat (e_phnum elf)) dv pgdir ip (e_phoff elf) 0 s) (\<lambda>r s.
          Done ((pgdir, map_option (\<lambda>sz. (sz, e_entry elf)) r), s))))"

subsection \<open>The stack\<close>

definition cstring :: "byte list \<Rightarrow> block" where
  "cstring a = (\<lambda>i. if i < length a then a ! i else 0)"

text \<open>An array of words as the bytes it is made of.\<close>

definition word_bytes :: "(nat \<Rightarrow> u32) \<Rightarrow> block" where
  "word_bytes w = (\<lambda>j. ucast (drop_bit (8 * (j mod 4)) (w (j div 4))))"

fun push_args :: "u32 \<Rightarrow> byte list list \<Rightarrow> nat \<Rightarrow> u32 \<Rightarrow> (nat \<Rightarrow> u32) \<Rightarrow> mst \<Rightarrow> ((nat \<times> u32 \<times> (nat \<Rightarrow> u32)) option \<times> mst) outcome" where
  "push_args pgdir [] argc sp ustack m = Done (Some (argc, sp, ustack), m)"
| "push_args pgdir (a # as) argc sp ustack m =
    (if argc \<ge> MAXARG then Done (None, m)
     else let sp = (sp - of_nat (length a + 1)) AND NOT 3 in
       bindS (copyout pgdir sp (cstring a) 0 (of_nat (length a + 1)) m) (\<lambda>r m.
         if r < 0 then Done (None, m)
         else push_args pgdir as (argc + 1) sp (ustack(3 + argc := sp)) m))"

definition push_stack :: "u32 \<Rightarrow> u32 \<Rightarrow> byte list list \<Rightarrow> mst \<Rightarrow> (u32 option \<times> mst) outcome" where
  "push_stack pgdir sp argv m =
    bindS (push_args pgdir argv 0 sp (\<lambda>_. 0) m) (\<lambda>r m.
      case r of
        None \<Rightarrow> Done (None, m)
      | Some (argc, sp, ustack) \<Rightarrow>
          let ustack = ustack(3 + argc := 0, 0 := 0xffffffff, 1 := of_nat argc, 2 := sp - of_nat ((argc + 1) * 4));
              sp = sp - of_nat ((3 + argc + 1) * 4)
          in bindS (copyout pgdir sp (word_bytes ustack) 0 (of_nat ((3 + argc + 1) * 4)) m) (\<lambda>r m.
               if r < 0 then Done (None, m) else Done (Some sp, m)))"

text \<open>Two pages above the program, the lower one inaccessible; the new size and the stack pointer.\<close>

definition make_stack :: "u32 \<Rightarrow> u32 \<Rightarrow> byte list list \<Rightarrow> mst \<Rightarrow> ((u32 \<times> u32) option \<times> mst) outcome" where
  "make_stack pgdir sz argv m =
    (let sz = PGROUNDUP sz in
     bindS (allocuvm pgdir sz (sz + 2 * PGSIZE) m) (\<lambda>sz m.
       if sz = 0 then Done (None, m)
       else bindO (clearpteu pgdir (sz - 2 * PGSIZE) m) (\<lambda>m.
         bindS (push_stack pgdir sz argv m) (\<lambda>r m. Done (map_option (Pair sz) r, m)))))"

subsection \<open>The call\<close>

definition exec_bad :: "u32 \<Rightarrow> nat option \<Rightarrow> pst \<Rightarrow> (int \<times> pst) outcome" where
  "exec_bad pgdir ip s =
    bindS (if pgdir \<noteq> 0 then with_mm (\<lambda>m. bindO (freevm pgdir m) (\<lambda>m. Done ((), m))) s else Done ((), s)) (\<lambda>_ s.
      case ip of
        None \<Rightarrow> Done (-1, s)
      | Some ip \<Rightarrow> bindO (with_io (iunlockput ip) s) (\<lambda>s. bindO (with_io end_op s) (\<lambda>s. Done (-1, s))))"

text \<open>The part of the path behind its last slash, all of it without one.\<close>

fun base_name :: "byte list \<Rightarrow> byte list \<Rightarrow> byte list" where
  "base_name lst [] = lst"
| "base_name lst (x # xs) = base_name (if x = 47 then xs else lst) xs"

definition commit_image :: "u32 \<Rightarrow> u32 \<Rightarrow> u32 \<Rightarrow> u32 \<Rightarrow> byte list \<Rightarrow> nat \<Rightarrow> pst \<Rightarrow> (int \<times> pst) outcome" where
  "commit_image pgdir sz sp entry path c s =
    (let s = upd_proc c (\<lambda>x. x\<lparr>pr_name := safestrcpy 0 (cstring (base_name path path)) 0 16 (pr_name x)\<rparr>) s;
         oldpgdir = pr_pgdir (procs s c);
         s = upd_proc c (\<lambda>x. x\<lparr>pr_pgdir := pgdir, pr_sz := sz,
               pr_tf := (pr_tf x)\<lparr>tf_eip := entry, tf_esp := sp\<rparr>\<rparr>) s
     in bindO (switchuvm c s) (\<lambda>s.
        bindS (with_mm (\<lambda>m. bindO (freevm oldpgdir m) (\<lambda>m. Done ((), m))) s) (\<lambda>_ s. Done (0, s))))"

text \<open>From the second \<open>allocuvm\<close> on, and from \<open>ilock\<close> on.\<close>

definition exec_stack :: "u32 \<Rightarrow> u32 \<Rightarrow> u32 \<Rightarrow> byte list \<Rightarrow> byte list list \<Rightarrow> nat \<Rightarrow> pst \<Rightarrow> (int \<times> pst) outcome" where
  "exec_stack pgdir sz entry path argv c s =
    bindS (with_mm (make_stack pgdir sz argv) s) (\<lambda>r s.
      case r of
        None \<Rightarrow> exec_bad pgdir None s
      | Some (sz, sp) \<Rightarrow> commit_image pgdir sz sp entry path c s)"

definition exec_file :: "devsw \<Rightarrow> nat \<Rightarrow> byte list \<Rightarrow> byte list list \<Rightarrow> nat \<Rightarrow> pst \<Rightarrow> (int \<times> pst) outcome" where
  "exec_file dv ip path argv c s =
    bindO (with_io (ilock ip) s) (\<lambda>s.
    bindS (load_image dv ip s) (\<lambda>(pgdir, img) s.
      case img of
        None \<Rightarrow> exec_bad pgdir (Some ip) s
      | Some (sz, entry) \<Rightarrow>
          bindO (with_io (iunlockput ip) s) (\<lambda>s.
          bindO (with_io end_op s) (exec_stack pgdir sz entry path argv c))))"

definition exec :: "devsw \<Rightarrow> byte list \<Rightarrow> byte list list \<Rightarrow> nat \<Rightarrow> pst \<Rightarrow> (int \<times> pst) outcome" where
  "exec dv path argv c s =
    bindO (with_io begin_op s) (\<lambda>s.
    bindS (bindS (namei dv path (io s)) (\<lambda>ip k. Done (ip, s\<lparr>io := k\<rparr>))) (\<lambda>r s.
      case r of
        None \<Rightarrow> bindO (with_io end_op s) (\<lambda>s. Done (-1, s))
      | Some ip \<Rightarrow> exec_file dv ip path argv c s))"

end
