(* ===== verification/ExecSpec.thy ===== *)
theory ExecSpec
  imports Exec
begin

text \<open>
  What \<open>exec\<close> does to the calling process, and how its stack is laid out for the new program.
\<close>

subsection \<open>The stack page\<close>

text \<open>
  The page at user address \<open>base\<close> is the kernel page \<open>K\<close>, and the two entries through which it is found
  (at \<open>d\<close> in the directory and at \<open>e\<close> in a page table) do not lie in that page.
\<close>

definition stack_page :: "u32 \<Rightarrow> u32 \<Rightarrow> u32 \<Rightarrow> mst \<Rightarrow> bool" where
  "stack_page pgdir base K m \<longleftrightarrow>
    (let d = pgdir + 4 * PDX base; t = P2V (PTE_ADDR (load32 (kmem m) d)); e = t + 4 * PTX base in
     PGROUNDDOWN base = base \<and> present (load32 (kmem m) d) \<and> e \<noteq> 0
     \<and> load32 (kmem m) e AND PTE_P \<noteq> 0 \<and> load32 (kmem m) e AND PTE_U \<noteq> 0 \<and> P2V (PTE_ADDR (load32 (kmem m) e)) = K \<and> K \<noteq> 0
     \<and> (\<forall>i<4. d + of_nat i \<notin> page K) \<and> (\<forall>i<4. e + of_nat i \<notin> page K))"

lemma stack_page_uva2ka: "stack_page pgdir base K m \<Longrightarrow> uva2ka pgdir base m = Done K"
  by (simp add: stack_page_def uva2ka_def walkpgdir_def Let_def)

lemma stack_page_cong:
  assumes "stack_page pgdir base K m" "\<And>x. x \<notin> page K \<Longrightarrow> kmem m' x = kmem m x"
  shows "stack_page pgdir base K m'"
proof -
  have l: "load32 (kmem m') a = load32 (kmem m) a" if "\<forall>i<4. a + of_nat i \<notin> page K" for a
    using that assms(2) by (intro load32_cong) blast
  show ?thesis
    using assms(1) l [of "pgdir + 4 * PDX base"]
      l [of "P2V (PTE_ADDR (load32 (kmem m) (pgdir + 4 * PDX base))) + 4 * PTX base"]
    by (simp add: stack_page_def Let_def)
qed

lemma PGROUNDDOWN_within:
  assumes "PGROUNDDOWN base = base" "j < 4096"
  shows "PGROUNDDOWN (base + of_nat j) = base"
proof -
  have m: "unat base mod 4096 = 0"
    using PGROUNDDOWN_off [of base] assms(1) by simp
  have p: "PGROUNDDOWN x = x - x mod 4096" for x
  proof -
    have "unat (x - PGROUNDDOWN x) = unat (x mod 4096)"
      by (simp add: PGROUNDDOWN_off unat_mod_distrib)
    then have "x - PGROUNDDOWN x = x mod 4096"
      by (simp only: word_unat_eq_iff)
    then show ?thesis
      by (simp add: algebra_simps)
  qed
  have "unat base + j < 4294967296"
  proof -
    have "unat base div 4096 < 1048576"
      using unsigned_less [of base, where 'a = nat] by (simp add: div_less_iff_less_mult)
    moreover have "unat base = unat base div 4096 * 4096"
      using m by (metis add_0_right div_mult_mod_eq)
    ultimately show ?thesis
      using assms(2) by linarith
  qed
  then have u: "unat (base + of_nat j) = unat base + j"
    using assms(2) by (simp add: unat_word_ariths unat_of_nat)
  have "unat ((base + of_nat j) mod 4096) = j"
    unfolding unat_mod_distrib using u m assms(2) by (simp add: mod_add_eq [symmetric])
  then have "(base + of_nat j) mod 4096 = of_nat j"
    using assms(2) by (simp add: word_unat_eq_iff unat_of_nat)
  then show ?thesis
    unfolding p by simp
qed

text \<open>\<open>copyout\<close> of bytes that fit into the page.\<close>

lemma copyout_stack:
  assumes "stack_page pgdir base K m" "j + n \<le> 4096" "0 < n"
  shows "copyout pgdir (base + of_nat j) buf 0 (of_nat n) m
    = Done (0, m\<lparr>kmem := mem_put (K + of_nat j) n buf (kmem m)\<rparr>)"
proof -
  have b: "PGROUNDDOWN base = base" and K: "K \<noteq> 0"
    using assms(1) by (simp_all add: stack_page_def Let_def)
  have j: "j < 4096" and n: "n < 2 ^ 32"
    using assms by simp_all
  have d: "PGROUNDDOWN (base + of_nat j) = base"
    by (rule PGROUNDDOWN_within [OF b j])
  have un: "unat (of_nat n :: u32) = n"
    using n by (simp add: unat_of_nat)
  have pos: "(0 :: u32) < of_nat n"
    using assms(3) un by (simp add: word_less_nat_alt)
  have "unat (base + of_nat j) mod 4096 = j"
    using PGROUNDDOWN_off [of "base + of_nat j"] j unfolding d by (simp add: unat_of_nat)
  then have "unat (page_rest (base + of_nat j) (of_nat n)) = n"
    using page_rest(1) [OF pos, of "base + of_nat j"] un assms(2) by simp
  then have r: "page_rest (base + of_nat j) (of_nat n) = of_nat n"
    using n by (simp add: word_unat_eq_iff unat_of_nat)
  show ?thesis
    unfolding copyout.simps [of pgdir "base + of_nat j"] using pos
    by (simp add: d stack_page_uva2ka [OF assms(1)] K Let_def r un copyout.simps [of _ _ _ _ 0])
qed

subsection \<open>The arguments on the stack\<close>

text \<open>Where the strings lie in the page, from the top down, and what is below the last one.\<close>

definition arg_pos :: "nat \<Rightarrow> byte list \<Rightarrow> nat" where
  "arg_pos hi a = (hi - (length a + 1)) div 4 * 4"

fun arg_offs :: "nat \<Rightarrow> byte list list \<Rightarrow> nat list" where
  "arg_offs hi [] = []"
| "arg_offs hi (a # as) = (let p = arg_pos hi a in p # arg_offs p as)"

fun arg_low :: "nat \<Rightarrow> byte list list \<Rightarrow> nat" where
  "arg_low hi [] = hi"
| "arg_low hi (a # as) = arg_low (arg_pos hi a) as"

fun arg_mem :: "u32 \<Rightarrow> nat \<Rightarrow> byte list list \<Rightarrow> memory \<Rightarrow> memory" where
  "arg_mem K hi [] \<mu> = \<mu>"
| "arg_mem K hi (a # as) \<mu> =
    (let p = arg_pos hi a in arg_mem K p as (mem_put (K + of_nat p) (length a + 1) (cstring a) \<mu>))"

definition arg_room :: "byte list list \<Rightarrow> nat" where
  "arg_room argv = sum_list (map (\<lambda>a. length a + 4) argv)"

lemma arg_room_simps [simp]: "arg_room [] = 0" "arg_room (a # as) = length a + 4 + arg_room as"
  by (simp_all add: arg_room_def)

lemma arg_step:
  assumes "arg_room (a # as) \<le> hi"
  shows "arg_room as \<le> arg_pos hi a" "arg_pos hi a + length a + 1 \<le> hi" "hi \<le> arg_pos hi a + length a + 4"
proof -
  have "arg_pos hi a + (hi - (length a + 1)) mod 4 = hi - (length a + 1)" "(hi - (length a + 1)) mod 4 < 4"
    by (simp_all add: arg_pos_def)
  then show "arg_room as \<le> arg_pos hi a" "arg_pos hi a + length a + 1 \<le> hi" "hi \<le> arg_pos hi a + length a + 4"
    using assms by simp_all
qed

lemma arg_low_bounds: "arg_room argv \<le> hi \<Longrightarrow> arg_low hi argv \<le> hi \<and> hi \<le> arg_low hi argv + arg_room argv"
proof (induction argv arbitrary: hi)
  case (Cons a as)
  show ?case
    using arg_step(2,3) [OF Cons.prems] Cons.IH [OF arg_step(1) [OF Cons.prems]] unfolding arg_low.simps arg_room_simps by linarith
qed simp

lemma arg_offs_bounds:
  "arg_room argv \<le> hi \<Longrightarrow> k < length argv \<Longrightarrow>
    arg_low hi argv \<le> arg_offs hi argv ! k \<and> arg_offs hi argv ! k + length (argv ! k) + 1 \<le> hi"
proof (induction argv arbitrary: hi k)
  case (Cons a as)
  let ?p = "arg_pos hi a"
  have r: "arg_room as \<le> ?p" "?p + length a + 1 \<le> hi"
    using arg_step [OF Cons.prems(1)] by simp_all
  show ?case
  proof (cases k)
    case 0
    then show ?thesis
      using r arg_low_bounds [OF r(1)] by (simp add: Let_def)
  next
    case (Suc j)
    then show ?thesis
      using Cons.IH [OF r(1), of j] Cons.prems(2) r(2) by (simp add: Let_def)
  qed
qed simp

lemma length_arg_offs [simp]: "length (arg_offs hi argv) = length argv"
  by (induction argv arbitrary: hi) (simp_all add: Let_def)

text \<open>Bytes of the page.\<close>

lemma mem_put_page:
  assumes "i < 4096" "j + n \<le> 4096"
  shows "mem_put (K + of_nat j) n buf \<mu> (K + of_nat i) = (if j \<le> i \<and> i < j + n then buf (i - j) else \<mu> (K + of_nat i))"
proof (cases "j \<le> i")
  case True
  then have "K + of_nat i - (K + of_nat j) = of_nat (i - j)"
    by (simp add: of_nat_diff)
  moreover have "unat (of_nat (i - j) :: u32) = i - j"
    using assms(1) by (simp add: unat_of_nat)
  ultimately show ?thesis
    using True by (auto simp: mem_put_def)
next
  case False
  have "\<not> unat (K + of_nat i - (K + of_nat j)) < n"
  proof
    assume h: "unat (K + of_nat i - (K + of_nat j)) < n"
    define k where "k = unat (K + of_nat i - (K + of_nat j))"
    have "(of_nat i :: u32) = of_nat (j + k)"
      by (simp add: k_def)
    moreover have "j + k < 4096"
      using h assms(2) by (simp add: k_def)
    ultimately have "i = j + k"
      using assms(1) by (simp add: word_unat_eq_iff unat_of_nat del: of_nat_add)
    then show False
      using False by simp
  qed
  then show ?thesis
    using False by (simp add: mem_put_def)
qed

lemma mem_put_off: "x \<notin> page K \<Longrightarrow> j + n \<le> 4096 \<Longrightarrow> mem_put (K + of_nat j) n buf \<mu> x = \<mu> x"
proof -
  assume a: "x \<notin> page K" "j + n \<le> 4096"
  have "\<not> unat (x - (K + of_nat j)) < n"
  proof
    assume h: "unat (x - (K + of_nat j)) < n"
    define k where "k = unat (x - (K + of_nat j))"
    have "x = K + of_nat (j + k)"
      by (simp add: k_def)
    moreover have "j + k < 4096"
      using h a(2) by (simp add: k_def)
    ultimately show False
      using a(1) page_self [of "j + k" K] by simp
  qed
  then show ?thesis
    by (simp add: mem_put_def)
qed

lemma arg_mem_off: "arg_room argv \<le> hi \<Longrightarrow> hi \<le> 4096 \<Longrightarrow> x \<notin> page K \<Longrightarrow> arg_mem K hi argv \<mu> x = \<mu> x"
proof (induction argv arbitrary: hi \<mu>)
  case (Cons a as)
  then show ?case
    using arg_step [OF Cons.prems(1)] by (simp add: Let_def mem_put_off)
qed simp

lemma arg_mem_above:
  "arg_room argv \<le> hi \<Longrightarrow> hi \<le> i \<Longrightarrow> i < 4096 \<Longrightarrow> arg_mem K hi argv \<mu> (K + of_nat i) = \<mu> (K + of_nat i)"
proof (induction argv arbitrary: hi \<mu>)
  case (Cons a as)
  then show ?case
    using arg_step [OF Cons.prems(1)] by (simp add: Let_def mem_put_page)
qed simp

lemma arg_mem_string:
  "arg_room argv \<le> hi \<Longrightarrow> hi \<le> 4096 \<Longrightarrow> k < length argv \<Longrightarrow> i \<le> length (argv ! k) \<Longrightarrow>
    arg_mem K hi argv \<mu> (K + of_nat (arg_offs hi argv ! k + i)) = cstring (argv ! k) i"
proof (induction argv arbitrary: hi k \<mu>)
  case (Cons a as)
  let ?p = "arg_pos hi a"
  have r: "arg_room as \<le> ?p" "?p + length a + 1 \<le> hi"
    using arg_step [OF Cons.prems(1)] by simp_all
  show ?case
  proof (cases k)
    case 0
    have "arg_mem K ?p as \<mu>' (K + of_nat (?p + i)) = \<mu>' (K + of_nat (?p + i))" for \<mu>'
      using r 0 Cons.prems by (intro arg_mem_above) simp_all
    then show ?thesis
      using 0 r Cons.prems mem_put_page [of "?p + i" ?p "length a + 1" K "cstring a" \<mu>] by (simp add: Let_def)
  next
    case (Suc j)
    then show ?thesis
      using Cons.IH [OF r(1), of j] Cons.prems r(2) by (simp add: Let_def)
  qed
qed simp

lemma and_not3: "(x :: u32) AND NOT 3 = x - x mod 4"
proof -
  have "x AND NOT (mask 2) = push_bit 2 (drop_bit 2 x)"
    by (rule bit_word_eqI) (auto simp: bit_simps)
  then have "x AND NOT 3 = push_bit 2 (drop_bit 2 x)"
    by (simp add: mask_eq_exp_minus_1)
  then show ?thesis
    using bits_ident [of 2 x] by (simp add: take_bit_eq_mod algebra_simps)
qed

lemma push_align:
  assumes "PGROUNDDOWN base = base" "length a + 1 \<le> hi" "hi \<le> 4096"
  shows "(base + of_nat hi - of_nat (length a + 1)) AND NOT 3 = base + of_nat (arg_pos hi a)"
proof -
  define y where "y = hi - (length a + 1)"
  have y: "y < 4096" "arg_pos hi a = y div 4 * 4"
    using assms by (simp_all add: y_def arg_pos_def)
  have "base + of_nat hi - of_nat (length a + 1) = base + of_nat y"
    using assms(2) by (simp add: y_def of_nat_diff)
  moreover have "unat ((base + of_nat y) mod 4) = y mod 4"
  proof -
    have "unat base mod 4096 = 0"
      using PGROUNDDOWN_off [of base] assms(1) by simp
    moreover have "unat (base + of_nat y) mod 4096 = y"
      using PGROUNDDOWN_off [of "base + of_nat y"] y(1) unfolding PGROUNDDOWN_within [OF assms(1) y(1)]
      by (simp add: unat_of_nat)
    ultimately have "unat (base + of_nat y) mod 4 = y mod 4"
      using mod_mod_cancel [of 4 4096 "unat (base + of_nat y)"] by simp
    then show ?thesis
      by (simp add: unat_mod_distrib)
  qed
  then have "(base + of_nat y) mod 4 = of_nat (y mod 4)"
    by (simp add: word_unat_eq_iff unat_of_nat)
  moreover have "of_nat y - (of_nat (y mod 4) :: u32) = of_nat (y div 4 * 4)"
    by (metis add_diff_cancel_right' div_mult_mod_eq of_nat_add)
  ultimately show ?thesis
    unfolding and_not3 y(2) by (simp add: algebra_simps)
qed

text \<open>The whole loop over the arguments.\<close>

lemma push_args_run:
  assumes "stack_page pgdir base K m" "arg_room argv \<le> hi" "hi \<le> 4096" "argc + length argv \<le> MAXARG"
  shows "\<exists>us'. push_args pgdir argv argc (base + of_nat hi) us m
      = Done (Some (argc + length argv, base + of_nat (arg_low hi argv), us'), m\<lparr>kmem := arg_mem K hi argv (kmem m)\<rparr>)
    \<and> (\<forall>k. k < 3 + argc \<longrightarrow> us' k = us k) \<and> (\<forall>k<length argv. us' (3 + argc + k) = base + of_nat (arg_offs hi argv ! k))"
  using assms
proof (induction argv arbitrary: hi argc us m)
  case (Cons a as)
  let ?p = "arg_pos hi a"
  note r = arg_step [OF Cons.prems(2)]
  have b: "PGROUNDDOWN base = base"
    using Cons.prems(1) by (simp add: stack_page_def Let_def)
  have sp: "(base + of_nat hi - of_nat (length a + 1)) AND NOT 3 = base + of_nat ?p"
    using r Cons.prems by (intro push_align [OF b]) simp_all
  define m' where "m' = m\<lparr>kmem := mem_put (K + of_nat ?p) (length a + 1) (cstring a) (kmem m)\<rparr>"
  have fit: "?p + (length a + 1) \<le> 4096"
    using r(2) Cons.prems(3) by simp
  have c: "copyout pgdir (base + of_nat ?p) (cstring a) 0 (of_nat (length a + 1)) m = Done (0, m')"
    unfolding m'_def using fit by (intro copyout_stack [OF Cons.prems(1)]) simp_all
  have s': "stack_page pgdir base K m'"
    using Cons.prems(1)
  proof (rule stack_page_cong)
    show "kmem m' x = kmem m x" if "x \<notin> page K" for x
      using mem_put_off [OF that fit] by (simp add: m'_def)
  qed
  have "\<exists>us'. push_args pgdir as (argc + 1) (base + of_nat ?p) (us(3 + argc := base + of_nat ?p)) m'
      = Done (Some (argc + 1 + length as, base + of_nat (arg_low ?p as), us'), m'\<lparr>kmem := arg_mem K ?p as (kmem m')\<rparr>)
    \<and> (\<forall>k. k < 3 + (argc + 1) \<longrightarrow> us' k = (us(3 + argc := base + of_nat ?p)) k) \<and> (\<forall>k<length as. us' (3 + (argc + 1) + k) = base + of_nat (arg_offs ?p as ! k))"
    using s' r(1) r(2) Cons.prems(3,4) by (intro Cons.IH) simp_all
  then obtain us' where us': "push_args pgdir as (argc + 1) (base + of_nat ?p) (us(3 + argc := base + of_nat ?p)) m'
      = Done (Some (argc + 1 + length as, base + of_nat (arg_low ?p as), us'), m'\<lparr>kmem := arg_mem K ?p as (kmem m')\<rparr>)"
    "\<And>k. k < 3 + (argc + 1) \<Longrightarrow> us' k = (us(3 + argc := base + of_nat ?p)) k"
    "\<And>k. k < length as \<Longrightarrow> us' (3 + (argc + 1) + k) = base + of_nat (arg_offs ?p as ! k)"
    by blast
  have "push_args pgdir (a # as) argc (base + of_nat hi) us m
      = Done (Some (argc + length (a # as), base + of_nat (arg_low hi (a # as)), us'), m\<lparr>kmem := arg_mem K hi (a # as) (kmem m)\<rparr>)"
    using Cons.prems(4) us'(1) unfolding push_args.simps(2) Let_def sp c by (simp add: m'_def Let_def)
  moreover have "us' k = us k" if "k < 3 + argc" for k
    using us'(2) [of k] that by simp
  moreover have "us' (3 + argc + k) = base + of_nat (arg_offs hi (a # as) ! k)" if "k < length (a # as)" for k
  proof (cases k)
    case 0
    then show ?thesis
      using us'(2) [of "3 + argc"] by (simp add: Let_def)
  next
    case (Suc j)
    then show ?thesis
      using us'(3) [of j] that by (simp add: Let_def add.assoc)
  qed
  ultimately show ?case
    by blast
qed auto

lemma get32_word_bytes: "get32 (\<lambda>i. word_bytes w (4 * k + i)) 0 = w k"
proof (rule bit_word_eqI)
  fix n
  assume n: "n < LENGTH(32)"
  consider "n < 8" | "8 \<le> n" "n < 16" | "16 \<le> n" "n < 24" | "24 \<le> n" "n < 32"
    using n by fastforce
  then show "bit (get32 (\<lambda>i. word_bytes w (4 * k + i)) 0) n = bit (w k) n"
    by cases (auto simp: get32_def word_bytes_def bit_simps)
qed

text \<open>What the program reads at a user address, byte by byte through its page directory.\<close>

definition ubyte :: "u32 \<Rightarrow> mst \<Rightarrow> u32 \<Rightarrow> byte" where
  "ubyte pgdir m a = (case uva2ka pgdir (PGROUNDDOWN a) m of Done pa \<Rightarrow> kmem m (pa + (a - PGROUNDDOWN a)) | _ \<Rightarrow> 0)"

definition uword :: "u32 \<Rightarrow> mst \<Rightarrow> u32 \<Rightarrow> u32" where
  "uword pgdir m a = get32 (\<lambda>i. ubyte pgdir m (a + of_nat i)) 0"

definition ustr :: "u32 \<Rightarrow> mst \<Rightarrow> u32 \<Rightarrow> nat \<Rightarrow> byte list" where
  "ustr pgdir m a n = map (\<lambda>i. ubyte pgdir m (a + of_nat i)) [0..<n]"

lemma ubyte_stack: "stack_page pgdir base K m \<Longrightarrow> j < 4096 \<Longrightarrow> ubyte pgdir m (base + of_nat j) = kmem m (K + of_nat j)"
proof -
  assume a: "stack_page pgdir base K m" "j < 4096"
  then have "PGROUNDDOWN (base + of_nat j) = base"
    by (intro PGROUNDDOWN_within) (simp_all add: stack_page_def Let_def)
  then show ?thesis
    by (simp add: ubyte_def stack_page_uva2ka [OF a(1)])
qed

lemma uword_stack: "stack_page pgdir base K m \<Longrightarrow> j + 4 \<le> 4096 \<Longrightarrow> uword pgdir m (base + of_nat j) = get32 (\<lambda>i. kmem m (K + of_nat (j + i))) 0"
proof -
  assume a: "stack_page pgdir base K m" "j + 4 \<le> 4096"
  have "ubyte pgdir m (base + of_nat j + of_nat i) = kmem m (K + of_nat (j + i))" if "i < 4" for i
    using ubyte_stack [OF a(1), of "j + i"] a(2) that by (simp add: add.assoc)
  from this [of 0] this [of 1] this [of 2] this [of 3] show ?thesis
    by (simp add: uword_def get32_def ac_simps)
qed

text \<open>
  The stack page after \<open>push_stack\<close>: the strings, and \<open>n\<close> words \<open>w\<close> from offset \<open>fp\<close> up to the lowest string.
\<close>

definition stack_mem :: "u32 \<Rightarrow> byte list list \<Rightarrow> nat \<Rightarrow> nat \<Rightarrow> (nat \<Rightarrow> u32) \<Rightarrow> mst \<Rightarrow> mst" where
  "stack_mem K argv fp n w m =
    m\<lparr>kmem := mem_put (K + of_nat fp) (n * 4) (word_bytes w) (arg_mem K 4096 argv (kmem m))\<rparr>"

lemma stack_mem_off:
  assumes "arg_room argv \<le> 4096" "fp + n * 4 \<le> 4096" "x \<notin> page K"
  shows "kmem (stack_mem K argv fp n w m) x = kmem m x"
  using mem_put_off [OF assms(3,2)] arg_mem_off [OF assms(1) order_refl assms(3)] by (simp add: stack_mem_def)

lemma stack_mem_page:
  assumes "stack_page pgdir base K m" "arg_room argv \<le> 4096" "fp + n * 4 \<le> 4096"
  shows "stack_page pgdir base K (stack_mem K argv fp n w m)"
  using assms(1) stack_mem_off [OF assms(2,3)] by (rule stack_page_cong)

lemma stack_mem_word:
  assumes "stack_page pgdir base K m" "arg_room argv \<le> 4096" "fp + n * 4 \<le> 4096" "k < n"
  shows "uword pgdir (stack_mem K argv fp n w m) (base + of_nat (fp + 4 * k)) = w k"
proof -
  let ?m = "stack_mem K argv fp n w m"
  have "kmem ?m (K + of_nat (fp + 4 * k + i)) = word_bytes w (4 * k + i)" if "i < 4" for i
    using that assms(3,4) mem_put_page [of "fp + 4 * k + i" fp "n * 4" K "word_bytes w" "arg_mem K 4096 argv (kmem m)"]
    by (simp add: stack_mem_def)
  from this [of 0] this [of 1] this [of 2] this [of 3]
  have "get32 (\<lambda>i. kmem ?m (K + of_nat (fp + 4 * k + i))) 0 = get32 (\<lambda>i. word_bytes w (4 * k + i)) 0"
    unfolding get32_def by simp
  then show ?thesis
    using uword_stack [OF stack_mem_page [OF assms(1-3)], of "fp + 4 * k"] assms(3,4) by (simp add: get32_word_bytes)
qed

lemma stack_mem_string:
  assumes st: "stack_page pgdir base K m" and r: "arg_room argv \<le> 4096" and fit: "fp + n * 4 = arg_low 4096 argv"
    and k: "k < length argv"
  shows "ustr pgdir (stack_mem K argv fp n w m) (base + of_nat (arg_offs 4096 argv ! k)) (length (argv ! k) + 1) = argv ! k @ [0]"
proof (rule nth_equalityI)
  let ?m = "stack_mem K argv fp n w m"
  fix i
  assume "i < length (ustr pgdir ?m (base + of_nat (arg_offs 4096 argv ! k)) (length (argv ! k) + 1))"
  then have i: "i \<le> length (argv ! k)"
    by (simp add: ustr_def)
  define j where "j = arg_offs 4096 argv ! k + i"
  have f: "fp + n * 4 \<le> 4096"
    using arg_low_bounds [OF r] fit by simp
  have "arg_low 4096 argv \<le> arg_offs 4096 argv ! k" "arg_offs 4096 argv ! k + length (argv ! k) + 1 \<le> 4096"
    using arg_offs_bounds [OF r k] by simp_all
  then have j: "arg_low 4096 argv \<le> j" "j < 4096"
    using i by (simp_all add: j_def)
  have "ubyte pgdir ?m (base + of_nat j) = cstring (argv ! k) i"
    using ubyte_stack [OF stack_mem_page [OF st r f] j(2)] j fit
      mem_put_page [OF j(2) f, of K "word_bytes w" "arg_mem K 4096 argv (kmem m)"]
      arg_mem_string [OF r order_refl k i, of K "kmem m"]
    by (simp add: stack_mem_def j_def)
  then show "ustr pgdir ?m (base + of_nat (arg_offs 4096 argv ! k)) (length (argv ! k) + 1) ! i = (argv ! k @ [0]) ! i"
    using i by (simp add: ustr_def j_def cstring_def nth_append add.assoc del: upt_Suc)
qed (simp add: ustr_def)

text \<open>The words that \<open>push_stack\<close> writes: return address, \<open>argc\<close>, \<open>argv\<close>, the pointers and the null pointer.\<close>

lemma push_stack_run:
  assumes st: "stack_page pgdir base K m" and len: "length argv \<le> MAXARG"
    and room: "sum_list (map (\<lambda>a. length a + 4) argv) + 4 * (4 + length argv) \<le> 4096"
  obtains fp w where "fp + (4 + length argv) * 4 = arg_low 4096 argv" "arg_low 4096 argv \<le> 4096"
    "push_stack pgdir (base + PGSIZE) argv m = Done (Some (base + of_nat fp), stack_mem K argv fp (4 + length argv) w m)"
    "w 0 = 0xffffffff" "w 1 = of_nat (length argv)" "w 2 = base + of_nat (fp + 4 * 3)" "w (3 + length argv) = 0"
    "\<And>k. k < length argv \<Longrightarrow> w (3 + k) = base + of_nat (arg_offs 4096 argv ! k)"
proof -
  define n low where "n = length argv" and "low = arg_low 4096 argv"
  define fp where "fp = low - (3 + n + 1) * 4"
  define m1 where "m1 = m\<lparr>kmem := arg_mem K 4096 argv (kmem m)\<rparr>"
  have r: "arg_room argv \<le> 4096"
    using room by (simp add: arg_room_def)
  have lw: "low \<le> 4096" "(3 + n + 1) * 4 \<le> low"
    using arg_low_bounds [OF r] room by (simp_all add: low_def arg_room_def n_def)
  then have fit: "fp + (3 + n + 1) * 4 = low" "fp + (3 + n + 1) * 4 \<le> 4096"
    by (simp_all add: fp_def)
  obtain us where us: "push_args pgdir argv 0 (base + of_nat 4096) (\<lambda>_. 0) m = Done (Some (n, base + of_nat low, us), m1)"
    "\<And>k. k < n \<Longrightarrow> us (3 + k) = base + of_nat (arg_offs 4096 argv ! k)"
    using push_args_run [OF st r order_refl, of 0 "\<lambda>_. 0"] len by (auto simp: n_def low_def m1_def)
  define w where "w = us(3 + n := 0, 0 := 0xffffffff, 1 := of_nat n, 2 := base + of_nat low - of_nat ((n + 1) * 4))"
  have st1: "stack_page pgdir base K m1"
    using st arg_mem_off [OF r order_refl] by (intro stack_page_cong [OF st]) (simp add: m1_def)
  have sp: "base + of_nat low - of_nat ((3 + n + 1) * 4) = base + of_nat fp"
    and av: "base + of_nat low - of_nat ((n + 1) * 4) = base + of_nat (fp + 4 * 3)"
    unfolding fit(1) [symmetric] by simp_all
  have "copyout pgdir (base + of_nat fp) (word_bytes w) 0 (of_nat ((3 + n + 1) * 4)) m1 = Done (0, stack_mem K argv fp (3 + n + 1) w m)"
    using copyout_stack [OF st1, of fp "(3 + n + 1) * 4" "word_bytes w"] fit(2) by (simp add: stack_mem_def m1_def)
  moreover have b: "base + PGSIZE = base + of_nat 4096"
    by simp
  ultimately have "push_stack pgdir (base + PGSIZE) argv m = Done (Some (base + of_nat fp), stack_mem K argv fp (3 + n + 1) w m)"
    unfolding push_stack_def b us(1)
    by (simp only: bindS_simps option.case prod.case Let_def w_def [symmetric] sp) simp
  moreover have "w 2 = base + of_nat (fp + 4 * 3)"
    unfolding av [symmetric] by (simp add: w_def)
  moreover have "w 0 = 0xffffffff" "w 1 = of_nat n" "w (3 + n) = 0" "\<And>k. k < n \<Longrightarrow> w (3 + k) = base + of_nat (arg_offs 4096 argv ! k)"
    using us(2) by (simp_all add: w_def)
  ultimately show ?thesis
    using fit lw(1) by (intro that [of fp w]) (simp_all add: n_def low_def ac_simps)
qed

text \<open>
  What \<open>push_stack\<close>, the part of \<open>exec\<close> that copies the arguments, leaves on the stack. The stack page is taken
  to be mapped and the strings with the pointers to fit into it; then the stack holds the false return
  address, \<open>argc\<close>, and the address of an array of \<open>argc\<close> pointers with a null pointer behind them, each
  pointer is the address of its argument, byte for byte and terminated, and no other page is touched.
\<close>

lemma push_stack_layout:
  assumes st: "stack_page pgdir base K m" and len: "length argv \<le> MAXARG"
    and room: "sum_list (map (\<lambda>a. length a + 4) argv) + 4 * (4 + length argv) \<le> 4096"
  shows "\<exists>sp m'. push_stack pgdir (base + PGSIZE) argv m = Done (Some sp, m') \<and> unat (sp - base) < 4096
    \<and> uword pgdir m' sp = 0xffffffff \<and> uword pgdir m' (sp + 4) = of_nat (length argv)
    \<and> (\<forall>k<length argv. ustr pgdir m' (uword pgdir m' (uword pgdir m' (sp + 8) + of_nat (4 * k))) (length (argv ! k) + 1) = argv ! k @ [0])
    \<and> uword pgdir m' (uword pgdir m' (sp + 8) + of_nat (4 * length argv)) = 0
    \<and> (\<forall>x. x \<notin> page K \<longrightarrow> kmem m' x = kmem m x)"
proof -
  define n where "n = length argv"
  have r: "arg_room argv \<le> 4096"
    using room by (simp add: arg_room_def)
  obtain fp w where p: "fp + (4 + n) * 4 = arg_low 4096 argv" "arg_low 4096 argv \<le> 4096"
    "push_stack pgdir (base + PGSIZE) argv m = Done (Some (base + of_nat fp), stack_mem K argv fp (4 + n) w m)"
    and w: "w 0 = 0xffffffff" "w 1 = of_nat n" "w 2 = base + of_nat (fp + 4 * 3)" "w (3 + n) = 0"
      "\<And>k. k < n \<Longrightarrow> w (3 + k) = base + of_nat (arg_offs 4096 argv ! k)"
    using push_stack_run [OF st len room] unfolding n_def by blast
  define m' where "m' = stack_mem K argv fp (4 + n) w m"
  have f: "fp + (4 + n) * 4 \<le> 4096"
    using p by simp
  note word = stack_mem_word [OF st r f, of _ w, folded m'_def]
  have "unat (base + of_nat fp - base) < 4096"
    using f by (simp add: unat_of_nat)
  moreover have "uword pgdir m' (base + of_nat fp) = 0xffffffff" "uword pgdir m' (base + of_nat fp + 4) = of_nat n"
    "uword pgdir m' (base + of_nat fp + 8) = base + of_nat (fp + 4 * 3)"
    using word [of 0] word [of 1] word [of 2] by (simp_all add: w w(2) [unfolded One_nat_def] add.assoc)
  moreover have "uword pgdir m' (base + of_nat (fp + 4 * 3) + of_nat (4 * k)) = w (3 + k)" if "k \<le> n" for k
    using word [of "3 + k"] that by (simp add: add.assoc)
  moreover have "ustr pgdir m' (base + of_nat (arg_offs 4096 argv ! k)) (length (argv ! k) + 1) = argv ! k @ [0]" if "k < n" for k
    using stack_mem_string [OF st r p(1), of k w] that by (simp add: m'_def n_def)
  moreover have "kmem m' x = kmem m x" if "x \<notin> page K" for x
    using stack_mem_off [OF r f that] by (simp add: m'_def)
  ultimately show ?thesis
    using p(3) w by (intro exI [of _ "base + of_nat fp"] exI [of _ m']) (simp add: n_def m'_def)
qed

subsection \<open>Where the stack pointer ends\<close>

text \<open>Every string takes its bytes and a null byte, rounded up to a multiple of four.\<close>

definition stack_bytes :: "byte list list \<Rightarrow> nat" where
  "stack_bytes argv = (\<Sum>a\<leftarrow>argv. 4 * (length a div 4 + 1))"

lemma stack_bytes_simps [simp]: "stack_bytes [] = 0" "stack_bytes (a # as) = 4 * (length a div 4 + 1) + stack_bytes as"
  by (simp_all add: stack_bytes_def)

lemma word_add_mod4: "((y :: u32) + of_nat r) mod 4 = of_nat ((unat y + r) mod 4)"
proof -
  have "unat (y + of_nat r) = (unat y + r) mod 2 ^ 32"
    by (simp add: unat_word_ariths unat_of_nat mod_simps)
  then have "unat (y + of_nat r) mod 4 = (unat y + r) mod 4"
    using mod_mod_cancel [of 4 "2 ^ 32" "unat y + r"] by simp
  moreover have "unat ((y + of_nat r) mod 4) = unat (y + of_nat r) mod 4"
    by (simp add: unat_mod_distrib)
  ultimately show ?thesis
    by (simp add: word_unat_eq_iff unat_of_nat)
qed

lemma push_down:
  assumes "(sp :: u32) mod 4 = 0"
  shows "(sp - of_nat (n + 1)) AND NOT 3 = sp - of_nat (4 * (n div 4 + 1))" "(sp - of_nat (4 * k)) mod 4 = 0"
proof -
  have z: "(sp - of_nat (4 * k)) mod 4 = 0" for k
  proof -
    let ?y = "sp - of_nat (4 * k) :: u32"
    have "sp mod 4 = of_nat ((unat ?y + 4 * k) mod 4)"
      using word_add_mod4 [of ?y "4 * k"] by simp
    then have "of_nat (unat ?y mod 4) = (0 :: u32)"
      using assms by simp
    then show ?thesis
      using word_add_mod4 [of ?y 0] by simp
  qed
  define y where "y = sp - of_nat (4 * (n div 4 + 1))"
  have n: "4 * (n div 4 + 1) = (3 - n mod 4) + (n + 1)"
    by presburger
  have y0: "unat y mod 4 = 0"
  proof -
    have "of_nat (unat y mod 4) = (0 :: u32)"
      using z [of "n div 4 + 1"] word_add_mod4 [of y 0] by (simp add: y_def)
    then have "unat (of_nat (unat y mod 4) :: u32) = 0"
      by simp
    then show ?thesis
      by (simp add: unat_of_nat)
  qed
  have "sp - of_nat (n + 1) = y + of_nat (3 - n mod 4)"
    unfolding y_def n of_nat_add by simp
  moreover have "(y + of_nat (3 - n mod 4)) mod 4 = of_nat (3 - n mod 4)"
  proof -
    have "(u + (3 - n mod 4)) mod 4 = 3 - n mod 4" if u: "u mod 4 = 0" for u :: nat
    proof -
      have "(u + r) mod 4 = r" if "r < 4" for r :: nat
        using that u mod_add_left_eq [of u 4 r] by simp
      from this [of "3 - n mod 4"] show ?thesis
        by linarith
    qed
    then show ?thesis
      unfolding word_add_mod4 by (simp only: y0)
  qed
  ultimately have "(sp - of_nat (n + 1)) AND NOT 3 = y"
    unfolding and_not3 by (simp only: add_diff_cancel_right')
  then show "(sp - of_nat (n + 1)) AND NOT 3 = sp - of_nat (4 * (n div 4 + 1))"
    unfolding y_def .
  show "(sp - of_nat (4 * k)) mod 4 = 0"
    by (rule z)
qed

lemma push_args_sp:
  "push_args pgdir argv k sp us m = Done (Some (n, sp', us'), m') \<Longrightarrow> sp mod 4 = 0
   \<Longrightarrow> n = k + length argv \<and> sp' = sp - of_nat (stack_bytes argv) \<and> (argv = [] \<or> n \<le> MAXARG)"
proof (induction argv arbitrary: k sp us m)
  case (Cons a as)
  let ?sp = "sp - of_nat (4 * (length a div 4 + 1))"
  obtain us1 m1 where r: "push_args pgdir as (k + 1) ?sp us1 m1 = Done (Some (n, sp', us'), m')" and k: "k < MAXARG"
    using Cons.prems(1) unfolding push_args.simps Let_def push_down(1) [OF Cons.prems(2)]
    by (auto simp: outcome_simps split: if_splits)
  show ?case
    using Cons.IH [OF r push_down(2) [OF Cons.prems(2)]] k by (cases as) (auto simp: algebra_simps)
qed simp

lemma PGROUNDUP_mod: "PGROUNDUP a mod PGSIZE = 0"
proof -
  have "(a + PGSIZE - 1) AND NOT (mask 12) = push_bit 12 (drop_bit 12 (a + PGSIZE - 1))"
    by (rule bit_word_eqI) (auto simp: bit_simps)
  then have "take_bit 12 (PGROUNDUP a) = 0"
    by (simp add: PGROUNDUP_def mask_eq_exp_minus_1 take_bit_push_bit)
  then show ?thesis
    by (simp add: take_bit_eq_mod)
qed

lemma word_add_page: "(x :: u32) mod PGSIZE = 0 \<Longrightarrow> (x + 2 * PGSIZE) mod PGSIZE = 0"
proof -
  assume "x mod PGSIZE = 0"
  then have x: "unat x mod 4096 = 0"
    by (simp add: word_unat_eq_iff unat_mod_distrib)
  have "unat (x + 8192) mod 4096 = (unat x + 8192) mod 2 ^ 32 mod 4096"
    by (simp add: unat_word_ariths)
  also have "\<dots> = (unat x + 8192) mod 4096"
    by (rule mod_mod_cancel) simp
  also have "\<dots> = 0"
    using x mod_add_left_eq [of "unat x" 4096 8192] by simp
  finally show ?thesis
    by (simp add: word_unat_eq_iff unat_mod_distrib)
qed

lemma allocuvm_from_Done: "allocuvm_from k pgdir a oldsz newsz m = Done (r, m') \<Longrightarrow> r = 0 \<or> r = newsz"
  by (induction k pgdir a oldsz newsz m rule: allocuvm_from.induct)
     (auto simp: outcome_simps split: if_splits prod.splits)

lemma allocuvm_Done: "allocuvm pgdir oldsz newsz m = Done (r, m') \<Longrightarrow> r = 0 \<or> r = newsz \<or> r = oldsz"
  by (auto simp: allocuvm_def split: if_splits dest: allocuvm_from_Done)

lemma word_mod4: "(x :: u32) mod PGSIZE = 0 \<Longrightarrow> x mod 4 = 0"
  using mod_mod_cancel [of 4 4096 "unat x"] by (simp add: word_unat_eq_iff unat_mod_distrib)

lemma make_stack_Done:
  assumes "make_stack pgdir sz argv m = Done (Some (sz', sp), m')"
  shows "sz' mod PGSIZE = 0" "length argv \<le> MAXARG" "sp = sz' - of_nat (stack_bytes argv + 4 * (4 + length argv))"
proof -
  obtain m1 m2 where a: "allocuvm pgdir (PGROUNDUP sz) (PGROUNDUP sz + 2 * PGSIZE) m = Done (sz', m1)"
    and p: "push_stack pgdir sz' argv m2 = Done (Some sp, m')" and z: "sz' \<noteq> 0"
    using assms unfolding make_stack_def Let_def by (auto simp: outcome_simps split: if_splits)
  have "(PGROUNDUP sz + 2 * PGSIZE) mod PGSIZE = 0"
    using PGROUNDUP_mod [of sz] word_add_page [of "PGROUNDUP sz"] by simp
  then show sz': "sz' mod PGSIZE = 0"
    using allocuvm_Done [OF a] z PGROUNDUP_mod [of sz] by (elim disjE) simp_all
  obtain n us m3 sp1 where l: "push_args pgdir argv 0 sz' (\<lambda>_. 0) m2 = Done (Some (n, sp1, us), m3)"
    and sp: "sp = sp1 - of_nat ((3 + n + 1) * 4)"
    using p unfolding push_stack_def Let_def by (auto simp: outcome_simps split: option.splits if_splits)
  show "length argv \<le> MAXARG" "sp = sz' - of_nat (stack_bytes argv + 4 * (4 + length argv))"
    using push_args_sp [OF l word_mod4 [OF sz']] sp by (auto simp: algebra_simps)
qed

subsection \<open>What a call changes\<close>

text \<open>Only the memory and the storage state.\<close>

definition off_table :: "pst \<Rightarrow> pst \<Rightarrow> bool" where
  "off_table s t \<longleftrightarrow> t = s\<lparr>mm := mm t, io := io t\<rparr>"

lemma off_table_refl [simp]: "off_table s s"
  by (simp add: off_table_def)

lemma off_table_trans: "off_table s t \<Longrightarrow> off_table t u \<Longrightarrow> off_table s u"
  unfolding off_table_def by (cases s; cases t; cases u) simp

lemma off_table_upd [simp]: "off_table s (s\<lparr>io := k\<rparr>)" "off_table s (s\<lparr>mm := m\<rparr>)" "off_table s (s\<lparr>io := k, mm := m\<rparr>)"
  by (cases s; simp add: off_table_def)+

lemma off_table_with: "with_mm f s = Done (a, t) \<Longrightarrow> off_table s t" "with_io g s = Done t \<Longrightarrow> off_table s t"
  by (auto simp: with_mm_def with_io_def outcome_simps)

lemma off_table_read: "read_local dv ip off n s = Done (r, t) \<Longrightarrow> off_table s t" "read_mem dv ip a off n s = Done (q, t) \<Longrightarrow> off_table s t"
  by (auto simp: read_local_def read_mem_def outcome_simps)

lemma off_table_loaduvm_from: "loaduvm_from k dv pgdir addr ip off sz i s = Done (r, t) \<Longrightarrow> off_table s t"
proof (induction k arbitrary: i s)
  case 0
  then show ?case by (simp split: if_splits)
next
  case (Suc k)
  show ?case
  proof (cases "i < sz")
    case True
    obtain pte m where w: "walkpgdir pgdir (addr + i) False (mm s) = (pte, m)"
      by (metis surj_pair)
    from Suc.prems True w obtain a n q u where u: "read_mem dv ip a (off + i) n (s\<lparr>mm := m\<rparr>) = Done (q, u)"
      and t: "t = u \<or> loaduvm_from k dv pgdir addr ip off sz (i + PGSIZE) u = Done (r, t)"
      by (auto simp: Let_def outcome_simps split: if_splits)
    have "off_table s u"
      using off_table_read(2) [OF u] off_table_trans [OF off_table_upd(2)] by blast
    moreover have "off_table u t"
      using t Suc.IH by auto
    ultimately show ?thesis
      by (rule off_table_trans)
  qed (use Suc.prems in simp)
qed

lemma off_table_loaduvm: "loaduvm dv pgdir addr ip off sz s = Done (r, t) \<Longrightarrow> off_table s t"
  by (auto simp: loaduvm_def intro: off_table_loaduvm_from split: if_splits)

lemma off_table_segments: "load_segments k dv pgdir ip off sz s = Done (r, t) \<Longrightarrow> off_table s t"
proof (induction k arbitrary: off sz s)
  case (Suc k)
  obtain q b u where u: "read_local dv ip off 32 s = Done ((q, b), u)"
    and k: "t = u \<or> load_segments k dv pgdir ip (off + 32) sz u = Done (r, t)
      \<or> (\<exists>sz' v. with_mm (allocuvm pgdir sz (ph_vaddr (decode_ph b) + ph_memsz (decode_ph b))) u = Done (sz', v)
        \<and> (t = v \<or> (\<exists>x y. loaduvm dv pgdir (ph_vaddr (decode_ph b)) ip (ph_off (decode_ph b)) (ph_filesz (decode_ph b)) v = Done (x, y)
          \<and> (t = y \<or> load_segments k dv pgdir ip (off + 32) sz' y = Done (r, t)))))"
    using Suc.prems by (auto simp: Let_def outcome_simps split: if_splits)
  have "off_table s u"
    using off_table_read(1) [OF u] .
  moreover have "off_table u t"
    using k
  proof (elim disjE exE conjE)
    fix sz' v x y
    assume v: "with_mm (allocuvm pgdir sz (ph_vaddr (decode_ph b) + ph_memsz (decode_ph b))) u = Done (sz', v)"
      and y: "loaduvm dv pgdir (ph_vaddr (decode_ph b)) ip (ph_off (decode_ph b)) (ph_filesz (decode_ph b)) v = Done (x, y)"
    have f: "off_table u y"
      using off_table_with(1) [OF v] off_table_loaduvm [OF y] by (rule off_table_trans)
    then show "t = y \<Longrightarrow> off_table u t"
      by simp
    show "load_segments k dv pgdir ip (off + 32) sz' y = Done (r, t) \<Longrightarrow> off_table u t"
      using f Suc.IH by (rule off_table_trans)
  qed (auto dest: Suc.IH off_table_with(1))
  ultimately show ?case
    by (rule off_table_trans)
qed simp

lemma load_image_Done: "load_image dv ip s = Done ((pgdir, img), t) \<Longrightarrow> off_table s t"
  unfolding load_image_def Let_def
  by (auto simp: outcome_simps split: if_splits dest!: off_table_read(1) off_table_with(1) off_table_segments intro: off_table_trans)

lemma exec_bad_Done: "exec_bad pgdir ip s = Done (r, t) \<Longrightarrow> r = -1 \<and> off_table s t"
proof -
  assume a: "exec_bad pgdir ip s = Done (r, t)"
  obtain u where u: "off_table s u" and k: "(case ip of None \<Rightarrow> Done (-1, u)
      | Some ip \<Rightarrow> bindO (with_io (iunlockput ip) u) (\<lambda>s. bindO (with_io end_op s) (\<lambda>s. Done (-1, s)))) = Done (r, t)"
  proof -
    obtain x u where "(if pgdir \<noteq> 0 then with_mm (\<lambda>m. bindO (freevm pgdir m) (\<lambda>m. Done ((), m))) s else Done ((), s)) = Done (x, u)"
      and k: "(case ip of None \<Rightarrow> Done (-1, u)
      | Some ip \<Rightarrow> bindO (with_io (iunlockput ip) u) (\<lambda>s. bindO (with_io end_op s) (\<lambda>s. Done (-1, s)))) = Done (r, t)"
      using a unfolding exec_bad_def bindS_Done_iff by blast
    then have "off_table s u"
      by (auto split: if_splits dest: off_table_with(1))
    then show thesis
      using k by (rule that)
  qed
  have "r = -1 \<and> off_table u t"
    using k by (auto simp: outcome_simps split: option.splits dest!: off_table_with(2) intro: off_table_trans)
  then show ?thesis
    using u off_table_trans by blast
qed

lemma base_name_eq: "base_name lst xs = (if 47 \<in> set xs then rev (takeWhile (\<lambda>x. x \<noteq> 47) (rev xs)) else lst)"
proof (induction xs arbitrary: lst)
  case (Cons x xs)
  have "takeWhile (\<lambda>x. x \<noteq> 47) (rev xs) = rev xs" if "47 \<notin> set xs"
    using that by (intro takeWhile_eq_all_conv [THEN iffD2]) auto
  then show ?case
    by (auto simp: Cons.IH takeWhile_append)
qed simp

lemma base_name: "base_name xs xs = rev (takeWhile (\<lambda>x. x \<noteq> 47) (rev xs))"
proof (cases "47 \<in> set xs")
  case False
  have "takeWhile (\<lambda>x. x \<noteq> 47) (rev xs) = rev xs"
    using False by (intro takeWhile_eq_all_conv [THEN iffD2]) auto
  then show ?thesis
    unfolding base_name_eq using False by (simp only: if_False rev_rev_ident)
qed (simp add: base_name_eq)

text \<open>The process \<open>x\<close> with a new image.\<close>

definition reborn :: "u32 \<Rightarrow> u32 \<Rightarrow> u32 \<Rightarrow> u32 \<Rightarrow> byte list \<Rightarrow> proc \<Rightarrow> proc" where
  "reborn pgdir sz eip esp name x = x\<lparr>pr_name := safestrcpy 0 (cstring name) 0 16 (pr_name x),
     pr_pgdir := pgdir, pr_sz := sz, pr_tf := (pr_tf x)\<lparr>tf_eip := eip, tf_esp := esp\<rparr>\<rparr>"

text \<open>
  The stack pointer of the new program: below the top of the image, the strings and the words above them.
\<close>

definition new_stack :: "byte list list \<Rightarrow> u32 \<Rightarrow> u32 \<Rightarrow> bool" where
  "new_stack argv sz esp \<longleftrightarrow> length argv \<le> MAXARG \<and> sz mod PGSIZE = 0
    \<and> esp = sz - of_nat (stack_bytes argv + 4 * (4 + length argv))"

text \<open>The two ways in which \<open>exec\<close>, called in \<open>s\<close> by process \<open>c\<close>, may return.\<close>

definition exec_result :: "byte list \<Rightarrow> byte list list \<Rightarrow> nat \<Rightarrow> pst \<Rightarrow> int \<Rightarrow> pst \<Rightarrow> bool" where
  "exec_result path argv c s r t \<longleftrightarrow> r = -1 \<and> t = s\<lparr>mm := mm t, io := io t\<rparr>
    \<or> r = 0 \<and> (\<exists>pgdir sz eip esp. pgdir \<noteq> 0 \<and> cr3 t = V2P pgdir \<and> new_stack argv sz esp
        \<and> procs t = (procs s)(c := reborn pgdir sz eip esp (rev (takeWhile (\<lambda>x. x \<noteq> 47) (rev path))) (procs s c))
        \<and> t = s\<lparr>procs := procs t, cr3 := cr3 t, mm := mm t, io := io t\<rparr>)"

lemma exec_result_failed: "off_table s t \<Longrightarrow> exec_result path argv c s (-1) t"
  by (simp add: exec_result_def off_table_def)

lemma exec_result_after: "off_table s u \<Longrightarrow> exec_result path argv c u r t \<Longrightarrow> exec_result path argv c s r t"
  unfolding exec_result_def off_table_def by (cases s; cases t; cases u) auto

lemma commit_image_Done:
  assumes "commit_image pgdir sz sp entry path c s = Done (r, t)" "new_stack argv sz sp"
  shows "exec_result path argv c s r t"
proof -
  let ?x = "reborn pgdir sz entry sp (rev (takeWhile (\<lambda>x. x \<noteq> 47) (rev path))) (procs s c)"
  obtain m where m: "t = s\<lparr>procs := (procs s)(c := ?x), cr3 := V2P pgdir, mm := m\<rparr>" "r = 0" "pgdir \<noteq> 0"
    using assms(1) unfolding commit_image_def
    by (auto simp: Let_def outcome_simps with_mm_def switchuvm_def upd_proc_def reborn_def base_name split: if_splits)
  have "cr3 t = V2P pgdir" "procs t = (procs s)(c := ?x)"
    by (simp_all add: m(1))
  moreover have "t = s\<lparr>procs := procs t, cr3 := cr3 t, mm := mm t, io := io t\<rparr>"
    by (cases s) (simp add: m(1))
  ultimately show ?thesis
    unfolding exec_result_def using m(2,3) assms(2) by blast
qed

lemma exec_stack_Done:
  assumes "exec_stack pgdir sz entry path argv c s = Done (r, t)"
  shows "exec_result path argv c s r t"
proof -
  obtain q u where u: "with_mm (make_stack pgdir sz argv) s = Done (q, u)"
    and k: "(case q of None \<Rightarrow> exec_bad pgdir None u | Some (sz, sp) \<Rightarrow> commit_image pgdir sz sp entry path c u) = Done (r, t)"
    using assms unfolding exec_stack_def by (auto simp: outcome_simps)
  have "exec_result path argv c u r t"
  proof (cases q)
    case None
    then show ?thesis
      using k exec_bad_Done exec_result_failed by fastforce
  next
    case (Some x)
    then obtain sz' sp where x: "q = Some (sz', sp)" "commit_image pgdir sz' sp entry path c u = Done (r, t)"
      using k by (cases x) auto
    have "new_stack argv sz' sp"
      using u make_stack_Done unfolding x(1) new_stack_def with_mm_def by (auto simp: outcome_simps)
    then show ?thesis
      using commit_image_Done [OF x(2)] by blast
  qed
  then show ?thesis
    using exec_result_after off_table_with(1) [OF u] by blast
qed

lemma exec_file_Done:
  assumes "exec_file dv ip path argv c s = Done (r, t)"
  shows "exec_result path argv c s r t"
proof -
  obtain u pgdir img v where u: "with_io (ilock ip) s = Done u" "load_image dv ip u = Done ((pgdir, img), v)"
    and k: "(case img of None \<Rightarrow> exec_bad pgdir (Some ip) v
      | Some (sz, entry) \<Rightarrow> bindO (with_io (iunlockput ip) v) (\<lambda>s. bindO (with_io end_op s) (exec_stack pgdir sz entry path argv c))) = Done (r, t)"
    using assms unfolding exec_file_def by (auto simp: outcome_simps)
  have "exec_result path argv c v r t"
  proof (cases img)
    case None
    then show ?thesis
      using k exec_bad_Done exec_result_failed by fastforce
  next
    case (Some i)
    then obtain sz entry w x where w: "with_io (iunlockput ip) v = Done w" "with_io end_op w = Done x"
      and e: "exec_stack pgdir sz entry path argv c x = Done (r, t)"
      using k by (cases i) (auto simp: outcome_simps)
    show ?thesis
      using exec_stack_Done [OF e] exec_result_after [OF off_table_with(2) [OF w(2)]]
        exec_result_after [OF off_table_with(2) [OF w(1)]] by blast
  qed
  moreover have "off_table s v"
    using off_table_with(2) [OF u(1)] load_image_Done [OF u(2)] off_table_trans by blast
  ultimately show ?thesis
    using exec_result_after by blast
qed

text \<open>
  C37. \<open>exec\<close> replaces the image of the calling process or changes nothing of it: whenever it returns, either the
  result is -1 and the process table, the running process and the page directory register are as before,
  whatever step failed; or the result is 0 and the caller alone has a new page directory, size, entry
  point and stack pointer and the part of the path behind its last slash as its name, and runs on that
  page directory; its size is a multiple of the page size and the stack pointer lies below it by exactly what the
  at most \<open>MAXARG\<close> arguments take: the words of \<open>argc\<close>, \<open>argv\<close> and the return address, and the strings
  each rounded up to words.
\<close>

theorem exec_all_or_nothing:
  assumes "exec dv path argv c s = Done (r, t)"
  shows "r = -1 \<and> t = s\<lparr>mm := mm t, io := io t\<rparr>
    \<or> r = 0 \<and> (\<exists>pgdir sz eip esp. pgdir \<noteq> 0 \<and> cr3 t = V2P pgdir \<and> new_stack argv sz esp
        \<and> procs t = (procs s)(c := reborn pgdir sz eip esp (rev (takeWhile (\<lambda>x. x \<noteq> 47) (rev path))) (procs s c))
        \<and> t = s\<lparr>procs := procs t, cr3 := cr3 t, mm := mm t, io := io t\<rparr>)"
proof -
  obtain s1 ip k where 1: "with_io begin_op s = Done s1"
    and k: "(case ip of None \<Rightarrow> bindO (with_io end_op (s1\<lparr>io := k\<rparr>)) (\<lambda>s. Done (-1, s))
      | Some ip \<Rightarrow> exec_file dv ip path argv c (s1\<lparr>io := k\<rparr>)) = Done (r, t)"
    using assms unfolding exec_def by (auto simp: outcome_simps)
  have "exec_result path argv c (s1\<lparr>io := k\<rparr>) r t"
    using k by (auto simp: outcome_simps split: option.splits dest: exec_file_Done off_table_with(2) intro: exec_result_failed)
  moreover have "off_table s (s1\<lparr>io := k\<rparr>)"
    using off_table_with(2) [OF 1] off_table_upd(1) by (rule off_table_trans)
  ultimately have "exec_result path argv c s r t"
    using exec_result_after by blast
  then show ?thesis
    by (simp only: exec_result_def)
qed

definition demo_exec :: pst where
  "demo_exec = demo_running\<lparr>io := (boot_state 1 100 (\<lambda>_. zero_block))\<lparr>icache := (\<lambda>_. zero_inode\<lparr>i_type := T_DEV, i_major := 0xffff,
     i_nlink := 1, i_ref := 1, i_valid := True\<rparr>)\<rparr>\<rparr>"

text \<open>C37 applied: the program file is a device that cannot be read.\<close>

theorem exec_all_or_nothing_witness:
  "\<exists>t. exec (\<lambda>_. \<lparr>dv_read = None, dv_write = None\<rparr>) [] [] 0 demo_exec = Done (-1, t) \<and> procs t = procs demo_exec
    \<and> cr3 t = V2P 0x80401000 \<and> log_outstanding (io t) = 0"
proof -
  let ?dv = "\<lambda>_. \<lparr>dv_read = None, dv_write = None\<rparr> :: devops"
  have "\<exists>t. exec ?dv [] [] 0 demo_exec = Done (-1, t) \<and> log_outstanding (io t) = 0"
    by (simp add: exec_def demo_exec_def with_io_def begin_op_def boot_state_def namei_def namex_def namex_loop.simps skipelem_def
      idup_def upd_inode_def exec_file_def ilock_def acquiresleep_def zero_inode_def zero_lock_def load_image_def read_local_def
      readi_def bad_major_def exec_bad_def iunlockput_def iunlock_def holdingsleep_def iput_def end_op_def commit_def)
  then obtain t where t: "exec ?dv [] [] 0 demo_exec = Done (-1, t)" "log_outstanding (io t) = 0"
    by blast
  have "procs t = procs demo_exec \<and> cr3 t = cr3 demo_exec"
    using exec_all_or_nothing [OF t(1)] by (auto dest: arg_cong [where f = procs] arg_cong [where f = cr3])
  then show ?thesis
    using t by (simp add: demo_exec_def demo_running_def upd_proc_def)
qed

text \<open>A page directory at 0x80100000, a page table at 0x80101000 and the stack page at 0x80102000.\<close>

definition demo_stack :: mst where
  "demo_stack = \<lparr>kmem = (\<lambda>a. if a = 0x80100000 then 7 else if a = 0x80100001 then 0x10 else if a = 0x80100002 then 0x10
       else if a = 0x80101004 then 7 else if a = 0x80101005 then 0x20 else if a = 0x80101006 then 0x10 else 0),
     freelist = 0, use_lock = True, kend = 0x80100000, kdata = 0x80100000\<rparr>"

lemma demo_stack_page: "stack_page 0x80100000 0x1000 0x80102000 demo_stack"
proof -
  have d: "load32 (kmem demo_stack) 0x80100000 = 0x101007" "load32 (kmem demo_stack) 0x80101004 = 0x102007"
    by (simp_all add: load32_def get32_def demo_stack_def)
  have lt4: "(\<forall>i<4. P i) \<longleftrightarrow> P 0 \<and> P 1 \<and> P 2 \<and> P (3 :: nat)" for P
    by (auto simp: less_Suc_eq numeral_eq_Suc)
  have o: "\<forall>i<4. 0x80100000 + of_nat i \<notin> page 0x80102000" "\<forall>i<4. 0x80101004 + of_nat i \<notin> page 0x80102000"
    unfolding lt4 by (simp_all add: page_def)
  show ?thesis
    using o by (simp add: stack_page_def PGROUNDDOWN_def PDX_def PTX_def PTE_ADDR_def P2V_def present_def d)
qed

text \<open>The layout for the arguments "echo" and "hi".\<close>

lemma push_stack_layout_demo:
  "\<exists>sp m'. push_stack 0x80100000 0x2000 [[101, 99, 104, 111], [104, 105]] demo_stack = Done (Some sp, m')
    \<and> uword 0x80100000 m' (sp + 4) = 2
    \<and> ustr 0x80100000 m' (uword 0x80100000 m' (uword 0x80100000 m' (sp + 8) + 4)) 3 = [104, 105, 0]"
proof -
  obtain sp m' where r: "push_stack 0x80100000 (0x1000 + PGSIZE) [[101, 99, 104, 111], [104, 105]] demo_stack = Done (Some sp, m')"
    "uword 0x80100000 m' (sp + 4) = of_nat (length [[101, 99, 104, 111], [104, 105 :: byte]])"
    and k: "\<forall>k<length [[101, 99, 104, 111], [104, 105 :: byte]]. ustr 0x80100000 m' (uword 0x80100000 m' (uword 0x80100000 m' (sp + 8) + of_nat (4 * k)))
      (length ([[101, 99, 104, 111], [104, 105 :: byte]] ! k) + 1) = [[101, 99, 104, 111], [104, 105]] ! k @ [0]"
    using push_stack_layout [OF demo_stack_page, of "[[101, 99, 104, 111], [104, 105]]"] by auto
  show ?thesis
    using r k [rule_format, of 1] by (intro exI [of _ sp] exI [of _ m']) (simp add: numeral_3_eq_3)
qed

end
