(* ===== verification/Decimal.thy ===== *)
theory Decimal
  imports Prelude
begin

text \<open>
  C's \<open>int\<close> and its decimal notation: \<open>cint\<close> checks that a result is representable (signed overflow is
  undefined), \<open>show_int\<close> is \<open>%d\<close>.
\<close>

definition fits :: "int \<Rightarrow> bool" where
  "fits v \<longleftrightarrow> - (2 ^ 31) \<le> v \<and> v < 2 ^ 31"

definition cint :: "int \<Rightarrow> int outcome" where
  "cint v = (if - (2 ^ 31) \<le> v \<and> v < 2 ^ 31 then Done v else Undef)"

lemma cint_Done [outcome_simps]: "cint v = Done w \<longleftrightarrow> w = v \<and> fits v"
  by (auto simp: cint_def fits_def)

definition digit_char :: "nat \<Rightarrow> char" where "digit_char d = char_of (48 + d)"

fun show_nat :: "nat \<Rightarrow> string" where
  "show_nat n = (if n < 10 then [digit_char n] else show_nat (n div 10) @ [digit_char (n mod 10)])"

declare show_nat.simps [simp del]

text \<open>\<open>%d\<close>, and a conversion with a width, which pads on the left.\<close>

definition show_int :: "int \<Rightarrow> string" where
  "show_int v = (if v < 0 then ''-'' @ show_nat (nat (- v)) else show_nat (nat v))"

definition pad :: "nat \<Rightarrow> string \<Rightarrow> string" where
  "pad w s = replicate (w - length s) CHR '' '' @ s"

abbreviation newline :: string where "newline \<equiv> [CHR 0x0A]"

definition isdigit :: "char \<Rightarrow> bool" where
  "isdigit c \<longleftrightarrow> 48 \<le> (of_char c :: nat) \<and> (of_char c :: nat) \<le> 57"

definition digit_val :: "char \<Rightarrow> int" where
  "digit_val c = int (of_char c) - 48"

lemma isdigit_digit [simp]: "d < 10 \<Longrightarrow> isdigit (digit_char d)"
  by (simp add: isdigit_def digit_char_def of_char_of take_bit_nat_eq_self)

lemma digit_val_digit [simp]: "d < 10 \<Longrightarrow> digit_val (digit_char d) = int d"
  by (simp add: digit_val_def digit_char_def of_char_of take_bit_nat_eq_self)

lemma show_nat_nonempty [simp]: "show_nat n \<noteq> []"
  by (subst show_nat.simps) simp

lemma show_nat_digits: "c \<in> set (show_nat n) \<Longrightarrow> isdigit c"
  by (induction n rule: show_nat.induct) (subst (asm) (2) show_nat.simps, auto split: if_splits)

lemma fits_digits: "fits (a * 10 ^ Suc k + int n) \<Longrightarrow> 0 \<le> a \<Longrightarrow> fits (a * 10 ^ k + int (n div 10))"
proof -
  assume f: "fits (a * 10 ^ Suc k + int n)" and a: "0 \<le> a"
  have "0 \<le> a * 10 ^ k" using a by simp
  then show ?thesis
    using f a by (simp add: fits_def) linarith
qed

end
