(* ===== verification/UserLib.thy ===== *)
theory UserLib
  imports Decimal Strings
begin

text \<open>
  The user library (\<open>ulib.c\<close>, \<open>printf.c\<close>) and the number printer it shares with the kernel's
  \<open>console.c\<close>. A C string is the list of its characters before the terminator, a destination buffer the
  list of its cells; what is written to a file descriptor is returned as a string.
\<close>

abbreviation (input) nulc :: char where "nulc \<equiv> CHR 0x00"

abbreviation uchar :: "char \<Rightarrow> int" where "uchar c \<equiv> int (of_char c)"

subsection \<open>Strings and memory\<close>

fun strcpy_from :: "string \<Rightarrow> nat \<Rightarrow> string \<Rightarrow> string outcome" where
  "strcpy_from s i [] = (if i < length s then Done (s[i := nulc]) else Undef)"
| "strcpy_from s i (c # t) = (if i < length s then strcpy_from (s[i := c]) (i + 1) t else Undef)"

definition strcpy :: "string \<Rightarrow> string \<Rightarrow> string outcome" where
  "strcpy s t = strcpy_from s 0 t"

fun strcmp :: "string \<Rightarrow> string \<Rightarrow> int" where
  "strcmp (c # p) (d # q) = (if c = d then strcmp p q else uchar c - uchar d)"
| "strcmp (c # p) [] = uchar c - 0"
| "strcmp [] (d # q) = 0 - uchar d"
| "strcmp [] [] = 0"

fun ustrlen_from :: "nat \<Rightarrow> string \<Rightarrow> nat" where
  "ustrlen_from n [] = n"
| "ustrlen_from n (c # s) = ustrlen_from (n + 1) s"

definition ustrlen :: "string \<Rightarrow> u32" where "ustrlen s = of_nat (ustrlen_from 0 s)"

definition umemset :: "nat \<Rightarrow> u32 \<Rightarrow> u32 \<Rightarrow> block \<Rightarrow> block" where
  "umemset dst c n m = stosb dst (ucast c) (unat n) m"

text \<open>\<open>strchr\<close> returns the rest of the string from the character on.\<close>

fun strchr :: "string \<Rightarrow> char \<Rightarrow> string option" where
  "strchr [] c = None"
| "strchr (d # s) c = (if d = c then Some (d # s) else strchr s c)"

text \<open>\<open>gets\<close>: \<open>input\<close> is what single-byte reads of standard input will return; the rest is returned too.\<close>

fun gets_loop :: "nat \<Rightarrow> int \<Rightarrow> string \<Rightarrow> string \<Rightarrow> string \<times> string" where
  "gets_loop i mx acc [] = (acc, [])"
| "gets_loop i mx acc (c # input) =
    (if \<not> int i + 1 < mx then (acc, c # input)
     else if c = CHR 0x0A \<or> c = CHR 0x0D then (acc @ [c], input)
     else gets_loop (i + 1) mx (acc @ [c]) input)"

definition gets :: "int \<Rightarrow> string \<Rightarrow> string \<times> string" where
  "gets mx input = gets_loop 0 mx [] input"

text \<open>\<open>stat\<close> opens, examines and closes a file; the system calls are its parameters.\<close>

definition ustat :: "(string \<Rightarrow> 's \<Rightarrow> int \<times> 's) \<Rightarrow> (int \<Rightarrow> 's \<Rightarrow> int \<times> 's) \<Rightarrow> (int \<Rightarrow> 's \<Rightarrow> 's) \<Rightarrow>
    string \<Rightarrow> 's \<Rightarrow> int \<times> 's" where
  "ustat opn fstat cls n s = (let (fd, s) = opn n s in
     if fd < 0 then (-1, s) else let (r, s) = fstat fd s in (r, cls fd s))"

fun atoi_loop :: "int \<Rightarrow> string \<Rightarrow> int outcome" where
  "atoi_loop n [] = Done n"
| "atoi_loop n (c # s) = (if isdigit c then bindO (cint (n * 10)) (\<lambda>m.
     bindO (cint (m + uchar c)) (\<lambda>m. bindO (cint (m - 48)) (\<lambda>n. atoi_loop n s))) else Done n)"

definition atoi :: "string \<Rightarrow> int outcome" where "atoi s = atoi_loop 0 s"

definition umemmove :: "nat \<Rightarrow> nat \<Rightarrow> int \<Rightarrow> block \<Rightarrow> block" where
  "umemmove dst src n m = copy_up dst src (nat n) m"

subsection \<open>Numbers\<close>

definition upper_digits :: string where "upper_digits = ''0123456789ABCDEF''"
definition lower_digits :: string where "lower_digits = ''0123456789abcdef''"

text \<open>The buffer of \<open>printint\<close>: the digits from the last to the first. A base below 2 never occurs.\<close>

function int_buf :: "string \<Rightarrow> nat \<Rightarrow> nat \<Rightarrow> string" where
  "int_buf ds base x = (ds ! (x mod base)) #
     (if 2 \<le> base \<and> x div base \<noteq> 0 then int_buf ds base (x div base) else [])"
  by pat_completeness auto
termination
  by (relation "measure (\<lambda>(ds, base, x). x)") (auto simp: div_eq_0_iff)

declare int_buf.simps [simp del]

definition printint :: "string \<Rightarrow> u32 \<Rightarrow> nat \<Rightarrow> bool \<Rightarrow> string outcome" where
  "printint ds xx base sg =
    (let neg = (sg \<and> sint xx < 0) in
     bindO (if neg then bindO (cint (- sint xx)) (\<lambda>v. Done (word_of_int v)) else Done xx) (\<lambda>x :: u32.
       let buf = int_buf ds base (unat x);
           buf = (if neg then buf @ ''-'' else buf) in
       if length buf > 16 then Undef else Done (rev buf)))"

text \<open>
  \<open>printf\<close>: \<open>pct\<close> is whether the last character was an unconsumed \<open>%\<close>, \<open>ap\<close> the remaining arguments on
  the stack, \<open>str\<close> the string at an address.
\<close>

definition putc :: "char \<Rightarrow> string outcome \<Rightarrow> string outcome" where
  "putc c rest = bindO rest (\<lambda>r. Done (c # r))"

definition puts :: "string \<Rightarrow> string outcome \<Rightarrow> string outcome" where
  "puts s rest = bindO rest (\<lambda>r. Done (s @ r))"

fun printf_from :: "(u32 \<Rightarrow> string) \<Rightarrow> bool \<Rightarrow> string \<Rightarrow> u32 list \<Rightarrow> string outcome" where
  "printf_from str pct [] ap = Done []"
| "printf_from str pct (c # fmt) ap =
    (if \<not> pct then
       (if c = CHR ''%'' then printf_from str True fmt ap else putc c (printf_from str False fmt ap))
     else if c = CHR ''d'' then (case ap of [] \<Rightarrow> Undef
       | a # ap \<Rightarrow> bindO (printint upper_digits a 10 True) (\<lambda>d. puts d (printf_from str False fmt ap)))
     else if c = CHR ''x'' \<or> c = CHR ''p'' then (case ap of [] \<Rightarrow> Undef
       | a # ap \<Rightarrow> bindO (printint upper_digits a 16 False) (\<lambda>d. puts d (printf_from str False fmt ap)))
     else if c = CHR ''s'' then (case ap of [] \<Rightarrow> Undef
       | a # ap \<Rightarrow> puts (if a = 0 then ''(null)'' else str a) (printf_from str False fmt ap))
     else if c = CHR ''c'' then (case ap of [] \<Rightarrow> Undef
       | a # ap \<Rightarrow> putc (char_of (unat (ucast a :: byte))) (printf_from str False fmt ap))
     else if c = CHR ''%'' then putc c (printf_from str False fmt ap)
     else putc CHR ''%'' (putc c (printf_from str False fmt ap)))"

definition printf :: "(u32 \<Rightarrow> string) \<Rightarrow> string \<Rightarrow> u32 list \<Rightarrow> string outcome" where
  "printf str fmt ap = printf_from str False fmt ap"

subsection \<open>Lemmas\<close>

lemma upper_digit: "d < 10 \<Longrightarrow> upper_digits ! d = digit_char d"
proof -
  have "list_all (\<lambda>d. upper_digits ! d = digit_char d) [0..<10]"
    by code_simp
  then show "d < 10 \<Longrightarrow> upper_digits ! d = digit_char d"
    by (simp add: list_all_iff)
qed

lemma int_buf_decimal: "rev (int_buf upper_digits 10 x) = show_nat x"
proof (induction x rule: less_induct)
  case (less x)
  show ?case
  proof (cases "x < 10")
    case True
    then show ?thesis
      by (subst int_buf.simps, subst show_nat.simps) (simp add: upper_digit)
  next
    case False
    then have "x div 10 \<noteq> 0" "x div 10 < x"
      by (auto simp: div_eq_0_iff)
    then show ?thesis
      using False less [of "x div 10"] by (subst int_buf.simps, subst show_nat.simps) (simp add: upper_digit)
  qed
qed

lemma length_int_buf: "x < base ^ Suc k \<Longrightarrow> length (int_buf ds base x) \<le> Suc k"
proof (induction k arbitrary: x)
  case 0
  then show ?case
    by (subst int_buf.simps) simp
next
  case (Suc k)
  have "x div base < base ^ Suc k"
    using Suc.prems by (simp add: less_mult_imp_div_less mult.commute)
  then show ?case
    using Suc.IH [of "x div base"] by (subst int_buf.simps) simp
qed

lemma printint_eq:
  assumes "base = 10 \<or> base = 16"
  shows "printint ds xx base sg =
    (if sg \<and> sint xx < 0
     then if sint xx = - (2 ^ 31) then Undef else Done (''-'' @ rev (int_buf ds base (unat (- xx))))
     else Done (rev (int_buf ds base (unat xx))))"
proof -
  have "length (int_buf ds base (unat x)) \<le> 10" for x :: u32
    using length_int_buf [of "unat x" base 9 ds] unsigned_less [of x, where ?'a = nat] assms by auto
  from this [of xx] this [of "- xx"] show ?thesis
    using sint_greater_eq [of xx] by (auto simp: printint_def Let_def cint_def)
qed

lemma uchar_digit: "d < 10 \<Longrightarrow> uchar (digit_char d) = int d + 48"
  using digit_val_digit [of d] by (simp add: digit_val_def)

lemma atoi_loop_digits:
  "0 \<le> n \<Longrightarrow> n * 10 ^ length (show_nat x) + int x < 2 ^ 31 - 48 \<Longrightarrow>
     atoi_loop n (show_nat x @ s) = atoi_loop (n * 10 ^ length (show_nat x) + int x) s"
proof (induction x arbitrary: s rule: show_nat.induct)
  case (1 x)
  have digit: "atoi_loop m (digit_char d # s) = atoi_loop (m * 10 + int d) s"
    if "0 \<le> m" "d < 10" "m * 10 + int d < 2 ^ 31 - 48" for m d s
    using that uchar_digit [of d] by (simp add: cint_def)
  show ?case
  proof (cases "x < 10")
    case True
    then have "show_nat x = [digit_char x]"
      by (subst show_nat.simps) simp
    then show ?thesis
      using True 1(2,3) digit [of n x s] by (simp del: atoi_loop.simps)
  next
    case False
    define m where "m = x div 10"
    define b where "b = n * 10 ^ length (show_nat m) + int m"
    have x: "show_nat x = show_nat m @ [digit_char (x mod 10)]"
      using False by (subst show_nat.simps) (simp add: m_def)
    have "int x = int (x div 10) * 10 + int (x mod 10)"
      by presburger
    then have v: "n * 10 ^ length (show_nat x) + int x = b * 10 + int (x mod 10)"
      by (simp add: x b_def m_def algebra_simps)
    have b: "0 \<le> b" "b < 2 ^ 31 - 48"
      using 1(2,3) v by (simp_all add: b_def)
    have "atoi_loop n (show_nat m @ digit_char (x mod 10) # s) = atoi_loop b (digit_char (x mod 10) # s)"
      unfolding b_def by (rule 1(1) [OF False, folded m_def]) (use b 1(2) in \<open>simp_all add: b_def\<close>)
    also have "\<dots> = atoi_loop (b * 10 + int (x mod 10)) s"
      by (rule digit) (use b 1(3) v in simp_all)
    also have "\<dots> = atoi_loop (n * 10 ^ length (show_nat x) + int x) s"
      by (simp only: v)
    finally show ?thesis
      by (simp only: x append.assoc append_Cons append_Nil)
  qed
qed

lemma uint_eq_sint: "uint (x :: u32) = (if sint x < 0 then sint x + 2 ^ 32 else sint x)"
proof -
  have u: "uint x = sint x mod 2 ^ 32"
    by (subst uint_sint) (simp add: take_bit_eq_mod)
  have b: "- (2 ^ 31) \<le> sint x" "sint x < 2 ^ 31"
    using sint_greater_eq [of x] sint_less [of x] by simp_all
  show ?thesis
  proof (cases "sint x < 0")
    case True
    have "sint x mod 2 ^ 32 = (sint x + 2 ^ 32) mod 2 ^ 32"
      by simp
    also have "\<dots> = sint x + 2 ^ 32"
      using True b by (intro mod_pos_pos_trivial) simp_all
    finally show ?thesis
      using True u by simp
  next
    case False
    then show ?thesis
      using b u by (simp add: mod_pos_pos_trivial)
  qed
qed

lemma unat_neg:
  assumes "sint (x :: u32) < 0"
  shows "unat (- x) = nat (- sint x)"
proof -
  have "uint (- x) = (- uint x) mod 2 ^ 32"
    by (simp add: uint_word_ariths)
  also have "\<dots> = (- sint x + (-1) * 2 ^ 32) mod 2 ^ 32"
    using assms by (simp add: uint_eq_sint)
  also have "\<dots> = (- sint x) mod 2 ^ 32"
    by (rule mod_mult_self1)
  also have "\<dots> = - sint x"
    using assms sint_greater_eq [of x] by (intro mod_pos_pos_trivial) simp_all
  finally show ?thesis
    by (simp flip: nat_uint_eq)
qed

lemma unat_nonneg: "0 \<le> sint (x :: u32) \<Longrightarrow> unat x = nat (sint x)"
  by (simp add: uint_eq_sint flip: nat_uint_eq)

lemma uchar_0: "uchar c = 0 \<longleftrightarrow> c = nulc"
  using of_char_eq_iff [of c nulc, where ?'a = nat] by simp

lemma strcmp_0_iff:
  "nulc \<notin> set p \<Longrightarrow> nulc \<notin> set q \<Longrightarrow> strcmp p q = 0 \<longleftrightarrow> p = q"
  by (induction p q rule: strcmp.induct) (use uchar_0 in auto)

lemma printint_decimal_aux:
  "printint upper_digits xx 10 True = (if sint xx = - (2 ^ 31) then Undef else Done (show_int (sint xx)))"
  by (simp add: printint_eq int_buf_decimal show_int_def unat_neg unat_nonneg)

subsection \<open>Properties\<close>

text \<open>
  C24. \<open>printint\<close> in base 10 is equivalent to the decimal notation of its argument and never leaves its
  16-byte buffer, for every 32-bit integer but the smallest, whose negation overflows.
\<close>

theorem printint_decimal:
  "printint upper_digits xx 10 True = (if sint xx = - (2 ^ 31) then Undef else Done (show_int (sint xx)))"
  by (rule printint_decimal_aux)

text \<open>
  Round trip: \<open>atoi\<close> reads back what \<open>printint\<close> printed for a number from 0 up to
  \<open>2 ^ 31 - 49\<close> (beyond, the sum with the character code overflows an \<open>int\<close>).
\<close>

lemma atoi_reads_printint:
  assumes "0 \<le> sint xx" "sint xx < 2 ^ 31 - 48"
  shows "bindO (printint upper_digits xx 10 True) atoi = Done (sint xx)"
  using assms atoi_loop_digits [of 0 "nat (sint xx)" "[]"]
  by (simp add: printint_decimal_aux show_int_def atoi_def)

end
