(* ===== verification/Keyboard.thy ===== *)
theory Keyboard
  imports Prelude
begin

text \<open>
  The keyboard driver (\<open>kbd.c\<close>, \<open>kbd.h\<close>): scan codes to characters. The controller is the list of the
  codes it still holds; the status port says whether there is one. The modifier state \<open>shift\<close> is the
  static variable of \<open>kbdgetc\<close>.
\<close>

abbreviation (input) SHIFT :: u32 where "SHIFT \<equiv> 1"
abbreviation (input) CTL :: u32 where "CTL \<equiv> 2"
abbreviation (input) ALT :: u32 where "ALT \<equiv> 4"
abbreviation (input) CAPSLOCK :: u32 where "CAPSLOCK \<equiv> 8"
abbreviation (input) NUMLOCK :: u32 where "NUMLOCK \<equiv> 16"
abbreviation (input) SCROLLLOCK :: u32 where "SCROLLLOCK \<equiv> 32"
abbreviation (input) E0ESC :: u32 where "E0ESC \<equiv> 64"

definition shiftcode :: "nat \<Rightarrow> u32" where
  "shiftcode d = (if d = 0x1D then CTL else if d = 0x2A then SHIFT else if d = 0x36 then SHIFT
     else if d = 0x38 then ALT else if d = 0x9D then CTL else if d = 0xB8 then ALT else 0)"

definition togglecode :: "nat \<Rightarrow> u32" where
  "togglecode d = (if d = 0x3A then CAPSLOCK else if d = 0x45 then NUMLOCK
     else if d = 0x46 then SCROLLLOCK else 0)"

text \<open>A table with an initial segment and designated elements; the rest is 0.\<close>

definition keymap :: "nat list \<Rightarrow> (nat \<times> nat) list \<Rightarrow> nat \<Rightarrow> nat" where
  "keymap xs ys d = (case map_of ys d of Some c \<Rightarrow> c | None \<Rightarrow> if d < length xs then xs ! d else 0)"

definition key_codes :: "(nat \<times> nat) list" where
  "key_codes = [(0xC8, 0xE2), (0xD0, 0xE3), (0xC9, 0xE6), (0xD1, 0xE7), (0xCB, 0xE4), (0xCD, 0xE5),
     (0x97, 0xE0), (0xCF, 0xE1), (0xD2, 0xE8), (0xD3, 0xE9)]"

abbreviation chars :: "string \<Rightarrow> nat list" where "chars s \<equiv> map of_char s"

definition normalmap :: "nat \<Rightarrow> nat" where
  "normalmap = keymap ([0, 0x1B] @ chars ''1234567890-='' @ [8, 9] @ chars ''qwertyuiop[]'' @ [10, 0]
     @ chars ''asdfghjkl;'' @ [39] @ chars ''`'' @ [0, 92] @ chars ''zxcvbnm,./'' @ [0] @ chars ''*''
     @ [0] @ chars '' '' @ replicate 13 0 @ chars ''789-456+1230.'' @ replicate 4 0)
     ((0x9C, 10) # (0xB5, 47) # key_codes)"

definition shiftmap :: "nat \<Rightarrow> nat" where
  "shiftmap = keymap ([0, 27] @ chars ''!@#$%'' @ [0x5E] @ chars ''&*()_+'' @ [8, 9] @ chars ''QWERTYUIOP{}'' @ [10, 0]
     @ chars ''ASDFGHJKL:'' @ [34] @ chars ''~'' @ [0] @ chars ''|'' @ chars ''ZXCVBNM<>?'' @ [0] @ chars ''*''
     @ [0] @ chars '' '' @ replicate 13 0 @ chars ''789-456+1230.'' @ replicate 4 0)
     ((0x9C, 10) # (0xB5, 47) # key_codes)"

text \<open>\<open>C(x)\<close> in a table of \<open>uchar\<close>.\<close>

definition ctlc :: "char \<Rightarrow> nat" where "ctlc c = (of_char c + 192) mod 256"

definition ctlmap :: "nat \<Rightarrow> nat" where
  "ctlmap = keymap (replicate 16 0 @ map ctlc ''QWERTYUIOP'' @ [0, 0, 13, 0] @ map ctlc ''ASDFGHJKL'' @ [0, 0, 0, 0]
     @ [28] @ map ctlc ''ZXCVBNM'' @ [0, 0] @ map ctlc ''/'' @ [0, 0])
     ((0x9C, 13) # (0xB5, ctlc CHR ''/'') # key_codes)"

definition charcode :: "u32 \<Rightarrow> nat \<Rightarrow> nat" where
  "charcode i = (if i = 0 then normalmap else if i = 1 then shiftmap else ctlmap)"

definition kbdgetc :: "u32 \<Rightarrow> byte list \<Rightarrow> int \<times> u32 \<times> byte list" where
  "kbdgetc shift dat =
    (case dat of [] \<Rightarrow> (-1, shift, []) | b # rest \<Rightarrow>
     if b = 0xE0 then (0, shift OR E0ESC, rest)
     else if b AND 0x80 \<noteq> 0 then
       (let b = (if shift AND E0ESC \<noteq> 0 then b else b AND 0x7F) in
        (0, shift AND NOT (shiftcode (unat b) OR E0ESC), rest))
     else
       (let (b, shift) = (if shift AND E0ESC \<noteq> 0 then (b OR 0x80, shift AND NOT E0ESC) else (b, shift));
            shift = shift OR shiftcode (unat b);
            shift = shift XOR togglecode (unat b);
            c = charcode (shift AND (CTL OR SHIFT)) (unat b);
            c = (if shift AND CAPSLOCK \<noteq> 0 then
                   if 97 \<le> c \<and> c \<le> 122 then c - 32 else if 65 \<le> c \<and> c \<le> 90 then c + 32 else c
                 else c) in
        (int c, shift, rest)))"

text \<open>What \<open>kbdgetc\<close> returns until it returns -1, and the modifiers it leaves.\<close>

fun kbd_chars :: "u32 \<Rightarrow> byte list \<Rightarrow> int list \<times> u32" where
  "kbd_chars shift [] = ([], shift)"
| "kbd_chars shift (b # dat) =
    (let (c, shift, _) = kbdgetc shift [b]; (cs, shift) = kbd_chars shift dat in (c # cs, shift))"

lemma kbdgetc_Cons: "kbdgetc shift (b # dat) = (fst (kbdgetc shift [b]), fst (snd (kbdgetc shift [b])), dat)"
  by (simp add: kbdgetc_def Let_def)

lemma kbd_chars_append:
  "kbd_chars sh (xs @ ys) = (fst (kbd_chars sh xs) @ fst (kbd_chars (snd (kbd_chars sh xs)) ys),
     snd (kbd_chars (snd (kbd_chars sh xs)) ys))"
  by (induction xs arbitrary: sh) (simp_all add: Let_def split_beta)

subsection \<open>Typing\<close>

text \<open>
  The key of a character and the codes of a key stroke: press and release, held between a press and
  a release of the left shift key when the character is on the upper half of the key.
\<close>

definition keys :: "bool \<Rightarrow> (string \<times> nat) list \<Rightarrow> (char \<times> bool \<times> nat) list" where
  "keys shifted rows = concat (map (\<lambda>(cs, d). zip cs (map (Pair shifted) [d..<d + length cs])) rows)"

definition layout :: "(char \<times> bool \<times> nat) list" where
  "layout = keys False [(''1234567890-='', 0x02), (''qwertyuiop[]'' @ [CHR 0x0A], 0x10),
       (''asdfghjkl;'' @ [CHR 0x27] @ ''`'', 0x1E), (CHR 0x5C # ''zxcvbnm,./'', 0x2B), ('' '', 0x39)]
     @ keys True [(''!@#$%'' @ [CHR 0x5E] @ ''&*()_+'', 0x02), (''QWERTYUIOP{}'', 0x10),
       (''ASDFGHJKL:'' @ [CHR 0x22] @ ''~'', 0x1E), (''|ZXCVBNM<>?'', 0x2B)]"

definition key_of :: "char \<Rightarrow> (bool \<times> nat) option" where "key_of c = map_of layout c"

definition stroke :: "char \<Rightarrow> byte list" where
  "stroke c = (case key_of c of None \<Rightarrow> []
     | Some (False, d) \<Rightarrow> [of_nat d, of_nat d OR 0x80]
     | Some (True, d) \<Rightarrow> [0x2A, of_nat d, of_nat d OR 0x80, 0xAA])"

definition typeable :: "char \<Rightarrow> bool" where
  "typeable c \<longleftrightarrow> c = CHR 0x0A \<or> 32 \<le> (of_char c :: nat) \<and> (of_char c :: nat) < 127"

definition printable :: "nat list" where "printable = 10 # [32..<127]"

definition typed_chars :: "int list \<Rightarrow> string" where
  "typed_chars cs = map (\<lambda>c. char_of (nat c)) (filter (\<lambda>c. c \<noteq> 0) cs)"

lemma typed_chars_append [simp]: "typed_chars (xs @ ys) = typed_chars xs @ typed_chars ys"
  by (simp add: typed_chars_def)

lemma layout_complete: "set (map fst layout) = char_of ` set printable"
  by code_simp

text \<open>The tables with their elements written out.\<close>

lemma zeros: "replicate 13 (0 :: nat) = [0, 0, 0, 0, 0, 0, 0, 0, 0, 0, 0, 0, 0]" "replicate 4 (0 :: nat) = [0, 0, 0, 0]"
  by (simp_all add: numeral_eq_Suc)

lemma normalmap_codes: "normalmap = keymap
   [0, 27, 49, 50, 51, 52, 53, 54, 55, 56, 57, 48, 45, 61, 8, 9, 113, 119, 101, 114, 116, 121,
    117, 105, 111, 112, 91, 93, 10, 0, 97, 115, 100, 102, 103, 104, 106, 107, 108, 59, 39, 96, 0,
    92, 122, 120, 99, 118, 98, 110, 109, 44, 46, 47, 0, 42, 0, 32, 0, 0, 0, 0, 0, 0, 0, 0, 0, 0,
    0, 0, 0, 55, 56, 57, 45, 52, 53, 54, 43, 49, 50, 51, 48, 46, 0, 0, 0, 0]
   ((0x9C, 10) # (0xB5, 47) # key_codes)"
  by (simp add: normalmap_def zeros)

lemma shiftmap_codes: "shiftmap = keymap
   [0, 27, 33, 64, 35, 36, 37, 94, 38, 42, 40, 41, 95, 43, 8, 9, 81, 87, 69, 82, 84, 89, 85, 73,
    79, 80, 123, 125, 10, 0, 65, 83, 68, 70, 71, 72, 74, 75, 76, 58, 34, 126, 0, 124, 90, 88, 67,
    86, 66, 78, 77, 60, 62, 63, 0, 42, 0, 32, 0, 0, 0, 0, 0, 0, 0, 0, 0, 0, 0, 0, 0, 55, 56, 57,
    45, 52, 53, 54, 43, 49, 50, 51, 48, 46, 0, 0, 0, 0]
   ((0x9C, 10) # (0xB5, 47) # key_codes)"
  by (simp add: shiftmap_def zeros)

lemma layout_tables: "list_all (\<lambda>(c, sh, d). 0 < d \<and> d < 64 \<and> d \<notin> {0x1D, 0x2A, 0x36, 0x38, 0x3A} \<and>
    (if sh then shiftmap d else normalmap d) = of_char c) layout"
  by (simp add: layout_def keys_def upt_rec normalmap_codes shiftmap_codes keymap_def key_codes_def)

lemma code_words:
  assumes "d < 64"
  shows "(of_nat d :: byte) \<noteq> 0xE0" "(of_nat d :: byte) AND 0x80 = 0" "unat (of_nat d :: byte) = d"
    "(of_nat d :: byte) OR 0x80 \<noteq> 0xE0" "(of_nat d OR 0x80 :: byte) AND 0x80 \<noteq> 0"
    "(of_nat d OR 0x80 :: byte) AND 0x7F = of_nat d"
proof -
  have "list_all (\<lambda>d. let b = of_nat d :: byte in b \<noteq> 0xE0 \<and> b AND 0x80 = 0 \<and> unat b = d \<and> b OR 0x80 \<noteq> 0xE0
      \<and> (b OR 0x80) AND 0x80 \<noteq> 0 \<and> (b OR 0x80) AND 0x7F = b) [0..<64]"
    by code_simp
  then have "let b = of_nat d :: byte in b \<noteq> 0xE0 \<and> b AND 0x80 = 0 \<and> unat b = d \<and> b OR 0x80 \<noteq> 0xE0
      \<and> (b OR 0x80) AND 0x80 \<noteq> 0 \<and> (b OR 0x80) AND 0x7F = b"
    unfolding list_all_iff by (rule bspec) (use assms in \<open>simp only: set_upt atLeastLessThan_iff le0 simp_thms\<close>)
  then show "(of_nat d :: byte) \<noteq> 0xE0" "(of_nat d :: byte) AND 0x80 = 0" "unat (of_nat d :: byte) = d"
    "(of_nat d :: byte) OR 0x80 \<noteq> 0xE0" "(of_nat d OR 0x80 :: byte) AND 0x80 \<noteq> 0"
    "(of_nat d OR 0x80 :: byte) AND 0x7F = of_nat d"
    unfolding Let_def by blast+
qed

text \<open>A key press and a key release of an ordinary key, without modifiers and with Shift.\<close>

lemma plain_key:
  assumes "d < 64" "d \<notin> {0x1D, 0x2A, 0x36, 0x38, 0x3A}"
  shows "kbdgetc 0 [of_nat d] = (int (normalmap d), 0, [])"
    "kbdgetc 1 [of_nat d] = (int (shiftmap d), 1, [])"
    "kbdgetc 0 [of_nat d OR 0x80] = (0, 0, [])"
    "kbdgetc 1 [of_nat d OR 0x80] = (0, 1, [])"
  using assms code_words [OF assms(1)]
  by (simp_all add: kbdgetc_def shiftcode_def togglecode_def charcode_def)

lemma shift_key: "kbdgetc 0 [0x2A] = (0, 1, [])" "kbdgetc 1 [0xAA] = (0, 0, [])"
  by code_simp+

lemma stroke_typed:
  assumes "typeable c"
  shows "snd (kbd_chars 0 (stroke c)) = 0" "typed_chars (fst (kbd_chars 0 (stroke c))) = [c]"
    "\<forall>k\<in>set (fst (kbd_chars 0 (stroke c))). 0 \<le> k \<and> k < 256"
proof -
  have "of_char c \<in> set printable"
    using assms unfolding printable_def list.set set_upt by (auto simp: typeable_def)
  then have "char_of (of_char c :: nat) \<in> set (map fst layout)"
    unfolding layout_complete by (rule imageI)
  then obtain sh d where k: "key_of c = Some (sh, d)"
    by (cases "map_of layout c") (auto simp: key_of_def map_of_eq_None_iff)
  then have "(c, sh, d) \<in> set layout"
    by (simp add: key_of_def map_of_SomeD)
  then have d: "d < 64" "d \<notin> {0x1D, 0x2A, 0x36, 0x38, 0x3A}" "(if sh then shiftmap d else normalmap d) = of_char c"
    using layout_tables by (auto simp: list_all_iff)
  have "of_char c \<noteq> (0 :: nat)"
    using assms by (auto simp: typeable_def)
  moreover have "of_char c < (256 :: nat)"
    using of_char_of [of "of_char c :: nat"] by simp
  ultimately show "snd (kbd_chars 0 (stroke c)) = 0" "typed_chars (fst (kbd_chars 0 (stroke c))) = [c]"
    "\<forall>k\<in>set (fst (kbd_chars 0 (stroke c))). 0 \<le> k \<and> k < 256"
    using k d plain_key [OF d(1,2)] shift_key
    by (cases sh; simp add: stroke_def typed_chars_def)+
qed

lemma strokes_typed:
  assumes "\<forall>c\<in>set s. typeable c"
  shows "typed_chars (fst (kbd_chars 0 (concat (map stroke s)))) = s \<and> snd (kbd_chars 0 (concat (map stroke s))) = 0
    \<and> (\<forall>k\<in>set (fst (kbd_chars 0 (concat (map stroke s)))). 0 \<le> k \<and> k < 256)"
  using assms
proof (induction s)
  case (Cons c s)
  then show ?case
    using stroke_typed [of c] by (auto simp: kbd_chars_append)
qed (simp add: typed_chars_def)

lemma typed_chars_codes:
  assumes "\<forall>k\<in>set cs. 0 \<le> k \<and> k < 256"
  shows "filter (\<lambda>k. k \<noteq> 0) cs = map of_char (typed_chars cs)"
proof -
  have "of_char (char_of (nat k) :: char) = k" if "0 \<le> k" "k < 256" for k :: int
  proof -
    have "(of_char (char_of (nat k) :: char) :: nat) = nat k"
      unfolding of_char_of by (rule mod_less) (use that in linarith)
    then show ?thesis
      using that by (metis int_nat_eq of_nat_of_char)
  qed
  then show ?thesis
    using assms by (induction cs) (auto simp: typed_chars_def)
qed

text \<open>
  Round trip: the scan codes of typing any text of printable characters and newlines are decoded
  to that text, and leave no modifier set.
\<close>

lemma typing_decodes:
  assumes "\<forall>c\<in>set s. typeable c"
  shows "typed_chars (fst (kbd_chars 0 (concat (map stroke s)))) = s \<and> snd (kbd_chars 0 (concat (map stroke s))) = 0"
  using strokes_typed [OF assms] by blast

end
