(* ===== verification/Console.thy ===== *)
theory Console
  imports UserLib Ring Proc Keyboard
begin

text \<open>
  The console (\<open>console.c\<close>), its keyboard and its serial port (\<open>uart.c\<close>). The screen is CGA memory:
  the cell of row \<open>r\<close> and column \<open>c\<close> is \<open>crt (80 * r + c)\<close>; \<open>cga_pos\<close> is the cursor register of
  the device. What goes out on the serial line is collected in \<open>serial\<close>. The input buffer is a ring
  with free-running 32-bit indices.
\<close>

record console =
  crt :: "nat \<Rightarrow> u16"
  cga_pos :: u16
  uart_on :: bool
  serial :: "byte list"
  panicked :: bool
  locking :: bool
  in_buf :: "nat \<Rightarrow> byte"
  in_r :: u32
  in_w :: u32
  in_e :: u32

abbreviation BACKSPACE :: int where "BACKSPACE \<equiv> 0x100"
abbreviation INPUT_BUF :: nat where "INPUT_BUF \<equiv> 128"

subsection \<open>Output\<close>

definition uartputc :: "int \<Rightarrow> console \<Rightarrow> console" where
  "uartputc c s = (if \<not> uart_on s then s else s\<lparr>serial := serial s @ [word_of_int c]\<rparr>)"

text \<open>\<open>memmove(crt, crt+80, ...)\<close> of 23 rows, and \<open>memset\<close> from \<open>pos\<close> to the end of row 23.\<close>

definition scroll :: "nat \<Rightarrow> (nat \<Rightarrow> u16) \<Rightarrow> nat \<Rightarrow> u16" where
  "scroll pos f = (\<lambda>i. if pos \<le> i \<and> i < 24 * 80 then 0 else if i < 23 * 80 then f (i + 80) else f i)"

text \<open>\<open>cga_finish\<close> is the part of \<open>cgaputc\<close> after the character: bounds check, scrolling, cursor.\<close>

definition cga_finish :: "int \<Rightarrow> (nat \<Rightarrow> u16) \<Rightarrow> console \<Rightarrow> console outcome" where
  "cga_finish pos f s =
    (if pos < 0 \<or> pos > 25 * 80 then Panic ''pos under/overflow''
     else let (pos, f) = (if pos div 80 \<ge> 24 then (pos - 80, scroll (nat (pos - 80)) f) else (pos, f))
          in Done (s\<lparr>cga_pos := word_of_int pos, crt := f(nat pos := 0x0720)\<rparr>))"

definition cgaputc :: "int \<Rightarrow> console \<Rightarrow> console outcome" where
  "cgaputc c s =
    (let pos = uint (cga_pos s) in
     if c = 10 then cga_finish (pos + (80 - pos mod 80)) (crt s) s
     else if c = BACKSPACE then cga_finish (if pos > 0 then pos - 1 else pos) (crt s) s
     else cga_finish (pos + 1) ((crt s)(nat pos := (word_of_int c AND 0xff) OR 0x0700)) s)"

text \<open>After a panic \<open>consputc\<close> never returns.\<close>

definition consputc :: "int \<Rightarrow> console \<Rightarrow> console outcome" where
  "consputc c s =
    (if panicked s then Sleeps
     else cgaputc c (if c = BACKSPACE then uartputc 8 (uartputc 32 (uartputc 8 s)) else uartputc c s))"

definition schar :: "char \<Rightarrow> int" where
  "schar c = (if (of_char c :: nat) < 128 then of_char c else of_char c - 256)"

text \<open>The kernel's \<open>printint\<close> differs from the library's in its digits and in where they go.\<close>

definition kprintint :: "u32 \<Rightarrow> nat \<Rightarrow> bool \<Rightarrow> console \<Rightarrow> console outcome" where
  "kprintint xx base sg s =
    bindO (printint lower_digits xx base sg) (\<lambda>d. foldO consputc (map schar d) s)"

fun cprintf_from :: "(u32 \<Rightarrow> string) \<Rightarrow> string \<Rightarrow> u32 list \<Rightarrow> console \<Rightarrow> console outcome" where
  "cprintf_from str [] ap s = Done s"
| "cprintf_from str [c] ap s = (if c \<noteq> CHR ''%'' then consputc (uchar c) s else Done s)"
| "cprintf_from str (c # d # fmt) ap s =
    (if c \<noteq> CHR ''%'' then bindO (consputc (uchar c) s) (cprintf_from str (d # fmt) ap)
     else if d = CHR ''d'' then (case ap of [] \<Rightarrow> Undef
       | a # ap \<Rightarrow> bindO (kprintint a 10 True s) (cprintf_from str fmt ap))
     else if d = CHR ''x'' \<or> d = CHR ''p'' then (case ap of [] \<Rightarrow> Undef
       | a # ap \<Rightarrow> bindO (kprintint a 16 False s) (cprintf_from str fmt ap))
     else if d = CHR ''s'' then (case ap of [] \<Rightarrow> Undef
       | a # ap \<Rightarrow> bindO (foldO consputc (map schar (if a = 0 then ''(null)'' else str a)) s) (cprintf_from str fmt ap))
     else if d = CHR ''%'' then bindO (consputc 37 s) (cprintf_from str fmt ap)
     else bindO (consputc 37 s) (\<lambda>s. bindO (consputc (uchar d) s) (cprintf_from str fmt ap)))"

definition cprintf :: "(u32 \<Rightarrow> string) \<Rightarrow> string option \<Rightarrow> u32 list \<Rightarrow> console \<Rightarrow> console outcome" where
  "cprintf str fmt ap s = (case fmt of None \<Rightarrow> Panic ''null fmt'' | Some fmt \<Rightarrow> cprintf_from str fmt ap s)"

text \<open>
  What \<open>panic\<close> prints before it stops the machine: the processor, the message (as a format) and the
  ten return addresses \<open>pcs\<close>.
\<close>

definition panic_prints :: "u32 \<Rightarrow> u32 list \<Rightarrow> string \<Rightarrow> console \<Rightarrow> console outcome" where
  "panic_prints apicid pcs m s =
    bindO (cprintf (\<lambda>_. []) (Some ''cpu with apicid %d: panic: '') [apicid] (s\<lparr>locking := False\<rparr>)) (\<lambda>s.
    bindO (cprintf (\<lambda>_. []) (Some m) [] s) (\<lambda>s.
    bindO (cprintf (\<lambda>_. []) (Some [CHR 0x0A]) [] s) (\<lambda>s.
    bindO (foldO (\<lambda>i. cprintf (\<lambda>_. []) (Some '' %p'') [pcs ! i]) [0..<10] s) (\<lambda>s.
    Done (s\<lparr>panicked := True\<rparr>)))))"

subsection \<open>Line editing\<close>

definition input_last :: "console \<Rightarrow> byte" where
  "input_last s = in_buf s (unat (in_e s - 1) mod INPUT_BUF)"

lemma cga_finish_input:
  "cga_finish pos f s = Done t \<Longrightarrow> in_buf t = in_buf s \<and> in_r t = in_r s \<and> in_w t = in_w s \<and> in_e t = in_e s"
  by (auto simp: cga_finish_def Let_def split_beta split: if_splits)

lemma cgaputc_input: "cgaputc c s = Done t \<Longrightarrow> in_buf t = in_buf s \<and> in_r t = in_r s \<and> in_w t = in_w s \<and> in_e t = in_e s"
  by (auto simp: cgaputc_def Let_def dest!: cga_finish_input split: if_splits)

lemma consputc_input: "consputc c s = Done t \<Longrightarrow> in_buf t = in_buf s \<and> in_r t = in_r s \<and> in_w t = in_w s \<and> in_e t = in_e s"
  by (auto simp: consputc_def uartputc_def dest!: cgaputc_input split: if_splits)

text \<open>The loop of Control-U: it ends because the edit index moves towards the write index.\<close>

function kill_line :: "console \<Rightarrow> console outcome" where
  "kill_line s =
    (if in_e s \<noteq> in_w s \<and> input_last s \<noteq> 10 then
       bindO (consputc BACKSPACE (s\<lparr>in_e := in_e s - 1\<rparr>)) kill_line
     else Done s)"
  by pat_completeness auto
termination
proof (relation "measure (\<lambda>s. unat (in_e s - in_w s))", goal_cases)
  case (2 s t)
  have "in_e t - in_w t = in_e s - in_w s - 1"
    using consputc_input [OF 2(2)] by simp
  moreover have "in_e s - in_w s \<noteq> 0"
    using 2(1) by simp
  ultimately show ?case
    by (simp add: unat_minus_one unat_gt_0)
qed simp

declare kill_line.simps [simp del]

text \<open>One turn of \<open>consoleintr\<close>; \<open>a\<close> is the address of \<open>input.r\<close>, the channel readers sleep on.\<close>

type_synonym intr_state = "bool \<times> console \<times> pst"

definition intr_char :: "u32 \<Rightarrow> int \<Rightarrow> intr_state \<Rightarrow> intr_state outcome" where
  "intr_char a c = (\<lambda>(dump, s, p).
    if c = 0x10 then Done (True, s, p)
    else if c = 0x15 then bindO (kill_line s) (\<lambda>s. Done (dump, s, p))
    else if c = 8 \<or> c = 0x7F then
      if in_e s \<noteq> in_w s then bindO (consputc BACKSPACE (s\<lparr>in_e := in_e s - 1\<rparr>)) (\<lambda>s. Done (dump, s, p))
      else Done (dump, s, p)
    else if c \<noteq> 0 \<and> unat (in_e s - in_r s) < INPUT_BUF then
      let c = (if c = 13 then 10 else c);
          s = s\<lparr>in_buf := (in_buf s)(unat (in_e s) mod INPUT_BUF := word_of_int c), in_e := in_e s + 1\<rparr> in
      bindO (consputc c s) (\<lambda>s.
        if c = 10 \<or> c = 4 \<or> in_e s = in_r s + of_nat INPUT_BUF
        then Done (dump, s\<lparr>in_w := in_e s\<rparr>, wakeup (AddrChan a) p)
        else Done (dump, s, p))
    else Done (dump, s, p))"

text \<open>\<open>cs\<close> is what the calls of \<open>getc\<close> return; the result says whether \<open>procdump\<close> is called.\<close>

fun intr_loop :: "u32 \<Rightarrow> int list \<Rightarrow> intr_state \<Rightarrow> intr_state outcome" where
  "intr_loop a [] st = Done st"
| "intr_loop a (c # cs) st = (if c < 0 then Done st else bindO (intr_char a c st) (intr_loop a cs))"

definition consoleintr :: "u32 \<Rightarrow> int list \<Rightarrow> console \<Rightarrow> pst \<Rightarrow> intr_state outcome" where
  "consoleintr a cs s p = intr_loop a cs (False, s, p)"

definition kbdintr :: "u32 \<Rightarrow> u32 \<Rightarrow> byte list \<Rightarrow> console \<Rightarrow> pst \<Rightarrow> (u32 \<times> intr_state) outcome" where
  "kbdintr a shift dat s p =
    (let (cs, shift) = kbd_chars shift dat in bindO (consoleintr a cs s p) (\<lambda>st. Done (shift, st)))"

definition uartgetc :: "byte list \<Rightarrow> console \<Rightarrow> int \<times> byte list" where
  "uartgetc dat s = (if \<not> uart_on s then (-1, dat) else case dat of [] \<Rightarrow> (-1, []) | b # dat \<Rightarrow> (uint b, dat))"

definition uartintr :: "u32 \<Rightarrow> byte list \<Rightarrow> console \<Rightarrow> pst \<Rightarrow> intr_state outcome" where
  "uartintr a dat s p = consoleintr a (if uart_on s then map uint dat else []) s p"

subsection \<open>Reading and writing\<close>

text \<open>
  \<open>console_read\<close> is the loop of \<open>consoleread\<close> when \<open>n\<close> of \<open>target\<close> bytes are still wanted: it returns
  \<open>CRet\<close>, or goes to sleep with \<open>CSleep n\<close> and is called again with that \<open>n\<close> when it wakes up.
  \<open>kd\<close> is \<open>proc->killed\<close>.
\<close>

datatype console_result = CRet int | CSleep nat

fun console_read :: "bool \<Rightarrow> nat \<Rightarrow> nat \<Rightarrow> block \<Rightarrow> console \<Rightarrow> (console_result \<times> block) \<times> console" where
  "console_read kd target 0 dst s = ((CRet (int target), dst), s)"
| "console_read kd target (Suc n) dst s =
    (if in_r s = in_w s then ((if kd then CRet (-1) else CSleep (Suc n), dst), s)
     else let c = in_buf s (unat (in_r s) mod INPUT_BUF); t = s\<lparr>in_r := in_r s + 1\<rparr> in
       if c = 4 then
         let t = (if Suc n < target then t\<lparr>in_r := in_r t - 1\<rparr> else t) in
         ((CRet (int target - int (Suc n)), dst), t)
       else
         let dst = dst(target - Suc n := c) in
         if c = 10 then ((CRet (int target - int n), dst), t) else console_read kd target n dst t)"

definition consoleread_resume ::
  "bool \<Rightarrow> nat \<Rightarrow> nat \<Rightarrow> nat \<Rightarrow> block \<Rightarrow> console \<Rightarrow> kst \<Rightarrow> ((console_result \<times> block) \<times> console \<times> kst) outcome" where
  "consoleread_resume kd ip target n dst s k =
    (case console_read kd target n dst s of
       ((CSleep m, dst), s) \<Rightarrow> Done ((CSleep m, dst), s, k)
     | ((CRet v, dst), s) \<Rightarrow> bindO (ilock ip k) (\<lambda>k. Done ((CRet v, dst), s, k)))"

definition consoleread ::
  "bool \<Rightarrow> nat \<Rightarrow> block \<Rightarrow> int \<Rightarrow> console \<Rightarrow> kst \<Rightarrow> ((console_result \<times> block) \<times> console \<times> kst) outcome" where
  "consoleread kd ip dst n s k =
    bindO (iunlock ip k) (\<lambda>k. consoleread_resume kd ip (nat n) (nat n) dst s k)"

definition consolewrite :: "nat \<Rightarrow> block \<Rightarrow> int \<Rightarrow> console \<Rightarrow> kst \<Rightarrow> (int \<times> console \<times> kst) outcome" where
  "consolewrite ip src n s k =
    bindO (iunlock ip k) (\<lambda>k.
    bindO (foldO (\<lambda>i. consputc (uint (src i))) [0..<nat n] s) (\<lambda>s.
    bindO (ilock ip k) (\<lambda>k. Done (n, s, k))))"

end
