(* ===== verification/Trap.thy ===== *)
theory Trap
  imports Exec Console
begin

text \<open>
  Traps and system calls (\<open>trap.c\<close>, \<open>syscall.c\<close>, \<open>sysproc.c\<close> and the files of the added calls) on one CPU.
  The process calls work on the process table, the file calls on the storage state with the caller's view of
  its memory and files. A call or a trap that gives up the CPU returns the point at which it goes on; \<open>trap_resumed\<close>
  is the rest of it. These are the waits for children, threads, ticks and pipes, \<open>yield\<close> and the preemption by
  the clock. A wait for a sleep lock, for room in the log, for the disk or in a device is the outcome \<open>Sleeps\<close> of the
  file call, with no way to go on. \<open>procdump\<close>, which the keyboard may ask for, and the wakeups of \<open>pipeclose\<close> are left out.
\<close>

subsection \<open>State\<close>

text \<open>\<open>kshift\<close> is the static variable \<open>shift\<close> of \<open>kbdgetc\<close>.\<close>

record machine =
  ps :: pst
  con :: console
  kshift :: u32

text \<open>
  What the handlers find outside: the device switch, the addresses of \<open>input.r\<close>, \<open>ticks\<close> and of the two counters of
  each pipe, the bytes that the keyboard or serial controller holds, and the page fault address.
\<close>

record trap_env =
  te_devsw :: devsw
  te_input :: u32
  te_ticks :: u32
  te_nread :: "nat \<Rightarrow> u32"
  te_nwrite :: "nat \<Rightarrow> u32"
  te_data :: "byte list"
  te_cr2 :: u32

definition with_ps :: "(pst \<Rightarrow> ('a \<times> pst) outcome) \<Rightarrow> machine \<Rightarrow> ('a \<times> machine) outcome" where
  "with_ps f m = bindS (f (ps m)) (\<lambda>a s. Done (a, m\<lparr>ps := s\<rparr>))"

definition print_to :: "(u32 \<Rightarrow> string) \<Rightarrow> string \<Rightarrow> u32 list \<Rightarrow> machine \<Rightarrow> machine outcome" where
  "print_to str fmt args m = bindO (cprintf str (Some fmt) args (con m)) (\<lambda>s. Done (m\<lparr>con := s\<rparr>))"

text \<open>Bytes up to the first 0 as the string that \<open>%s\<close> prints; \<open>n\<close> bounds its length.\<close>

definition c_text :: "nat \<Rightarrow> block \<Rightarrow> string" where
  "c_text n b = map (\<lambda>x. char_of (unat x)) (takeWhile (\<lambda>x. x \<noteq> 0) (map b [0..<n]))"

subsection \<open>The caller's view\<close>

text \<open>The storage state as process \<open>c\<close> sees it, and the effect of a call on it back in the process and its pages.\<close>

definition user_view :: "nat \<Rightarrow> pst \<Rightarrow> kst" where
  "user_view c s = (let x = procs s c in (io s)\<lparr>curpid := pr_pid x, ofile := pr_ofile x, killed := pr_killed x,
     cwd := (case pr_cwd x of None \<Rightarrow> 0 | Some ip \<Rightarrow> ip),
     umem := (\<lambda>va. case user_ka (pr_pgdir x) va (mm s) of None \<Rightarrow> 0 | Some a \<Rightarrow> kmem (mm s) a),
     usz := pr_sz x, uesp := tf_esp (pr_tf x)\<rparr>)"

definition put_user :: "u32 \<Rightarrow> nat \<Rightarrow> (u32 \<Rightarrow> byte) \<Rightarrow> mst \<Rightarrow> mst" where
  "put_user pgdir n um m =
    m\<lparr>kmem := fold (\<lambda>i f. case user_ka pgdir (of_nat i) m of None \<Rightarrow> f | Some a \<Rightarrow> f(a := um (of_nat i))) [0..<n] (kmem m)\<rparr>"

definition user_back :: "nat \<Rightarrow> kst \<Rightarrow> pst \<Rightarrow> pst" where
  "user_back c k s =
    upd_proc c (\<lambda>x. x\<lparr>pr_ofile := ofile k, pr_cwd := map_option (\<lambda>_. cwd k) (pr_cwd x)\<rparr>)
      (s\<lparr>io := k, mm := put_user (pr_pgdir (procs s c)) (unat (pr_sz (procs s c))) (umem k) (mm s)\<rparr>)"

subsection \<open>Calls that may wait\<close>

text \<open>Where a process that gave up the CPU goes on, with the values its frame holds there.\<close>

datatype wait_point = InWait | InJoin int u32 u32 | InSleep u32 u32 | InPipeRead nat u32 int | InPipeWrite nat u32 nat int
  | InYield | Preempted bool

datatype call_result = Ret int | Waits wait_point | Gone

type_synonym call = "pst \<Rightarrow> (call_result \<times> pst) outcome"

definition returning :: "(pst \<Rightarrow> (int \<times> pst) outcome) \<Rightarrow> call" where
  "returning f s = bindS (f s) (\<lambda>r s. Done (Ret r, s))"

definition file_call :: "(kst \<Rightarrow> (int \<times> kst) outcome) \<Rightarrow> nat \<Rightarrow> call" where
  "file_call f c s = bindS (f (user_view c s)) (\<lambda>r k. Done (Ret r, user_back c k s))"

definition int_arg :: "nat \<Rightarrow> nat \<Rightarrow> pst \<Rightarrow> int option" where
  "int_arg n c s = map_option sint (argint n (user_view c s))"

subsection \<open>Reading and writing pipes\<close>

text \<open>One turn of \<open>piperead\<close> or \<open>pipewrite\<close> on pipe \<open>pi\<close>, with its wakeups and its sleep.\<close>

definition pipe_chan_at :: "trap_env \<Rightarrow> nat \<Rightarrow> pipe_chan \<Rightarrow> chan" where
  "pipe_chan_at e pi ch = AddrChan (case ch of Nread \<Rightarrow> te_nread e pi | Nwrite \<Rightarrow> te_nwrite e pi)"

definition wake_pipe :: "trap_env \<Rightarrow> nat \<Rightarrow> pipe_chan list \<Rightarrow> pst \<Rightarrow> pst" where
  "wake_pipe e pi chs s = fold (\<lambda>ch. wakeup (pipe_chan_at e pi ch)) chs s"

definition set_pipe :: "nat \<Rightarrow> kpipe \<Rightarrow> pst \<Rightarrow> pst" where
  "set_pipe pi p s = s\<lparr>io := (io s)\<lparr>pipes := (pipes (io s))(pi := p)\<rparr>\<rparr>"

definition pipe_read_from :: "trap_env \<Rightarrow> nat \<Rightarrow> u32 \<Rightarrow> int \<Rightarrow> nat \<Rightarrow> call" where
  "pipe_read_from e pi p n c s =
    (case piperead (pr_killed (procs s c)) (ubuf p (user_view c s)) n (pipes (io s) pi) of
       ((PRet r, ch, d), q) \<Rightarrow> let s = set_pipe pi q s in
         Done (Ret r, wake_pipe e pi ch (user_back c (uput p (nat n) d (user_view c s)) s))
     | ((PSleep i, ch, d), q) \<Rightarrow>
         bindO (sleep (pipe_chan_at e pi Nread) c (wake_pipe e pi ch (set_pipe pi q s))) (\<lambda>s. Done (Waits (InPipeRead pi p n), s)))"

definition pipe_write_from :: "trap_env \<Rightarrow> nat \<Rightarrow> u32 \<Rightarrow> nat \<Rightarrow> int \<Rightarrow> nat \<Rightarrow> call" where
  "pipe_write_from e pi p i n c s =
    (case pipewrite (pr_killed (procs s c)) (ubuf p (user_view c s)) i n (pipes (io s) pi) of
       ((PRet r, ch), q) \<Rightarrow> Done (Ret r, wake_pipe e pi ch (set_pipe pi q s))
     | ((PSleep j, ch), q) \<Rightarrow>
         bindO (sleep (pipe_chan_at e pi Nwrite) c (wake_pipe e pi ch (set_pipe pi q s))) (\<lambda>s. Done (Waits (InPipeWrite pi p j n), s)))"

text \<open>The file, the buffer and the count of \<open>sys_read\<close> and \<open>sys_write\<close>; files that are pipes are read and written here.\<close>

definition rw_args :: "kst \<Rightarrow> (nat \<times> u32 \<times> int) option" where
  "rw_args k =
    (case (argfd 0 k, argint 2 k) of
       (Some (_, f), Some w) \<Rightarrow> map_option (\<lambda>p. (f, p, sint w)) (argptr 1 (sint w) k)
     | _ \<Rightarrow> None)"

definition read_call :: "trap_env \<Rightarrow> nat \<Rightarrow> call" where
  "read_call e c s =
    (case rw_args (user_view c s) of
       None \<Rightarrow> Done (Ret (-1), s)
     | Some (f, p, n) \<Rightarrow>
         if f_readable (ftable (io s) f) \<and> f_type (ftable (io s) f) = FD_PIPE then pipe_read_from e (f_pipe (ftable (io s) f)) p n c s
         else file_call (sys_read (te_devsw e)) c s)"

definition write_call :: "trap_env \<Rightarrow> nat \<Rightarrow> call" where
  "write_call e c s =
    (case rw_args (user_view c s) of
       None \<Rightarrow> Done (Ret (-1), s)
     | Some (f, p, n) \<Rightarrow>
         if f_writable (ftable (io s) f) \<and> f_type (ftable (io s) f) = FD_PIPE then pipe_write_from e (f_pipe (ftable (io s) f)) p 0 n c s
         else file_call (sys_write (te_devsw e)) c s)"

subsection \<open>Process calls\<close>

definition sys_fork :: "nat \<Rightarrow> call" where
  "sys_fork c = returning (fork c)"

text \<open>\<open>argptr\<close> stores the first argument through the uninitialised variable \<open>func\<close>.\<close>

definition sys_clone :: "nat \<Rightarrow> call" where
  "sys_clone c s = (case argptr 0 4 (user_view c s) of None \<Rightarrow> Done (Ret (-1), s) | Some _ \<Rightarrow> Undef)"

definition join_from :: "int \<Rightarrow> u32 \<Rightarrow> u32 \<Rightarrow> nat \<Rightarrow> call" where
  "join_from tid stack retval c s =
    bindS (join tid c s) (\<lambda>r s.
      case r of
        None \<Rightarrow> Done (Waits (InJoin tid stack retval), s)
      | Some (pid, ust, rv) \<Rightarrow>
          if pid = -1 then Done (Ret (-1), s)
          else let d = pr_pgdir (procs s c) in
            bindO (user_store32 d stack ust (mm s)) (\<lambda>m.
            bindO (user_store32 d retval rv m) (\<lambda>m. Done (Ret pid, s\<lparr>mm := m\<rparr>))))"

definition sys_join :: "nat \<Rightarrow> call" where
  "sys_join c s =
    (case (int_arg 0 c s, argptr 1 4 (user_view c s), argptr 2 4 (user_view c s)) of
       (Some tid, Some stack, Some retval) \<Rightarrow> join_from tid stack retval c s
     | _ \<Rightarrow> Done (Ret (-1), s))"

definition sys_thexit :: "nat \<Rightarrow> call" where
  "sys_thexit c s = bindO (thexit c s) (\<lambda>s. Done (Gone, s))"

definition sys_exit :: "nat \<Rightarrow> call" where
  "sys_exit c s = bindO (exit c s) (\<lambda>s. Done (Gone, s))"

definition sys_wait :: "nat \<Rightarrow> call" where
  "sys_wait c s = bindS (wait c s) (\<lambda>r s. Done (case r of None \<Rightarrow> Waits InWait | Some v \<Rightarrow> Ret v, s))"

definition sys_kill :: "nat \<Rightarrow> call" where
  "sys_kill c s = (case int_arg 0 c s of None \<Rightarrow> Done (Ret (-1), s) | Some pid \<Rightarrow> (case kill pid s of (r, s) \<Rightarrow> Done (Ret r, s)))"

definition sys_getpid :: "nat \<Rightarrow> call" where
  "sys_getpid c s = Done (Ret (pr_pid (procs s c)), s)"

definition sys_getppid :: "nat \<Rightarrow> call" where
  "sys_getppid c s = (case pr_parent (procs s c) of None \<Rightarrow> Undef | Some p \<Rightarrow> Done (Ret (pr_pid (procs s p)), s))"

definition sys_sbrk :: "nat \<Rightarrow> call" where
  "sys_sbrk c s =
    (case int_arg 0 c s of
       None \<Rightarrow> Done (Ret (-1), s)
     | Some n \<Rightarrow> let addr = sint (pr_sz (procs s c)) in
         bindS (growproc n c s) (\<lambda>r s. Done (Ret (if r < 0 then -1 else addr), s)))"

text \<open>The loop of \<open>sys_sleep\<close> compares unsigned; \<open>a\<close> is the address of \<open>ticks\<close>.\<close>

definition sleep_from :: "u32 \<Rightarrow> u32 \<Rightarrow> u32 \<Rightarrow> nat \<Rightarrow> call" where
  "sleep_from a ticks0 n c s =
    (if ticks s - ticks0 < n then
       if pr_killed (procs s c) then Done (Ret (-1), s)
       else bindO (sleep (AddrChan a) c s) (\<lambda>s. Done (Waits (InSleep ticks0 n), s))
     else Done (Ret 0, s))"

definition sys_sleep :: "u32 \<Rightarrow> nat \<Rightarrow> call" where
  "sys_sleep a c s = (case int_arg 0 c s of None \<Rightarrow> Done (Ret (-1), s) | Some n \<Rightarrow> sleep_from a (ticks s) (word_of_int n) c s)"

definition sys_uptime :: call where
  "sys_uptime s = Done (Ret (sint (ticks s)), s)"

definition sys_yield :: "nat \<Rightarrow> call" where
  "sys_yield c s = bindO (yield c s) (\<lambda>s. Done (Waits InYield, s))"

text \<open>The two calls that print.\<close>

definition sys_my_syscall :: "nat \<Rightarrow> machine \<Rightarrow> (call_result \<times> machine) outcome" where
  "sys_my_syscall c m =
    (case argstr 0 (user_view c (ps m)) of
       None \<Rightarrow> Done (Ret (-1), m)
     | Some p \<Rightarrow>
         bindO (print_to (\<lambda>_. map (\<lambda>x. char_of (unat x)) (ustring p (user_view c (ps m)))) (''%s'' @ [CHR 0x0A]) [fst p] m) (\<lambda>m.
         Done (Ret (sint (0xABCDABCD :: u32)), m)))"

definition sys_getlev :: "nat \<Rightarrow> machine \<Rightarrow> (call_result \<times> machine) outcome" where
  "sys_getlev c m =
    bindO (print_to (\<lambda>_. []) (''current process is %d'' @ [CHR 0x0A]) [word_of_int (pr_level (procs (ps m) c))] m) (\<lambda>m.
    Done (Ret 0, m))"

subsection \<open>The table of calls\<close>

definition sys_exec_call :: "devsw \<Rightarrow> nat \<Rightarrow> call" where
  "sys_exec_call dv c = returning (\<lambda>s. sys_exec (\<lambda>path argv. exec dv path argv c) (user_view c s) s)"

definition syscalls :: "trap_env \<Rightarrow> nat \<Rightarrow> (int \<times> call) list" where
  "syscalls e c = (let dv = te_devsw e in
    [(1, sys_fork c), (2, sys_exit c), (3, sys_wait c), (4, file_call sys_pipe c), (5, read_call e c),
     (6, sys_kill c), (7, sys_exec_call dv c), (8, file_call sys_fstat c), (9, file_call (sys_chdir dv) c),
     (10, file_call sys_dup c), (11, sys_getpid c), (12, sys_sbrk c), (13, sys_sleep (te_ticks e) c), (14, sys_uptime),
     (15, file_call (sys_open dv) c), (16, write_call e c), (17, file_call (sys_mknod dv) c),
     (18, file_call (sys_unlink dv) c), (19, file_call (sys_link dv) c), (20, file_call (sys_mkdir dv) c),
     (21, file_call sys_close c), (23, sys_getppid c), (24, sys_yield c), (26, sys_clone c), (27, sys_join c), (28, sys_thexit c)])"

text \<open>Call \<open>num\<close>, or the message for a number that is not in the table.\<close>

definition run_call :: "trap_env \<Rightarrow> int \<Rightarrow> nat \<Rightarrow> machine \<Rightarrow> (call_result \<times> machine) outcome" where
  "run_call e num c m =
    (if num = 22 then sys_my_syscall c m
     else if num = 25 then sys_getlev c m
     else case map_of (syscalls e c) num of
       Some f \<Rightarrow> with_ps f m
     | None \<Rightarrow> let x = procs (ps m) c in
         bindO (print_to (\<lambda>_. c_text 16 (pr_name x)) (''%d %s: unknown sys call %d'' @ [CHR 0x0A])
           [word_of_int (pr_pid x), 1, word_of_int num] m) (\<lambda>m. Done (Ret (-1), m)))"

definition set_eax :: "int \<Rightarrow> nat \<Rightarrow> machine \<Rightarrow> machine" where
  "set_eax r c m = m\<lparr>ps := upd_proc c (\<lambda>x. x\<lparr>pr_tf := (pr_tf x)\<lparr>tf_eax := word_of_int r\<rparr>\<rparr>) (ps m)\<rparr>"

subsection \<open>Traps\<close>

datatype trap_end = Returns | Suspends wait_point | Exits

definition trap_exit :: "nat \<Rightarrow> machine \<Rightarrow> (trap_end \<times> machine) outcome" where
  "trap_exit c = with_ps (\<lambda>s. bindO (exit c s) (\<lambda>s. Done (Exits, s)))"

text \<open>The end of a system call in \<open>syscall\<close> and \<open>trap\<close>.\<close>

definition call_end :: "nat \<Rightarrow> call_result \<Rightarrow> machine \<Rightarrow> (trap_end \<times> machine) outcome" where
  "call_end c r m =
    (case r of
       Gone \<Rightarrow> Done (Exits, m)
     | Waits w \<Rightarrow> Done (Suspends w, m)
     | Ret v \<Rightarrow> let m = set_eax v c m in
         if pr_killed (procs (ps m) c) then trap_exit c m else Done (Returns, m))"

definition syscall :: "trap_env \<Rightarrow> nat \<Rightarrow> machine \<Rightarrow> (trap_end \<times> machine) outcome" where
  "syscall e c m = bindS (run_call e (sint (tf_eax (pr_tf (procs (ps m) c)))) c m) (call_end c)"

definition from_user :: "trapframe \<Rightarrow> bool" where
  "from_user tf \<longleftrightarrow> tf_cs tf AND 3 = 3"

text \<open>The tests behind the \<open>switch\<close> of \<open>trap\<close>, for the running process \<open>c\<close>; the last one also follows \<open>yield\<close>.\<close>

definition last_test :: "bool \<Rightarrow> nat \<Rightarrow> machine \<Rightarrow> (trap_end \<times> machine) outcome" where
  "last_test user c m = (if pr_killed (procs (ps m) c) \<and> user then trap_exit c m else Done (Returns, m))"

definition trap_tests :: "trapframe \<Rightarrow> nat \<Rightarrow> machine \<Rightarrow> (trap_end \<times> machine) outcome" where
  "trap_tests tf c m =
    (if pr_killed (procs (ps m) c) \<and> from_user tf then trap_exit c m
     else if pr_state (procs (ps m) c) = RUNNING \<and> tf_trapno tf = 32 then
       with_ps (\<lambda>s. bindO (yield c s) (\<lambda>s. Done (Suspends (Preempted (from_user tf)), s))) m
     else last_test (from_user tf) c m)"

text \<open>The handlers of the devices. \<open>ideintr\<close> is that of \<open>memide.c\<close>, and \<open>lapiceoi\<close> only writes to the controller.\<close>

definition timer_tick :: "trap_env \<Rightarrow> pst \<Rightarrow> pst" where
  "timer_tick e s = wakeup (AddrChan (te_ticks e)) (s\<lparr>ticks := ticks s + 1\<rparr>)"

definition trap_switch :: "trap_env \<Rightarrow> trapframe \<Rightarrow> machine \<Rightarrow> machine outcome" where
  "trap_switch e tf m =
    (let n = tf_trapno tf in
     if n = 32 then Done (m\<lparr>ps := timer_tick e (ps m)\<rparr>)
     else if n = 46 \<or> n = 47 then Done m
     else if n = 33 then bindO (kbdintr (te_input e) (kshift m) (te_data e) (con m) (ps m)) (\<lambda>(sh, d, c, s).
       Done (m\<lparr>kshift := sh, con := c, ps := s\<rparr>))
     else if n = 36 then bindO (uartintr (te_input e) (te_data e) (con m) (ps m)) (\<lambda>(d, c, s). Done (m\<lparr>con := c, ps := s\<rparr>))
     else if n = 39 \<or> n = 63 then print_to (\<lambda>_. []) (''cpu%d: spurious interrupt at %x:%x'' @ [CHR 0x0A]) [0, ucast (tf_cs tf), tf_eip tf] m
     else case curproc (ps m) of
       None \<Rightarrow> Panic ''trap''
     | Some c \<Rightarrow>
         if tf_cs tf AND 3 = 0 then Panic ''trap''
         else let x = procs (ps m) c in
           bindO (print_to (\<lambda>_. c_text 16 (pr_name x))
             (''pid %d %s: trap %d err %d on cpu %d eip 0x%x addr 0x%x--kill proc'' @ [CHR 0x0A])
             [word_of_int (pr_pid x), 1, n, tf_err tf, 0, tf_eip tf, te_cr2 e] m) (\<lambda>m.
           Done (m\<lparr>ps := upd_proc c (\<lambda>x. x\<lparr>pr_killed := True\<rparr>) (ps m)\<rparr>)))"

definition trap :: "trap_env \<Rightarrow> trapframe \<Rightarrow> machine \<Rightarrow> (trap_end \<times> machine) outcome" where
  "trap e tf m =
    (if tf_trapno tf = 64 \<or> tf_trapno tf = 128 then
       (case curproc (ps m) of
          None \<Rightarrow> Undef
        | Some c \<Rightarrow>
            if pr_killed (procs (ps m) c) then trap_exit c m
            else let m = m\<lparr>ps := upd_proc c (\<lambda>x. x\<lparr>pr_tf := tf\<rparr>) (ps m)\<rparr> in
              if tf_trapno tf = 64 then syscall e c m
              else bindO (print_to (\<lambda>_. []) (''user interrupt 128 called!'' @ [CHR 0x0A]) [] m) (trap_exit c))
     else bindO (trap_switch e tf m) (\<lambda>m.
       case curproc (ps m) of None \<Rightarrow> Done (Returns, m) | Some c \<Rightarrow> trap_tests tf c m))"

subsection \<open>Going on\<close>

text \<open>What is left of the call, or of the trap, of process \<open>c\<close> when the scheduler has switched back to it.\<close>

definition resume_call :: "trap_env \<Rightarrow> wait_point \<Rightarrow> nat \<Rightarrow> call" where
  "resume_call e w c s =
    (case w of
       InWait \<Rightarrow> sys_wait c (woken c s)
     | InJoin tid stack retval \<Rightarrow> join_from tid stack retval c (woken c s)
     | InSleep ticks0 n \<Rightarrow> sleep_from (te_ticks e) ticks0 n c (woken c s)
     | InPipeRead pi p n \<Rightarrow> pipe_read_from e pi p n c (woken c s)
     | InPipeWrite pi p i n \<Rightarrow> pipe_write_from e pi p i n c (woken c s)
     | InYield \<Rightarrow> Done (Ret 0, s)
     | Preempted _ \<Rightarrow> Undef)"

definition trap_resumed :: "trap_env \<Rightarrow> wait_point \<Rightarrow> nat \<Rightarrow> machine \<Rightarrow> (trap_end \<times> machine) outcome" where
  "trap_resumed e w c m =
    (case w of Preempted user \<Rightarrow> last_test user c m | _ \<Rightarrow> bindS (with_ps (resume_call e w c) m) (call_end c))"

end
