(* ===== verification/TrapSpec.thy ===== *)
theory TrapSpec
  imports Trap ProcSpec
begin

text \<open>
  Killing a process: \<open>kill\<close> marks it and wakes it up, and from then on every way back to user mode, at the end of a
  system call, after the clock took the CPU away, or from its next trap, ends in \<open>exit\<close>.
\<close>

subsection \<open>What keeps the mark of a running process\<close>

text \<open>The running process and its mark are untouched.\<close>

definition marks_kept :: "nat \<Rightarrow> pst \<Rightarrow> pst \<Rightarrow> bool" where
  "marks_kept c s t \<longleftrightarrow> curproc t = curproc s \<and> pr_killed (procs t c) = pr_killed (procs s c)
     \<and> (pr_state (procs s c) = RUNNING \<longrightarrow> pr_state (procs t c) = RUNNING)"

lemma marks_kept_refl [simp]: "marks_kept c s s"
  by (simp add: marks_kept_def)

lemma marks_kept_trans [trans]: "marks_kept c s t \<Longrightarrow> marks_kept c t u \<Longrightarrow> marks_kept c s u"
  by (simp add: marks_kept_def)

lemma wakeup_marks: "marks_kept c s (wakeup ch s)"
  by (simp add: wakeup_def wakeup1_def for_procs_eq marks_kept_def)

lemma intr_loop_marks: "intr_loop a cs (d, k, s) = Done (d', k', t) \<Longrightarrow> marks_kept c s t"
proof (induction cs arbitrary: d k s)
  case (Cons x cs)
  have one: "marks_kept c s u" if "intr_char a x (d, k, s) = Done (d'', k'', u)" for d'' k'' u
    using that by (auto simp: intr_char_def Let_def outcome_simps wakeup_marks split: if_splits)
  show ?case
    using Cons one by (fastforce simp: outcome_simps intro: marks_kept_trans split: if_splits)
qed auto

lemma kbdintr_marks: "kbdintr a sh dat k s = Done (sh', d, k', t) \<Longrightarrow> marks_kept c s t"
  by (auto simp: kbdintr_def consoleintr_def outcome_simps split_beta dest: intr_loop_marks)

lemma uartintr_marks: "uartintr a dat k s = Done (d, k', t) \<Longrightarrow> marks_kept c s t"
  by (auto simp: uartintr_def consoleintr_def dest: intr_loop_marks)

lemma print_to_ps: "print_to str fmt args m = Done m' \<Longrightarrow> ps m' = ps m"
  by (auto simp: print_to_def outcome_simps)

lemma timer_tick_marks: "marks_kept c s (timer_tick e s)"
  using wakeup_marks [of c "s\<lparr>ticks := ticks s + 1\<rparr>"] by (simp add: timer_tick_def marks_kept_def)

text \<open>Of the handlers only the one for faults marks a process, the running one.\<close>

lemma trap_switch_marks:
  assumes "trap_switch e tf m = Done m'" "curproc (ps m) = Some c"
  shows "curproc (ps m') = Some c" "pr_killed (procs (ps m) c) \<Longrightarrow> pr_killed (procs (ps m') c)"
proof -
  have "curproc (ps m') = Some c \<and> (pr_killed (procs (ps m) c) \<longrightarrow> pr_killed (procs (ps m') c))"
    using assms timer_tick_marks [of c "ps m" e] kbdintr_marks [of _ _ _ _ "ps m" _ _ _ _ c] uartintr_marks [of _ _ _ "ps m" _ _ _ c]
    by (fastforce simp: trap_switch_def Let_def outcome_simps marks_kept_def dest: print_to_ps split: if_splits)
  then show "curproc (ps m') = Some c" "pr_killed (procs (ps m) c) \<Longrightarrow> pr_killed (procs (ps m') c)"
    by blast+
qed

lemma wait_killed:
  assumes "wait c s = Done (r, t)" "pr_killed (procs s c)" "pr_state (procs s c) = RUNNING"
  shows "r \<noteq> None" "pr_killed (procs t c)"
  using assms by (auto simp: wait_def Let_def outcome_simps first_index_Some split: option.splits if_splits)

lemma join_killed:
  assumes "join tid c s = Done (r, t)" "pr_killed (procs s c)" "pr_state (procs s c) = RUNNING"
  shows "r \<noteq> None" "pr_killed (procs t c)"
  using assms by (auto simp: join_def Let_def outcome_simps first_index_Some split: option.splits if_splits)

lemma join_from_killed:
  assumes "join_from tid stack rv c s = Done (r, t)" "pr_killed (procs s c)" "pr_state (procs s c) = RUNNING"
  shows "(\<exists>v. r = Ret v) \<and> pr_killed (procs t c)"
proof -
  obtain q u where j: "join tid c s = Done (q, u)"
    using assms(1) by (auto simp: join_from_def outcome_simps)
  obtain pid ust x where q: "q = Some (pid, ust, x)"
    using join_killed(1) [OF j assms(2,3)] by auto
  show ?thesis
    using assms(1) join_killed(2) [OF j assms(2,3)]
    by (auto simp: join_from_def j q Let_def outcome_simps split: if_splits)
qed

lemma sys_wait_killed:
  assumes "sys_wait c s = Done (r, t)" "pr_killed (procs s c)" "pr_state (procs s c) = RUNNING"
  shows "(\<exists>v. r = Ret v) \<and> pr_killed (procs t c)"
  using assms wait_killed [OF _ assms(2,3)] by (fastforce simp: sys_wait_def outcome_simps)

lemma wake_pipe_marks: "pr_killed (procs (wake_pipe e pi chs s) c) = pr_killed (procs s c)"
  unfolding wake_pipe_def
proof (induction chs arbitrary: s)
  case (Cons ch chs)
  then show ?case
    using wakeup_marks [of c s] by (simp add: marks_kept_def)
qed simp

lemma piperead_killed: "piperead True addr n p \<noteq> ((PSleep i, ch, d), q)"
  by (simp add: piperead_def split: prod.split)

lemma pipewrite_killed: "pipewrite True addr i n p \<noteq> ((PSleep j, ch), q)"
  by (simp add: pipewrite_def split: prod.split)

lemma pipe_from_killed:
  assumes "pr_killed (procs s c)"
  shows "pipe_read_from e pi p n c s = Done (r, t) \<Longrightarrow> (\<exists>v. r = Ret v) \<and> pr_killed (procs t c)"
    "pipe_write_from e pi p i n c s = Done (r, t) \<Longrightarrow> (\<exists>v. r = Ret v) \<and> pr_killed (procs t c)"
proof -
  assume a: "pipe_read_from e pi p n c s = Done (r, t)"
  obtain x ch d q where "piperead True (ubuf p (user_view c s)) n (pipes (io s) pi) = ((x, ch, d), q)"
    by (metis prod.exhaust)
  with a assms piperead_killed show "(\<exists>v. r = Ret v) \<and> pr_killed (procs t c)"
    by (cases x) (auto simp: pipe_read_from_def Let_def wake_pipe_marks user_back_def set_pipe_def upd_proc_def)
next
  assume a: "pipe_write_from e pi p i n c s = Done (r, t)"
  obtain x ch q where "pipewrite True (ubuf p (user_view c s)) i n (pipes (io s) pi) = ((x, ch), q)"
    by (metis prod.exhaust)
  with a assms pipewrite_killed show "(\<exists>v. r = Ret v) \<and> pr_killed (procs t c)"
    by (cases x) (auto simp: pipe_write_from_def wake_pipe_marks set_pipe_def)
qed

lemma resume_call_killed:
  assumes "resume_call e w c s = Done (r, t)" "pr_killed (procs s c)" "pr_state (procs s c) = RUNNING"
  shows "\<exists>v. r = Ret v" "pr_killed (procs t c)"
proof -
  have k: "pr_killed (procs (woken c s) c)" "pr_state (procs (woken c s) c) = RUNNING"
    using assms(2,3) by (simp_all add: woken_def)
  have "(\<exists>v. r = Ret v) \<and> pr_killed (procs t c)"
    using assms k
    by (cases w) (auto simp: resume_call_def sleep_from_def dest: sys_wait_killed join_from_killed pipe_from_killed split: if_splits)
  then show "\<exists>v. r = Ret v" "pr_killed (procs t c)"
    by blast+
qed

subsection \<open>The end of a trap\<close>

lemma trap_exit_Exits: "trap_exit c m = Done (r, m') \<Longrightarrow> r = Exits"
  by (auto simp: trap_exit_def with_ps_def outcome_simps)

lemma last_test_alive:
  "last_test True c m = Done (r, m') \<Longrightarrow> r = Exits \<or> r = Returns \<and> \<not> pr_killed (procs (ps m') c) \<and> m' = m"
  by (auto simp: last_test_def dest: trap_exit_Exits split: if_splits)

lemma call_end_alive:
  "call_end c q m = Done (Returns, m') \<Longrightarrow> \<not> pr_killed (procs (ps m') c)"
  by (auto simp: call_end_def Let_def set_eax_def dest: trap_exit_Exits split: call_result.splits if_splits)

lemma call_end_killed:
  assumes "call_end c (Ret v) m = Done (r, m')" "pr_killed (procs (ps m) c)"
  shows "r = Exits"
  using assms by (auto simp: call_end_def Let_def set_eax_def dest: trap_exit_Exits)

lemma trap_tests_user:
  assumes "trap_tests tf c m = Done (r, m')" "from_user tf"
  shows "r = Returns \<Longrightarrow> \<not> pr_killed (procs (ps m') c)" "pr_killed (procs (ps m) c) \<Longrightarrow> r = Exits"
  using assms last_test_alive [of c m r m']
  by (auto simp: trap_tests_def with_ps_def outcome_simps dest: trap_exit_Exits split: if_splits)

lemma resumed_cases:
  assumes "trap_resumed e w c m = Done (r, m')" "w \<noteq> Preempted False"
  obtains (preempted) "last_test True c m = Done (r, m')"
  | (called) q n where "resume_call e w c (ps m) = Done (q, n)" "call_end c q (m\<lparr>ps := n\<rparr>) = Done (r, m')"
  using assms by (cases w) (auto simp: trap_resumed_def with_ps_def outcome_simps)

lemma trap_cases:
  assumes "trap e tf m = Done (r, m')" "curproc (ps m) = Some c"
  obtains (left) "r = Exits"
  | (call) q n where "\<not> pr_killed (procs (ps m) c)" "call_end c q n = Done (r, m')"
  | (tests) n where "trap_switch e tf m = Done n" "curproc (ps n) = Some c" "trap_tests tf c n = Done (r, m')"
proof (cases "tf_trapno tf = 64 \<or> tf_trapno tf = 128")
  case True
  show ?thesis
    using assms True left call
    by (auto simp: trap_def syscall_def Let_def outcome_simps dest: trap_exit_Exits split: if_splits)
next
  case False
  then obtain n where n: "trap_switch e tf m = Done n"
      "(case curproc (ps n) of None \<Rightarrow> Done (Returns, n) | Some c \<Rightarrow> trap_tests tf c n) = Done (r, m')"
    using assms(1) by (auto simp: trap_def outcome_simps)
  then show ?thesis
    using tests trap_switch_marks(1) [OF n(1) assms(2)] by auto
qed

lemma trap_alive:
  assumes "trap e tf m = Done (Returns, m')" "curproc (ps m) = Some c" "from_user tf"
  shows "\<not> pr_killed (procs (ps m') c)"
  using assms(1,2)
proof (cases rule: trap_cases)
  case (tests n)
  then show ?thesis
    using trap_tests_user(1) [OF _ assms(3)] by blast
qed (simp_all add: call_end_alive)

lemma trap_killed:
  assumes "trap e tf m = Done (r, m')" "curproc (ps m) = Some c" "from_user tf" "pr_killed (procs (ps m) c)"
  shows "r = Exits"
  using assms(1,2)
proof (cases rule: trap_cases)
  case (tests n)
  then show ?thesis
    using trap_tests_user(2) [OF _ assms(3)] trap_switch_marks(2) [OF _ assms(2,4)] by blast
qed (use assms(4) in simp_all)

lemma resumed_alive:
  assumes "trap_resumed e w c m = Done (Returns, m')" "w \<noteq> Preempted False"
  shows "\<not> pr_killed (procs (ps m') c)"
  using assms by (cases rule: resumed_cases) (auto dest: last_test_alive call_end_alive)

lemma resumed_killed:
  assumes "trap_resumed e w c m = Done (r, m')" "w \<noteq> Preempted False"
    "pr_killed (procs (ps m) c)" "pr_state (procs (ps m) c) = RUNNING"
  shows "r = Exits"
  using assms(1,2)
proof (cases rule: resumed_cases)
  case preempted
  then show ?thesis
    using last_test_alive [of c m r m'] assms(3) by auto
next
  case (called q n)
  then show ?thesis
    using resume_call_killed [OF called(1) assms(3,4)] call_end_killed [of c _ "m\<lparr>ps := n\<rparr>" r m'] by auto
qed

lemma kill_marks:
  "kill pid s = (0, t) \<Longrightarrow> \<exists>p<NPROC. pr_pid (procs s p) = pid \<and> pr_killed (procs t p) \<and> pr_state (procs t p) \<noteq> SLEEPING"
  by (auto simp: kill_def first_index_Some split: option.splits)

lemma console_read_killed: "console_read True target n dst k \<noteq> ((CSleep j, d), q)"
  by (induction True target n dst k rule: console_read.induct) (auto simp: Let_def)

subsection \<open>The claim\<close>

text \<open>
  C14. Killing a process ends it. kill marks the process and leaves it awake. A trap from user mode returns to user
  mode only if the process is not marked, and so does a call or a trap that goes on behind a wait for a child, a
  thread, the clock or a pipe, behind yield or the preemption by the clock. For a marked process they end in exit: at
  once, before anything else is done, when it makes a system call, and whichever of these it was waiting for, since none
  of them, nor a read of the console, sleeps again. The waits for a sleep lock, for room in the log and for the disk do not
  test the mark; a call that goes on behind one of them is ended by the test at its end, whatever it returns.
\<close>

theorem killed_process_exits:
  assumes "curproc (ps m) = Some c"
  shows "(kill pid s = (0, t) \<longrightarrow> (\<exists>p<NPROC. pr_pid (procs s p) = pid \<and> pr_killed (procs t p) \<and> pr_state (procs t p) \<noteq> SLEEPING))
    \<and> (from_user tf \<and> trap e tf m = Done (Returns, m') \<longrightarrow> \<not> pr_killed (procs (ps m') c))
    \<and> (w \<noteq> Preempted False \<and> trap_resumed e w c m = Done (Returns, m') \<longrightarrow> \<not> pr_killed (procs (ps m') c))
    \<and> (pr_killed (procs (ps m) c) \<and> pr_state (procs (ps m) c) = RUNNING \<longrightarrow>
         (tf_trapno tf = 64 \<longrightarrow> trap e tf m = trap_exit c m)
         \<and> (from_user tf \<and> trap e tf m = Done (r, m') \<longrightarrow> r = Exits)
         \<and> (w \<noteq> Preempted False \<and> trap_resumed e w c m = Done (r, m') \<longrightarrow> r = Exits)
         \<and> (call_end c (Ret v) m = Done (r, m') \<longrightarrow> r = Exits)
         \<and> (\<forall>target n dst k d q. console_read (pr_killed (procs (ps m) c)) target n dst k \<noteq> ((CSleep j, d), q)))"
  using assms kill_marks [of pid s t] trap_alive [of e tf m m' c] trap_killed [of e tf m r m' c]
    resumed_alive [of e w c m m'] resumed_killed [of e w c m r m'] call_end_killed [of c v m r m'] console_read_killed
  by (simp add: trap_def)

text \<open>C14 applied: process 1 is killed while it runs; its next system call ends it.\<close>

definition demo_machine :: machine where
  "demo_machine = \<lparr>ps = upd_proc 1 (\<lambda>x. x\<lparr>pr_state := RUNNING, pr_cwd := Some 0\<rparr>) (demo_procs\<lparr>curproc := Some 1\<rparr>),
     con = \<lparr>crt = (\<lambda>_. 0), cga_pos = 0, uart_on = False, serial = [], panicked = False, locking = True,
       in_buf = (\<lambda>_. 0), in_r = 0, in_w = 0, in_e = 0\<rparr>, kshift = 0\<rparr>"

definition demo_trap_env :: trap_env where
  "demo_trap_env = \<lparr>te_devsw = (\<lambda>_. undefined), te_input = 0, te_ticks = 4, te_nread = (\<lambda>_. 0), te_nwrite = (\<lambda>_. 4), te_data = [], te_cr2 = 0\<rparr>"

definition killed_machine :: machine where
  "killed_machine = demo_machine\<lparr>ps := snd (kill 2 (ps demo_machine))\<rparr>"

lemma demo_kill:
  "kill 2 (ps demo_machine) = (0, upd_proc 1 (\<lambda>x. x\<lparr>pr_killed := True, pr_state := RUNNING\<rparr>) (ps demo_machine))"
proof -
  have "first_index (\<lambda>p. pr_pid (procs (ps demo_machine) p) = 2) NPROC = Some 1"
    by (rule first_index_eqI) (auto simp: demo_machine_def demo_procs_def idle_proc_def)
  then show ?thesis
    by (simp add: kill_def) (simp add: demo_machine_def upd_proc_def)
qed

lemma demo_killed_sels:
  "pr_killed (procs (ps killed_machine) 1)" "pr_state (procs (ps killed_machine) 1) = RUNNING"
  "pr_cwd (procs (ps killed_machine) 1) = Some 0" "pr_ofile (procs (ps killed_machine) 1) = (\<lambda>_. None)"
  "curproc (ps killed_machine) = Some 1" "initproc (ps killed_machine) = Some 0"
  "io (ps killed_machine) = boot_state 1 100 (\<lambda>_. zero_block)"
  by (simp_all add: killed_machine_def demo_kill)
    (simp_all add: demo_machine_def demo_procs_def idle_proc_def)

lemma demo_exit: "\<exists>t. exit 1 (ps killed_machine) = Done t"
proof -
  have "foldO (close_fd 1) xs (ps killed_machine) = Done (ps killed_machine)" for xs
    by (induction xs) (use demo_killed_sels(4) in \<open>simp_all add: close_fd_def\<close>)
  moreover have "\<exists>t. leave 1 (ps killed_machine) = Done t"
    by (simp add: leave_def demo_killed_sels [unfolded One_nat_def] with_io_def begin_op_def iput_def end_op_def commit_def
        boot_state_def zero_inode_def upd_inode_def sched_def Let_def)
  ultimately show ?thesis
    by (simp add: exit_def demo_killed_sels)
qed

theorem killed_process_exits_witness:
  "\<exists>m'. trap demo_trap_env (zero_tf\<lparr>tf_cs := 35, tf_trapno := 64\<rparr>) killed_machine = Done (Exits, m')
     \<and> pr_state (procs (ps m') 1) = ZOMBIE"
proof -
  let ?tf = "zero_tf\<lparr>tf_cs := 35, tf_trapno := 64\<rparr>"
  have "trap demo_trap_env ?tf killed_machine = trap_exit 1 killed_machine"
    using killed_process_exits [OF demo_killed_sels(5), of undefined undefined undefined ?tf demo_trap_env] demo_killed_sels by simp
  moreover obtain t where "exit 1 (ps killed_machine) = Done t"
    using demo_exit by blast
  ultimately show ?thesis
    using exit_gave_up(2) by (simp add: trap_exit_def with_ps_def)
qed

end
