(* ===== verification/SpinLock.thy ===== *)
theory SpinLock
  imports Prelude
begin

text \<open>
  Spin locks (\<open>spinlock.c\<close>) on several processors. A step of the relation \<open>lock_step\<close> is one access of one
  processor to the shared memory or to its own state, so that \<open>acquire\<close> and \<open>release\<close> of different
  processors interleave; \<open>ctl\<close> says where a processor is.
\<close>

record spinlock =
  lk_locked :: bool
  lk_cpu :: "nat option"

record cpu =
  ncli :: int
  intena :: bool
  flag_if :: bool

definition initlock :: "spinlock \<Rightarrow> spinlock" where
  "initlock lk = lk\<lparr>lk_locked := False, lk_cpu := None\<rparr>"

definition holding :: "nat \<Rightarrow> spinlock \<Rightarrow> bool" where
  "holding c lk \<longleftrightarrow> lk_locked lk \<and> lk_cpu lk = Some c"

definition pushcli :: "cpu \<Rightarrow> cpu" where
  "pushcli p =
    (let eflags = flag_if p; p = p\<lparr>flag_if := False\<rparr>;
         p = (if ncli p = 0 then p\<lparr>intena := eflags\<rparr> else p)
     in p\<lparr>ncli := ncli p + 1\<rparr>)"

definition popcli :: "cpu \<Rightarrow> cpu outcome" where
  "popcli p =
    (if flag_if p then Panic ''popcli - interruptible''
     else let p = p\<lparr>ncli := ncli p - 1\<rparr> in
       if ncli p < 0 then Panic ''popcli''
       else Done (if ncli p = 0 \<and> intena p then p\<lparr>flag_if := True\<rparr> else p))"

text \<open>The call stack: \<open>mem\<close> reads a word of memory, \<open>ebp\<close> is the frame pointer reached.\<close>

fun callerpcs_from :: "(u32 \<Rightarrow> u32) \<Rightarrow> u32 \<Rightarrow> nat \<Rightarrow> u32 list" where
  "callerpcs_from mem ebp 0 = []"
| "callerpcs_from mem ebp (Suc n) =
    (if ebp = 0 \<or> ebp < 0x80000000 \<or> ebp = 0xffffffff then replicate (Suc n) 0
     else mem (ebp + 4) # callerpcs_from mem (mem ebp) n)"

definition getcallerpcs :: "(u32 \<Rightarrow> u32) \<Rightarrow> u32 \<Rightarrow> u32 list" where
  "getcallerpcs mem v = callerpcs_from mem (v - 8) 10"

subsection \<open>Processors and locks\<close>

text \<open>
  Where a processor is: not in a lock operation, in \<open>acquire\<close> behind \<open>pushcli\<close>, at the \<open>xchg\<close> or behind it,
  in \<open>release\<close> behind the test, with \<open>cpu\<close> cleared, or at \<open>popcli\<close>; or it has called \<open>panic\<close>.
\<close>

datatype ctl = Idle | Pushed nat | Spinning nat | Taken nat | Releasing nat | Cleared nat | Popping | Stopped string

record smp =
  slocks :: "nat \<Rightarrow> spinlock"
  scpus :: "nat \<Rightarrow> cpu"
  sctl :: "nat \<Rightarrow> ctl"

definition at_ctl :: "nat \<Rightarrow> ctl \<Rightarrow> smp \<Rightarrow> smp" where "at_ctl c x s = s\<lparr>sctl := (sctl s)(c := x)\<rparr>"
definition set_cpu :: "nat \<Rightarrow> cpu \<Rightarrow> smp \<Rightarrow> smp" where "set_cpu c p s = s\<lparr>scpus := (scpus s)(c := p)\<rparr>"
definition set_lock :: "nat \<Rightarrow> spinlock \<Rightarrow> smp \<Rightarrow> smp" where "set_lock l k s = s\<lparr>slocks := (slocks s)(l := k)\<rparr>"

text \<open>One step of processor \<open>c\<close> inside \<open>acquire\<close> or \<open>release\<close>.\<close>

definition advance_cpu :: "nat \<Rightarrow> smp \<Rightarrow> smp" where
  "advance_cpu c s = (case sctl s c of
     Idle \<Rightarrow> s
   | Pushed l \<Rightarrow> if holding c (slocks s l) then at_ctl c (Stopped ''acquire'') s else at_ctl c (Spinning l) s
   | Spinning l \<Rightarrow>
       if lk_locked (slocks s l) then s
       else at_ctl c (Taken l) (set_lock l ((slocks s l)\<lparr>lk_locked := True\<rparr>) s)
   | Taken l \<Rightarrow> at_ctl c Idle (set_lock l ((slocks s l)\<lparr>lk_cpu := Some c\<rparr>) s)
   | Releasing l \<Rightarrow> at_ctl c (Cleared l) (set_lock l ((slocks s l)\<lparr>lk_cpu := None\<rparr>) s)
   | Cleared l \<Rightarrow> at_ctl c Popping (set_lock l ((slocks s l)\<lparr>lk_locked := False\<rparr>) s)
   | Popping \<Rightarrow> (case popcli (scpus s c) of Done p \<Rightarrow> at_ctl c Idle (set_cpu c p s) | Panic m \<Rightarrow> at_ctl c (Stopped m) s | _ \<Rightarrow> s)
   | Stopped m \<Rightarrow> s)"

text \<open>The two calls: \<open>acquire\<close> starts with \<open>pushcli\<close>, \<open>release\<close> with its test.\<close>

definition acquire :: "nat \<Rightarrow> nat \<Rightarrow> smp \<Rightarrow> smp" where
  "acquire c l s = at_ctl c (Pushed l) (set_cpu c (pushcli (scpus s c)) s)"

definition release :: "nat \<Rightarrow> nat \<Rightarrow> smp \<Rightarrow> smp" where
  "release c l s = (if \<not> holding c (slocks s l) then at_ctl c (Stopped ''release'') s else at_ctl c (Releasing l) s)"

inductive lock_step :: "smp \<Rightarrow> smp \<Rightarrow> bool" where
  acquires: "sctl s c = Idle \<Longrightarrow> lock_step s (acquire c l s)"
| releases: "sctl s c = Idle \<Longrightarrow> lock_step s (release c l s)"
| advances: "lock_step s (advance_cpu c s)"

inductive_cases lock_stepE: "lock_step s t"

definition lock_start :: "smp \<Rightarrow> bool" where
  "lock_start s \<longleftrightarrow> (\<forall>l. slocks s l = initlock (slocks s l)) \<and> (\<forall>c. sctl s c = Idle \<and> ncli (scpus s c) = 0)"

subsection \<open>Mutual exclusion\<close>

text \<open>Processor \<open>c\<close> owns lock \<open>l\<close> from the \<open>xchg\<close> that took it to the store that frees it.\<close>

definition owns :: "smp \<Rightarrow> nat \<Rightarrow> nat \<Rightarrow> bool" where
  "owns s c l \<longleftrightarrow> lk_cpu (slocks s l) = Some c \<or> sctl s c = Taken l \<or> sctl s c = Cleared l"

text \<open>How many levels of \<open>pushcli\<close> the lock operation under way accounts for.\<close>

fun extra :: "ctl \<Rightarrow> nat" where
  "extra (Pushed l) = 1" | "extra (Spinning l) = 1" | "extra Popping = 1" | "extra x = 0"

text \<open>
  The invariant. \<open>f c\<close> is the interrupt flag with which processor \<open>c\<close> started; it comes back when the
  processor is in no lock operation and holds no lock.
\<close>

definition excl_inv :: "smp \<Rightarrow> bool" where
  "excl_inv s \<longleftrightarrow> (\<forall>l c d. owns s c l \<longrightarrow> owns s d l \<longrightarrow> c = d) \<and> (\<forall>l. lk_locked (slocks s l) \<longleftrightarrow> (\<exists>c. owns s c l))
     \<and> (\<forall>l c. sctl s c = Taken l \<or> sctl s c = Cleared l \<longrightarrow> lk_cpu (slocks s l) = None)
     \<and> (\<forall>l c. sctl s c = Releasing l \<longrightarrow> lk_cpu (slocks s l) = Some c)"

definition cpu_inv :: "(nat \<Rightarrow> bool) \<Rightarrow> smp \<Rightarrow> nat \<Rightarrow> bool" where
  "cpu_inv f s c \<longleftrightarrow> (\<forall>m. sctl s c \<noteq> Stopped m) \<longrightarrow>
     finite {l. owns s c l} \<and> ncli (scpus s c) = int (card {l. owns s c l} + extra (sctl s c))
     \<and> (if ncli (scpus s c) = 0 then flag_if (scpus s c) = f c else \<not> flag_if (scpus s c) \<and> intena (scpus s c) = f c)"

definition lock_inv :: "(nat \<Rightarrow> bool) \<Rightarrow> smp \<Rightarrow> bool" where
  "lock_inv f s \<longleftrightarrow> excl_inv s \<and> (\<forall>c. cpu_inv f s c)"

lemma lock_start_inv: "lock_start s \<Longrightarrow> lock_inv (\<lambda>c. flag_if (scpus s c)) s"
proof -
  assume s: "lock_start s"
  then have k: "lk_locked (slocks s l) = False" "lk_cpu (slocks s l) = None" for l
    by (metis initlock_def lock_start_def spinlock.select_convs spinlock.surjective spinlock.update_convs)+
  have "\<not> owns s c l" for c l
    using s k by (simp add: owns_def lock_start_def)
  then show ?thesis
    using s k by (simp add: lock_inv_def excl_inv_def cpu_inv_def lock_start_def)
qed

text \<open>A processor that neither moves nor gains or loses a lock keeps its part of the invariant.\<close>

lemma cpu_inv_frame:
  "cpu_inv f s d \<Longrightarrow> sctl t d = sctl s d \<Longrightarrow> scpus t d = scpus s d \<Longrightarrow> (\<And>l. owns t d l = owns s d l) \<Longrightarrow> cpu_inv f t d"
  by (simp add: cpu_inv_def)

lemmas smp_simps = at_ctl_def set_cpu_def set_lock_def owns_def

text \<open>The invariant after a step of processor \<open>c\<close>, from what the step does to it.\<close>

lemma lock_invI:
  assumes "lock_inv f s"
    and other: "\<And>d. d \<noteq> c \<Longrightarrow> sctl t d = sctl s d \<and> scpus t d = scpus s d \<and> (\<forall>k. owns t d k = owns s d k)"
    and cpu: "cpu_inv f t c" and excl: "\<And>k d. owns t c k \<Longrightarrow> owns s d k \<Longrightarrow> d = c"
    and locked: "\<And>k. lk_locked (slocks t k) \<longleftrightarrow> owns t c k \<or> (\<exists>d. d \<noteq> c \<and> owns s d k)"
    and taken: "\<And>k. sctl t c = Taken k \<or> sctl t c = Cleared k \<Longrightarrow> lk_cpu (slocks t k) = None"
    and rel: "\<And>k. sctl t c = Releasing k \<Longrightarrow> lk_cpu (slocks t k) = Some c"
    and frame: "\<And>k d. d \<noteq> c \<Longrightarrow> sctl s d = Taken k \<or> sctl s d = Cleared k \<or> sctl s d = Releasing k \<Longrightarrow> lk_cpu (slocks t k) = lk_cpu (slocks s k)"
  shows "lock_inv f t"
proof -
  have e: "excl_inv s"
    using assms(1) by (simp add: lock_inv_def)
  have "cpu_inv f t d" for d
    using cpu other [of d] assms(1) by (cases "d = c") (auto simp: lock_inv_def intro: cpu_inv_frame)
  moreover have "d1 = d2" if "owns t d1 k" "owns t d2 k" for k d1 d2
  proof (cases "d1 = c \<or> d2 = c")
    case True
    then show ?thesis
      using that excl other by (metis (full_types))
  next
    case False
    then have "owns s d1 k" "owns s d2 k"
      using that other by blast+
    then show ?thesis
      using e unfolding excl_inv_def by blast
  qed
  moreover have "lk_locked (slocks t k) \<longleftrightarrow> (\<exists>d. owns t d k)" for k
    unfolding locked using other by metis
  moreover have "lk_cpu (slocks t k) = None" if "sctl t d = Taken k \<or> sctl t d = Cleared k" for k d
  proof (cases "d = c")
    case False
    then show ?thesis
      using that other frame e unfolding excl_inv_def by metis
  qed (use that taken in blast)
  moreover have "lk_cpu (slocks t k) = Some d" if "sctl t d = Releasing k" for k d
  proof (cases "d = c")
    case False
    then show ?thesis
      using that other frame e unfolding excl_inv_def by metis
  qed (use that rel in blast)
  ultimately show ?thesis
    unfolding lock_inv_def excl_inv_def by blast
qed

text \<open>A step that changes no lock.\<close>

lemma lock_inv_local:
  assumes "lock_inv f s" "slocks t = slocks s" "\<And>d. d \<noteq> c \<Longrightarrow> sctl t d = sctl s d \<and> scpus t d = scpus s d"
    and "cpu_inv f t c" "\<And>k. owns t c k = owns s c k"
    and "\<And>k. sctl t c \<noteq> Taken k" "\<And>k. sctl t c \<noteq> Cleared k" "\<And>k. sctl t c = Releasing k \<Longrightarrow> lk_cpu (slocks s k) = Some c"
  shows "lock_inv f t"
proof (rule lock_invI [OF assms(1)])
  have e: "excl_inv s"
    using assms(1) by (simp add: lock_inv_def)
  show "sctl t d = sctl s d \<and> scpus t d = scpus s d \<and> (\<forall>k. owns t d k = owns s d k)" if "d \<noteq> c" for d
    using assms(2,3) that by (simp add: owns_def)
  show "owns t c k \<Longrightarrow> owns s d k \<Longrightarrow> d = c" for k d
    using e assms(5) unfolding excl_inv_def by blast
  show "lk_locked (slocks t k) \<longleftrightarrow> owns t c k \<or> (\<exists>d. d \<noteq> c \<and> owns s d k)" for k
    using e assms(2,5) unfolding excl_inv_def by metis
qed (use assms in auto)

lemma acquire_inv:
  assumes "lock_inv f s" "sctl s c = Idle"
  shows "lock_inv f (acquire c l s)"
proof (rule lock_inv_local [OF assms(1), where c = c])
  have o: "owns (acquire c l s) c k = owns s c k" for k
    using assms(2) by (simp add: acquire_def smp_simps)
  show "owns (acquire c l s) c k = owns s c k" for k
    by (rule o)
  have "cpu_inv f s c"
    using assms(1) by (simp add: lock_inv_def)
  then show "cpu_inv f (acquire c l s) c"
    using assms(2) unfolding cpu_inv_def o by (simp add: acquire_def at_ctl_def set_cpu_def pushcli_def Let_def)
qed (simp_all add: acquire_def at_ctl_def set_cpu_def)

lemma release_inv:
  assumes "lock_inv f s" "sctl s c = Idle"
  shows "lock_inv f (release c l s)"
proof (rule lock_inv_local [OF assms(1), where c = c])
  have o: "owns (release c l s) c k = owns s c k" for k
    using assms(2) by (simp add: release_def smp_simps)
  show "owns (release c l s) c k = owns s c k" for k
    by (rule o)
  have "cpu_inv f s c"
    using assms(1) by (simp add: lock_inv_def)
  then show "cpu_inv f (release c l s) c"
    using assms(2) unfolding cpu_inv_def o by (simp add: release_def at_ctl_def)
qed (auto simp: release_def at_ctl_def holding_def split: if_splits)

lemma advance_inv:
  assumes "lock_inv f s"
  shows "lock_inv f (advance_cpu c s)"
proof -
  have e: "excl_inv s" and cc: "cpu_inv f s c"
    using assms by (simp_all add: lock_inv_def)
  have ex: "owns s a l \<Longrightarrow> owns s b l \<Longrightarrow> a = b" for a b l
    using e unfolding excl_inv_def by blast
  have lk: "lk_locked (slocks s l) \<longleftrightarrow> (\<exists>c. owns s c l)" for l
    using e unfolding excl_inv_def by blast
  define t where "t = advance_cpu c s"
  show ?thesis
    unfolding t_def [symmetric]
  proof (cases "sctl s c")
    case Idle
    then show "lock_inv f t" using assms by (simp add: t_def advance_cpu_def)
  next
    case (Stopped m)
    then show "lock_inv f t" using assms by (simp add: t_def advance_cpu_def)
  next
    case (Pushed l)
    then have t: "t = at_ctl c (if holding c (slocks s l) then Stopped ''acquire'' else Spinning l) s"
      by (simp add: t_def advance_cpu_def)
    show "lock_inv f t"
      using Pushed cc unfolding t
      by (cases "holding c (slocks s l)"; intro lock_inv_local [OF assms, where c = c]) (auto simp: smp_simps cpu_inv_def)
  next
    case (Spinning l)
    show "lock_inv f t"
    proof (cases "lk_locked (slocks s l)")
      case True
      then show ?thesis using Spinning assms by (simp add: t_def advance_cpu_def)
    next
      case False
      then have t: "t = at_ctl c (Taken l) (set_lock l ((slocks s l)\<lparr>lk_locked := True\<rparr>) s)"
        using Spinning by (simp add: t_def advance_cpu_def)
      have no: "\<not> owns s d l" for d
        using False lk by blast
      then have n: "lk_cpu (slocks s l) = None"
        by (cases "lk_cpu (slocks s l)") (auto simp: owns_def)
      have o: "owns t d k \<longleftrightarrow> owns s d k \<or> d = c \<and> k = l" for d k
        using Spinning by (auto simp: t smp_simps)
      show ?thesis
      proof (rule lock_invI [OF assms, where c = c])
        have "{k. owns t c k} = insert l {k. owns s c k}"
          using o by auto
        then show "cpu_inv f t c"
          using cc no [of c] Spinning unfolding cpu_inv_def by (simp add: t at_ctl_def set_lock_def)
        show "owns t c k \<Longrightarrow> owns s d k \<Longrightarrow> d = c" for k d
          using o ex no by blast
        show "lk_locked (slocks t k) \<longleftrightarrow> owns t c k \<or> (\<exists>d. d \<noteq> c \<and> owns s d k)" for k
          unfolding o using lk [of k] by (auto simp: t at_ctl_def set_lock_def)
      qed (use o n in \<open>auto simp: t at_ctl_def set_lock_def\<close>)
    qed
  next
    case (Taken l)
    then have t: "t = at_ctl c Idle (set_lock l ((slocks s l)\<lparr>lk_cpu := Some c\<rparr>) s)"
      by (simp add: t_def advance_cpu_def)
    have own: "owns s c l"
      using Taken by (simp add: owns_def)
    have n: "lk_cpu (slocks s l) = None"
      using e Taken unfolding excl_inv_def by blast
    have o: "owns t d k \<longleftrightarrow> owns s d k" for d k
      using Taken n by (auto simp: t smp_simps)
    show "lock_inv f t"
    proof (rule lock_invI [OF assms, where c = c])
      show "cpu_inv f t c"
        using cc Taken unfolding cpu_inv_def o by (simp add: t at_ctl_def set_lock_def)
      show "owns t c k \<Longrightarrow> owns s d k \<Longrightarrow> d = c" for k d
        using o ex by blast
      show "lk_locked (slocks t k) \<longleftrightarrow> owns t c k \<or> (\<exists>d. d \<noteq> c \<and> owns s d k)" for k
        unfolding o using lk [of k] by (auto simp: t at_ctl_def set_lock_def)
      show "lk_cpu (slocks t k) = lk_cpu (slocks s k)"
        if "d \<noteq> c" "sctl s d = Taken k \<or> sctl s d = Cleared k \<or> sctl s d = Releasing k" for k d
      proof (cases "k = l")
        case True
        then have "owns s d l"
          using that e unfolding excl_inv_def owns_def by blast
        then show ?thesis
          using ex own that(1) by blast
      qed (simp add: t at_ctl_def set_lock_def)
    qed (use o in \<open>auto simp: t at_ctl_def set_lock_def\<close>)
  next
    case (Releasing l)
    then have t: "t = at_ctl c (Cleared l) (set_lock l ((slocks s l)\<lparr>lk_cpu := None\<rparr>) s)"
      by (simp add: t_def advance_cpu_def)
    have n: "lk_cpu (slocks s l) = Some c"
      using e Releasing unfolding excl_inv_def by blast
    then have own: "owns s c l"
      by (simp add: owns_def)
    have o: "owns t d k \<longleftrightarrow> owns s d k" for d k
      using Releasing n by (auto simp: t smp_simps)
    show "lock_inv f t"
    proof (rule lock_invI [OF assms, where c = c])
      show "cpu_inv f t c"
        using cc Releasing unfolding cpu_inv_def o by (simp add: t at_ctl_def set_lock_def)
      show "owns t c k \<Longrightarrow> owns s d k \<Longrightarrow> d = c" for k d
        using o ex by blast
      show "lk_locked (slocks t k) \<longleftrightarrow> owns t c k \<or> (\<exists>d. d \<noteq> c \<and> owns s d k)" for k
        unfolding o using lk [of k] by (auto simp: t at_ctl_def set_lock_def)
      show "lk_cpu (slocks t k) = lk_cpu (slocks s k)"
        if "d \<noteq> c" "sctl s d = Taken k \<or> sctl s d = Cleared k \<or> sctl s d = Releasing k" for k d
      proof (cases "k = l")
        case True
        then have "owns s d l"
          using that e unfolding excl_inv_def owns_def by blast
        then show ?thesis
          using ex own that(1) by blast
      qed (simp add: t at_ctl_def set_lock_def)
    qed (use o in \<open>auto simp: t at_ctl_def set_lock_def\<close>)
  next
    case (Cleared l)
    then have t: "t = at_ctl c Popping (set_lock l ((slocks s l)\<lparr>lk_locked := False\<rparr>) s)"
      by (simp add: t_def advance_cpu_def)
    have n: "lk_cpu (slocks s l) = None"
      using e Cleared unfolding excl_inv_def by blast
    have own: "owns s c l"
      using Cleared by (simp add: owns_def)
    have o: "owns t d k \<longleftrightarrow> owns s d k \<and> \<not> (d = c \<and> k = l)" for d k
      using Cleared n by (auto simp: t smp_simps)
    show "lock_inv f t"
    proof (rule lock_invI [OF assms, where c = c])
      have "{k. owns s c k} = insert l {k. owns t c k}" "l \<notin> {k. owns t c k}"
        using o own by auto
      then show "cpu_inv f t c"
        using cc Cleared unfolding cpu_inv_def by (simp add: t at_ctl_def set_lock_def)
      show "owns t c k \<Longrightarrow> owns s d k \<Longrightarrow> d = c" for k d
        using o ex by blast
      show "lk_locked (slocks t k) \<longleftrightarrow> owns t c k \<or> (\<exists>d. d \<noteq> c \<and> owns s d k)" for k
        unfolding o using lk [of k] ex [OF own] by (cases "k = l") (simp_all add: t at_ctl_def set_lock_def, metis+)
    qed (use o in \<open>auto simp: t at_ctl_def set_lock_def\<close>)
  next
    case Popping
    define n where "n = card {l. owns s c l}"
    have fin: "finite {l. owns s c l}" and c: "ncli (scpus s c) = int n + 1" "\<not> flag_if (scpus s c)" "intena (scpus s c) = f c"
      using cc Popping unfolding cpu_inv_def n_def by auto
    define p where "p = (scpus s c)\<lparr>ncli := int n\<rparr>"
    have t: "t = at_ctl c Idle (set_cpu c (if n = 0 \<and> f c then p\<lparr>flag_if := True\<rparr> else p) s)"
      using Popping c by (simp add: t_def advance_cpu_def popcli_def Let_def p_def)
    have o: "owns t c k = owns s c k" for k
      using Popping by (simp add: t smp_simps)
    show "lock_inv f t"
    proof (rule lock_inv_local [OF assms, where c = c])
      show "cpu_inv f t c"
        using fin c unfolding cpu_inv_def o n_def [symmetric] by (cases "n = 0") (simp_all add: t at_ctl_def set_cpu_def p_def)
    qed (use o in \<open>simp_all add: t at_ctl_def set_cpu_def\<close>)
  qed
qed

lemma lock_inv_reachable: "lock_step\<^sup>*\<^sup>* s t \<Longrightarrow> lock_inv f s \<Longrightarrow> lock_inv f t"
  by (induction rule: rtranclp_induct) (auto elim!: lock_stepE intro: acquire_inv release_inv advance_inv)

subsection \<open>Properties\<close>

text \<open>
  C39. Mutual exclusion: however the memory accesses of any number of processors in \<open>acquire\<close> and
  \<open>release\<close> interleave, a lock never has two owners, \<open>holding\<close> is true exactly on the processor that
  returned from \<open>acquire\<close>, a processor that owns a lock runs with interrupts off, and one that is in no
  lock operation and owns no lock has the interrupt flag it started with.
\<close>

theorem spin_locks_exclude:
  assumes "lock_start s" "lock_step\<^sup>*\<^sup>* s t"
  shows "(owns t c l \<longrightarrow> owns t d l \<longrightarrow> c = d) \<and> (holding c (slocks t l) \<longleftrightarrow> lk_cpu (slocks t l) = Some c)
    \<and> (owns t c l \<longrightarrow> (\<forall>m. sctl t c \<noteq> Stopped m) \<longrightarrow> \<not> flag_if (scpus t c))
    \<and> (sctl t c = Idle \<longrightarrow> (\<forall>k. \<not> owns t c k) \<longrightarrow> flag_if (scpus t c) = flag_if (scpus s c))"
proof -
  have "lock_inv (\<lambda>c. flag_if (scpus s c)) t"
    using lock_inv_reachable [OF assms(2) lock_start_inv [OF assms(1)]] .
  then have e: "excl_inv t" and c: "cpu_inv (\<lambda>c. flag_if (scpus s c)) t c"
    by (simp_all add: lock_inv_def)
  have "owns t c l \<longrightarrow> owns t d l \<longrightarrow> c = d"
    using e unfolding excl_inv_def by blast
  moreover have "holding c (slocks t l) \<longleftrightarrow> lk_cpu (slocks t l) = Some c"
    using e unfolding excl_inv_def holding_def owns_def by blast
  moreover have "\<not> flag_if (scpus t c)" if "owns t c l" "\<forall>m. sctl t c \<noteq> Stopped m"
  proof -
    have "finite {l. owns t c l}" "{l. owns t c l} \<noteq> {}"
      using c that unfolding cpu_inv_def by auto
    then have "0 < card {l. owns t c l}"
      by (simp add: card_gt_0_iff)
    moreover have "ncli (scpus t c) = int (card {l. owns t c l} + extra (sctl t c))"
      using c that(2) unfolding cpu_inv_def by blast
    ultimately have "ncli (scpus t c) \<noteq> 0"
      by linarith
    then show ?thesis
      using c that(2) unfolding cpu_inv_def by presburger
  qed
  moreover have "flag_if (scpus t c) = flag_if (scpus s c)" if "sctl t c = Idle" "\<forall>k. \<not> owns t c k"
    using c that unfolding cpu_inv_def by simp
  ultimately show ?thesis
    by blast
qed

definition two_cpus :: smp where
  "two_cpus = \<lparr>slocks = (\<lambda>_. \<lparr>lk_locked = False, lk_cpu = None\<rparr>),
     scpus = (\<lambda>_. \<lparr>ncli = 0, intena = False, flag_if = True\<rparr>), sctl = (\<lambda>_. Idle)\<rparr>"

text \<open>Processors 0 and 1 both ask for lock 7; processor 0 gets it, processor 1 spins.\<close>

definition race :: smp where
  "race = advance_cpu 1 (advance_cpu 1 (advance_cpu 0 (advance_cpu 0 (advance_cpu 0 (acquire 1 7 (acquire 0 7 two_cpus))))))"

theorem spin_locks_exclude_witness:
  "owns race 0 7 \<and> sctl race 1 = Spinning 7 \<and> \<not> flag_if (scpus race 0)"
proof -
  have st: "lock_start two_cpus"
    by (simp add: lock_start_def two_cpus_def initlock_def)
  have "lock_step two_cpus (acquire 0 7 two_cpus)"
    by (rule lock_step.acquires) (simp add: two_cpus_def)
  moreover have "lock_step (acquire 0 7 two_cpus) (acquire 1 7 (acquire 0 7 two_cpus))"
    by (rule lock_step.acquires) (simp add: two_cpus_def acquire_def at_ctl_def set_cpu_def)
  ultimately have a: "lock_step\<^sup>*\<^sup>* two_cpus (acquire 1 7 (acquire 0 7 two_cpus))"
    by (meson rtranclp.rtrancl_into_rtrancl rtranclp.rtrancl_refl)
  have n: "lock_step\<^sup>*\<^sup>* two_cpus (advance_cpu c t)" if "lock_step\<^sup>*\<^sup>* two_cpus t" for c t
    using that lock_step.advances by (rule rtranclp.rtrancl_into_rtrancl)
  have r: "lock_step\<^sup>*\<^sup>* two_cpus race"
    unfolding race_def by (intro n a)
  have e: "owns race 0 7" "sctl race 1 = Spinning 7" "sctl race 0 = Idle"
    by (simp_all add: race_def two_cpus_def acquire_def advance_cpu_def smp_simps holding_def)
  show ?thesis
    using spin_locks_exclude [OF st r, of 0 7 0] e by simp
qed

end
