(* ===== verification/Ide.thy ===== *)
theory Ide
  imports BufCache
begin

text \<open>
  The IDE disk driver (\<open>ide.c\<close>), which takes the place of \<open>memide.c\<close> when the file system is on a disk.
  The controller is not part of the repository: what its status register shows and what its data port
  delivers are the parameter \<open>ide_dev\<close>, functions of everything the driver has written to the ports so
  far (and, for the status, of the number of times it was read). A buffer is an index, as in the buffer
  cache; \<open>qnext\<close> links the queue of requests.
\<close>

subsection \<open>State\<close>

datatype port_op = Outb u16 byte | Outsl u16 block

record ide_dev =
  dev_status :: "port_op list \<Rightarrow> nat \<Rightarrow> byte"
  dev_data :: "port_op list \<Rightarrow> block"

record ide_st =
  ide_bufs :: "nat \<Rightarrow> buf"
  idequeue :: "nat option"
  qnext :: "nat \<Rightarrow> nat option"
  havedisk1 :: bool
  ports :: "port_op list"
  polls :: nat

definition ide_buf :: "nat \<Rightarrow> (buf \<Rightarrow> buf) \<Rightarrow> ide_st \<Rightarrow> ide_st" where
  "ide_buf i f s = s\<lparr>ide_bufs := (ide_bufs s)(i := f (ide_bufs s i))\<rparr>"

definition outs :: "port_op list \<Rightarrow> ide_st \<Rightarrow> ide_st" where
  "outs ops s = s\<lparr>ports := ports s @ ops\<rparr>"

subsection \<open>The driver\<close>

text \<open>Reading the status until the disk is ready: the last value and the number of reads so far.\<close>

partial_function (option) poll_ready :: "(nat \<Rightarrow> byte) \<Rightarrow> nat \<Rightarrow> (byte \<times> nat) option" where
  "poll_ready st n = (let r = st n in if r AND (0x80 OR 0x40) \<noteq> 0x40 then poll_ready st (n + 1) else Some (r, n + 1))"

text \<open>A disk that never gets ready is waited for for ever.\<close>

definition idewait :: "ide_dev \<Rightarrow> bool \<Rightarrow> ide_st \<Rightarrow> (int \<times> ide_st) outcome" where
  "idewait dv checkerr s =
    (case poll_ready (dev_status dv (ports s)) (polls s) of
       None \<Rightarrow> Sleeps
     | Some (r, n) \<Rightarrow> Done (if checkerr \<and> r AND (0x20 OR 0x01) \<noteq> 0 then -1 else 0, s\<lparr>polls := n\<rparr>))"

text \<open>The probe for disk 1 stops at the first status that is not 0.\<close>

definition ideinit :: "ide_dev \<Rightarrow> ide_st \<Rightarrow> ide_st outcome" where
  "ideinit dv s =
    bindS (idewait dv False s) (\<lambda>_ s.
      let s = outs [Outb 0x1f6 (0xe0 OR push_bit 4 1)] s;
          s = (case first_index (\<lambda>i. dev_status dv (ports s) (polls s + i) \<noteq> 0) 1000 of
                 None \<Rightarrow> s\<lparr>polls := polls s + 1000\<rparr>
               | Some i \<Rightarrow> s\<lparr>polls := polls s + i + 1, havedisk1 := True\<rparr>)
      in Done (outs [Outb 0x1f6 (0xe0 OR push_bit 4 0)] s))"

definition start_ops :: "buf \<Rightarrow> port_op list" where
  "start_ops b =
    (let sector_per_block = (512 :: u32) div 512;
         sector = b_blockno b * sector_per_block;
         read_cmd = (if sector_per_block = 1 then 0x20 else 0xc4);
         write_cmd = (if sector_per_block = 1 then 0x30 else 0xc5)
     in [Outb 0x3f6 0, Outb 0x1f2 (ucast sector_per_block), Outb 0x1f3 (ucast (sector AND 0xff)),
         Outb 0x1f4 (ucast (signed_drop_bit 8 sector AND 0xff)), Outb 0x1f5 (ucast (signed_drop_bit 16 sector AND 0xff)),
         Outb 0x1f6 (ucast (0xe0 OR push_bit 4 (b_dev b AND 1) OR (signed_drop_bit 24 sector AND 0x0f)))]
        @ (if b_dirty b then [Outb 0x1f7 write_cmd, Outsl 0x1f0 (b_data b)] else [Outb 0x1f7 read_cmd]))"

definition idestart :: "ide_dev \<Rightarrow> nat \<Rightarrow> ide_st \<Rightarrow> ide_st outcome" where
  "idestart dv b s =
    (if b_blockno (ide_bufs s b) \<ge> of_nat FSSIZE then Panic ''incorrect blockno''
     else bindS (idewait dv False s) (\<lambda>_ s. Done (outs (start_ops (ide_bufs s b)) s)))"

text \<open>\<open>insl\<close> of the data port into the buffer.\<close>

definition insl_data :: "ide_dev \<Rightarrow> nat \<Rightarrow> ide_st \<Rightarrow> ide_st" where
  "insl_data dv b s = ide_buf b (\<lambda>x. x\<lparr>b_data := dev_data dv (ports s)\<rparr>) s"

definition ideintr :: "ide_dev \<Rightarrow> ide_st \<Rightarrow> ide_st outcome" where
  "ideintr dv s =
    (case idequeue s of
       None \<Rightarrow> Done s
     | Some b \<Rightarrow>
         let s = s\<lparr>idequeue := qnext s b\<rparr> in
         bindO (if \<not> b_dirty (ide_bufs s b) then
                  bindS (idewait dv True s) (\<lambda>r s. Done (if r \<ge> 0 then insl_data dv b s else s))
                else Done s) (\<lambda>s.
           let s = ide_buf b (\<lambda>x. x\<lparr>b_valid := True, b_dirty := False\<rparr>) s in
           case idequeue s of
             None \<Rightarrow> Done s
           | Some q \<Rightarrow> idestart dv q s))"

text \<open>
  The walk to the last request; the buffers of the queue are among the \<open>NBUF\<close> buffers of the cache, so
  that a longer walk would go in circles.
\<close>

fun queue_last :: "nat \<Rightarrow> (nat \<Rightarrow> nat option) \<Rightarrow> nat \<Rightarrow> nat option" where
  "queue_last 0 nx b = None"
| "queue_last (Suc k) nx b = (case nx b of None \<Rightarrow> Some b | Some c \<Rightarrow> queue_last k nx c)"

definition append_queue :: "nat \<Rightarrow> ide_st \<Rightarrow> ide_st outcome" where
  "append_queue b s =
    (let s = s\<lparr>qnext := (qnext s)(b := None)\<rparr> in
     case idequeue s of
       None \<Rightarrow> Done (s\<lparr>idequeue := Some b\<rparr>)
     | Some h \<Rightarrow>
         (case queue_last NBUF (qnext s) h of
            None \<Rightarrow> Undef
          | Some l \<Rightarrow> Done (s\<lparr>qnext := (qnext s)(l := Some b)\<rparr>)))"

text \<open>\<open>iderw\<close> up to its first \<open>sleep\<close>; it returns when \<open>ide_finished\<close> holds.\<close>

definition iderw_ide :: "ide_dev \<Rightarrow> nat \<Rightarrow> ide_st \<Rightarrow> ide_st outcome" where
  "iderw_ide dv b s =
    (let x = ide_bufs s b in
     if \<not> holdingsleep (b_lock x) then Panic ''iderw: buf not locked''
     else if b_valid x \<and> \<not> b_dirty x then Panic ''iderw: nothing to do''
     else if b_dev x \<noteq> 0 \<and> \<not> havedisk1 s then Panic ''iderw: ide disk 1 not present''
     else bindO (append_queue b s) (\<lambda>s. if idequeue s = Some b then idestart dv b s else Done s))"

definition ide_finished :: "nat \<Rightarrow> ide_st \<Rightarrow> bool" where
  "ide_finished b s \<longleftrightarrow> b_valid (ide_bufs s b) \<and> \<not> b_dirty (ide_bufs s b)"

end
