(* ===== verification/IdeSpec.thy ===== *)
theory IdeSpec
  imports Ide
begin

text \<open>
  The IDE driver in front of a disk that behaves as the ATA standard says refines the memory disk driver
  \<open>memide.c\<close> (\<open>iderw\<close> of theory \<open>BufCache\<close>).
\<close>

subsection \<open>The disk behind the ports\<close>

text \<open>
  What the ATA standard says of a disk without DMA: the registers keep what was written last, the sector
  number is in 0x1f3 to 0x1f6 with the drive in bit 4 of 0x1f6, command 0x30 followed by 512 bytes at the
  data port writes a sector.
\<close>

record disk =
  regs :: "u16 \<Rightarrow> byte"
  sectors :: "bool \<Rightarrow> u32 \<Rightarrow> block"

definition lba :: "disk \<Rightarrow> u32" where
  "lba d = ucast (regs d 0x1f3) OR push_bit 8 (ucast (regs d 0x1f4)) OR push_bit 16 (ucast (regs d 0x1f5))
     OR push_bit 24 (ucast (regs d 0x1f6 AND 0x0f))"

definition drive :: "disk \<Rightarrow> bool" where
  "drive d = bit (regs d 0x1f6) 4"

fun disk_op :: "port_op \<Rightarrow> disk \<Rightarrow> disk" where
  "disk_op (Outb p v) d = d\<lparr>regs := (regs d)(p := v)\<rparr>"
| "disk_op (Outsl p x) d =
    (if p = 0x1f0 \<and> regs d 0x1f7 = 0x30 then d\<lparr>sectors := (sectors d)(drive d := (sectors d (drive d))(lba d := x))\<rparr> else d)"

definition disk_after :: "disk \<Rightarrow> port_op list \<Rightarrow> disk" where
  "disk_after d ops = fold disk_op ops d"

definition sector_data :: "disk \<Rightarrow> block" where
  "sector_data d = sectors d (drive d) (lba d)"

text \<open>
  The controller is one for the disk \<open>d\<close>: after each write to a port it gets ready some time and then shows
  no error, and behind a read command (0x20) the data port delivers the sector.
\<close>

definition ide_device :: "disk \<Rightarrow> ide_dev \<Rightarrow> bool" where
  "ide_device d dv \<longleftrightarrow> (\<forall>tr n. \<exists>k. dev_status dv tr (n + k) AND 0xC0 = 0x40)
     \<and> (\<forall>tr n. dev_status dv tr n AND 0xC0 = 0x40 \<longrightarrow> dev_status dv tr n AND 0x21 = 0)
     \<and> (\<forall>tr. regs (disk_after d tr) 0x1f7 = 0x20 \<longrightarrow> dev_data dv tr = sector_data (disk_after d tr))"

lemma disk_after_append: "disk_after d (xs @ ys) = disk_after (disk_after d xs) ys"
  by (simp add: disk_after_def)

lemma poll_ready_ends:
  assumes "st (n + k) AND 0xC0 = (0x40 :: byte)"
  shows "\<exists>r m. poll_ready st n = Some (r, m) \<and> r AND 0xC0 = 0x40 \<and> (\<exists>i. r = st i)"
  using assms
proof (induction k arbitrary: n)
  case 0
  then show ?case by (subst poll_ready.simps) (auto simp: Let_def)
next
  case (Suc k)
  show ?case
  proof (cases "st n AND 0xC0 = 0x40")
    case True
    then show ?thesis by (subst poll_ready.simps) (auto simp: Let_def)
  next
    case False
    then show ?thesis
      using Suc.IH [of "n + 1"] Suc.prems by (subst poll_ready.simps) (simp add: Let_def)
  qed
qed

lemma idewait_Done:
  assumes "ide_device d dv"
  shows "\<exists>n. idewait dv c s = Done (0, s\<lparr>polls := n\<rparr>)"
proof -
  obtain k where k: "dev_status dv (ports s) (polls s + k) AND 0xC0 = 0x40"
    using assms unfolding ide_device_def by blast
  obtain r m i where r: "poll_ready (dev_status dv (ports s)) (polls s) = Some (r, m)" "r AND 0xC0 = 0x40" "r = dev_status dv (ports s) i"
    using poll_ready_ends [of "dev_status dv (ports s)" "polls s" k, OF k] by blast
  then have "r AND 0x21 = 0"
    using assms unfolding ide_device_def by blast
  then show ?thesis
    by (intro exI [of _ m]) (simp add: idewait_def r(1))
qed

text \<open>A command addresses the block of its buffer.\<close>

lemma start_ops_regs:
  fixes d :: disk
  assumes "b_dev b = 1" "b_blockno b < of_nat FSSIZE"
  defines "e \<equiv> fold disk_op [Outb 0x3f6 0, Outb 0x1f2 1, Outb 0x1f3 (ucast (b_blockno b AND 0xff)),
         Outb 0x1f4 (ucast (signed_drop_bit 8 (b_blockno b) AND 0xff)), Outb 0x1f5 (ucast (signed_drop_bit 16 (b_blockno b) AND 0xff)),
         Outb 0x1f6 (ucast (0xe0 OR push_bit 4 (b_dev b AND 1) OR (signed_drop_bit 24 (b_blockno b) AND 0x0f)))] d"
  shows "lba e = b_blockno b" "drive e" "sectors e = sectors d"
proof -
  have small: "\<not> bit (b_blockno b) n" if "11 \<le> n" for n
  proof -
    have "unat (b_blockno b) < 2 ^ 11"
      using assms(2) by (simp add: word_less_nat_alt)
    then have "b_blockno b = take_bit 11 (b_blockno b)"
      by (simp add: word_unat_eq_iff unsigned_take_bit_eq take_bit_nat_eq_self)
    then show ?thesis
      using that bit_take_bit_iff [of 11 "b_blockno b" n] by simp
  qed
  define n where "n = b_blockno b"
  have r: "regs e 0x1f3 = ucast (n AND 0xff)" "regs e 0x1f4 = ucast (signed_drop_bit 8 n AND 0xff)"
    "regs e 0x1f5 = ucast (signed_drop_bit 16 n AND 0xff)" "regs e 0x1f6 = ucast (0xf0 OR (signed_drop_bit 24 n AND 0x0f))"
    by (simp_all add: e_def n_def assms(1) or.assoc [symmetric])
  show "sectors e = sectors d"
    by (simp add: e_def)
  have m: "(0xff :: u32) = mask 8" "(0x0f :: u32) = mask 4" "(0x0f :: byte) = mask 4" "(0xf0 :: u32) = push_bit 4 (mask 4)"
    by (simp_all add: mask_eq_exp_minus_1)
  show "drive e"
    by (simp add: drive_def r m bit_simps)
  show "lba e = b_blockno b"
  proof (rule bit_word_eqI)
    fix i
    assume i: "i < LENGTH(32)"
    consider "i < 8" | "8 \<le> i" "i < 16" | "16 \<le> i" "i < 24" | "24 \<le> i"
      by linarith
    then show "bit (lba e) i = bit (b_blockno b) i"
      using i by cases (auto simp: lba_def r m bit_simps small n_def)
  qed
qed

text \<open>What a started request does to the disk.\<close>

definition ide_needs :: "buf \<Rightarrow> bool" where
  "ide_needs x \<longleftrightarrow> holdingsleep (b_lock x) \<and> \<not> (b_valid x \<and> \<not> b_dirty x) \<and> b_dev x = 1 \<and> b_blockno x < of_nat FSSIZE"

lemma start_ops_disk:
  fixes d :: disk
  assumes "ide_needs x"
  defines "e \<equiv> disk_after d (start_ops x)"
  shows "sectors e True = (if b_dirty x then (sectors d True)(b_blockno x := b_data x) else sectors d True)"
    "\<not> b_dirty x \<Longrightarrow> regs e 0x1f7 = 0x20 \<and> drive e \<and> lba e = b_blockno x"
proof -
  define ops where "ops = [Outb 0x3f6 0, Outb 0x1f2 1, Outb 0x1f3 (ucast (b_blockno x AND 0xff)),
         Outb 0x1f4 (ucast (signed_drop_bit 8 (b_blockno x) AND 0xff)), Outb 0x1f5 (ucast (signed_drop_bit 16 (b_blockno x) AND 0xff)),
         Outb 0x1f6 (ucast (0xe0 OR push_bit 4 (b_dev x AND 1) OR (signed_drop_bit 24 (b_blockno x) AND 0x0f)))]"
  define c where "c = fold disk_op ops d"
  have n: "b_dev x = 1" "b_blockno x < of_nat FSSIZE"
    using assms(1) by (simp_all add: ide_needs_def)
  have c: "lba c = b_blockno x" "drive c" "sectors c = sectors d"
    unfolding c_def ops_def by (rule start_ops_regs [OF n])+
  have o: "start_ops x = ops @ (if b_dirty x then [Outb 0x1f7 0x30, Outsl 0x1f0 (b_data x)] else [Outb 0x1f7 0x20])"
    by (simp add: start_ops_def ops_def Let_def)
  have e: "e = (if b_dirty x then disk_op (Outsl 0x1f0 (b_data x)) (disk_op (Outb 0x1f7 0x30) c) else disk_op (Outb 0x1f7 0x20) c)"
    unfolding e_def o disk_after_def c_def by simp
  have l: "lba (c\<lparr>regs := (regs c)(0x1f7 := v)\<rparr>) = lba c" "drive (c\<lparr>regs := (regs c)(0x1f7 := v)\<rparr>) = drive c" for v
    by (simp_all add: lba_def drive_def)
  show "sectors e True = (if b_dirty x then (sectors d True)(b_blockno x := b_data x) else sectors d True)"
    by (simp add: e l c)
  show "\<not> b_dirty x \<Longrightarrow> regs e 0x1f7 = 0x20 \<and> drive e \<and> lba e = b_blockno x"
    by (simp add: e l c)
qed

lemma idestart_Done:
  assumes "ide_device d dv" "ide_needs (ide_bufs s b)"
  shows "\<exists>n. idestart dv b s = Done (outs (start_ops (ide_bufs s b)) (s\<lparr>polls := n\<rparr>))"
  using assms(2) idewait_Done [OF assms(1), of False s] by (auto simp: idestart_def ide_needs_def not_le)

subsection \<open>The queue\<close>

fun chain :: "(nat \<Rightarrow> nat option) \<Rightarrow> nat option \<Rightarrow> nat list \<Rightarrow> bool" where
  "chain nx q [] \<longleftrightarrow> q = None"
| "chain nx q (b # bs) \<longleftrightarrow> q = Some b \<and> chain nx (nx b) bs"

fun walk :: "nat \<Rightarrow> (nat \<Rightarrow> nat option) \<Rightarrow> nat option \<Rightarrow> nat list" where
  "walk 0 nx q = []"
| "walk (Suc k) nx q = (case q of None \<Rightarrow> [] | Some b \<Rightarrow> b # walk k nx (nx b))"

definition queue_list :: "ide_st \<Rightarrow> nat list" where
  "queue_list s = walk NBUF (qnext s) (idequeue s)"

lemma chain_walk: "chain nx q bs \<Longrightarrow> length bs \<le> k \<Longrightarrow> walk k nx q = bs"
proof (induction bs arbitrary: q k)
  case Nil
  then show ?case by (cases k) simp_all
next
  case (Cons b bs)
  then show ?case by (cases k) simp_all
qed

lemma reg_chain_cong: "chain nx q bs \<Longrightarrow> (\<And>b. b \<in> set bs \<Longrightarrow> nx' b = nx b) \<Longrightarrow> chain nx' q bs"
  by (induction bs arbitrary: q) auto

lemma chain_last: "chain nx (Some h) bs \<Longrightarrow> length bs \<le> k \<Longrightarrow> queue_last k nx h = Some (last bs)"
proof (induction bs arbitrary: h k)
  case (Cons b bs)
  then obtain j where k: "k = Suc j" "length bs \<le> j"
    by (cases k) auto
  then show ?case
    using Cons by (cases bs) auto
qed simp

lemma chain_snoc: "chain nx q bs \<Longrightarrow> bs \<noteq> [] \<Longrightarrow> distinct bs \<Longrightarrow> b \<notin> set bs \<Longrightarrow> nx b = None \<Longrightarrow> chain (nx(last bs := Some b)) q (bs @ [b])"
proof (induction bs arbitrary: q)
  case (Cons c bs)
  show ?case
  proof (cases "bs = []")
    case True
    then show ?thesis using Cons.prems by auto
  next
    case False
    have "chain (nx(last bs := Some b)) (nx c) (bs @ [b])"
      using Cons.prems False by (intro Cons.IH) auto
    moreover have "(nx(last bs := Some b)) c = nx c" "last (c # bs) = last bs"
      using Cons.prems(3) False by auto
    moreover have "q = Some c"
      using Cons.prems(1) by simp
    ultimately show ?thesis
      unfolding append_Cons chain.simps by metis
  qed
qed simp

lemma queue_list_eq:
  assumes "chain (qnext s) (idequeue s) bs" "distinct bs" "set bs \<subseteq> {..<NBUF}"
  shows "queue_list s = bs" "length bs \<le> NBUF"
proof -
  have "card (set bs) \<le> card {..<NBUF}"
    using assms(3) by (intro card_mono) simp_all
  then show l: "length bs \<le> NBUF"
    using distinct_card [OF assms(2)] by simp
  show "queue_list s = bs"
    unfolding queue_list_def using chain_walk [OF assms(1) l] .
qed

lemma append_queue_Done:
  assumes "chain (qnext s) (idequeue s) bs" "distinct bs" "set bs \<subseteq> {..<NBUF}" "b \<notin> set bs"
  shows "\<exists>q nx. append_queue b s = Done (s\<lparr>qnext := nx, idequeue := q\<rparr>) \<and> chain nx q (bs @ [b]) \<and> q = Some (hd (bs @ [b]))"
proof (cases bs)
  case Nil
  then show ?thesis
    using assms(1) by (intro exI [of _ "Some b"] exI [of _ "(qnext s)(b := None)"]) (simp add: append_queue_def Let_def)
next
  case (Cons h bs')
  let ?nx = "(qnext s)(b := None)"
  have l: "length bs \<le> NBUF"
    using queue_list_eq assms by blast
  have c: "chain ?nx (Some h) bs"
    using assms(1,4) Cons by (auto intro: reg_chain_cong)
  then have "queue_last NBUF ?nx h = Some (last bs)"
    using l by (rule chain_last)
  moreover have "chain (?nx(last bs := Some b)) (Some h) (bs @ [b])"
    using chain_snoc [OF c _ assms(2,4)] Cons by simp
  moreover have "idequeue s = Some h"
    using assms(1) Cons by simp
  ultimately show ?thesis
    using Cons by (intro exI [of _ "Some h"] exI [of _ "?nx(last bs := Some b)"]) (cases s, simp add: append_queue_def Let_def)
qed

subsection \<open>Refinement of the memory disk\<close>

text \<open>
  \<open>k\<close> is the state that the driver \<open>memide.c\<close> has reached with the requests finished so far, \<open>bs\<close> are the
  pending ones. The disk is ahead of \<open>k\<close> by the write that is under way.
\<close>

definition ide_sim :: "disk \<Rightarrow> ide_st \<Rightarrow> kst \<Rightarrow> nat list \<Rightarrow> bool" where
  "ide_sim d s k bs \<longleftrightarrow> chain (qnext s) (idequeue s) bs \<and> distinct bs \<and> set bs \<subseteq> {..<NBUF} \<and> havedisk1 s
     \<and> ide_bufs s = bufs k \<and> disksize k = of_nat FSSIZE \<and> (\<forall>b\<in>set bs. ide_needs (bufs k b))
     \<and> (case bs of [] \<Rightarrow> sectors (disk_after d (ports s)) True = memdisk k
        | h # _ \<Rightarrow> let x = bufs k h; e = disk_after d (ports s) in
            sectors e True = (if b_dirty x then (memdisk k)(b_blockno x := b_data x) else memdisk k)
            \<and> (\<not> b_dirty x \<longrightarrow> regs e 0x1f7 = 0x20 \<and> drive e \<and> lba e = b_blockno x))"

lemma ide_sim_start:
  assumes dv: "ide_device d dv"
    and s: "chain (qnext s) (idequeue s) (b # bs)" "distinct (b # bs)" "set (b # bs) \<subseteq> {..<NBUF}" "havedisk1 s"
      "ide_bufs s = bufs k" "disksize k = of_nat FSSIZE" "\<forall>b\<in>set (b # bs). ide_needs (bufs k b)"
    and m: "sectors (disk_after d (ports s)) True = memdisk k"
  shows "\<exists>u. idestart dv b s = Done u \<and> ide_sim d u k (b # bs)"
proof -
  have n: "ide_needs (ide_bufs s b)"
    using s by simp
  obtain n where u: "idestart dv b s = Done (outs (start_ops (ide_bufs s b)) (s\<lparr>polls := n\<rparr>))"
    using idestart_Done [OF dv n] by blast
  have "ide_sim d (outs (start_ops (ide_bufs s b)) (s\<lparr>polls := n\<rparr>)) k (b # bs)"
    unfolding ide_sim_def using s m start_ops_disk [OF n, of "disk_after d (ports s)"]
    by (simp add: outs_def disk_after_append Let_def)
  then show ?thesis
    using u by blast
qed

lemma ide_sim_request:
  assumes dv: "ide_device d dv" and s: "ide_sim d s k bs" and b: "b < NBUF" "b \<notin> set bs" "ide_needs (ide_bufs s b)"
  shows "\<exists>u. iderw_ide dv b s = Done u \<and> ide_sim d u k (bs @ [b])"
proof -
  have c: "chain (qnext s) (idequeue s) bs" "distinct bs" "set bs \<subseteq> {..<NBUF}" "havedisk1 s" "ide_bufs s = bufs k"
    "disksize k = of_nat FSSIZE" "\<forall>b\<in>set bs. ide_needs (bufs k b)"
    using s by (simp_all add: ide_sim_def)
  obtain q nx where a: "append_queue b s = Done (s\<lparr>qnext := nx, idequeue := q\<rparr>)" "chain nx q (bs @ [b])" "q = Some (hd (bs @ [b]))"
    using append_queue_Done [OF c(1-3) b(2)] by blast
  have r: "iderw_ide dv b s = (if q = Some b then idestart dv b (s\<lparr>qnext := nx, idequeue := q\<rparr>) else Done (s\<lparr>qnext := nx, idequeue := q\<rparr>))"
    using b(3) c(4) by (auto simp: iderw_ide_def Let_def a(1) ide_needs_def)
  show ?thesis
  proof (cases bs)
    case Nil
    have "\<exists>u. idestart dv b (s\<lparr>qnext := nx, idequeue := q\<rparr>) = Done u \<and> ide_sim d u k [b]"
      using a b c s Nil by (intro ide_sim_start [OF dv]) (simp_all add: ide_sim_def)
    then show ?thesis
      using r a(3) Nil by simp
  next
    case (Cons h t)
    have "ide_sim d (s\<lparr>qnext := nx, idequeue := q\<rparr>) k (bs @ [b])"
      using a b c s Cons by (simp add: ide_sim_def Let_def)
    then show ?thesis
      using r a(3) Cons b(2) by simp
  qed
qed

lemma ide_sim_interrupt:
  assumes dv: "ide_device d dv" and s: "ide_sim d s k (h # bs)"
  shows "\<exists>u k'. ideintr dv s = Done u \<and> iderw h k = Done k' \<and> ide_sim d u k' bs \<and> ide_finished h u"
proof -
  have c: "idequeue s = Some h" "chain (qnext s) (qnext s h) bs" "h \<notin> set bs" "distinct bs" "set bs \<subseteq> {..<NBUF}" "havedisk1 s"
    "ide_bufs s = bufs k" "disksize k = of_nat FSSIZE" "ide_needs (bufs k h)" "\<forall>b\<in>set bs. ide_needs (bufs k b)"
    using s by (simp_all add: ide_sim_def)
  define x where "x = bufs k h"
  define e where "e = disk_after d (ports s)"
  have m: "sectors e True = (if b_dirty x then (memdisk k)(b_blockno x := b_data x) else memdisk k)"
    and rd: "\<not> b_dirty x \<Longrightarrow> regs e 0x1f7 = 0x20 \<and> drive e \<and> lba e = b_blockno x"
    using s by (simp_all add: ide_sim_def Let_def x_def e_def)
  define y where "y = (if b_dirty x then x\<lparr>b_dirty := False, b_valid := True\<rparr> else x\<lparr>b_data := memdisk k (b_blockno x), b_valid := True\<rparr>)"
  define k' where "k' = (if b_dirty x then upd_buf h (\<lambda>x. x\<lparr>b_dirty := False, b_valid := True\<rparr>)
         (k\<lparr>memdisk := (memdisk k)(b_blockno x := b_data x), dwrites := dwrites k @ [(b_blockno x, b_data x)]\<rparr>)
       else upd_buf h (\<lambda>z. z\<lparr>b_data := memdisk k (b_blockno x), b_valid := True\<rparr>) k)"
  have k': "iderw h k = Done k'"
    using c(8,9) by (auto simp: iderw_def Let_def ide_needs_def k'_def x_def not_le)
  have bk: "bufs k' = (bufs k)(h := y)" "memdisk k' = sectors e True" "disksize k' = disksize k"
    using m by (simp_all add: k'_def y_def x_def upd_buf_def)
  have "\<exists>n. (if \<not> b_dirty (ide_bufs s h) then
         bindS (idewait dv True (s\<lparr>idequeue := qnext s h\<rparr>)) (\<lambda>r s. Done (if r \<ge> 0 then insl_data dv h s else s))
       else Done (s\<lparr>idequeue := qnext s h\<rparr>))
     = Done (s\<lparr>idequeue := qnext s h, ide_bufs := (bufs k)(h := if b_dirty x then x else x\<lparr>b_data := memdisk k (b_blockno x)\<rparr>), polls := n\<rparr>)"
  proof (cases "b_dirty x")
    case True
    then show ?thesis
      using c(7) by (intro exI [of _ "polls s"]) (cases s, simp add: x_def fun_upd_idem)
  next
    case False
    have "dev_data dv (ports s) = memdisk k (b_blockno x)"
      using dv rd [OF False] m False unfolding ide_device_def by (simp add: e_def sector_data_def)
    moreover obtain n where "idewait dv True (s\<lparr>idequeue := qnext s h\<rparr>) = Done (0, s\<lparr>idequeue := qnext s h, polls := n\<rparr>)"
      using idewait_Done [OF dv, of True "s\<lparr>idequeue := qnext s h\<rparr>"] by auto
    ultimately show ?thesis
      using False c(7) by (intro exI [of _ n]) (cases s, simp add: insl_data_def ide_buf_def x_def)
  qed
  then obtain n where w: "(if \<not> b_dirty (ide_bufs s h) then
         bindS (idewait dv True (s\<lparr>idequeue := qnext s h\<rparr>)) (\<lambda>r s. Done (if r \<ge> 0 then insl_data dv h s else s))
       else Done (s\<lparr>idequeue := qnext s h\<rparr>))
     = Done (s\<lparr>idequeue := qnext s h, ide_bufs := (bufs k)(h := if b_dirty x then x else x\<lparr>b_data := memdisk k (b_blockno x)\<rparr>), polls := n\<rparr>)"
    by blast
  define s' where "s' = s\<lparr>idequeue := qnext s h, ide_bufs := bufs k', polls := n\<rparr>"
  define z where "z = s\<lparr>idequeue := qnext s h, ide_bufs := (bufs k)(h := if b_dirty x then x else x\<lparr>b_data := memdisk k (b_blockno x)\<rparr>), polls := n\<rparr>"
  note w = w [folded z_def]
  have "ide_buf h (\<lambda>x. x\<lparr>b_valid := True, b_dirty := False\<rparr>)
      (s\<lparr>idequeue := qnext s h, ide_bufs := (bufs k)(h := if b_dirty x then x else x\<lparr>b_data := memdisk k (b_blockno x)\<rparr>), polls := n\<rparr>) = s'"
    unfolding s'_def bk(1) by (cases s; cases x) (simp add: ide_buf_def y_def)
  then have zs: "ide_buf h (\<lambda>x. x\<lparr>b_valid := True, b_dirty := False\<rparr>) z = s'"
    by (simp only: z_def)
  have "idequeue s' = qnext s h"
    by (simp add: s'_def)
  then have r: "ideintr dv s = (case qnext s h of None \<Rightarrow> Done s' | Some q \<Rightarrow> idestart dv q s')"
    using w zs by (simp add: ideintr_def c(1) Let_def) (metis zs)
  have y: "b_valid y" "\<not> b_dirty y"
    by (simp_all add: y_def)
  have needs: "\<forall>b\<in>set bs. ide_needs (bufs k' b)"
    using c(3,10) by (auto simp: bk(1))
  show ?thesis
  proof (cases bs)
    case Nil
    then have "qnext s h = None"
      using c(2) by simp
    moreover have "ide_sim d s' k' []"
      using c Nil by (simp add: ide_sim_def s'_def bk(2,3) e_def)
    moreover have "ide_finished h s'"
      using y by (simp add: ide_finished_def s'_def bk(1))
    ultimately show ?thesis
      using r k' Nil by simp
  next
    case (Cons q t)
    then have q: "qnext s h = Some q"
      using c(2) by simp
    have "\<exists>u. idestart dv q s' = Done u \<and> ide_sim d u k' (q # t)"
      using c needs Cons by (intro ide_sim_start [OF dv]) (simp_all add: s'_def bk(2,3) e_def)
    then obtain u where u: "idestart dv q s' = Done u" "ide_sim d u k' (q # t)"
      by blast
    then have "ide_finished h u"
      using y by (simp add: ide_finished_def ide_sim_def bk(1))
    then show ?thesis
      using r q u k' Cons by auto
  qed
qed

subsection \<open>Runs\<close>

text \<open>
  Requests of processes and interrupts in any order: \<open>rs\<close> are the buffers requested so far. A process
  requests a buffer whose sleep lock it holds, so that one buffer is never in the queue twice.
\<close>

inductive ide_run :: "ide_dev \<Rightarrow> ide_st \<Rightarrow> nat list \<Rightarrow> ide_st \<Rightarrow> bool" for dv s where
  start: "ide_run dv s [] s"
| request: "ide_run dv s rs t \<Longrightarrow> b < NBUF \<Longrightarrow> b \<notin> set (queue_list t) \<Longrightarrow> ide_needs (ide_bufs t b) \<Longrightarrow> iderw_ide dv b t = Done u
    \<Longrightarrow> ide_run dv s (rs @ [b]) u"
| interrupt: "ide_run dv s rs t \<Longrightarrow> ideintr dv t = Done u \<Longrightarrow> ide_run dv s rs u"

lemma ide_sim_queue: "ide_sim d u k bs \<Longrightarrow> queue_list u = bs"
  using queue_list_eq(1) [of u bs] by (simp add: ide_sim_def)

text \<open>Every run is simulated: some requests are done, the others are in the queue.\<close>

lemma ide_run_sim:
  assumes dv: "ide_device d dv" and s: "ide_sim d s k []" and run: "ide_run dv s rs t"
  shows "\<exists>dn bs k'. rs = dn @ bs \<and> foldO iderw dn k = Done k' \<and> ide_sim d t k' bs"
  using run
proof induction
  case start
  then show ?case
    using s by (intro exI [of _ "[]"] exI [of _ k]) simp
next
  case (request rs t b u)
  then obtain dn bs k' where h: "rs = dn @ bs" "foldO iderw dn k = Done k'" "ide_sim d t k' bs"
    by blast
  then have "\<exists>u. iderw_ide dv b t = Done u \<and> ide_sim d u k' (bs @ [b])"
    using request.hyps ide_sim_queue [OF h(3)] by (intro ide_sim_request [OF dv]) simp_all
  then show ?case
    using h request.hyps by (intro exI [of _ dn] exI [of _ "bs @ [b]"] exI [of _ k']) auto
next
  case (interrupt rs t u)
  then obtain dn bs k' where h: "rs = dn @ bs" "foldO iderw dn k = Done k'" "ide_sim d t k' bs"
    by blast
  show ?case
  proof (cases bs)
    case Nil
    then have "idequeue t = None"
      using h(3) by (simp add: ide_sim_def)
    then have "u = t"
      using interrupt.hyps by (simp add: ideintr_def)
    then show ?thesis
      using h by blast
  next
    case (Cons b bs')
    then obtain k2 where k2: "iderw b k' = Done k2" "ide_sim d u k2 bs'"
      using ide_sim_interrupt [OF dv] h(3) interrupt.hyps by fastforce
    then have "foldO iderw (dn @ [b]) k = Done k2"
      using h(2) by (simp add: foldO_append)
    then show ?thesis
      using h(1) Cons k2(2) by (intro exI [of _ "dn @ [b]"] exI [of _ bs'] exI [of _ k2]) simp
  qed
qed

text \<open>
  C36. The IDE driver, with a device that reports no error, does what the memory disk does. The requests and interrupts come
  in any order; no other code touches the buffers in between, so that a buffer is requested at most once. After any such run the
  requests finished are the first ones, in order, the buffers are those that \<open>iderw\<close> of \<open>memide.c\<close> leaves when it is called for
  these requests one after the other, and so is the disk when nothing is pending. No request and no interrupt
  panics or hangs, and every interrupt finishes the first pending request.
\<close>

theorem ide_is_memory_disk:
  assumes dv: "ide_device d dv" and s: "idequeue s = None" "havedisk1 s"
    and k: "ide_bufs s = bufs k" "disksize k = of_nat FSSIZE" "sectors (disk_after d (ports s)) True = memdisk k"
    and run: "ide_run dv s rs t"
  shows "\<exists>served pending k'. rs = served @ pending \<and> queue_list t = pending \<and> foldO iderw served k = Done k' \<and> ide_bufs t = bufs k'
    \<and> (pending = [] \<longrightarrow> sectors (disk_after d (ports t)) True = memdisk k')
    \<and> (\<forall>b<NBUF. b \<notin> set pending \<longrightarrow> ide_needs (ide_bufs t b) \<longrightarrow> (\<exists>u. iderw_ide dv b t = Done u \<and> queue_list u = pending @ [b]))
    \<and> (\<exists>u. ideintr dv t = Done u \<and> queue_list u = tl pending \<and> (pending \<noteq> [] \<longrightarrow> ide_finished (hd pending) u))"
proof -
  note q = ide_sim_queue
  have "ide_sim d s k []"
    using s k by (simp add: ide_sim_def)
  then obtain dn bs k' where h: "rs = dn @ bs" "foldO iderw dn k = Done k'" "ide_sim d t k' bs"
    using ide_run_sim [OF dv _ run] by blast
  have req: "\<forall>b<NBUF. b \<notin> set bs \<longrightarrow> ide_needs (ide_bufs t b) \<longrightarrow> (\<exists>u. iderw_ide dv b t = Done u \<and> queue_list u = bs @ [b])"
    using ide_sim_request [OF dv h(3)] q by blast
  have intr: "\<exists>u. ideintr dv t = Done u \<and> queue_list u = tl bs \<and> (bs \<noteq> [] \<longrightarrow> ide_finished (hd bs) u)"
  proof (cases bs)
    case Nil
    then show ?thesis
      using h(3) q [OF h(3)] by (simp add: ideintr_def ide_sim_def)
  next
    case (Cons b bs')
    then show ?thesis
      using ide_sim_interrupt [OF dv, of t k' b bs'] h(3) q by fastforce
  qed
  have "bs = [] \<longrightarrow> sectors (disk_after d (ports t)) True = memdisk k'" "ide_bufs t = bufs k'"
    using h(3) by (auto simp: ide_sim_def)
  then show ?thesis
    using h req intr q [OF h(3)] by blast
qed

definition demo_disk :: disk where
  "demo_disk = \<lparr>regs = (\<lambda>_. 0), sectors = (\<lambda>_ _. zero_block)\<rparr>"

definition demo_controller :: ide_dev where
  "demo_controller = \<lparr>dev_status = (\<lambda>_ _. 0x40), dev_data = (\<lambda>tr. sector_data (disk_after demo_disk tr))\<rparr>"

definition demo_cache :: kst where
  "demo_cache = (boot_state 1 2000 (\<lambda>_. zero_block))\<lparr>bufs := (\<lambda>i. zero_buf\<lparr>b_dev := 1, b_blockno := 100, b_dirty := i = 4,
     b_lock := \<lparr>sl_locked = True, sl_pid = 1\<rparr>\<rparr>)\<rparr>"

definition demo_ide :: ide_st where
  "demo_ide = \<lparr>ide_bufs = bufs demo_cache, idequeue = None, qnext = (\<lambda>_. None), havedisk1 = True, ports = [], polls = 0\<rparr>"

text \<open>C36 applied: a write and a read of the same block are queued; the first interrupt finishes the write.\<close>

theorem ide_is_memory_disk_witness:
  "\<exists>t u. ide_run demo_controller demo_ide [4, 3] t \<and> queue_list t = [4, 3] \<and> ideintr demo_controller t = Done u
    \<and> queue_list u = [3] \<and> ide_finished 4 u"
proof -
  have dv: "ide_device demo_disk demo_controller"
    by (simp add: ide_device_def demo_controller_def)
  have s: "idequeue demo_ide = None" "havedisk1 demo_ide" "ide_bufs demo_ide = bufs demo_cache" "disksize demo_cache = of_nat FSSIZE"
    "sectors (disk_after demo_disk (ports demo_ide)) True = memdisk demo_cache"
    by (simp_all add: demo_ide_def demo_cache_def boot_state_def disk_after_def demo_disk_def)
  note all = ide_is_memory_disk [OF dv s]
  have needs: "ide_needs (bufs demo_cache i)" for i
    by (simp add: ide_needs_def holdingsleep_def demo_cache_def zero_buf_def)
  have q0: "queue_list demo_ide = []"
    by (simp add: queue_list_def demo_ide_def numeral_eq_Suc)
  have n0: "\<forall>b<NBUF. b \<notin> set [] \<longrightarrow> ide_needs (ide_bufs demo_ide b) \<longrightarrow> (\<exists>u. iderw_ide demo_controller b demo_ide = Done u \<and> queue_list u = [] @ [b])"
    using all [OF ide_run.start] q0 by auto
  obtain t1 where t1: "iderw_ide demo_controller 4 demo_ide = Done t1" "queue_list t1 = [4]"
    using n0 [rule_format, of 4] needs [of 4] s(3) by auto
  have r1: "ide_run demo_controller demo_ide ([] @ [4]) t1"
    by (rule ide_run.request [OF ide_run.start]) (simp_all add: q0 t1 s(3) needs)
  obtain dn k1 where d1: "[4] = dn @ [4]" "foldO iderw dn demo_cache = Done k1" "ide_bufs t1 = bufs k1"
    and n1: "\<forall>b<NBUF. b \<notin> set [4] \<longrightarrow> ide_needs (ide_bufs t1 b) \<longrightarrow> (\<exists>u. iderw_ide demo_controller b t1 = Done u \<and> queue_list u = [4] @ [b])"
    using all [OF r1] t1(2) by auto
  have b1: "ide_needs (ide_bufs t1 3)"
    using d1 needs by simp
  then obtain t where t: "iderw_ide demo_controller 3 t1 = Done t" "queue_list t = [4, 3]"
    using n1 [rule_format, of 3] by auto
  have r2: "ide_run demo_controller demo_ide ([4] @ [3]) t"
    by (rule ide_run.request [where t = t1]) (use r1 b1 t t1(2) in simp_all)
  obtain u where "ideintr demo_controller t = Done u" "queue_list u = [3]" "ide_finished 4 u"
    using all [OF r2] t(2) by auto
  then show ?thesis
    using r2 t(2) by auto
qed

end
