(* ===== verification/TinyMachine.thy ===== *)
theory TinyMachine
  imports Decimal "HOL-Library.Signed_Division"
begin

text \<open>
  The Tiny Machine simulator of the compiler course (\<open>project/tm.c\<close>). A C \<open>int\<close> is an integer that
  \<open>cint\<close> checks: signed overflow and an index outside an array are \<open>Undef\<close>. The line reader
  (\<open>in_Line\<close> up to \<open>lineLen\<close>, \<open>inCol\<close>, \<open>ch\<close>, \<open>num\<close>, \<open>word\<close>) is the record \<open>lexst\<close>; the machine
  with its memories, registers and flags, the lines still to be typed on the terminal and the text
  printed so far is \<open>tmst\<close>.
\<close>

abbreviation IADDR_SIZE :: nat where "IADDR_SIZE \<equiv> 1024"
abbreviation DADDR_SIZE :: nat where "DADDR_SIZE \<equiv> 1024"
abbreviation NO_REGS :: nat where "NO_REGS \<equiv> 8"
abbreviation PC_REG :: nat where "PC_REG \<equiv> 7"
abbreviation LINESIZE :: nat where "LINESIZE \<equiv> 121"
abbreviation WORDSIZE :: nat where "WORDSIZE \<equiv> 20"

datatype opclass = opclRR | opclRM | opclRA

datatype opcode = opHALT | opIN | opOUT | opADD | opSUB | opMUL | opDIV | opRRLim
  | opLD | opST | opRMLim
  | opLDA | opLDC | opJLT | opJLE | opJGT | opJGE | opJEQ | opJNE | opRALim

datatype stepresult = srOKAY | srHALT | srIMEM_ERR | srDMEM_ERR | srZERODIVIDE

record instruction =
  iop :: opcode
  iarg1 :: int
  iarg2 :: int
  iarg3 :: int

record lexst =
  line :: string
  inCol :: nat
  ch :: char
  num :: int
  wordbuf :: string

record tmst = lexst +
  iMem :: "instruction list"
  dMem :: "int list"
  reg :: "int list"
  iloc :: int
  dloc :: int
  traceflag :: bool
  icountflag :: bool
  stdin :: "string list"
  stdout :: string

text \<open>The enumeration's values: its order, and the names in \<open>opCodeTab\<close>.\<close>

definition opcodes :: "opcode list" where
  "opcodes = [opHALT, opIN, opOUT, opADD, opSUB, opMUL, opDIV, opRRLim, opLD, opST, opRMLim,
     opLDA, opLDC, opJLT, opJLE, opJGT, opJGE, opJEQ, opJNE, opRALim]"

fun op_num :: "opcode \<Rightarrow> nat" where
  "op_num opHALT = 0" | "op_num opIN = 1" | "op_num opOUT = 2" | "op_num opADD = 3"
| "op_num opSUB = 4" | "op_num opMUL = 5" | "op_num opDIV = 6" | "op_num opRRLim = 7"
| "op_num opLD = 8" | "op_num opST = 9" | "op_num opRMLim = 10"
| "op_num opLDA = 11" | "op_num opLDC = 12" | "op_num opJLT = 13" | "op_num opJLE = 14"
| "op_num opJGT = 15" | "op_num opJGE = 16" | "op_num opJEQ = 17" | "op_num opJNE = 18"
| "op_num opRALim = 19"

lemma op_num_inject: "op_num a = op_num b \<Longrightarrow> a = b"
  by (cases a; cases b) simp_all

instantiation opcode :: linorder
begin

definition less_eq_opcode :: "opcode \<Rightarrow> opcode \<Rightarrow> bool" where
  "less_eq_opcode a b \<longleftrightarrow> op_num a \<le> op_num b"

definition less_opcode :: "opcode \<Rightarrow> opcode \<Rightarrow> bool" where
  "less_opcode a b \<longleftrightarrow> op_num a < op_num b"

instance
  by standard (auto simp: less_eq_opcode_def less_opcode_def intro: op_num_inject)

end

fun opCodeTab :: "opcode \<Rightarrow> string" where
  "opCodeTab opHALT = ''HALT''" | "opCodeTab opIN = ''IN''" | "opCodeTab opOUT = ''OUT''"
| "opCodeTab opADD = ''ADD''" | "opCodeTab opSUB = ''SUB''" | "opCodeTab opMUL = ''MUL''"
| "opCodeTab opDIV = ''DIV''" | "opCodeTab opRRLim = ''????''"
| "opCodeTab opLD = ''LD''" | "opCodeTab opST = ''ST''" | "opCodeTab opRMLim = ''????''"
| "opCodeTab opLDA = ''LDA''" | "opCodeTab opLDC = ''LDC''" | "opCodeTab opJLT = ''JLT''"
| "opCodeTab opJLE = ''JLE''" | "opCodeTab opJGT = ''JGT''" | "opCodeTab opJGE = ''JGE''"
| "opCodeTab opJEQ = ''JEQ''" | "opCodeTab opJNE = ''JNE''" | "opCodeTab opRALim = ''????''"

fun stepResultTab :: "stepresult \<Rightarrow> string" where
  "stepResultTab srOKAY = ''OK''"
| "stepResultTab srHALT = ''Halted''"
| "stepResultTab srIMEM_ERR = ''Instruction Memory Fault''"
| "stepResultTab srDMEM_ERR = ''Data Memory Fault''"
| "stepResultTab srZERODIVIDE = ''Division by 0''"

definition opClass :: "opcode \<Rightarrow> opclass" where
  "opClass c = (if c \<le> opRRLim then opclRR else if c \<le> opRMLim then opclRM else opclRA)"

lemma opClass_simps [simp]:
  "opClass opHALT = opclRR" "opClass opIN = opclRR" "opClass opOUT = opclRR"
  "opClass opADD = opclRR" "opClass opSUB = opclRR" "opClass opMUL = opclRR"
  "opClass opDIV = opclRR" "opClass opRRLim = opclRR"
  "opClass opLD = opclRM" "opClass opST = opclRM" "opClass opRMLim = opclRM"
  "opClass opLDA = opclRA" "opClass opLDC = opclRA" "opClass opJLT = opclRA"
  "opClass opJLE = opclRA" "opClass opJGT = opclRA" "opClass opJGE = opclRA"
  "opClass opJEQ = opclRA" "opClass opJNE = opclRA" "opClass opRALim = opclRA"
  by (simp_all add: opClass_def less_eq_opcode_def)

subsection \<open>C integers, arrays and printed numbers\<close>

definition peek :: "'a list \<Rightarrow> int \<Rightarrow> 'a outcome" where
  "peek xs i = (if 0 \<le> i \<and> i < int (length xs) then Done (xs ! nat i) else Undef)"

definition poke :: "'a list \<Rightarrow> int \<Rightarrow> 'a \<Rightarrow> 'a list outcome" where
  "poke xs i v = (if 0 \<le> i \<and> i < int (length xs) then Done (xs[nat i := v]) else Undef)"

definition emit :: "string \<Rightarrow> tmst \<Rightarrow> tmst" where
  "emit t s = s\<lparr>stdout := stdout s @ t\<rparr>"

definition writeInstruction :: "int \<Rightarrow> tmst \<Rightarrow> tmst" where
  "writeInstruction loc s = (let s = emit (pad 5 (show_int loc) @ '': '') s in
     if 0 \<le> loc \<and> loc < int IADDR_SIZE then
       (let i = iMem s ! nat loc;
            s = emit (pad 6 (opCodeTab (iop i)) @ pad 3 (show_int (iarg1 i)) @ '','') s;
            s = (case opClass (iop i) of
                   opclRR \<Rightarrow> emit (show_int (iarg2 i) @ '','' @ show_int (iarg3 i)) s
                 | _ \<Rightarrow> emit (pad 3 (show_int (iarg2 i)) @ ''('' @ show_int (iarg3 i) @ '')'') s)
        in emit newline s)
     else s)"

subsection \<open>The line reader\<close>

definition isalpha :: "char \<Rightarrow> bool" where
  "isalpha c \<longleftrightarrow> (let n = of_char c :: nat in 65 \<le> n \<and> n \<le> 90 \<or> 97 \<le> n \<and> n \<le> 122)"

definition isalnum :: "char \<Rightarrow> bool" where
  "isalnum c \<longleftrightarrow> isalpha c \<or> isdigit c"

definition is_sign :: "char \<Rightarrow> bool" where
  "is_sign c \<longleftrightarrow> c = CHR ''+'' \<or> c = CHR ''-''"

definition getCh :: "'a lexst_scheme \<Rightarrow> 'a lexst_scheme" where
  "getCh s = (let i = inCol s + 1 in
     s\<lparr>inCol := i, ch := if i < length (line s) then line s ! i else CHR '' ''\<rparr>)"

function skip_blanks :: "'a lexst_scheme \<Rightarrow> 'a lexst_scheme" where
  "skip_blanks s = (if inCol s < length (line s) \<and> line s ! inCol s = CHR '' ''
     then skip_blanks (s\<lparr>inCol := inCol s + 1\<rparr>) else s)"
  by pat_completeness auto
termination
  by (relation "measure (\<lambda>s. length (line s) - inCol s)") auto

declare skip_blanks.simps [simp del]

definition nonBlank :: "'a lexst_scheme \<Rightarrow> bool \<times> 'a lexst_scheme" where
  "nonBlank s = (let s = skip_blanks s in
     if inCol s < length (line s) then (True, s\<lparr>ch := line s ! inCol s\<rparr>)
     else (False, s\<lparr>ch := CHR '' ''\<rparr>))"

text \<open>
  What is left of a line, for the termination of its readers. A reader may only move forward; \<open>signs\<close>
  and \<open>digits\<close> are the inner loops of \<open>getNum\<close>.
\<close>

definition left :: "'a lexst_scheme \<Rightarrow> nat" where
  "left s = length (line s) - inCol s"

lemma skip_blanks_line [simp]: "line (skip_blanks s) = line s"
  by (induction s rule: skip_blanks.induct) (subst skip_blanks.simps, simp)

lemma skip_blanks_mono: "inCol s \<le> inCol (skip_blanks s)"
  by (induction s rule: skip_blanks.induct) (subst skip_blanks.simps, auto)

lemma nonBlank_line [simp]: "line (snd (nonBlank s)) = line s"
  by (simp add: nonBlank_def Let_def)

lemma nonBlank_mono: "inCol s \<le> inCol (snd (nonBlank s))"
  by (simp add: nonBlank_def Let_def skip_blanks_mono)

lemma nonBlank_left: "left (snd (nonBlank s)) \<le> left s"
  using nonBlank_mono [of s] by (simp add: left_def)

lemma nonBlank_True: "fst (nonBlank s) \<Longrightarrow> inCol (snd (nonBlank s)) < length (line s)"
  by (simp add: nonBlank_def Let_def split: if_splits)

lemma skip_blanks_stops:
  "inCol (skip_blanks s) < length (line s) \<Longrightarrow> line s ! inCol (skip_blanks s) \<noteq> CHR '' ''"
proof (induction s rule: skip_blanks.induct)
  case (1 s)
  then show ?case
    using skip_blanks.simps [of s]
    by (cases "inCol s < length (line s) \<and> line s ! inCol s = CHR '' ''") auto
qed

lemma nonBlank_ch:
  "if inCol (snd (nonBlank s)) < length (line s)
   then fst (nonBlank s) \<and> ch (snd (nonBlank s)) = line s ! inCol (snd (nonBlank s))
     \<and> ch (snd (nonBlank s)) \<noteq> CHR '' ''
   else \<not> fst (nonBlank s) \<and> ch (snd (nonBlank s)) = CHR '' ''"
  using skip_blanks_stops [of s] by (simp add: nonBlank_def Let_def)

lemma getCh_line [simp]: "line (getCh s) = line s"
  by (simp add: getCh_def Let_def)

lemma getCh_inCol [simp]: "inCol (getCh s) = Suc (inCol s)"
  by (simp add: getCh_def Let_def)

function signs :: "int \<Rightarrow> bool \<Rightarrow> 'a lexst_scheme \<Rightarrow> int \<times> bool \<times> 'a lexst_scheme" where
  "signs sg temp s = (let b = fst (nonBlank s); s = snd (nonBlank s) in
     if b \<and> is_sign (ch s) then signs (if ch s = CHR ''-'' then - sg else sg) False (getCh s)
     else (sg, temp, s))"
  by pat_completeness auto
termination
proof (relation "measure (\<lambda>(sg, temp, s). left s)", goal_cases)
  case (2 sg temp s b t)
  then show ?case
    using nonBlank_True [of s] nonBlank_mono [of s] by (auto simp: left_def)
qed simp

declare signs.simps [simp del]

function digits :: "int \<Rightarrow> bool \<Rightarrow> 'a lexst_scheme \<Rightarrow> (int \<times> bool \<times> 'a lexst_scheme) outcome" where
  "digits t temp s = (if isdigit (ch s)
     then bindO (cint (t * 10 + digit_val (ch s))) (\<lambda>t. digits t True (getCh s))
     else Done (t, temp, s))"
  by pat_completeness auto
termination
proof (relation "measure (\<lambda>(t, temp, s). left s + (if isdigit (ch s) then 1 else 0))", goal_cases)
  case (2 t temp s t')
  then show ?case
    by (auto simp: left_def getCh_def Let_def isdigit_def)
qed simp

declare digits.simps [simp del]

lemma signs_progress:
  "signs sg temp s = (sg', temp', s') \<Longrightarrow> line s' = line s \<and> left s' \<le> left s
     \<and> (inCol s' < length (line s') \<longrightarrow> \<not> is_sign (ch s')) \<and>
     (if inCol s' < length (line s') then ch s' = line s' ! inCol s' \<and> ch s' \<noteq> CHR '' '' else ch s' = CHR '' '')"
proof (induction sg temp s rule: signs.induct)
  case (1 sg temp s)
  show ?case
  proof (cases "fst (nonBlank s) \<and> is_sign (ch (snd (nonBlank s)))")
    case True
    then have "left (getCh (snd (nonBlank s))) \<le> left s"
      using nonBlank_mono [of s] by (simp add: left_def)
    moreover have "signs sg temp s = signs (if ch (snd (nonBlank s)) = CHR ''-'' then - sg else sg) False
        (getCh (snd (nonBlank s)))"
      by (subst signs.simps) (use True in \<open>simp add: Let_def\<close>)
    ultimately show ?thesis
      using 1(1) [OF refl refl True] 1(2) by auto
  next
    case False
    then have "signs sg temp s = (sg, temp, snd (nonBlank s))"
      by (subst signs.simps) (auto simp: Let_def)
    then show ?thesis
      using 1(2) nonBlank_left [of s] nonBlank_ch [of s] False by (auto split: if_splits)
  qed
qed

lemma digits_progress:
  "digits t temp s = Done (t', temp', s') \<Longrightarrow> line s' = line s \<and> inCol s \<le> inCol s'
     \<and> (if isdigit (ch s) then inCol s < inCol s' \<and> temp' else t' = t \<and> temp' = temp \<and> s' = s)"
proof (induction t temp s arbitrary: t' temp' s' rule: digits.induct)
  case (1 t temp s)
  show ?case
  proof (cases "isdigit (ch s)")
    case True
    then obtain v where v: "cint (t * 10 + digit_val (ch s)) = Done v"
        "digits v True (getCh s) = Done (t', temp', s')"
      using 1(2) by (subst (asm) digits.simps) (auto simp: bindO_Done_iff)
    show ?thesis
      using 1(1) [OF True v] True by (auto split: if_splits)
  next
    case False
    then show ?thesis
      using 1(2) by (subst (asm) digits.simps) simp
  qed
qed

text \<open>The body of the \<open>do\<close> loop of \<open>getNum\<close>, and the loop.\<close>

definition num_term :: "bool \<Rightarrow> 'a lexst_scheme \<Rightarrow> (bool \<times> 'a lexst_scheme) outcome" where
  "num_term temp s = (case signs 1 temp s of (sg, temp, s) \<Rightarrow>
     bindO (digits 0 temp (snd (nonBlank s))) (\<lambda>(t, temp, s).
     bindO (cint (t * sg)) (\<lambda>v.
     bindO (cint (num s + v)) (\<lambda>n. Done (temp, s\<lparr>num := n\<rparr>)))))"

lemma nonBlank_idle:
  assumes "inCol s < length (line s) \<Longrightarrow> line s ! inCol s \<noteq> CHR '' ''"
  shows "inCol (snd (nonBlank s)) = inCol s"
proof -
  have "skip_blanks s = s"
    by (subst skip_blanks.simps) (use assms in auto)
  then show ?thesis
    by (simp add: nonBlank_def Let_def)
qed

lemma blank_not: "\<not> is_sign CHR '' ''" "\<not> isdigit CHR '' ''"
  by (simp_all add: is_sign_def isdigit_def)

text \<open>A round of the loop that is followed by another has consumed part of the line.\<close>

lemma num_term_progress:
  assumes "num_term temp s = Done (temp', s')" "fst (nonBlank s')" "is_sign (ch (snd (nonBlank s')))"
  shows "left (snd (nonBlank s')) < left s"
proof -
  obtain sg temp1 s1 where s1: "signs 1 temp s = (sg, temp1, s1)"
    by (cases "signs 1 temp s") auto
  define s2 where "s2 = snd (nonBlank s1)"
  obtain t s3 where s3: "digits 0 temp1 s2 = Done (t, temp', s3)"
      and s': "line s' = line s3" "inCol s' = inCol s3"
    using assms(1) by (auto simp: num_term_def s1 s2_def bindO_Done_iff)
  note p = signs_progress [OF s1]
  have line: "line s' = line s" "line s2 = line s"
    using digits_progress [OF s3] p s' by (simp_all add: s2_def)
  have in2: "inCol s2 = inCol s1"
    unfolding s2_def by (rule nonBlank_idle) (use p in auto)
  have lt: "inCol s' < length (line s)"
    using nonBlank_True [OF assms(2)] nonBlank_mono [of s'] line by simp
  show ?thesis
  proof (cases "isdigit (ch s2)")
    case True
    then have "inCol s1 < inCol s'"
      using digits_progress [OF s3] s' in2 by simp
    then show ?thesis
      using p lt line nonBlank_left [of s'] by (auto simp: left_def)
  next
    case False
    then have "s3 = s2"
      using digits_progress [OF s3] by simp
    then have same: "inCol s' = inCol s1" "line s' = line s1"
      using s' in2 line p by simp_all
    have idle: "inCol (snd (nonBlank s')) = inCol s1"
      unfolding same(1) [symmetric] by (rule nonBlank_idle) (use p same in auto)
    have at: "inCol s1 < length (line s')"
      using lt same line by simp
    have "ch (snd (nonBlank s')) = line s' ! inCol s1"
      using nonBlank_ch [of s'] at unfolding idle by simp
    also have "\<dots> = ch s1"
      using p at same by (auto split: if_splits)
    finally show ?thesis
      using p at same assms(3) by auto
  qed
qed

function num_loop :: "bool \<Rightarrow> 'a lexst_scheme \<Rightarrow> (bool \<times> 'a lexst_scheme) outcome" where
  "num_loop temp s = bindO (num_term temp s) (\<lambda>(temp, s).
     let b = fst (nonBlank s); s = snd (nonBlank s) in
     if b \<and> is_sign (ch s) then num_loop temp s else Done (temp, s))"
  by pat_completeness auto
termination
  by (relation "measure (\<lambda>(temp, s). left s)") (auto intro: num_term_progress)

declare num_loop.simps [simp del]

definition getNum :: "'a lexst_scheme \<Rightarrow> (bool \<times> 'a lexst_scheme) outcome" where
  "getNum s = num_loop False (s\<lparr>num := 0\<rparr>)"

text \<open>\<open>word_loop\<close> collects the word; characters beyond \<open>WORDSIZE - 1\<close> are dropped.\<close>

function word_loop :: "string \<Rightarrow> 'a lexst_scheme \<Rightarrow> string \<times> 'a lexst_scheme" where
  "word_loop w s = (if isalnum (ch s)
     then word_loop (if length w < WORDSIZE - 1 then w @ [ch s] else w) (getCh s) else (w, s))"
  by pat_completeness auto
termination
  by (relation "measure (\<lambda>(w, s). left s + (if isalnum (ch s) then 1 else 0))")
    (auto simp: left_def getCh_def Let_def isalnum_def isdigit_def isalpha_def)

declare word_loop.simps [simp del]

definition getWord :: "'a lexst_scheme \<Rightarrow> bool \<times> 'a lexst_scheme" where
  "getWord s = (let (b, s) = nonBlank s in
     if b then (let (w, s) = word_loop [] s in (w \<noteq> [], s\<lparr>wordbuf := w\<rparr>))
     else (False, s))"

definition skipCh :: "char \<Rightarrow> 'a lexst_scheme \<Rightarrow> bool \<times> 'a lexst_scheme" where
  "skipCh c s = (let (b, s) = nonBlank s in
     if b \<and> ch s = c then (True, getCh s) else (False, s))"

definition atEOL :: "'a lexst_scheme \<Rightarrow> bool \<times> 'a lexst_scheme" where
  "atEOL s = (let (b, s) = nonBlank s in (\<not> b, s))"

subsection \<open>Loading a program\<close>

definition tm_error :: "string \<Rightarrow> int \<Rightarrow> int \<Rightarrow> tmst \<Rightarrow> bool \<times> tmst" where
  "tm_error msg lineNo instNo s =
    (False, emit (''Line '' @ show_int lineNo
       @ (if instNo \<ge> 0 then '' (Instruction '' @ show_int instNo @ '')'' else [])
       @ ''   '' @ msg @ newline) s)"

definition get_reg :: "'a lexst_scheme \<Rightarrow> (bool \<times> 'a lexst_scheme) outcome" where
  "get_reg s = bindS (getNum s) (\<lambda>ok s. Done (ok \<and> 0 \<le> num s \<and> num s < int NO_REGS, s))"

definition strncmp4_eq :: "string \<Rightarrow> string \<Rightarrow> bool" where
  "strncmp4_eq a b \<longleftrightarrow> take 4 (a @ [CHR 0x00]) = take 4 (b @ [CHR 0x00])"

fun find_op :: "opcode list \<Rightarrow> string \<Rightarrow> opcode" where
  "find_op [] w = opRALim"
| "find_op (c # cs) w =
    (if c < opRALim \<and> \<not> strncmp4_eq (opCodeTab c) w then find_op cs w else c)"

text \<open>The operands, in the two formats \<open>r,s,t\<close> and \<open>r,d(s)\<close>; \<open>k\<close> is what follows.\<close>

definition read_RR :: "int \<Rightarrow> int \<Rightarrow> (int \<Rightarrow> int \<Rightarrow> int \<Rightarrow> tmst \<Rightarrow> (bool \<times> tmst) outcome) \<Rightarrow>
    tmst \<Rightarrow> (bool \<times> tmst) outcome" where
  "read_RR lineNo loc k s = bindS (get_reg s) (\<lambda>ok s.
    if \<not> ok then Done (tm_error ''Bad first register'' lineNo loc s) else let arg1 = num s in
    bindS (Done (skipCh CHR '','' s)) (\<lambda>ok s.
    if \<not> ok then Done (tm_error ''Missing comma'' lineNo loc s) else
    bindS (get_reg s) (\<lambda>ok s.
    if \<not> ok then Done (tm_error ''Bad second register'' lineNo loc s) else let arg2 = num s in
    bindS (Done (skipCh CHR '','' s)) (\<lambda>ok s.
    if \<not> ok then Done (tm_error ''Missing comma'' lineNo loc s) else
    bindS (get_reg s) (\<lambda>ok s.
    if \<not> ok then Done (tm_error ''Bad third register'' lineNo loc s)
    else k arg1 arg2 (num s) s)))))"

definition read_RM :: "int \<Rightarrow> int \<Rightarrow> (int \<Rightarrow> int \<Rightarrow> int \<Rightarrow> tmst \<Rightarrow> (bool \<times> tmst) outcome) \<Rightarrow>
    tmst \<Rightarrow> (bool \<times> tmst) outcome" where
  "read_RM lineNo loc k s = bindS (get_reg s) (\<lambda>ok s.
    if \<not> ok then Done (tm_error ''Bad first register'' lineNo loc s) else let arg1 = num s in
    bindS (Done (skipCh CHR '','' s)) (\<lambda>ok s.
    if \<not> ok then Done (tm_error ''Missing comma'' lineNo loc s) else
    bindS (getNum s) (\<lambda>ok s.
    if \<not> ok then Done (tm_error ''Bad displacement'' lineNo loc s) else let arg2 = num s in
    bindS (Done (skipCh CHR ''('' s)) (\<lambda>ok1 s.
    bindS (Done (if ok1 then (True, s) else skipCh CHR '','' s)) (\<lambda>ok s.
    if \<not> ok then Done (tm_error ''Missing LParen'' lineNo loc s) else
    bindS (get_reg s) (\<lambda>ok s.
    if \<not> ok then Done (tm_error ''Bad second register'' lineNo loc s)
    else k arg1 arg2 (num s) s))))))"

definition store_instr :: "int \<Rightarrow> opcode \<Rightarrow> int \<Rightarrow> int \<Rightarrow> int \<Rightarrow> tmst \<Rightarrow> (bool \<times> tmst) outcome" where
  "store_instr loc c a1 a2 a3 s =
    bindO (poke (iMem s) loc \<lparr>iop = c, iarg1 = a1, iarg2 = a2, iarg3 = a3\<rparr>) (\<lambda>m.
    Done (True, s\<lparr>iMem := m\<rparr>))"

definition read_operands :: "int \<Rightarrow> int \<Rightarrow> opcode \<Rightarrow> tmst \<Rightarrow> (bool \<times> tmst) outcome" where
  "read_operands lineNo loc c s = (case opClass c of
      opclRR \<Rightarrow> read_RR lineNo loc (store_instr loc c) s
    | opclRM \<Rightarrow> read_RM lineNo loc (store_instr loc c) s
    | opclRA \<Rightarrow> read_RM lineNo loc (store_instr loc c) s)"

text \<open>One line of the program, already in \<open>in_Line\<close>; False when it is wrong.\<close>

definition read_line :: "int \<Rightarrow> tmst \<Rightarrow> (bool \<times> tmst) outcome" where
  "read_line lineNo s = (let (b, s) = nonBlank s in
    if \<not> (b \<and> line s ! inCol s \<noteq> CHR ''*'') then Done (True, s) else
    bindS (getNum s) (\<lambda>ok s.
    if \<not> ok then Done (tm_error ''Bad location'' lineNo (- 1) s) else let loc = num s in
    if loc > int IADDR_SIZE then Done (tm_error ''Location too large'' lineNo loc s) else
    bindS (Done (skipCh CHR '':'' s)) (\<lambda>ok s.
    if \<not> ok then Done (tm_error ''Missing colon'' lineNo loc s) else
    bindS (Done (getWord s)) (\<lambda>ok s.
    if \<not> ok then Done (tm_error ''Missing opcode'' lineNo loc s) else
    let c = find_op opcodes (wordbuf s) in
    if \<not> strncmp4_eq (opCodeTab c) (wordbuf s)
    then Done (tm_error ''Illegal opcode'' lineNo loc s)
    else read_operands lineNo loc c s))))"

text \<open>
  \<open>fgets\<close>: at most \<open>n\<close> characters, up to a newline; the characters read, the rest of the file and
  whether the end of the file was met. When it reads nothing \<open>in_Line\<close> keeps its contents.
\<close>

fun fgets :: "nat \<Rightarrow> string \<Rightarrow> string \<times> string \<times> bool" where
  "fgets 0 f = ([], f, False)"
| "fgets (Suc n) [] = ([], [], True)"
| "fgets (Suc n) (c # f) = (if c = CHR 0x0A then ([c], f, False)
    else (case fgets n f of (l, f', e) \<Rightarrow> (c # l, f', e)))"

definition chop_line :: "string \<Rightarrow> string outcome" where
  "chop_line b = (let b = takeWhile (\<lambda>c. c \<noteq> CHR 0x00) b in
    if b = [] then Undef
    else Done (if b ! (length b - 1) = CHR 0x0A then butlast b else b))"

lemma fgets_shrinks: "fgets (Suc n) f = (l, f', False) \<Longrightarrow> length f' < length f"
proof (induction f arbitrary: n l f')
  case (Cons c f)
  show ?case
  proof (cases "c = CHR 0x0A")
    case False
    then obtain l1 where l1: "fgets n f = (l1, f', False)"
      using Cons.prems by (auto split: prod.splits)
    show ?thesis
      using Cons.IH l1 by (cases n) (auto intro: less_SucI)
  qed (use Cons.prems in auto)
qed simp

lemma fgets_118: "(l, f', False) = fgets 118 f \<Longrightarrow> length f' < length f"
  using fgets_shrinks [of 117 f l f'] by simp

function read_lines :: "int \<Rightarrow> string \<Rightarrow> tmst \<Rightarrow> (bool \<times> tmst) outcome" where
  "read_lines lineNo f s = (case fgets 118 f of (l, f', eof) \<Rightarrow>
    bindO (chop_line (if l = [] then line s else l)) (\<lambda>b.
    bindS (read_line (lineNo + 1) (s\<lparr>line := b, inCol := 0\<rparr>)) (\<lambda>ok s.
    if \<not> ok then Done (False, s) else if eof then Done (True, s)
    else read_lines (lineNo + 1) f' s)))"
  by pat_completeness auto
termination
proof (relation "measure (\<lambda>(n, f, s). length f)", goal_cases)
  case (2 n f s l f' eof)
  then show ?case
    by (auto dest: fgets_118)
qed simp

declare read_lines.simps [simp del]

definition reset_data :: "tmst \<Rightarrow> tmst" where
  "reset_data s = s\<lparr>reg := replicate NO_REGS 0,
     dMem := (int DADDR_SIZE - 1) # replicate (DADDR_SIZE - 1) 0\<rparr>"

definition halt_instr :: instruction where
  "halt_instr = \<lparr>iop = opHALT, iarg1 = 0, iarg2 = 0, iarg3 = 0\<rparr>"

definition readInstructions :: "string \<Rightarrow> tmst \<Rightarrow> (bool \<times> tmst) outcome" where
  "readInstructions f s =
    read_lines 0 f ((reset_data s)\<lparr>iMem := replicate IADDR_SIZE halt_instr\<rparr>)"

subsection \<open>One step of the machine\<close>

text \<open>
  The loop of \<open>IN\<close>: lines are asked for until one holds a number. With no line left to be typed the
  machine waits. \<open>gets\<close> does not know the size of \<open>in_Line\<close>.
\<close>

definition gets_line :: "string \<Rightarrow> tmst \<Rightarrow> tmst outcome" where
  "gets_line l s = (if length l \<ge> LINESIZE then Undef
     else Done (s\<lparr>line := l, inCol := 0, stdin := tl (stdin s)\<rparr>))"

fun in_loop :: "string list \<Rightarrow> tmst \<Rightarrow> tmst outcome" where
  "in_loop [] s = Sleeps"
| "in_loop (l # ls) s =
    bindO (gets_line l (emit ''Enter value for IN instruction: '' s)) (\<lambda>s.
    bindS (getNum s) (\<lambda>ok s.
    if ok then Done s else in_loop ls (emit (''Illegal value'' @ newline) s)))"

definition set_reg :: "int \<Rightarrow> int \<Rightarrow> tmst \<Rightarrow> (stepresult \<times> tmst) outcome" where
  "set_reg r v s = bindO (poke (reg s) r v) (\<lambda>rg. Done (srOKAY, s\<lparr>reg := rg\<rparr>))"

definition arith :: "(int \<Rightarrow> int \<Rightarrow> int) \<Rightarrow> int \<Rightarrow> int \<Rightarrow> int \<Rightarrow> tmst \<Rightarrow> (stepresult \<times> tmst) outcome" where
  "arith f r a b s = bindO (peek (reg s) a) (\<lambda>x. bindO (peek (reg s) b) (\<lambda>y.
     bindO (cint (f x y)) (\<lambda>v. set_reg r v s)))"

definition jump_if :: "(int \<Rightarrow> bool) \<Rightarrow> int \<Rightarrow> int \<Rightarrow> tmst \<Rightarrow> (stepresult \<times> tmst) outcome" where
  "jump_if c r m s = bindO (peek (reg s) r) (\<lambda>x.
     if c x then set_reg (int PC_REG) m s else Done (srOKAY, s))"

text \<open>
  The second \<open>switch\<close> of \<open>stepTM\<close>; \<open>m\<close> is the address (unused by the register instructions), \<open>t\<close>
  the third register (used only by them), \<open>d\<close> the displacement.
\<close>

fun exec_op :: "opcode \<Rightarrow> int \<Rightarrow> int \<Rightarrow> int \<Rightarrow> int \<Rightarrow> int \<Rightarrow> tmst \<Rightarrow> (stepresult \<times> tmst) outcome" where
  "exec_op opHALT r a t m d s = Done (srHALT, emit (''HALT: '' @ show_int r @ '','' @ show_int a
     @ '','' @ show_int t @ newline) s)"
| "exec_op opIN r a t m d s = bindO (in_loop (stdin s) s) (\<lambda>s. set_reg r (num s) s)"
| "exec_op opOUT r a t m d s = bindO (peek (reg s) r) (\<lambda>v.
     Done (srOKAY, emit (''OUT instruction prints: '' @ show_int v @ newline) s))"
| "exec_op opADD r a t m d s = arith (+) r a t s"
| "exec_op opSUB r a t m d s = arith (-) r a t s"
| "exec_op opMUL r a t m d s = arith (*) r a t s"
| "exec_op opDIV r a t m d s = bindO (peek (reg s) t) (\<lambda>y.
     if y \<noteq> 0 then arith (sdiv) r a t s else Done (srZERODIVIDE, s))"
| "exec_op opLD r a t m d s = bindO (peek (dMem s) m) (\<lambda>v. set_reg r v s)"
| "exec_op opST r a t m d s = bindO (peek (reg s) r) (\<lambda>v.
     bindO (poke (dMem s) m v) (\<lambda>dm. Done (srOKAY, s\<lparr>dMem := dm\<rparr>)))"
| "exec_op opLDA r a t m d s = set_reg r m s"
| "exec_op opLDC r a t m d s = set_reg r d s"
| "exec_op opJLT r a t m d s = jump_if (\<lambda>x. x < 0) r m s"
| "exec_op opJLE r a t m d s = jump_if (\<lambda>x. x \<le> 0) r m s"
| "exec_op opJGT r a t m d s = jump_if (\<lambda>x. x > 0) r m s"
| "exec_op opJGE r a t m d s = jump_if (\<lambda>x. x \<ge> 0) r m s"
| "exec_op opJEQ r a t m d s = jump_if (\<lambda>x. x = 0) r m s"
| "exec_op opJNE r a t m d s = jump_if (\<lambda>x. x \<noteq> 0) r m s"
| "exec_op _ r a t m d s = Done (srOKAY, s)"

definition mem_addr :: "instruction \<Rightarrow> tmst \<Rightarrow> int outcome" where
  "mem_addr i s = bindO (peek (reg s) (iarg3 i)) (\<lambda>b. cint (iarg2 i + b))"

definition exec_instr :: "instruction \<Rightarrow> tmst \<Rightarrow> (stepresult \<times> tmst) outcome" where
  "exec_instr i s = (case opClass (iop i) of
      opclRR \<Rightarrow> exec_op (iop i) (iarg1 i) (iarg2 i) (iarg3 i) 0 (iarg2 i) s
    | opclRM \<Rightarrow> bindO (mem_addr i s) (\<lambda>m.
        if m < 0 \<or> m > int DADDR_SIZE then Done (srDMEM_ERR, s)
        else exec_op (iop i) (iarg1 i) (iarg3 i) 0 m (iarg2 i) s)
    | opclRA \<Rightarrow> bindO (mem_addr i s) (\<lambda>m.
        exec_op (iop i) (iarg1 i) (iarg3 i) 0 m (iarg2 i) s))"

definition stepTM :: "tmst \<Rightarrow> (stepresult \<times> tmst) outcome" where
  "stepTM s = bindO (peek (reg s) (int PC_REG)) (\<lambda>pc.
    if pc < 0 \<or> pc > int IADDR_SIZE then Done (srIMEM_ERR, s)
    else bindO (poke (reg s) (int PC_REG) (pc + 1)) (\<lambda>rg.
    let s = s\<lparr>reg := rg\<rparr> in
    bindO (peek (iMem s) pc) (\<lambda>i. exec_instr i s)))"

subsection \<open>The command loop\<close>

text \<open>
  The loops of the commands \<open>s\<close> and \<open>g\<close>. The counter of \<open>g\<close> is an \<open>int\<close>, so that \<open>2 ^ 31 - 1\<close>
  rounds are all it can count.
\<close>

definition traced_step :: "tmst \<Rightarrow> (stepresult \<times> tmst) outcome" where
  "traced_step s = bindO (peek (reg s) (int PC_REG)) (\<lambda>pc.
     let s = s\<lparr>iloc := pc\<rparr> in stepTM (if traceflag s then writeInstruction pc s else s))"

fun run_steps :: "nat \<Rightarrow> tmst \<Rightarrow> (stepresult \<times> tmst) outcome" where
  "run_steps 0 s = Done (srOKAY, s)"
| "run_steps (Suc n) s = bindS (traced_step s) (\<lambda>r s.
     if r = srOKAY then run_steps n s else Done (r, s))"

fun run_go :: "nat \<Rightarrow> nat \<Rightarrow> tmst \<Rightarrow> (nat \<times> stepresult \<times> tmst) outcome" where
  "run_go 0 cnt s = Undef"
| "run_go (Suc n) cnt s = bindS (traced_step s) (\<lambda>r s.
     if r = srOKAY then run_go n (cnt + 1) s else Done (cnt + 1, r, s))"

definition go_limit :: nat where "go_limit = 2 ^ 31 - 1"

definition run_command :: "char \<Rightarrow> nat \<Rightarrow> tmst \<Rightarrow> (bool \<times> tmst) outcome" where
  "run_command cmd stepcnt s =
    (if stepcnt > 0 then
       bindS (if cmd = CHR ''g'' then bindO (run_go go_limit 0 s) (\<lambda>(cnt, r, s).
           Done (r, if icountflag s
             then emit (''Number of instructions executed = '' @ show_int (int cnt) @ newline) s
             else s))
         else run_steps stepcnt s)
       (\<lambda>r s. Done (True, emit (stepResultTab r @ newline) s))
     else Done (True, s))"

definition print_regs :: "tmst \<Rightarrow> tmst" where
  "print_regs s = foldl (\<lambda>s i. emit (show_int (int i) @ '': '' @ pad 4 (show_int (reg s ! i))
      @ ''    '' @ (if i mod 4 = 3 then newline else [])) s) s [0..<NO_REGS]"

text \<open>The loops of the commands \<open>i\<close> and \<open>d\<close>.\<close>

function print_imem :: "int \<Rightarrow> tmst \<Rightarrow> tmst" where
  "print_imem cnt s = (if 0 \<le> iloc s \<and> iloc s < int IADDR_SIZE \<and> cnt > 0
     then print_imem (cnt - 1) ((writeInstruction (iloc s) s)\<lparr>iloc := iloc s + 1\<rparr>) else s)"
  by pat_completeness auto
termination
  by (relation "measure (\<lambda>(cnt, s). nat cnt)") auto

function print_dmem :: "int \<Rightarrow> tmst \<Rightarrow> tmst" where
  "print_dmem cnt s = (if 0 \<le> dloc s \<and> dloc s < int DADDR_SIZE \<and> cnt > 0
     then print_dmem (cnt - 1) ((emit (pad 5 (show_int (dloc s)) @ '': ''
       @ pad 5 (show_int (dMem s ! nat (dloc s))) @ newline) s)\<lparr>dloc := dloc s + 1\<rparr>) else s)"
  by pat_completeness auto
termination
  by (relation "measure (\<lambda>(cnt, s). nat cnt)") auto

declare print_imem.simps [simp del] print_dmem.simps [simp del]

text \<open>The optional first location and count of these commands.\<close>

definition location_args :: "tmst \<Rightarrow> (int option \<times> int \<times> tmst) outcome" where
  "location_args s = bindS (getNum s) (\<lambda>ok s.
     if \<not> ok then Done (None, 1, s) else let b = num s in
     bindS (getNum s) (\<lambda>ok s. Done (Some b, if ok then num s else 1, s)))"

definition cmd_imem :: "tmst \<Rightarrow> tmst outcome" where
  "cmd_imem s = bindO (location_args s) (\<lambda>(b, cnt, s).
     let s = (case b of Some l \<Rightarrow> s\<lparr>iloc := l\<rparr> | None \<Rightarrow> s); (eol, s) = atEOL s in
     Done (if \<not> eol then emit (''Instruction locations?'' @ newline) s else print_imem cnt s))"

definition cmd_dmem :: "tmst \<Rightarrow> tmst outcome" where
  "cmd_dmem s = bindO (location_args s) (\<lambda>(b, cnt, s).
     let s = (case b of Some l \<Rightarrow> s\<lparr>dloc := l\<rparr> | None \<Rightarrow> s); (eol, s) = atEOL s in
     Done (if \<not> eol then emit (''Data locations?'' @ newline) s else print_dmem cnt s))"

definition cmd_step :: "tmst \<Rightarrow> (nat \<times> tmst) outcome" where
  "cmd_step s = (let (eol, s) = atEOL s in
     if eol then Done (1, s) else bindS (getNum s) (\<lambda>ok s.
     if ok then bindO (cint \<bar>num s\<bar>) (\<lambda>n. Done (nat n, s))
     else Done (0, emit (''Step count?'' @ newline) s)))"

definition help_text :: string where
  "help_text = ''Commands are:'' @ newline
   @ ''   s(tep <n>      Execute n (default 1) TM instructions'' @ newline
   @ ''   g(o            Execute TM instructions until HALT'' @ newline
   @ ''   r(egs          Print the contents of the registers'' @ newline
   @ ''   i(Mem <b <n>>  Print n iMem locations starting at b'' @ newline
   @ ''   d(Mem <b <n>>  Print n dMem locations starting at b'' @ newline
   @ ''   t(race         Toggle instruction trace'' @ newline
   @ ''   p(rint         Toggle print of total instructions executed ('' @ [CHR 0x27]
   @ ''go'' @ [CHR 0x27] @ '' only)'' @ newline
   @ ''   c(lear         Reset simulator for new execution of program'' @ newline
   @ ''   h(elp          Cause this list of commands to be printed'' @ newline
   @ ''   q(uit          Terminate the simulation'' @ newline"

definition cmd_toggle :: "string \<Rightarrow> bool \<Rightarrow> tmst \<Rightarrow> tmst" where
  "cmd_toggle msg b s = emit (msg @ (if b then ''on.'' else ''off.'') @ newline) s"

definition cmd_clear :: "tmst \<Rightarrow> tmst" where
  "cmd_clear s = reset_data (s\<lparr>iloc := 0, dloc := 0\<rparr>)"

definition dispatch :: "char \<Rightarrow> tmst \<Rightarrow> (bool \<times> tmst) outcome" where
  "dispatch cmd s =
    (if cmd = CHR ''t'' then let s = s\<lparr>traceflag := \<not> traceflag s\<rparr> in
       run_command cmd 0 (cmd_toggle ''Tracing now '' (traceflag s) s)
     else if cmd = CHR ''h'' then run_command cmd 0 (emit help_text s)
     else if cmd = CHR ''p'' then let s = s\<lparr>icountflag := \<not> icountflag s\<rparr> in
       run_command cmd 0 (cmd_toggle ''Printing instruction count now '' (icountflag s) s)
     else if cmd = CHR ''s'' then bindO (cmd_step s) (\<lambda>(n, s). run_command cmd n s)
     else if cmd = CHR ''g'' then run_command cmd 1 s
     else if cmd = CHR ''r'' then run_command cmd 0 (print_regs s)
     else if cmd = CHR ''i'' then bindO (cmd_imem s) (run_command cmd 0)
     else if cmd = CHR ''d'' then bindO (cmd_dmem s) (run_command cmd 0)
     else if cmd = CHR ''c'' then run_command cmd 0 (cmd_clear s)
     else if cmd = CHR ''q'' then Done (False, s)
     else run_command cmd 0 (emit (''Command '' @ [cmd] @ '' unknown.'' @ newline) s))"

fun read_command :: "string list \<Rightarrow> tmst \<Rightarrow> tmst outcome" where
  "read_command [] s = Sleeps"
| "read_command (l # ls) s = bindO (gets_line l (emit ''Enter command: '' s)) (\<lambda>s.
     let (ok, s) = getWord s in if ok then Done s else read_command ls s)"

definition doCommand :: "tmst \<Rightarrow> (bool \<times> tmst) outcome" where
  "doCommand s = bindO (read_command (stdin s) s) (\<lambda>s. dispatch (hd (wordbuf s)) s)"

fun command_loop :: "nat \<Rightarrow> tmst \<Rightarrow> tmst outcome" where
  "command_loop 0 s = Sleeps"
| "command_loop (Suc n) s = bindS (doCommand s) (\<lambda>go_on s.
     if go_on then command_loop n s else Done (emit (''Simulation done.'' @ newline) s))"

text \<open>\<open>main\<close>, given the command line's file name, the files, and the lines that will be typed.\<close>

definition program_name :: "string \<Rightarrow> string outcome" where
  "program_name arg = (if length arg \<ge> 20 then Undef
     else if CHR ''.'' \<in> set arg then Done arg
     else if length arg + 3 \<ge> 20 then Undef else Done (arg @ ''.tm''))"

definition tm_main :: "string \<Rightarrow> (string \<rightharpoonup> string) \<Rightarrow> tmst \<Rightarrow> (nat \<times> tmst) outcome" where
  "tm_main arg files s = bindO (program_name arg) (\<lambda>name.
    case files name of
      None \<Rightarrow> Done (1, emit (''file '' @ [CHR 0x27] @ name @ [CHR 0x27] @ '' not found'' @ newline) s)
    | Some f \<Rightarrow> bindS (readInstructions f s) (\<lambda>ok s.
        if \<not> ok then Done (1, s)
        else bindO (command_loop (Suc (length (stdin s)))
               (emit (''TM  simulation (enter h for help)...'' @ newline) s))
             (\<lambda>s. Done (0, s))))"

subsection \<open>The machine's types\<close>

text \<open>
  \<open>tm_ok\<close>: the memories have their sizes, every value is an \<open>int\<close> of the machine, and the operands
  of every instruction are what the loader lets through.
\<close>

definition reg_no :: "int \<Rightarrow> bool" where
  "reg_no r \<longleftrightarrow> 0 \<le> r \<and> r < int NO_REGS"

definition instr_ok :: "instruction \<Rightarrow> bool" where
  "instr_ok i \<longleftrightarrow> reg_no (iarg1 i) \<and> reg_no (iarg3 i) \<and>
     (if opClass (iop i) = opclRR then reg_no (iarg2 i) else fits (iarg2 i))"

definition tm_ok :: "tmst \<Rightarrow> bool" where
  "tm_ok s \<longleftrightarrow> length (iMem s) = IADDR_SIZE \<and> length (dMem s) = DADDR_SIZE \<and> length (reg s) = NO_REGS
     \<and> list_all fits (dMem s) \<and> list_all fits (reg s) \<and> list_all instr_ok (iMem s)"

lemma peek_Done [outcome_simps]:
  "peek xs i = Done x \<longleftrightarrow> 0 \<le> i \<and> i < int (length xs) \<and> x = xs ! nat i"
  by (auto simp: peek_def)

lemma poke_Done [outcome_simps]:
  "poke xs i v = Done ys \<longleftrightarrow> 0 \<le> i \<and> i < int (length xs) \<and> ys = xs[nat i := v]"
  by (auto simp: poke_def)

lemma list_all_update: "list_all P xs \<Longrightarrow> P v \<Longrightarrow> list_all P (xs[i := v])"
  by (auto simp: list_all_iff dest: set_update_subset_insert [THEN subsetD])

lemma list_all_peek: "list_all P xs \<Longrightarrow> peek xs i = Done x \<Longrightarrow> P x"
  by (auto simp: list_all_iff outcome_simps)

text \<open>The line reader does not touch the machine.\<close>

lemma skip_blanks_more [simp]: "lexst.more (skip_blanks s) = lexst.more s"
  by (induction s rule: skip_blanks.induct) (subst skip_blanks.simps, simp)

lemma skip_blanks_num [simp]: "num (skip_blanks s) = num s"
  by (induction s rule: skip_blanks.induct) (subst skip_blanks.simps, simp)

lemma nonBlank_more [simp]: "lexst.more (snd (nonBlank s)) = lexst.more s"
  by (simp add: nonBlank_def Let_def)

lemma getCh_more [simp]: "lexst.more (getCh s) = lexst.more s"
  by (simp add: getCh_def Let_def)

lemma signs_more: "signs sg temp s = (sg', temp', s') \<Longrightarrow> lexst.more s' = lexst.more s"
proof (induction sg temp s rule: signs.induct)
  case (1 sg temp s)
  then show ?case
    by (subst (asm) (2) signs.simps) (auto simp: Let_def split: if_splits)
qed

lemma digits_more: "digits t temp s = Done (t', temp', s') \<Longrightarrow> lexst.more s' = lexst.more s"
proof (induction t temp s rule: digits.induct)
  case (1 t temp s)
  then show ?case
    by (subst (asm) (2) digits.simps) (auto simp: bindO_Done_iff split: if_splits)
qed

lemma num_term_more:
  "num_term temp s = Done (temp', s') \<Longrightarrow> lexst.more s' = lexst.more s \<and> fits (num s')"
  by (auto simp: num_term_def outcome_simps split: prod.splits dest!: signs_more digits_more)

lemma num_loop_more:
  "num_loop temp s = Done (temp', s') \<Longrightarrow> lexst.more s' = lexst.more s \<and> fits (num s')"
proof (induction temp s rule: num_loop.induct)
  case (1 temp s)
  then obtain temp1 s1 where s1: "num_term temp s = Done (temp1, s1)"
    by (subst (asm) (2) num_loop.simps) (auto simp: bindO_Done_iff)
  have num: "num (snd (nonBlank s1)) = num s1"
    by (simp add: nonBlank_def Let_def)
  show ?case
    using 1 num_term_more [OF s1] s1 num
    by (subst (asm) (2) num_loop.simps) (auto simp: Let_def split: if_splits)
qed

lemma getNum_more: "getNum s = Done (b, s') \<Longrightarrow> lexst.more s' = lexst.more s \<and> fits (num s')"
  by (auto simp: getNum_def dest!: num_loop_more)

lemma word_loop_more: "lexst.more (snd (word_loop w s)) = lexst.more s"
proof (induction w s rule: word_loop.induct)
  case (1 w s)
  then show ?case
    by (subst word_loop.simps) simp
qed

lemma getWord_more: "lexst.more (snd (getWord s)) = lexst.more s"
  using word_loop_more [of "[]" "snd (nonBlank s)"]
  by (auto simp: getWord_def Let_def split: prod.splits)
    (metis nonBlank_more snd_conv)+

lemma skipCh_more: "lexst.more (snd (skipCh c s)) = lexst.more s"
  by (auto simp: skipCh_def Let_def split: prod.splits) (metis getCh_more nonBlank_more snd_conv)+


text \<open>Hence it keeps everything that depends on the machine only.\<close>

lemma more_eqD:
  assumes "lexst.more s' = lexst.more (s :: tmst)"
  shows "iMem s' = iMem s" "dMem s' = dMem s" "reg s' = reg s" "stdin s' = stdin s"
    "tm_ok s' = tm_ok s"
  using assms by (cases s; cases s'; simp add: tm_ok_def)+

lemma tm_ok_simps [simp]:
  "tm_ok (emit t s) = tm_ok s"
  "tm_ok (s\<lparr>iloc := a\<rparr>) = tm_ok s"
  "tm_ok (s\<lparr>dloc := a\<rparr>) = tm_ok s"
  "tm_ok (s\<lparr>line := l, inCol := n\<rparr>) = tm_ok s"
  "tm_ok (s\<lparr>line := l, inCol := n, stdin := ls\<rparr>) = tm_ok s"
  "tm_ok (s\<lparr>traceflag := b\<rparr>) = tm_ok s"
  "tm_ok (s\<lparr>icountflag := b\<rparr>) = tm_ok s"
  by (simp_all add: tm_ok_def emit_def)

lemma writeInstruction_ok [simp]: "tm_ok (writeInstruction l s) = tm_ok s"
  by (simp add: writeInstruction_def Let_def split: opclass.split)

lemma getNum_ok: "getNum s = Done (b, s') \<Longrightarrow> tm_ok s' = tm_ok s \<and> fits (num s')"
  using getNum_more [of s b s'] more_eqD(5) [of s' s] by blast

lemma reset_data_ok: "tm_ok s \<Longrightarrow> tm_ok (reset_data s)"
  by (auto simp: tm_ok_def reset_data_def fits_def list_all_iff set_replicate_conv_if)

lemma set_reg_ok: "set_reg r v s = Done (x, s') \<Longrightarrow> tm_ok s \<Longrightarrow> fits v \<Longrightarrow> tm_ok s'"
  by (auto simp: set_reg_def outcome_simps tm_ok_def intro: list_all_update)

lemma arith_ok: "arith f r a b s = Done (x, s') \<Longrightarrow> tm_ok s \<Longrightarrow> tm_ok s'"
  by (auto simp: arith_def bindO_Done_iff cint_Done intro: set_reg_ok)

lemma jump_if_ok: "jump_if c r m s = Done (x, s') \<Longrightarrow> tm_ok s \<Longrightarrow> fits m \<Longrightarrow> tm_ok s'"
  by (auto simp: jump_if_def bindO_Done_iff intro: set_reg_ok split: if_splits)

lemma in_loop_ok: "in_loop ls s = Done s' \<Longrightarrow> tm_ok s \<Longrightarrow> tm_ok s' \<and> fits (num s')"
  by (induction ls s rule: in_loop.induct)
    (auto simp: outcome_simps gets_line_def split: if_splits dest!: getNum_ok)

lemma exec_op_ok:
  assumes "exec_op c r a t m d s = Done (x, s')" "tm_ok s" "fits m" "fits d"
  shows "tm_ok s'"
proof (cases c)
  case opLD
  then obtain v where "peek (dMem s) m = Done v" "set_reg r v s = Done (x, s')"
    using assms by (auto simp: bindO_Done_iff)
  then show ?thesis
    using assms(2) set_reg_ok list_all_peek [of fits "dMem s" m v] by (simp add: tm_ok_def)
next
  case opST
  then obtain v dm where "peek (reg s) r = Done v" "poke (dMem s) m v = Done dm"
      "s' = s\<lparr>dMem := dm\<rparr>"
    using assms by (auto simp: bindO_Done_iff)
  then show ?thesis
    using assms list_all_peek [of fits "reg s" r v] by (auto simp: tm_ok_def poke_Done intro: list_all_update)
next
  case opIN
  then show ?thesis
    using assms by (auto simp: bindO_Done_iff dest!: in_loop_ok intro: set_reg_ok)
next
  case opDIV
  then show ?thesis
    using assms by (auto simp: bindO_Done_iff dest: arith_ok split: if_splits)
qed (use assms in \<open>auto simp: bindO_Done_iff dest: arith_ok jump_if_ok set_reg_ok\<close>)

lemma reg_no_fits: "reg_no r \<Longrightarrow> fits r"
  by (simp add: reg_no_def fits_def)

lemma exec_instr_ok:
  assumes e: "exec_instr i s = Done (x, s')" and ok: "tm_ok s" "instr_ok i"
  shows "tm_ok s'"
proof (cases "opClass (iop i)")
  case opclRR
  then have "exec_op (iop i) (iarg1 i) (iarg2 i) (iarg3 i) 0 (iarg2 i) s = Done (x, s')"
    using e by (simp add: exec_instr_def)
  then show ?thesis
    by (rule exec_op_ok) (use ok opclRR in \<open>auto simp: instr_ok_def fits_def reg_no_def\<close>)
next
  case opclRM
  then obtain m where m: "mem_addr i s = Done m"
      "x = srDMEM_ERR \<and> s' = s \<or> exec_op (iop i) (iarg1 i) (iarg3 i) 0 m (iarg2 i) s = Done (x, s')"
    using e by (auto simp: exec_instr_def bindO_Done_iff split: if_splits)
  moreover have "fits m" "fits (iarg2 i)"
    using m(1) ok(2) opclRM by (auto simp: mem_addr_def outcome_simps instr_ok_def)
  ultimately show ?thesis
    using ok(1) exec_op_ok by blast
next
  case opclRA
  then obtain m where m: "mem_addr i s = Done m"
      "exec_op (iop i) (iarg1 i) (iarg3 i) 0 m (iarg2 i) s = Done (x, s')"
    using e by (auto simp: exec_instr_def bindO_Done_iff)
  moreover have "fits m" "fits (iarg2 i)"
    using m(1) ok(2) opclRA by (auto simp: mem_addr_def outcome_simps instr_ok_def)
  ultimately show ?thesis
    using ok(1) exec_op_ok by blast
qed

lemma stepTM_ok:
  assumes s: "stepTM s = Done (x, s')" and ok: "tm_ok s"
  shows "tm_ok s'"
proof (cases "reg s ! PC_REG < 0 \<or> reg s ! PC_REG > int IADDR_SIZE")
  case True
  then show ?thesis
    using s ok by (auto simp: stepTM_def outcome_simps)
next
  case False
  define pc where "pc = reg s ! PC_REG"
  define s1 where "s1 = s\<lparr>reg := (reg s)[PC_REG := pc + 1]\<rparr>"
  obtain i where i: "peek (iMem s1) pc = Done i" "exec_instr i s1 = Done (x, s')"
    using s False by (auto simp: stepTM_def outcome_simps Let_def s1_def pc_def)
  have "tm_ok s1"
    using ok False by (auto simp: tm_ok_def s1_def pc_def fits_def intro!: list_all_update)
  moreover from this have "instr_ok i"
    using list_all_peek [OF _ i(1)] unfolding tm_ok_def by blast
  ultimately show ?thesis
    by (rule exec_instr_ok [OF i(2)])
qed

lemma print_imem_ok [simp]: "tm_ok (print_imem n s) = tm_ok s"
proof (induction n s rule: print_imem.induct)
  case (1 n s)
  then show ?case
    by (subst print_imem.simps) simp
qed

lemma print_dmem_ok [simp]: "tm_ok (print_dmem n s) = tm_ok s"
proof (induction n s rule: print_dmem.induct)
  case (1 n s)
  then show ?case
    by (subst print_dmem.simps) simp
qed

lemma print_regs_ok [simp]: "tm_ok (print_regs s) = tm_ok s"
proof -
  have "tm_ok (foldl (\<lambda>s i. emit (f i s) s) s is) = tm_ok s" for f and "is" :: "nat list"
    by (induction "is" arbitrary: s) auto
  then show ?thesis
    by (simp only: print_regs_def)
qed

lemma traced_step_ok: "traced_step s = Done (x, s') \<Longrightarrow> tm_ok s \<Longrightarrow> tm_ok s'"
  by (auto simp: traced_step_def bindO_Done_iff Let_def dest!: stepTM_ok split: if_splits)

lemma run_steps_ok: "run_steps n s = Done (x, s') \<Longrightarrow> tm_ok s \<Longrightarrow> tm_ok s'"
  by (induction n arbitrary: s) (auto simp: outcome_simps dest: traced_step_ok split: if_splits)

lemma run_go_ok: "run_go n c s = Done (d, x, s') \<Longrightarrow> tm_ok s \<Longrightarrow> tm_ok s'"
  by (induction n arbitrary: c s) (auto simp: outcome_simps dest: traced_step_ok split: if_splits)

lemma run_command_ok: "run_command c n s = Done (b, s') \<Longrightarrow> tm_ok s \<Longrightarrow> tm_ok s'"
  by (auto simp: run_command_def outcome_simps split: if_splits dest!: run_steps_ok run_go_ok)

lemma lexer_ok:
  "tm_ok (snd (atEOL s)) = tm_ok s" "tm_ok (snd (nonBlank s)) = tm_ok s"
  "tm_ok (snd (getWord s)) = tm_ok s" "tm_ok (snd (skipCh c s)) = tm_ok s"
  by (auto simp: atEOL_def split_beta getWord_more skipCh_more intro!: more_eqD(5))


lemma location_args_ok: "location_args s = Done (b, n, s') \<Longrightarrow> tm_ok s' = tm_ok s"
  by (auto simp: location_args_def outcome_simps Let_def dest!: getNum_ok split: if_splits)

lemma cmd_imem_ok: "cmd_imem s = Done s' \<Longrightarrow> tm_ok s' = tm_ok s"
  by (auto simp: cmd_imem_def bindO_Done_iff Let_def split_beta lexer_ok split: if_splits option.splits
      dest!: location_args_ok)

lemma cmd_dmem_ok: "cmd_dmem s = Done s' \<Longrightarrow> tm_ok s' = tm_ok s"
  by (auto simp: cmd_dmem_def bindO_Done_iff Let_def split_beta lexer_ok split: if_splits option.splits
      dest!: location_args_ok)

lemma cmd_step_ok: "cmd_step s = Done (n, s') \<Longrightarrow> tm_ok s' = tm_ok s"
  by (auto simp: cmd_step_def outcome_simps Let_def split_beta lexer_ok split: if_splits dest!: getNum_ok)

lemma cmd_clear_ok: "tm_ok s \<Longrightarrow> tm_ok (cmd_clear s)"
  unfolding cmd_clear_def by (rule reset_data_ok) simp

lemma dispatch_ok:
  assumes "dispatch c s = Done (b, s')" "tm_ok s"
  shows "tm_ok s'"
proof -
  consider n s1 where "run_command c n s1 = Done (b, s')" "tm_ok s1" | "s' = s"
    using assms
    unfolding dispatch_def cmd_toggle_def Let_def
    by (auto simp: bindO_Done_iff split: if_splits dest: cmd_imem_ok cmd_dmem_ok cmd_step_ok cmd_clear_ok)
  then show ?thesis
    using assms(2) run_command_ok by cases auto
qed

lemma gets_line_ok: "gets_line l s = Done s' \<Longrightarrow> tm_ok s' = tm_ok s"
  by (auto simp: gets_line_def split: if_splits)

lemma read_command_ok: "read_command ls s = Done s' \<Longrightarrow> tm_ok s \<Longrightarrow> tm_ok s'"
proof (induction ls s rule: read_command.induct)
  case (2 l ls s)
  then obtain s1 where s1: "gets_line l (emit ''Enter command: '' s) = Done s1"
    by (auto simp: bindO_Done_iff)
  obtain ok s2 where s2: "getWord s1 = (ok, s2)"
    by (cases "getWord s1") auto
  have ok: "tm_ok s2"
    using lexer_ok(3) [of s1] gets_line_ok [OF s1] 2(3) by (simp add: s2)
  show ?case
  proof (cases ok)
    case True
    then show ?thesis using 2(2) s1 s2 \<open>tm_ok s2\<close> by simp
  next
    case False
    then show ?thesis using 2(2) s1 s2 2(1) [OF s1 s2 [symmetric] refl] ok by simp
  qed
qed simp

lemma doCommand_ok: "doCommand s = Done (b, s') \<Longrightarrow> tm_ok s \<Longrightarrow> tm_ok s'"
  by (auto simp: doCommand_def bindO_Done_iff dest: read_command_ok dispatch_ok)

lemma get_reg_ok:
  "get_reg s = Done (b, s') \<Longrightarrow> tm_ok s' = tm_ok s \<and> (b \<longrightarrow> reg_no (num s'))"
  by (auto simp: get_reg_def outcome_simps reg_no_def dest!: getNum_ok)

lemma tm_error_ok [simp]: "tm_ok (snd (tm_error m l i s)) = tm_ok s"
  by (simp add: tm_error_def)

lemma tm_error_Pair: "tm_error m l i s = (b, s') \<Longrightarrow> tm_ok s' = tm_ok s"
  by (auto simp: tm_error_def)

lemma store_instr_ok:
  "store_instr loc c a1 a2 a3 s = Done (b, s') \<Longrightarrow> tm_ok s \<Longrightarrow>
     instr_ok \<lparr>iop = c, iarg1 = a1, iarg2 = a2, iarg3 = a3\<rparr> \<Longrightarrow> tm_ok s'"
  by (auto simp: store_instr_def outcome_simps tm_ok_def intro!: list_all_update)

lemma skipCh_Pair: "skipCh c s = (b, s') \<Longrightarrow> tm_ok s' = tm_ok s"
  using lexer_ok(4) [of c s] by simp

lemma read_RR_ok:
  assumes "read_RR n loc k s = Done (b, s')" "tm_ok s"
    and "\<And>a1 a2 a3 s. k a1 a2 a3 s = Done (b, s') \<Longrightarrow> tm_ok s \<Longrightarrow> reg_no a1 \<Longrightarrow> reg_no a2 \<Longrightarrow> reg_no a3
       \<Longrightarrow> tm_ok s'"
  shows "tm_ok s'"
  using assms(1,2) unfolding read_RR_def Let_def
  by (auto simp: bindS_Done_iff split: if_splits dest!: get_reg_ok tm_error_Pair skipCh_Pair dest: assms(3))

lemma read_RM_ok:
  assumes "read_RM n loc k s = Done (b, s')" "tm_ok s"
    and "\<And>a1 a2 a3 s. k a1 a2 a3 s = Done (b, s') \<Longrightarrow> tm_ok s \<Longrightarrow> reg_no a1 \<Longrightarrow> fits a2 \<Longrightarrow> reg_no a3
       \<Longrightarrow> tm_ok s'"
  shows "tm_ok s'"
  using assms(1,2) unfolding read_RM_def Let_def
  by (auto simp: bindS_Done_iff split: if_splits dest!: get_reg_ok getNum_ok tm_error_Pair skipCh_Pair dest: assms(3))


lemma store_RR_ok:
  "store_instr loc c a1 a2 a3 s = Done (b, s') \<Longrightarrow> tm_ok s \<Longrightarrow> opClass c = opclRR \<Longrightarrow>
     reg_no a1 \<Longrightarrow> reg_no a2 \<Longrightarrow> reg_no a3 \<Longrightarrow> tm_ok s'"
  by (erule store_instr_ok) (simp_all add: instr_ok_def)

lemma store_RM_ok:
  "store_instr loc c a1 a2 a3 s = Done (b, s') \<Longrightarrow> tm_ok s \<Longrightarrow> opClass c \<noteq> opclRR \<Longrightarrow>
     reg_no a1 \<Longrightarrow> fits a2 \<Longrightarrow> reg_no a3 \<Longrightarrow> tm_ok s'"
  by (erule store_instr_ok) (simp_all add: instr_ok_def)

lemma getWord_Pair: "getWord s = (b, s') \<Longrightarrow> tm_ok s' = tm_ok s"
  using lexer_ok(3) [of s] by simp

lemma nonBlank_Pair: "nonBlank s = (b, s') \<Longrightarrow> tm_ok s' = tm_ok s"
  using lexer_ok(2) [of s] by simp

lemma read_operands_ok:
  assumes "read_operands n loc c s = Done (b, s')" "tm_ok s"
  shows "tm_ok s'"
proof (cases "opClass c = opclRR")
  case True
  then have "read_RR n loc (store_instr loc c) s = Done (b, s')"
    using assms by (simp add: read_operands_def)
  then show ?thesis
    by (rule read_RR_ok) (use assms True in \<open>auto intro: store_RR_ok\<close>)
next
  case False
  then have "read_RM n loc (store_instr loc c) s = Done (b, s')"
    using assms by (cases "opClass c") (simp_all add: read_operands_def)
  then show ?thesis
    by (rule read_RM_ok) (use assms False in \<open>auto intro: store_RM_ok\<close>)
qed

lemma read_line_ok:
  assumes "read_line n s = Done (b, s')" "tm_ok s"
  shows "tm_ok s'"
proof -
  obtain c s0 where s0: "nonBlank s = (c, s0)"
    by (cases "nonBlank s") auto
  have "tm_ok s0"
    using nonBlank_Pair [OF s0] assms(2) by simp
  with assms(1) show ?thesis
    unfolding read_line_def Let_def s0
    by (auto simp: bindS_Done_iff split: if_splits
        dest!: getNum_ok tm_error_Pair skipCh_Pair getWord_Pair dest: read_operands_ok)
qed

lemma read_lines_ok: "read_lines n f s = Done (b, s') \<Longrightarrow> tm_ok s \<Longrightarrow> tm_ok s'"
proof (induction n f s rule: read_lines.induct)
  case (1 n f s)
  obtain l f' eof where l: "fgets 118 f = (l, f', eof)"
    by (cases "fgets 118 f") auto
  obtain c ok s1 where s1: "chop_line (if l = [] then line s else l) = Done c"
      "read_line (n + 1) (s\<lparr>line := c, inCol := 0\<rparr>) = Done (ok, s1)"
      "if \<not> ok then s' = s1 else if eof then s' = s1
       else read_lines (n + 1) f' s1 = Done (b, s')"
    using 1(2) by (subst (asm) read_lines.simps) (auto simp: l outcome_simps split: if_splits)
  have "tm_ok s1"
    using read_line_ok [OF s1(2)] 1(3) by simp
  then show ?case
    using s1(3) 1(1) [OF l [symmetric] refl s1(1)] by (auto split: if_splits)
qed

lemma readInstructions_ok: "readInstructions f s = Done (b, s') \<Longrightarrow> tm_ok s'"
  unfolding readInstructions_def
  by (erule read_lines_ok)
    (auto simp: tm_ok_def reset_data_def halt_instr_def instr_ok_def reg_no_def fits_def list_all_iff)

text \<open>The states of a session: a program is loaded, lines are typed, commands are carried out.\<close>

inductive tm_session :: "string \<Rightarrow> tmst \<Rightarrow> bool" for f where
  loaded: "readInstructions f s = Done (True, t) \<Longrightarrow> tm_session f t"
| typed: "tm_session f t \<Longrightarrow> tm_session f (t\<lparr>stdin := stdin t @ ls\<rparr>)"
| command: "tm_session f t \<Longrightarrow> doCommand t = Done (b, t') \<Longrightarrow> tm_session f t'"

lemma tm_session_ok: "tm_session f t \<Longrightarrow> tm_ok t"
proof (induction rule: tm_session.induct)
  case (typed t ls)
  then show ?case
    by (simp add: tm_ok_def)
qed (auto dest: readInstructions_ok doCommand_ok)

text \<open>
  What a well-typed machine can still do wrong in one step: fetch or access the word just behind the
  end of a memory (the bounds checks accept 1024), overflow, or wait for (or overrun the buffer
  with) a typed line.
\<close>

fun op_overflows :: "opcode \<Rightarrow> int \<Rightarrow> int \<Rightarrow> bool" where
  "op_overflows opADD x y = (\<not> fits (x + y))"
| "op_overflows opSUB x y = (\<not> fits (x - y))"
| "op_overflows opMUL x y = (\<not> fits (x * y))"
| "op_overflows opDIV x y = (y \<noteq> 0 \<and> \<not> fits (x sdiv y))"
| "op_overflows _ x y = False"

definition hazard_free :: "instruction \<Rightarrow> int list \<Rightarrow> bool" where
  "hazard_free i rg =
    (if opClass (iop i) = opclRR
     then iop i \<noteq> opIN \<and> \<not> op_overflows (iop i) (rg ! nat (iarg2 i)) (rg ! nat (iarg3 i))
     else fits (iarg2 i + rg ! nat (iarg3 i)) \<and>
       (opClass (iop i) = opclRM \<longrightarrow> iarg2 i + rg ! nat (iarg3 i) \<noteq> int DADDR_SIZE))"

lemma peek_reg: "length rg = NO_REGS \<Longrightarrow> reg_no r \<Longrightarrow> peek rg r = Done (rg ! nat r)"
  by (simp add: peek_def reg_no_def)

lemma set_reg_returns: "length (reg s) = NO_REGS \<Longrightarrow> reg_no r \<Longrightarrow> \<exists>y. set_reg r v s = Done y"
  by (simp add: set_reg_def poke_def reg_no_def)

lemma arith_returns:
  assumes "length (reg s) = NO_REGS" "reg_no r" "reg_no a" "reg_no t" "fits (f (reg s ! nat a) (reg s ! nat t))"
  shows "\<exists>y. arith f r a t s = Done y"
  using assms set_reg_returns [of s r] by (simp add: arith_def peek_reg cint_def fits_def)

lemma jump_if_returns:
  assumes "length (reg s) = NO_REGS" "reg_no r"
  shows "\<exists>y. jump_if c r m s = Done y"
  using assms set_reg_returns [of s "int PC_REG"] by (simp add: jump_if_def peek_reg reg_no_def)

lemma exec_RR_returns:
  assumes "length (reg s) = NO_REGS" "instr_ok i" "opClass (iop i) = opclRR" "hazard_free i (reg s)"
  shows "\<exists>y. exec_instr i s = Done y"
  using assms
  by (cases "iop i") (auto simp: exec_instr_def instr_ok_def hazard_free_def peek_reg
      simp del: split_paired_Ex intro!: arith_returns)

lemma mem_addr_returns:
  "length (reg s) = NO_REGS \<Longrightarrow> reg_no (iarg3 i) \<Longrightarrow> fits (iarg2 i + reg s ! nat (iarg3 i)) \<Longrightarrow>
     mem_addr i s = Done (iarg2 i + reg s ! nat (iarg3 i))"
  by (simp add: mem_addr_def peek_reg cint_def fits_def)

lemma exec_RM_returns:
  assumes "length (reg s) = NO_REGS" "length (dMem s) = DADDR_SIZE" "instr_ok i" "opClass (iop i) = opclRM"
    "hazard_free i (reg s)"
  shows "\<exists>y. exec_instr i s = Done y"
proof -
  define m where "m = iarg2 i + reg s ! nat (iarg3 i)"
  have m: "mem_addr i s = Done m" "m \<noteq> int DADDR_SIZE"
    using assms mem_addr_returns [of s i] by (simp_all add: m_def instr_ok_def hazard_free_def)
  show ?thesis
    using assms m set_reg_returns [of s "iarg1 i"]
    by (cases "iop i") (auto simp: exec_instr_def instr_ok_def peek_def poke_def reg_no_def)
qed

lemma exec_RA_returns:
  assumes "length (reg s) = NO_REGS" "instr_ok i" "opClass (iop i) = opclRA" "hazard_free i (reg s)"
  shows "\<exists>y. exec_instr i s = Done y"
proof -
  have "\<exists>m. mem_addr i s = Done m"
    using assms mem_addr_returns [of s i] by (simp add: instr_ok_def hazard_free_def)
  then show ?thesis
    using assms set_reg_returns [of s "iarg1 i"] jump_if_returns [of s "iarg1 i"]
    by (cases "iop i") (auto simp: exec_instr_def instr_ok_def)
qed

lemma fetch_decode:
  assumes ok: "tm_ok s" and pc: "pc = reg s ! PC_REG" "0 \<le> pc" "pc < int IADDR_SIZE"
    and s1: "s1 = s\<lparr>reg := (reg s)[PC_REG := pc + 1]\<rparr>"
  shows "stepTM s = exec_instr (iMem s ! nat pc) s1" "length (reg s1) = NO_REGS"
    "length (dMem s1) = DADDR_SIZE" "instr_ok (iMem s ! nat pc)"
proof -
  have sizes: "length (reg s) = NO_REGS" "length (iMem s) = IADDR_SIZE" "length (dMem s) = DADDR_SIZE"
    using ok by (simp_all add: tm_ok_def)
  show "stepTM s = exec_instr (iMem s ! nat pc) s1"
    using pc sizes by (simp add: stepTM_def peek_def poke_def Let_def s1)
  show "length (reg s1) = NO_REGS" "length (dMem s1) = DADDR_SIZE"
    using sizes by (simp_all add: s1)
  show "instr_ok (iMem s ! nat pc)"
    using ok pc sizes by (simp add: tm_ok_def list_all_length)
qed

end
