(* ===== verification/TinyReader.thy ===== *)
theory TinyReader
  imports TinyMachine "HOL-Library.Sublist"
begin

text \<open>
  How the line reader of \<open>tm.c\<close> moves: \<open>pos s r\<close> is the state of the reader in front of the rest
  \<open>r\<close> of its line, and each reading function is an equation between such states. A printed number is
  read back as itself.
\<close>

definition pos :: "'a lexst_scheme \<Rightarrow> string \<Rightarrow> 'a lexst_scheme" where
  "pos s r = s\<lparr>inCol := length (line s) - length r, ch := hd (r @ '' '')\<rparr>"

lemma pos_sels [simp]:
  "line (pos s r) = line s" "ch (pos s r) = hd (r @ '' '')" "num (pos s r) = num s"
  "wordbuf (pos s r) = wordbuf s" "lexst.more (pos s r) = lexst.more s"
  "pos (pos s r) r' = pos s r'" "(pos s r)\<lparr>num := n\<rparr> = pos (s\<lparr>num := n\<rparr>) r"
  "(pos s r)\<lparr>wordbuf := w\<rparr> = pos (s\<lparr>wordbuf := w\<rparr>) r"
  by (simp_all add: pos_def)

definition on_line :: "string \<Rightarrow> 'a lexst_scheme \<Rightarrow> bool" where
  "on_line r s \<longleftrightarrow> suffix r (line s)"

lemma on_line_tl: "on_line (c # r) s \<Longrightarrow> on_line r s"
  by (simp add: on_line_def suffix_ConsD)

lemma on_line_append: "on_line (a @ r) s \<Longrightarrow> on_line r s"
  by (simp add: on_line_def suffix_appendD)

lemma on_line_sels [simp]:
  "on_line r (pos s r') = on_line r s" "on_line r (s\<lparr>num := n\<rparr>) = on_line r s"
  "on_line r (s\<lparr>wordbuf := w\<rparr>) = on_line r s"
  by (simp_all add: on_line_def)

lemma nth_pos:
  assumes "on_line (c # r) s"
  shows "inCol (pos s (c # r)) < length (line s)" "line s ! inCol (pos s (c # r)) = c"
    "Suc (inCol (pos s (c # r))) = inCol (pos s r)"
proof -
  obtain p where p: "line s = p @ c # r"
    using assms by (auto simp: on_line_def suffix_def)
  then show "inCol (pos s (c # r)) < length (line s)" "line s ! inCol (pos s (c # r)) = c"
    "Suc (inCol (pos s (c # r))) = inCol (pos s r)"
    by (simp_all add: pos_def nth_append)
qed

lemma nth_pos_hd: "on_line r s \<Longrightarrow> r \<noteq> [] \<Longrightarrow> line s ! inCol (pos s r) = hd r"
  using nth_pos(2) by (cases r) auto

lemma pos_eqI: "inCol t = inCol (pos s r) \<Longrightarrow> ch t = hd (r @ '' '') \<Longrightarrow>
    t\<lparr>inCol := 0, ch := c\<rparr> = s\<lparr>inCol := 0, ch := c\<rparr> \<Longrightarrow> t = pos s r"
  by (cases s; cases t) (simp add: pos_def)

lemma pos_inCol_lt: "on_line r s \<Longrightarrow> inCol (pos s r) < length (line s) \<longleftrightarrow> r \<noteq> []"
  by (cases r) (use nth_pos(1) in \<open>auto simp: pos_def\<close>)

lemma getCh_pos: "on_line (c # r) s \<Longrightarrow> getCh (pos s (c # r)) = pos s r"
  using nth_pos(3) [of c r s] pos_inCol_lt [of r s] nth_pos_hd [of r s] on_line_tl [of c r s]
  by (cases r) (simp_all add: getCh_def Let_def pos_def)

lemma skip_blanks_pos:
  "on_line r s \<Longrightarrow> inCol t = inCol (pos s r) \<Longrightarrow> line t = line s \<Longrightarrow>
   skip_blanks t = t\<lparr>inCol := inCol (pos s (dropWhile (\<lambda>c. c = CHR '' '') r))\<rparr>"
proof (induction r arbitrary: t)
  case Nil
  then show ?case by (subst skip_blanks.simps) (simp add: pos_def)
next
  case (Cons c r)
  show ?case
  proof (cases "c = CHR '' ''")
    case True
    have "skip_blanks t = skip_blanks (t\<lparr>inCol := inCol t + 1\<rparr>)"
      using nth_pos [OF Cons.prems(1)] Cons.prems True by (subst skip_blanks.simps) simp
    also have "\<dots> = t\<lparr>inCol := inCol (pos s (dropWhile (\<lambda>c. c = CHR '' '') (c # r)))\<rparr>"
      using Cons.IH [of "t\<lparr>inCol := inCol t + 1\<rparr>"] nth_pos [OF Cons.prems(1)] Cons.prems True
        on_line_tl [OF Cons.prems(1)] by simp
    finally show ?thesis .
  next
    case False
    then show ?thesis
      using nth_pos [OF Cons.prems(1)] Cons.prems by (subst skip_blanks.simps) simp
  qed
qed

definition blanks :: "string \<Rightarrow> string" where
  "blanks r = dropWhile (\<lambda>c. c = CHR '' '') r"

lemma blanks_simps [simp]:
  "blanks [] = []" "blanks (CHR '' '' # r) = blanks r" "c \<noteq> CHR '' '' \<Longrightarrow> blanks (c # r) = c # r"
  "blanks (replicate n CHR '' '' @ r) = blanks r"
  by (simp_all add: blanks_def, induction n, simp_all)

lemma on_line_blanks: "on_line r s \<Longrightarrow> on_line (blanks r) s"
  by (simp add: on_line_def blanks_def) (metis suffix_dropWhile suffix_order.trans)

lemma nonBlank_at:
  assumes "on_line r s" "inCol t = inCol (pos s r)" "line t = line s"
  shows "nonBlank t = (blanks r \<noteq> [], t\<lparr>inCol := inCol (pos s (blanks r)), ch := hd (blanks r @ '' '')\<rparr>)"
  using assms nth_pos_hd [of "blanks r" s] pos_inCol_lt [of "blanks r" s] on_line_blanks [OF assms(1)]
  by (simp add: nonBlank_def Let_def skip_blanks_pos [OF assms] blanks_def [symmetric])

lemma nonBlank_pos: "on_line r s \<Longrightarrow> nonBlank (pos s r) = (blanks r \<noteq> [], pos s (blanks r))"
  by (simp add: nonBlank_at)

lemma nonBlank_start: "inCol s = 0 \<Longrightarrow> nonBlank s = (blanks (line s) \<noteq> [], pos s (blanks (line s)))"
  by (subst nonBlank_at [of "line s" s]) (simp_all add: pos_def on_line_def)

lemma signs_stop:
  "on_line r s \<Longrightarrow> inCol t = inCol (pos s r) \<Longrightarrow> line t = line s \<Longrightarrow> r \<noteq> [] \<Longrightarrow> hd r \<noteq> CHR '' '' \<Longrightarrow>
     \<not> is_sign (hd r) \<Longrightarrow> signs sg temp t = (sg, temp, t\<lparr>ch := hd r\<rparr>)"
  by (cases r) (simp_all add: signs.simps [of sg temp t] nonBlank_at Let_def)

lemma on_line_Cons_hd: "on_line r s \<Longrightarrow> pos s r = (pos s r)\<lparr>ch := hd (r @ '' '')\<rparr>"
  by (simp add: pos_def)

lemma isdigit_not:
  "isdigit c \<Longrightarrow> c \<noteq> CHR '' '' \<and> \<not> is_sign c"
  by (auto simp: isdigit_def is_sign_def)

lemma hd_show_nat: "isdigit (hd (show_nat n @ r))"
  using show_nat_digits [of "hd (show_nat n)" n] by simp

text \<open>Reading a printed number continues the accumulator.\<close>

lemma digits_show_nat:
  "on_line (show_nat n @ r) s \<Longrightarrow> 0 \<le> a \<Longrightarrow> fits (a * 10 ^ length (show_nat n) + int n) \<Longrightarrow>
   digits a temp (pos s (show_nat n @ r)) = digits (a * 10 ^ length (show_nat n) + int n) True (pos s r)"
proof (induction n arbitrary: r temp rule: show_nat.induct)
  case (1 n)
  show ?case
  proof (cases "n < 10")
    case True
    then have n: "show_nat n = [digit_char n]"
      by (subst show_nat.simps) simp
    have "digits a temp (pos s (digit_char n # r)) = digits (a * 10 + int n) True (pos s r)"
      using True 1(4) 1(2) unfolding n
      by (subst digits.simps) (simp add: cint_def fits_def getCh_pos)
    then show ?thesis
      by (simp add: n)
  next
    case False
    define m where "m = n div 10"
    define d where "d = digit_char (n mod 10)"
    have n: "show_nat n = show_nat m @ [d]"
      using False by (subst show_nat.simps) (simp add: m_def d_def)
    define b where "b = a * 10 ^ length (show_nat m) + int m"
    have "int n = int (n div 10) * 10 + int (n mod 10)"
      by presburger
    then have v: "a * 10 ^ length (show_nat n) + int n = b * 10 + int (n mod 10)"
      by (simp add: n b_def m_def algebra_simps)
    have on: "on_line (show_nat m @ d # r) s" "on_line (d # r) s"
      using 1(2) on_line_append [of "show_nat m" "d # r" s] by (simp_all add: n)
    have b: "fits b" "0 \<le> b"
      using 1(3,4) v fits_digits [of a "length (show_nat m)" n] by (simp_all add: n b_def m_def algebra_simps)
    have "digits a temp (pos s (show_nat m @ d # r)) = digits b True (pos s (d # r))"
      unfolding b_def by (rule 1(1) [OF False, folded m_def]) (use on b 1(3) in \<open>simp_all add: b_def\<close>)
    also have "\<dots> = digits (b * 10 + int (n mod 10)) True (pos s r)"
      using 1(4) v on by (subst digits.simps) (simp add: cint_def fits_def getCh_pos d_def)
    also have "\<dots> = digits (a * 10 ^ length (show_nat n) + int n) True (pos s r)"
      by (simp only: v)
    finally show ?thesis
      by (simp only: n append.assoc append_Cons append_Nil)
  qed
qed

lemma signs_show_int:
  assumes "on_line R s" "blanks R = show_int v @ r"
  shows "signs 1 False (pos s R) =
    (if v < 0 then (-1, False, pos s (show_nat (nat (- v)) @ r))
     else (1, False, pos s (show_nat (nat v) @ r)))"
proof -
  have on: "on_line (show_int v @ r) s"
    using on_line_blanks [OF assms(1)] assms(2) by simp
  have stop: "signs sg False (pos s (show_nat n @ r)) = (sg, False, pos s (show_nat n @ r))"
    if "on_line (show_nat n @ r) s" for sg n
    using signs_stop [of "show_nat n @ r" s "pos s (show_nat n @ r)" sg False] that hd_show_nat [of n r] isdigit_not
    by (auto simp: on_line_Cons_hd [symmetric] simp flip: on_line_Cons_hd)
  show ?thesis
  proof (cases "v < 0")
    case True
    then show ?thesis
      using assms on stop by (subst signs.simps) (simp add: show_int_def nonBlank_pos is_sign_def getCh_pos on_line_tl)
  next
    case False
    have "\<not> is_sign (hd (show_nat (nat v) @ r))"
      using hd_show_nat isdigit_not by blast
    then show ?thesis
      using assms on False by (subst signs.simps) (simp add: show_int_def nonBlank_pos)
  qed
qed

definition ends_number :: "string \<Rightarrow> bool" where
  "ends_number r \<longleftrightarrow> \<not> isdigit (hd (r @ '' '')) \<and> \<not> is_sign (hd (blanks r @ '' ''))"

lemma num_term_show_int:
  assumes on: "on_line R s" "blanks R = show_int v @ r" and v: "fits v" "fits (- v)" and r: "ends_number r"
    and num: "num s = 0"
  shows "num_term False (pos s R) = Done (True, pos (s\<lparr>num := v\<rparr>) r)"
proof -
  have onv: "on_line (show_int v @ r) s"
    using on_line_blanks [OF on(1)] on(2) by simp
  define n where "n = nat \<bar>v\<bar>"
  have onn: "on_line (show_nat n @ r) s"
    using onv by (auto simp: show_int_def n_def dest: on_line_tl split: if_splits)
  have b: "blanks (show_nat n @ r) = show_nat n @ r"
    using hd_show_nat [of n r] isdigit_not by (cases "show_nat n @ r") auto
  have d: "digits 0 False (pos s (show_nat n @ r)) = Done (int n, True, pos s r)"
    using v r by (subst digits_show_nat [OF onn]) (auto simp: n_def fits_def ends_number_def digits.simps [of _ _ "pos s r"])
  show ?thesis
    using signs_show_int [OF on] onn b d v num
    by (auto simp: num_term_def nonBlank_pos n_def cint_def fits_def)
qed

lemma getNum_show_int:
  assumes "on_line R s" "blanks R = show_int v @ r" "fits v" "fits (- v)" "ends_number r"
  shows "getNum (pos s R) = Done (True, pos (s\<lparr>num := v\<rparr>) (blanks r))"
proof -
  have "num_term False (pos (s\<lparr>num := 0\<rparr>) R) = Done (True, pos (s\<lparr>num := v\<rparr>) r)"
    using num_term_show_int [of R "s\<lparr>num := 0\<rparr>" v r] assms by simp
  moreover have "on_line r s"
    using on_line_append [of "show_int v" r s] on_line_blanks [OF assms(1)] assms(2) by simp
  ultimately show ?thesis
    using assms(5) by (simp add: getNum_def num_loop.simps [of False] nonBlank_pos ends_number_def)
qed

lemma on_line_blanksD: "on_line R s \<Longrightarrow> blanks R = a @ r \<Longrightarrow> on_line r s"
  using on_line_blanks [of R s] on_line_append [of a r s] by simp

lemma skipCh_pos:
  "on_line R s \<Longrightarrow> blanks R = c # r \<Longrightarrow> skipCh c (pos s R) = (True, pos s r)"
  using on_line_blanks [of R s] by (simp add: skipCh_def nonBlank_pos getCh_pos)

lemma skipCh_no:
  "on_line R s \<Longrightarrow> hd (blanks R @ '' '') \<noteq> c \<Longrightarrow> skipCh c (pos s R) = (False, pos s (blanks R))"
  by (simp add: skipCh_def nonBlank_pos)

lemma word_loop_pos:
  "on_line (w @ r) s \<Longrightarrow> list_all isalnum w \<Longrightarrow> length acc + length w < WORDSIZE \<Longrightarrow>
   \<not> isalnum (hd (r @ '' '')) \<Longrightarrow> word_loop acc (pos s (w @ r)) = (acc @ w, pos s r)"
proof (induction w arbitrary: acc)
  case Nil
  then show ?case by (subst word_loop.simps) simp
next
  case (Cons c w)
  have "word_loop acc (pos s (c # w @ r)) = word_loop (acc @ [c]) (pos s (w @ r))"
    using Cons.prems by (subst word_loop.simps) (simp add: getCh_pos)
  then show ?case
    using Cons.IH [of "acc @ [c]"] Cons.prems on_line_tl [of c "w @ r" s] by simp
qed

lemma getWord_pos:
  assumes "on_line R s" "blanks R = w @ r" "w \<noteq> []" "list_all isalnum w" "length w < WORDSIZE"
    "\<not> isalnum (hd (r @ '' ''))"
  shows "getWord (pos s R) = (True, pos (s\<lparr>wordbuf := w\<rparr>) r)"
  using assms on_line_blanks [OF assms(1)] word_loop_pos [of w r s "[]"]
  by (simp add: getWord_def nonBlank_pos)

end
