(* ===== verification/CodeEmit.thy ===== *)
theory CodeEmit
  imports TinyReader
begin

text \<open>
  The code emitting utilities (\<open>project/code.c\<close>). The code file is the list of what the calls
  printed; \<open>code_text\<close> is its text. \<open>emitLoc\<close> and \<open>highEmitLoc\<close> are the file's static counters.
\<close>

abbreviation (input) pc_reg :: int where "pc_reg \<equiv> 7"
abbreviation (input) mp :: int where "mp \<equiv> 6"
abbreviation (input) gp :: int where "gp \<equiv> 5"
abbreviation (input) ac :: int where "ac \<equiv> 0"
abbreviation (input) ac1 :: int where "ac1 \<equiv> 1"

datatype emitted = Comment string
  | RO int string int int int string
  | RM int string int int int string

record emitst =
  emitLoc :: int
  highEmitLoc :: int
  TraceCode :: bool
  code :: "emitted list"

definition emitComment :: "string \<Rightarrow> 'a emitst_scheme \<Rightarrow> 'a emitst_scheme" where
  "emitComment c e = (if TraceCode e then e\<lparr>code := code e @ [Comment c]\<rparr> else e)"

definition raise_high :: "'a emitst_scheme \<Rightarrow> 'a emitst_scheme" where
  "raise_high e = (if highEmitLoc e < emitLoc e then e\<lparr>highEmitLoc := emitLoc e\<rparr> else e)"

definition emitRO :: "string \<Rightarrow> int \<Rightarrow> int \<Rightarrow> int \<Rightarrow> string \<Rightarrow> 'a emitst_scheme \<Rightarrow> 'a emitst_scheme" where
  "emitRO opn r s t c e =
    raise_high (e\<lparr>code := code e @ [RO (emitLoc e) opn r s t c], emitLoc := emitLoc e + 1\<rparr>)"

definition emitRM :: "string \<Rightarrow> int \<Rightarrow> int \<Rightarrow> int \<Rightarrow> string \<Rightarrow> 'a emitst_scheme \<Rightarrow> 'a emitst_scheme" where
  "emitRM opn r d s c e =
    raise_high (e\<lparr>code := code e @ [RM (emitLoc e) opn r d s c], emitLoc := emitLoc e + 1\<rparr>)"

definition emitSkip :: "int \<Rightarrow> 'a emitst_scheme \<Rightarrow> int \<times> 'a emitst_scheme" where
  "emitSkip howMany e = (emitLoc e, raise_high (e\<lparr>emitLoc := emitLoc e + howMany\<rparr>))"

definition emitBackup :: "int \<Rightarrow> 'a emitst_scheme \<Rightarrow> 'a emitst_scheme" where
  "emitBackup loc e =
    (if loc > highEmitLoc e then emitComment ''BUG in emitBackup'' e else e)\<lparr>emitLoc := loc\<rparr>"

definition emitRestore :: "'a emitst_scheme \<Rightarrow> 'a emitst_scheme" where
  "emitRestore e = e\<lparr>emitLoc := highEmitLoc e\<rparr>"

definition emitRM_Abs :: "string \<Rightarrow> int \<Rightarrow> int \<Rightarrow> string \<Rightarrow> 'a emitst_scheme \<Rightarrow> 'a emitst_scheme" where
  "emitRM_Abs opn r a c e = raise_high (e\<lparr>code := code e @ [RM (emitLoc e) opn r
     (a - (emitLoc e + 1)) pc_reg c], emitLoc := emitLoc e + 1\<rparr>)"

text \<open>The line each call prints, without its newline.\<close>

definition trailer :: "bool \<Rightarrow> string \<Rightarrow> string" where
  "trailer tr c = (if tr then CHR 0x09 # c else [])"

fun code_line :: "bool \<Rightarrow> emitted \<Rightarrow> string" where
  "code_line tr (Comment c) = ''* '' @ c"
| "code_line tr (RO l opn r s t c) = pad 3 (show_int l) @ '':  '' @ pad 5 opn @ ''  '' @ show_int r
     @ '','' @ show_int s @ '','' @ show_int t @ '' '' @ trailer tr c"
| "code_line tr (RM l opn r d s c) = pad 3 (show_int l) @ '':  '' @ pad 5 opn @ ''  '' @ show_int r
     @ '','' @ show_int d @ ''('' @ show_int s @ '') '' @ trailer tr c"

definition code_text :: "bool \<Rightarrow> emitted list \<Rightarrow> string" where
  "code_text tr es = concat (map (\<lambda>e. code_line tr e @ newline) es)"

subsection \<open>The loader reads what was emitted\<close>

text \<open>What the lines mean to the simulator: the instruction each of them stores.\<close>

fun opcode_of :: "string \<Rightarrow> opcode" where
  "opcode_of w = find_op opcodes w"

fun stores :: "emitted \<Rightarrow> instruction list \<Rightarrow> instruction list" where
  "stores (Comment c) m = m"
| "stores (RO l opn r s t c) m =
     m[nat l := \<lparr>iop = opcode_of opn, iarg1 = r, iarg2 = s, iarg3 = t\<rparr>]"
| "stores (RM l opn r d s c) m =
     m[nat l := \<lparr>iop = opcode_of opn, iarg1 = r, iarg2 = d, iarg3 = s\<rparr>]"

definition location :: "int \<Rightarrow> bool" where
  "location l \<longleftrightarrow> 0 \<le> l \<and> l < int IADDR_SIZE"

definition op_name :: "opclass set \<Rightarrow> string \<Rightarrow> bool" where
  "op_name C w \<longleftrightarrow> w \<noteq> [] \<and> list_all isalnum w \<and> length w \<le> 5 \<and>
     strncmp4_eq (opCodeTab (opcode_of w)) w \<and> opClass (opcode_of w) \<in> C"

fun loadable :: "emitted \<Rightarrow> bool" where
  "loadable (Comment c) = True"
| "loadable (RO l opn r s t c) = (location l \<and> op_name {opclRR} opn \<and> reg_no r \<and> reg_no s \<and> reg_no t)"
| "loadable (RM l opn r d s c) =
     (location l \<and> op_name {opclRM, opclRA} opn \<and> reg_no r \<and> fits d \<and> fits (- d) \<and> reg_no s)"

lemma reg_no_fits2: "reg_no v \<Longrightarrow> fits v \<and> fits (- v)"
  by (simp add: reg_no_def fits_def)

lemma get_reg_pos:
  assumes "on_line R s" "blanks R = show_int v @ r" "reg_no v" "ends_number r"
  shows "get_reg (pos s R) = Done (True, pos (s\<lparr>num := v\<rparr>) (blanks r))"
  using getNum_show_int [of R s v r] reg_no_fits2 [of v] assms by (simp add: get_reg_def reg_no_def)

lemma ends_number_simps [simp]:
  "ends_number (CHR '','' # r)" "ends_number (CHR ''('' # r)" "ends_number (CHR '')'' # r)"
  "ends_number (CHR '':'' # r)" "ends_number (CHR '' '' # trailer tr c)"
  by (simp_all add: ends_number_def isdigit_def is_sign_def trailer_def)

lemma isalnum_not_blank: "isalnum c \<Longrightarrow> c \<noteq> CHR '' ''"
  by (auto simp: isalnum_def isalpha_def isdigit_def)

lemma hd_show_int: "\<exists>c r'. show_int v @ r = c # r' \<and> (isdigit c \<or> c = CHR ''-'')"
  using hd_show_nat [of "nat v" r] by (cases "show_nat (nat v) @ r") (auto simp: show_int_def)

lemma blanks_show_int [simp]: "blanks (show_int v @ r) = show_int v @ r"
proof -
  obtain c r' where "show_int v @ r = c # r'" "isdigit c \<or> c = CHR ''-''"
    using hd_show_int by blast
  then show ?thesis
    using isdigit_not [of c] by auto
qed

lemma blanks_pad [simp]: "blanks (pad n w @ r) = blanks (w @ r)"
  by (simp add: pad_def)

lemma read_RR_line:
  assumes "on_line R t" "blanks R = show_int r @ '','' @ show_int s @ '','' @ show_int u @ '' '' @ trailer tr c"
    and "reg_no r" "reg_no s" "reg_no u"
  shows "\<exists>y. read_RR n loc k (pos t R) = k r s u (pos (t\<lparr>num := u\<rparr>) y)"
proof -
  define r3 where "r3 = '' '' @ trailer tr c"
  define r2 where "r2 = show_int u @ r3"
  define r1 where "r1 = show_int s @ '','' @ r2"
  have b: "blanks R = show_int r @ CHR '','' # r1"
    using assms(2) by (simp add: r1_def r2_def r3_def)
  have on: "on_line (CHR '','' # r1) t" "on_line r1 t"
    using on_line_blanksD [OF assms(1) b] on_line_tl by auto
  have on2: "on_line (CHR '','' # r2) t" "on_line r2 t"
    using on_line_append [of "show_int s" "CHR '','' # r2" t] on(2) on_line_tl by (auto simp: r1_def)
  have "get_reg (pos t R) = Done (True, pos (t\<lparr>num := r\<rparr>) (CHR '','' # r1))"
    by (subst get_reg_pos [OF assms(1) b]) (simp_all add: assms)
  moreover have "get_reg (pos (t\<lparr>num := r\<rparr>) r1) = Done (True, pos (t\<lparr>num := s\<rparr>) (CHR '','' # r2))"
    by (subst get_reg_pos [where v = s and r = "CHR '','' # r2"]) (simp_all add: assms on r1_def [symmetric], simp_all add: r1_def)
  moreover have "get_reg (pos (t\<lparr>num := s\<rparr>) r2) = Done (True, pos (t\<lparr>num := u\<rparr>) (blanks r3))"
    by (subst get_reg_pos [where v = u and r = r3]) (simp_all add: assms on2, simp_all add: r2_def r3_def)
  ultimately show ?thesis
    using on on2 by (auto simp: read_RR_def skipCh_pos)
qed

lemma read_RM_line:
  assumes "on_line R t" "blanks R = show_int r @ '','' @ show_int d @ ''('' @ show_int u @ '') '' @ trailer tr c"
    and "reg_no r" "fits d" "fits (- d)" "reg_no u"
  shows "\<exists>y. read_RM n loc k (pos t R) = k r d u (pos (t\<lparr>num := u\<rparr>) y)"
proof -
  define r3 where "r3 = '') '' @ trailer tr c"
  define r2 where "r2 = show_int u @ r3"
  define r1 where "r1 = show_int d @ ''('' @ r2"
  have b: "blanks R = show_int r @ CHR '','' # r1"
    using assms(2) by (simp add: r1_def r2_def r3_def)
  have on: "on_line (CHR '','' # r1) t" "on_line r1 t"
    using on_line_blanksD [OF assms(1) b] on_line_tl by auto
  have on2: "on_line (CHR ''('' # r2) t" "on_line r2 t"
    using on_line_append [of "show_int d" "CHR ''('' # r2" t] on(2) on_line_tl by (auto simp: r1_def)
  have "get_reg (pos t R) = Done (True, pos (t\<lparr>num := r\<rparr>) (CHR '','' # r1))"
    by (subst get_reg_pos [OF assms(1) b]) (simp_all add: assms)
  moreover have "getNum (pos (t\<lparr>num := r\<rparr>) r1) = Done (True, pos (t\<lparr>num := d\<rparr>) (CHR ''('' # r2))"
    by (subst getNum_show_int [where v = d and r = "CHR ''('' # r2"]) (simp_all add: assms on, simp_all add: r1_def)
  moreover have "get_reg (pos (t\<lparr>num := d\<rparr>) r2) = Done (True, pos (t\<lparr>num := u\<rparr>) (blanks r3))"
    by (subst get_reg_pos [where v = u and r = r3]) (simp_all add: assms on2, simp_all add: r2_def r3_def)
  ultimately show ?thesis
    using on on2 by (auto simp: read_RM_def skipCh_pos)
qed

text \<open>The part of a line that both formats share: location, colon and opcode.\<close>

lemma read_line_prefix:
  assumes line: "line s = pad 3 (show_int l) @ '':  '' @ pad 5 w @ CHR '' '' # r" and s: "inCol s = 0"
    and l: "location l" and w: "op_name C w"
  shows "read_line n s = read_operands n l (opcode_of w) (pos (s\<lparr>num := l, wordbuf := w\<rparr>) (CHR '' '' # r))"
proof -
  define r2 where "r2 = '' '' @ '' '' @ pad 5 w @ CHR '' '' # r"
  define R where "R = show_int l @ CHR '':'' # r2"
  have b: "blanks (line s) = R" "R \<noteq> []"
    using line hd_show_int [of l "CHR '':'' # r2"] by (auto simp: r2_def R_def)
  have on: "on_line R s"
    using on_line_blanks [of "line s" s] b by (simp add: on_line_def)
  have on2: "on_line (CHR '':'' # r2) s" "on_line r2 s"
    using on_line_append [of "show_int l" "CHR '':'' # r2" s] on on_line_tl by (auto simp: R_def)
  have star: "line s ! inCol (pos s R) \<noteq> CHR ''*''"
    using nth_pos_hd [OF on b(2)] hd_show_int [of l "CHR '':'' # r2"] by (auto simp: R_def isdigit_def)
  have g: "getNum (pos s R) = Done (True, pos (s\<lparr>num := l\<rparr>) (CHR '':'' # r2))"
    by (subst getNum_show_int [where v = l and r = "CHR '':'' # r2"])
      (use on l in \<open>simp_all add: R_def location_def fits_def\<close>)
  have ww: "blanks r2 = w @ CHR '' '' # r"
    using w isalnum_not_blank by (cases w) (auto simp: r2_def op_name_def)
  have "getWord (pos (s\<lparr>num := l\<rparr>) r2) = (True, pos (s\<lparr>num := l, wordbuf := w\<rparr>) (CHR '' '' # r))"
    by (subst getWord_pos [OF _ ww])
      (use on2 w in \<open>auto simp: op_name_def isalnum_def isalpha_def isdigit_def\<close>)
  then show ?thesis
    using b star g on2 l w
    by (simp add: read_line_def nonBlank_start [OF s] skipCh_pos location_def op_name_def Let_def)
qed

text \<open>Reading one emitted line stores its instruction; a comment stores nothing.\<close>

lemma read_line_emitted:
  assumes line: "line s = code_line tr e" and s: "inCol s = 0" "length (iMem s) = IADDR_SIZE" and e: "loadable e"
  shows "\<exists>s'. read_line n s = Done (True, s') \<and> line s' = line s
    \<and> lexst.more s' = lexst.more (s\<lparr>iMem := stores e (iMem s)\<rparr>)"
proof (cases e)
  case (Comment c)
  have b: "blanks (line s) = line s" "line s \<noteq> []"
    using line by (simp_all add: Comment)
  have "line s ! inCol (pos s (line s)) = CHR ''*''"
    by (simp add: pos_def line Comment)
  then have "read_line n s = Done (True, pos s (line s))"
    using b by (simp add: read_line_def nonBlank_start [OF s(1)])
  then show ?thesis
    by (simp add: Comment)
next
  case (RO l w r a t c)
  define x where "x = '' '' @ show_int r @ '','' @ show_int a @ '','' @ show_int t @ '' '' @ trailer tr c"
  have lx: "line s = pad 3 (show_int l) @ '':  '' @ pad 5 w @ CHR '' '' # x"
    using line by (simp add: RO x_def)
  let ?t = "s\<lparr>num := l, wordbuf := w\<rparr>"
  have p: "read_line n s = read_operands n l (opcode_of w) (pos ?t (CHR '' '' # x))"
    by (rule read_line_prefix [OF lx s(1)]) (use e in \<open>auto simp: RO\<close>)
  have "on_line (CHR '' '' # x) ?t"
    by (simp add: on_line_def lx suffix_def)
  then obtain y where "read_RR n l (store_instr l (opcode_of w)) (pos ?t (CHR '' '' # x))
      = store_instr l (opcode_of w) r a t (pos (?t\<lparr>num := t\<rparr>) y)"
    using read_RR_line [of "CHR '' '' # x" ?t r a t tr c n l "store_instr l (opcode_of w)"] e
    by (auto simp: RO x_def)
  then have "read_line n s = store_instr l (opcode_of w) r a t (pos (?t\<lparr>num := t\<rparr>) y)"
    using p e by (simp add: RO read_operands_def op_name_def)
  then show ?thesis
    using s(2) e by (cases s) (simp add: store_instr_def poke_def RO location_def pos_def)
next
  case (RM l w r d a c)
  define x where "x = '' '' @ show_int r @ '','' @ show_int d @ ''('' @ show_int a @ '') '' @ trailer tr c"
  have lx: "line s = pad 3 (show_int l) @ '':  '' @ pad 5 w @ CHR '' '' # x"
    using line by (simp add: RM x_def)
  let ?t = "s\<lparr>num := l, wordbuf := w\<rparr>"
  have p: "read_line n s = read_operands n l (opcode_of w) (pos ?t (CHR '' '' # x))"
    by (rule read_line_prefix [OF lx s(1)]) (use e in \<open>auto simp: RM\<close>)
  have "on_line (CHR '' '' # x) ?t"
    by (simp add: on_line_def lx suffix_def)
  then obtain y where "read_RM n l (store_instr l (opcode_of w)) (pos ?t (CHR '' '' # x))
      = store_instr l (opcode_of w) r d a (pos (?t\<lparr>num := a\<rparr>) y)"
    using read_RM_line [of "CHR '' '' # x" ?t r d a tr c n l "store_instr l (opcode_of w)"] e
    by (auto simp: RM x_def)
  then have "read_line n s = store_instr l (opcode_of w) r d a (pos (?t\<lparr>num := a\<rparr>) y)"
    using p e by (auto simp: RM read_operands_def op_name_def)
  then show ?thesis
    using s(2) e by (cases s) (simp add: store_instr_def poke_def RM location_def pos_def)
qed

definition file_line :: "string \<Rightarrow> bool" where
  "file_line l \<longleftrightarrow> length l < 118 \<and> CHR 0x0A \<notin> set l \<and> CHR 0x00 \<notin> set l"

lemma fgets_line:
  "CHR 0x0A \<notin> set l \<Longrightarrow> length l < n \<Longrightarrow> fgets n (l @ CHR 0x0A # f) = (l @ newline, f, False)"
proof (induction l arbitrary: n)
  case Nil
  then show ?case by (cases n) auto
next
  case (Cons c l)
  then show ?case by (cases n) auto
qed

lemma code_line_nonempty: "code_line tr e \<noteq> []"
  by (cases e) simp_all

lemma chop_line_newline: "file_line l \<Longrightarrow> chop_line (l @ newline) = Done l"
proof -
  assume l: "file_line l"
  have t: "takeWhile (\<lambda>c. c \<noteq> CHR 0x00) (l @ newline) = l @ newline"
    using l by (subst takeWhile_eq_all_conv) (auto simp: file_line_def)
  show ?thesis
    by (simp only: chop_line_def Let_def t) (simp add: nth_append)
qed

lemma chop_line_same: "file_line l \<Longrightarrow> l \<noteq> [] \<Longrightarrow> chop_line l = Done l"
proof -
  assume l: "file_line l" "l \<noteq> []"
  have t: "takeWhile (\<lambda>c. c \<noteq> CHR 0x00) l = l"
    using l by (subst takeWhile_eq_all_conv) (auto simp: file_line_def)
  have "l ! (length l - 1) \<noteq> CHR 0x0A"
  proof
    assume "l ! (length l - 1) = CHR 0x0A"
    then have "CHR 0x0A \<in> set l"
      using last_in_set [OF l(2)] by (simp add: last_conv_nth [OF l(2)])
    then show False
      using l(1) by (simp add: file_line_def)
  qed
  then show ?thesis
    using l(2) by (simp add: chop_line_def Let_def t)
qed

lemma stores_length [simp]: "length (stores e m) = length m"
  by (cases e) simp_all

lemma stores_twice: "stores e (stores e m) = stores e m"
  by (cases e) simp_all

definition loaded_line :: "bool \<Rightarrow> emitted \<Rightarrow> bool" where
  "loaded_line tr e \<longleftrightarrow> loadable e \<and> file_line (code_line tr e)"

text \<open>
  The whole file. After its last line \<open>feof\<close> is still false: \<open>fgets\<close> reads nothing, and the last line
  is stored a second time.
\<close>

lemma read_lines_emitted:
  assumes "list_all (loaded_line tr) es" "length (iMem s) = IADDR_SIZE"
    and "es \<noteq> [] \<or> (\<exists>e. line s = code_line tr e \<and> loaded_line tr e \<and> stores e (iMem s) = iMem s)"
  shows "\<exists>s'. read_lines n (code_text tr es) s = Done (True, s')
    \<and> lexst.more s' = lexst.more (s\<lparr>iMem := fold stores es (iMem s)\<rparr>)"
  using assms
proof (induction es arbitrary: n s)
  case Nil
  then obtain e where e: "line s = code_line tr e" "loaded_line tr e" "stores e (iMem s) = iMem s"
    by auto
  define s0 where "s0 = s\<lparr>line := line s, inCol := 0\<rparr>"
  obtain s' where "read_line (n + 1) s0 = Done (True, s')"
      "lexst.more s' = lexst.more (s0\<lparr>iMem := stores e (iMem s0)\<rparr>)"
    using read_line_emitted [of s0 tr e "n + 1"] e Nil by (auto simp: s0_def loaded_line_def)
  moreover have "chop_line (line s) = Done (line s)"
    using e chop_line_same code_line_nonempty by (simp add: loaded_line_def)
  ultimately show ?case
    using e(3) by (subst read_lines.simps) (simp add: code_text_def s0_def eval_nat_numeral)
next
  case (Cons e es)
  define l where "l = code_line tr e"
  define s0 where "s0 = s\<lparr>line := l, inCol := 0\<rparr>"
  have e: "loadable e" "file_line l"
    using Cons.prems(1) by (simp_all add: loaded_line_def l_def)
  obtain s1 where s1: "read_line (n + 1) s0 = Done (True, s1)" "line s1 = l"
      "lexst.more s1 = lexst.more (s0\<lparr>iMem := stores e (iMem s0)\<rparr>)"
    using read_line_emitted [of s0 tr e "n + 1"] e Cons.prems(2) by (auto simp: s0_def l_def)
  have m1: "iMem s1 = stores e (iMem s)"
    using s1(3) by (cases s; cases s1) (simp add: s0_def)
  obtain s' where s': "read_lines (n + 1) (code_text tr es) s1 = Done (True, s')"
      "lexst.more s' = lexst.more (s1\<lparr>iMem := fold stores es (iMem s1)\<rparr>)"
    using Cons.IH [of s1 "n + 1"] Cons.prems m1 s1(2) stores_twice [of e]
    by (auto simp: loaded_line_def l_def)
  have "fgets 118 (code_text tr (e # es)) = (l @ newline, code_text tr es, False)"
    using fgets_line [of l 118 "code_text tr es"] e(2) by (simp add: code_text_def l_def file_line_def)
  then have "read_lines n (code_text tr (e # es)) s = Done (True, s')"
    using s1(1) s'(1) chop_line_newline [OF e(2)] by (subst read_lines.simps) (simp add: s0_def)
  moreover have "lexst.more s' = lexst.more (s\<lparr>iMem := fold stores (e # es) (iMem s)\<rparr>)"
    using s'(2) m1 s1(3) by (cases s; cases s1) (simp add: s0_def)
  ultimately show ?case
    by blast
qed

lemma readInstructions_emitted:
  assumes "es \<noteq> []" "list_all (loaded_line tr) es"
  shows "\<exists>s'. readInstructions (code_text tr es) s = Done (True, s')
    \<and> iMem s' = fold stores es (replicate IADDR_SIZE halt_instr)
    \<and> reg s' = replicate NO_REGS 0 \<and> dMem s' = (int DADDR_SIZE - 1) # replicate (DADDR_SIZE - 1) 0
    \<and> stdin s' = stdin s \<and> stdout s' = stdout s"
proof -
  define s0 where "s0 = (reset_data s)\<lparr>iMem := replicate IADDR_SIZE halt_instr\<rparr>"
  obtain s' where s': "readInstructions (code_text tr es) s = Done (True, s')"
      "lexst.more s' = lexst.more (s0\<lparr>iMem := fold stores es (iMem s0)\<rparr>)"
    using read_lines_emitted [OF assms(2), of s0 0] assms(1)
    by (auto simp: readInstructions_def s0_def)
  then show ?thesis
    by (cases s'; cases s) (auto simp: s0_def reset_data_def)
qed

end
