(* ===== verification/SyntaxTree.thy ===== *)
theory SyntaxTree
  imports Prelude
begin

text \<open>
  The syntax tree of the compiler project (\<open>project/globals.h\<close>) and its tokens
  (\<open>project/y.tab.h\<close>). The member \<open>kind\<close> is a union of four enumerations and is tested by \<open>switch\<close>
  without a look at \<open>nodekind\<close>, so it is the number stored; \<open>attr\<close> is the union member that was
  written last, and reading another one is \<open>Undef\<close>.
\<close>

datatype token = ENDFILE | IF | ELSE | WHILE | RETURN | INT | VOID | ID | NUM
  | EQ | NE | LT | LE | GT | GE | LPAREN | RPAREN | LBRACE | RBRACE | LCURLY | RCURLY
  | SEMI | ERROR | PLUS | MINUS | TIMES | OVER | COMMA | ASSIGN

datatype nodekind = StmtK | ExpK | DeclK | ParamK

datatype exptype = Void | Integer

abbreviation (input) FuncK :: nat where "FuncK \<equiv> 0"
abbreviation (input) VarK :: nat where "VarK \<equiv> 1"
abbreviation (input) VarArrK :: nat where "VarArrK \<equiv> 2"

abbreviation (input) SinParamK :: nat where "SinParamK \<equiv> 0"
abbreviation (input) ArrParamK :: nat where "ArrParamK \<equiv> 1"

abbreviation (input) IfK :: nat where "IfK \<equiv> 0"
abbreviation (input) CompK :: nat where "CompK \<equiv> 1"
abbreviation (input) IteK :: nat where "IteK \<equiv> 2"
abbreviation (input) RepeatK :: nat where "RepeatK \<equiv> 3"
abbreviation (input) ReadK :: nat where "ReadK \<equiv> 4"
abbreviation (input) WriteK :: nat where "WriteK \<equiv> 5"
abbreviation (input) RetK :: nat where "RetK \<equiv> 6"

abbreviation (input) OpK :: nat where "OpK \<equiv> 0"
abbreviation (input) ConstK :: nat where "ConstK \<equiv> 1"
abbreviation (input) IdK :: nat where "IdK \<equiv> 2"
abbreviation (input) AssignK :: nat where "AssignK \<equiv> 3"
abbreviation (input) CallK :: nat where "CallK \<equiv> 4"

datatype attr = Op token | Val int | Name string | Size int | NoAttr

fun attr_op :: "attr \<Rightarrow> token outcome" where
  "attr_op (Op t) = Done t" | "attr_op _ = Undef"

fun attr_val :: "attr \<Rightarrow> int outcome" where
  "attr_val (Val v) = Done v" | "attr_val _ = Undef"

fun attr_name :: "attr \<Rightarrow> string outcome" where
  "attr_name (Name n) = Done n" | "attr_name _ = Undef"

text \<open>\<open>NULL\<close> is \<open>Leaf\<close>; a node has its kind, attribute, type, line, three children and sibling.\<close>

datatype tree = Leaf
  | Node nodekind nat attr exptype int tree tree tree tree

end
