(* ===== verification/CodeGen.thy ===== *)
theory CodeGen
  imports CodeEmit SyntaxTree
begin

text \<open>
  The code generator for the Tiny Machine (\<open>project/cgen.c\<close>). \<open>main.c\<close> defines \<open>NO_CODE\<close>, so it is
  not part of the build, and it does not fit the rest any more: its symbol table interface is
  \<open>st_lookup(name)\<close>, here the parameter \<open>lk\<close> from names to memory locations, and it looks for
  assignments among the statements, where \<open>globals.h\<close> gives \<open>AssignK\<close> the number of \<open>RepeatK\<close>.
  The generator is translated as it is written, each \<open>switch\<close> with its first matching case.
\<close>

record cgst = emitst +
  tmpOffset :: int

definition trace_comment :: "string \<Rightarrow> 'a emitst_scheme \<Rightarrow> 'a emitst_scheme" where
  "trace_comment c e = (if TraceCode e then emitComment c e else e)"

text \<open>\<open>gen_if\<close>, with the backpatching of its two jumps; \<open>g1\<close>, \<open>g2\<close>, \<open>g3\<close> generate the children.\<close>

definition gen_if :: "(cgst \<Rightarrow> cgst outcome) \<Rightarrow> (cgst \<Rightarrow> cgst outcome) \<Rightarrow> (cgst \<Rightarrow> cgst outcome) \<Rightarrow>
    cgst \<Rightarrow> cgst outcome" where
  "gen_if g1 g2 g3 e =
    bindO (g1 (trace_comment ''-> if'' e)) (\<lambda>e.
    let (savedLoc1, e) = emitSkip 1 e;
        e = emitComment ''if: jump to else belongs here'' e in
    bindO (g2 e) (\<lambda>e.
    let (savedLoc2, e) = emitSkip 1 e;
        e = emitComment ''if: jump to end belongs here'' e;
        (currentLoc, e) = emitSkip 0 e;
        e = emitBackup savedLoc1 e;
        e = emitRM_Abs ''JEQ'' ac currentLoc ''if: jmp to else'' e;
        e = emitRestore e in
    bindO (g3 e) (\<lambda>e.
    let (currentLoc, e) = emitSkip 0 e;
        e = emitBackup savedLoc2 e;
        e = emitRM_Abs ''LDA'' pc_reg currentLoc ''jmp to end'' e;
        e = emitRestore e in
    Done (trace_comment ''<- if'' e))))"

definition gen_repeat :: "(cgst \<Rightarrow> cgst outcome) \<Rightarrow> (cgst \<Rightarrow> cgst outcome) \<Rightarrow> cgst \<Rightarrow> cgst outcome" where
  "gen_repeat g1 g2 e =
    (let (savedLoc1, e) = emitSkip 0 (trace_comment ''-> repeat'' e);
         e = emitComment ''repeat: jump after body comes back here'' e in
     bindO (g1 e) (\<lambda>e. bindO (g2 e) (\<lambda>e.
     Done (trace_comment ''<- repeat''
       (emitRM_Abs ''JEQ'' ac savedLoc1 ''repeat: jmp back to body'' e)))))"

definition gen_assign :: "(string \<Rightarrow> int) \<Rightarrow> attr \<Rightarrow> (cgst \<Rightarrow> cgst outcome) \<Rightarrow> cgst \<Rightarrow> cgst outcome" where
  "gen_assign lk a g1 e =
    bindO (g1 (trace_comment ''-> assign'' e)) (\<lambda>e. bindO (attr_name a) (\<lambda>x.
    Done (trace_comment ''<- assign'' (emitRM ''ST'' ac (lk x) gp ''assign: store value'' e))))"

definition genStmt :: "(string \<Rightarrow> int) \<Rightarrow> nat \<Rightarrow> attr \<Rightarrow> (cgst \<Rightarrow> cgst outcome) \<Rightarrow>
    (cgst \<Rightarrow> cgst outcome) \<Rightarrow> (cgst \<Rightarrow> cgst outcome) \<Rightarrow> cgst \<Rightarrow> cgst outcome" where
  "genStmt lk k a g1 g2 g3 e =
    (if k = IfK then gen_if g1 g2 g3 e
     else if k = RepeatK then gen_repeat g1 g2 e
     else if k = AssignK then gen_assign lk a g1 e
     else if k = ReadK then bindO (attr_name a) (\<lambda>x.
       Done (emitRM ''ST'' ac (lk x) gp ''read: store value''
         (emitRO ''IN'' ac 0 0 ''read integer value'' e)))
     else if k = WriteK then bindO (g1 e) (\<lambda>e. Done (emitRO ''OUT'' ac 0 0 ''write ac'' e))
     else Done e)"

text \<open>The instructions for an operator; the comparisons leave 0 or 1 in the accumulator.\<close>

definition gen_compare :: "string \<Rightarrow> string \<Rightarrow> cgst \<Rightarrow> cgst" where
  "gen_compare c jmp e =
    emitRM ''LDC'' ac 1 ac ''true case''
     (emitRM ''LDA'' pc_reg 1 pc_reg ''unconditional jmp''
      (emitRM ''LDC'' ac 0 ac ''false case''
       (emitRM jmp ac 2 pc_reg ''br if true''
        (emitRO ''SUB'' ac ac1 ac c e))))"

definition gen_operator :: "token \<Rightarrow> cgst \<Rightarrow> cgst" where
  "gen_operator t e = (case t of
      PLUS \<Rightarrow> emitRO ''ADD'' ac ac1 ac ''op +'' e
    | MINUS \<Rightarrow> emitRO ''SUB'' ac ac1 ac ''op -'' e
    | TIMES \<Rightarrow> emitRO ''MUL'' ac ac1 ac ''op *'' e
    | OVER \<Rightarrow> emitRO ''DIV'' ac ac1 ac ''op /'' e
    | LT \<Rightarrow> gen_compare ''op <'' ''JLT'' e
    | EQ \<Rightarrow> gen_compare ''op =='' ''JEQ'' e
    | _ \<Rightarrow> emitComment ''BUG: Unknown operator'' e)"

definition genExp :: "(string \<Rightarrow> int) \<Rightarrow> nat \<Rightarrow> attr \<Rightarrow> (cgst \<Rightarrow> cgst outcome) \<Rightarrow>
    (cgst \<Rightarrow> cgst outcome) \<Rightarrow> cgst \<Rightarrow> cgst outcome" where
  "genExp lk k a g1 g2 e =
    (if k = ConstK then bindO (attr_val a) (\<lambda>v. Done (trace_comment ''<- Const''
       (emitRM ''LDC'' ac v 0 ''load const'' (trace_comment ''-> Const'' e))))
     else if k = IdK then bindO (attr_name a) (\<lambda>x. Done (trace_comment ''<- Id''
       (emitRM ''LD'' ac (lk x) gp ''load id value'' (trace_comment ''-> Id'' e))))
     else if k = OpK then
       bindO (g1 (trace_comment ''-> Op'' e)) (\<lambda>e.
       let e = emitRM ''ST'' ac (tmpOffset e) mp ''op: push left'' (e\<lparr>tmpOffset := tmpOffset e - 1\<rparr>) in
       bindO (g2 e) (\<lambda>e.
       let e = e\<lparr>tmpOffset := tmpOffset e + 1\<rparr>;
           e = emitRM ''LD'' ac1 (tmpOffset e) mp ''op: load left'' e in
       bindO (attr_op a) (\<lambda>t. Done (trace_comment ''<- Op'' (gen_operator t e)))))
     else Done e)"

primrec cGen :: "(string \<Rightarrow> int) \<Rightarrow> tree \<Rightarrow> cgst \<Rightarrow> cgst outcome" where
  "cGen lk Leaf = Done"
| "cGen lk (Node nk k a ty ln t1 t2 t3 sib) = (\<lambda>e.
    bindO (case nk of
        StmtK \<Rightarrow> genStmt lk k a (cGen lk t1) (cGen lk t2) (cGen lk t3) e
      | ExpK \<Rightarrow> genExp lk k a (cGen lk t1) (cGen lk t2) e
      | _ \<Rightarrow> Done e) (cGen lk sib))"

definition codeGen :: "(string \<Rightarrow> int) \<Rightarrow> tree \<Rightarrow> string \<Rightarrow> cgst \<Rightarrow> cgst outcome" where
  "codeGen lk t codefile e =
    (let e = emitComment ''TINY Compilation to TM Code'' e;
         e = emitComment (''File: '' @ codefile) e;
         e = emitComment ''Standard prelude:'' e;
         e = emitRM ''LD'' mp 0 ac ''load maxaddress from location 0'' e;
         e = emitRM ''ST'' ac 0 ac ''clear location 0'' e;
         e = emitComment ''End of standard prelude.'' e in
     bindO (cGen lk t e) (\<lambda>e.
     Done (emitRO ''HALT'' 0 0 0 '''' (emitComment ''End of execution.'' e))))"

end
