(* ===== verification/CodeRun.thy ===== *)
theory CodeRun
  imports CodeGen
begin

text \<open>
  Generated code on the machine. \<open>goes\<close> describes a run from one state to another: where it stops, the
  two accumulators, and the memory words it may have changed. One lemma for each instruction the
  generator emits in an expression, then the code of every expression by induction.
\<close>

subsection \<open>Running emitted code\<close>

inductive tm_run :: "tmst \<Rightarrow> tmst \<Rightarrow> bool" where
  refl: "tm_run s s"
| step: "stepTM s = Done (srOKAY, t) \<Longrightarrow> tm_run t u \<Longrightarrow> tm_run s u"

lemma tm_run_trans: "tm_run s t \<Longrightarrow> tm_run t u \<Longrightarrow> tm_run s u"
  by (induction rule: tm_run.induct) (auto intro: tm_run.step)

lemma tm_run_one: "stepTM s = Done (srOKAY, t) \<Longrightarrow> tm_run s t"
  by (rule tm_run.step [OF _ tm_run.refl])

lemma tm_run_ok: "tm_run s t \<Longrightarrow> tm_ok s \<Longrightarrow> tm_ok t"
  by (induction rule: tm_run.induct) (auto dest: stepTM_ok)

text \<open>Everything emitted so far is in the instruction memory.\<close>

definition holds :: "'a emitst_scheme \<Rightarrow> tmst \<Rightarrow> bool" where
  "holds e s \<longleftrightarrow> list_all (\<lambda>it. stores it (iMem s) = iMem s) (code e)"

lemma raise_high_sels [simp]:
  "code (raise_high e) = code e" "emitLoc (raise_high e) = emitLoc e"
  "TraceCode (raise_high e) = TraceCode e" "tmpOffset (raise_high g) = tmpOffset g"
  by (simp_all add: raise_high_def)

lemma emit_sels [simp]:
  "code (emitRO w r a t c e) = code e @ [RO (emitLoc e) w r a t c]"
  "emitLoc (emitRO w r a t c e) = emitLoc e + 1"
  "tmpOffset (emitRO w r a t c g) = tmpOffset g"
  "code (emitRM w r a t c e) = code e @ [RM (emitLoc e) w r a t c]"
  "emitLoc (emitRM w r a t c e) = emitLoc e + 1"
  "tmpOffset (emitRM w r a t c g) = tmpOffset g"
  "emitLoc (emitComment c e) = emitLoc e"
  "tmpOffset (emitComment c g) = tmpOffset g"
  by (simp_all add: emitRO_def emitRM_def emitComment_def)

lemma holds_emit [simp]:
  "holds (emitComment c e) s = holds e s"
  "holds (emitRO w r a t c e) s \<longleftrightarrow> holds e s \<and> stores (RO (emitLoc e) w r a t c) (iMem s) = iMem s"
  "holds (emitRM w r a t c e) s \<longleftrightarrow> holds e s \<and> stores (RM (emitLoc e) w r a t c) (iMem s) = iMem s"
  "holds (g\<lparr>tmpOffset := n\<rparr>) s = holds g s"
  by (simp_all add: holds_def emitComment_def)

lemma holds_iMem: "iMem s' = iMem s \<Longrightarrow> holds e s' = holds e s"
  by (simp add: holds_def)

lemma opcode_of_simps [simp]:
  "opcode_of ''HALT'' = opHALT" "opcode_of ''IN'' = opIN" "opcode_of ''OUT'' = opOUT"
  "opcode_of ''ADD'' = opADD" "opcode_of ''SUB'' = opSUB" "opcode_of ''MUL'' = opMUL"
  "opcode_of ''DIV'' = opDIV" "opcode_of ''LD'' = opLD" "opcode_of ''ST'' = opST"
  "opcode_of ''LDA'' = opLDA" "opcode_of ''LDC'' = opLDC" "opcode_of ''JLT'' = opJLT"
  "opcode_of ''JEQ'' = opJEQ"
  by (simp_all add: opcodes_def strncmp4_eq_def less_opcode_def)

declare opcode_of.simps [simp del]

text \<open>The step that executes the instruction at the current location.\<close>

lemma stores_fetch:
  "m[nat l := i] = m \<Longrightarrow> location l \<Longrightarrow> length m = IADDR_SIZE \<Longrightarrow> m ! nat l = i"
  by (metis location_def nat_less_iff nth_list_update_eq)

abbreviation fetched :: "tmst \<Rightarrow> tmst" where
  "fetched s \<equiv> s\<lparr>reg := (reg s)[PC_REG := reg s ! PC_REG + 1]\<rparr>"

lemma step_stored:
  assumes "tm_ok s" "(iMem s)[nat l := i] = iMem s" "location l" "reg s ! PC_REG = l"
  shows "stepTM s = exec_instr i (fetched s)"
  using fetch_decode [OF assms(1), of l "fetched s"] stores_fetch [OF assms(2,3)] assms
  by (simp add: location_def tm_ok_def)

text \<open>
  Code for an expression may change the accumulators, the pc and the words of \<open>T\<close>; \<open>frame\<close> says that
  it changes nothing else.
\<close>

definition frame :: "int set \<Rightarrow> tmst \<Rightarrow> tmst \<Rightarrow> bool" where
  "frame T s s' \<longleftrightarrow> iMem s' = iMem s \<and> tm_ok s' \<and> stdin s' = stdin s \<and> stdout s' = stdout s
     \<and> (\<forall>r. r < NO_REGS \<longrightarrow> r \<noteq> 0 \<longrightarrow> r \<noteq> 1 \<longrightarrow> r \<noteq> PC_REG \<longrightarrow> reg s' ! r = reg s ! r)
     \<and> (\<forall>j. 0 \<le> j \<longrightarrow> j < int DADDR_SIZE \<longrightarrow> j \<notin> T \<longrightarrow> dMem s' ! nat j = dMem s ! nat j)"

lemma frame_refl: "tm_ok s \<Longrightarrow> frame T s s"
  by (simp add: frame_def)

lemma frame_trans: "frame T s s' \<Longrightarrow> frame T s' s'' \<Longrightarrow> frame T s s''"
  by (simp add: frame_def)

lemma frame_mono: "frame T s s' \<Longrightarrow> T \<subseteq> T' \<Longrightarrow> frame T' s s'"
  by (auto simp: frame_def)

definition goes :: "int set \<Rightarrow> int \<Rightarrow> int \<Rightarrow> int \<Rightarrow> tmst \<Rightarrow> tmst \<Rightarrow> bool" where
  "goes T l x y s s' \<longleftrightarrow> tm_run s s' \<and> frame T s s' \<and> reg s' ! PC_REG = l \<and> reg s' ! 0 = x \<and> reg s' ! 1 = y"

lemma goes_trans: "goes T l x y s s' \<Longrightarrow> goes T l' x' y' s' s'' \<Longrightarrow> goes T l' x' y' s s''"
  by (auto simp: goes_def intro: tm_run_trans frame_trans)

lemma goes_step:
  assumes "tm_ok s" "stepTM s = Done (srOKAY, s')" "s' = s\<lparr>reg := rg, dMem := dm\<rparr>"
    and "rg ! PC_REG = l" "rg ! 0 = x" "rg ! 1 = y" "\<And>r. r \<in> {2..6} \<Longrightarrow> rg ! r = reg s ! r"
    and "\<And>j. 0 \<le> j \<Longrightarrow> j < int DADDR_SIZE \<Longrightarrow> j \<notin> T \<Longrightarrow> dm ! nat j = dMem s ! nat j"
  shows "goes T l x y s s'"
  using assms stepTM_ok [OF assms(2,1)] tm_run_one [OF assms(2)]
  by (simp add: goes_def frame_def)

lemma tm_ok_length: "tm_ok s \<Longrightarrow> length (reg s) = NO_REGS" "tm_ok s \<Longrightarrow> length (dMem s) = DADDR_SIZE"
  by (simp_all add: tm_ok_def)

lemma tm_ok_reg_fits: "tm_ok s \<Longrightarrow> r < NO_REGS \<Longrightarrow> fits (reg s ! r)"
  by (simp add: tm_ok_def list_all_length)

lemma set_reg_goes:
  assumes "tm_ok s" "stepTM s = set_reg r v (fetched s)" "r = 0 \<or> r = 1"
  shows "\<exists>s'. goes T (reg s ! PC_REG + 1) (if r = 0 then v else reg s ! 0) (if r = 1 then v else reg s ! 1) s s'"
proof -
  note len = tm_ok_length [OF assms(1)]
  have st: "stepTM s = Done (srOKAY, s\<lparr>reg := (reg s)[PC_REG := reg s ! PC_REG + 1, nat r := v]\<rparr>)"
    using assms len by (auto simp: set_reg_def poke_def)
  show ?thesis
    by (rule exI, rule goes_step [OF assms(1) st, where dm = "dMem s" and
        rg = "(reg s)[PC_REG := reg s ! PC_REG + 1, nat r := v]"])
      (use assms(3) len in \<open>auto simp: nth_list_update\<close>)
qed

lemma jump_goes:
  assumes "tm_ok s" "stepTM s = jump_if c 0 m (fetched s)"
  shows "\<exists>s'. goes T (if c (reg s ! 0) then m else reg s ! PC_REG + 1) (reg s ! 0) (reg s ! 1) s s'"
proof -
  note len = tm_ok_length [OF assms(1)]
  have st: "stepTM s = Done (srOKAY, s\<lparr>reg := (reg s)[PC_REG := if c (reg s ! 0) then m else reg s ! PC_REG + 1]\<rparr>)"
    using assms(2) len by (simp add: jump_if_def set_reg_def poke_def peek_def)
  show ?thesis
    by (rule exI, rule goes_step [OF assms(1) st, where dm = "dMem s" and
        rg = "(reg s)[PC_REG := if c (reg s ! 0) then m else reg s ! PC_REG + 1]"])
      (use len in \<open>auto simp: nth_list_update\<close>)
qed

lemma store_goes:
  assumes "tm_ok s" "stepTM s = exec_op opST 0 a t m d (fetched s)" "0 \<le> m" "m < int DADDR_SIZE" "m \<in> T"
  shows "\<exists>s'. goes T (reg s ! PC_REG + 1) (reg s ! 0) (reg s ! 1) s s' \<and> dMem s' ! nat m = reg s ! 0"
proof -
  note len = tm_ok_length [OF assms(1)]
  define s' where "s' = s\<lparr>reg := (reg s)[PC_REG := reg s ! PC_REG + 1], dMem := (dMem s)[nat m := reg s ! 0]\<rparr>"
  have st: "stepTM s = Done (srOKAY, s')"
    using assms len by (simp add: poke_def peek_def s'_def)
  have "goes T (reg s ! PC_REG + 1) (reg s ! 0) (reg s ! 1) s s'"
    by (rule goes_step [OF assms(1) st s'_def]) (use assms(3-5) len in \<open>auto simp: nth_list_update nat_eq_iff\<close>)
  then show ?thesis
    using assms(3,4) len by (auto simp: s'_def)
qed

lemma mem_addr_fetched:
  assumes "tm_ok s" "0 \<le> iarg3 i" "iarg3 i < 7" "fits (iarg2 i + reg s ! nat (iarg3 i))"
  shows "mem_addr i (fetched s) = Done (iarg2 i + reg s ! nat (iarg3 i))"
  using assms tm_ok_length [of s] by (simp add: mem_addr_def peek_def cint_def fits_def)

lemma mem_addr_pc:
  assumes "tm_ok s" "iarg3 i = 7" "fits (iarg2 i + (reg s ! PC_REG + 1))"
  shows "mem_addr i (fetched s) = Done (iarg2 i + (reg s ! PC_REG + 1))"
  using assms tm_ok_length [of s] by (simp add: mem_addr_def peek_def cint_def fits_def)

text \<open>One lemma for each instruction the generator uses in expressions.\<close>

lemma run_LDC:
  assumes ok: "tm_ok s" and at: "reg s ! PC_REG = emitLoc e" "location (emitLoc e)"
    and h: "holds (emitRM ''LDC'' 0 v 0 c e) s" "fits (v + reg s ! 0)"
  shows "\<exists>s'. goes T (emitLoc e + 1) v (reg s ! 1) s s'"
proof -
  have "stepTM s = set_reg 0 v (fetched s)"
    using step_stored [OF ok _ at(2,1), of "\<lparr>iop = opLDC, iarg1 = 0, iarg2 = v, iarg3 = 0\<rparr>"] h
    by (simp add: exec_instr_def mem_addr_fetched [OF ok])
  then show ?thesis
    using set_reg_goes [OF ok, of 0 v T] at by simp
qed

lemma run_LD:
  assumes ok: "tm_ok s" and at: "reg s ! PC_REG = emitLoc e" "location (emitLoc e)"
    and h: "holds (emitRM ''LD'' r d a c e) s" "r = 0 \<or> r = 1" "0 \<le> a" "a < 7" "m = d + reg s ! nat a"
    "0 \<le> m" "m < int DADDR_SIZE"
  shows "\<exists>s'. goes T (emitLoc e + 1) (if r = 0 then dMem s ! nat m else reg s ! 0)
    (if r = 1 then dMem s ! nat m else reg s ! 1) s s'"
proof -
  have "fits m"
    using h(6,7) by (simp add: fits_def)
  then have "stepTM s = set_reg r (dMem s ! nat m) (fetched s)"
    using step_stored [OF ok _ at(2,1), of "\<lparr>iop = opLD, iarg1 = r, iarg2 = d, iarg3 = a\<rparr>"] h
      tm_ok_length [OF ok]
    by (simp add: exec_instr_def mem_addr_fetched [OF ok] peek_def)
  then show ?thesis
    using set_reg_goes [OF ok _ h(2)] at by simp
qed

lemma run_ST:
  assumes ok: "tm_ok s" and at: "reg s ! PC_REG = emitLoc e" "location (emitLoc e)"
    and h: "holds (emitRM ''ST'' 0 d a c e) s" "0 \<le> a" "a < 7" "m = d + reg s ! nat a"
    "0 \<le> m" "m < int DADDR_SIZE" "m \<in> T"
  shows "\<exists>s'. goes T (emitLoc e + 1) (reg s ! 0) (reg s ! 1) s s' \<and> dMem s' ! nat m = reg s ! 0"
proof -
  have "fits m"
    using h(5,6) by (simp add: fits_def)
  then have "stepTM s = exec_op opST 0 a 0 m d (fetched s)"
    using step_stored [OF ok _ at(2,1), of "\<lparr>iop = opST, iarg1 = 0, iarg2 = d, iarg3 = a\<rparr>"] h
    by (simp add: exec_instr_def mem_addr_fetched [OF ok])
  then show ?thesis
    using store_goes [OF ok] h(5-7) at by simp
qed

lemma run_LDA_pc:
  assumes ok: "tm_ok s" and at: "reg s ! PC_REG = emitLoc e" "location (emitLoc e)"
    and h: "holds (emitRM ''LDA'' 7 d 7 c e) s" "fits (d + emitLoc e + 1)"
  shows "\<exists>s'. goes T (d + emitLoc e + 1) (reg s ! 0) (reg s ! 1) s s'"
proof -
  note len = tm_ok_length [OF ok]
  have st: "stepTM s = Done (srOKAY, s\<lparr>reg := (reg s)[PC_REG := d + emitLoc e + 1]\<rparr>)"
    using step_stored [OF ok _ at(2,1), of "\<lparr>iop = opLDA, iarg1 = 7, iarg2 = d, iarg3 = 7\<rparr>"]
      mem_addr_pc [OF ok, of "\<lparr>iop = opLDA, iarg1 = 7, iarg2 = d, iarg3 = 7\<rparr>"] h at len
    by (simp add: exec_instr_def set_reg_def poke_def algebra_simps)
  show ?thesis
    by (rule exI, rule goes_step [OF ok st, where dm = "dMem s" and rg = "(reg s)[PC_REG := d + emitLoc e + 1]"])
      (use len in \<open>auto simp: nth_list_update\<close>)
qed

lemma run_JLT:
  assumes ok: "tm_ok s" and at: "reg s ! PC_REG = emitLoc e" "location (emitLoc e)"
    and h: "holds (emitRM ''JLT'' 0 d 7 c e) s" "fits (d + emitLoc e + 1)"
  shows "\<exists>s'. goes T (if reg s ! 0 < 0 then d + emitLoc e + 1 else emitLoc e + 1) (reg s ! 0) (reg s ! 1) s s'"
proof -
  have "stepTM s = jump_if (\<lambda>x. x < 0) 0 (d + emitLoc e + 1) (fetched s)"
    using step_stored [OF ok _ at(2,1), of "\<lparr>iop = opJLT, iarg1 = 0, iarg2 = d, iarg3 = 7\<rparr>"]
      mem_addr_pc [OF ok, of "\<lparr>iop = opJLT, iarg1 = 0, iarg2 = d, iarg3 = 7\<rparr>"] h at
    by (simp add: exec_instr_def algebra_simps)
  from jump_goes [OF ok this, where T = T] show ?thesis
    unfolding at(1) .
qed

lemma run_JEQ:
  assumes ok: "tm_ok s" and at: "reg s ! PC_REG = emitLoc e" "location (emitLoc e)"
    and h: "holds (emitRM ''JEQ'' 0 d 7 c e) s" "fits (d + emitLoc e + 1)"
  shows "\<exists>s'. goes T (if reg s ! 0 = 0 then d + emitLoc e + 1 else emitLoc e + 1) (reg s ! 0) (reg s ! 1) s s'"
proof -
  have "stepTM s = jump_if (\<lambda>x. x = 0) 0 (d + emitLoc e + 1) (fetched s)"
    using step_stored [OF ok _ at(2,1), of "\<lparr>iop = opJEQ, iarg1 = 0, iarg2 = d, iarg3 = 7\<rparr>"]
      mem_addr_pc [OF ok, of "\<lparr>iop = opJEQ, iarg1 = 0, iarg2 = d, iarg3 = 7\<rparr>"] h at
    by (simp add: exec_instr_def algebra_simps)
  from jump_goes [OF ok this, where T = T] show ?thesis
    unfolding at(1) .
qed

lemma run_arith:
  assumes ok: "tm_ok s" and at: "reg s ! PC_REG = emitLoc e" "location (emitLoc e)"
    and h: "holds (emitRO w 0 1 0 c e) s" "fits (f (reg s ! 1) (reg s ! 0))"
    "\<And>s :: tmst. exec_op (opcode_of w) 0 1 0 0 1 s = arith f 0 1 0 s" "opClass (opcode_of w) = opclRR"
  shows "\<exists>s'. goes T (emitLoc e + 1) (f (reg s ! 1) (reg s ! 0)) (reg s ! 1) s s'"
proof -
  have "stepTM s = arith f 0 1 0 (fetched s)"
    using step_stored [OF ok _ at(2,1), of "\<lparr>iop = opcode_of w, iarg1 = 0, iarg2 = 1, iarg3 = 0\<rparr>"] h
    by (simp add: exec_instr_def)
  then have "stepTM s = set_reg 0 (f (reg s ! 1) (reg s ! 0)) (fetched s)"
    using tm_ok_length [OF ok] h(2) by (simp add: arith_def peek_def cint_def fits_def)
  then show ?thesis
    using set_reg_goes [OF ok, of 0 "f (reg s ! 1) (reg s ! 0)" T] at by simp
qed

lemma run_DIV:
  assumes ok: "tm_ok s" and at: "reg s ! PC_REG = emitLoc e" "location (emitLoc e)"
    and h: "holds (emitRO ''DIV'' 0 1 0 c e) s" "reg s ! 0 \<noteq> 0" "fits (reg s ! 1 sdiv reg s ! 0)"
  shows "\<exists>s'. goes T (emitLoc e + 1) (reg s ! 1 sdiv reg s ! 0) (reg s ! 1) s s'"
proof -
  have "stepTM s = arith (sdiv) 0 1 0 (fetched s)"
    using step_stored [OF ok _ at(2,1), of "\<lparr>iop = opDIV, iarg1 = 0, iarg2 = 1, iarg3 = 0\<rparr>"] h
      tm_ok_length [OF ok] by (simp add: exec_instr_def peek_def)
  then have "stepTM s = set_reg 0 (reg s ! 1 sdiv reg s ! 0) (fetched s)"
    using tm_ok_length [OF ok] h(3) by (simp add: arith_def peek_def cint_def fits_def)
  then show ?thesis
    using set_reg_goes [OF ok, of 0 "reg s ! 1 sdiv reg s ! 0" T] at by simp
qed

subsection \<open>Expressions\<close>

text \<open>
  What an expression means. The machine adds a register to the operand of \<open>LDC\<close> before it throws the
  sum away, and compares by subtracting, so that values are kept below \<open>2 ^ 30\<close>: \<open>Some\<close> is returned
  only if every intermediate value is.
\<close>

definition small :: "int \<Rightarrow> bool" where
  "small v \<longleftrightarrow> - (2 ^ 30) \<le> v \<and> v < 2 ^ 30"

definition if_small :: "int \<Rightarrow> int option" where
  "if_small v = (if small v then Some v else None)"

fun operate :: "token \<Rightarrow> int \<Rightarrow> int \<Rightarrow> int option" where
  "operate PLUS x y = if_small (x + y)"
| "operate MINUS x y = if_small (x - y)"
| "operate TIMES x y = if_small (x * y)"
| "operate OVER x y = (if y = 0 then None else if_small (x sdiv y))"
| "operate LT x y = (if small (x - y) then Some (if x < y then 1 else 0) else None)"
| "operate EQ x y = (if small (x - y) then Some (if x = y then 1 else 0) else None)"
| "operate _ x y = None"

fun value_of :: "(string \<Rightarrow> int) \<Rightarrow> tree \<Rightarrow> int option" where
  "value_of env Leaf = None"
| "value_of env (Node nk k a ty ln t1 t2 t3 sib) =
    (if nk \<noteq> ExpK \<or> sib \<noteq> Leaf then None
     else if k = ConstK then (case a of Val v \<Rightarrow> if_small v | _ \<Rightarrow> None)
     else if k = IdK then (case a of Name x \<Rightarrow> if_small (env x) | _ \<Rightarrow> None)
     else if k = OpK then (case a of
         Op t \<Rightarrow> Option.bind (value_of env t1) (\<lambda>x. Option.bind (value_of env t2) (operate t x))
       | _ \<Rightarrow> None)
     else None)"

text \<open>The temporaries an expression needs, and the variables it reads.\<close>

fun temps :: "tree \<Rightarrow> int" where
  "temps Leaf = 0"
| "temps (Node nk k a ty ln t1 t2 t3 sib) = (if k = OpK then max (temps t1) (1 + temps t2) else 0)"

fun vars :: "tree \<Rightarrow> string set" where
  "vars Leaf = {}"
| "vars (Node nk k a ty ln t1 t2 t3 sib) =
    (if k = OpK then vars t1 \<union> vars t2 else if k = IdK then (case a of Name x \<Rightarrow> {x} | _ \<Rightarrow> {}) else {})"

lemma temps_nonneg: "0 \<le> temps t"
  by (induction t) auto

lemma small_fits: "small v \<Longrightarrow> small w \<Longrightarrow> fits (v + w)" "small v \<Longrightarrow> fits v"
  by (simp_all add: small_def fits_def)

lemma value_small: "value_of env t = Some v \<Longrightarrow> small v"
proof (cases t)
  case (Node nk k a ty ln t1 t2 t3 sib)
  have op: "operate tk x y = Some v \<Longrightarrow> small v" for tk x y
    by (cases tk) (auto simp: if_small_def small_def split: if_splits)
  show "value_of env t = Some v \<Longrightarrow> ?thesis"
    using op unfolding Node by (auto simp: if_small_def bind_eq_Some_conv split: if_splits attr.splits)
qed simp

text \<open>The generated code after the operands: left in \<open>ac1\<close>, right in \<open>ac\<close>.\<close>

definition at_code :: "'a emitst_scheme \<Rightarrow> tmst \<Rightarrow> bool" where
  "at_code e s \<longleftrightarrow> tm_ok s \<and> reg s ! PC_REG = emitLoc e \<and> 0 \<le> emitLoc e"

lemma goes_at: "goes T (emitLoc e) x y s s' \<Longrightarrow> 0 \<le> emitLoc e \<Longrightarrow> at_code e s'"
  by (simp add: goes_def frame_def at_code_def)

lemma goes_holds: "goes T l x y s s' \<Longrightarrow> holds e s' = holds e s"
  by (simp add: goes_def frame_def holds_def)

lemma goes_ac: "goes T l x y s s' \<Longrightarrow> reg s' ! 0 = x \<and> reg s' ! 1 = y \<and> reg s' ! PC_REG = l \<and> tm_ok s'"
  by (simp add: goes_def frame_def)

lemma run_compare:
  assumes h: "holds (gen_compare c w e) s" and jmp: "w = ''JLT'' \<and> P = (\<lambda>x. x < 0) \<or> w = ''JEQ'' \<and> P = (\<lambda>x. x = 0)"
    and at: "at_code e s" "emitLoc e + 5 \<le> int IADDR_SIZE" and v: "small (reg s ! 1 - reg s ! 0)"
  shows "\<exists>s'. goes T (emitLoc e + 5) (if P (reg s ! 1 - reg s ! 0) then 1 else 0) (reg s ! 1) s s'"
proof -
  define e1 where "e1 = emitRO ''SUB'' 0 1 0 c e"
  define e2 where "e2 = emitRM w 0 2 7 ''br if true'' e1"
  define e3 where "e3 = emitRM ''LDC'' 0 0 0 ''false case'' e2"
  define e4 where "e4 = emitRM ''LDA'' 7 1 7 ''unconditional jmp'' e3"
  define e5 where "e5 = emitRM ''LDC'' 0 1 0 ''true case'' e4"
  have h: "holds e1 s" "holds e2 s" "holds e3 s" "holds e4 s" "holds e5 s"
    using h by (simp_all add: gen_compare_def e1_def e2_def e3_def e4_def e5_def)
  have loc: "emitLoc e1 = emitLoc e + 1" "emitLoc e2 = emitLoc e + 2" "emitLoc e3 = emitLoc e + 3"
      "emitLoc e4 = emitLoc e + 4"
    by (simp_all add: e1_def e2_def e3_def e4_def)
  have bounds: "location (emitLoc e)" "location (emitLoc e1)" "location (emitLoc e2)" "location (emitLoc e3)"
      "location (emitLoc e4)"
    using at by (simp_all add: at_code_def location_def loc)
  define d where "d = reg s ! 1 - reg s ! 0"
  have fd: "fits (1 + d)" "fits d"
    using v by (simp_all add: d_def small_def fits_def)
  obtain s1 where s1: "goes T (emitLoc e + 1) d (reg s ! 1) s s1"
    using run_arith [of s e "''SUB''" c "(-)" T] h(1) at v bounds
    by (auto simp: at_code_def e1_def d_def small_fits)
  note g1 = goes_ac [OF s1] and h1 = goes_holds [OF s1]
  have fl: "fits (2 + emitLoc e1 + 1)" "fits (1 + emitLoc e3 + 1)"
    using at by (simp_all add: loc at_code_def fits_def)
  obtain s2 where s2: "goes T (if P d then emitLoc e4 else emitLoc e2) d (reg s ! 1) s1 s2"
  proof -
    have pre: "tm_ok s1" "reg s1 ! PC_REG = emitLoc e1" "holds e2 s1"
      using g1 h(2) loc by (simp_all add: goes_holds [OF s1])
    have tgt: "2 + emitLoc e1 + 1 = emitLoc e4" "emitLoc e1 + 1 = emitLoc e2"
      by (simp_all add: loc)
    have "\<exists>s2. goes T (if P (reg s1 ! 0) then 2 + emitLoc e1 + 1 else emitLoc e1 + 1) (reg s1 ! 0) (reg s1 ! 1) s1 s2"
      using jmp run_JLT [OF pre(1,2) bounds(2) _ fl(1), where T = T] run_JEQ [OF pre(1,2) bounds(2) _ fl(1), where T = T]
        pre(3) unfolding e2_def by blast
    then show ?thesis
      using that g1 unfolding tgt by auto
  qed
  note g2 = goes_ac [OF s2] g1 and h2 = h1 goes_holds [OF s2]
  show ?thesis
  proof (cases "P d")
    case True
    obtain s3 where s3: "goes T (emitLoc e4 + 1) 1 (reg s ! 1) s2 s3"
      using run_LDC [of s2 e4 1 "''true case''" T] g2 h(5) bounds fd True
      by (auto simp: h2 e5_def)
    show ?thesis
      using goes_trans [OF goes_trans [OF s1 s2] s3] True by (auto simp: loc d_def add.commute)
  next
    case False
    obtain s3 where s3: "goes T (emitLoc e2 + 1) 0 (reg s ! 1) s2 s3"
      using run_LDC [of s2 e2 0 "''false case''" T] g2 h(3) bounds fd False
      by (auto simp: h2 e3_def)
    note g3 = goes_ac [OF s3] g2 and h3 = h2 goes_holds [OF s3]
    obtain s4 where s4: "goes T (1 + emitLoc e3 + 1) 0 (reg s ! 1) s3 s4"
      using run_LDA_pc [of s3 e3 1 "''unconditional jmp''" T] g3 h(4) bounds fl(2)
      by (auto simp: h3 e4_def loc)
    show ?thesis
      using goes_trans [OF goes_trans [OF goes_trans [OF s1 s2] s3] s4] False by (auto simp: loc d_def add.commute)
  qed
qed

definition op_length :: "token \<Rightarrow> int" where
  "op_length t = (if t = LT \<or> t = EQ then 5 else 1)"

lemma operate_op: "operate t x y = Some v \<Longrightarrow> t \<in> {PLUS, MINUS, TIMES, OVER, LT, EQ}"
  by (cases t) auto

lemma operator_emitLoc:
  "t \<in> {PLUS, MINUS, TIMES, OVER, LT, EQ} \<Longrightarrow> emitLoc (gen_operator t e) = emitLoc e + op_length t"
  "tmpOffset (gen_operator t e) = tmpOffset e"
  "holds (gen_operator t e) s \<Longrightarrow> holds e s"
  by (auto simp: gen_operator_def gen_compare_def op_length_def split: token.splits)

lemma run_operator:
  assumes h: "holds (gen_operator t e) s" and at: "at_code e s" "emitLoc e + op_length t \<le> int IADDR_SIZE"
    and v: "operate t (reg s ! 1) (reg s ! 0) = Some v"
  shows "\<exists>s' y. goes T (emitLoc e + op_length t) v y s s'"
proof -
  have s: "tm_ok s" "reg s ! PC_REG = emitLoc e" "location (emitLoc e)"
    using at by (auto simp: at_code_def location_def op_length_def split: if_splits)
  show ?thesis
  proof (cases t)
    case PLUS
    then show ?thesis
      using run_arith [OF s, of "''ADD''" "''op +''" "(+)" T] h v
      by (auto simp: gen_operator_def op_length_def if_small_def small_fits split: if_splits)
  next
    case MINUS
    then show ?thesis
      using run_arith [OF s, of "''SUB''" "''op -''" "(-)" T] h v
      by (auto simp: gen_operator_def op_length_def if_small_def small_fits split: if_splits)
  next
    case TIMES
    then show ?thesis
      using run_arith [OF s, of "''MUL''" "''op *''" "(*)" T] h v
      by (auto simp: gen_operator_def op_length_def if_small_def small_fits split: if_splits)
  next
    case OVER
    then show ?thesis
      using run_DIV [OF s, of "''op /''" T] h v
      by (auto simp: gen_operator_def op_length_def if_small_def small_fits split: if_splits)
  next
    case LT
    then show ?thesis
      using run_compare [of "''op <''" "''JLT''" e s "\<lambda>x. x < 0" T] h at v
      by (auto simp: gen_operator_def op_length_def split: if_splits)
  next
    case EQ
    then show ?thesis
      using run_compare [of "''op ==''" "''JEQ''" e s "\<lambda>x. x = 0" T] h at v
      by (auto simp: gen_operator_def op_length_def split: if_splits)
  qed (use v in auto)
qed

text \<open>
  The main lemma: the code for an expression leaves its value in the accumulator. The temporaries are
  the words below \<open>mp + tmpOffset\<close>, the variables lie under them.
\<close>

definition room :: "(string \<Rightarrow> int) \<Rightarrow> cgst \<Rightarrow> tmst \<Rightarrow> tree \<Rightarrow> bool" where
  "room lk e s t \<longleftrightarrow> temps t \<le> reg s ! nat mp + tmpOffset e + 1 \<and> reg s ! nat mp + tmpOffset e < int DADDR_SIZE
    \<and> (\<forall>x\<in>vars t. 0 \<le> lk x + reg s ! nat gp \<and> lk x + reg s ! nat gp \<le> reg s ! nat mp + tmpOffset e - temps t)"

definition tmp_words :: "cgst \<Rightarrow> tmst \<Rightarrow> tree \<Rightarrow> int set" where
  "tmp_words e s t = {j. reg s ! nat mp + tmpOffset e - temps t < j \<and> j \<le> reg s ! nat mp + tmpOffset e}"

definition holds_vars :: "(string \<Rightarrow> int) \<Rightarrow> (string \<Rightarrow> int) \<Rightarrow> tmst \<Rightarrow> tree \<Rightarrow> bool" where
  "holds_vars lk env s t \<longleftrightarrow> (\<forall>x\<in>vars t. dMem s ! nat (lk x + reg s ! nat gp) = env x)"

lemma trace_comment_eq [simp]: "trace_comment c e = emitComment c e"
  by (simp add: emitComment_def trace_comment_def)

lemma cGen_grows:
  assumes "value_of env t = Some v" "cGen lk t e = Done e'"
  shows "tmpOffset e' = tmpOffset e \<and> emitLoc e \<le> emitLoc e' \<and> (\<forall>s. holds e' s \<longrightarrow> holds e s)"
  using assms
proof (induction t arbitrary: v e e')
  case (Node nk k a ty ln t1 t2 t3 sib)
  show ?case
  proof (cases "k = OpK")
    case True
    then obtain tk x y where v: "a = Op tk" "value_of env t1 = Some x" "value_of env t2 = Some y"
        "operate tk x y = Some v" "nk = ExpK" "sib = Leaf"
      using Node.prems(1) by (auto simp: bind_eq_Some_conv split: if_splits attr.splits)
    define e0 where "e0 = emitComment ''-> Op'' e"
    obtain e1 e2 where e1: "cGen lk t1 e0 = Done e1"
        "cGen lk t2 (emitRM ''ST'' 0 (tmpOffset e1) 6 ''op: push left'' (e1\<lparr>tmpOffset := tmpOffset e1 - 1\<rparr>)) = Done e2"
        "e' = emitComment ''<- Op'' (gen_operator tk (emitRM ''LD'' 1 (tmpOffset e2 + 1) 6 ''op: load left'' (e2\<lparr>tmpOffset := tmpOffset e2 + 1\<rparr>)))"
      using Node.prems(2) v True by (auto simp: genExp_def bindO_Done_iff Let_def e0_def)
    show ?thesis
      using Node.IH(1) [OF v(2) e1(1)] Node.IH(2) [OF v(3) e1(2)] operator_emitLoc(1,2) [of tk] operate_op [OF v(4)]
      by (auto simp: e1(3) e0_def op_length_def dest!: operator_emitLoc(3))
  next
    case False
    then show ?thesis
      using Node.prems by (auto simp: genExp_def bindO_Done_iff split: if_splits attr.splits)
  qed
qed simp

lemma goes_keeps:
  assumes "goes T l x y s s'"
  shows "reg s' ! 5 = reg s ! 5" "reg s' ! 6 = reg s ! 6"
    "0 \<le> j \<Longrightarrow> j < int DADDR_SIZE \<Longrightarrow> j \<notin> T \<Longrightarrow> dMem s' ! nat j = dMem s ! nat j"
  using assms by (simp_all add: goes_def frame_def)

lemma goes_widen: "goes T l x y s s' \<Longrightarrow> T \<subseteq> T' \<Longrightarrow> goes T' l x y s s'"
  by (auto simp: goes_def intro: frame_mono)

lemma expression_leaf:
  assumes v: "value_of env (Node ExpK k a ty ln t1 t2 t3 Leaf) = Some v" "k \<noteq> OpK"
    and g: "cGen lk (Node ExpK k a ty ln t1 t2 t3 Leaf) e = Done e'"
    and at: "at_code e s" "emitLoc e' \<le> int IADDR_SIZE" "holds e' s" "small (reg s ! 0)"
    and r: "room lk e s (Node ExpK k a ty ln t1 t2 t3 Leaf)"
    and e: "holds_vars lk env s (Node ExpK k a ty ln t1 t2 t3 Leaf)"
  shows "\<exists>s' y. goes T (emitLoc e') v y s s'"
proof (cases "k = ConstK")
  case True
  then have a: "a = Val v" "small v"
    using v by (auto simp: if_small_def split: attr.splits if_splits)
  define e0 where "e0 = emitComment ''-> Const'' e"
  have e': "e' = emitComment ''<- Const'' (emitRM ''LDC'' 0 v 0 ''load const'' e0)"
    using g True a by (simp add: genExp_def e0_def)
  have "tm_ok s" "reg s ! PC_REG = emitLoc e0" "location (emitLoc e0)"
    using at by (auto simp: at_code_def location_def e' e0_def)
  from run_LDC [OF this, of v "''load const''" T] show ?thesis
    using at a(2) by (auto simp: e' small_fits)
next
  case False
  then have k: "k = IdK"
    using v by (auto split: if_splits)
  then obtain x where a: "a = Name x" "env x = v"
    using v by (auto simp: if_small_def split: attr.splits if_splits)
  define e0 where "e0 = emitComment ''-> Id'' e"
  have e': "e' = emitComment ''<- Id'' (emitRM ''LD'' 0 (lk x) 5 ''load id value'' e0)"
    using g k a by (simp add: genExp_def e0_def)
  have "tm_ok s" "reg s ! PC_REG = emitLoc e0" "location (emitLoc e0)"
    using at by (auto simp: at_code_def location_def e' e0_def)
  from run_LD [OF this, of 0 "lk x" 5 "''load id value''" "lk x + reg s ! 5" T] show ?thesis
    using at r e a k by (auto simp: e' room_def holds_vars_def)
qed

lemma room_var:
  assumes "room lk e s t" "z \<in> vars t"
  shows "0 \<le> lk z + reg s ! 5" "lk z + reg s ! 5 < int DADDR_SIZE" "lk z + reg s ! 5 \<notin> tmp_words e s t"
  using assms temps_nonneg [of t] by (fastforce simp: room_def tmp_words_def)+

lemma room_cong:
  "tmpOffset e' = tmpOffset e \<Longrightarrow> reg s' ! 5 = reg s ! 5 \<Longrightarrow> reg s' ! 6 = reg s ! 6 \<Longrightarrow>
     room lk e' s' t = room lk e s t"
  by (simp add: room_def)

lemma le_max_diff: "a \<le> t - max b c \<longleftrightarrow> a \<le> t - b \<and> a \<le> t - c" for a :: int
  by auto

lemma room_left:
  "room lk e s (Node nk OpK a ty ln t1 t2 t3 sib) \<Longrightarrow> room lk e s t1"
  by (auto simp: room_def le_max_diff)

lemma room_right:
  assumes r: "room lk e s (Node nk OpK a ty ln t1 t2 t3 sib)" and o2: "tmpOffset e2 = tmpOffset e - 1"
    and s2: "reg s2 ! 5 = reg s ! 5" "reg s2 ! 6 = reg s ! 6"
  shows "room lk e2 s2 t2"
proof -
  have "0 \<le> lk z + reg s ! 5 \<and> lk z + reg s ! 5 \<le> reg s ! 6 + (tmpOffset e - 1) - temps t2" if "z \<in> vars t2" for z
  proof -
    have "0 \<le> lk z + reg s ! 5 \<and> lk z + reg s ! 5 \<le> reg s ! 6 + tmpOffset e - (1 + temps t2)"
      using r that by (simp add: room_def le_max_diff)
    then show ?thesis by linarith
  qed
  then show ?thesis
    using r o2 s2 by (simp add: room_def)
qed

lemma room_top:
  "room lk e s (Node nk OpK a ty ln t1 t2 t3 sib) \<Longrightarrow> 0 \<le> reg s ! 6 + tmpOffset e \<and>
     reg s ! 6 + tmpOffset e < int DADDR_SIZE \<and>
     reg s ! 6 + tmpOffset e \<in> tmp_words e s (Node nk OpK a ty ln t1 t2 t3 sib)"
  using temps_nonneg [of t2] by (auto simp: room_def tmp_words_def)

lemma words_left: "tmp_words e s t1 \<subseteq> tmp_words e s (Node nk OpK a ty ln t1 t2 t3 sib)"
  by (auto simp: tmp_words_def)

lemma words_right:
  "tmpOffset e2 = tmpOffset e - 1 \<Longrightarrow> reg s2 ! 6 = reg s ! 6 \<Longrightarrow>
     tmp_words e2 s2 t2 \<subseteq> tmp_words e s (Node nk OpK a ty ln t1 t2 t3 sib) - {reg s ! 6 + tmpOffset e}"
  by (auto simp: tmp_words_def)

lemma holds_vars_kept:
  assumes "goes (tmp_words e s t) l x y s s'" "room lk e s t" "holds_vars lk env s t"
  shows "holds_vars lk env s' t"
  using assms(3) room_var [OF assms(2)] goes_keeps [OF assms(1)] by (simp add: holds_vars_def)

lemma holds_vars_parts:
  "holds_vars lk env s (Node nk OpK a ty ln t1 t2 t3 sib) \<Longrightarrow> holds_vars lk env s t1 \<and> holds_vars lk env s t2"
  by (simp add: holds_vars_def)

lemma expression_runs:
  assumes "value_of env t = Some v" "cGen lk t e = Done e'"
    and "at_code e s" "emitLoc e' \<le> int IADDR_SIZE" "holds e' s" "small (reg s ! 0)"
    and "room lk e s t" "holds_vars lk env s t"
  shows "\<exists>s' y. goes (tmp_words e s t) (emitLoc e') v y s s'"
  using assms
proof (induction t arbitrary: v e e' s)
  case (Node nk k a ty ln t1 t2 t3 sib)
  have n: "nk = ExpK" "sib = Leaf"
    using Node.prems(1) by (auto split: if_splits)
  show ?case
  proof (cases "k = OpK")
    case False
    then show ?thesis
      using expression_leaf Node.prems unfolding n by blast
  next
    case True
    then obtain tk x y where v: "a = Op tk" "value_of env t1 = Some x" "value_of env t2 = Some y"
        "operate tk x y = Some v"
      using Node.prems(1) by (auto simp: bind_eq_Some_conv split: if_splits attr.splits)
    define e0 where "e0 = emitComment ''-> Op'' e"
    obtain e1 e3 where e1: "cGen lk t1 e0 = Done e1"
        "cGen lk t2 (emitRM ''ST'' 0 (tmpOffset e1) 6 ''op: push left'' (e1\<lparr>tmpOffset := tmpOffset e1 - 1\<rparr>)) = Done e3"
        "e' = emitComment ''<- Op'' (gen_operator tk (emitRM ''LD'' 1 (tmpOffset e3 + 1) 6 ''op: load left'' (e3\<lparr>tmpOffset := tmpOffset e3 + 1\<rparr>)))"
      using Node.prems(2) v True n by (auto simp: genExp_def bindO_Done_iff Let_def e0_def)
    define e2 where "e2 = emitRM ''ST'' 0 (tmpOffset e1) 6 ''op: push left'' (e1\<lparr>tmpOffset := tmpOffset e1 - 1\<rparr>)"
    define e4 where "e4 = emitRM ''LD'' 1 (tmpOffset e3 + 1) 6 ''op: load left'' (e3\<lparr>tmpOffset := tmpOffset e3 + 1\<rparr>)"
    note w1 = cGen_grows [OF v(2) e1(1)]
    note w2 = cGen_grows [OF v(3) e1(2), folded e2_def]
    note e' = e1(3) [folded e4_def]
    have off: "tmpOffset e1 = tmpOffset e" "tmpOffset e2 = tmpOffset e - 1" "tmpOffset e3 = tmpOffset e - 1"
      using w1 w2 by (simp_all add: e0_def e2_def)
    have loc: "emitLoc e2 = emitLoc e1 + 1" "emitLoc e4 = emitLoc e3 + 1" "emitLoc e' = emitLoc e4 + op_length tk"
        "emitLoc e \<le> emitLoc e1" "emitLoc e1 + 1 \<le> emitLoc e3" "1 \<le> op_length tk" "0 \<le> emitLoc e"
      using w1 w2 operator_emitLoc(1) [OF operate_op [OF v(4)]] Node.prems(3)
      by (simp_all add: e0_def e2_def e4_def e' op_length_def at_code_def)
    have h: "holds (gen_operator tk e4) s"
      using Node.prems(5) by (simp add: e')
    then have h4: "holds e4 s" by (rule operator_emitLoc(3))
    then have h3: "holds e3 s" by (simp add: e4_def)
    then have h2: "holds e2 s" using w2 by blast
    then have h1: "holds e1 s" by (simp add: e2_def)
    define n where "n = Node nk k a ty ln t1 t2 t3 sib"
    have e0_words: "tmp_words e0 s t1 = tmp_words e s t1"
      by (simp add: tmp_words_def e0_def)
    note room = Node.prems(7) [unfolded True] and hv = Node.prems(8) [unfolded True]
    define top where "top = reg s ! 6 + tmpOffset e"
    note t = room_top [OF room, folded top_def True, folded n_def]
    have len: "emitLoc e3 + 1 + op_length tk \<le> int IADDR_SIZE"
      using Node.prems(4) loc by simp
    obtain s1 y1 where s1: "goes (tmp_words e s n) (emitLoc e1) x y1 s s1"
    proof -
      have "at_code e0 s" "emitLoc e1 \<le> int IADDR_SIZE" "room lk e0 s t1"
        using Node.prems(3) loc len room_left [OF room] room_cong [of e0 e s s lk t1]
        by (simp_all add: at_code_def e0_def)
      with Node.IH(1) [OF v(2) e1(1) _ _ h1 Node.prems(6)] holds_vars_parts [OF hv]
      obtain s1 y1 where "goes (tmp_words e0 s t1) (emitLoc e1) x y1 s s1"
        by blast
      then show ?thesis
        using goes_widen words_left [of e s t1 nk a ty ln t2 t3 sib] that by (simp add: n_def True e0_words) blast
    qed
    note k1 = goes_ac [OF s1] goes_keeps(1,2) [OF s1]
    obtain s2 where s2: "goes (tmp_words e s n) (emitLoc e2) x y1 s1 s2" and d2: "dMem s2 ! nat top = x"
    proof -
      have "location (emitLoc e1)" "holds (emitRM ''ST'' 0 (tmpOffset e1) 6 ''op: push left'' (e1\<lparr>tmpOffset := tmpOffset e1 - 1\<rparr>)) s1"
        using h2 len loc by (simp_all add: goes_holds [OF s1] location_def e2_def)
      then show ?thesis
        using that run_ST [of s1 "e1\<lparr>tmpOffset := tmpOffset e1 - 1\<rparr>" "tmpOffset e1" 6 "''op: push left''" top "tmp_words e s n"]
          k1 t loc off by (auto simp: top_def)
    qed
    note k2 = goes_ac [OF s2] goes_keeps(1,2) [OF s2]
    have s02: "goes (tmp_words e s n) (emitLoc e2) x y1 s s2"
      by (rule goes_trans [OF s1 s2])
    have r2: "room lk e2 s2 t2"
      by (rule room_right [OF room off(2)]) (simp_all add: k1 k2)
    obtain s3 y3 where s3: "goes (tmp_words e2 s2 t2) (emitLoc e3) y y3 s2 s3"
    proof -
      have "at_code e2 s2" "emitLoc e3 \<le> int IADDR_SIZE" "small (reg s2 ! 0)" "holds e3 s2"
        using k2 loc len value_small [OF v(2)] h3 by (simp_all add: at_code_def goes_holds [OF s02])
      then show ?thesis
        using that Node.IH(2) [OF v(3) e1(2) [folded e2_def]] r2
          holds_vars_parts [OF holds_vars_kept [OF s02 [unfolded n_def True] room hv]] by blast
    qed
    note k3 = goes_ac [OF s3] goes_keeps(1,2) [OF s3]
    have w: "tmp_words e2 s2 t2 \<subseteq> tmp_words e s n - {top}"
      unfolding n_def True top_def by (rule words_right [OF off(2)]) (simp add: k1 k2)
    have d3: "dMem s3 ! nat top = x"
      using goes_keeps(3) [OF s3, of top] t d2 w by auto
    have s03: "goes (tmp_words e s n) (emitLoc e3) y y3 s s3"
      by (rule goes_trans [OF s02 goes_widen [OF s3]]) (use w in blast)
    obtain s4 where s4: "goes (tmp_words e s n) (emitLoc e4) y x s3 s4"
    proof -
      have "location (emitLoc e3)" "holds e4 s3"
        using h4 len loc by (simp_all add: goes_holds [OF s03] location_def)
      then show ?thesis
        using that run_LD [of s3 "e3\<lparr>tmpOffset := tmpOffset e3 + 1\<rparr>" 1 "tmpOffset e3 + 1" 6 "''op: load left''" top "tmp_words e s n"]
          k1 k2 k3 t loc off d3 by (auto simp: top_def e4_def)
    qed
    note k4 = goes_ac [OF s4]
    have s04: "goes (tmp_words e s n) (emitLoc e4) y x s s4"
      by (rule goes_trans [OF s03 s4])
    obtain s5 y5 where s5: "goes (tmp_words e s n) (emitLoc e') v y5 s4 s5"
      using run_operator [of tk e4 s4 v "tmp_words e s n"] h k4 loc len v(4)
      by (auto simp: goes_holds [OF s04] at_code_def)
    show ?thesis
      using goes_trans [OF s04 s5] unfolding n_def by blast
  qed
qed simp

subsection \<open>What the listing loads\<close>

fun loc_of :: "emitted \<Rightarrow> int list" where
  "loc_of (Comment c) = []"
| "loc_of (RO l w r a t c) = [l]"
| "loc_of (RM l w r d a c) = [l]"

lemma stores_commute:
  "nat ` set (loc_of x) \<inter> nat ` set (loc_of y) = {} \<Longrightarrow> stores x (stores y m) = stores y (stores x m)"
  by (cases x; cases y) (simp_all add: list_update_swap)

lemma stores_fold:
  "distinct (map nat (concat (map loc_of es))) \<Longrightarrow> it \<in> set es \<Longrightarrow>
     stores it (fold stores es m) = fold stores es m"
proof (induction es rule: rev_induct)
  case (snoc x es)
  show ?case
  proof (cases "it = x")
    case True
    then show ?thesis by (simp add: stores_twice)
  next
    case False
    then have it: "it \<in> set es"
      using snoc.prems by simp
    then have "nat ` set (loc_of it) \<inter> nat ` set (loc_of x) = {}"
      using snoc.prems(1) by auto
    then have "stores it (stores x (fold stores es m)) = stores x (stores it (fold stores es m))"
      by (rule stores_commute)
    then show ?thesis
      using snoc it by simp
  qed
qed simp

text \<open>Straight-line code fills consecutive locations.\<close>

definition straight :: "'a emitst_scheme \<Rightarrow> bool" where
  "straight e \<longleftrightarrow> 0 \<le> emitLoc e \<and> distinct (concat (map loc_of (code e))) \<and>
     (\<forall>l \<in> set (concat (map loc_of (code e))). 0 \<le> l \<and> l < emitLoc e)"

lemma straight_emit [simp]:
  "straight e \<Longrightarrow> straight (emitComment c e)"
  "straight e \<Longrightarrow> straight (emitRO w r a t c e)"
  "straight e \<Longrightarrow> straight (emitRM w r a t c e)"
  "straight g \<Longrightarrow> straight (g\<lparr>tmpOffset := n\<rparr>)"
  by (fastforce simp: straight_def emitComment_def)+

lemma straight_operator: "straight e \<Longrightarrow> straight (gen_operator t e)"
  by (cases t) (simp_all add: gen_operator_def gen_compare_def)

lemma cGen_straight:
  "value_of env t = Some v \<Longrightarrow> cGen lk t e = Done e' \<Longrightarrow> straight e \<Longrightarrow> straight e'"
proof (induction t arbitrary: v e e')
  case (Node nk k a ty ln t1 t2 t3 sib)
  show ?case
  proof (cases "k = OpK")
    case True
    then obtain tk x y where v: "a = Op tk" "value_of env t1 = Some x" "value_of env t2 = Some y"
        "nk = ExpK" "sib = Leaf"
      using Node.prems(1) by (auto simp: bind_eq_Some_conv split: if_splits attr.splits)
    define e0 where "e0 = emitComment ''-> Op'' e"
    obtain e1 e2 where e1: "cGen lk t1 e0 = Done e1"
        "cGen lk t2 (emitRM ''ST'' 0 (tmpOffset e1) 6 ''op: push left'' (e1\<lparr>tmpOffset := tmpOffset e1 - 1\<rparr>)) = Done e2"
        "e' = emitComment ''<- Op'' (gen_operator tk (emitRM ''LD'' 1 (tmpOffset e2 + 1) 6 ''op: load left'' (e2\<lparr>tmpOffset := tmpOffset e2 + 1\<rparr>)))"
      using Node.prems(2) v True by (auto simp: genExp_def bindO_Done_iff Let_def e0_def)
    have "straight e1"
      by (rule Node.IH(1) [OF v(2) e1(1)]) (simp add: e0_def Node.prems(3))
    then have "straight e2"
      by (intro Node.IH(2) [OF v(3) e1(2)]) simp
    then show ?thesis
      by (simp add: e1(3) straight_operator)
  next
    case False
    then show ?thesis
      using Node.prems by (auto simp: genExp_def bindO_Done_iff split: if_splits attr.splits)
  qed
qed simp

lemma straight_loaded:
  assumes "straight e" "iMem s = fold stores (code e) m"
  shows "holds e s"
proof -
  have "inj_on nat (set (concat (map loc_of (code e))))"
  proof (rule inj_onI)
    fix x y
    assume "x \<in> set (concat (map loc_of (code e)))" "y \<in> set (concat (map loc_of (code e)))" "nat x = nat y"
    moreover from this have "0 \<le> x" "0 \<le> y"
      using assms(1) unfolding straight_def by blast+
    ultimately show "x = y" by simp
  qed
  then have "distinct (map nat (concat (map loc_of (code e))))"
    using assms(1) by (simp only: distinct_map straight_def)
  then show ?thesis
    using stores_fold assms(2) by (simp add: holds_def list_all_iff)
qed

subsection \<open>A whole program\<close>

lemma run_LD_mp:
  assumes "tm_ok s" "reg s ! PC_REG = 0" "holds (emitRM ''LD'' 6 0 0 c e) s" "emitLoc e = 0" "reg s ! 0 = 0"
  shows "stepTM s = Done (srOKAY, s\<lparr>reg := (reg s)[PC_REG := 1, 6 := dMem s ! 0]\<rparr>)"
  using step_stored [OF assms(1), of 0 "\<lparr>iop = opLD, iarg1 = 6, iarg2 = 0, iarg3 = 0\<rparr>"] assms(2-) tm_ok_length [OF assms(1)]
  by (simp add: exec_instr_def mem_addr_def peek_def cint_def set_reg_def poke_def location_def)

lemma run_OUT:
  assumes "tm_ok s" "reg s ! PC_REG = emitLoc e" "location (emitLoc e)" "holds (emitRO ''OUT'' 0 0 0 c e) s"
  shows "stepTM s = Done (srOKAY, (emit (''OUT instruction prints: '' @ show_int (reg s ! 0) @ newline) s)
    \<lparr>reg := (reg s)[PC_REG := emitLoc e + 1]\<rparr>)"
  using step_stored [OF assms(1), of "emitLoc e" "\<lparr>iop = opOUT, iarg1 = 0, iarg2 = 0, iarg3 = 0\<rparr>"] assms(2-) tm_ok_length [OF assms(1)]
  by (simp add: exec_instr_def peek_def emit_def)

lemma show_int_0: "show_int 0 = ''0''"
  by code_simp

lemma run_HALT:
  assumes "tm_ok s" "reg s ! PC_REG = emitLoc e" "location (emitLoc e)" "holds (emitRO ''HALT'' 0 0 0 c e) s"
  shows "\<exists>s'. stepTM s = Done (srHALT, s') \<and> stdout s' = stdout s @ ''HALT: 0,0,0'' @ newline"
  using step_stored [OF assms(1), of "emitLoc e" "\<lparr>iop = opHALT, iarg1 = 0, iarg2 = 0, iarg3 = 0\<rparr>"] assms(2-) tm_ok_length [OF assms(1)]
  by (simp add: exec_instr_def emit_def show_int_0)

text \<open>\<open>write_node\<close> is the tree of a single write statement.\<close>

abbreviation (input) write_node :: "tree \<Rightarrow> tree" where
  "write_node t \<equiv> Node StmtK WriteK NoAttr Void 0 t Leaf Leaf Leaf"

definition new_listing :: "bool \<Rightarrow> cgst" where
  "new_listing tr = \<lparr>emitLoc = 0, highEmitLoc = 0, TraceCode = tr, code = [], tmpOffset = 0\<rparr>"

lemma codeGen_write:
  assumes "codeGen lk (write_node t) f (new_listing tr) = Done e'" "value_of env t = Some v"
  shows "\<exists>e1 e2 e3. cGen lk t e2 = Done e3 \<and> straight e' \<and> emitLoc e1 = 0 \<and> emitLoc e2 = 2 \<and> tmpOffset e2 = 0
    \<and> e2 = emitComment ''End of standard prelude.'' (emitRM ''ST'' 0 0 0 ''clear location 0''
       (emitRM ''LD'' 6 0 0 ''load maxaddress from location 0'' e1))
    \<and> e' = emitRO ''HALT'' 0 0 0 '''' (emitComment ''End of execution.'' (emitRO ''OUT'' 0 0 0 ''write ac'' e3))"
proof -
  define e1 where "e1 = emitComment ''Standard prelude:'' (emitComment (''File: '' @ f)
    (emitComment ''TINY Compilation to TM Code'' (new_listing tr)))"
  define e2 where "e2 = emitComment ''End of standard prelude.'' (emitRM ''ST'' 0 0 0 ''clear location 0''
       (emitRM ''LD'' 6 0 0 ''load maxaddress from location 0'' e1))"
  obtain e3 where e3: "cGen lk t e2 = Done e3"
      "e' = emitRO ''HALT'' 0 0 0 '''' (emitComment ''End of execution.'' (emitRO ''OUT'' 0 0 0 ''write ac'' e3))"
    using assms(1) by (auto simp: codeGen_def Let_def genStmt_def bindO_Done_iff e1_def e2_def)
  have l1: "emitLoc e1 = 0" "tmpOffset e1 = 0" "straight e1"
    by (simp_all add: e1_def new_listing_def straight_def emitComment_def)
  then have "straight e3"
    by (intro cGen_straight [OF assms(2) e3(1)]) (simp add: e2_def)
  then have "straight e'"
    by (simp add: e3(2))
  moreover have "emitLoc e2 = 2" "tmpOffset e2 = 0"
    using l1 by (simp_all add: e2_def)
  ultimately show ?thesis
    using e3 l1 e2_def by blast
qed

lemma run_write:
  assumes g: "codeGen lk (write_node t) f (new_listing tr) = Done e'" and v: "value_of (\<lambda>x. 0) t = Some v"
    and len: "emitLoc e' \<le> int IADDR_SIZE"
    and room: "temps t \<le> int DADDR_SIZE" "\<And>x. x \<in> vars t \<Longrightarrow> 0 \<le> lk x \<and> lk x < int DADDR_SIZE - temps t"
    and s: "tm_ok s" "holds e' s" "reg s = replicate NO_REGS 0" "dMem s = (int DADDR_SIZE - 1) # replicate (DADDR_SIZE - 1) 0"
  shows "\<exists>s1 s2. tm_run s s1 \<and> stepTM s1 = Done (srHALT, s2)
    \<and> stdout s2 = stdout s @ ''OUT instruction prints: '' @ show_int v @ newline @ ''HALT: 0,0,0'' @ newline"
proof -
  obtain e1 e2 e3 where e: "cGen lk t e2 = Done e3" "emitLoc e1 = 0" "emitLoc e2 = 2" "tmpOffset e2 = 0"
      "e2 = emitComment ''End of standard prelude.'' (emitRM ''ST'' 0 0 0 ''clear location 0''
       (emitRM ''LD'' 6 0 0 ''load maxaddress from location 0'' e1))"
      "e' = emitRO ''HALT'' 0 0 0 '''' (emitComment ''End of execution.'' (emitRO ''OUT'' 0 0 0 ''write ac'' e3))"
    using codeGen_write [OF g v] by auto
  note w = cGen_grows [OF v e(1)]
  have h: "holds e3 s" "holds (emitRO ''OUT'' 0 0 0 ''write ac'' e3) s"
    using s(2) by (simp_all add: e(6))
  then have h2: "holds e2 s" using w by blast
  define s1 where "s1 = s\<lparr>reg := (reg s)[PC_REG := 1, 6 := int DADDR_SIZE - 1]\<rparr>"
  have st1: "stepTM s = Done (srOKAY, s1)"
    using run_LD_mp [of s "''load maxaddress from location 0''" e1] h2 s e(2) by (simp add: s1_def e(5))
  have ok1: "tm_ok s1"
    by (rule stepTM_ok [OF st1 s(1)])
  define l where "l = emitRM ''LD'' 6 0 0 ''load maxaddress from location 0'' e1"
  have "holds (emitRM ''ST'' 0 0 0 ''clear location 0'' l) s"
    using h2 by (simp add: e(5) l_def)
  then have hs1: "holds (emitRM ''ST'' 0 0 0 ''clear location 0'' l) s1"
    using holds_iMem [of s1 s "emitRM ''ST'' 0 0 0 ''clear location 0'' l"] by (simp add: s1_def)
  have s1r: "reg s1 ! PC_REG = 1" "reg s1 ! 0 = 0" "reg s1 ! 1 = 0" "reg s1 ! 5 = 0" "reg s1 ! 6 = int DADDR_SIZE - 1"
    by (simp_all add: s1_def s(3))
  have ll: "emitLoc l = 1"
    by (simp add: l_def e(2))
  obtain s2 where s2: "goes {0} 2 0 0 s1 s2" and d2: "dMem s2 ! 0 = 0"
    using run_ST [OF ok1 _ _ hs1, of 0 "{0}"] s1r ll by (auto simp: location_def)
  have mem2: "dMem s2 ! nat j = 0" if "0 \<le> j" "j < int DADDR_SIZE" for j
    using goes_keeps(3) [OF s2 that] d2 that by (cases "j = 0") (auto simp: s1_def s(4) nth_Cons' nat_eq_iff)
  note k2 = goes_ac [OF s2] goes_keeps(1,2) [OF s2]
  have r2: "room lk e2 s2 t" and hv2: "holds_vars lk (\<lambda>x. 0) s2 t"
    using room k2 s1r e(4) mem2 temps_nonneg [of t] by (force simp: room_def holds_vars_def)+
  have i2: "iMem s2 = iMem s" "stdout s2 = stdout s"
    using s2 by (simp_all add: goes_def frame_def s1_def)
  have h3: "holds e3 s2"
    using h(1) holds_iMem [OF i2(1)] by blast
  have "at_code e2 s2" "emitLoc e3 \<le> int IADDR_SIZE" "small (reg s2 ! 0)"
    using k2 e(3) len by (simp_all add: at_code_def e(6) small_def)
  then obtain s3 y where s3: "goes (tmp_words e2 s2 t) (emitLoc e3) v y s2 s3"
    using expression_runs [OF v e(1) _ _ h3 _ r2 hv2] by blast
  note k3 = goes_ac [OF s3]
  have i3: "iMem s3 = iMem s" "stdout s3 = stdout s"
    using s3 i2 by (simp_all add: goes_def frame_def)
  have l3: "location (emitLoc e3)" "location (emitLoc e3 + 1)"
    using w len e(3) by (simp_all add: e(6) location_def)
  define s4 where "s4 = (emit (''OUT instruction prints: '' @ show_int v @ newline) s3)\<lparr>reg := (reg s3)[PC_REG := emitLoc e3 + 1]\<rparr>"
  have st3: "stepTM s3 = Done (srOKAY, s4)"
    using run_OUT [of s3 e3 "''write ac''"] k3 l3 h(2) holds_iMem [OF i3(1), of "emitRO ''OUT'' 0 0 0 ''write ac'' e3"]
    by (simp add: s4_def)
  have ok4: "tm_ok s4"
    using stepTM_ok [OF st3] k3 by simp
  define e4 where "e4 = emitComment ''End of execution.'' (emitRO ''OUT'' 0 0 0 ''write ac'' e3)"
  have i4: "iMem s4 = iMem s" "reg s4 ! PC_REG = emitLoc e4"
    using i3 k3 by (simp_all add: s4_def emit_def e4_def tm_ok_def)
  have "holds (emitRO ''HALT'' 0 0 0 '''' e4) s4"
    using s(2) holds_iMem [OF i4(1), of e'] by (simp add: e(6) e4_def)
  then obtain s5 where "stepTM s4 = Done (srHALT, s5)" "stdout s5 = stdout s4 @ ''HALT: 0,0,0'' @ newline"
    using run_HALT [OF ok4 i4(2)] l3 by (auto simp: e4_def)
  moreover have "tm_run s s4"
    using tm_run.step [OF st1] s2 s3 tm_run_one [OF st3] by (auto simp: goes_def intro: tm_run_trans)
  moreover have "stdout s4 = stdout s @ ''OUT instruction prints: '' @ show_int v @ newline"
    by (simp add: s4_def emit_def i3)
  ultimately show ?thesis
    by auto
qed

end
