(* ===== verification/TinySpec.thy ===== *)
theory TinySpec
  imports CodeRun
begin

text \<open>
  The properties of the simulator and the code generator, with a compiled program for their witnesses.
\<close>

subsection \<open>A small program\<close>

lemma emit_eval:
  "emitComment c \<lparr>emitLoc = l, highEmitLoc = h, TraceCode = False, code = cs, tmpOffset = n\<rparr>
    = \<lparr>emitLoc = l, highEmitLoc = h, TraceCode = False, code = cs, tmpOffset = n\<rparr>"
  "emitRO w r a b c \<lparr>emitLoc = l, highEmitLoc = l, TraceCode = False, code = cs, tmpOffset = n\<rparr>
    = \<lparr>emitLoc = l + 1, highEmitLoc = l + 1, TraceCode = False, code = cs @ [RO l w r a b c], tmpOffset = n\<rparr>"
  "emitRM w r a b c \<lparr>emitLoc = l, highEmitLoc = l, TraceCode = False, code = cs, tmpOffset = n\<rparr>
    = \<lparr>emitLoc = l + 1, highEmitLoc = l + 1, TraceCode = False, code = cs @ [RM l w r a b c], tmpOffset = n\<rparr>"
  by (simp_all add: emitComment_def emitRO_def emitRM_def raise_high_def)

definition demo_tree :: tree where
  "demo_tree = Node ExpK OpK (Op TIMES) Integer 1 (Node ExpK ConstK (Val 6) Integer 1 Leaf Leaf Leaf Leaf)
     (Node ExpK OpK (Op MINUS) Integer 1 (Node ExpK ConstK (Val 3) Integer 1 Leaf Leaf Leaf Leaf)
       (Node ExpK IdK (Name ''x'') Integer 1 Leaf Leaf Leaf Leaf) Leaf Leaf) Leaf Leaf"

definition demo_listing :: "emitted list" where
  "demo_listing = [RM 0 ''LD'' 6 0 0 ''load maxaddress from location 0'',
     RM 1 ''ST'' 0 0 0 ''clear location 0'', RM 2 ''LDC'' 0 6 0 ''load const'',
     RM 3 ''ST'' 0 0 6 ''op: push left'', RM 4 ''LDC'' 0 3 0 ''load const'',
     RM 5 ''ST'' 0 (- 1) 6 ''op: push left'', RM 6 ''LD'' 0 0 5 ''load id value'',
     RM 7 ''LD'' 1 (- 1) 6 ''op: load left'', RO 8 ''SUB'' 0 1 0 ''op -'',
     RM 9 ''LD'' 1 0 6 ''op: load left'', RO 10 ''MUL'' 0 1 0 ''op *'',
     RO 11 ''OUT'' 0 0 0 ''write ac'', RO 12 ''HALT'' 0 0 0 '''']"

lemma demo_gen:
  "codeGen (\<lambda>x. 0) (write_node demo_tree) ''demo.tm'' (new_listing False) =
    Done \<lparr>emitLoc = 13, highEmitLoc = 13, TraceCode = False, code = demo_listing, tmpOffset = 0\<rparr>"
  unfolding demo_tree_def codeGen_def new_listing_def
  by (simp add: genStmt_def genExp_def gen_operator_def emit_eval demo_listing_def)

lemma demo_value: "value_of (\<lambda>x. 0) demo_tree = Some 18" "temps demo_tree = 2" "vars demo_tree = {''x''}"
  by (simp_all add: demo_tree_def if_small_def small_def)

lemma demo_ops: "list_all loadable demo_listing"
  by (simp add: demo_listing_def location_def op_name_def reg_no_def fits_def isalnum_def isalpha_def strncmp4_eq_def)

lemma demo_lines: "list_all (\<lambda>e. file_line (code_line False e)) demo_listing"
  by code_simp

lemma demo_loaded: "list_all (loaded_line False) demo_listing"
  using demo_ops demo_lines by (auto simp: list_all_iff loaded_line_def)

definition blank_tm :: tmst where
  "blank_tm = \<lparr>line = [], inCol = 0, ch = CHR '' '', num = 0, wordbuf = [],
     iMem = replicate IADDR_SIZE halt_instr, dMem = replicate DADDR_SIZE 0, reg = replicate NO_REGS 0,
     iloc = 0, dloc = 0, traceflag = False, icountflag = False, stdin = [], stdout = []\<rparr>"

lemma demo_loads:
  "\<exists>s'. readInstructions (code_text False demo_listing) blank_tm = Done (True, s')
    \<and> iMem s' = fold stores demo_listing (replicate IADDR_SIZE halt_instr) \<and> reg s' = replicate NO_REGS 0"
  using readInstructions_emitted [of demo_listing False blank_tm] demo_loaded by (auto simp: demo_listing_def)

definition demo_product :: tree where
  "demo_product = Node ExpK OpK (Op TIMES) Integer 1 (Node ExpK ConstK (Val 6) Integer 1 Leaf Leaf Leaf Leaf)
     (Node ExpK ConstK (Val 7) Integer 1 Leaf Leaf Leaf Leaf) Leaf Leaf"

definition product_listing :: "emitted list" where
  "product_listing = [RM 0 ''LDC'' 0 6 0 ''load const'', RM 1 ''ST'' 0 0 6 ''op: push left'',
     RM 2 ''LDC'' 0 7 0 ''load const'', RM 3 ''LD'' 1 0 6 ''op: load left'', RO 4 ''MUL'' 0 1 0 ''op *'']"

definition product_state :: cgst where
  "product_state = \<lparr>emitLoc = 5, highEmitLoc = 5, TraceCode = False, code = product_listing, tmpOffset = 0\<rparr>"

lemma product_gen: "cGen (\<lambda>x. 0) demo_product (new_listing False) = Done product_state"
  unfolding demo_product_def new_listing_def
  by (simp add: genExp_def gen_operator_def emit_eval product_listing_def product_state_def)

lemma product_value: "value_of (\<lambda>x. 0) demo_product = Some 42"
  by (simp add: demo_product_def if_small_def small_def)

lemma product_ops: "list_all loadable product_listing"
  by (simp add: product_listing_def location_def op_name_def reg_no_def fits_def isalnum_def isalpha_def strncmp4_eq_def)

lemma product_lines: "list_all (\<lambda>e. file_line (code_line False e)) product_listing"
  by code_simp

lemma product_loaded: "list_all (loaded_line False) product_listing"
  using product_ops product_lines by (auto simp: list_all_iff loaded_line_def)

lemma product_straight: "straight product_state"
  by (simp add: straight_def product_state_def product_listing_def)

lemma product_len: "emitLoc product_state = 5"
  by (simp add: product_state_def)

subsection \<open>Properties\<close>

text \<open>
  C20. Type safety of a session: after loading any file and carrying out any sequence of typed
  commands, the memories have their sizes, every value is a C int and every instruction has valid
  operands.
\<close>

theorem session_well_typed: "tm_session f t \<Longrightarrow> tm_ok t"
  by (rule tm_session_ok)

theorem session_well_typed_witness:
  "\<exists>t. tm_session (code_text False demo_listing) t \<and> tm_ok t"
proof -
  obtain s where "readInstructions (code_text False demo_listing) blank_tm = Done (True, s)"
    using demo_loads by blast
  then have "tm_session (code_text False demo_listing) s"
    by (rule tm_session.loaded)
  then show ?thesis
    using session_well_typed by blast
qed

text \<open>
  C21. One step of a well-typed machine returns, with a well-typed machine, unless the pc or a memory
  operand is 1024, an \<open>int\<close> overflows, or it has to wait for input.
\<close>

theorem stepTM_safe:
  assumes ok: "tm_ok s" and pc: "reg s ! PC_REG \<noteq> int IADDR_SIZE"
    and safe: "0 \<le> reg s ! PC_REG \<Longrightarrow> reg s ! PC_REG < int IADDR_SIZE \<Longrightarrow>
      hazard_free (iMem s ! nat (reg s ! PC_REG)) ((reg s)[PC_REG := reg s ! PC_REG + 1])"
  shows "\<exists>r s'. stepTM s = Done (r, s') \<and> tm_ok s'"
proof -
  have "\<exists>y. stepTM s = Done y"
  proof (cases "0 \<le> reg s ! PC_REG \<and> reg s ! PC_REG < int IADDR_SIZE")
    case True
    define i where "i = iMem s ! nat (reg s ! PC_REG)"
    note f = fetch_decode [OF ok HOL.refl, of "fetched s", folded i_def]
    have "hazard_free i (reg (fetched s))"
      using safe True by (simp add: i_def)
    then show ?thesis
      using f True exec_RR_returns [of "fetched s" i] exec_RM_returns [of "fetched s" i]
        exec_RA_returns [of "fetched s" i] by (cases "opClass (iop i)") simp_all
  next
    case False
    then show ?thesis
      using ok pc by (auto simp: stepTM_def peek_def tm_ok_def)
  qed
  then show ?thesis
    using stepTM_ok [OF _ ok] by (metis surj_pair)
qed

theorem stepTM_safe_witness:
  "\<exists>s r s'. iMem s ! 0 = \<lparr>iop = opLD, iarg1 = 6, iarg2 = 0, iarg3 = 0\<rparr> \<and> tm_ok s
     \<and> stepTM s = Done (r, s') \<and> tm_ok s'"
proof -
  obtain s where s: "readInstructions (code_text False demo_listing) blank_tm = Done (True, s)"
      "iMem s = fold stores demo_listing (replicate IADDR_SIZE halt_instr)" "reg s = replicate NO_REGS 0"
    using demo_loads by blast
  have i: "iMem s ! 0 = \<lparr>iop = opLD, iarg1 = 6, iarg2 = 0, iarg3 = 0\<rparr>"
    by (simp add: s(2) demo_listing_def nth_list_update del: replicate.simps)
  have "\<exists>r s'. stepTM s = Done (r, s') \<and> tm_ok s'"
    by (rule stepTM_safe [OF readInstructions_ok [OF s(1)]])
      (simp_all add: s(3) i hazard_free_def fits_def)
  then show ?thesis
    using i readInstructions_ok [OF s(1)] by blast
qed

text \<open>
  The bounds checks of the simulator let the word behind each memory through: a pc of 1024 is
  fetched from \<open>iMem[1024]\<close>, an operand of 1024 accesses \<open>dMem[1024]\<close>.
\<close>

lemma tm_off_by_one:
  assumes "tm_ok s"
  shows "(reg s ! PC_REG = int IADDR_SIZE \<longrightarrow> stepTM s = Undef) \<and>
    (\<forall>i. 0 \<le> reg s ! PC_REG \<and> reg s ! PC_REG < int IADDR_SIZE \<and> i = iMem s ! nat (reg s ! PC_REG) \<and>
      iop i \<in> {opLD, opST} \<and> iarg3 i \<noteq> int PC_REG \<and> iarg2 i + reg s ! nat (iarg3 i) = int DADDR_SIZE
      \<longrightarrow> stepTM s = Undef)"
proof (intro conjI allI impI, goal_cases)
  case 1
  then show ?case
    using assms by (simp add: stepTM_def peek_def poke_def tm_ok_def)
next
  case (2 i)
  then have h: "0 \<le> reg s ! PC_REG" "reg s ! PC_REG < int IADDR_SIZE" "i = iMem s ! nat (reg s ! PC_REG)"
    by blast+
  note f = fetch_decode [OF assms HOL.refl h(1,2), of "fetched s", folded h(3)]
  have "mem_addr i (fetched s) = Done (int DADDR_SIZE)"
    using mem_addr_fetched [OF assms, of i] f(4) 2 by (auto simp: instr_ok_def reg_no_def fits_def)
  then show ?case
    using f 2 by (auto simp: exec_instr_def peek_def poke_def instr_ok_def reg_no_def)
qed

text \<open>
  C19. Round trip: the simulator loads a listing that the code generator printed, line by line, as the
  instructions that were emitted, with all registers 0 and the memory size in \<open>dMem[0]\<close>.
\<close>

theorem listing_loads_back:
  assumes "es \<noteq> []" "list_all (loaded_line tr) es"
  shows "\<exists>s'. readInstructions (code_text tr es) s = Done (True, s')
    \<and> iMem s' = fold stores es (replicate IADDR_SIZE halt_instr)
    \<and> reg s' = replicate NO_REGS 0 \<and> dMem s' = (int DADDR_SIZE - 1) # replicate (DADDR_SIZE - 1) 0
    \<and> stdin s' = stdin s \<and> stdout s' = stdout s"
  by (rule readInstructions_emitted [OF assms])

theorem listing_loads_back_witness:
  "\<exists>s'. readInstructions (code_text False demo_listing) blank_tm = Done (True, s')
    \<and> iMem s' = fold stores demo_listing (replicate IADDR_SIZE halt_instr)"
  using listing_loads_back [of demo_listing False blank_tm] demo_loaded by (auto simp: demo_listing_def)

text \<open>
  C18. Compiler correctness for expressions: wherever the code of an expression stands in memory, it runs
  from its first location to the one behind it, leaves the expression's value in the accumulator, and
  changes only the two accumulators and the temporaries it needs.
\<close>

theorem expression_compiled:
  assumes "value_of env t = Some v" "cGen lk t e = Done e'"
    and "at_code e s" "emitLoc e' \<le> int IADDR_SIZE" "holds e' s" "small (reg s ! 0)"
    and "room lk e s t" "holds_vars lk env s t"
  shows "\<exists>s' y. goes (tmp_words e s t) (emitLoc e') v y s s'"
  by (rule expression_runs [OF assms])

theorem expression_compiled_witness:
  "\<exists>s e' s' y. cGen (\<lambda>x. 0) demo_product (new_listing False) = Done e' \<and> goes {0} 5 42 y s s'"
proof -
  obtain s where s: "readInstructions (code_text False product_listing) blank_tm = Done (True, s)"
      "iMem s = fold stores product_listing (replicate IADDR_SIZE halt_instr)" "reg s = replicate NO_REGS 0"
    using readInstructions_emitted [of product_listing False blank_tm] product_loaded by (auto simp: product_listing_def)
  have h: "holds product_state s"
    by (rule straight_loaded [OF product_straight, of s "replicate IADDR_SIZE halt_instr"])
      (simp add: s(2) product_state_def del: replicate.simps)
  have "\<exists>s' y. goes (tmp_words (new_listing False) s demo_product) 5 42 y s s'"
    by (rule expression_compiled [OF product_value product_gen, unfolded product_len])
      (use s(3) readInstructions_ok [OF s(1)] h in
        \<open>simp_all add: at_code_def new_listing_def room_def holds_vars_def small_def demo_product_def\<close>)
  moreover have "{j :: int. - 1 < j \<and> j \<le> 0} = {0}"
    by auto
  then have "tmp_words (new_listing False) s demo_product = {0}"
    by (simp add: tmp_words_def new_listing_def demo_product_def s(3))
  ultimately show ?thesis
    using product_gen by auto
qed

text \<open>
  C17. The tool chain: the listing generated for a statement that writes an expression, printed, loaded
  into the simulator and run, halts and prints the value of the expression.
\<close>

theorem compiled_write_prints:
  assumes "codeGen lk (write_node t) f (new_listing tr) = Done e'" "value_of (\<lambda>x. 0) t = Some v"
    and "emitLoc e' \<le> int IADDR_SIZE" "list_all (loaded_line tr) (code e')"
    and "temps t \<le> int DADDR_SIZE" "\<And>x. x \<in> vars t \<Longrightarrow> 0 \<le> lk x \<and> lk x < int DADDR_SIZE - temps t"
  shows "\<exists>s0 s1 s2. readInstructions (code_text tr (code e')) s = Done (True, s0) \<and> tm_run s0 s1
    \<and> stepTM s1 = Done (srHALT, s2)
    \<and> stdout s2 = stdout s @ ''OUT instruction prints: '' @ show_int v @ newline @ ''HALT: 0,0,0'' @ newline"
proof -
  have e: "straight e'" "code e' \<noteq> []"
    using codeGen_write [OF assms(1,2)] by auto
  obtain s0 where s0: "readInstructions (code_text tr (code e')) s = Done (True, s0)"
      "iMem s0 = fold stores (code e') (replicate IADDR_SIZE halt_instr)"
      "reg s0 = replicate NO_REGS 0" "dMem s0 = (int DADDR_SIZE - 1) # replicate (DADDR_SIZE - 1) 0"
      "stdout s0 = stdout s"
    using readInstructions_emitted [OF e(2) assms(4), of s] by blast
  show ?thesis
    using run_write [OF assms(1-3,5,6) readInstructions_ok [OF s0(1)] straight_loaded [OF e(1) s0(2)] s0(3,4)] s0(1,5)
    by auto
qed

theorem compiled_write_prints_witness:
  "\<exists>s0 s1 s2. readInstructions (code_text False demo_listing) blank_tm = Done (True, s0) \<and> tm_run s0 s1
    \<and> stepTM s1 = Done (srHALT, s2)
    \<and> stdout s2 = ''OUT instruction prints: '' @ show_int 18 @ newline @ ''HALT: 0,0,0'' @ newline"
  using compiled_write_prints [OF demo_gen demo_value(1), of blank_tm] demo_loaded
  by (simp add: demo_value(2,3) blank_tm_def del: replicate.simps)

end
