(* ===== verification/SymTab.thy ===== *)
theory SymTab
  imports Decimal "HOL-Library.Signed_Division" SyntaxTree
begin

text \<open>
  The symbol table of the compiler (\<open>project/symtab.c\<close>): a hash table of scopes, each with a hash table
  of entries. A chain of records is a list, newest first; a pointer to a scope is the name of that
  scope, which is unique. Memory is always available.
\<close>

subsection \<open>State\<close>

abbreviation SIZE :: nat where "SIZE \<equiv> 211"

text \<open>\<open>BucketListRec\<close> with its list of lines, \<open>ScopeListRec\<close>, and \<open>scopeHashTable\<close>.\<close>

record entry =
  en_name :: string
  en_type :: exptype
  en_lines :: "int list"
  en_memloc :: int

record scope_rec =
  sc_name :: string
  sc_bucket :: "nat \<Rightarrow> entry list"
  sc_parent :: "string option"

type_synonym symtab = "nat \<Rightarrow> scope_rec list"

definition no_scopes :: symtab where
  "no_scopes = (\<lambda>_. [])"

subsection \<open>Hashing\<close>

text \<open>
  \<open>char\<close> is signed. The shift of a negative value is undefined, and a negative hash value is an index in front of
  the array.
\<close>

definition schar :: "char \<Rightarrow> int" where
  "schar c = (let n = int (of_char c) in if n < 128 then n else n - 256)"

fun hash_from :: "int \<Rightarrow> string \<Rightarrow> int outcome" where
  "hash_from temp [] = Done temp"
| "hash_from temp (c # key) =
    (if temp < 0 then Undef else hash_from ((temp * 2 ^ 4 + schar c) smod int SIZE) key)"

definition hash :: "string \<Rightarrow> nat outcome" where
  "hash key = bindO (hash_from 0 key) (\<lambda>h. if h < 0 then Undef else Done (nat h))"

subsection \<open>Scopes\<close>

text \<open>The loop \<open>while ((l != NULL) && (strcmp(scope, l->name) != 0)) l = l->next\<close>.\<close>

definition find_scope :: "symtab \<Rightarrow> string \<Rightarrow> scope_rec option outcome" where
  "find_scope tab scope = bindO (hash scope) (\<lambda>h. Done (find (\<lambda>l. sc_name l = scope) (tab h)))"

text \<open>The scope with its last colon and what follows it removed, everything without a colon.\<close>

definition cut_scope :: "string \<Rightarrow> string" where
  "cut_scope scope = rev (tl (dropWhile (\<lambda>c. c \<noteq> CHR '':'') (rev scope)))"

lemma cut_scope_shorter: "scope \<noteq> [] \<Longrightarrow> length (cut_scope scope) < length scope"
proof -
  assume a: "scope \<noteq> []"
  have "length (dropWhile (\<lambda>c. c \<noteq> CHR '':'') (rev scope)) \<le> length (rev scope)"
    by (rule length_dropWhile_le)
  moreover have "0 < length scope"
    using a by simp
  ultimately show ?thesis
    unfolding cut_scope_def by (simp only: length_rev length_tl)
qed

function getParentScope :: "symtab \<Rightarrow> string \<Rightarrow> scope_rec option outcome" where
  "getParentScope tab scope =
    (if scope = [] then Done None
     else bindO (find_scope tab (cut_scope scope)) (\<lambda>l.
       case l of None \<Rightarrow> getParentScope tab (cut_scope scope) | Some l \<Rightarrow> Done (Some l)))"
  by pat_completeness auto
termination
  by (relation "measure (\<lambda>(tab, scope). length scope)") (auto simp: cut_scope_shorter)

declare getParentScope.simps [simp del]

subsection \<open>Entries\<close>

fun map_first :: "('a \<Rightarrow> bool) \<Rightarrow> ('a \<Rightarrow> 'a) \<Rightarrow> 'a list \<Rightarrow> 'a list" where
  "map_first p f [] = []"
| "map_first p f (x # xs) = (if p x then f x # xs else x # map_first p f xs)"

definition add_line :: "int \<Rightarrow> entry \<Rightarrow> entry" where
  "add_line lineno e = e\<lparr>en_lines := en_lines e @ [lineno]\<rparr>"

definition st_insert_in :: "scope_rec \<Rightarrow> string \<Rightarrow> exptype \<Rightarrow> int \<Rightarrow> int \<Rightarrow> scope_rec outcome" where
  "st_insert_in scope name type lineno loc =
    bindO (hash name) (\<lambda>h.
      let b = sc_bucket scope h in
      Done (scope\<lparr>sc_bucket := (sc_bucket scope)(h :=
        (if find (\<lambda>e. en_name e = name) b = None
         then \<lparr>en_name = name, en_type = type, en_lines = [lineno], en_memloc = loc\<rparr> # b
         else map_first (\<lambda>e. en_name e = name) (add_line lineno) b))\<rparr>))"

definition st_insert :: "string \<Rightarrow> string \<Rightarrow> exptype \<Rightarrow> int \<Rightarrow> int \<Rightarrow> symtab \<Rightarrow> symtab outcome" where
  "st_insert scope name type lineno loc tab =
    bindO (hash scope) (\<lambda>h.
    case find (\<lambda>l. sc_name l = scope) (tab h) of
      None \<Rightarrow>
        bindO (getParentScope tab scope) (\<lambda>p.
        bindO (st_insert_in \<lparr>sc_name = scope, sc_bucket = (\<lambda>_. []), sc_parent = map_option sc_name p\<rparr> name type lineno loc) (\<lambda>l.
        Done (tab(h := l # tab h))))
    | Some l \<Rightarrow>
        bindO (st_insert_in l name type lineno loc) (\<lambda>l.
        Done (tab(h := map_first (\<lambda>l. sc_name l = scope) (\<lambda>_. l) (tab h)))))"

definition st_lookup_in :: "scope_rec option \<Rightarrow> string \<Rightarrow> entry option outcome" where
  "st_lookup_in scope name =
    bindO (hash name) (\<lambda>h.
      case scope of None \<Rightarrow> Done None | Some l \<Rightarrow> Done (find (\<lambda>e. en_name e = name) (sc_bucket l h)))"

lemma getParentScope_shorter:
  "getParentScope tab scope = Done (Some p) \<Longrightarrow> length (sc_name p) < length scope"
proof (induction tab scope rule: getParentScope.induct)
  case (1 tab scope)
  have ne: "scope \<noteq> []"
    using 1(2) by (auto simp: getParentScope.simps [of tab scope])
  obtain l where l: "find_scope tab (cut_scope scope) = Done l"
    and k: "(case l of None \<Rightarrow> getParentScope tab (cut_scope scope) | Some l \<Rightarrow> Done (Some l)) = Done (Some p)"
    using 1(2) ne by (auto simp: getParentScope.simps [of tab scope] bindO_Done_iff)
  show ?case
  proof (cases l)
    case None
    then have "length (sc_name p) < length (cut_scope scope)"
      using 1(1) ne l k by simp
    then show ?thesis
      using cut_scope_shorter [OF ne] by simp
  next
    case (Some q)
    then have "sc_name p = cut_scope scope"
      using l k by (auto simp: find_scope_def bindO_Done_iff find_Some_iff)
    then show ?thesis
      using cut_scope_shorter [OF ne] by simp
  qed
qed

function st_lookup :: "symtab \<Rightarrow> string \<Rightarrow> string \<Rightarrow> entry option outcome" where
  "st_lookup tab scope name =
    bindO (find_scope tab scope) (\<lambda>l.
    bindO (case l of None \<Rightarrow> Done None | Some l \<Rightarrow> st_lookup_in (Some l) name) (\<lambda>result.
    if result = None then
      bindO (getParentScope tab scope) (\<lambda>parent.
        case parent of None \<Rightarrow> Done None | Some p \<Rightarrow> st_lookup tab (sc_name p) name)
    else Done result))"
  by pat_completeness auto
termination
  by (relation "measure (\<lambda>(tab, scope, name). length scope)") (auto simp: getParentScope_shorter)

declare st_lookup.simps [simp del]

definition st_lookup_excluding_parent :: "symtab \<Rightarrow> string \<Rightarrow> string \<Rightarrow> entry option outcome" where
  "st_lookup_excluding_parent tab scope name =
    bindO (find_scope tab scope) (\<lambda>l. case l of None \<Rightarrow> Done None | Some l \<Rightarrow> st_lookup_in (Some l) name)"

text \<open>
  The loop of \<open>addline\<close> along the \<open>parent\<close> pointers, from scope \<open>l\<close>. A parent's name is shorter, so that \<open>k\<close>
  rounds suffice. Without an entry anywhere a null pointer is dereferenced.
\<close>

fun addline_from :: "nat \<Rightarrow> symtab \<Rightarrow> scope_rec option \<Rightarrow> string \<Rightarrow> int \<Rightarrow> symtab outcome" where
  "addline_from 0 tab l name lineno = Undef"
| "addline_from (Suc k) tab l name lineno =
    (case l of
       None \<Rightarrow> Undef
     | Some l \<Rightarrow>
         bindO (hash name) (\<lambda>h.
         if find (\<lambda>e. en_name e = name) (sc_bucket l h) = None then
           (case sc_parent l of
              None \<Rightarrow> Undef
            | Some p \<Rightarrow> bindO (find_scope tab p) (\<lambda>q. addline_from k tab q name lineno))
         else
           bindO (hash (sc_name l)) (\<lambda>g.
           Done (tab(g := map_first (\<lambda>m. sc_name m = sc_name l)
             (\<lambda>m. m\<lparr>sc_bucket := (sc_bucket m)(h := map_first (\<lambda>e. en_name e = name) (add_line lineno) (sc_bucket m h))\<rparr>) (tab g))))))"

definition addline :: "string \<Rightarrow> string \<Rightarrow> int \<Rightarrow> symtab \<Rightarrow> symtab outcome" where
  "addline scope name lineno tab =
    bindO (find_scope tab scope) (\<lambda>l.
    bindO (case l of None \<Rightarrow> getParentScope tab scope | Some l \<Rightarrow> Done (Some l)) (\<lambda>l.
    addline_from (length scope + 1) tab l name lineno))"

subsection \<open>The listing\<close>

text \<open>\<open>%-ns\<close>.\<close>

definition pad_right :: "nat \<Rightarrow> string \<Rightarrow> string" where
  "pad_right n s = s @ replicate (n - length s) CHR '' ''"

definition entry_line :: "entry \<Rightarrow> string" where
  "entry_line e = pad_right 14 (en_name e) @ '' '' @ pad_right 13 (if en_type e = Integer then ''Integer'' else ''Void'') @ '' ''
     @ pad_right 8 (show_int (en_memloc e)) @ ''  '' @ concat (map (\<lambda>n. pad 4 (show_int n) @ '' '') (en_lines e)) @ newline"

definition printSymTab_scope :: "scope_rec \<Rightarrow> string" where
  "printSymTab_scope scope = ''Variable Name  Variable Type  Location   Line Numbers'' @ newline
     @ ''-------------  -------------  --------   ------------'' @ newline
     @ concat (map (\<lambda>i. concat (map entry_line (sc_bucket scope i))) [0..<SIZE])"

definition printSymTab :: "symtab \<Rightarrow> string" where
  "printSymTab tab = concat (map (\<lambda>i. concat (map (\<lambda>l. ''Scope name : '' @ sc_name l @ newline
     @ ''----------------------------------'' @ newline @ printSymTab_scope l
     @ ''----------------------------------'' @ [CHR 10, CHR 10, CHR 10, CHR 10]) (tab i))) [0..<SIZE])"

end
