(* ===== verification/Analyze.thy ===== *)
theory Analyze
  imports SymTab
begin

text \<open>
  The semantic analyzer (\<open>project/analyze.c\<close>) and the tree functions of \<open>project/util.c\<close>. The state is the
  symbol table, the static variables \<open>scope\<close> and \<open>location\<close>, the text of the listing and the flag \<open>Error\<close>.
  Allocation succeeds. \<open>attr\<close> of a node that nobody wrote holds what \<open>malloc\<close> left there: as a pointer to a
  name it is the parameter \<open>junk\<close>, \<open>None\<close> for the null pointer.
\<close>

subsection \<open>Nodes (\<open>util.c\<close>)\<close>

definition newStmtNode :: "nat \<Rightarrow> exptype \<Rightarrow> int \<Rightarrow> tree" where
  "newStmtNode kind type lineno = Node StmtK kind NoAttr type lineno Leaf Leaf Leaf Leaf"

definition newExpNode :: "nat \<Rightarrow> int \<Rightarrow> tree" where
  "newExpNode kind lineno = Node ExpK kind NoAttr Void lineno Leaf Leaf Leaf Leaf"

definition newDeclNode :: "nat \<Rightarrow> exptype \<Rightarrow> int \<Rightarrow> tree" where
  "newDeclNode kind type lineno = Node DeclK kind NoAttr type lineno Leaf Leaf Leaf Leaf"

definition newParamNode :: "nat \<Rightarrow> exptype \<Rightarrow> int \<Rightarrow> tree" where
  "newParamNode kind type lineno = Node ParamK kind NoAttr type lineno Leaf Leaf Leaf Leaf"

definition copyString :: "string option \<Rightarrow> string option" where
  "copyString s = s"

fun printToken :: "token \<Rightarrow> string \<Rightarrow> string" where
  "printToken ASSIGN s = ''='' @ newline" | "printToken EQ s = ''=='' @ newline" | "printToken NE s = ''!='' @ newline"
| "printToken LT s = ''<'' @ newline" | "printToken LE s = ''<='' @ newline" | "printToken GT s = ''>'' @ newline"
| "printToken GE s = ''>='' @ newline" | "printToken LPAREN s = ''('' @ newline" | "printToken RPAREN s = '')'' @ newline"
| "printToken LBRACE s = ''['' @ newline" | "printToken RBRACE s = '']'' @ newline" | "printToken LCURLY s = ''{'' @ newline"
| "printToken RCURLY s = ''}'' @ newline" | "printToken SEMI s = '';'' @ newline" | "printToken COMMA s = '','' @ newline"
| "printToken PLUS s = ''+'' @ newline" | "printToken MINUS s = ''-'' @ newline" | "printToken TIMES s = ''*'' @ newline"
| "printToken OVER s = ''/'' @ newline" | "printToken ENDFILE s = ''EOF'' @ newline"
| "printToken NUM s = ''NUM, val= '' @ s @ newline" | "printToken ID s = ''ID, name= '' @ s @ newline"
| "printToken ERROR s = ''ERROR: '' @ s @ newline" | "printToken _ s = ''reserved word: '' @ s @ newline"

text \<open>
  The line that \<open>printTree\<close> prints for a node. A function declaration passes its type, an enumeration, for a
  \<open>%s\<close>; an array declaration reads the member \<open>size\<close> of the union whose member \<open>name\<close> was written.
\<close>

definition type_text :: "exptype \<Rightarrow> string" where
  "type_text t = (if t = Integer then ''int'' else ''void'')"

definition node_line :: "nodekind \<Rightarrow> nat \<Rightarrow> attr \<Rightarrow> exptype \<Rightarrow> string outcome" where
  "node_line nk k a type = (case nk of
     StmtK \<Rightarrow> Done (if k = RepeatK \<or> k = ReadK \<or> k = WriteK then []
       else if k = IfK then ''If (condition) (body) (else)'' @ newline
       else if k = CompK then ''Compound statement :'' @ newline
       else if k = IteK then ''While statement :'' @ newline
       else if k = RetK then ''Return :'' @ newline else ''Unknown ExpNode kind'' @ newline)
   | ExpK \<Rightarrow>
       if k = OpK then bindO (attr_op a) (\<lambda>t. Done (''Op : '' @ printToken t []))
       else if k = ConstK then bindO (attr_val a) (\<lambda>v. Done (''Const : '' @ show_int v @ newline))
       else if k = IdK then bindO (attr_name a) (\<lambda>n. Done (''Id : '' @ n @ newline))
       else if k = AssignK then Done (''Assign : (destination) (source)'' @ newline)
       else if k = CallK then bindO (attr_name a) (\<lambda>n. Done (''Call, name : '' @ n @ '', with arguments below'' @ newline))
       else Done (''Unknown ExpNode kind'' @ newline)
   | DeclK \<Rightarrow>
       if k = FuncK \<or> k = VarArrK then Undef
       else if k = VarK then bindO (attr_name a) (\<lambda>n. Done (''Var declaration, name : '' @ n @ '', type : '' @ type_text type @ newline))
       else Done (''Unknown DeclNode kind'' @ newline)
   | ParamK \<Rightarrow>
       if k = SinParamK then bindO (attr_name a) (\<lambda>n. Done (''Single parameter, name : '' @ n @ '', type : '' @ type_text type @ newline))
       else if k = ArrParamK then bindO (attr_name a) (\<lambda>n. Done (''Array parameter name : '' @ n @ '', type : '' @ type_text type @ newline))
       else Done (''Unknown ParamNode kind'' @ newline))"

text \<open>\<open>ind\<close> is \<open>indentno\<close> behind the \<open>INDENT\<close> of the call.\<close>

fun printTree_from :: "nat \<Rightarrow> tree \<Rightarrow> string outcome" where
  "printTree_from ind Leaf = Done []"
| "printTree_from ind (Node nk k a type ln c0 c1 c2 sib) =
    bindO (node_line nk k a type) (\<lambda>l.
    bindO (printTree_from (ind + 2) c0) (\<lambda>t0.
    bindO (printTree_from (ind + 2) c1) (\<lambda>t1.
    bindO (printTree_from (ind + 2) c2) (\<lambda>t2.
    bindO (printTree_from ind sib) (\<lambda>rest.
    Done (replicate ind CHR '' '' @ l @ t0 @ t1 @ t2 @ rest))))))"

definition printTree :: "tree \<Rightarrow> string outcome" where
  "printTree t = printTree_from 2 t"

subsection \<open>Traversal (\<open>analyze.c\<close>)\<close>

record an_st =
  an_tab :: symtab
  an_scope :: string
  an_location :: int
  an_listing :: string
  an_error :: bool

definition getNewScope :: "tree \<Rightarrow> string \<Rightarrow> string outcome" where
  "getNewScope t scope = (case t of
     Leaf \<Rightarrow> Undef
   | Node nk k a type ln c0 c1 c2 sib \<Rightarrow>
       if nk = StmtK \<and> k = CompK then Done (scope @ '':'' @ show_int ln)
       else if nk = DeclK \<and> k = FuncK then bindO (attr_name a) (\<lambda>n. Done (scope @ '':'' @ n))
       else Done scope)"

fun traverse :: "(tree \<Rightarrow> an_st \<Rightarrow> an_st outcome) \<Rightarrow> (tree \<Rightarrow> an_st \<Rightarrow> an_st outcome) \<Rightarrow> tree \<Rightarrow> an_st \<Rightarrow> an_st outcome" where
  "traverse preProc postProc Leaf s = Done s"
| "traverse preProc postProc (Node nk k a type ln c0 c1 c2 sib) s =
    (let t = Node nk k a type ln c0 c1 c2 sib in
     bindO (preProc t s) (\<lambda>s.
     bindO (getNewScope t (an_scope s)) (\<lambda>new.
     let scopeBackup = an_scope s; locationBackup = an_location s in
     bindO (traverse preProc postProc c0 (s\<lparr>an_scope := new, an_location := 0\<rparr>)) (\<lambda>s.
     bindO (traverse preProc postProc c1 s) (\<lambda>s.
     bindO (traverse preProc postProc c2 s) (\<lambda>s.
     bindO (postProc t (s\<lparr>an_scope := scopeBackup, an_location := locationBackup\<rparr>)) (\<lambda>s.
     traverse preProc postProc sib s)))))))"

definition nullProc :: "tree \<Rightarrow> an_st \<Rightarrow> an_st outcome" where
  "nullProc t s = Done s"

subsection \<open>Building the symbol table\<close>

definition list_text :: "string \<Rightarrow> an_st \<Rightarrow> an_st" where
  "list_text x s = s\<lparr>an_listing := an_listing s @ x\<rparr>"

definition error_at :: "int \<Rightarrow> string \<Rightarrow> string \<Rightarrow> string" where
  "error_at ln name what = ''error:'' @ show_int ln @ '': '' @ name @ '' is '' @ what @ newline"

fun name_ptr :: "string option \<Rightarrow> attr \<Rightarrow> string option outcome" where
  "name_ptr junk (Name n) = Done (Some n)" | "name_ptr junk NoAttr = Done junk" | "name_ptr junk _ = Undef"

text \<open>\<open>st_insert(scope, name, type, lineno, location++)\<close>.\<close>

definition define_name :: "string \<Rightarrow> exptype \<Rightarrow> int \<Rightarrow> an_st \<Rightarrow> an_st outcome" where
  "define_name name type ln s =
    bindO (st_insert (an_scope s) name type ln (an_location s) (an_tab s)) (\<lambda>tab.
    bindO (cint (an_location s + 1)) (\<lambda>l. Done (s\<lparr>an_tab := tab, an_location := l\<rparr>)))"

text \<open>An array takes as many locations as its size says.\<close>

definition array_room :: "nat \<Rightarrow> tree \<Rightarrow> an_st \<Rightarrow> an_st outcome" where
  "array_room k c0 s =
    (if k = VarArrK then
       (case c0 of
          Leaf \<Rightarrow> Undef
        | Node _ _ a _ _ _ _ _ _ \<Rightarrow>
            bindO (attr_val a) (\<lambda>v. bindO (cint (v - 1)) (\<lambda>d. bindO (cint (an_location s + d)) (\<lambda>l. Done (s\<lparr>an_location := l\<rparr>)))))
     else Done s)"

definition insert_variable :: "string option \<Rightarrow> nat \<Rightarrow> attr \<Rightarrow> exptype \<Rightarrow> int \<Rightarrow> tree \<Rightarrow> an_st \<Rightarrow> an_st outcome" where
  "insert_variable junk k a type ln c0 s =
    bindO (name_ptr junk a) (\<lambda>p.
    case p of
      None \<Rightarrow> Done s
    | Some name \<Rightarrow>
        bindO (st_lookup_excluding_parent (an_tab s) (an_scope s) name) (\<lambda>e.
        if e = None then bindO (define_name name type ln s) (array_room k c0)
        else Done (list_text (error_at ln name ''already declared'') s)))"

definition insertNode :: "string option \<Rightarrow> tree \<Rightarrow> an_st \<Rightarrow> an_st outcome" where
  "insertNode junk t s = (case t of
     Leaf \<Rightarrow> Undef
   | Node nk k a type ln c0 c1 c2 sib \<Rightarrow>
       (case nk of
          DeclK \<Rightarrow>
            if k = FuncK then
              bindO (attr_name a) (\<lambda>name.
              bindO (st_lookup (an_tab s) (an_scope s) name) (\<lambda>e.
              if e = None then define_name name type ln s
              else Done (list_text (error_at ln name ''already declared'') s)))
            else if k = VarK \<or> k = VarArrK then insert_variable junk k a type ln c0 s
            else Done s
        | ParamK \<Rightarrow>
            if k = SinParamK \<or> k = ArrParamK then insert_variable junk k a type ln c0 s
            else Done s
        | ExpK \<Rightarrow>
            if k = IdK \<or> k = CallK then
              bindO (attr_name a) (\<lambda>name.
              bindO (st_lookup (an_tab s) (an_scope s) name) (\<lambda>e.
              if e = None then Done (list_text (error_at ln name ''not declared'') s)
              else bindO (addline (an_scope s) name ln (an_tab s)) (\<lambda>tab. Done (s\<lparr>an_tab := tab\<rparr>))))
            else Done s
        | StmtK \<Rightarrow> Done s))"

definition insertBuiltinFunctions :: "tree \<Rightarrow> tree" where
  "insertBuiltinFunctions syntaxTree =
    (let input = Node DeclK FuncK (Name ''input'') Integer 0 Leaf Leaf Leaf syntaxTree;
         param = Node ParamK SinParamK (Name ''arg'') Integer 0 Leaf Leaf Leaf Leaf
     in Node DeclK FuncK (Name ''output'') Void 0 param Leaf Leaf input)"

definition buildSymtab :: "string option \<Rightarrow> bool \<Rightarrow> tree \<Rightarrow> an_st \<Rightarrow> an_st outcome" where
  "buildSymtab junk TraceAnalyze syntaxTree s =
    bindO (traverse (insertNode junk) nullProc (insertBuiltinFunctions syntaxTree) s) (\<lambda>s.
    Done (if TraceAnalyze then list_text (newline @ ''Symbol table:'' @ newline @ newline @ printSymTab (an_tab s)) s else s))"

subsection \<open>Type checking\<close>

definition typeError :: "int \<Rightarrow> string \<Rightarrow> an_st \<Rightarrow> an_st" where
  "typeError ln msg s = (list_text (''Type error at line '' @ show_int ln @ '': '' @ msg @ newline) s)\<lparr>an_error := True\<rparr>"

text \<open>\<open>strtok\<close> with the separator \<open>:\<close>: the token and what is left, \<open>None\<close> for a null pointer.\<close>

definition strtok_colon :: "string \<Rightarrow> (string \<times> string) option" where
  "strtok_colon s = (let s = dropWhile (\<lambda>c. c = CHR '':'') s in
     if s = [] then None else Some (takeWhile (\<lambda>c. c \<noteq> CHR '':'') s, tl (dropWhile (\<lambda>c. c \<noteq> CHR '':'') s)))"

definition second_token :: "string \<Rightarrow> string option" where
  "second_token s = (case strtok_colon s of None \<Rightarrow> None | Some (_, r) \<Rightarrow> map_option fst (strtok_colon r))"

text \<open>The right-hand side \<open>c1\<close> of an assignment; its kind is tested without a look at its node kind.\<close>

definition check_assign :: "tree \<Rightarrow> an_st \<Rightarrow> an_st outcome" where
  "check_assign c1 s = (case c1 of
     Leaf \<Rightarrow> Undef
   | Node _ k a type ln _ _ _ _ \<Rightarrow>
       if k = IdK \<or> k = CallK then
         bindO (attr_name a) (\<lambda>name.
         bindO (st_lookup (an_tab s) (an_scope s) name) (\<lambda>bucket.
         case bucket of
           None \<Rightarrow> Undef
         | Some b \<Rightarrow> Done (if en_type b \<noteq> Integer then typeError ln ''rvalue must be integer type'' s else s)))
       else Done (if type \<noteq> Integer then typeError ln ''rvalue must be integer type'' s else s))"

text \<open>
  A function that is not in the table: \<open>sprintf\<close> writes the text with its own \<open>%s\<close> and the name, two
  characters more than were allocated.
\<close>

definition check_return :: "int \<Rightarrow> an_st \<Rightarrow> an_st outcome" where
  "check_return ln s = (case second_token (an_scope s) of
     None \<Rightarrow> Undef
   | Some functionName \<Rightarrow>
       bindO (st_lookup (an_tab s) ''~'' functionName) (\<lambda>l.
       case l of
         None \<Rightarrow> Undef
       | Some l \<Rightarrow> Done (if en_type l \<noteq> Integer then typeError ln ''Void function can not return a value'' s else s)))"

text \<open>The case \<open>DeclK\<close> has no \<open>break\<close> and runs into the case \<open>ExpK\<close>.\<close>

definition checkNode :: "tree \<Rightarrow> an_st \<Rightarrow> an_st outcome" where
  "checkNode t s = (case t of
     Leaf \<Rightarrow> Undef
   | Node nk k a type ln c0 c1 c2 sib \<Rightarrow>
       (case nk of
          DeclK \<Rightarrow>
            let s = (if (k = VarK \<or> k = VarArrK) \<and> type = Void then typeError ln ''variable can not be void type'' s else s) in
            if k = AssignK then check_assign c1 s else Done s
        | ExpK \<Rightarrow> if k = AssignK then check_assign c1 s else Done s
        | StmtK \<Rightarrow> if k = RetK then check_return ln s else Done s
        | ParamK \<Rightarrow> Done s))"

definition typeCheck :: "tree \<Rightarrow> an_st \<Rightarrow> an_st outcome" where
  "typeCheck syntaxTree s = traverse nullProc checkNode syntaxTree s"

definition analyzer_start :: an_st where
  "analyzer_start = \<lparr>an_tab = no_scopes, an_scope = ''~'', an_location = 0, an_listing = [], an_error = False\<rparr>"

end
