(* ===== verification/SymTabSpec.thy ===== *)
theory SymTabSpec
  imports SymTab
begin

text \<open>
  The symbol table as a map from scopes and names to entries, and lexical scoping.
\<close>

subsection \<open>Hash values\<close>

definition ascii :: "string \<Rightarrow> bool" where
  "ascii s \<longleftrightarrow> (\<forall>c\<in>set s. (of_char c :: nat) < 128)"

definition slot :: "string \<Rightarrow> nat" where
  "slot s = (case hash s of Done h \<Rightarrow> h | _ \<Rightarrow> 0)"

lemma hash_from_nonneg: "ascii key \<Longrightarrow> 0 \<le> temp \<Longrightarrow> \<exists>h\<ge>0. hash_from temp key = Done h"
proof (induction key arbitrary: temp)
  case (Cons c key)
  then have c: "0 \<le> schar c"
    by (simp add: ascii_def schar_def)
  then have "0 \<le> temp * 2 ^ 4 + schar c"
    using Cons.prems(2) by simp
  then have "0 \<le> (temp * 2 ^ 4 + schar c) smod int SIZE"
    by (simp add: smod_int_alt_def sgn_if)
  then show ?case
    using Cons by (simp add: ascii_def)
qed simp

lemma hash_Done: "ascii key \<Longrightarrow> hash key = Done (slot key)"
  using hash_from_nonneg [of key 0] by (auto simp: hash_def slot_def)

lemma ascii_cut: "ascii s \<Longrightarrow> ascii (cut_scope s)"
  unfolding ascii_def cut_scope_def set_rev
  by (metis dropWhile_eq_drop in_set_dropD list.set_sel(2) set_rev tl_Nil)

subsection \<open>The table as a map\<close>

definition scope_at :: "symtab \<Rightarrow> string \<Rightarrow> scope_rec option" where
  "scope_at tab s = find (\<lambda>l. sc_name l = s) (tab (slot s))"

definition entry_in :: "scope_rec \<Rightarrow> string \<Rightarrow> entry option" where
  "entry_in l name = find (\<lambda>e. en_name e = name) (sc_bucket l (slot name))"

definition entry_at :: "symtab \<Rightarrow> string \<Rightarrow> string \<Rightarrow> entry option" where
  "entry_at tab s name = (case scope_at tab s of None \<Rightarrow> None | Some l \<Rightarrow> entry_in l name)"

fun first_some :: "'a option list \<Rightarrow> 'a option" where
  "first_some [] = None"
| "first_some (x # xs) = (if x = None then first_some xs else x)"

text \<open>A scope and the scopes around it, innermost first.\<close>

function enclosing :: "string \<Rightarrow> string list" where
  "enclosing s = s # (if s = [] then [] else enclosing (cut_scope s))"
  by pat_completeness auto
termination
  by (relation "measure length") (simp_all add: cut_scope_shorter)

declare enclosing.simps [simp del]

lemma enclosing_Nil [simp]: "enclosing [] = [[]]"
  by (subst enclosing.simps) simp

lemma enclosing_Cons: "s \<noteq> [] \<Longrightarrow> enclosing s = s # enclosing (cut_scope s)"
  by (subst enclosing.simps) simp

lemma tl_enclosing: "tl (enclosing s) = (if s = [] then [] else enclosing (cut_scope s))"
  by (simp add: enclosing_Cons)

lemma first_enclosing:
  "first_some (map f (enclosing s)) = (if f s = None then first_some (map f (tl (enclosing s))) else f s)"
  by (cases "s = []") (simp_all add: enclosing_Cons)

lemma find_scope_Done: "ascii s \<Longrightarrow> find_scope tab s = Done (scope_at tab s)"
  by (simp add: find_scope_def hash_Done scope_at_def)

lemma scope_at_name: "scope_at tab s = Some l \<Longrightarrow> sc_name l = s"
  by (auto simp: scope_at_def find_Some_iff)

definition parent_of :: "symtab \<Rightarrow> string \<Rightarrow> scope_rec option" where
  "parent_of tab s = first_some (map (scope_at tab) (tl (enclosing s)))"

lemma parent_of_simps: "parent_of tab [] = None"
  "s \<noteq> [] \<Longrightarrow> parent_of tab s = (if scope_at tab (cut_scope s) = None then parent_of tab (cut_scope s) else scope_at tab (cut_scope s))"
  by (simp_all add: parent_of_def tl_enclosing first_enclosing [of _ "cut_scope s"])

lemma getParentScope_Done: "ascii s \<Longrightarrow> getParentScope tab s = Done (parent_of tab s)"
proof (induction s rule: enclosing.induct)
  case (1 s)
  show ?case
  proof (cases "s = []")
    case True
    then show ?thesis by (simp add: getParentScope.simps parent_of_simps)
  next
    case False
    then show ?thesis
      using 1(1) [OF False ascii_cut [OF 1(2)]] find_scope_Done [OF ascii_cut [OF 1(2)], of tab]
      by (simp add: getParentScope.simps [of tab s] parent_of_simps split: option.split)
  qed
qed

lemma ascii_parent: "ascii s \<Longrightarrow> parent_of tab s = Some p \<Longrightarrow> ascii (sc_name p)"
proof (induction s rule: enclosing.induct)
  case (1 s)
  have ne: "s \<noteq> []"
    using 1(3) by (auto simp: parent_of_simps)
  show ?case
    using 1(1) [OF ne ascii_cut [OF 1(2)]] 1(3) ascii_cut [OF 1(2)] scope_at_name [of tab "cut_scope s" p]
    by (auto simp: parent_of_simps(2) [OF ne] split: if_splits)
qed

lemma entry_at_parents:
  "first_some (map (\<lambda>s. entry_at tab s name) (tl (enclosing s)))
    = (case parent_of tab s of None \<Rightarrow> None | Some p \<Rightarrow> first_some (map (\<lambda>s. entry_at tab s name) (enclosing (sc_name p))))"
proof (induction s rule: enclosing.induct)
  case (1 s)
  show ?case
  proof (cases "s = []")
    case False
    show ?thesis
    proof (cases "scope_at tab (cut_scope s)")
      case None
      then have "entry_at tab (cut_scope s) name = None"
        by (simp add: entry_at_def)
      then show ?thesis
        using 1 [OF False] None False
        by (simp add: tl_enclosing parent_of_simps first_enclosing [of _ "cut_scope s"])
    next
      case (Some l)
      then show ?thesis
        using scope_at_name [OF Some] False by (simp add: tl_enclosing parent_of_simps)
    qed
  qed (simp add: parent_of_simps)
qed

lemma st_lookup_Done:
  "ascii s \<Longrightarrow> ascii name \<Longrightarrow> st_lookup tab s name = Done (first_some (map (\<lambda>s. entry_at tab s name) (enclosing s)))"
proof (induction "length s" arbitrary: s rule: less_induct)
  case less
  have l: "bindO (find_scope tab s) (\<lambda>l. bindO (case l of None \<Rightarrow> Done None | Some l \<Rightarrow> st_lookup_in (Some l) name) f) = f (entry_at tab s name)" for f
    using less.prems by (simp add: find_scope_Done entry_at_def st_lookup_in_def hash_Done entry_in_def split: option.split)
  have r: "st_lookup tab s name = (if entry_at tab s name = None then
      bindO (getParentScope tab s) (\<lambda>parent. case parent of None \<Rightarrow> Done None | Some p \<Rightarrow> st_lookup tab (sc_name p) name)
    else Done (entry_at tab s name))"
    by (subst st_lookup.simps) (rule l)
  have g: "getParentScope tab s = Done (parent_of tab s)"
    by (rule getParentScope_Done [OF less.prems(1)])
  show ?case
  proof (cases "parent_of tab s")
    case None
    then show ?thesis
      by (simp add: r g first_enclosing entry_at_parents)
  next
    case (Some p)
    then have "st_lookup tab (sc_name p) name = Done (first_some (map (\<lambda>s. entry_at tab s name) (enclosing (sc_name p))))"
      using less.hyps [OF getParentScope_shorter [of tab s p]] g ascii_parent [OF less.prems(1) Some] less.prems(2) by simp
    then show ?thesis
      using Some by (simp add: r g first_enclosing [of _ s] entry_at_parents)
  qed
qed

subsection \<open>Insertion\<close>

lemma find_map_first_other:
  "(\<And>x. p x \<Longrightarrow> q (f x) = q x) \<Longrightarrow> (\<And>x. p x \<Longrightarrow> \<not> q x) \<Longrightarrow> find q (map_first p f xs) = find q xs"
  by (induction xs) auto

lemma find_map_first_same: "(\<And>x. p x \<Longrightarrow> p (f x)) \<Longrightarrow> find p (map_first p f xs) = map_option f (find p xs)"
  by (induction xs) auto

definition entry_insert :: "string \<Rightarrow> exptype \<Rightarrow> int \<Rightarrow> int \<Rightarrow> entry option \<Rightarrow> entry" where
  "entry_insert name type lineno loc e = (case e of
     None \<Rightarrow> \<lparr>en_name = name, en_type = type, en_lines = [lineno], en_memloc = loc\<rparr> | Some e \<Rightarrow> add_line lineno e)"

lemma st_insert_in_Done:
  assumes "ascii name"
  shows "\<exists>m. st_insert_in l name type lineno loc = Done m \<and> sc_name m = sc_name l
    \<and> (\<forall>n. entry_in m n = (if n = name then Some (entry_insert name type lineno loc (entry_in l name)) else entry_in l n))"
proof -
  define b where "b = sc_bucket l (slot name)"
  define c where "c = (if find (\<lambda>e. en_name e = name) b = None
     then \<lparr>en_name = name, en_type = type, en_lines = [lineno], en_memloc = loc\<rparr> # b
     else map_first (\<lambda>e. en_name e = name) (add_line lineno) b)"
  define m where "m = l\<lparr>sc_bucket := (sc_bucket l)(slot name := c)\<rparr>"
  have "st_insert_in l name type lineno loc = Done m"
    using assms by (simp add: st_insert_in_def hash_Done Let_def m_def c_def b_def)
  moreover have "find (\<lambda>e. en_name e = name) c = Some (entry_insert name type lineno loc (find (\<lambda>e. en_name e = name) b))"
    by (auto simp: c_def entry_insert_def find_map_first_same add_line_def)
  moreover have "find (\<lambda>e. en_name e = n) c = find (\<lambda>e. en_name e = n) b" if "n \<noteq> name" for n
    using that by (auto simp: c_def add_line_def intro!: find_map_first_other)
  ultimately show ?thesis
    by (intro exI [of _ m]) (auto simp: m_def entry_in_def b_def)
qed

lemma st_insert_Done:
  assumes "ascii s" "ascii name"
  shows "\<exists>t. st_insert s name type lineno loc tab = Done t
    \<and> (\<forall>r n. entry_at t r n = (if r = s \<and> n = name then Some (entry_insert name type lineno loc (entry_at tab s name)) else entry_at tab r n))"
proof (cases "scope_at tab s")
  case None
  let ?l = "\<lparr>sc_name = s, sc_bucket = (\<lambda>_. []), sc_parent = map_option sc_name (parent_of tab s)\<rparr>"
  obtain m where m: "st_insert_in ?l name type lineno loc = Done m" "sc_name m = s"
    "\<And>n. entry_in m n = (if n = name then Some (entry_insert name type lineno loc (entry_in ?l name)) else entry_in ?l n)"
    using st_insert_in_Done [OF assms(2), of ?l type lineno loc] by auto
  have "st_insert s name type lineno loc tab = Done (tab(slot s := m # tab (slot s)))"
    using None assms m(1) by (simp add: st_insert_def hash_Done scope_at_def getParentScope_Done)
  moreover have "scope_at (tab(slot s := m # tab (slot s))) r = (if r = s then Some m else scope_at tab r)" for r
    using m(2) by (auto simp: scope_at_def)
  moreover have "entry_in ?l n = None" for n
    by (simp add: entry_in_def)
  ultimately show ?thesis
    using m(3) None by (intro exI [of _ "tab(slot s := m # tab (slot s))"]) (auto simp: entry_at_def)
next
  case (Some l)
  obtain m where m: "st_insert_in l name type lineno loc = Done m" "sc_name m = sc_name l"
    "\<And>n. entry_in m n = (if n = name then Some (entry_insert name type lineno loc (entry_in l name)) else entry_in l n)"
    using st_insert_in_Done [OF assms(2), of l type lineno loc] by auto
  have ln: "sc_name l = s"
    by (rule scope_at_name [OF Some])
  let ?t = "tab(slot s := map_first (\<lambda>l. sc_name l = s) (\<lambda>_. m) (tab (slot s)))"
  have "st_insert s name type lineno loc tab = Done ?t"
    using Some assms m(1) by (simp add: st_insert_def hash_Done scope_at_def)
  moreover have "scope_at ?t r = (if r = s then Some m else scope_at tab r)" for r
  proof (cases "r = s")
    case True
    then show ?thesis
      using Some m(2) ln by (simp add: scope_at_def find_map_first_same)
  next
    case False
    then have "find (\<lambda>l. sc_name l = r) (map_first (\<lambda>l. sc_name l = s) (\<lambda>_. m) (tab (slot s))) = find (\<lambda>l. sc_name l = r) (tab (slot s))"
      using m(2) ln by (intro find_map_first_other) auto
    then show ?thesis
      using False by (simp add: scope_at_def)
  qed
  ultimately show ?thesis
    using m(3) Some by (intro exI [of _ ?t]) (auto simp: entry_at_def)
qed

subsection \<open>Properties\<close>

text \<open>What the sequence \<open>xs\<close> of insertions says of \<open>name\<close> in scope \<open>s\<close> itself.\<close>

definition declared :: "(string \<times> string \<times> exptype \<times> int \<times> int) list \<Rightarrow> string \<Rightarrow> string \<Rightarrow> entry option" where
  "declared xs s name = (case filter (\<lambda>(r, n, _). r = s \<and> n = name) xs of
     [] \<Rightarrow> None
   | (_, _, type, lineno, loc) # ys \<Rightarrow>
       Some \<lparr>en_name = name, en_type = type, en_lines = lineno # map (\<lambda>(_, _, _, lineno, _). lineno) ys, en_memloc = loc\<rparr>)"

lemma declared_snoc: "declared (xs @ [(r, n, type, lineno, loc)]) s name
    = (if s = r \<and> name = n then Some (entry_insert n type lineno loc (declared xs r n)) else declared xs s name)"
  by (auto simp: declared_def entry_insert_def add_line_def split: list.split)

text \<open>
  C31. The symbol table implements lexical scoping for ASCII names: after any sequence of insertions a lookup finds the
  entry of the innermost scope around the given one (by the colons in its name) into which the name was
  inserted, with type and location of the first insertion there and the lines of all of them; the
  lookup without parents finds the one of the scope itself. Chains and hash values do not show.
\<close>

theorem symtab_scopes:
  assumes "\<forall>(s, n, _)\<in>set xs. ascii s \<and> ascii n" "ascii scope" "ascii name"
  shows "\<exists>tab. foldO (\<lambda>(s, n, type, lineno, loc). st_insert s n type lineno loc) xs no_scopes = Done tab
    \<and> st_lookup tab scope name = Done (first_some (map (\<lambda>s. declared xs s name) (enclosing scope)))
    \<and> st_lookup_excluding_parent tab scope name = Done (declared xs scope name)"
proof -
  have "\<exists>tab. foldO (\<lambda>(s, n, type, lineno, loc). st_insert s n type lineno loc) xs no_scopes = Done tab
    \<and> (\<forall>s n. entry_at tab s n = declared xs s n)"
    using assms(1)
  proof (induction xs rule: rev_induct)
    case Nil
    then show ?case
      by (simp add: entry_at_def scope_at_def no_scopes_def declared_def)
  next
    case (snoc x xs)
    obtain s n type lineno loc where x: "x = (s, n, type, lineno, loc)"
      by (cases x) auto
    obtain tab where tab: "foldO (\<lambda>(s, n, type, lineno, loc). st_insert s n type lineno loc) xs no_scopes = Done tab"
      "\<And>s n. entry_at tab s n = declared xs s n"
      using snoc by auto
    obtain t where "st_insert s n type lineno loc tab = Done t"
      "\<And>r m. entry_at t r m = (if r = s \<and> m = n then Some (entry_insert n type lineno loc (entry_at tab s n)) else entry_at tab r m)"
      using st_insert_Done [of s n type lineno loc tab] snoc.prems x by auto
    then show ?case
      using tab by (intro exI [of _ t]) (simp add: x foldO_append declared_snoc)
  qed
  then obtain tab where tab: "foldO (\<lambda>(s, n, type, lineno, loc). st_insert s n type lineno loc) xs no_scopes = Done tab"
    "\<And>s n. entry_at tab s n = declared xs s n"
    by blast
  have "st_lookup_excluding_parent tab scope name = Done (entry_at tab scope name)"
    using assms(2,3) by (simp add: st_lookup_excluding_parent_def find_scope_Done st_lookup_in_def hash_Done entry_at_def entry_in_def split: option.split)
  then show ?thesis
    using tab st_lookup_Done [OF assms(2,3), of tab] by simp
qed

text \<open>C31 applied: \<open>x\<close> is global and local in \<open>f\<close>; the block on line 3 of \<open>f\<close> sees the local one.\<close>

theorem symtab_scopes_witness:
  "\<exists>tab e. foldO (\<lambda>(s, n, type, lineno, loc). st_insert s n type lineno loc)
      [(''~'', ''x'', Integer, 1, 0), (''~:f'', ''x'', Void, 2, 4)] no_scopes = Done tab
    \<and> st_lookup tab ''~:f:3'' ''x'' = Done (Some e) \<and> en_memloc e = 4
    \<and> st_lookup_excluding_parent tab ''~:f:3'' ''x'' = Done None"
proof -
  let ?xs = "[(''~'', ''x'', Integer, 1, 0), (''~:f'', ''x'', Void, 2, 4)]"
  have e: "enclosing ''~:f:3'' = [''~:f:3'', ''~:f'', ''~'', []]"
    by (simp add: enclosing_Cons cut_scope_def)
  obtain tab where "foldO (\<lambda>(s, n, type, lineno, loc). st_insert s n type lineno loc) ?xs no_scopes = Done tab"
    "st_lookup tab ''~:f:3'' ''x'' = Done (first_some (map (\<lambda>s. declared ?xs s ''x'') (enclosing ''~:f:3'')))"
    "st_lookup_excluding_parent tab ''~:f:3'' ''x'' = Done (declared ?xs ''~:f:3'' ''x'')"
    using symtab_scopes [of ?xs "''~:f:3''" "''x''"] by (auto simp: ascii_def)
  then show ?thesis
    unfolding e by (intro exI [of _ tab]) (simp add: declared_def)
qed

end
