(* ===== verification/AnalyzeSpec.thy ===== *)
theory AnalyzeSpec
  imports Analyze SymTabSpec
begin

text \<open>
  Two programs on which the semantic analyzer goes wrong.
\<close>

definition var_at :: "string \<Rightarrow> int \<Rightarrow> tree" where
  "var_at x ln = Node DeclK VarK (Name x) Integer ln Leaf Leaf Leaf Leaf"

definition block_at :: "int \<Rightarrow> tree \<Rightarrow> tree \<Rightarrow> tree \<Rightarrow> tree" where
  "block_at ln decls stmts sib = Node StmtK CompK NoAttr Void ln decls stmts Leaf sib"

definition void_function :: "string \<Rightarrow> int \<Rightarrow> tree \<Rightarrow> tree" where
  "void_function f ln body = Node DeclK FuncK (Name f) Void ln (Node ParamK SinParamK NoAttr Void ln Leaf Leaf Leaf Leaf) body Leaf Leaf"

definition assign_at :: "string \<Rightarrow> int \<Rightarrow> tree" where
  "assign_at x ln = Node ExpK AssignK NoAttr Integer ln (Node ExpK IdK (Name x) Integer ln Leaf Leaf Leaf Leaf)
     (Node ExpK ConstK (Val 1) Integer ln Leaf Leaf Leaf Leaf) Leaf Leaf"

text \<open>
  A scope is named after the line on which its block ends. Two blocks beside each other that end on one line share
  it: \<open>{ int x; } { int x; }\<close> is rejected.
\<close>

lemma blocks_on_a_line_share_scope: "map_outcome an_listing (buildSymtab None False
    (void_function ''f'' 2 (block_at 2 Leaf (block_at 1 (var_at ''x'' 1) Leaf (block_at 1 (var_at ''x'' 1) Leaf Leaf)) Leaf)) analyzer_start)
  = Done (''error:1: x is already declared'' @ newline)"
  by code_simp

text \<open>
  With \<open>{ { int y; } } { int x; { x = 1; } }\<close> on one line the scope of the inner blocks is older than the scope around
  them, which its \<open>parent\<close> pointer skips: the lookup finds \<open>x\<close>, but \<open>addline\<close> runs out of scopes and
  dereferences a null pointer.
\<close>

lemma addline_null_pointer: "case buildSymtab None False
    (void_function ''f'' 2 (block_at 2 Leaf
      (block_at 1 Leaf (block_at 1 (var_at ''y'' 1) Leaf Leaf)
        (block_at 1 (var_at ''x'' 1) (block_at 1 Leaf (assign_at ''x'' 1) Leaf) Leaf)) Leaf)) analyzer_start of Undef \<Rightarrow> True | _ \<Rightarrow> False"
  by code_simp

end
