(* ===== verification/Scanner.thy ===== *)
theory Scanner
  imports Analyze
begin

text \<open>
  The scanner (\<open>project/scan.c\<close>): the buffered reader over the source text and the automaton of \<open>getToken\<close>.
  A character is an \<open>int\<close>, -1 is \<open>EOF\<close>.
\<close>

subsection \<open>Reading\<close>

abbreviation (input) MAXTOKENLEN :: nat where "MAXTOKENLEN \<equiv> 40"
abbreviation (input) BUFLEN :: nat where "BUFLEN \<equiv> 256"

text \<open>\<open>source\<close> is what is left of the file; \<open>lineBuf\<close> the array up to the terminator, \<open>bufsize\<close> its \<open>strlen\<close>.\<close>

record scan_st =
  sn_source :: string
  sn_lineBuf :: string
  sn_linepos :: nat
  sn_bufsize :: nat
  sn_EOF_flag :: bool
  sn_lineno :: int
  sn_listing :: string

text \<open>\<open>fgets\<close> of at most \<open>n\<close> characters: the characters read, up to the first newline, and the rest of the file.\<close>

fun file_gets :: "nat \<Rightarrow> string \<Rightarrow> string \<times> string" where
  "file_gets (Suc n) (c # cs) = (if c = CHR 0x0A then ([c], cs) else let (l, r) = file_gets n cs in (c # l, r))"
| "file_gets _ cs = ([], cs)"

definition cstr :: "string \<Rightarrow> string" where
  "cstr s = takeWhile (\<lambda>c. c \<noteq> CHR 0x00) s"

definition char_at :: "string \<Rightarrow> nat \<Rightarrow> int" where
  "char_at buf i = (if i < length buf then schar (buf ! i) else 0)"

definition getNextChar :: "bool \<Rightarrow> scan_st \<Rightarrow> int \<times> scan_st" where
  "getNextChar EchoSource s =
    (if \<not> sn_linepos s < sn_bufsize s then
       let s = s\<lparr>sn_lineno := sn_lineno s + 1\<rparr>; (l, r) = file_gets (BUFLEN - 2) (sn_source s) in
       if l \<noteq> [] then
         let buf = cstr l;
             s = (if EchoSource then s\<lparr>sn_listing := sn_listing s @ pad 4 (show_int (sn_lineno s)) @ '': '' @ buf\<rparr> else s)
         in (char_at buf 0, s\<lparr>sn_source := r, sn_lineBuf := buf, sn_bufsize := length buf, sn_linepos := 1\<rparr>)
       else (-1, s\<lparr>sn_EOF_flag := True\<rparr>)
     else (char_at (sn_lineBuf s) (sn_linepos s), s\<lparr>sn_linepos := sn_linepos s + 1\<rparr>))"

definition ungetNextChar :: "scan_st \<Rightarrow> scan_st" where
  "ungetNextChar s = (if \<not> sn_EOF_flag s then s\<lparr>sn_linepos := sn_linepos s - 1\<rparr> else s)"

subsection \<open>Tokens\<close>

definition reservedLookup :: "string \<Rightarrow> token" where
  "reservedLookup s = (case map_of [(''if'', IF), (''else'', ELSE), (''while'', WHILE), (''return'', RETURN), (''int'', token.INT), (''void'', VOID)] s of
     None \<Rightarrow> ID | Some t \<Rightarrow> t)"

datatype scan_state = START | INEQ | INCOMMENT | INNUM | INID | DONE | INLT | INGT | INNE | INOVER | INCOMMENT_END

definition is_digit :: "int \<Rightarrow> bool" where
  "is_digit c \<longleftrightarrow> 48 \<le> c \<and> c \<le> 57"

definition is_alpha :: "int \<Rightarrow> bool" where
  "is_alpha c \<longleftrightarrow> 65 \<le> c \<and> c \<le> 90 \<or> 97 \<le> c \<and> c \<le> 122"

text \<open>The inner \<open>switch\<close> of \<open>START\<close>: the token of a single character.\<close>

definition single_token :: "int \<Rightarrow> token" where
  "single_token c = (if c = -1 then ENDFILE else if c = 43 then PLUS else if c = 45 then MINUS else if c = 42 then TIMES
     else if c = 40 then LPAREN else if c = 41 then RPAREN else if c = 123 then LCURLY else if c = 125 then RCURLY
     else if c = 91 then LBRACE else if c = 93 then RBRACE else if c = 59 then SEMI else if c = 44 then COMMA else ERROR)"

text \<open>
  One round of the loop on the character \<open>c\<close>: the new state, the token if it is decided, whether \<open>c\<close> is
  saved, whether it is put back, and whether \<open>tokenStringIndex\<close> is decremented.
\<close>

type_synonym scan_action = "scan_state \<times> token option \<times> bool \<times> bool \<times> bool"

definition two_chars :: "int \<Rightarrow> token \<Rightarrow> token \<Rightarrow> scan_action" where
  "two_chars c t1 t2 = (if c = 61 then (DONE, Some t1, True, False, False) else (DONE, Some t2, False, True, False))"

fun scan_round :: "scan_state \<Rightarrow> int \<Rightarrow> scan_action" where
  "scan_round START c =
    (if is_digit c then (INNUM, None, True, False, False)
     else if is_alpha c then (INID, None, True, False, False)
     else if c = 61 then (INEQ, None, True, False, False)
     else if c = 32 \<or> c = 9 \<or> c = 10 then (START, None, False, False, False)
     else if c = 47 then (INOVER, None, True, False, False)
     else if c = 60 then (INLT, None, True, False, False)
     else if c = 62 then (INGT, None, True, False, False)
     else if c = 33 then (INNE, None, True, False, False)
     else (DONE, Some (single_token c), c \<noteq> -1, False, False))"
| "scan_round INOVER c = (if c = 42 then (INCOMMENT, None, False, False, True) else (DONE, Some OVER, False, True, False))"
| "scan_round INCOMMENT c =
    (if c = 42 then (INCOMMENT_END, None, False, False, False)
     else if c = -1 then (DONE, Some ENDFILE, False, False, False)
     else (INCOMMENT, None, False, False, False))"
| "scan_round INCOMMENT_END c =
    (if c = 47 then (START, None, False, False, False) else (INCOMMENT, None, False, True, False))"
| "scan_round INEQ c = two_chars c EQ ASSIGN"
| "scan_round INLT c = two_chars c LE LT"
| "scan_round INGT c = two_chars c GE GT"
| "scan_round INNE c = two_chars c NE ERROR"
| "scan_round INNUM c = (if \<not> is_digit c then (DONE, Some NUM, False, True, False) else (INNUM, None, True, False, False))"
| "scan_round INID c = (if \<not> is_alpha c then (DONE, Some ID, False, True, False) else (INID, None, True, False, False))"
| "scan_round DONE c = (DONE, Some ERROR, True, False, False)"

text \<open>\<open>tok\<close> is \<open>tokenString\<close> up to \<open>tokenStringIndex\<close>; it is an array of \<open>MAXTOKENLEN + 1\<close> characters.\<close>

definition save_char :: "bool \<Rightarrow> int \<Rightarrow> string \<Rightarrow> string" where
  "save_char save c tok = (if save \<and> length tok \<le> MAXTOKENLEN then tok @ [char_of (nat (c mod 256))] else tok)"

definition finish_token :: "token \<Rightarrow> string \<Rightarrow> token outcome" where
  "finish_token t tok = (if MAXTOKENLEN < length tok then Undef else Done (if t = ID then reservedLookup tok else t))"

definition unread :: "scan_st \<Rightarrow> nat" where
  "unread s = length (sn_source s) + (sn_bufsize s - sn_linepos s)"

lemma file_gets_length: "file_gets n cs = (l, r) \<Longrightarrow> length cs = length l + length r"
  by (induction n cs arbitrary: l r rule: file_gets.induct) (auto split: if_splits prod.splits)

lemma length_cstr: "length (cstr l) \<le> length l"
  by (simp add: cstr_def length_takeWhile_le)

lemma unread_next:
  assumes "getNextChar e s = (c, t)"
  shows "unread t < unread s \<and> unread (ungetNextChar t) \<le> unread s \<or> c = -1 \<and> sn_EOF_flag t \<and> unread t = unread s"
proof (cases "sn_linepos s < sn_bufsize s")
  case True
  then show ?thesis
    using assms by (auto simp: getNextChar_def unread_def ungetNextChar_def)
next
  case False
  obtain l r where l: "file_gets (BUFLEN - 2) (sn_source s) = (l, r)"
    by fastforce
  show ?thesis
    using assms False l file_gets_length [OF l] length_cstr [of l] le_less_trans [of "length (cstr l) - 1" "length l - 1" "length l"]
    by (cases "l = []") (auto simp: getNextChar_def unread_def ungetNextChar_def Let_def)
qed

definition rank :: "scan_state \<Rightarrow> nat" where
  "rank st = (if st = DONE then 0 else if st = INCOMMENT_END then 2 else 1)"

lemma scan_round_rank:
  assumes "scan_round st c = (st', t, save, unget, back)" "st' \<noteq> DONE" "unget \<or> c = -1"
  shows "rank st' < rank st"
  using assms by (cases st) (auto simp: rank_def two_chars_def is_digit_def is_alpha_def split: if_splits)

function scan_from :: "bool \<Rightarrow> scan_state \<Rightarrow> string \<Rightarrow> scan_st \<Rightarrow> ((token \<times> string) \<times> scan_st) outcome" where
  "scan_from EchoSource st tok s =
    (case getNextChar EchoSource s of (c, s) \<Rightarrow>
     case scan_round st c of (st', t, save, unget, back) \<Rightarrow>
       let s = (if unget then ungetNextChar s else s);
           tok = save_char save c (if back then butlast tok else tok)
       in if st' = DONE then
            (case t of None \<Rightarrow> Undef | Some t \<Rightarrow> bindO (finish_token t tok) (\<lambda>t. Done ((t, tok), s)))
          else scan_from EchoSource st' tok s)"
  by pat_completeness auto
termination
proof (relation "measure (\<lambda>(e, st, tok, s). 2 * unread s + rank st)", rule wf_measure, goal_cases)
  case (1 e st tok s c t st' q ot q1 save q2 unget dec s' tok')
  have n: "getNextChar e s = (c, t)"
    using 1(1) by simp
  have r: "scan_round st c = (st', ot, save, unget, dec)"
    using 1(2-5) by simp
  have s': "s' = (if unget then ungetNextChar t else t)" "st' \<noteq> DONE"
    using 1 by simp_all
  have "rank st' \<le> 2" "1 \<le> rank st"
    using s'(2) r by (auto simp: rank_def)
  then have "2 * unread s' + rank st' < 2 * unread s + rank st"
    using unread_next [OF n] scan_round_rank [OF r s'(2)] s'(1) by (auto simp: ungetNextChar_def split: if_splits)
  then show ?case
    by simp
qed

declare scan_from.simps [simp del]

definition getToken :: "bool \<Rightarrow> bool \<Rightarrow> scan_st \<Rightarrow> ((token \<times> string) \<times> scan_st) outcome" where
  "getToken EchoSource TraceScan s =
    bindS (scan_from EchoSource START [] s) (\<lambda>(t, tok) s.
      Done ((t, tok), if TraceScan then s\<lparr>sn_listing := sn_listing s @ [CHR 0x09] @ show_int (sn_lineno s) @ '': '' @ printToken t tok\<rparr> else s))"

end
