(* ===== verification/ScannerSpec.thy ===== *)
theory ScannerSpec
  imports Scanner
begin

text \<open>
  The scanner against a lexer on strings: \<open>next_token\<close> skips blanks and comments and takes the longest
  token. \<open>getToken\<close> returns the same tokens, wherever the lines and the 254-character pieces in which
  \<open>fgets\<close> reads them end.
\<close>

subsection \<open>The lexer\<close>

definition blank_char :: "char \<Rightarrow> bool" where
  "blank_char c \<longleftrightarrow> c = CHR '' '' \<or> c = CHR 0x09 \<or> c = CHR 0x0A"

definition between :: "char \<Rightarrow> char \<Rightarrow> char \<Rightarrow> bool" where
  "between a b c \<longleftrightarrow> of_char a \<le> (of_char c :: nat) \<and> (of_char c :: nat) \<le> of_char b"

definition digit_char :: "char \<Rightarrow> bool" where
  "digit_char c \<longleftrightarrow> between (CHR ''0'') (CHR ''9'') c"

definition letter_char :: "char \<Rightarrow> bool" where
  "letter_char c \<longleftrightarrow> between (CHR ''A'') (CHR ''Z'') c \<or> between (CHR ''a'') (CHR ''z'') c"

text \<open>What follows the next \<open>*/\<close>.\<close>

fun after_comment :: "string \<Rightarrow> string option" where
  "after_comment (c # d # cs) = (if c = CHR ''*'' \<and> d = CHR ''/'' then Some cs else after_comment (d # cs))"
| "after_comment [] = None"
| "after_comment [c] = None"

lemma after_comment_length: "after_comment cs = Some r \<Longrightarrow> length r < length cs"
  by (induction cs rule: after_comment.induct) (auto split: if_splits)

text \<open>A comment that does not end takes the rest of the text.\<close>

function skip_layout :: "string \<Rightarrow> string" where
  "skip_layout [] = []"
| "skip_layout (c # cs) =
    (if blank_char c then skip_layout cs
     else if c = CHR ''/'' \<and> take 1 cs = ''*'' then (case after_comment (tl cs) of None \<Rightarrow> [] | Some r \<Rightarrow> skip_layout r)
     else c # cs)"
  by pat_completeness auto
termination
  by (relation "measure length") (auto dest!: after_comment_length)

definition operators :: "(string \<times> token) list" where
  "operators = [(''=='', EQ), (''<='', LE), (''>='', GE), (''!='', NE), (''='', ASSIGN), (''<'', LT), (''>'', GT),
     (''+'', PLUS), (''-'', MINUS), (''*'', TIMES), (''/'', OVER), (''('', LPAREN), ('')'', RPAREN), (''{'', LCURLY),
     (''}'', RCURLY), (''['', LBRACE), ('']'', RBRACE), ('';'', SEMI), ('','', COMMA)]"

text \<open>
  The token that begins with \<open>c\<close>, a character of neither a blank nor a comment: its kind, its characters, and
  the text behind it.
\<close>

definition token_at :: "char \<Rightarrow> string \<Rightarrow> token \<times> string \<times> string" where
  "token_at c ds =
    (if digit_char c then (NUM, takeWhile digit_char (c # ds), dropWhile digit_char (c # ds))
     else if letter_char c then (let w = takeWhile letter_char (c # ds) in (reservedLookup w, w, dropWhile letter_char (c # ds)))
     else case map_of operators (c # take 1 ds) of
       Some t \<Rightarrow> (t, c # take 1 ds, drop 1 ds)
     | None \<Rightarrow> (case map_of operators [c] of Some t \<Rightarrow> (t, [c], ds) | None \<Rightarrow> (ERROR, [c], ds)))"

definition next_token :: "string \<Rightarrow> token \<times> string \<times> string" where
  "next_token cs = (case skip_layout cs of [] \<Rightarrow> (ENDFILE, [], []) | c # ds \<Rightarrow> token_at c ds)"

subsection \<open>The buffer is a stream\<close>

definition text_char :: "char \<Rightarrow> bool" where
  "text_char c \<longleftrightarrow> c \<noteq> CHR 0x00 \<and> (of_char c :: nat) < 128"

definition pending :: "scan_st \<Rightarrow> string" where
  "pending s = drop (sn_linepos s) (sn_lineBuf s) @ sn_source s"

definition scanner_ok :: "scan_st \<Rightarrow> bool" where
  "scanner_ok s \<longleftrightarrow> sn_linepos s \<le> sn_bufsize s \<and> sn_bufsize s = length (sn_lineBuf s)
     \<and> (sn_EOF_flag s \<longrightarrow> pending s = []) \<and> list_all text_char (sn_lineBuf s) \<and> list_all text_char (sn_source s)"

definition head_char :: "string \<Rightarrow> int" where
  "head_char cs = (case cs of [] \<Rightarrow> -1 | c # _ \<Rightarrow> schar c)"

lemma file_gets_split: "file_gets n cs = (l, r) \<Longrightarrow> cs = l @ r"
  by (induction n cs arbitrary: l r rule: file_gets.induct) (auto split: if_splits prod.splits)

lemma file_gets_Nil: "file_gets (Suc n) cs = ([], r) \<Longrightarrow> cs = [] \<and> r = []"
  by (cases cs) (auto split: if_splits prod.splits)

lemma cstr_text: "list_all text_char l \<Longrightarrow> cstr l = l"
  by (auto simp: cstr_def text_char_def list_all_iff intro: takeWhile_eq_all_conv [THEN iffD2])

lemma stream_pop:
  assumes "scanner_ok s" "getNextChar e s = (c, t)"
  shows "c = head_char (pending s)" "scanner_ok t" "pending t = tl (pending s)"
    "scanner_ok (ungetNextChar t)" "pending (ungetNextChar t) = pending s"
proof -
  have "c = head_char (pending s) \<and> scanner_ok t \<and> pending t = tl (pending s)
      \<and> scanner_ok (ungetNextChar t) \<and> pending (ungetNextChar t) = pending s"
  proof (cases "sn_linepos s < sn_bufsize s")
    case True
    then show ?thesis
      using assms Cons_nth_drop_Suc [of "sn_linepos s" "sn_lineBuf s", symmetric]
      by (auto simp: getNextChar_def pending_def scanner_ok_def ungetNextChar_def char_at_def head_char_def)
  next
    case False
    obtain l r where l: "file_gets (BUFLEN - 2) (sn_source s) = (l, r)"
      by fastforce
    have p: "pending s = sn_source s" "sn_source s = l @ r" "list_all text_char l" "list_all text_char r"
      using assms(1) False file_gets_split [OF l] by (auto simp: pending_def scanner_ok_def)
    show ?thesis
    proof (cases l)
      case Nil
      then have "sn_source s = [] \<and> r = []"
        using l file_gets_Nil [of 253] by simp
      then show ?thesis
        using assms False l Nil p(1)
        by (auto simp: getNextChar_def pending_def scanner_ok_def ungetNextChar_def head_char_def)
    next
      case (Cons a as)
      then show ?thesis
        using assms False l p
        by (cases e) (auto simp: getNextChar_def pending_def scanner_ok_def ungetNextChar_def head_char_def cstr_text char_at_def Let_def)
    qed
  qed
  then show "c = head_char (pending s)" "scanner_ok t" "pending t = tl (pending s)"
    "scanner_ok (ungetNextChar t)" "pending (ungetNextChar t) = pending s"
    by simp_all
qed

lemma pending_text: "scanner_ok s \<Longrightarrow> list_all text_char (pending s)"
  unfolding scanner_ok_def pending_def list_all_append by (metis append_take_drop_id list_all_append)

subsection \<open>The automaton\<close>

text \<open>A run delivers a token; behind 40 characters the terminator is written past \<open>tokenString\<close>.\<close>

definition delivers :: "((token \<times> string) \<times> scan_st) outcome \<Rightarrow> token \<times> string \<times> string \<Rightarrow> bool" where
  "delivers r = (\<lambda>(t, w, rest). if length w \<le> MAXTOKENLEN
     then \<exists>s. r = Done ((t, w), s) \<and> scanner_ok s \<and> pending s = rest else r = Undef)"

lemma scan_step:
  assumes "scanner_ok s" "scan_round st (head_char (pending s)) = (st', t, save, unget, dec)"
  obtains s' where "scanner_ok s'" "pending s' = (if unget then pending s else tl (pending s))"
    "scan_from e st tok s = (let tok' = save_char save (head_char (pending s)) (if dec then butlast tok else tok) in
       if st' = DONE then (case t of None \<Rightarrow> Undef | Some t \<Rightarrow> bindO (finish_token t tok') (\<lambda>t. Done ((t, tok'), s')))
       else scan_from e st' tok' s')"
proof -
  obtain c u where c: "getNextChar e s = (c, u)"
    by fastforce
  note p = stream_pop [OF assms(1) c]
  show ?thesis
    by (rule that [of "if unget then ungetNextChar u else u"])
      (use p assms(2) in \<open>simp_all add: scan_from.simps [of e st tok s] c Let_def\<close>)
qed

lemma save_char_take:
  "save_char True (schar c) (take 41 w) = take 41 (w @ [c])" "save_char False x w = w"
proof -
  have "char_of (nat (schar c mod 256)) = c"
    by (auto simp: schar_def Let_def nat_mod_distrib mod_diff_left_eq)
  then show "save_char True (schar c) (take 41 w) = take 41 (w @ [c])"
    by (simp add: save_char_def min_def)
qed (simp add: save_char_def)

lemma text_schar: "text_char c \<Longrightarrow> schar c = int (of_char c)"
  by (simp add: schar_def text_char_def Let_def)

lemma schar_classes:
  "text_char c \<Longrightarrow> is_digit (schar c) = digit_char c" "text_char c \<Longrightarrow> is_alpha (schar c) = letter_char c"
  by (auto simp: text_schar is_digit_def digit_char_def is_alpha_def letter_char_def between_def)

lemma of_char_lt: "(of_char c :: nat) < 256"
  using range_nat_of_char by (metis atLeastLessThan_iff rangeI)

lemma schar_inject: "schar c = schar d \<longleftrightarrow> c = d"
proof
  assume "schar c = schar d"
  then have "(of_char c :: nat) = of_char d"
    by (auto simp: schar_def Let_def split: if_splits) (use of_char_lt [of c] of_char_lt [of d] in linarith)+
  then show "c = d"
    by simp
qed simp

lemma schar_code:
  "schar c = 61 \<longleftrightarrow> c = CHR ''=''" "schar c = 32 \<longleftrightarrow> c = CHR '' ''" "schar c = 9 \<longleftrightarrow> c = CHR 0x09"
  "schar c = 10 \<longleftrightarrow> c = CHR 0x0A" "schar c = 47 \<longleftrightarrow> c = CHR ''/''" "schar c = 60 \<longleftrightarrow> c = CHR ''<''"
  "schar c = 62 \<longleftrightarrow> c = CHR ''>''" "schar c = 33 \<longleftrightarrow> c = CHR ''!''" "schar c = 42 \<longleftrightarrow> c = CHR ''*''"
  "schar c = 43 \<longleftrightarrow> c = CHR ''+''" "schar c = 45 \<longleftrightarrow> c = CHR ''-''" "schar c = 40 \<longleftrightarrow> c = CHR ''(''"
  "schar c = 41 \<longleftrightarrow> c = CHR '')''" "schar c = 123 \<longleftrightarrow> c = CHR ''{''" "schar c = 125 \<longleftrightarrow> c = CHR ''}''"
  "schar c = 91 \<longleftrightarrow> c = CHR ''[''" "schar c = 93 \<longleftrightarrow> c = CHR '']''" "schar c = 59 \<longleftrightarrow> c = CHR '';''"
  "schar c = 44 \<longleftrightarrow> c = CHR '',''"
  using schar_inject [of c, symmetric] by (simp_all add: schar_def)

lemma schar_eof: "text_char c \<Longrightarrow> schar c \<noteq> -1"
  by (simp add: text_schar)

lemma head_char_simps [simp]: "head_char [] = -1" "head_char (c # cs) = schar c"
  by (simp_all add: head_char_def)

lemma eof_class [simp]: "\<not> is_digit (-1)" "\<not> is_alpha (-1)"
  by (simp_all add: is_digit_def is_alpha_def)

lemma delivers_finish:
  assumes "scanner_ok s" "pending s = rest" "t' = (if t = ID then reservedLookup w else t)"
  shows "delivers (bindO (finish_token t (take 41 w)) (\<lambda>t. Done ((t, take 41 w), s))) (t', w, rest)"
  using assms by (auto simp: delivers_def finish_token_def)

lemma scan_done:
  assumes "scanner_ok s" "scan_round st (head_char (pending s)) = (DONE, Some t, save, unget, dec)"
    "save_char save (head_char (pending s)) (if dec then butlast tok else tok) = take 41 w"
    "(if unget then pending s else tl (pending s)) = rest" "t' = (if t = ID then reservedLookup w else t)"
  shows "delivers (scan_from e st tok s) (t', w, rest)"
  using assms(1,2)
proof (rule scan_step [of s st DONE "Some t" save unget dec e tok], goal_cases)
  case (1 s')
  then show ?case
    using assms(3-) delivers_finish [of s' rest t' t w] by (simp add: Let_def)
qed

lemma scan_go:
  assumes "scanner_ok s" "scan_round st (head_char (pending s)) = (st', t, save, unget, dec)" "st' \<noteq> DONE"
    "\<And>s'. scanner_ok s' \<Longrightarrow> pending s' = (if unget then pending s else tl (pending s))
       \<Longrightarrow> delivers (scan_from e st' (save_char save (head_char (pending s)) (if dec then butlast tok else tok)) s') r"
  shows "delivers (scan_from e st tok s) r"
  using assms(1,2)
proof (rule scan_step [of s st st' t save unget dec e tok], goal_cases)
  case (1 s')
  then show ?case
    using assms(3,4) by (simp add: Let_def)
qed

lemma run_number:
  assumes "scanner_ok s"
  shows "delivers (scan_from e INNUM (take 41 w) s) (NUM, w @ takeWhile digit_char (pending s), dropWhile digit_char (pending s))"
  using assms
proof (induction "pending s" arbitrary: s w)
  case Nil
  then show ?case
    by (intro scan_done) (auto simp: save_char_take)
next
  case (Cons c cs)
  have c: "text_char c"
    using pending_text [OF Cons.prems] Cons(2) by (metis list.pred_inject(2))
  note p = Cons(2) [symmetric]
  show ?case
  proof (cases "digit_char c")
    case True
    then show ?thesis
      using Cons(1) [of _ "w @ [c]"] c Cons.prems
      by (intro scan_go [of s INNUM INNUM None True False False]) (auto simp: p save_char_take schar_classes)
  next
    case False
    then show ?thesis
      using c Cons.prems by (intro scan_done [where t = NUM]) (auto simp: p save_char_take schar_classes)
  qed
qed

lemma run_word:
  assumes "scanner_ok s"
  shows "delivers (scan_from e INID (take 41 w) s)
    (reservedLookup (w @ takeWhile letter_char (pending s)), w @ takeWhile letter_char (pending s), dropWhile letter_char (pending s))"
  using assms
proof (induction "pending s" arbitrary: s w)
  case Nil
  then show ?case
    by (intro scan_done [where t = ID]) (auto simp: save_char_take)
next
  case (Cons c cs)
  have c: "text_char c"
    using pending_text [OF Cons.prems] Cons(2) by (metis list.pred_inject(2))
  note p = Cons(2) [symmetric]
  show ?case
  proof (cases "letter_char c")
    case True
    then show ?thesis
      using Cons(1) [of _ "w @ [c]"] c Cons.prems
      by (intro scan_go [of s INID INID None True False False]) (auto simp: p save_char_take schar_classes)
  next
    case False
    then show ?thesis
      using c Cons.prems by (intro scan_done [where t = ID]) (auto simp: p save_char_take schar_classes)
  qed
qed

lemma run_comment:
  assumes "scanner_ok s" "after_comment (pending s) = None \<Longrightarrow> r = (ENDFILE, [], [])"
    "\<And>s'. scanner_ok s' \<Longrightarrow> after_comment (pending s) = Some (pending s') \<Longrightarrow> delivers (scan_from e START [] s') r"
  shows "delivers (scan_from e INCOMMENT [] s) r"
  using assms
proof (induction "pending s" arbitrary: s rule: after_comment.induct)
  case (1 c d cs)
  have c: "text_char c" "text_char d"
    using pending_text [OF 1(3)] 1(2) by (metis list.pred_inject(2))+
  note p = 1(2) [symmetric]
  have IH: "delivers (scan_from e INCOMMENT [] t) r"
    if "\<not> (c = CHR ''*'' \<and> d = CHR ''/'')" "scanner_ok t" "pending t = d # cs" for t
    by (rule 1(1)) (use that 1(4,5) p in auto)
  show ?case
  proof (cases "c = CHR ''*''")
    case star: True
    have "delivers (scan_from e INCOMMENT_END [] t) r" if t: "scanner_ok t" "pending t = d # cs" for t
    proof (cases "d = CHR ''/''")
      case True
      then show ?thesis
        using t star 1(5) p
        by (intro scan_go [of t INCOMMENT_END START None False False False]) (auto simp: save_char_take schar_code)
    next
      case False
      then show ?thesis
        using t star IH p
        by (intro scan_go [of t INCOMMENT_END INCOMMENT None False True False]) (auto simp: save_char_take schar_code)
    qed
    then show ?thesis
      using 1(3) star p
      by (intro scan_go [of s INCOMMENT INCOMMENT_END None False False False]) (auto simp: save_char_take schar_code)
  next
    case False
    then show ?thesis
      using 1(3) c IH p
      by (intro scan_go [of s INCOMMENT INCOMMENT None False False False]) (auto simp: save_char_take schar_code schar_eof)
  qed
next
  case 2
  note p = 2(1) [symmetric]
  have r: "r = (ENDFILE, [], [])"
    using 2(3) p by simp
  show ?case
    unfolding r using 2(2) p by (intro scan_done [where t = ENDFILE]) (auto simp: save_char_take)
next
  case (3 c)
  have c: "text_char c"
    using pending_text [OF 3(2)] 3(1) by (metis list.pred_inject(2))
  note p = 3(1) [symmetric]
  have r: "r = (ENDFILE, [], [])"
    using 3(3) p by simp
  have at_end: "delivers (scan_from e INCOMMENT [] t) r" if "scanner_ok t" "pending t = []" for t
    unfolding r using that by (intro scan_done [where t = ENDFILE]) (auto simp: save_char_take)
  have "delivers (scan_from e INCOMMENT_END [] t) r" if "scanner_ok t" "pending t = []" for t
    using that at_end
    by (intro scan_go [of t INCOMMENT_END INCOMMENT None False True False]) (auto simp: save_char_take)
  then show ?case
    using 3(2) at_end p c
    by (cases "c = CHR ''*''")
      (auto intro!: scan_go [of s INCOMMENT _ None False False False] simp: save_char_take schar_code schar_eof)
qed

lemma save_first [simp]: "save_char True (schar c) [] = [c]"
  using save_char_take(1) [of c "[]"] by simp

lemma save_slash [simp]: "save_char True 47 [] = ''/''"
  using save_first [of "CHR ''/''"] by (simp add: schar_def)

lemma run_two:
  assumes "scanner_ok s" "\<And>c. scan_round st c = two_chars c t1 t2" "t1 \<noteq> ID" "t2 \<noteq> ID"
  shows "delivers (scan_from e st [c] s)
    (if take 1 (pending s) = ''='' then (t1, [c, CHR ''=''], tl (pending s)) else (t2, [c], pending s))"
proof (cases "take 1 (pending s) = ''=''")
  case True
  then obtain cs where p: "pending s = CHR ''='' # cs"
    by (cases "pending s") auto
  then show ?thesis
    using assms save_char_take(1) [of "CHR ''=''" "[c]"]
    by (auto simp: two_chars_def schar_code intro!: scan_done [where t = t1 and unget = False and dec = False and save = True])
next
  case False
  then have "head_char (pending s) \<noteq> 61"
    by (cases "pending s") (auto simp: schar_code)
  then show ?thesis
    using assms False save_char_take(2) [of _ "[c]"]
    by (auto simp: two_chars_def intro!: scan_done [where t = t2 and unget = True and dec = False and save = False])
qed

text \<open>The characters that may begin an operator of two characters.\<close>

definition op_states :: "(char \<times> scan_state \<times> token \<times> token) list" where
  "op_states = [(CHR ''='', INEQ, EQ, ASSIGN), (CHR ''<'', INLT, LE, LT), (CHR ''>'', INGT, GE, GT), (CHR ''!'', INNE, NE, ERROR)]"

lemma token_at_two:
  assumes "(c, st, t1, t2) \<in> set op_states"
  shows "token_at c ds = (if take 1 ds = ''='' then (t1, [c, CHR ''=''], tl ds) else (t2, [c], ds))"
proof -
  have "c = CHR ''='' \<and> t1 = EQ \<and> t2 = ASSIGN \<or> c = CHR ''<'' \<and> t1 = LE \<and> t2 = LT
      \<or> c = CHR ''>'' \<and> t1 = GE \<and> t2 = GT \<or> c = CHR ''!'' \<and> t1 = NE \<and> t2 = ERROR"
    using assms by (auto simp: op_states_def)
  then show ?thesis
    by (cases ds; elim disjE; simp add: token_at_def digit_char_def letter_char_def between_def operators_def)
qed

lemma op_state_round:
  assumes "(c, st, t1, t2) \<in> set op_states"
  shows "scan_round START (schar c) = (st, None, True, False, False)" "scan_round st x = two_chars x t1 t2"
    "st \<noteq> DONE" "t1 \<noteq> ID" "t2 \<noteq> ID"
  using assms by (auto simp: op_states_def schar_def is_digit_def is_alpha_def)

lemma token_at_one:
  assumes "\<not> digit_char c" "\<not> letter_char c" "c \<notin> fst ` set op_states"
  shows "token_at c ds = (case map_of operators [c] of Some t \<Rightarrow> (t, [c], ds) | None \<Rightarrow> (ERROR, [c], ds))"
proof -
  have c: "c \<noteq> CHR ''=''" "c \<noteq> CHR ''<''" "c \<noteq> CHR ''>''" "c \<noteq> CHR ''!''"
    using assms(3) by (auto simp: op_states_def)
  have "map_of operators (c # take 1 ds) = (if ds = [] then map_of operators [c] else None)"
    by (cases ds) (simp_all add: operators_def c)
  then show ?thesis
    using assms(1,2) by (cases ds) (simp_all add: token_at_def split: option.splits)
qed

lemma operators_not_ID: "map_of operators w \<noteq> Some ID"
  by (auto dest!: map_of_SomeD simp: operators_def)

lemma single_round:
  assumes "text_char c" "\<not> digit_char c" "\<not> letter_char c" "c \<notin> fst ` set op_states" "\<not> blank_char c" "c \<noteq> CHR ''/''"
  shows "scan_round START (schar c) = (DONE, Some (case map_of operators [c] of Some t \<Rightarrow> t | None \<Rightarrow> ERROR), True, False, False)"
  using assms
  by (auto simp: schar_classes schar_code schar_eof single_token_def op_states_def operators_def blank_char_def)

lemma run_token:
  assumes "scanner_ok s" "pending s = c # ds" "\<not> blank_char c" "\<not> (c = CHR ''/'' \<and> take 1 ds = ''*'')"
  shows "delivers (scan_from e START [] s) (token_at c ds)"
proof -
  have c: "text_char c"
    using pending_text [OF assms(1)] assms(2) by (metis list.pred_inject(2))
  consider "digit_char c" | "letter_char c" "\<not> digit_char c" | "\<not> digit_char c" "\<not> letter_char c"
    by blast
  then show ?thesis
  proof cases
    case 1
    then show ?thesis
      using run_number [of _ e "[c]"] assms c
      by (intro scan_go [of s START INNUM None True False False]) (auto simp: token_at_def schar_classes)
  next
    case 2
    then show ?thesis
      using run_word [of _ e "[c]"] assms c
      by (intro scan_go [of s START INID None True False False]) (auto simp: token_at_def schar_classes Let_def)
  next
    case 3
    note tok = token_at_one [OF 3]
    show ?thesis
    proof (cases "c \<in> fst ` set op_states")
      case True
      then obtain st t1 t2 where t: "(c, st, t1, t2) \<in> set op_states"
        by auto
      show ?thesis
        unfolding token_at_two [OF t]
      proof (rule scan_go [of s START st None True False False], goal_cases)
        case (4 s')
        then show ?case
          using run_two [OF 4(1) op_state_round(2,4,5) [OF t], of e c] assms(2) by (simp split: if_splits)
      qed (use assms(1,2) op_state_round [OF t] in \<open>simp_all del: scan_round.simps\<close>)
    next
      case other: False
      show ?thesis
      proof (cases "c = CHR ''/''")
        case True
        have "delivers (scan_from e INOVER ''/'' t) (OVER, ''/'', ds)" if "scanner_ok t" "pending t = ds" for t
          using that assms(4) True save_char_take(2) [of _ "''/''"]
          by (cases ds; intro scan_done [where t = OVER and unget = True and dec = False and save = False])
            (auto simp: schar_code)
        then show ?thesis
          using assms True tok [OF other]
          by (intro scan_go [of s START INOVER None True False False])
            (auto simp: schar_def is_digit_def is_alpha_def operators_def)
      next
        case False
        show ?thesis
          using single_round [OF c 3 other assms(3) False] tok [OF other] assms(1,2)
          by (auto simp: operators_not_ID split: option.splits intro!: scan_done [where save = True and unget = False and dec = False])
      qed
    qed
  qed
qed

lemma run_start:
  assumes "scanner_ok s"
  shows "delivers (scan_from e START [] s) (next_token (pending s))"
  using assms
proof (induction "pending s" arbitrary: s rule: skip_layout.induct)
  case 1
  note p = 1(1) [symmetric]
  show ?case
    unfolding p next_token_def using 1(2) p
    by (auto simp: single_token_def save_char_take intro!: scan_done [where t = ENDFILE and save = False and unget = False and dec = False])
next
  case (2 c cs)
  note p = 2(3) [symmetric]
  have c: "text_char c" "list_all text_char cs"
    using pending_text [OF 2(4)] p by simp_all
  consider "blank_char c" | "\<not> blank_char c" "c = CHR ''/'' \<and> take 1 cs = ''*''"
    | "\<not> blank_char c" "\<not> (c = CHR ''/'' \<and> take 1 cs = ''*'')"
    by blast
  then show ?case
  proof cases
    case 1
    have n: "next_token (pending s) = next_token cs"
      using 1 by (simp add: p next_token_def)
    have r: "scan_round START (head_char (pending s)) = (START, None, False, False, False)"
      using 1 by (auto simp: p blank_char_def schar_def is_digit_def is_alpha_def)
    have "delivers (scan_from e START [] t) (next_token cs)" if "scanner_ok t" "pending t = cs" for t
      using 2(1) [OF 1 that(2) [symmetric] that(1)] that(2) by simp
    then show ?thesis
      unfolding n using p by (intro scan_go [OF 2(4) r]) (simp_all add: save_char_take)
  next
    case co: 2
    obtain ds where ds: "cs = CHR ''*'' # ds"
      using co(2) by (cases cs) auto
    have n: "next_token (pending s) = (case after_comment ds of None \<Rightarrow> (ENDFILE, [], []) | Some r \<Rightarrow> next_token r)"
      using co by (simp add: p next_token_def ds split: option.splits)
    have IH: "delivers (scan_from e START [] t) (next_token (pending t))"
      if "scanner_ok t" "after_comment ds = Some (pending t)" for t
      using 2(2) [OF co _ that(1)] that(2) ds by simp
    have "delivers (scan_from e INCOMMENT [] t) (next_token (pending s))" if "scanner_ok t" "pending t = ds" for t
      unfolding n by (rule run_comment) (use that IH in \<open>auto split: option.splits\<close>)
    then have "delivers (scan_from e INOVER ''/'' t) (next_token (pending s))" if "scanner_ok t" "pending t = cs" for t
      using that ds by (intro scan_go [of t INOVER INCOMMENT None False False True]) (auto simp: schar_code save_char_take)
    then show ?thesis
      using 2(4) co(2) p
      by (intro scan_go [of s START INOVER None True False False]) (auto simp: schar_def is_digit_def is_alpha_def)
  next
    case 3
    have "next_token (pending s) = token_at c cs"
      using 3 by (auto simp: p next_token_def)
    then show ?thesis
      using run_token [OF 2(4) p 3] by simp
  qed
qed

subsection \<open>The claim\<close>

definition open_scanner :: "string \<Rightarrow> scan_st" where
  "open_scanner f = \<lparr>sn_source = f, sn_lineBuf = [], sn_linepos = 0, sn_bufsize = 0, sn_EOF_flag = False, sn_lineno = 0, sn_listing = []\<rparr>"

text \<open>
  C32. The scanner starts in a state of the invariant with the whole file before it. On text of the ASCII
  characters, each call of getToken returns the next token of the lexer on the text that is left, with its
  characters in tokenString, and leaves the text behind it; lines, the pieces that fgets reads and comments
  do not matter. A token of more than 40 characters does not fit tokenString.
\<close>

theorem scanner_reads_tokens:
  assumes "scanner_ok s" "list_all text_char f"
  shows "scanner_ok (open_scanner f) \<and> pending (open_scanner f) = f
    \<and> (case next_token (pending s) of (t, w, rest) \<Rightarrow>
         if length w \<le> 40 then \<exists>s'. getToken e tr s = Done ((t, w), s') \<and> scanner_ok s' \<and> pending s' = rest
         else getToken e tr s = Undef)"
proof -
  have "scanner_ok (open_scanner f)" "pending (open_scanner f) = f"
    using assms(2) by (simp_all add: scanner_ok_def pending_def open_scanner_def)
  then show ?thesis
    using run_start [OF assms(1), of e]
    by (auto simp: delivers_def getToken_def scanner_ok_def pending_def split: prod.splits if_splits)
qed

text \<open>C32 applied: a file with a comment; the first two calls, and what is left.\<close>

definition demo_file :: string where
  "demo_file = ''/* loop */ while(x<=10)''"

theorem scanner_reads_tokens_witness:
  "\<exists>s1 s2. getToken False False (open_scanner demo_file) = Done ((WHILE, ''while''), s1) \<and> pending s1 = ''(x<=10)''
     \<and> getToken False False s1 = Done ((LPAREN, ''(''), s2) \<and> pending s2 = ''x<=10)''"
proof -
  have f: "list_all text_char demo_file"
    by code_simp
  have n: "next_token demo_file = (WHILE, ''while'', ''(x<=10)'')" "next_token ''(x<=10)'' = (LPAREN, ''('', ''x<=10)'')"
    by code_simp+
  have op: "scanner_ok (open_scanner demo_file)" "pending (open_scanner demo_file) = demo_file"
    using f by (simp_all add: scanner_ok_def pending_def open_scanner_def)
  obtain s1 where s1: "getToken False False (open_scanner demo_file) = Done ((WHILE, ''while''), s1)"
      "scanner_ok s1" "pending s1 = ''(x<=10)''"
    using scanner_reads_tokens [OF op(1) f, of False False] n(1) op(2) by auto
  then show ?thesis
    using scanner_reads_tokens [OF s1(2) f, of False False] n(2) by auto
qed

end
