(* ===== verification/Grep.thy ===== *)
theory Grep
  imports Prelude "HOL-Library.Sublist"
begin

text \<open>
  The user program \<open>grep.c\<close>. A C string is the list of its characters before the terminator. What
  \<open>read\<close> returns is a list of chunks, one for each call; \<open>grep_loop\<close> keeps the \<open>m\<close> bytes at the start
  of \<open>buf\<close>.
\<close>

abbreviation nul :: char where "nul \<equiv> CHR 0x00"
abbreviation nl :: char where "nl \<equiv> CHR 0x0A"

subsection \<open>The matcher\<close>

text \<open>The mutual recursion ends: \<open>matchstar\<close> gets a shorter expression, or a shorter text.\<close>

function matchhere :: "string \<Rightarrow> string \<Rightarrow> bool" and matchstar :: "char \<Rightarrow> string \<Rightarrow> string \<Rightarrow> bool" where
  "matchhere re text =
    (if re = [] then True
     else if tl re \<noteq> [] \<and> re ! 1 = CHR ''*'' then matchstar (hd re) (drop 2 re) text
     else if hd re = CHR ''$'' \<and> tl re = [] then text = []
     else if text \<noteq> [] \<and> (hd re = CHR ''.'' \<or> hd re = hd text) then matchhere (tl re) (tl text)
     else False)"
| "matchstar c re text =
    (if matchhere re text then True
     else if text \<noteq> [] \<and> (hd text = c \<or> c = CHR ''.'') then matchstar c re (tl text)
     else False)"
  by pat_completeness auto
termination
proof (relation "measures [\<lambda>x. case x of Inl (re, text) \<Rightarrow> length re | Inr (c, re, text) \<Rightarrow> length re + 1,
    \<lambda>x. case x of Inl (re, text) \<Rightarrow> length text | Inr (c, re, text) \<Rightarrow> length text]", goal_cases)
  case (2 re t)
  then show ?case by (cases re; cases "tl re") auto
qed (auto simp: neq_Nil_conv)

declare matchhere.simps [simp del] matchstar.simps [simp del]

text \<open>\<open>match_any\<close> is the loop of \<open>match\<close>, which also looks at the empty rest.\<close>

fun match_any :: "string \<Rightarrow> string \<Rightarrow> bool" where
  "match_any re [] = matchhere re []"
| "match_any re (c # text) = (matchhere re (c # text) \<or> match_any re text)"

definition match :: "string \<Rightarrow> string \<Rightarrow> bool" where
  "match re text = (if re \<noteq> [] \<and> hd re = CHR 0x5E then matchhere (tl re) text else match_any re text)"

subsection \<open>Lines\<close>

fun strchr_nl :: "string \<Rightarrow> nat option" where
  "strchr_nl [] = None"
| "strchr_nl (c # s) = (if c = nul then None else if c = nl then Some 0 else map_option Suc (strchr_nl s))"

lemma strchr_nl_lt: "strchr_nl s = Some i \<Longrightarrow> i < length s"
  by (induction s arbitrary: i) (auto split: if_splits)

text \<open>The inner loop of \<open>grep\<close>: what it writes, and the rest it stops at.\<close>

function grep_lines :: "string \<Rightarrow> string \<Rightarrow> string \<times> string" where
  "grep_lines pattern p = (case strchr_nl p of
      None \<Rightarrow> ([], p)
    | Some q \<Rightarrow> let (out, rest) = grep_lines pattern (drop (q + 1) p) in
        ((if match pattern (take q p) then take (q + 1) p else []) @ out, rest))"
  by pat_completeness auto
termination
  by (relation "measure (\<lambda>(pat, p). length p)") (auto dest: strchr_nl_lt)

declare grep_lines.simps [simp del]

abbreviation BUFSIZE :: nat where "BUFSIZE \<equiv> 1024"

text \<open>\<open>read\<close> never returns more than the \<open>BUFSIZE - m - 1\<close> bytes asked for; at the end it returns 0.\<close>

fun grep_loop :: "string \<Rightarrow> string \<Rightarrow> string list \<Rightarrow> string outcome" where
  "grep_loop pattern b [] = Done []"
| "grep_loop pattern b (c # cs) =
    (if c = [] then Done []
     else if length c > BUFSIZE - length b - 1 then Undef
     else let b = b @ c; (out, p) = grep_lines pattern b;
              b = (if length p = length b then [] else p) in
       bindO (grep_loop pattern b cs) (\<lambda>rest. Done (out @ rest)))"

definition grep :: "string \<Rightarrow> string list \<Rightarrow> string outcome" where
  "grep pattern chunks = grep_loop pattern [] chunks"

text \<open>
  \<open>main\<close>: \<open>files\<close> says what opening a file gives (the chunks its reads will return), \<open>inp\<close> is standard
  input. The result is what is written to file descriptors 1 and 2.
\<close>

fun grep_files :: "string \<Rightarrow> (string \<rightharpoonup> string list) \<Rightarrow> string list \<Rightarrow> string outcome" where
  "grep_files pattern files [] = Done []"
| "grep_files pattern files (a # argv) = (case files a of
      None \<Rightarrow> Done (''grep: cannot open '' @ a @ [nl])
    | Some chunks \<Rightarrow> bindO (grep pattern chunks) (\<lambda>out.
        bindO (grep_files pattern files argv) (\<lambda>rest. Done (out @ rest))))"

definition grep_main :: "string list \<Rightarrow> (string \<rightharpoonup> string list) \<Rightarrow> string list \<Rightarrow> (string \<times> string) outcome" where
  "grep_main argv files inp =
    (if length argv \<le> 1 then Done ([], ''usage: grep pattern [file ...]'' @ [nl])
     else if length argv \<le> 2 then bindO (grep (argv ! 1) inp) (\<lambda>out. Done (out, []))
     else bindO (grep_files (argv ! 1) files (drop 2 argv)) (\<lambda>out. Done (out, [])))"

subsection \<open>What an expression means\<close>

text \<open>
  A declarative reading of the expressions: a list of items, each of which denotes a set of strings,
  and an anchor at the end.
\<close>

datatype item = One char | Star char

fun items :: "string \<Rightarrow> item list" where
  "items [] = []"
| "items [c] = (if c = CHR ''$'' then [] else [One c])"
| "items (c # d # re) = (if d = CHR ''*'' then Star c # items re else One c # items (d # re))"

fun anchored :: "string \<Rightarrow> bool" where
  "anchored [] = False"
| "anchored [c] = (c = CHR ''$'')"
| "anchored (c # d # re) = (if d = CHR ''*'' then anchored re else anchored (d # re))"

definition denotes :: "char \<Rightarrow> char \<Rightarrow> bool" where
  "denotes c d \<longleftrightarrow> c = CHR ''.'' \<or> c = d"

fun item_lang :: "item \<Rightarrow> string set" where
  "item_lang (One c) = {[d] |d. denotes c d}"
| "item_lang (Star c) = {u. \<forall>d\<in>set u. denotes c d}"

fun lang :: "item list \<Rightarrow> string set" where
  "lang [] = {[]}"
| "lang (i # is) = {u @ v |u v. u \<in> item_lang i \<and> v \<in> lang is}"

text \<open>A match at the start of the text, and one anywhere.\<close>

definition here :: "item list \<Rightarrow> bool \<Rightarrow> string \<Rightarrow> bool" where
  "here its a t \<longleftrightarrow> (\<exists>u v. t = u @ v \<and> u \<in> lang its \<and> (a \<longrightarrow> v = []))"

definition matches_here :: "string \<Rightarrow> string \<Rightarrow> bool" where
  "matches_here re t \<longleftrightarrow> here (items re) (anchored re) t"

definition matches :: "string \<Rightarrow> string \<Rightarrow> bool" where
  "matches re t \<longleftrightarrow>
    (if re \<noteq> [] \<and> hd re = CHR 0x5E then matches_here (tl re) t
     else \<exists>v. suffix v t \<and> matches_here re v)"

lemma here_Nil: "here [] a t \<longleftrightarrow> (a \<longrightarrow> t = [])"
  by (auto simp: here_def)

lemma here_Cons: "here (i # its) a t \<longleftrightarrow> (\<exists>u r. t = u @ r \<and> u \<in> item_lang i \<and> here its a r)"
proof
  assume "here (i # its) a t"
  then obtain x w where x: "t = x @ w" "x \<in> lang (i # its)" "a \<longrightarrow> w = []"
    unfolding here_def by blast
  then obtain u v where "x = u @ v" "u \<in> item_lang i" "v \<in> lang its"
    by auto
  with x show "\<exists>u r. t = u @ r \<and> u \<in> item_lang i \<and> here its a r"
    unfolding here_def by (intro exI [of _ u] exI [of _ "v @ w"]) auto
next
  assume "\<exists>u r. t = u @ r \<and> u \<in> item_lang i \<and> here its a r"
  then obtain u v w where "t = u @ v @ w" "u \<in> item_lang i" "v \<in> lang its" "a \<longrightarrow> w = []"
    unfolding here_def by blast
  then show "here (i # its) a t"
    unfolding here_def by (intro exI [of _ "u @ v"] exI [of _ w]) auto
qed

lemma here_One: "here (One c # its) a t \<longleftrightarrow> t \<noteq> [] \<and> denotes c (hd t) \<and> here its a (tl t)"
proof
  assume "t \<noteq> [] \<and> denotes c (hd t) \<and> here its a (tl t)"
  then show "here (One c # its) a t"
    unfolding here_Cons by (intro exI [of _ "[hd t]"] exI [of _ "tl t"]) simp
qed (auto simp: here_Cons)

lemma here_Star:
  "here (Star c # its) a t \<longleftrightarrow> here its a t \<or> (t \<noteq> [] \<and> denotes c (hd t) \<and> here (Star c # its) a (tl t))"
  (is "?l \<longleftrightarrow> ?r")
proof
  assume ?l
  then obtain u r where u: "t = u @ r" "\<forall>d\<in>set u. denotes c d" "here its a r"
    by (auto simp: here_Cons)
  then show ?r
    by (cases u) (auto simp: here_Cons)
next
  assume ?r
  then show ?l
  proof (elim disjE conjE)
    assume "here its a t"
    then show ?l
      unfolding here_Cons by (intro exI [of _ "[]"] exI [of _ t]) simp
  next
    assume t: "t \<noteq> []" "denotes c (hd t)" "here (Star c # its) a (tl t)"
    then obtain u r where "tl t = u @ r" "\<forall>d\<in>set u. denotes c d" "here its a r"
      by (auto simp: here_Cons)
    then show ?l
      using t unfolding here_Cons by (intro exI [of _ "hd t # u"] exI [of _ r]) (auto simp: neq_Nil_conv)
  qed
qed

subsection \<open>The matcher is right\<close>

lemma items_Cons:
  "tl re = [] \<or> re ! 1 \<noteq> CHR ''*'' \<Longrightarrow> re \<noteq> [] \<Longrightarrow> \<not> (hd re = CHR ''$'' \<and> tl re = []) \<Longrightarrow>
     items re = One (hd re) # items (tl re) \<and> anchored re = anchored (tl re)"
  by (cases re rule: items.cases) auto

lemma items_star:
  "tl re \<noteq> [] \<Longrightarrow> re ! 1 = CHR ''*'' \<Longrightarrow>
     items re = Star (hd re) # items (drop 2 re) \<and> anchored re = anchored (drop 2 re)"
  by (cases re rule: items.cases) (auto simp: numeral_2_eq_2)

lemma matchhere_matchstar:
  shows matchhere_eq: "matchhere re t = matches_here re t"
    and matchstar_eq: "matchstar c re t = here (Star c # items re) (anchored re) t"
proof (induction re t and c re t rule: matchhere_matchstar.induct)
  case (1 re t)
  consider "re = []" | "tl re \<noteq> []" "re ! 1 = CHR ''*''" | "re = ''$''"
    | "re \<noteq> []" "tl re = [] \<or> re ! 1 \<noteq> CHR ''*''" "\<not> (hd re = CHR ''$'' \<and> tl re = [])"
    by (cases re) auto
  then show ?case
  proof cases
    case 2
    then show ?thesis
      using 1(1) by (subst matchhere.simps) (auto simp: matches_here_def items_star)
  next
    case 4
    then show ?thesis
      using 1(2) by (subst matchhere.simps) (auto simp: matches_here_def items_Cons here_One denotes_def)
  qed (subst matchhere.simps, simp add: matches_here_def here_Nil)+
next
  case (2 c re t)
  then show ?case
    by (subst matchstar.simps, subst here_Star) (auto simp: matches_here_def denotes_def)
qed

lemma match_any_eq: "match_any re t \<longleftrightarrow> (\<exists>v. suffix v t \<and> matches_here re v)"
  by (induction t) (auto simp: matchhere_eq suffix_Cons)

lemma match_eq: "match re t = matches re t"
  by (simp add: match_def matches_def matchhere_eq match_any_eq)


subsection \<open>The lines of the input\<close>

text \<open>The complete lines of a text, and what follows the last of them.\<close>

function text_lines :: "string \<Rightarrow> string list" where
  "text_lines s = (if nl \<in> set s
     then takeWhile (\<lambda>c. c \<noteq> nl) s # text_lines (tl (dropWhile (\<lambda>c. c \<noteq> nl) s)) else [])"
  by pat_completeness auto
termination
proof (relation "measure length", goal_cases)
  case (2 s)
  then show ?case
    using length_dropWhile_le [of "\<lambda>c. c \<noteq> nl" s] by (cases "dropWhile (\<lambda>c. c \<noteq> nl) s") auto
qed simp

declare text_lines.simps [simp del]

fun unfinished :: "string \<Rightarrow> string" where
  "unfinished [] = []"
| "unfinished (c # s) = (if nl \<in> set (c # s) then unfinished s else c # s)"

definition matching_lines :: "string \<Rightarrow> string \<Rightarrow> string" where
  "matching_lines re s = concat (map (\<lambda>l. if matches re l then l @ [nl] else []) (text_lines s))"

lemma unfinished_no_nl: "nl \<notin> set s \<Longrightarrow> unfinished s = s"
  by (cases s) auto

lemma unfinished_line: "nl \<notin> set l \<Longrightarrow> unfinished (l @ nl # s) = unfinished s"
  by (induction l) (auto simp: unfinished_no_nl)

lemma nl_unfinished: "nl \<notin> set (unfinished s)"
  by (induction s) auto

lemma set_unfinished: "set (unfinished s) \<subseteq> set s"
  by (induction s) auto

lemma length_unfinished: "nl \<in> set s \<Longrightarrow> length (unfinished s) < length s"
proof (induction s)
  case (Cons c s)
  then show ?case
    by (cases "nl \<in> set s") (auto simp: unfinished_no_nl)
qed simp

lemma text_lines_none: "nl \<notin> set s \<Longrightarrow> text_lines s = []"
  by (simp add: text_lines.simps)

lemma text_lines_line: "nl \<notin> set l \<Longrightarrow> text_lines (l @ nl # s) = l # text_lines s"
proof -
  assume l: "nl \<notin> set l"
  then have "takeWhile (\<lambda>c. c \<noteq> nl) (l @ nl # s) = l" "dropWhile (\<lambda>c. c \<noteq> nl) (l @ nl # s) = nl # s"
    by (induction l) auto
  then show ?thesis
    by (subst text_lines.simps) simp
qed

lemma matching_lines_simps:
  "nl \<notin> set s \<Longrightarrow> matching_lines re s = []"
  "nl \<notin> set l \<Longrightarrow> matching_lines re (l @ nl # s) = (if matches re l then l @ [nl] else []) @ matching_lines re s"
  by (simp_all add: matching_lines_def text_lines_none text_lines_line)

lemma strchr_nl_line: "nl \<notin> set l \<Longrightarrow> nul \<notin> set l \<Longrightarrow> strchr_nl (l @ nl # s) = Some (length l)"
  by (induction l) auto

lemma strchr_nl_none: "nl \<notin> set s \<Longrightarrow> strchr_nl s = None"
  by (induction s) auto

lemma grep_lines_eq: "nul \<notin> set s \<Longrightarrow> grep_lines re s = (matching_lines re s, unfinished s)"
proof (induction s rule: length_induct)
  case (1 s)
  show ?case
  proof (cases "nl \<in> set s")
    case True
    then obtain l r where s: "s = l @ nl # r" "nl \<notin> set l"
      by (meson split_list_first)
    then have "grep_lines re r = (matching_lines re r, unfinished r)"
      using 1 by simp
    then show ?thesis
      using s 1(2) by (subst grep_lines.simps) (simp add: strchr_nl_line matching_lines_simps unfinished_line match_eq)
  next
    case False
    then show ?thesis
      by (subst grep_lines.simps) (simp add: strchr_nl_none matching_lines_simps unfinished_no_nl)
  qed
qed

lemma matching_lines_append:
  "matching_lines re (s @ t) = matching_lines re s @ matching_lines re (unfinished s @ t)"
proof (induction s rule: length_induct)
  case (1 s)
  show ?case
  proof (cases "nl \<in> set s")
    case True
    then obtain l r where s: "s = l @ nl # r" "nl \<notin> set l"
      by (meson split_list_first)
    then show ?thesis
      using 1 by (simp add: matching_lines_simps unfinished_line)
  qed (simp add: matching_lines_simps unfinished_no_nl)
qed

text \<open>Reads that deliver at least one complete line each, and fit into the buffer.\<close>

fun line_reads :: "string \<Rightarrow> string list \<Rightarrow> bool" where
  "line_reads b [] = True"
| "line_reads b (c # cs) = (length b + length c < BUFSIZE \<and> nl \<in> set c \<and> nul \<notin> set c
     \<and> line_reads (unfinished (b @ c)) cs)"

lemma grep_loop_lines:
  "line_reads b cs \<Longrightarrow> nul \<notin> set b \<Longrightarrow> nl \<notin> set b \<Longrightarrow>
     grep_loop re b cs = Done (matching_lines re (b @ concat cs))"
proof (induction cs arbitrary: b)
  case (Cons c cs)
  define b' where "b' = unfinished (b @ c)"
  have "nul \<notin> set (b @ c)"
    using Cons.prems by simp
  moreover from this have "nul \<notin> set b'" "nl \<notin> set b'"
    using set_unfinished [of "b @ c"] nl_unfinished [of "b @ c"] by (auto simp: b'_def)
  moreover have "length b' < length (b @ c)"
    unfolding b'_def by (rule length_unfinished) (use Cons.prems in simp)
  ultimately show ?case
    using Cons.IH [of b'] Cons.prems matching_lines_append [of re "b @ c" "concat cs"]
    by (auto simp: grep_lines_eq b'_def [symmetric])
qed (simp add: matching_lines_simps)

subsection \<open>Properties\<close>

text \<open>
  C22. The matcher is equivalent to the declarative meaning of its expressions: \<open>match\<close> is true exactly
  if the text (from its start after \<open>^\<close>, anywhere otherwise) begins with a string denoted by the
  expression, which reaches to the end of the text after \<open>$\<close>. The recursion always ends.
\<close>

theorem match_is_declarative:
  "match re t \<longleftrightarrow>
    (if re \<noteq> [] \<and> hd re = CHR 0x5E then here (items (tl re)) (anchored (tl re)) t
     else \<exists>v. suffix v t \<and> here (items re) (anchored re) v)"
  by (simp add: match_eq matches_def matches_here_def)

text \<open>
  C23. When every read delivers at least one complete line, without a NUL byte, and fits into the buffer behind the
  unfinished line before it, \<open>grep\<close> prints exactly the complete lines of
  its input that match, in order, each once.
\<close>

theorem grep_prints_matching_lines:
  assumes "line_reads [] chunks"
  shows "grep re chunks =
    Done (concat (map (\<lambda>l. if matches re l then l @ [nl] else []) (text_lines (concat chunks))))"
  using grep_loop_lines [OF assms] by (simp add: grep_def matching_lines_def)

theorem grep_prints_matching_lines_witness:
  "grep ''a.c'' [''abc'' @ [nl] @ ''x'', ''yac'' @ [nl]]
     = Done (concat (map (\<lambda>l. if matches ''a.c'' l then l @ [nl] else []) [''abc'', ''xyac'']))"
proof -
  have "text_lines (''abc'' @ nl # ''xyac'' @ nl # []) = [''abc'', ''xyac'']"
    by (subst text_lines_line, simp, subst text_lines_line) (simp_all add: text_lines_none)
  then show ?thesis
    by (subst grep_prints_matching_lines) simp_all
qed

text \<open>
  A read that returns no newline is thrown away, even though the buffer is not full: the rest of
  its line, which the next read delivers, is matched and printed as if it were a line of its own.
\<close>

lemma grep_drops_partial_line:
  assumes "c \<noteq> []" "length c < BUFSIZE" "nl \<notin> set c"
  shows "grep re (c # chunks) = grep re chunks"
proof -
  have "grep_lines re c = ([], c)"
    using assms by (subst grep_lines.simps) (simp add: strchr_nl_none)
  moreover have "bindO m (\<lambda>rest. Done rest) = m" for m :: "string outcome"
    by (cases m) auto
  ultimately show ?thesis
    using assms by (simp add: grep_def)
qed

end
