(* ===== verification/ConsoleSpec.thy ===== *)
theory ConsoleSpec
  imports Console
begin

text \<open>
  What the console promises: a screen of text, an editable input line, and readers that get the
  finished lines. The abstract states are lists; \<open>show_char\<close>, \<open>edit_char\<close> and \<open>take_line\<close> are the
  operations on them that \<open>cgaputc\<close>, \<open>consoleintr\<close> and \<open>consoleread\<close> refine.
\<close>

subsection \<open>The screen\<close>

text \<open>
  What the screen shows: the characters before the cursor, as a list of at most \<open>24 * 80 - 1\<close>; from
  the cursor on it is blank.
\<close>

abbreviation blank :: byte where "blank \<equiv> 0x20"

definition glyph :: "u16 \<Rightarrow> byte" where
  "glyph x = (if x = 0 then blank else ucast x)"

definition shown :: "console \<Rightarrow> byte list" where
  "shown s = map (\<lambda>i. glyph (crt s i)) [0..<unat (cga_pos s)]"

definition screen_ok :: "console \<Rightarrow> bool" where
  "screen_ok s \<longleftrightarrow> unat (cga_pos s) < 24 * 80 \<and> (\<forall>i. unat (cga_pos s) \<le> i \<and> i < 24 * 80 \<longrightarrow> glyph (crt s i) = blank)"

definition scroll_shown :: "byte list \<Rightarrow> byte list" where
  "scroll_shown t = (if 24 * 80 \<le> length t then drop 80 t else t)"

definition show_char :: "int \<Rightarrow> byte list \<Rightarrow> byte list" where
  "show_char c t = scroll_shown
    (if c = 10 then t @ replicate (80 - length t mod 80) blank
     else if c = BACKSPACE then butlast t else t @ [word_of_int c])"

lemma length_shown [simp]: "length (shown s) = unat (cga_pos s)"
  by (simp add: shown_def)

lemma glyph_blank [simp]: "glyph 0 = blank" "glyph 0x0720 = blank"
  by (simp_all add: glyph_def)

lemma glyph_char [simp]: "glyph ((word_of_int c AND 0xff) OR 0x0700) = word_of_int c"
proof -
  have nz: "(word_of_int c AND 0xff) OR 0x0700 \<noteq> (0 :: u16)"
  proof
    assume "(word_of_int c AND 0xff) OR 0x0700 = (0 :: u16)"
    then have "bit ((word_of_int c AND 0xff) OR (0x0700 :: u16)) 8 = bit (0 :: u16) 8"
      by simp
    then show False
      by (simp add: bit_or_iff bit_and_iff bit_numeral_rec)
  qed
  have "ucast ((word_of_int c AND 0xff) OR (0x0700 :: u16)) = (word_of_int c :: byte)"
  proof (rule bit_word_eqI)
    have e: "(0xff :: u16) = mask 8"
      by (simp add: mask_eq_exp_minus_1)
    show "bit (ucast ((word_of_int c AND 0xff) OR (0x0700 :: u16)) :: byte) n = bit (word_of_int c :: byte) n"
      if "n < LENGTH(8)" for n
      using that bit_push_bit_iff [of 8 "7 :: u16" n] unfolding e by (simp add: bit_simps)
  qed
  then show ?thesis
    using nz by (simp add: glyph_def)
qed

text \<open>Placing the cursor at \<open>n\<close>, with or without scrolling.\<close>

definition place :: "nat \<Rightarrow> (nat \<Rightarrow> u16) \<Rightarrow> console \<Rightarrow> console" where
  "place n f s =
    (let (n, f) = (if 24 * 80 \<le> n then (n - 80, scroll (n - 80) f) else (n, f))
     in s\<lparr>cga_pos := of_nat n, crt := f(n := 0x0720)\<rparr>)"

lemma next_line: "n < 1920 \<Longrightarrow> n + (80 - n mod 80) \<le> (1920 :: nat)"
proof -
  assume "n < 1920"
  then have "n div 80 < 24" by (simp add: less_mult_imp_div_less)
  then show ?thesis
    using mult_div_mod_eq [of 80 n] mod_less_divisor [of 80 n] by linarith
qed

lemma cga_finish_place:
  assumes "m \<le> 25 * 80"
  shows "cga_finish (int m) f s = Done (place m f s)"
proof (cases "24 * 80 \<le> m")
  case True
  then have "24 \<le> int m div 80" by simp
  moreover have "int m - 80 = int (m - 80)" using True by simp
  moreover have "nat (int m - 80) = m - 80" by (simp add: nat_diff_distrib')
  ultimately show ?thesis
    using assms True by (simp add: place_def cga_finish_def)
next
  case False
  then have "\<not> 24 \<le> int m div 80" by simp
  then show ?thesis
    using assms False by (simp add: place_def cga_finish_def)
qed

lemma cgaputc_place:
  assumes "screen_ok s"
  shows "cgaputc c s = Done (let n = unat (cga_pos s) in
    if c = 10 then place (n + (80 - n mod 80)) (crt s) s
    else if c = BACKSPACE then place (n - 1) (crt s) s
    else place (n + 1) ((crt s)(n := (word_of_int c AND 0xff) OR 0x0700)) s)"
  (is "_ = Done ?r")
proof -
  define n where "n = unat (cga_pos s)"
  have p: "uint (cga_pos s) = int n" and n: "n < 1920"
    using assms by (simp_all add: n_def screen_ok_def)
  have "n mod 80 < 80" by simp
  then have nl: "int n + (80 - int n mod 80) = int (n + (80 - n mod 80))" by (simp add: zmod_int of_nat_diff less_imp_le)
  have bs: "(if int n > 0 then int n - 1 else int n) = int (n - 1)" by (cases n) auto
  have ch: "int n + 1 = int (n + 1)" by simp
  have "n + (80 - n mod 80) \<le> 1920"
    using n by (rule next_line)
  then show ?thesis
    unfolding cgaputc_def p Let_def nl bs ch n_def [symmetric] nat_int using n by (simp only: cga_finish_place simp_thms if_distrib [of Done])
qed

lemma screen_okD: "screen_ok s \<Longrightarrow> unat (cga_pos s) < 1920"
  "screen_ok s \<Longrightarrow> unat (cga_pos s) \<le> i \<Longrightarrow> i < 1920 \<Longrightarrow> glyph (crt s i) = blank"
  by (auto simp: screen_ok_def)

lemma shown_place:
  assumes "n \<le> 24 * 80" "\<And>i. n < i \<Longrightarrow> i < 24 * 80 \<Longrightarrow> glyph (f i) = blank"
  shows "screen_ok (place n f s)" "shown (place n f s) = scroll_shown (map (\<lambda>i. glyph (f i)) [0..<n])"
    "1920 \<le> i \<Longrightarrow> crt (place n f s) i = f i"
proof -
  have u: "unat (of_nat k :: u16) = k" if "k < 1920" for k
    using that by (simp add: unat_of_nat)
  have "screen_ok (place n f s) \<and> shown (place n f s) = scroll_shown (map (\<lambda>i. glyph (f i)) [0..<n])
     \<and> (1920 \<le> i \<longrightarrow> crt (place n f s) i = f i)"
  proof (cases "n = 1920")
    case True
    have "place n f s = s\<lparr>cga_pos := of_nat 1840, crt := (scroll 1840 f)(1840 := 0x0720)\<rparr>"
      using True by (simp add: place_def)
    moreover have "drop 80 (map (\<lambda>i. glyph (f i)) [0..<1920]) = map (\<lambda>i. glyph (f (i + 80))) [0..<1840]"
      by (rule nth_equalityI) (simp_all add: add.commute)
    ultimately show ?thesis
      using True u [of 1840] by (simp add: screen_ok_def shown_def scroll_shown_def scroll_def)
  next
    case False
    then have "n < 1920"
      using assms(1) by simp
    then show ?thesis
      using assms(2) u [of n] by (simp add: place_def screen_ok_def shown_def scroll_shown_def)
  qed
  then show "screen_ok (place n f s)" "shown (place n f s) = scroll_shown (map (\<lambda>i. glyph (f i)) [0..<n])"
    "1920 \<le> i \<Longrightarrow> crt (place n f s) i = f i"
    by blast+
qed

lemma place_frame [simp]:
  "in_buf (place n f s) = in_buf s" "in_r (place n f s) = in_r s" "in_w (place n f s) = in_w s"
  "in_e (place n f s) = in_e s" "panicked (place n f s) = panicked s" "serial (place n f s) = serial s"
  "uart_on (place n f s) = uart_on s"
  by (simp_all add: place_def Let_def split_beta)

text \<open>Putting a character on a good screen refines \<open>show_char\<close>.\<close>

lemma cgaputc_shows:
  assumes "screen_ok s"
  shows "\<exists>t. cgaputc c s = Done t \<and> screen_ok t \<and> shown t = show_char c (shown s)
    \<and> (\<forall>i\<ge>1920. crt t i = crt s i) \<and> in_buf t = in_buf s \<and> in_r t = in_r s \<and> in_w t = in_w s \<and> in_e t = in_e s
    \<and> panicked t = panicked s \<and> serial t = serial s \<and> uart_on t = uart_on s"
proof -
  define n where "n = unat (cga_pos s)"
  have n: "n < 1920" and b: "\<And>i. n \<le> i \<Longrightarrow> i < 1920 \<Longrightarrow> glyph (crt s i) = blank"
    using screen_okD [OF assms] by (simp_all add: n_def)
  define f where "f = (if c = 10 \<or> c = BACKSPACE then crt s else (crt s)(n := (word_of_int c AND 0xff) OR 0x0700))"
  define m where "m = (if c = 10 then n + (80 - n mod 80) else if c = BACKSPACE then n - 1 else n + 1)"
  have e: "cgaputc c s = Done (place m f s)"
    unfolding cgaputc_place [OF assms] by (simp add: m_def f_def n_def Let_def)
  have "n + (80 - n mod 80) \<le> 1920"
    using n by (rule next_line)
  then have m: "m \<le> 24 * 80"
    using n by (auto simp: m_def)
  have blanks: "glyph (f i) = blank" if "m < i" "i < 24 * 80" for i
    using that b [of i] by (auto simp: f_def m_def split: if_splits)
  have "map (\<lambda>i. glyph (f i)) [0..<m] =
      (if c = 10 then shown s @ replicate (80 - length (shown s) mod 80) blank
       else if c = BACKSPACE then butlast (shown s) else shown s @ [word_of_int c])"
  proof -
    have "map (\<lambda>i. glyph (crt s i)) [0..<n + (80 - n mod 80)] = shown s @ replicate (80 - n mod 80) blank"
      using next_line [OF n] b by (intro nth_equalityI) (auto simp: shown_def nth_append n_def [symmetric])
    moreover have "map (\<lambda>i. glyph (crt s i)) [0..<n - 1] = butlast (shown s)"
      by (cases n) (simp_all add: shown_def n_def [symmetric])
    moreover have "map (\<lambda>i. glyph (((crt s)(n := (word_of_int c AND 0xff) OR 0x0700)) i)) [0..<n + 1]
        = shown s @ [word_of_int c]"
      by (simp add: shown_def n_def [symmetric])
    ultimately show ?thesis
      by (simp add: m_def f_def n_def [symmetric])
  qed
  then have "shown (place m f s) = show_char c (shown s)"
    unfolding show_char_def by (simp only: shown_place(2) [OF m blanks])
  then show ?thesis
    using e shown_place(1) [OF m blanks, where s = s] shown_place(3) [OF m blanks, where s = s] n by (auto simp: f_def)
qed

text \<open>What goes out on the serial line for a character.\<close>

definition serial_of :: "int \<Rightarrow> byte list" where
  "serial_of c = (if c = BACKSPACE then [8, 32, 8] else [word_of_int c])"

definition console_ok :: "console \<Rightarrow> bool" where
  "console_ok s \<longleftrightarrow> screen_ok s \<and> \<not> panicked s"

lemma consputc_shows:
  assumes "console_ok s"
  obtains t where "consputc c s = Done t" "console_ok t" "shown t = show_char c (shown s)"
    "\<forall>i\<ge>1920. crt t i = crt s i" "uart_on t = uart_on s"
    "serial t = serial s @ (if uart_on s then serial_of c else [])"
    "in_buf t = in_buf s" "in_r t = in_r s" "in_w t = in_w s" "in_e t = in_e s"
proof -
  define s' where "s' = (if c = BACKSPACE then uartputc 8 (uartputc 32 (uartputc 8 s)) else uartputc c s)"
  have s': "screen_ok s'" "shown s' = shown s" "crt s' = crt s" "in_buf s' = in_buf s" "in_r s' = in_r s" "in_w s' = in_w s"
    "in_e s' = in_e s" "panicked s' = panicked s" "uart_on s' = uart_on s"
    "serial s' = serial s @ (if uart_on s then serial_of c else [])"
    using assms by (simp_all add: s'_def uartputc_def screen_ok_def shown_def console_ok_def serial_of_def)
  have e: "consputc c s = cgaputc c s'"
    using assms by (simp add: consputc_def console_ok_def s'_def)
  show ?thesis
    using cgaputc_shows [OF s'(1), of c] s' assms e by (auto simp: console_ok_def intro!: that)
qed

lemma consputc_all_shows:
  assumes "console_ok s"
  obtains t where "foldO consputc cs s = Done t" "console_ok t" "shown t = fold show_char cs (shown s)"
    "\<forall>i\<ge>1920. crt t i = crt s i" "uart_on t = uart_on s"
    "serial t = serial s @ (if uart_on s then concat (map serial_of cs) else [])"
    "in_buf t = in_buf s" "in_r t = in_r s" "in_w t = in_w s" "in_e t = in_e s"
proof -
  have "\<exists>t. foldO consputc cs s = Done t \<and> console_ok t \<and> shown t = fold show_char cs (shown s)
    \<and> (\<forall>i\<ge>1920. crt t i = crt s i) \<and> uart_on t = uart_on s
    \<and> serial t = serial s @ (if uart_on s then concat (map serial_of cs) else [])
    \<and> in_buf t = in_buf s \<and> in_r t = in_r s \<and> in_w t = in_w s \<and> in_e t = in_e s"
    using assms
  proof (induction cs arbitrary: s)
    case (Cons c cs)
    obtain u where u: "consputc c s = Done u" "console_ok u" "shown u = show_char c (shown s)"
      "\<forall>i\<ge>1920. crt u i = crt s i" "uart_on u = uart_on s"
      "serial u = serial s @ (if uart_on s then serial_of c else [])"
      "in_buf u = in_buf s" "in_r u = in_r s" "in_w u = in_w s" "in_e u = in_e s"
      by (rule consputc_shows [OF Cons.prems, where c = c])
    show ?case
      using Cons.IH [OF u(2)] u by auto
  qed simp
  then show ?thesis
    by (auto intro!: that)
qed


subsection \<open>The input queue\<close>

text \<open>
  The ring between the read and the edit index: first the bytes of finished lines (\<open>queue\<close>), up to the
  write index, then the line that is being edited.
\<close>

definition ring :: "console \<Rightarrow> byte list" where
  "ring s = window (in_buf s) INPUT_BUF (in_r s) (in_e s)"

definition queue :: "console \<Rightarrow> byte list" where
  "queue s = take (unat (in_w s - in_r s)) (ring s)"

definition edit_line :: "console \<Rightarrow> byte list" where
  "edit_line s = drop (unat (in_w s - in_r s)) (ring s)"

definition input_ok :: "console \<Rightarrow> bool" where
  "input_ok s \<longleftrightarrow> unat (in_e s - in_r s) \<le> INPUT_BUF \<and> unat (in_w s - in_r s) \<le> unat (in_e s - in_r s)
     \<and> 10 \<notin> set (edit_line s)"

lemma input_cong:
  assumes "in_buf t = in_buf s" "in_r t = in_r s" "in_w t = in_w s" "in_e t = in_e s"
  shows "ring t = ring s" "queue t = queue s" "edit_line t = edit_line s" "input_ok t = input_ok s"
  using assms by (simp_all add: ring_def queue_def edit_line_def input_ok_def)

lemma queue_edit: "queue s @ edit_line s = ring s"
  by (simp add: queue_def edit_line_def)

lemma edit_line_empty:
  assumes "input_ok s"
  shows "edit_line s = [] \<longleftrightarrow> in_e s = in_w s"
proof -
  have "edit_line s = [] \<longleftrightarrow> unat (in_e s - in_r s) = unat (in_w s - in_r s)"
    using assms by (auto simp: edit_line_def ring_def input_ok_def)
  also have "\<dots> \<longleftrightarrow> in_e s - in_r s = in_w s - in_r s"
    by (simp add: word_unat_eq_iff)
  finally show ?thesis
    by simp
qed

lemma queue_empty:
  assumes "input_ok s"
  shows "queue s = [] \<longleftrightarrow> in_r s = in_w s"
proof -
  have "queue s = [] \<longleftrightarrow> unat (in_w s - in_r s) = 0"
    using assms by (auto simp: queue_def ring_def input_ok_def window_empty)
  then show ?thesis
    by (auto simp: unsigned_eq_0_iff)
qed

lemma unat_pred: "w \<noteq> r \<Longrightarrow> unat (w - 1 - r :: u32) = unat (w - r) - 1"
  using unat_minus_one [of "w - r"] by (simp add: algebra_simps)

lemma ring_back:
  assumes "in_e s \<noteq> in_r s"
  shows "ring (s\<lparr>in_e := in_e s - 1\<rparr>) = butlast (ring s)"
  using assms unat_pred [OF assms]
  by (cases "unat (in_e s - in_r s)") (simp_all add: ring_def window_def unsigned_eq_0_iff)

lemma ring_last:
  assumes "in_e s \<noteq> in_r s"
  shows "input_last s = last (ring s)"
proof -
  have "unat (in_e s - in_r s) \<noteq> 0"
    using assms by (simp add: unsigned_eq_0_iff)
  then obtain k where k: "unat (in_e s - in_r s) = Suc k"
    by (cases "unat (in_e s - in_r s)") auto
  have "in_r s + of_nat k = in_e s - 1"
  proof -
    have "of_nat (Suc k) = in_e s - in_r s"
      by (simp flip: k)
    then show ?thesis
      by (simp add: algebra_simps)
  qed
  then show ?thesis
    by (simp add: input_last_def ring_def window_def k)
qed

text \<open>Taking back the last character of the line.\<close>

lemma edit_back:
  assumes "input_ok s" "in_e s \<noteq> in_w s"
  defines "t \<equiv> s\<lparr>in_e := in_e s - 1\<rparr>"
  shows "input_ok t" "queue t = queue s" "edit_line t = butlast (edit_line s)" "edit_line s \<noteq> []"
    "input_last s = last (edit_line s)"
proof -
  have ne: "edit_line s \<noteq> []"
    using assms(1,2) by (simp add: edit_line_empty)
  have er: "in_e s \<noteq> in_r s"
    using ne by (auto simp: edit_line_def ring_def window_def)
  have l: "unat (in_w s - in_r s) < length (ring s)"
    using ne by (simp add: edit_line_def)
  have u: "unat (in_e s - 1 - in_r s) = unat (in_e s - in_r s) - 1"
    by (rule unat_pred [OF er])
  have rt: "ring t = butlast (ring s)"
    unfolding t_def by (rule ring_back [OF er])
  have wr: "in_w t = in_w s" "in_r t = in_r s" "in_e t = in_e s - 1"
    by (simp_all add: t_def)
  show "queue t = queue s"
    unfolding queue_def rt wr using l by (simp add: take_butlast)
  show e: "edit_line t = butlast (edit_line s)"
    unfolding edit_line_def rt wr by (simp add: drop_butlast)
  show "edit_line s \<noteq> []" by (rule ne)
  show "input_last s = last (edit_line s)"
    unfolding ring_last [OF er] edit_line_def using l by simp
  show "input_ok t"
    using assms(1) l u by (auto simp: input_ok_def wr e ring_def dest: in_set_butlastD)
qed

text \<open>Adding a character.\<close>

lemma edit_add:
  fixes b :: byte
  assumes "input_ok s" "unat (in_e s - in_r s) < INPUT_BUF"
  defines "t \<equiv> s\<lparr>in_buf := (in_buf s)(unat (in_e s) mod INPUT_BUF := b), in_e := in_e s + 1\<rparr>"
  shows "queue t = queue s" "edit_line t = edit_line s @ [b]" "unat (in_e t - in_r t) = Suc (unat (in_e s - in_r s))"
proof -
  have rt: "ring t = ring s @ [b]"
    unfolding ring_def t_def using assms(2) by (simp add: window_push)
  have w: "in_w t = in_w s" "in_r t = in_r s"
    by (simp_all add: t_def)
  have l: "unat (in_w s - in_r s) \<le> length (ring s)"
    using assms(1) by (simp add: input_ok_def ring_def)
  show "queue t = queue s" "edit_line t = edit_line s @ [b]"
    using l by (simp_all add: queue_def edit_line_def rt w)
  show "unat (in_e t - in_r t) = Suc (unat (in_e s - in_r s))"
    using arg_cong [OF rt, of length] by (simp add: ring_def t_def)
qed

text \<open>Finishing the line.\<close>

lemma edit_finish:
  assumes "unat (in_e s - in_r s) \<le> INPUT_BUF"
  defines "t \<equiv> s\<lparr>in_w := in_e s\<rparr>"
  shows "input_ok t" "queue t = queue s @ edit_line s" "edit_line t = []"
  using assms(1) by (simp_all add: t_def input_ok_def queue_def edit_line_def ring_def)

text \<open>Reading a byte.\<close>

lemma queue_get:
  assumes "input_ok s" "in_r s \<noteq> in_w s"
  defines "t \<equiv> s\<lparr>in_r := in_r s + 1\<rparr>"
  shows "queue s = in_buf s (unat (in_r s) mod INPUT_BUF) # queue t" "edit_line t = edit_line s" "input_ok t"
proof -
  have "queue s \<noteq> []"
    using assms(1,2) by (simp add: queue_empty)
  then have "ring s \<noteq> []"
    by (auto simp: queue_def)
  then have er: "in_e s \<noteq> in_r s"
    by (auto simp: ring_def window_def)
  have p: "unat (w - (r + 1) :: u32) = unat (w - r) - 1" if "w \<noteq> r" for w r
    using unat_pred [OF that] by (simp add: algebra_simps)
  have rs: "ring s = in_buf s (unat (in_r s) mod INPUT_BUF) # ring t"
    unfolding ring_def t_def using er by (simp add: window_pop)
  obtain k where k: "unat (in_w s - in_r s) = Suc k"
    using \<open>queue s \<noteq> []\<close> by (cases "unat (in_w s - in_r s)") (auto simp: queue_def)
  have wt: "unat (in_w t - in_r t) = k"
    using p [of "in_w s" "in_r s"] assms(2) k by (simp add: t_def)
  show "queue s = in_buf s (unat (in_r s) mod INPUT_BUF) # queue t"
    unfolding queue_def k wt rs by simp
  show e: "edit_line t = edit_line s"
    unfolding edit_line_def k wt rs by simp
  have "unat (in_e t - in_r t) = unat (in_e s - in_r s) - 1"
    using p [OF er] by (simp add: t_def)
  then show "input_ok t"
    using assms(1) k wt by (auto simp: input_ok_def e)
qed


subsection \<open>What the editing keys do\<close>

text \<open>The finished lines and the line being edited, as lists.\<close>

definition edit_char :: "int \<Rightarrow> byte list \<times> byte list \<Rightarrow> byte list \<times> byte list" where
  "edit_char c = (\<lambda>(q, l).
    if c = 0x10 then (q, l)
    else if c = 0x15 then (q, [])
    else if c = 8 \<or> c = 0x7F then (q, butlast l)
    else if c = 0 \<or> INPUT_BUF \<le> length q + length l then (q, l)
    else let l = l @ [word_of_int (if c = 13 then 10 else c)] in
         if c \<in> {10, 13, 4} \<or> length q + length l = INPUT_BUF then (q @ l, []) else (q, l))"

lemma ring_full: "in_e s = in_r s + 128 \<longleftrightarrow> unat (in_e s - in_r s) = 128"
proof
  assume "unat (in_e s - in_r s) = 128"
  then have "in_e s - in_r s = 128"
    by (simp add: word_unat_eq_iff)
  then show "in_e s = in_r s + 128"
    by (simp add: algebra_simps)
qed simp

lemma length_ring: "input_ok s \<Longrightarrow> unat (in_e s - in_r s) = length (queue s) + length (edit_line s)"
  using arg_cong [OF queue_edit [of s], of length] by (simp add: ring_def)

lemma kill_line_kills:
  assumes "console_ok s" "input_ok s"
  shows "\<exists>t. kill_line s = Done t \<and> console_ok t \<and> input_ok t \<and> queue t = queue s \<and> edit_line t = []"
  using assms
proof (induction "length (edit_line s)" arbitrary: s)
  case 0
  then have "edit_line s = []" by simp
  moreover from this have "kill_line s = Done s"
    using edit_line_empty [OF 0(3)] by (subst kill_line.simps) simp
  ultimately show ?case
    using 0 by blast
next
  case (Suc n)
  let ?s = "s\<lparr>in_e := in_e s - 1\<rparr>"
  have ew: "in_e s \<noteq> in_w s"
    using Suc.hyps(2) edit_line_empty [OF Suc.prems(2)] by auto
  note b = edit_back [OF Suc.prems(2) ew]
  have "last (edit_line s) \<in> set (edit_line s)"
    by (rule last_in_set) (rule b(4))
  then have "last (edit_line s) \<noteq> 10"
    using Suc.prems(2) by (auto simp: input_ok_def)
  then have nl: "input_last s \<noteq> 10"
    by (simp add: b(5))
  have "console_ok ?s"
    using Suc.prems(1) by (simp add: console_ok_def screen_ok_def)
  then obtain u where u: "consputc BACKSPACE ?s = Done u" "console_ok u"
    "in_buf u = in_buf ?s" "in_r u = in_r ?s" "in_w u = in_w ?s" "in_e u = in_e ?s"
    by (rule consputc_shows [where c = BACKSPACE])
  note f = input_cong [OF u(3-6)]
  have "\<exists>t. kill_line u = Done t \<and> console_ok t \<and> input_ok t \<and> queue t = queue u \<and> edit_line t = []"
    using Suc.hyps(2) u(2) b f by (intro Suc.hyps(1)) simp_all
  moreover have "kill_line s = kill_line u"
    using ew nl u(1) by (subst kill_line.simps) simp
  ultimately show ?case
    using b f by simp
qed

lemma wakeup_idem [simp]: "wakeup ch (wakeup ch p) = wakeup ch p"
  unfolding wakeup_def wakeup1_def for_procs_eq by (rule pst.equality) (auto simp: fun_eq_iff)

definition woken_by :: "u32 \<Rightarrow> byte list \<Rightarrow> pst \<Rightarrow> pst" where
  "woken_by a new p = (if new = [] then p else wakeup (AddrChan a) p)"

lemma woken_by_append: "woken_by a ys (woken_by a xs p) = woken_by a (xs @ ys) p"
  by (simp add: woken_by_def)

lemma intr_char_edits:
  assumes "console_ok s" "input_ok s" "0 \<le> c" "c < 256"
  shows "\<exists>t new. intr_char a c (dump, s, p) = Done (dump \<or> c = 0x10, t, woken_by a new p) \<and> console_ok t \<and> input_ok t
    \<and> queue t = queue s @ new \<and> (queue t, edit_line t) = edit_char c (queue s, edit_line s)"
proof -
  consider "c = 0x10" | "c = 0x15" | "c = 8 \<or> c = 0x7F" | "c = 0 \<or> INPUT_BUF \<le> unat (in_e s - in_r s)" "c \<notin> {0x10, 0x15, 8, 0x7F}"
    | "c \<noteq> 0" "c \<notin> {0x10, 0x15, 8, 0x7F}" "unat (in_e s - in_r s) < INPUT_BUF"
    by fastforce
  then show ?thesis
  proof cases
    case 1
    then show ?thesis
      using assms by (intro exI [of _ s] exI [of _ "[]"]) (simp add: intr_char_def edit_char_def woken_by_def)
  next
    case 2
    obtain t where "kill_line s = Done t" "console_ok t" "input_ok t" "queue t = queue s" "edit_line t = []"
      using kill_line_kills [OF assms(1,2)] by blast
    then show ?thesis
      using 2 by (intro exI [of _ t] exI [of _ "[]"]) (simp add: intr_char_def edit_char_def woken_by_def)
  next
    case 3
    show ?thesis
    proof (cases "in_e s = in_w s")
      case True
      then show ?thesis
        using 3 assms edit_line_empty [OF assms(2)]
        by (intro exI [of _ s] exI [of _ "[]"]) (auto simp: intr_char_def edit_char_def woken_by_def)
    next
      case False
      let ?s = "s\<lparr>in_e := in_e s - 1\<rparr>"
      have "console_ok ?s"
        using assms(1) by (simp add: console_ok_def screen_ok_def)
      then obtain u where u: "consputc BACKSPACE ?s = Done u" "console_ok u"
        "in_buf u = in_buf ?s" "in_r u = in_r ?s" "in_w u = in_w ?s" "in_e u = in_e ?s"
        by (rule consputc_shows [where c = BACKSPACE])
      then show ?thesis
        using 3 False edit_back [OF assms(2) False] input_cong [OF u(3-6)]
        by (intro exI [of _ u] exI [of _ "[]"]) (auto simp: intr_char_def edit_char_def woken_by_def)
    qed
  next
    case 4
    then show ?thesis
      using assms length_ring [OF assms(2)]
      by (intro exI [of _ s] exI [of _ "[]"]) (auto simp: intr_char_def edit_char_def woken_by_def)
  next
    case 5
    define d where "d = (if c = 13 then 10 else c)"
    define b :: byte where "b = word_of_int d"
    define t where "t = s\<lparr>in_buf := (in_buf s)(unat (in_e s) mod INPUT_BUF := b), in_e := in_e s + 1\<rparr>"
    note t = edit_add [OF assms(2) 5(3), of b, folded t_def]
    have "console_ok t"
      using assms(1) by (simp add: console_ok_def screen_ok_def t_def)
    then obtain u where u: "consputc d t = Done u" "console_ok u"
      "in_buf u = in_buf t" "in_r u = in_r t" "in_w u = in_w t" "in_e u = in_e t"
      by (rule consputc_shows [where c = d])
    note f = input_cong [OF u(3-6)]
    have le: "unat (in_e u - in_r u) \<le> INPUT_BUF"
      using t(3) 5(3) u by simp
    have len: "unat (in_e u - in_r u) = Suc (length (queue s) + length (edit_line s))"
      using t(3) u length_ring [OF assms(2)] by simp
    have e: "intr_char a c (dump, s, p) = (if d = 10 \<or> d = 4 \<or> in_e u = in_r u + of_nat INPUT_BUF
        then Done (dump, u\<lparr>in_w := in_e u\<rparr>, wakeup (AddrChan a) p) else Done (dump, u, p))"
      using 5 u(1) by (simp add: intr_char_def Let_def d_def [symmetric] b_def [symmetric] t_def [symmetric])
    have sp: "edit_char c (queue s, edit_line s) = (if d = 10 \<or> d = 4 \<or> unat (in_e u - in_r u) = 128
        then (queue s @ edit_line s @ [b], []) else (queue s, edit_line s @ [b]))"
      using 5 len length_ring [OF assms(2)] by (auto simp: edit_char_def Let_def b_def d_def)
    show ?thesis
    proof (cases "d = 10 \<or> d = 4 \<or> unat (in_e u - in_r u) = 128")
      case True
      have "console_ok (u\<lparr>in_w := in_e u\<rparr>)"
        using u(2) by (simp add: console_ok_def screen_ok_def)
      then show ?thesis
        using e sp True edit_finish [OF le] t f 5
        by (intro exI [of _ "u\<lparr>in_w := in_e u\<rparr>"] exI [of _ "edit_line s @ [b]"])
          (simp add: ring_full woken_by_def)
    next
      case False
      have "uint b = d"
        using assms(3,4) by (simp add: b_def d_def uint_word_of_int)
      then have "b \<noteq> 10"
        using False by auto
      moreover have "input_ok u \<longleftrightarrow> 10 \<notin> set (edit_line u)"
        using le assms(2) u(4-6) t(3) unfolding input_ok_def by (auto simp: t_def)
      ultimately have "input_ok u"
        using t f assms(2) by (simp add: input_ok_def)
      then show ?thesis
        using e sp False t f u(2) 5
        by (intro exI [of _ u] exI [of _ "[]"]) (simp add: ring_full woken_by_def)
    qed
  qed
qed

lemma intr_loop_edits:
  assumes "console_ok s" "input_ok s" "\<forall>c\<in>set cs. 0 \<le> c \<and> c < 256"
  shows "\<exists>t new. intr_loop a cs (dump, s, p) = Done (dump \<or> 0x10 \<in> set cs, t, woken_by a new p) \<and> console_ok t \<and> input_ok t
    \<and> queue t = queue s @ new \<and> (queue t, edit_line t) = fold edit_char cs (queue s, edit_line s)"
  using assms
proof (induction cs arbitrary: dump s p)
  case Nil
  then show ?case
    by (intro exI [of _ s] exI [of _ "[]"]) (simp add: woken_by_def)
next
  case (Cons c cs)
  obtain t new where t: "intr_char a c (dump, s, p) = Done (dump \<or> c = 0x10, t, woken_by a new p)"
    "console_ok t" "input_ok t" "queue t = queue s @ new" "(queue t, edit_line t) = edit_char c (queue s, edit_line s)"
    using intr_char_edits [OF Cons.prems(1,2), of c a dump p] Cons.prems(3) by auto
  obtain u new' where u: "intr_loop a cs (dump \<or> c = 0x10, t, woken_by a new p)
      = Done ((dump \<or> c = 0x10) \<or> 0x10 \<in> set cs, u, woken_by a new' (woken_by a new p))"
    "console_ok u" "input_ok u" "queue u = queue t @ new'" "(queue u, edit_line u) = fold edit_char cs (queue t, edit_line t)"
    using Cons.IH [OF t(2,3), of "dump \<or> c = 0x10" "woken_by a new p"] Cons.prems(3) by auto
  have l: "intr_loop a (c # cs) (dump, s, p) = intr_loop a cs (dump \<or> c = 0x10, t, woken_by a new p)"
    using Cons.prems(3) t(1) by simp
  show ?case
    unfolding l u(1) woken_by_append
    by (intro exI [of _ u] exI [of _ "new @ new'"]) (use t(4,5) u(2-5) in \<open>auto\<close>)
qed

subsection \<open>Reading\<close>

text \<open>
  What a read of \<open>n\<close> bytes takes off the finished lines: up to \<open>n\<close> bytes of one line, or up to an end of
  file mark, which is taken when nothing was read before it; \<open>None\<close> when it has to wait for more.
\<close>

fun take_line :: "bool \<Rightarrow> nat \<Rightarrow> byte list \<Rightarrow> (byte list \<times> byte list) option" where
  "take_line fresh 0 q = Some ([], q)"
| "take_line fresh (Suc n) [] = None"
| "take_line fresh (Suc n) (c # q) =
    (if c = 4 then Some ([], if fresh then q else c # q)
     else if c = 10 then Some ([c], q)
     else map_option (\<lambda>(l, r). (c # l, r)) (take_line False n q))"

lemma console_read_takes:
  assumes "input_ok s" "n \<le> target" "take_line (n = target) n (queue s) = Some (l, q)"
  shows "\<exists>d t. console_read kd target n dst s = ((CRet (int (target - n + length l)), d), t)
    \<and> (\<forall>i<length l. d (target - n + i) = l ! i) \<and> (\<forall>i. i < target - n \<or> target - n + length l \<le> i \<longrightarrow> d i = dst i)
    \<and> input_ok t \<and> queue t = q \<and> edit_line t = edit_line s"
  using assms
proof (induction n arbitrary: s l dst)
  case (Suc n)
  then have ne: "in_r s \<noteq> in_w s"
    using queue_empty [OF Suc.prems(1)] by (cases "queue s") auto
  define t where "t = s\<lparr>in_r := in_r s + 1\<rparr>"
  define c where "c = in_buf s (unat (in_r s) mod INPUT_BUF)"
  note g = queue_get [OF Suc.prems(1) ne, folded t_def c_def]
  consider "c = 4" | "c = 10" | "c \<noteq> 4" "c \<noteq> 10" by blast
  then show ?case
  proof cases
    case 1
    have "t\<lparr>in_r := in_r t - 1\<rparr> = s"
      by (simp add: t_def)
    then show ?thesis
      using 1 Suc.prems ne g by (auto simp: Let_def c_def [symmetric] t_def [symmetric] of_nat_diff)
  next
    case 2
    then show ?thesis
      using Suc.prems ne g
      by (auto simp: Let_def c_def [symmetric] t_def [symmetric] of_nat_diff)
  next
    case 3
    obtain l' where l': "take_line False n (queue t) = Some (l', q)" "l = c # l'"
      using 3 Suc.prems(3) g(1) by auto
    define e where "e = dst(target - Suc n := c)"
    have s: "console_read kd target (Suc n) dst s = console_read kd target n e t"
      using 3 ne by (simp add: Let_def c_def [symmetric] t_def [symmetric] e_def)
    have nt: "(n = target) = False" "n \<le> target"
      using Suc.prems(2) by auto
    obtain d u where u: "console_read kd target n e t = ((CRet (int (target - n + length l')), d), u)"
      "\<forall>i<length l'. d (target - n + i) = l' ! i" "\<forall>i. i < target - n \<or> target - n + length l' \<le> i \<longrightarrow> d i = e i"
      "input_ok u" "queue u = q" "edit_line u = edit_line t"
      using Suc.IH [OF g(3) nt(2), of l' e] l'(1) nt(1) by auto
    have k: "target - n = Suc (target - Suc n)"
      using Suc.prems(2) by simp
    have "d (target - Suc n + i) = l ! i" if "i < length l" for i
      using that u(2) [rule_format, of "i - 1"] u(3) [rule_format, of "target - Suc n"] l'(2)
      by (cases i) (simp_all add: k e_def)
    moreover have "d i = dst i" if "i < target - Suc n \<or> target - Suc n + length l \<le> i" for i
      using that u(3) [rule_format, of i] l'(2) k by (auto simp: e_def)
    ultimately show ?thesis
      unfolding s u(1) using u(4-6) g(2) l'(2) k by auto
  qed
qed simp

lemma console_read_waits:
  assumes "input_ok s" "n \<le> target" "take_line (n = target) n (queue s) = None"
  shows "\<exists>d t. console_read kd target n dst s = ((if kd then CRet (-1) else CSleep (n - length (queue s)), d), t)
    \<and> (\<forall>i<length (queue s). d (target - n + i) = queue s ! i) \<and> (\<forall>i<target - n. d i = dst i)
    \<and> input_ok t \<and> queue t = [] \<and> edit_line t = edit_line s"
  using assms
proof (induction n arbitrary: s dst)
  case (Suc n)
  show ?case
  proof (cases "in_r s = in_w s")
    case True
    then show ?thesis
      using Suc.prems(1) queue_empty [OF Suc.prems(1)] by simp
  next
    case ne: False
    define t where "t = s\<lparr>in_r := in_r s + 1\<rparr>"
    define c where "c = in_buf s (unat (in_r s) mod INPUT_BUF)"
    note g = queue_get [OF Suc.prems(1) ne, folded t_def c_def]
    have 3: "c \<noteq> 4" "c \<noteq> 10" and w: "take_line False n (queue t) = None"
      using Suc.prems(3) g(1) by (auto split: if_splits)
    define e where "e = dst(target - Suc n := c)"
    have s: "console_read kd target (Suc n) dst s = console_read kd target n e t"
      using 3 ne by (simp add: Let_def c_def [symmetric] t_def [symmetric] e_def)
    have nt: "(n = target) = False" "n \<le> target"
      using Suc.prems(2) by auto
    obtain d u where u: "console_read kd target n e t = ((if kd then CRet (-1) else CSleep (n - length (queue t)), d), u)"
      "\<forall>i<length (queue t). d (target - n + i) = queue t ! i" "\<forall>i<target - n. d i = e i" "input_ok u" "queue u = []" "edit_line u = edit_line t"
      using Suc.IH [OF g(3) nt(2), of e] w nt(1) by auto
    have k: "target - n = Suc (target - Suc n)"
      using Suc.prems(2) by simp
    have "d (target - Suc n + i) = queue s ! i" if "i < length (queue s)" for i
      using that u(2) [rule_format, of "i - 1"] u(3) [rule_format, of "target - Suc n"] g(1)
      by (cases i) (simp_all add: k e_def)
    moreover have "d i = dst i" if "i < target - Suc n" for i
      using that u(3) [rule_format, of i] k by (simp add: e_def)
    ultimately show ?thesis
      unfolding s u(1) using u(4-6) g(1,2) by auto
  qed
qed simp


subsection \<open>From the keyboard to a reader\<close>

lemma edit_char_0 [simp]: "edit_char 0 x = x"
  by (cases x) (simp add: edit_char_def)

lemma fold_edit_nonzero: "fold edit_char (filter (\<lambda>c. c \<noteq> 0) cs) x = fold edit_char cs x"
  by (induction cs arbitrary: x) auto

definition plain_char :: "char \<Rightarrow> bool" where
  "plain_char c \<longleftrightarrow> typeable c \<and> c \<noteq> CHR 0x0A"

lemma plain_range:
  assumes "plain_char c"
  shows "32 \<le> (of_char c :: int)" "(of_char c :: int) < 127"
proof -
  have "(of_char c :: int) = int (of_char c)"
    by (rule of_nat_of_char [symmetric])
  moreover have "32 \<le> (of_char c :: nat)" "(of_char c :: nat) < 127"
    using assms by (auto simp: plain_char_def typeable_def)
  ultimately show "32 \<le> (of_char c :: int)" "(of_char c :: int) < 127"
    by linarith+
qed

lemma edit_plain:
  assumes "plain_char c" "length l + 1 < INPUT_BUF"
  shows "edit_char (of_char c) ([], l) = ([], l @ [of_char c])"
proof -
  have "word_of_int (of_char c) = (of_char c :: byte)"
    by (rule of_int_of_char)
  then show ?thesis
    using plain_range [OF assms(1)] assms(2) by (simp add: edit_char_def Let_def)
qed

lemma fold_edit_plain:
  "\<forall>c\<in>set msg. plain_char c \<Longrightarrow> length l + length msg < INPUT_BUF \<Longrightarrow>
    fold edit_char (map of_char msg) ([], l) = ([], l @ map of_char msg)"
  by (induction msg arbitrary: l) (simp_all add: edit_plain)

lemma take_line_plain:
  "\<forall>c\<in>set l. c \<noteq> 4 \<and> c \<noteq> 10 \<Longrightarrow> length l < n \<Longrightarrow> take_line b n (l @ 10 # q) = Some (l @ [10], q)"
proof (induction l arbitrary: n b)
  case Nil
  then show ?case by (cases n) simp_all
next
  case (Cons c l)
  then show ?case by (cases n) simp_all
qed

lemma plain_byte:
  assumes "plain_char c"
  shows "(of_char c :: byte) \<noteq> 4" "(of_char c :: byte) \<noteq> 10"
proof -
  have c: "32 \<le> (of_char c :: nat)" "(of_char c :: nat) < 127"
    using assms by (auto simp: plain_char_def typeable_def)
  have "unat (of_char c :: byte) = of_char c"
    using c(2) by (subst of_nat_of_char [symmetric]) (simp add: unat_of_nat)
  then show "(of_char c :: byte) \<noteq> 4" "(of_char c :: byte) \<noteq> 10"
    using c(1) by auto
qed

subsection \<open>Properties\<close>

text \<open>
  C27. The screen: whatever characters are printed, \<open>consputc\<close> returns, the text before the cursor is the
  text of the abstract terminal (new lines, backspaces and scrolling included), the cursor stays in
  the first 24 rows, nothing behind them is written, and the serial line gets every character.
\<close>

theorem console_shows_text:
  assumes "console_ok s"
  shows "\<exists>t. foldO consputc cs s = Done t \<and> console_ok t \<and> shown t = fold show_char cs (shown s)
    \<and> length (shown t) < 24 * 80 \<and> (\<forall>i\<ge>24 * 80. crt t i = crt s i)
    \<and> (uart_on s \<longrightarrow> serial t = serial s @ concat (map serial_of cs))"
proof -
  obtain t where "foldO consputc cs s = Done t" "console_ok t" "shown t = fold show_char cs (shown s)"
    "\<forall>i\<ge>1920. crt t i = crt s i" "uart_on t = uart_on s"
    "serial t = serial s @ (if uart_on s then concat (map serial_of cs) else [])"
    by (rule consputc_all_shows [OF assms])
  moreover from this have "length (shown t) < 24 * 80"
    unfolding length_shown by (simp add: console_ok_def screen_ok_def)
  ultimately show ?thesis
    by (intro exI [of _ t]) simp
qed

text \<open>
  C26. Line editing: for any characters from the keyboard, \<open>consoleintr\<close> returns and refines the editing
  of a list of bytes, the queue of finished lines grows only at its end, and the readers asleep are
  woken exactly when it has grown.
\<close>

theorem console_edits_lines:
  assumes "console_ok s" "input_ok s" "\<forall>c\<in>set cs. 0 \<le> c \<and> c < 256"
  shows "\<exists>t new. consoleintr a cs s p = Done (0x10 \<in> set cs, t, if new = [] then p else wakeup (AddrChan a) p)
    \<and> console_ok t \<and> input_ok t \<and> queue t = queue s @ new
    \<and> (queue t, edit_line t) = fold edit_char cs (queue s, edit_line s)"
  using intr_loop_edits [OF assms, of a False p] by (simp add: consoleintr_def woken_by_def)

text \<open>
  C28. Reading: the loop of \<open>consoleread\<close> returns one line, or the bytes asked for, or 0 at an end-of-file
  mark, exactly as \<open>take_line\<close> takes them off the queue; when they are not there yet it has taken all
  that is, and sleeps or, when the process was killed, returns -1. The line being edited is untouched.
\<close>

theorem console_reads_lines:
  assumes "input_ok s"
  shows "case take_line True n (queue s) of
      Some (l, q) \<Rightarrow> \<exists>d t. console_read kd n n dst s = ((CRet (int (length l)), d), t) \<and> (\<forall>i<length l. d i = l ! i)
        \<and> (\<forall>i\<ge>length l. d i = dst i) \<and> input_ok t \<and> queue t = q \<and> edit_line t = edit_line s
    | None \<Rightarrow> \<exists>d t. console_read kd n n dst s = ((if kd then CRet (-1) else CSleep (n - length (queue s)), d), t)
        \<and> (\<forall>i<length (queue s). d i = queue s ! i) \<and> input_ok t \<and> queue t = [] \<and> edit_line t = edit_line s"
proof (cases "take_line True n (queue s)")
  case None
  then show ?thesis
    using console_read_waits [OF assms, of n n kd dst] by auto
next
  case (Some x)
  then show ?thesis
    using console_read_takes [OF assms, of n n _ _ kd dst] by (cases x) auto
qed

text \<open>
  C25. From the keyboard to a reader: when nothing is typed yet and no modifier key is down, the scan codes of
  a line of at most 126 printable characters and the return key wake the readers, and a read of more bytes than these
  characters returns exactly that line.
\<close>

theorem typed_line_is_read:
  assumes "console_ok s" "input_ok s" "queue s = []" "edit_line s = []"
    and "\<forall>c\<in>set msg. plain_char c" "length msg + 1 < INPUT_BUF" "length msg < n"
  shows "\<exists>t. kbdintr a 0 (concat (map stroke (msg @ [CHR 0x0A]))) s p = Done (0, False, t, wakeup (AddrChan a) p)
    \<and> (\<exists>d u. console_read kd n n dst t = ((CRet (int (length msg + 1)), d), u)
         \<and> map d [0..<length msg + 1] = map of_char msg @ [10] \<and> queue u = [] \<and> edit_line u = [])"
proof -
  define cs where "cs = fst (kbd_chars 0 (concat (map stroke (msg @ [CHR 0x0A]))))"
  have ty: "\<forall>c\<in>set (msg @ [CHR 0x0A]). typeable c"
    using assms(5) by (auto simp: plain_char_def typeable_def)
  have k: "kbd_chars 0 (concat (map stroke (msg @ [CHR 0x0A]))) = (cs, 0)" "\<forall>c\<in>set cs. 0 \<le> c \<and> c < 256"
    and tc: "typed_chars cs = msg @ [CHR 0x0A]"
    using strokes_typed [OF ty] by (auto simp: cs_def prod_eq_iff)
  have f: "filter (\<lambda>c. c \<noteq> 0) cs = map of_char msg @ [10]"
    using typed_chars_codes [OF k(2)] tc by simp
  have e: "fold edit_char cs ([], []) = (map of_char msg @ [10], [])"
    unfolding fold_edit_nonzero [symmetric, of cs] f
    using fold_edit_plain [OF assms(5), of "[]"] assms(6) by (simp add: edit_char_def Let_def)
  have "0x10 \<notin> set (filter (\<lambda>c. c \<noteq> 0) cs)"
    unfolding f using assms(5) using plain_range(1) by fastforce
  then have dump: "0x10 \<notin> set cs"
    by simp
  obtain t new where t: "consoleintr a cs s p = Done (0x10 \<in> set cs, t, woken_by a new p)"
    "input_ok t" "queue t = queue s @ new" "(queue t, edit_line t) = fold edit_char cs (queue s, edit_line s)"
    using intr_loop_edits [OF assms(1,2) k(2), of a False p] by (auto simp: consoleintr_def)
  have q: "queue t = map of_char msg @ [10]" "edit_line t = []"
    using t(4) e assms(3,4) by simp_all
  have "take_line True n (queue t) = Some (map of_char msg @ [10], [])"
    unfolding q by (rule take_line_plain) (use assms(5,7) plain_byte in auto)
  then obtain d u where u: "console_read kd n n dst t = ((CRet (int (length msg + 1)), d), u)"
    "\<forall>i<length msg + 1. d i = (map of_char msg @ [10]) ! i" "queue u = []" "edit_line u = []"
    using console_read_takes [OF t(2), of n n _ _ kd dst] q(2) by fastforce
  have "map d [0..<length msg + 1] = map of_char msg @ [10]"
    by (rule nth_equalityI) (use u(2) in \<open>simp_all del: upt_Suc\<close>)
  moreover have "kbdintr a 0 (concat (map stroke (msg @ [CHR 0x0A]))) s p = Done (0, False, t, wakeup (AddrChan a) p)"
    unfolding kbdintr_def k(1) using t(1,3) q(1) assms(3) dump by (auto simp: woken_by_def)
  ultimately show ?thesis
    using u by blast
qed

text \<open>An empty console.\<close>

definition new_console :: console where
  "new_console = \<lparr>crt = (\<lambda>_. 0), cga_pos = 0, uart_on = True, serial = [], panicked = False, locking = True,
     in_buf = (\<lambda>_. 0), in_r = 0, in_w = 0, in_e = 0\<rparr>"

lemma new_console_ok: "console_ok new_console" "input_ok new_console" "queue new_console = []" "edit_line new_console = []"
  by (simp_all add: new_console_def console_ok_def screen_ok_def input_ok_def edit_line_def queue_def ring_def window_def)

theorem console_shows_text_witness:
  "\<exists>t. foldO consputc [104, 105, 10, 33, BACKSPACE, 120] new_console = Done t
     \<and> shown t = [104, 105] @ replicate 78 blank @ [120]"
proof -
  have "shown new_console = []"
    by (simp add: shown_def new_console_def)
  then have "fold show_char [104, 105, 10, 33, BACKSPACE, 120] (shown new_console) = [104, 105] @ replicate 78 blank @ [120]"
    by (simp add: show_char_def scroll_shown_def butlast_append)
  then show ?thesis
    using console_shows_text [OF new_console_ok(1), of "[104, 105, 10, 33, BACKSPACE, 120]"] by metis
qed

theorem console_edits_lines_witness:
  "\<forall>x. \<exists>t. consoleintr 0x80110000 [0x61, 0x62, 8, 0x63, 13] new_console x
       = Done (False, t, wakeup (AddrChan 0x80110000) x) \<and> queue t = [0x61, 0x63, 10]"
proof (intro allI)
  fix x
  show "\<exists>t. consoleintr 0x80110000 [0x61, 0x62, 8, 0x63, 13] new_console x
       = Done (False, t, wakeup (AddrChan 0x80110000) x) \<and> queue t = [0x61, 0x63, 10]"
    using console_edits_lines [OF new_console_ok(1,2), of "[0x61, 0x62, 8, 0x63, 13]" "0x80110000" x]
    by (auto simp: new_console_ok edit_char_def)
qed

theorem console_reads_lines_witness:
  "\<exists>d t. console_read False 10 10 (\<lambda>_. 0) new_console = ((CSleep 10, d), t)"
proof -
  have "take_line True 10 [] = None"
    by (simp add: numeral_eq_Suc)
  then show ?thesis
    using console_reads_lines [OF new_console_ok(2), where kd = False and n = 10 and dst = "\<lambda>_. 0"]
    by (simp only: new_console_ok option.case if_False list.size diff_zero) blast
qed

theorem typed_line_is_read_witness:
  "\<forall>x. \<exists>t d u. kbdintr 0 0 (concat (map stroke (''ls'' @ [CHR 0x0A]))) new_console x = Done (0, False, t, wakeup (AddrChan 0) x)
    \<and> console_read False 100 100 (\<lambda>_. 0) t = ((CRet (int (length ''ls'' + 1)), d), u)
    \<and> map d [0..<length ''ls'' + 1] = map of_char ''ls'' @ [10]"
proof (intro allI)
  fix x
  have "\<forall>c\<in>set ''ls''. plain_char c"
    by (simp add: plain_char_def typeable_def)
  from typed_line_is_read [OF new_console_ok this, of 100 0 x False "\<lambda>_. 0"]
  show "\<exists>t d u. kbdintr 0 0 (concat (map stroke (''ls'' @ [CHR 0x0A]))) new_console x = Done (0, False, t, wakeup (AddrChan 0) x)
    \<and> console_read False 100 100 (\<lambda>_. 0) t = ((CRet (int (length ''ls'' + 1)), d), u)
    \<and> map d [0..<length ''ls'' + 1] = map of_char ''ls'' @ [10]"
    by (simp only: list.size) fastforce
qed

end
