(* ===== verification/Umalloc.thy ===== *)
theory Umalloc
  imports Prelude
begin

text \<open>
  The user-level allocator (\<open>umalloc.c\<close>). Addresses are numbers; the two fields of the header at an
  address are \<open>hptr\<close> and \<open>hsize\<close>, pointer arithmetic on headers is in steps of 8 bytes. The heap is what
  \<open>sbrk\<close> handed out, up to \<open>brk\<close>. A walk along the free list that never ends is the result \<open>None\<close>.
\<close>

record umem =
  hptr :: "nat \<Rightarrow> nat"
  hsize :: "nat \<Rightarrow> u32"
  ubase :: nat
  freep :: nat
  brk :: nat

abbreviation (input) HDR :: nat where "HDR \<equiv> 8"
abbreviation (input) TOP :: nat where "TOP \<equiv> 2 ^ 31"

definition hdr_end :: "umem \<Rightarrow> nat \<Rightarrow> nat" where
  "hdr_end s p = p + HDR * unat (hsize s p)"

subsection \<open>free\<close>

partial_function (option) free_search :: "umem \<Rightarrow> nat \<Rightarrow> nat \<Rightarrow> nat option" where
  "free_search s bp p =
    (if bp > p \<and> bp < hptr s p then Some p
     else if p \<ge> hptr s p \<and> (bp > p \<or> bp < hptr s p) then Some p
     else free_search s bp (hptr s p))"

text \<open>The two merges: \<open>bp\<close> with the block behind it, and the block \<open>p\<close> before it with \<open>bp\<close>.\<close>

definition join_next :: "nat \<Rightarrow> nat \<Rightarrow> umem \<Rightarrow> umem" where
  "join_next bp p s =
    (if hdr_end s bp = hptr s p
     then s\<lparr>hsize := (hsize s)(bp := hsize s bp + hsize s (hptr s p)), hptr := (hptr s)(bp := hptr s (hptr s p))\<rparr>
     else s\<lparr>hptr := (hptr s)(bp := hptr s p)\<rparr>)"

definition join_prev :: "nat \<Rightarrow> nat \<Rightarrow> umem \<Rightarrow> umem" where
  "join_prev bp p s =
    (if hdr_end s p = bp
     then s\<lparr>hsize := (hsize s)(p := hsize s p + hsize s bp), hptr := (hptr s)(p := hptr s bp)\<rparr>
     else s\<lparr>hptr := (hptr s)(p := bp)\<rparr>)"

definition ufree :: "nat \<Rightarrow> umem \<Rightarrow> umem option" where
  "ufree ap s = (let bp = ap - HDR in
     case free_search s bp (freep s) of None \<Rightarrow> None
     | Some p \<Rightarrow> Some ((join_prev bp p (join_next bp p s))\<lparr>freep := p\<rparr>))"

subsection \<open>malloc\<close>

text \<open>
  \<open>sbrk\<close> as \<open>growproc\<close> carries it out: it grows the process when there is memory (\<open>ok\<close>) and the new size
  is below KERNBASE, and shrinks it for a negative number. The result is the old size.
\<close>

definition usbrk :: "(nat \<Rightarrow> int \<Rightarrow> bool) \<Rightarrow> int \<Rightarrow> umem \<Rightarrow> nat option \<times> umem" where
  "usbrk ok n s =
    (let m = int (brk s) + n in
     if n > 0 then if ok (brk s) n \<and> m < int TOP then (Some (brk s), s\<lparr>brk := nat m\<rparr>) else (None, s)
     else if n = 0 \<or> m < 0 then (Some (brk s), s)
     else if m = 0 then (None, s) else (Some (brk s), s\<lparr>brk := nat m\<rparr>))"

text \<open>The header of the new block is written at the old break: a fault when the heap did not grow.\<close>

definition morecore :: "(nat \<Rightarrow> int \<Rightarrow> bool) \<Rightarrow> u32 \<Rightarrow> umem \<Rightarrow> (nat option \<times> umem) outcome option" where
  "morecore ok nu s =
    (let nu = (if nu < 4096 then 4096 else nu) in
     case usbrk ok (sint (nu * of_nat HDR)) s of
       (None, s) \<Rightarrow> Some (Done (None, s))
     | (Some hp, s) \<Rightarrow>
         if brk s < hp + HDR then Some Undef
         else case ufree (hp + HDR) (s\<lparr>hsize := (hsize s)(hp := nu)\<rparr>) of
           None \<Rightarrow> None | Some s \<Rightarrow> Some (Done (Some (freep s), s)))"

text \<open>Taking \<open>n\<close> units from the block \<open>p\<close> behind \<open>prevp\<close>.\<close>

definition take_block :: "u32 \<Rightarrow> nat \<Rightarrow> nat \<Rightarrow> umem \<Rightarrow> nat \<times> umem" where
  "take_block n prevp p s =
    (let (p, s) =
       (if hsize s p = n then (p, s\<lparr>hptr := (hptr s)(prevp := hptr s p)\<rparr>)
        else let s = s\<lparr>hsize := (hsize s)(p := hsize s p - n)\<rparr>;
                 p = hdr_end s p
             in (p, s\<lparr>hsize := (hsize s)(p := n)\<rparr>))
     in (p + HDR, s\<lparr>freep := prevp\<rparr>))"

partial_function (option) malloc_loop ::
    "(nat \<Rightarrow> int \<Rightarrow> bool) \<Rightarrow> u32 \<Rightarrow> nat \<Rightarrow> nat \<Rightarrow> umem \<Rightarrow> (nat option \<times> umem) outcome option" where
  "malloc_loop ok n prevp p s =
    (if n \<le> hsize s p then Some (let (a, s) = take_block n prevp p s in Done (Some a, s))
     else if p = freep s then
       Option.bind (morecore ok n s) (\<lambda>r. case r of
         Done (Some q, s) \<Rightarrow> malloc_loop ok n q (hptr s q) s
       | r \<Rightarrow> Some r)
     else malloc_loop ok n p (hptr s p) s)"

definition nunits :: "u32 \<Rightarrow> u32" where
  "nunits nbytes = (nbytes + of_nat HDR - 1) div of_nat HDR + 1"

definition umalloc :: "(nat \<Rightarrow> int \<Rightarrow> bool) \<Rightarrow> u32 \<Rightarrow> umem \<Rightarrow> (nat option \<times> umem) outcome option" where
  "umalloc ok nbytes s =
    (let s = (if freep s = 0
              then s\<lparr>hptr := (hptr s)(ubase s := ubase s), freep := ubase s, hsize := (hsize s)(ubase s := 0)\<rparr>
              else s)
     in malloc_loop ok (nunits nbytes) (freep s) (hptr s (freep s)) s)"

subsection \<open>The free list\<close>

text \<open>
  \<open>free_list s L\<close>: the circular list runs through \<open>L\<close>, which starts with \<open>base\<close> (of size 0) and is
  ascending; the blocks do not overlap and lie below the break.
\<close>

definition linked :: "umem \<Rightarrow> nat list \<Rightarrow> bool" where
  "linked s L \<longleftrightarrow> map (hptr s) L = tl L @ [hd L]"

definition free_list :: "umem \<Rightarrow> nat list \<Rightarrow> bool" where
  "free_list s L \<longleftrightarrow> L \<noteq> [] \<and> hd L = ubase s \<and> linked s L \<and> freep s \<in> set L
     \<and> sorted_wrt (\<lambda>x y. x < y \<and> hdr_end s x \<le> y) L \<and> hsize s (ubase s) = 0
     \<and> (\<forall>x\<in>set (tl L). hsize s x \<noteq> 0) \<and> (\<forall>x\<in>set L. hdr_end s x \<le> brk s) \<and> ubase s < brk s \<and> brk s < TOP"

definition span :: "umem \<Rightarrow> nat \<Rightarrow> nat set" where
  "span s x = {x..<hdr_end s x}"

definition free_area :: "umem \<Rightarrow> nat list \<Rightarrow> nat set" where
  "free_area s L = (\<Union>x\<in>set L. span s x)"

lemma linked_split:
  "linked s (xs @ p # ys) \<longleftrightarrow>
     map (hptr s) xs = tl (xs @ [p]) \<and> hptr s p # map (hptr s) ys = ys @ [hd (xs @ [p])]"
proof -
  have "tl (xs @ p # ys) @ [hd (xs @ p # ys)] = tl (xs @ [p]) @ ys @ [hd (xs @ [p])]"
    by (cases xs) simp_all
  moreover have "length (tl (xs @ [p])) = length xs"
    by simp
  ultimately show ?thesis
    unfolding linked_def by (simp add: append_eq_append_conv)
qed

lemma next_of: "linked s (xs @ p # ys) \<Longrightarrow> hptr s p = hd (ys @ [hd (xs @ [p])])"
  by (cases ys) (simp_all add: linked_split)

lemma next_Cons: "linked s (xs @ p # y # ys) \<Longrightarrow> hptr s p = y"
  by (simp add: next_of)

lemma next_last: "linked s (xs @ [p]) \<Longrightarrow> hptr s p = hd (xs @ [p])"
  by (simp add: next_of)

text \<open>The search finds the block before \<open>bp\<close> from wherever it starts.\<close>

lemma free_search_finds:
  assumes "linked s (xs @ p # ys)" "sorted_wrt (<) (xs @ p # ys)" "p < bp" "\<forall>y\<in>set ys. bp < y"
    and "q \<in> set (xs @ p # ys)"
  shows "free_search s bp q = Some p"
proof -
  have at: "free_search s bp p = Some p"
  proof (cases ys)
    case Nil
    then have "hptr s p = hd (xs @ [p])"
      using assms(1) next_last by simp
    moreover have "hd (xs @ [p]) \<le> p"
      using assms(2) by (cases xs) (auto simp: sorted_wrt_append)
    ultimately show ?thesis
      using assms(3) by (subst free_search.simps) simp
  next
    case (Cons y zs)
    then have "hptr s p = y" "bp < y"
      using assms(1,4) next_Cons by auto
    then show ?thesis
      using assms(3) by (subst free_search.simps) simp
  qed
  have before: "free_search s bp q = Some p" if "xs @ [p] = us @ q # vs" for q us vs
    using that
  proof (induction vs arbitrary: us q)
    case Nil
    then show ?case using at by simp
  next
    case (Cons v vs)
    have L: "xs @ p # ys = us @ q # v # vs @ ys"
      using Cons.prems by (metis append.assoc append_Cons append_Nil)
    have n: "hptr s q = v"
      using assms(1) unfolding L by (rule next_Cons)
    have "q < v" "v < bp"
    proof -
      show "q < v"
        using assms(2) unfolding L by (simp add: sorted_wrt_append)
      have "v \<in> set (xs @ [p])"
        unfolding Cons.prems by simp
      then show "v < bp"
        using assms(2,3) by (auto simp: sorted_wrt_append)
    qed
    moreover have "free_search s bp v = Some p"
      by (rule Cons.IH [of "us @ [q]"]) (use Cons.prems in simp)
    ultimately show ?case
      using n by (subst free_search.simps) simp
  qed
  have hd: "free_search s bp (hd (xs @ [p])) = Some p"
    by (cases "xs @ [p]") (use before [of "[]"] in auto)
  have after: "free_search s bp q = Some p" if "ys = us @ q # vs" for q us vs
    using that
  proof (induction vs arbitrary: us q)
    case Nil
    have "hptr s q = hd (xs @ [p])"
      using next_last [of s "xs @ p # us" q] assms(1) Nil by (cases xs) simp_all
    moreover have "hd (xs @ [p]) < bp" "bp < q"
      using assms(2-4) Nil by (cases xs; auto simp: sorted_wrt_append)+
    ultimately show ?case
      using hd by (subst free_search.simps) simp
  next
    case (Cons v vs)
    have L: "xs @ p # ys = (xs @ p # us) @ q # v # vs"
      using Cons.prems by simp
    have n: "hptr s q = v"
      using assms(1) unfolding L by (rule next_Cons)
    have "q < v" "bp < q" "bp < v"
      using assms(2,4) Cons.prems unfolding L by (auto simp: sorted_wrt_append)
    moreover have "free_search s bp v = Some p"
      by (rule Cons.IH [of "us @ [q]"]) (use Cons.prems in simp)
    ultimately show ?case
      using n by (subst free_search.simps) simp
  qed
  from assms(5) consider "q \<in> set (xs @ [p])" | "q \<in> set ys"
    by auto
  then show ?thesis
    by cases (metis before split_list, metis after split_list)
qed

subsection \<open>Freeing\<close>

lemma free_area_append [simp]: "free_area s (xs @ ys) = free_area s xs \<union> free_area s ys"
  by (auto simp: free_area_def)

lemma free_area_Cons [simp]: "free_area s (x # xs) = span s x \<union> free_area s xs"
  by (simp add: free_area_def)

lemma free_area_Nil [simp]: "free_area s [] = {}"
  by (simp add: free_area_def)

lemma free_area_cong: "(\<And>x. x \<in> set L \<Longrightarrow> hsize t x = hsize s x) \<Longrightarrow> free_area t L = free_area s L"
  by (simp add: free_area_def span_def hdr_end_def)

lemma span_join: "hdr_end s x = y \<Longrightarrow> y \<le> z \<Longrightarrow> {x..<z} = span s x \<union> {y..<z}"
  by (auto simp: span_def hdr_end_def)

lemma size_add:
  fixes a b :: u32
  assumes "x + 8 * unat a = y" "y + 8 * unat b < 2 ^ 31"
  shows "x + 8 * unat (a + b) = y + 8 * unat b"
proof -
  have "unat a + unat b < 2 ^ 32"
    using assms by simp
  then have "unat (a + b) = unat a + unat b"
    by (simp add: unat_word_ariths)
  then show ?thesis
    using assms(1) by simp
qed

lemma split_sorted:
  assumes "sorted_wrt (<) (b # L)" "b < bp" "bp \<notin> set L"
  obtains xs p ys where "b # L = xs @ p # ys" "p < bp" "\<forall>y\<in>set ys. bp < (y :: nat)"
proof -
  have "\<exists>xs p ys. b # L = xs @ p # ys \<and> p < bp \<and> (\<forall>y\<in>set ys. bp < y)"
    using assms
  proof (induction L arbitrary: b)
    case Nil
    then show ?case by (intro exI [of _ "[]"]) simp
  next
    case (Cons c L)
    show ?case
    proof (cases "c < bp")
      case True
      then obtain xs p ys where "c # L = xs @ p # ys" "p < bp" "\<forall>y\<in>set ys. bp < y"
        using Cons.IH [of c] Cons.prems by auto
      then show ?thesis
        by (intro exI [of _ "b # xs"]) auto
    next
      case False
      then show ?thesis
        using Cons.prems by (intro exI [of _ "[]"]) (auto simp: order.strict_iff_order intro: order.strict_trans1)
    qed
  qed
  then show ?thesis
    using that by blast
qed

text \<open>The block behind: \<open>join_next\<close> makes \<open>bp\<close> the head of a chain of the blocks above it.\<close>

definition upper :: "umem \<Rightarrow> nat \<Rightarrow> nat \<Rightarrow> nat list \<Rightarrow> bool" where
  "upper s b x ys \<longleftrightarrow> hptr s x # map (hptr s) ys = ys @ [b] \<and> sorted_wrt (\<lambda>x y. x < y \<and> hdr_end s x \<le> y) (x # ys)
     \<and> (\<forall>y\<in>set (x # ys). hsize s y \<noteq> 0 \<and> hdr_end s y \<le> brk s)"

lemma join_next_upper:
  assumes "sorted_wrt (\<lambda>x y. x < y \<and> hdr_end s x \<le> y) (bp # ys)" "\<forall>y\<in>set (bp # ys). hsize s y \<noteq> 0 \<and> hdr_end s y \<le> brk s"
    and "hptr s p # map (hptr s) ys = ys @ [b]" "b < bp" "brk s < TOP"
  obtains ys' where "upper (join_next bp p s) b bp ys'" "hdr_end s bp \<le> hdr_end (join_next bp p s) bp"
    "free_area (join_next bp p s) (bp # ys') = free_area s (bp # ys)" "set ys' \<subseteq> set ys"
proof (cases "hdr_end s bp = hptr s p")
  case False
  then have j: "join_next bp p s = s\<lparr>hptr := (hptr s)(bp := hptr s p)\<rparr>"
    by (simp add: join_next_def)
  have n: "bp \<notin> set ys"
    using assms(1) by auto
  have "upper (join_next bp p s) b bp ys"
    using assms n by (auto simp: j upper_def hdr_end_def)
  moreover have "free_area (join_next bp p s) (bp # ys) = free_area s (bp # ys)"
    by (rule free_area_cong) (simp add: j)
  moreover have "hdr_end s bp \<le> hdr_end (join_next bp p s) bp"
    by (simp add: j hdr_end_def)
  ultimately show ?thesis
    using that [of ys] by blast
next
  case True
  have "ys \<noteq> []"
    using True assms(3,4) by (auto simp: hdr_end_def)
  then obtain y zs where ys: "ys = y # zs" by (cases ys) auto
  then have y: "hptr s p = y" "hdr_end s bp = y" "hptr s y # map (hptr s) zs = zs @ [b]"
    using True assms(3) by simp_all
  define t where "t = join_next bp p s"
  have j: "t = s\<lparr>hsize := (hsize s)(bp := hsize s bp + hsize s y), hptr := (hptr s)(bp := hptr s y)\<rparr>"
    using True by (simp add: t_def join_next_def y)
  have n: "bp \<notin> set zs"
    using assms(1) ys by auto
  have "hdr_end s y < 2 ^ 31"
    using assms(2,5) ys by auto
  then have e: "hdr_end t bp = hdr_end s y"
    using size_add [of bp "hsize s bp" y "hsize s y"] y(2) by (simp add: j hdr_end_def)
  have z: "hdr_end t x = hdr_end s x" "hsize t x = hsize s x" "hptr t x = hptr s x" if "x \<in> set zs" for x
    using that n by (auto simp: j hdr_end_def)
  have "upper t b bp zs"
    unfolding upper_def
  proof (intro conjI)
    have "map (hptr t) zs = map (hptr s) zs"
      using z(3) by simp
    then show "hptr t bp # map (hptr t) zs = zs @ [b]"
      using y(3) n by (simp add: j)
    show "sorted_wrt (\<lambda>x y. x < y \<and> hdr_end t x \<le> y) (bp # zs)"
      using assms(1) z(1) e unfolding ys by (auto intro: sorted_wrt_mono_rel [rotated])
    have "hdr_end t bp \<noteq> bp"
      using e y(2) assms(1) ys by (auto simp: hdr_end_def)
    then have "hsize t bp \<noteq> 0"
      by (auto simp: hdr_end_def)
    then show "\<forall>y\<in>set (bp # zs). hsize t y \<noteq> 0 \<and> hdr_end t y \<le> brk t"
      using assms(2) z e ys by (auto simp: j)
  qed
  moreover have "free_area t (bp # zs) = free_area s (bp # ys)"
  proof -
    have "span t bp = span s bp \<union> span s y"
      using span_join [OF y(2), of "hdr_end s y"] by (simp add: span_def e) (simp add: hdr_end_def)
    moreover have "free_area t zs = free_area s zs"
      by (rule free_area_cong) (rule z(2))
    ultimately show ?thesis
      by (simp add: ys Un_assoc)
  qed
  ultimately show ?thesis
    using e y(2) unfolding t_def by (intro that) (auto simp: ys hdr_end_def)
qed


lemma sorted_less: "sorted_wrt (\<lambda>x y. x < y \<and> R x y) L \<Longrightarrow> sorted_wrt (<) L"
  by (erule sorted_wrt_mono_rel [rotated]) simp

text \<open>A free list from its part up to \<open>p\<close> and the part behind.\<close>

lemma free_list_parts:
  assumes "hd (xs @ [p]) = ubase t" "map (hptr t) xs = tl (xs @ [p])" "hptr t p # map (hptr t) ys = ys @ [ubase t]"
    and "freep t \<in> set (xs @ p # ys)" "sorted_wrt (\<lambda>x y. x < y \<and> hdr_end t x \<le> y) (xs @ [p])"
    and "sorted_wrt (\<lambda>x y. x < y \<and> hdr_end t x \<le> y) ys" "\<And>x y. x \<in> set (xs @ [p]) \<Longrightarrow> y \<in> set ys \<Longrightarrow> x < y \<and> hdr_end t x \<le> y"
    and "hsize t (ubase t) = 0" "\<And>x. x \<in> set (tl (xs @ [p])) \<or> x \<in> set ys \<Longrightarrow> hsize t x \<noteq> 0"
    and "\<And>x. x \<in> set (xs @ [p]) \<or> x \<in> set ys \<Longrightarrow> hdr_end t x \<le> brk t" "ubase t < brk t" "brk t < TOP"
  shows "free_list t (xs @ p # ys)"
proof -
  have "linked t (xs @ p # ys)"
    using assms(1-3) by (simp add: linked_split)
  moreover have "hd (xs @ p # ys) = ubase t" "tl (xs @ p # ys) = tl (xs @ [p]) @ ys"
    using assms(1) by (cases xs; simp)+
  moreover have "sorted_wrt (\<lambda>x y. x < y \<and> hdr_end t x \<le> y) ((xs @ [p]) @ ys)"
    using assms(5-7) by (subst sorted_wrt_append) blast
  moreover have "\<forall>x\<in>set (tl (xs @ [p]) @ ys). hsize t x \<noteq> 0"
    using assms(9) by auto
  moreover have "\<forall>x\<in>set (xs @ p # ys). hdr_end t x \<le> brk t"
    using assms(10) by auto
  ultimately show ?thesis
    using assms(4,8,11,12) by (simp add: free_list_def)
qed

text \<open>\<open>free\<close> puts the block back.\<close>

lemma ufree_frees:
  assumes L: "free_list s L" and bp: "ubase s < bp" "hsize s bp \<noteq> 0" "hdr_end s bp \<le> brk s"
    and dis: "span s bp \<inter> free_area s L = {}"
  obtains t L' where "ufree (bp + HDR) s = Some t" "free_list t L'" "free_area t L' = free_area s L \<union> span s bp"
    "brk t = brk s" "ubase t = ubase s" "\<And>x. x \<notin> free_area s L \<union> span s bp \<Longrightarrow> x \<noteq> ubase s \<Longrightarrow> hsize t x = hsize s x"
    "\<exists>x\<in>set L'. hsize s bp \<le> hsize t x"
proof -
  let ?R = "\<lambda>x y. x < y \<and> hdr_end s x \<le> y"
  have F: "L \<noteq> []" "hd L = ubase s" "linked s L" "freep s \<in> set L" "sorted_wrt ?R L" "hsize s (ubase s) = 0"
    "\<forall>x\<in>set (tl L). hsize s x \<noteq> 0" "\<forall>x\<in>set L. hdr_end s x \<le> brk s" "brk s < TOP"
    and bb: "ubase s < brk s"
    using L by (simp_all add: free_list_def)
  have Lb: "L = ubase s # tl L"
    using F(1,2) by (cases L) simp_all
  have in_span: "x \<in> span s x" if "hsize s x \<noteq> 0" for x
    using that by (simp add: span_def hdr_end_def unat_gt_0)
  have out: "bp \<notin> span s x" "hsize s x \<noteq> 0 \<Longrightarrow> x \<notin> span s bp" if "x \<in> set L" for x
    using dis that in_span [OF bp(2)] in_span [of x] by (auto simp: free_area_def)
  have "bp \<notin> set (tl L)"
    using out(1) [of bp] in_span [OF bp(2)] by (metis Lb list.set_intros(2))
  then obtain xs p ys where xs: "L = xs @ p # ys" and p: "p < bp" and ys: "\<forall>y\<in>set ys. bp < y"
    using split_sorted [of "ubase s" "tl L" bp] sorted_less [OF F(5)] bp(1) Lb by metis
  have search: "free_search s bp (freep s) = Some p"
    by (rule free_search_finds [OF F(3) [unfolded xs] sorted_less [OF F(5), unfolded xs] p ys F(4) [unfolded xs]])
  have hd: "hd (xs @ [p]) = ubase s"
    using F(2) xs by (cases xs) simp_all
  have pe: "hdr_end s p \<le> bp"
    using out(1) [of p] p xs by (auto simp: span_def)
  have ys_ne: "hsize s y \<noteq> 0" if "y \<in> set ys" for y
    using that F(7) xs by (cases xs) auto
  have sb: "sorted_wrt ?R (bp # ys)"
  proof -
    have "hdr_end s bp \<le> y" if "y \<in> set ys" for y
      using out(2) [of y] ys_ne [OF that] that ys xs by (auto simp: span_def)
    then show ?thesis
      using F(5) ys by (simp add: xs sorted_wrt_append)
  qed
  have all: "\<forall>y\<in>set (bp # ys). hsize s y \<noteq> 0 \<and> hdr_end s y \<le> brk s"
    using ys_ne F(8) bp(2,3) xs by auto
  have ln: "map (hptr s) xs = tl (xs @ [p])" "hptr s p # map (hptr s) ys = ys @ [ubase s]"
    using F(3) unfolding xs linked_split hd by blast+
  define s1 where "s1 = join_next bp p s"
  obtain zs where u: "upper s1 (ubase s) bp zs" and grow: "hdr_end s bp \<le> hdr_end s1 bp" and u': "free_area s1 (bp # zs) = free_area s (bp # ys)" "set zs \<subseteq> set ys"
    using join_next_upper [OF sb all ln(2) bp(1) F(9)] unfolding s1_def by metis
  have s1: "hptr s1 x = hptr s x" "hsize s1 x = hsize s x" "hdr_end s1 x = hdr_end s x" if "x \<noteq> bp" for x
    using that by (simp_all add: s1_def join_next_def hdr_end_def)
  have c1: "brk s1 = brk s" "ubase s1 = ubase s"
    by (simp_all add: s1_def join_next_def)
  have nb: "bp \<notin> set (xs @ [p])"
    using sorted_less [OF F(5)] p unfolding xs by (auto simp: sorted_wrt_append)
  have a1: "free_area s1 (xs @ [p]) = free_area s (xs @ [p])"
    by (rule free_area_cong) (use s1(2) nb in metis)
  have up: "bp < z" "hdr_end s1 bp \<le> z" if "z \<in> set zs" for z
    using u(1) that by (simp_all add: upper_def)
  define t where "t = (join_prev bp p s1)\<lparr>freep := p\<rparr>"
  have fr: "ufree (bp + HDR) s = Some t"
    by (simp add: ufree_def search t_def s1_def)
  have sx: "sorted_wrt ?R (xs @ [p])"
    using F(5) unfolding xs by (simp add: sorted_wrt_append)
  have mem: "ubase s \<in> set (xs @ [p])"
    using hd by (metis hd_in_set snoc_eq_iff_butlast)
  have px: "p \<notin> set xs"
    using sorted_less [OF F(5)] unfolding xs by (auto simp: sorted_wrt_append)
  have pz: "p \<notin> set zs"
    using up p by fastforce
  have below: "x < bp" "hdr_end s x \<le> bp" if "x \<in> set (xs @ [p])" for x
    using that sx p pe by (auto simp: sorted_wrt_append)
  have tl_ne: "hsize s x \<noteq> 0" if "x \<in> set (tl (xs @ [p]))" for x
  proof -
    have "set (tl (xs @ [p])) \<subseteq> set (tl L)"
      unfolding xs by (cases xs) auto
    then show ?thesis
      using that F(7) by blast
  qed
  have tl_in: "x \<in> set (xs @ [p])" if "x \<in> set (tl (xs @ [p]))" for x
    using that by (cases xs) auto
  have uD: "hptr s1 bp # map (hptr s1) zs = zs @ [ubase s]" "sorted_wrt (\<lambda>x y. x < y \<and> hdr_end s1 x \<le> y) (bp # zs)"
    "\<forall>y\<in>set (bp # zs). hsize s1 y \<noteq> 0 \<and> hdr_end s1 y \<le> brk s"
    using u(1) c1 by (simp_all add: upper_def)
  have brk_x: "hdr_end s x \<le> brk s" if "x \<in> set (xs @ [p])" for x
    using that F(8) xs by auto
  have map_xs: "map (hptr s1) xs = tl (xs @ [p])"
    using ln(1) nb s1(1) by (metis (no_types, lifting) UnCI map_eq_conv set_append)
  have ub: "hsize s1 (ubase s) = 0"
    using F(6) mem nb s1(2) by metis
  show ?thesis
  proof (cases "hdr_end s1 p = bp")
    case False
    then have t: "t = s1\<lparr>hptr := (hptr s1)(p := bp), freep := p\<rparr>"
      by (simp add: t_def join_prev_def)
    have he: "hdr_end t x = hdr_end s1 x" "hsize t x = hsize s1 x" for x
      by (simp_all add: t hdr_end_def)
    have "free_list t (xs @ p # bp # zs)"
    proof (rule free_list_parts)
      show "map (hptr t) xs = tl (xs @ [p])"
        using map_xs px by (simp add: t)
      show "hptr t p # map (hptr t) (bp # zs) = (bp # zs) @ [ubase t]"
        using uD(1) pz nb c1 by (simp add: t)
      show "sorted_wrt (\<lambda>x y. x < y \<and> hdr_end t x \<le> y) (xs @ [p])"
        unfolding he by (rule sorted_wrt_mono_rel [OF _ sx]) (use s1(3) nb in metis)
      show "sorted_wrt (\<lambda>x y. x < y \<and> hdr_end t x \<le> y) (bp # zs)"
        unfolding he by (rule uD(2))
      show "x < y \<and> hdr_end t x \<le> y" if "x \<in> set (xs @ [p])" "y \<in> set (bp # zs)" for x y
      proof -
        have "x \<noteq> bp" using that(1) nb by metis
        then show ?thesis
          using below [OF that(1)] up(1) [of y] that(2) unfolding he s1(3) [OF \<open>x \<noteq> bp\<close>] by fastforce
      qed
      show "hsize t x \<noteq> 0" if "x \<in> set (tl (xs @ [p])) \<or> x \<in> set (bp # zs)" for x
        using that tl_ne [of x] tl_in [of x] uD(3) nb s1(2) [of x] unfolding he by metis
      show "hdr_end t x \<le> brk t" if "x \<in> set (xs @ [p]) \<or> x \<in> set (bp # zs)" for x
        using that brk_x [of x] uD(3) nb s1(3) [of x] c1 unfolding he by (metis t umem.select_convs(5) umem.surjective umem.update_convs(1) umem.update_convs(4))
    qed (use hd ub c1 F(9) bb in \<open>simp_all add: t\<close>)
    moreover have "free_area t (xs @ p # bp # zs) = free_area s L \<union> span s bp"
    proof -
      have "free_area t (xs @ p # bp # zs) = free_area s1 (xs @ [p]) \<union> free_area s1 (bp # zs)"
        using he by (subst free_area_cong [of _ t s1]) auto
      then show ?thesis
        unfolding a1 u'(1) by (auto simp: xs)
    qed
    moreover have "hsize s bp \<le> hsize t bp"
      using grow unfolding he by (simp add: hdr_end_def word_le_nat_alt)
    ultimately show ?thesis
    proof (intro that [OF fr])
      show "hsize t x = hsize s x" if "x \<notin> free_area s L \<union> span s bp" for x
        using that in_span [OF bp(2)] s1(2) [of x] unfolding he by auto
      show "brk t = brk s" "ubase t = ubase s"
        using c1 by (simp_all add: t)
      show "\<exists>x\<in>set (xs @ p # bp # zs). hsize s bp \<le> hsize t x" if "hsize s bp \<le> hsize t bp"
        using that by simp
    qed
  next
    case True
    then have t: "t = s1\<lparr>hsize := (hsize s1)(p := hsize s1 p + hsize s1 bp), hptr := (hptr s1)(p := hptr s1 bp), freep := p\<rparr>"
      by (simp add: t_def join_prev_def)
    have pb: "p \<noteq> ubase s"
      using True p ub by (auto simp: hdr_end_def)
    have "bp + 8 * unat (hsize s1 bp) < 2 ^ 31"
      using uD(3) F(9) by (auto simp: hdr_end_def)
    then have pe': "hdr_end t p = hdr_end s1 bp"
      using size_add [of p "hsize s1 p" bp "hsize s1 bp"] True by (simp add: t hdr_end_def)
    have he: "hdr_end t x = hdr_end s1 x" "hsize t x = hsize s1 x" "hptr t x = hptr s1 x" if "x \<noteq> p" for x
      using that by (simp_all add: t hdr_end_def)
    have bn: "bp < hdr_end s1 bp"
      using uD(3) by (simp add: hdr_end_def unat_gt_0)
    have c: "brk t = brk s" "ubase t = ubase s" "freep t = p"
      using c1 by (simp_all add: t)
    have "free_list t (xs @ p # zs)"
    proof (rule free_list_parts)
      show "map (hptr t) xs = tl (xs @ [p])"
        using map_xs px by (simp add: t)
      have "map (hptr t) zs = map (hptr s1) zs"
        using pz he(3) by (metis (no_types, lifting) map_eq_conv)
      then show "hptr t p # map (hptr t) zs = zs @ [ubase t]"
        using uD(1) c pz by (simp add: t)
      show "sorted_wrt (\<lambda>x y. x < y \<and> hdr_end t x \<le> y) (xs @ [p])"
        using sx px nb he(1) s1(3) by (simp add: sorted_wrt_append) (metis (no_types, lifting) sorted_wrt_mono_rel)
      have "sorted_wrt (\<lambda>x y. x < y \<and> hdr_end s1 x \<le> y) zs"
        using uD(2) by simp
      then show "sorted_wrt (\<lambda>x y. x < y \<and> hdr_end t x \<le> y) zs"
        by (rule sorted_wrt_mono_rel [rotated]) (use pz he(1) in metis)
      show "x < y \<and> hdr_end t x \<le> y" if "x \<in> set (xs @ [p])" "y \<in> set zs" for x y
      proof (cases "x = p")
        case True
        then show ?thesis
          using up [OF that(2)] p pe' by simp
      next
        case False
        have "x \<noteq> bp" using that(1) nb by metis
        then show ?thesis
          using below [OF that(1)] up(1) [OF that(2)] he(1) [OF False] s1(3) by simp
      qed
      show "hsize t x \<noteq> 0" if "x \<in> set (tl (xs @ [p])) \<or> x \<in> set zs" for x
      proof (cases "x = p")
        case True
        then show ?thesis
          using pe' p bn by (auto simp: hdr_end_def)
      next
        case False
        then show ?thesis
          using that tl_ne [of x] tl_in [of x] uD(3) nb s1(2) [of x] he(2) by (metis list.set_intros(2))
      qed
      show "hdr_end t x \<le> brk t" if "x \<in> set (xs @ [p]) \<or> x \<in> set zs" for x
      proof (cases "x = p")
        case True
        then show ?thesis
          using pe' uD(3) c by simp
      next
        case False
        then show ?thesis
          using that brk_x [of x] uD(3) nb s1(3) [of x] he(1) c(1) by (metis list.set_intros(2))
      qed
      show "hsize t (ubase t) = 0"
        using ub pb he(2) c by simp
    qed (use hd c F(9) bb in simp_all)
    moreover have "free_area t (xs @ p # zs) = free_area s L \<union> span s bp"
    proof -
      have sp: "span t p = span s1 p \<union> span s1 bp"
        using span_join [OF True, of "hdr_end s1 bp"] bn pe' by (simp add: span_def)
      have "free_area t xs = free_area s1 xs" "free_area t zs = free_area s1 zs"
        by (rule free_area_cong; use he(2) px pz in metis)+
      then have "free_area t (xs @ p # zs) = free_area s1 (xs @ [p]) \<union> free_area s1 (bp # zs)"
        using sp by auto
      then show ?thesis
        unfolding a1 u'(1) by (auto simp: xs)
    qed
    moreover have "hsize s bp \<le> hsize t p"
    proof -
      have "unat (hsize s bp) \<le> unat (hsize t p)"
        using grow pe' p by (simp add: hdr_end_def)
      then show ?thesis
        by (simp add: word_le_nat_alt)
    qed
    ultimately show ?thesis
    proof (intro that [OF fr])
      show "hsize t x = hsize s x" if "x \<notin> free_area s L \<union> span s bp" "x \<noteq> ubase s" for x
      proof -
        have "p \<in> span s p"
          using in_span [of p] tl_ne [of p] pb hd by (cases xs) auto
        then have "x \<noteq> p" "x \<noteq> bp"
          using that in_span [OF bp(2)] by (auto simp: xs)
        then show ?thesis
          using he(2) s1(2) by simp
      qed
      show "brk t = brk s" "ubase t = ubase s"
        using c by simp_all
      show "\<exists>x\<in>set (xs @ p # zs). hsize s bp \<le> hsize t x" if "hsize s bp \<le> hsize t p"
        using that by simp
    qed
  qed
qed

subsection \<open>Allocating\<close>

text \<open>Taking a block off the list.\<close>

lemma spans_disjoint:
  assumes "sorted_wrt (\<lambda>x y. x < y \<and> hdr_end s x \<le> y) (us @ p # vs)"
  shows "span s p \<inter> free_area s (us @ vs) = {}"
proof -
  have "hdr_end s x \<le> p" if "x \<in> set us" for x
    using assms that by (simp add: sorted_wrt_append)
  moreover have "hdr_end s p \<le> x" if "x \<in> set vs" for x
    using assms that by (simp add: sorted_wrt_append)
  ultimately show ?thesis
    by (fastforce simp: free_area_def span_def)
qed

lemma take_block_takes:
  assumes L: "free_list s L" and pp: "prevp \<in> set L" "hptr s prevp = p" and n: "n \<le> hsize s p" "n \<noteq> 0"
  obtains a t L' where "take_block n prevp p s = (a + HDR, t)" "free_list t L'" "hsize t a = n" "span t a \<subseteq> free_area s L"
    "free_area t L' = free_area s L - span t a" "brk t = brk s" "ubase t = ubase s" "ubase s < a"
    "\<And>x. x \<notin> free_area s L \<Longrightarrow> hsize t x = hsize s x"
proof -
  let ?R = "\<lambda>x y. x < y \<and> hdr_end s x \<le> y"
  have F: "L \<noteq> []" "hd L = ubase s" "linked s L" "freep s \<in> set L" "sorted_wrt ?R L" "hsize s (ubase s) = 0"
    "\<forall>x\<in>set (tl L). hsize s x \<noteq> 0" "\<forall>x\<in>set L. hdr_end s x \<le> brk s" "brk s < TOP" "ubase s < brk s"
    using L by (simp_all add: free_list_def)
  have pb: "p \<noteq> ubase s"
    using n F(6) by auto
  obtain us zs where us: "L = us @ prevp # zs"
    using pp(1) by (metis split_list)
  have hd: "hd (us @ [prevp]) = ubase s"
    using F(2) us by (cases us) simp_all
  have "hd (zs @ [ubase s]) = p"
    using next_of [of s us prevp zs] F(3) pp(2) hd us by simp
  then obtain vs where L': "L = us @ prevp # p # vs"
    using pb us by (cases zs) auto
  have srt: "sorted_wrt ?R ((us @ [prevp]) @ p # vs)"
    using F(5) L' by simp
  have dist: "distinct L"
    using strict_sorted_iff [of L] sorted_less [OF F(5)] by simp
  have ln: "map (hptr s) us = tl (us @ [prevp])" "hptr s prevp # hptr s p # map (hptr s) vs = (p # vs) @ [ubase s]"
    using F(3) unfolding L' linked_split hd by simp_all
  have area: "free_area s L = free_area s (us @ prevp # vs) \<union> span s p"
    by (auto simp: L')
  have dis: "span s p \<inter> free_area s (us @ prevp # vs) = {}"
    using spans_disjoint [OF srt] by simp
  have bp: "ubase s < p"
    using srt hd by (cases us) (auto simp: sorted_wrt_append)
  have p_in: "p \<in> span s p"
    using n by (auto simp: span_def hdr_end_def unat_gt_0)
  show ?thesis
  proof (cases "hsize s p = n")
    case True
    define t where "t = s\<lparr>hptr := (hptr s)(prevp := hptr s p), freep := prevp\<rparr>"
    have tb: "take_block n prevp p s = (p + HDR, t)"
      using True by (simp add: take_block_def t_def)
    have he: "hdr_end t x = hdr_end s x" "hsize t x = hsize s x" "span t x = span s x" for x
      by (simp_all add: t_def hdr_end_def span_def)
    have "free_list t (us @ prevp # vs)"
    proof (rule free_list_parts)
      show "map (hptr t) us = tl (us @ [prevp])" "hptr t prevp # map (hptr t) vs = vs @ [ubase t]"
        using ln dist by (auto simp: t_def L')
      show "sorted_wrt (\<lambda>x y. x < y \<and> hdr_end t x \<le> y) (us @ [prevp])" "sorted_wrt (\<lambda>x y. x < y \<and> hdr_end t x \<le> y) vs"
        using srt unfolding he by (simp_all add: sorted_wrt_append)
      show "x < y \<and> hdr_end t x \<le> y" if "x \<in> set (us @ [prevp])" "y \<in> set vs" for x y
        using srt that unfolding he by (auto simp: sorted_wrt_append)
      show "hsize t x \<noteq> 0" if "x \<in> set (tl (us @ [prevp])) \<or> x \<in> set vs" for x
        using that F(7) unfolding he L' by (cases us) auto
    qed (use hd F L' he in \<open>auto simp: t_def\<close>)
    moreover have "free_area t (us @ prevp # vs) = free_area s L - span t p"
      using area dis he(3) free_area_cong [of "us @ prevp # vs" t s] he(2) by auto
    moreover have "span t p \<subseteq> free_area s L" "hsize t p = n"
      using True by (simp_all add: he area)
    moreover have "brk t = brk s" "ubase t = ubase s"
      by (simp_all add: t_def)
    ultimately show ?thesis
      using tb bp he(2) by (intro that [of p t])
  next
    case False
    define m where "m = hsize s p - n"
    define q where "q = p + HDR * unat m"
    define t where "t = s\<lparr>hsize := (hsize s)(p := m, q := n), freep := prevp\<rparr>"
    have tb: "take_block n prevp p s = (q + HDR, t)"
      using False by (simp add: take_block_def t_def hdr_end_def q_def m_def Let_def)
    have um: "unat m = unat (hsize s p) - unat n"
      using n(1) by (simp add: m_def unat_sub)
    have lt: "unat n < unat (hsize s p)"
      using n(1) False by (metis le_neq_trans word_le_nat_alt word_unat_eq_iff)
    have q: "p < q" "q + HDR * unat n = hdr_end s p"
      using lt um by (simp_all add: q_def hdr_end_def)
    have pn: "p \<noteq> q" using q(1) by simp
    have "0 < unat n" using n(2) by (simp add: unat_gt_0)
    then have qin: "q \<in> span s p"
      using q by (simp add: span_def)
    then have "q \<notin> free_area s (us @ prevp # vs)"
      using dis by blast
    have qL: "q \<notin> set L"
    proof
      assume a: "q \<in> set L"
      have "q \<noteq> ubase s" using q(1) bp by simp
      moreover have "set L \<subseteq> insert (ubase s) (set (tl L))"
        using F(1,2) by (cases L) auto
      ultimately have "hsize s q \<noteq> 0" using F(7) a by auto
      then have "q \<in> span s q"
        by (simp add: span_def hdr_end_def unat_gt_0)
      then have "q \<in> free_area s (us @ prevp # vs)"
        using a pn unfolding L' free_area_def by auto
      then show False using \<open>q \<notin> free_area s (us @ prevp # vs)\<close> by simp
    qed
    have he: "hdr_end t x = hdr_end s x" "hsize t x = hsize s x" "span t x = span s x" if "x \<in> set L" "x \<noteq> p" for x
      using that qL by (auto simp: t_def hdr_end_def span_def)
    have hp: "hdr_end t p = q" "hsize t p = m"
      using pn by (simp_all add: t_def hdr_end_def q_def)
    have hq: "hsize t q = n" "span t q = {q..<hdr_end s p}"
      using q(2) by (simp_all add: t_def span_def hdr_end_def)
    have le: "hdr_end t x \<le> hdr_end s x" if "x \<in> set L" for x
      using that he(1) hp(1) q(2) by (cases "x = p") auto
    have "free_list t L"
      unfolding free_list_def
    proof (intro conjI)
      show "linked t L"
        using F(3) by (simp add: linked_def t_def)
      show "sorted_wrt (\<lambda>x y. x < y \<and> hdr_end t x \<le> y) L"
        by (rule sorted_wrt_mono_rel [OF _ F(5)]) (use le in fastforce)
      have "m \<noteq> 0" using lt um by auto
      then show "\<forall>x\<in>set (tl L). hsize t x \<noteq> 0"
        using F(7) he(2) hp(2) by (metis F(1) list.set_sel(2))
      show "\<forall>x\<in>set L. hdr_end t x \<le> brk t"
        using le F(8) by (fastforce simp: t_def)
      show "hsize t (ubase t) = 0"
        using F(6) bp q(1) by (simp add: t_def)
    qed (use F pp in \<open>simp_all add: t_def\<close>)
    moreover have "free_area t L = free_area s L - span t q"
    proof -
      have "free_area t (us @ prevp # vs) = free_area s (us @ prevp # vs)"
        by (rule free_area_cong) (use he(2) dist L' in auto)
      then have "free_area t L = free_area s (us @ prevp # vs) \<union> span t p"
        by (auto simp: L')
      moreover have "span t p = span s p - span t q" "span t q \<subseteq> span s p"
        using hp(1) hq(2) q by (auto simp: span_def)
      ultimately show ?thesis
        using area dis by blast
    qed
    moreover have "span t q \<subseteq> free_area s L"
      using hq(2) q(1) by (auto simp: area span_def)
    moreover have "hsize t x = hsize s x" if "x \<notin> free_area s L" for x
      using that p_in qin by (auto simp: area t_def)
    ultimately show ?thesis
      using tb hq(1) bp q(1) by (intro that [of q t L]) (simp_all add: t_def)
  qed
qed


subsection \<open>Searching the list\<close>

abbreviation chain :: "umem \<Rightarrow> nat list \<Rightarrow> bool" where
  "chain s \<equiv> successively (\<lambda>x y. hptr s x = y)"

lemma chain_map: "map (hptr s) ws = tl (ws @ [z]) \<Longrightarrow> chain s (ws @ [z])"
proof (induction ws)
  case (Cons w ws)
  then show ?case by (cases ws) auto
qed simp

text \<open>Once around the list, from the block behind \<open>f\<close> to \<open>f\<close>.\<close>

lemma around:
  assumes "linked s L" "f \<in> set L" "distinct L"
  obtains ws where "chain s (ws @ [f])" "f \<notin> set ws" "set (ws @ [f]) = set L" "hd (ws @ [f]) = hptr s f"
proof -
  obtain xs ys where L: "L = xs @ f # ys"
    using assms(2) by (metis split_list)
  have m: "map (hptr s) xs = tl (xs @ [f])" "hptr s f # map (hptr s) ys = ys @ [hd (xs @ [f])]"
    using assms(1) unfolding L linked_split by blast+
  have "map (hptr s) (ys @ xs) = tl ((ys @ xs) @ [f])"
  proof (cases ys)
    case Nil
    then show ?thesis using m(1) by simp
  next
    case (Cons y zs)
    then have "map (hptr s) ys = zs @ [hd (xs @ [f])]"
      using m(2) by simp
    moreover have "[hd (xs @ [f])] @ tl (xs @ [f]) = xs @ [f]"
      by (cases xs) simp_all
    ultimately show ?thesis
      using m(1) Cons by (metis append_Cons append_assoc list.sel(3) map_append)
  qed
  moreover have "hd ((ys @ xs) @ [f]) = hptr s f"
    using m(2) by (cases ys) simp_all
  ultimately show ?thesis
    using assms(3) L by (intro that [of "ys @ xs"] chain_map) auto
qed

text \<open>What the loop does up to \<open>freep\<close>: it takes the first block that is big enough, or asks for more.\<close>

definition more_and_go_on where
  "more_and_go_on ok n s = Option.bind (morecore ok n s) (\<lambda>r. case r of
     Done (Some q, s) \<Rightarrow> malloc_loop ok n q (hptr s q) s | r \<Rightarrow> Some r)"

lemma malloc_walk:
  assumes "chain s (ws @ [freep s])" "freep s \<notin> set ws" "hptr s prevp = hd (ws @ [freep s])"
    "prevp \<in> S" "set (ws @ [freep s]) \<subseteq> S"
  shows "(\<exists>pr x. pr \<in> S \<and> hptr s pr = x \<and> n \<le> hsize s x
      \<and> malloc_loop ok n prevp (hd (ws @ [freep s])) s = Some (let (a, s) = take_block n pr x s in Done (Some a, s)))
    \<or> ((\<forall>x\<in>set (ws @ [freep s]). \<not> n \<le> hsize s x)
      \<and> malloc_loop ok n prevp (hd (ws @ [freep s])) s = more_and_go_on ok n s)"
  using assms
proof (induction ws arbitrary: prevp)
  case Nil
  then show ?case
    by (subst (1 2) malloc_loop.simps) (auto simp: more_and_go_on_def)
next
  case (Cons w ws)
  show ?case
  proof (cases "n \<le> hsize s w")
    case True
    then have "malloc_loop ok n prevp w s = Some (let (a, s) = take_block n prevp w s in Done (Some a, s))"
      by (subst malloc_loop.simps) simp
    then show ?thesis
      using True Cons.prems by auto
  next
    case False
    have wn: "w \<noteq> freep s"
      using Cons.prems(2) by auto
    have nx: "hptr s w = hd (ws @ [freep s])"
      using Cons.prems(1) by (cases ws) simp_all
    have l: "malloc_loop ok n prevp w s = malloc_loop ok n w (hd (ws @ [freep s])) s"
      using False wn nx by (subst malloc_loop.simps) simp
    have "chain s (ws @ [freep s])" "w \<in> S"
      using Cons.prems(1,5) by (auto simp: successively_Cons)
    then show ?thesis
      using Cons.IH [of w] Cons.prems(2,5) nx False l by auto
  qed
qed

lemma free_list_distinct: "free_list s L \<Longrightarrow> distinct L"
  using strict_sorted_iff [of L] by (auto simp: free_list_def dest: sorted_less)

text \<open>\<open>malloc\<close> from a list: it takes a block, or asks for more when none is big enough.\<close>

lemma malloc_first:
  assumes L: "free_list s L"
  shows "(\<exists>pr x. pr \<in> set L \<and> hptr s pr = x \<and> n \<le> hsize s x
      \<and> malloc_loop ok n (freep s) (hptr s (freep s)) s = Some (let (a, s) = take_block n pr x s in Done (Some a, s)))
    \<or> ((\<forall>x\<in>set L. \<not> n \<le> hsize s x) \<and> malloc_loop ok n (freep s) (hptr s (freep s)) s = more_and_go_on ok n s)"
proof -
  have F: "linked s L" "freep s \<in> set L"
    using L by (simp_all add: free_list_def)
  obtain ws where ws: "chain s (ws @ [freep s])" "freep s \<notin> set ws" "set (ws @ [freep s]) = set L"
      "hd (ws @ [freep s]) = hptr s (freep s)"
    using around [OF F free_list_distinct [OF L]] by blast
  from malloc_walk [OF ws(1,2) ws(4) [symmetric] F(2) eq_refl [OF ws(3)], of n ok]
  show ?thesis
    unfolding ws(3,4) .
qed

text \<open>The system has no room for the memory that a request for \<open>n\<close> units makes \<open>malloc\<close> ask for.\<close>

definition refused :: "(nat \<Rightarrow> int \<Rightarrow> bool) \<Rightarrow> u32 \<Rightarrow> umem \<Rightarrow> bool" where
  "refused ok n s \<longleftrightarrow> (let k = 8 * int (max 4096 (unat n)) in \<not> (ok (brk s) k \<and> int (brk s) + k < int TOP))"

text \<open>More memory: a block of at least \<open>n\<close> units is on the list.\<close>

lemma morecore_grows:
  assumes L: "free_list s L" and n: "n < 2 ^ 28"
  shows "morecore ok n s = Some (Done (None, s)) \<and> refused ok n s \<or>
    (\<exists>t L'. morecore ok n s = Some (Done (Some (freep t), t)) \<and> free_list t L' \<and> (\<exists>x\<in>set L'. n \<le> hsize t x)
      \<and> brk s \<le> brk t \<and> free_area t L' = free_area s L \<union> {brk s..<brk t} \<and> ubase t = ubase s
      \<and> (\<forall>x. x \<notin> free_area s L \<longrightarrow> x < brk s \<longrightarrow> x \<noteq> ubase s \<longrightarrow> hsize t x = hsize s x))"
proof -
  define nu :: u32 where "nu = (if n < 4096 then 4096 else n)"
  have nu: "unat nu < 2 ^ 28" "nu \<noteq> 0"
    using n by (auto simp: nu_def word_less_nat_alt)
  have mx: "8 * int (max 4096 (unat n)) = 8 * int (unat nu)"
    by (auto simp: nu_def word_less_nat_alt max_def)
  have nn: "n \<le> nu"
    by (auto simp: nu_def)
  have "unat (nu * of_nat HDR) = 8 * unat nu"
    using nu(1) by (simp add: unat_word_ariths)
  then have un: "uint (nu * of_nat HDR) = 8 * int (unat nu)"
    unfolding uint_nat by simp
  have "int (unat nu) < int (2 ^ 28)"
    using nu(1) by (simp only: of_nat_less_iff)
  then have bu: "uint nu < 2 ^ 28"
    by simp
  have "0 < int (unat nu)"
    using nu(2) by (simp only: of_nat_0_less_iff unat_gt_0) simp
  then have up: "0 < uint nu"
    by simp
  have b0: "- 268435456 \<le> uint nu"
    by (rule order_trans [OF _ unsigned_greater_eq]) simp
  have si: "sint (nu * of_nat HDR) = 8 * int (unat nu)"
    unfolding sint_uint un by (rule signed_take_bit_int_eq_self) (use bu b0 in simp_all)
  define k where "k = unat nu"
  have k: "0 < k"
    using nu(2) by (simp add: k_def unat_gt_0)
  show ?thesis
  proof (cases "ok (brk s) (8 * int k) \<and> int (brk s) + 8 * int k < int TOP")
    case False
    then have "usbrk ok (sint (nu * of_nat HDR)) s = (None, s)"
      unfolding si usbrk_def Let_def k_def [symmetric] using k by auto
    then show ?thesis
      using False unfolding refused_def mx Let_def k_def [symmetric] by (simp add: morecore_def nu_def [symmetric] Let_def)
  next
    case True
    define b where "b = brk s + 8 * k"
    have b: "b < TOP" "brk s + HDR \<le> b"
      using True k by (auto simp: b_def)
    have sb: "usbrk ok (sint (nu * of_nat HDR)) s = (Some (brk s), s\<lparr>brk := b\<rparr>)"
      unfolding si usbrk_def Let_def k_def [symmetric] using True k by (simp add: b_def nat_add_distrib nat_mult_distrib)
    define u where "u = s\<lparr>brk := b, hsize := (hsize s)(brk s := nu)\<rparr>"
    have F: "L \<noteq> []" "hd L = ubase s" "linked s L" "freep s \<in> set L"
      "sorted_wrt (\<lambda>x y. x < y \<and> hdr_end s x \<le> y) L" "hsize s (ubase s) = 0"
      "\<forall>x\<in>set (tl L). hsize s x \<noteq> 0" "\<forall>x\<in>set L. hdr_end s x \<le> brk s" "brk s < TOP" "ubase s < brk s"
      using L by (simp_all add: free_list_def)
    have nl: "x \<noteq> brk s" if "x \<in> set L" for x
    proof (cases "x = ubase s")
      case False
      then have "x \<in> set (tl L)"
        using that F(1,2) by (cases L) auto
      then have "x < hdr_end s x"
        using F(7) by (simp add: hdr_end_def unat_gt_0)
      then show ?thesis
        using F(8) that by fastforce
    qed (use F(10) in simp)
    have he: "hdr_end u x = hdr_end s x" "hsize u x = hsize s x" if "x \<in> set L" for x
      using nl [OF that] by (simp_all add: u_def hdr_end_def)
    have "free_list u L"
      unfolding free_list_def
    proof (intro conjI)
      show "linked u L"
        using F(3) by (simp add: linked_def u_def)
      show "sorted_wrt (\<lambda>x y. x < y \<and> hdr_end u x \<le> y) L"
        by (rule sorted_wrt_mono_rel [OF _ F(5)]) (use he in auto)
      show "\<forall>x\<in>set (tl L). hsize u x \<noteq> 0"
        using F(1,7) he(2) by (metis list.set_sel(2))
      show "\<forall>x\<in>set L. hdr_end u x \<le> brk u"
        using F(8) he(1) b(2) by (fastforce simp: u_def)
    qed (use F b in \<open>auto simp: u_def\<close>)
    then have fu: "free_list u L" .
    have bu: "ubase u < brk s" "hsize u (brk s) \<noteq> 0" "hdr_end u (brk s) \<le> brk u"
      using F(10) nu(2) by (simp_all add: u_def hdr_end_def b_def k_def)
    have sp: "span u (brk s) = {brk s..<b}"
      by (simp add: span_def hdr_end_def u_def b_def k_def)
    have area: "free_area u L = free_area s L"
      by (rule free_area_cong) (rule he(2))
    have dis: "span u (brk s) \<inter> free_area u L = {}"
      unfolding sp area using F(8) by (fastforce simp: free_area_def span_def)
    have cs: "brk u = b" "ubase u = ubase s"
      by (simp_all add: u_def)
    obtain t L' where t: "ufree (brk s + HDR) u = Some t" "free_list t L'" "free_area t L' = free_area s L \<union> {brk s..<b}"
      "brk t = b" "ubase t = ubase s" "\<And>x. x \<notin> free_area s L \<union> {brk s..<b} \<Longrightarrow> x \<noteq> ubase s \<Longrightarrow> hsize t x = hsize u x"
      "\<exists>x\<in>set L'. hsize u (brk s) \<le> hsize t x"
      by (rule ufree_frees [OF fu bu dis, unfolded area sp cs]) (rule that)
    have "morecore ok n s = Some (Done (Some (freep t), t))"
      using sb b(2) t(1) by (simp add: morecore_def nu_def [symmetric] Let_def u_def)
    moreover have "\<exists>x\<in>set L'. n \<le> hsize t x"
      using t(7) nn by (auto simp: u_def intro: order_trans)
    moreover have "hsize t x = hsize s x" if "x \<notin> free_area s L" "x < brk s" "x \<noteq> ubase s" for x
      using t(6) [of x] that by (auto simp: u_def)
    ultimately show ?thesis
      using t(2-5) b(2) by (intro disjI2 exI [of _ t] exI [of _ L']) auto
  qed
qed


subsection \<open>Properties\<close>

text \<open>The allocator before its first call, or with a free list.\<close>

definition heap_ok :: "umem \<Rightarrow> nat list \<Rightarrow> bool" where
  "heap_ok s L \<longleftrightarrow> free_list s L \<and> 0 < ubase s \<or> freep s = 0 \<and> L = [] \<and> 0 < ubase s \<and> ubase s < brk s \<and> brk s < TOP"

lemma nunits_fits:
  assumes "unat nbytes + 24 < 2 ^ 31"
  shows "nunits nbytes < 2 ^ 28" "nunits nbytes \<noteq> 0" "unat nbytes \<le> HDR * (unat (nunits nbytes) - 1)"
    "HDR * (unat (nunits nbytes) - 1) < unat nbytes + HDR"
proof -
  have a: "unat (nbytes + of_nat HDR - 1) = unat nbytes + 7"
  proof -
    have "nbytes + of_nat HDR - 1 = nbytes + 7" by simp
    then show ?thesis
      using assms by (simp add: unat_word_ariths)
  qed
  have u: "unat (nunits nbytes) = (unat nbytes + 7) div 8 + 1"
    using assms unfolding nunits_def by (simp add: unat_word_ariths a [simplified] div_le_dividend)
  show "nunits nbytes < 2 ^ 28" "nunits nbytes \<noteq> 0"
    using u assms by (auto simp: word_less_nat_alt simp flip: unat_gt_0)
  show "unat nbytes \<le> HDR * (unat (nunits nbytes) - 1)" "HDR * (unat (nunits nbytes) - 1) < unat nbytes + HDR"
    unfolding u by simp_all
qed

text \<open>Allocation from a free list.\<close>

lemma malloc_loop_allocates:
  assumes L: "free_list s L" and n: "n < 2 ^ 28" "n \<noteq> 0"
  shows "malloc_loop ok n (freep s) (hptr s (freep s)) s = Some (Done (None, s)) \<and> refused ok n s \<or>
    (\<exists>a t L'. malloc_loop ok n (freep s) (hptr s (freep s)) s = Some (Done (Some (a + HDR), t)) \<and> free_list t L'
      \<and> hsize t a = n \<and> span t a \<subseteq> free_area s L \<union> {brk s..<brk t}
      \<and> free_area t L' = (free_area s L \<union> {brk s..<brk t}) - span t a \<and> brk s \<le> brk t \<and> ubase t = ubase s \<and> ubase s < a
      \<and> (\<forall>x. x \<notin> free_area s L \<longrightarrow> x < brk s \<longrightarrow> x \<noteq> ubase s \<longrightarrow> hsize t x = hsize s x))"
proof -
  consider (found) pr x where "pr \<in> set L" "hptr s pr = x" "n \<le> hsize s x"
      "malloc_loop ok n (freep s) (hptr s (freep s)) s = Some (let (a, s) = take_block n pr x s in Done (Some a, s))"
    | (more) "malloc_loop ok n (freep s) (hptr s (freep s)) s = more_and_go_on ok n s"
    using malloc_first [OF L, of n ok] by blast
  then show ?thesis
  proof cases
    case found
    obtain a t L' where t: "take_block n pr x s = (a + HDR, t)" "free_list t L'" "hsize t a = n" "span t a \<subseteq> free_area s L"
      "free_area t L' = free_area s L - span t a" "brk t = brk s" "ubase t = ubase s" "ubase s < a"
      "\<And>x. x \<notin> free_area s L \<Longrightarrow> hsize t x = hsize s x"
      using take_block_takes [OF L found(1,2,3) n(2)] by metis
    show ?thesis
      unfolding found(4) t(1) using t(2-9) by (intro disjI2 exI [of _ a] exI [of _ t] exI [of _ L']) auto
  next
    case more
    consider (no) "morecore ok n s = Some (Done (None, s))" "refused ok n s"
      | (yes) t L' where "morecore ok n s = Some (Done (Some (freep t), t))" "free_list t L'" "\<exists>x\<in>set L'. n \<le> hsize t x"
        "brk s \<le> brk t" "free_area t L' = free_area s L \<union> {brk s..<brk t}" "ubase t = ubase s"
        "\<forall>x. x \<notin> free_area s L \<longrightarrow> x < brk s \<longrightarrow> x \<noteq> ubase s \<longrightarrow> hsize t x = hsize s x"
      using morecore_grows [OF L n(1), of ok] by blast
    then show ?thesis
    proof cases
      case no
      then show ?thesis
        using more by (simp add: more_and_go_on_def)
    next
      case (yes t L')
      obtain pr x where f: "pr \<in> set L'" "hptr t pr = x" "n \<le> hsize t x"
        "malloc_loop ok n (freep t) (hptr t (freep t)) t = Some (let (a, s) = take_block n pr x t in Done (Some a, s))"
        using malloc_first [OF yes(2), of n ok] yes(3) by blast
      obtain a u L2 where u: "take_block n pr x t = (a + HDR, u)" "free_list u L2" "hsize u a = n" "span u a \<subseteq> free_area t L'"
        "free_area u L2 = free_area t L' - span u a" "brk u = brk t" "ubase u = ubase t" "ubase t < a"
        "\<And>x. x \<notin> free_area t L' \<Longrightarrow> hsize u x = hsize t x"
        using take_block_takes [OF yes(2) f(1,2,3) n(2)] by metis
      have l: "malloc_loop ok n (freep s) (hptr s (freep s)) s = Some (Done (Some (a + HDR), u))"
        unfolding more more_and_go_on_def yes(1) using f(4) u(1) by simp
      have "hsize u x = hsize s x" if "x \<notin> free_area s L" "x < brk s" "x \<noteq> ubase s" for x
        using yes(7) that u(9) [of x] yes(5) by auto
      then show ?thesis
        unfolding l using u(2-8) yes(4-6) by (intro disjI2 exI [of _ a] exI [of _ u] exI [of _ L2]) auto
    qed
  qed
qed

text \<open>The first call of \<open>malloc\<close> makes the list that later calls find.\<close>

definition started :: "umem \<Rightarrow> umem" where
  "started s = (if freep s = 0
    then s\<lparr>hptr := (hptr s)(ubase s := ubase s), freep := ubase s, hsize := (hsize s)(ubase s := 0)\<rparr> else s)"

lemma started_heap:
  assumes "heap_ok s L"
  obtains M where "free_list (started s) M" "free_area (started s) M = free_area s L"
proof (cases "freep s = 0")
  case False
  then show ?thesis
    using assms that [of L] by (simp add: heap_ok_def started_def)
next
  case True
  have pos: "0 < ubase s"
    using assms by (auto simp: heap_ok_def)
  have "\<not> free_list s L"
  proof
    assume "free_list s L"
    then have "ubase s \<le> freep s"
      by (cases L) (auto simp: free_list_def)
    then show False
      using True pos by simp
  qed
  then show ?thesis
    using True assms by (intro that [of "[ubase s]"]) (auto simp: heap_ok_def started_def free_list_def linked_def hdr_end_def span_def)
qed

lemma started_sels: "ubase (started s) = ubase s" "brk (started s) = brk s" "x \<noteq> ubase s \<Longrightarrow> hsize (started s) x = hsize s x"
  by (simp_all add: started_def)

lemma umalloc_started: "umalloc ok nbytes s = malloc_loop ok (nunits nbytes) (freep (started s)) (hptr (started s) (freep (started s))) (started s)"
  by (simp add: umalloc_def started_def Let_def)

text \<open>
  C29. \<open>malloc\<close> of up to two gigabytes always returns. Either the system refuses more memory, it fails and the heap is as it was, or it
  returns the address behind the header of a block of at least \<open>nbytes\<close>, taken from the free memory or
  from what \<open>sbrk\<close> added, that is no longer free afterwards; every other byte that was free still is,
  and the headers of the blocks in use are untouched.
\<close>

theorem malloc_allocates:
  assumes "heap_ok s L" "unat nbytes + 24 < 2 ^ 31"
  shows "(\<exists>t L'. umalloc ok nbytes s = Some (Done (None, t)) \<and> heap_ok t L' \<and> free_area t L' = free_area s L \<and> brk t = brk s
      \<and> refused ok (nunits nbytes) s) \<or>
    (\<exists>a t L'. umalloc ok nbytes s = Some (Done (Some (a + HDR), t)) \<and> heap_ok t L' \<and> brk s \<le> brk t
      \<and> a + HDR + unat nbytes \<le> hdr_end t a \<and> span t a \<subseteq> free_area s L \<union> {brk s..<brk t}
      \<and> free_area t L' = (free_area s L \<union> {brk s..<brk t}) - span t a
      \<and> (\<forall>x. x \<notin> free_area s L \<longrightarrow> x < brk s \<longrightarrow> x \<noteq> ubase s \<longrightarrow> hsize t x = hsize s x))"
proof -
  have pos: "0 < ubase s"
    using assms(1) by (auto simp: heap_ok_def)
  obtain M where M: "free_list (started s) M" "free_area (started s) M = free_area s L"
    using started_heap [OF assms(1)] .
  note e = umalloc_started [of ok nbytes s] and n = nunits_fits [OF assms(2)]
  define u where "u = started s"
  note M = M [folded u_def] started_sels [where s = s, folded u_def] and e = e [folded u_def]
  show ?thesis
    using malloc_loop_allocates [OF M(1) n(1,2), of ok]
  proof (elim disjE exE conjE)
    assume "malloc_loop ok (nunits nbytes) (freep u) (hptr u (freep u)) u = Some (Done (None, u))" "refused ok (nunits nbytes) u"
    then show ?thesis
      unfolding e using M pos by (intro disjI1 exI [of _ u] exI [of _ M]) (simp add: heap_ok_def refused_def)
  next
    fix a t L'
    assume a: "malloc_loop ok (nunits nbytes) (freep u) (hptr u (freep u)) u = Some (Done (Some (a + HDR), t))"
      "free_list t L'" "hsize t a = nunits nbytes" "span t a \<subseteq> free_area u M \<union> {brk u..<brk t}"
      "free_area t L' = (free_area u M \<union> {brk u..<brk t}) - span t a" "brk u \<le> brk t" "ubase t = ubase u"
      "\<forall>x. x \<notin> free_area u M \<longrightarrow> x < brk u \<longrightarrow> x \<noteq> ubase u \<longrightarrow> hsize t x = hsize u x"
    have "a + HDR + unat nbytes \<le> hdr_end t a"
      using n(2,3) a(3) by (simp add: hdr_end_def unat_gt_0 [symmetric] algebra_simps)
    then show ?thesis
      unfolding e using a M pos by (intro disjI2 exI [of _ a] exI [of _ t] exI [of _ L']) (simp add: heap_ok_def)
  qed
qed

text \<open>
  C30. \<open>free\<close> of a block always returns: the block is free again, nothing else changes hands, and
  neighbouring free blocks are merged without breaking the list.
\<close>

theorem free_gives_back:
  assumes "heap_ok s L" "freep s \<noteq> 0" "ubase s < a" "hsize s a \<noteq> 0" "hdr_end s a \<le> brk s" "span s a \<inter> free_area s L = {}"
  shows "\<exists>t L'. ufree (a + HDR) s = Some t \<and> heap_ok t L' \<and> free_area t L' = free_area s L \<union> span s a \<and> brk t = brk s
    \<and> (\<forall>x. x \<notin> free_area s L \<union> span s a \<longrightarrow> x \<noteq> ubase s \<longrightarrow> hsize t x = hsize s x)"
proof -
  have "free_list s L" "0 < ubase s"
    using assms(1,2) by (auto simp: heap_ok_def)
  then show ?thesis
    using ufree_frees [of s L a] assms(3-6) by (metis heap_ok_def)
qed

text \<open>
  The sum in \<open>malloc\<close> wraps around: a request for the largest sizes is treated as one for no bytes at
  all, and the block returned is just a header.
\<close>

lemma malloc_wraps:
  assumes "2 ^ 32 - 8 < unat nbytes"
  shows "umalloc ok nbytes s = umalloc ok 0 s \<and> nunits nbytes = 1"
proof -
  have "unat (nbytes + 7) = (unat nbytes + 7) mod 2 ^ 32"
    by (simp add: unat_word_ariths)
  also have "\<dots> = unat nbytes + 7 - 2 ^ 32"
    using assms unsigned_less [of nbytes, where ?'a = nat] by (simp add: mod_if)
  finally have "unat ((nbytes + 7) div 8) = 0"
    using unsigned_less [of nbytes, where ?'a = nat] by (simp add: unat_div)
  then have "(nbytes + of_nat HDR - 1) div of_nat HDR = 0"
    by (simp add: unsigned_eq_0_iff add.commute)
  then have n: "nunits nbytes = 1"
    by (simp add: nunits_def)
  have "nunits 0 = 1"
    by (simp add: nunits_def)
  then show ?thesis
    by (simp add: umalloc_def n)
qed

definition new_heap :: umem where
  "new_heap = \<lparr>hptr = (\<lambda>_. 0), hsize = (\<lambda>_. 0), ubase = 2048, freep = 0, brk = 4096\<rparr>"

lemma new_heap_ok: "heap_ok new_heap []"
  by (simp add: heap_ok_def new_heap_def)

theorem malloc_allocates_witness:
  "\<exists>a t. umalloc (\<lambda>_ _. True) 100 new_heap = Some (Done (Some (a + 8), t)) \<and> 4096 \<le> a \<and> a + 108 \<le> hdr_end t a"
proof -
  have u: "unat (nunits 100) = 14"
    by (simp add: nunits_def)
  have "\<not> refused (\<lambda>_ _. True) (nunits 100) new_heap"
    by (simp add: refused_def u new_heap_def)
  then obtain a t where t: "umalloc (\<lambda>_ _. True) 100 new_heap = Some (Done (Some (a + 8), t))"
    "a + 8 + 100 \<le> hdr_end t a" "span t a \<subseteq> {4096..<brk t}"
    using malloc_allocates [OF new_heap_ok, of 100 "\<lambda>_ _. True"] by (auto simp: new_heap_def)
  moreover have "a \<in> span t a"
    using t(2) by (simp add: span_def)
  ultimately show ?thesis
    by auto
qed

text \<open>A heap with one block of 14 units in use behind one that is free.\<close>

definition used_heap :: umem where
  "used_heap = \<lparr>hptr = (\<lambda>p. if p = 2048 then 4096 else 2048), hsize = (\<lambda>p. if p = 4096 then 10 else if p = 4176 then 14 else 0),
     ubase = 2048, freep = 2048, brk = 8192\<rparr>"

theorem free_gives_back_witness:
  "\<exists>t L'. ufree 4184 used_heap = Some t \<and> free_area t L' = {4096..<4288}"
proof -
  have h: "heap_ok used_heap [2048, 4096]"
    by (simp add: heap_ok_def free_list_def linked_def hdr_end_def used_heap_def)
  have a: "free_area used_heap [2048, 4096] = {4096..<4176}" "span used_heap 4176 = {4176..<4288}"
    by (simp_all add: span_def hdr_end_def used_heap_def)
  show ?thesis
  proof -
    have "{4096..<4176} \<union> {4176..<4288} = {4096..<4288 :: nat}"
      by auto
    moreover have "freep used_heap \<noteq> 0" "ubase used_heap < 4176" "hsize used_heap 4176 \<noteq> 0"
      "hdr_end used_heap 4176 \<le> brk used_heap"
      by (simp_all add: used_heap_def hdr_end_def)
    ultimately show ?thesis
      using free_gives_back [OF h, of 4176] unfolding a by auto
  qed
qed

end
