(* ===== verification/Shell.thy ===== *)
theory Shell
  imports UserLib "HOL-Library.Sublist"
begin

text \<open>
  The shell (\<open>sh.c\<close>). A pointer into the command line is the rest of the line from there on, so that
  the end pointer is the empty list; a token is the pair of its start and its end. \<open>panic\<close> prints its
  message and exits. Memory for the nodes of the tree is always available.
\<close>

type_synonym token = "string \<times> string"

definition token_text :: "token \<Rightarrow> string" where
  "token_text t = take (length (fst t) - length (snd t)) (fst t)"

datatype 'a cmd = EXEC "'a list" | REDIR "'a cmd" 'a nat nat | PIPE "'a cmd" "'a cmd"
  | LIST "'a cmd" "'a cmd" | BACK "'a cmd"

abbreviation MAXARGS :: nat where "MAXARGS \<equiv> 10"

subsection \<open>Tokens\<close>

definition whitespace :: string where "whitespace = '' '' @ [CHR 0x09, CHR 0x0D, CHR 0x0A, CHR 0x0B]"
definition symbols :: string where "symbols = ''<|>&;()''"

definition skip :: "string \<Rightarrow> string" where "skip s = dropWhile (\<lambda>c. c \<in> set whitespace) s"

definition word_char :: "char \<Rightarrow> bool" where
  "word_char c \<longleftrightarrow> c \<notin> set whitespace \<and> c \<notin> set symbols"

text \<open>
  \<open>lex\<close>, the switch of \<open>gettoken\<close>: the kind of the token (0 at the end, \<open>+\<close> for \<open>>>\<close>, \<open>a\<close> for a word) and
  its end.
\<close>

fun lex :: "string \<Rightarrow> char \<times> string" where
  "lex [] = (CHR 0x00, [])"
| "lex (c # s) =
    (if c \<in> set ''|();&<'' then (c, s)
     else if c = CHR ''>'' then
       (if s \<noteq> [] \<and> hd s = CHR ''>'' then (CHR ''+'', tl s) else (c, s))
     else (CHR ''a'', dropWhile word_char (c # s)))"

definition gettoken :: "string \<Rightarrow> char \<times> token \<times> string" where
  "gettoken s = (let q = skip s; (ret, eq) = lex q in (ret, (q, eq), skip eq))"

definition peek :: "string \<Rightarrow> string \<Rightarrow> bool \<times> string" where
  "peek s toks = (let s = skip s in (s \<noteq> [] \<and> hd s \<in> set toks, s))"

lemma skip_Nil [simp]: "skip [] = []"
  by (simp add: skip_def)

lemma suffix_skip: "suffix (skip s) s"
  unfolding skip_def by (metis suffix_dropWhile)

lemma skip_hd: "skip s = c # u \<Longrightarrow> c \<notin> set whitespace"
  unfolding skip_def by (metis hd_dropWhile list.sel(1) list.distinct(1))

lemma lex_end:
  assumes "lex q = (ret, eq)"
  shows "suffix eq q" "q \<noteq> [] \<Longrightarrow> hd q \<notin> set whitespace \<Longrightarrow> length eq < length q" "ret \<noteq> CHR 0x00 \<Longrightarrow> q \<noteq> []"
proof -
  show "ret \<noteq> CHR 0x00 \<Longrightarrow> q \<noteq> []"
    using assms by auto
  show "suffix eq q"
  proof (cases q)
    case (Cons c s)
    show ?thesis
    proof (cases "c \<in> set ''|();&<''")
      case True
      then show ?thesis
        using assms Cons by (auto simp: suffix_ConsI)
    next
      case False
      show ?thesis
        using assms Cons False suffix_dropWhile [of word_char "c # s"]
        by (cases s) (auto simp: suffix_ConsI split: if_splits)
    qed
  qed (use assms in simp)
  show "length eq < length q" if "q \<noteq> []" "hd q \<notin> set whitespace"
  proof (cases q)
    case (Cons c s)
    have "length (dropWhile word_char s) \<le> length s"
      by (rule length_dropWhile_le)
    moreover have "word_char c" if "c \<notin> set ''|();&<''" "c \<noteq> CHR ''>''"
      using that \<open>hd q \<notin> set whitespace\<close> Cons by (auto simp: word_char_def symbols_def)
    ultimately show ?thesis
      using assms Cons by (auto split: if_splits simp del: dropWhile.simps) (auto)
  qed (use that in simp)
qed

lemma suffix_gettoken: "gettoken s = (ret, t, r) \<Longrightarrow> suffix r (snd t) \<and> suffix (snd t) (fst t) \<and> suffix (fst t) s"
  using lex_end(1) [of "skip s"] by (auto simp: gettoken_def Let_def suffix_skip split: prod.splits)

lemma gettoken_shorter:
  assumes "gettoken s = (ret, t, r)"
  shows "length r \<le> length s" "skip s \<noteq> [] \<Longrightarrow> length r < length s"
proof -
  obtain eq where e: "lex (skip s) = (ret, eq)" "r = skip eq"
    using assms by (auto simp: gettoken_def Let_def split: prod.splits)
  have l: "length (skip s) \<le> length s" "length r \<le> length eq" "length eq \<le> length (skip s)"
    using suffix_skip [THEN suffix_length_le] lex_end(1) [OF e(1), THEN suffix_length_le] e(2) by blast+
  then show "length r \<le> length s"
    by linarith
  assume "skip s \<noteq> []"
  then have "length eq < length (skip s)"
    using lex_end(2) [OF e(1)] skip_hd [of s] by (cases "skip s") auto
  then show "length r < length s"
    using l by linarith
qed

lemma gettoken_nul: "gettoken s = (CHR 0x00, t, r) \<longleftrightarrow> skip s = [] \<and> t = ([], []) \<and> r = []"
  by (cases "skip s") (auto simp: gettoken_def Let_def split: prod.splits if_splits)

lemma skip_skip [simp]: "skip (skip s) = skip s"
  by (simp add: skip_def dropWhile_idem)

lemma peek_eq: "peek s toks = (b, r) \<longleftrightarrow> r = skip s \<and> b = (r \<noteq> [] \<and> hd r \<in> set toks)"
  by (auto simp: peek_def Let_def)

lemma length_skip: "length (skip s) \<le> length s"
  using suffix_skip by (rule suffix_length_le)

lemma peek_token: "peek s toks = (True, r) \<Longrightarrow> gettoken r = (ret, t, u) \<Longrightarrow> length u < length s"
  using gettoken_shorter(2) [of r ret t u] length_skip [of s] by (auto simp: peek_eq)

subsection \<open>The parser\<close>

text \<open>The modes are \<open>O_RDONLY\<close> and \<open>O_WRONLY | O_CREATE\<close>.\<close>

definition redir :: "char \<Rightarrow> token \<Rightarrow> token cmd \<Rightarrow> token cmd" where
  "redir tok t cmd = (if tok = CHR ''<'' then REDIR cmd t 0 0
     else if tok = CHR ''>'' \<or> tok = CHR ''+'' then REDIR cmd t 0x201 1 else cmd)"

function parseredirs :: "token cmd \<Rightarrow> string \<Rightarrow> (token cmd \<times> string) outcome" where
  "parseredirs cmd s =
    (let (b, s) = peek s ''<>'' in
     if b then
       let (tok, _, s) = gettoken s; (k, t, s) = gettoken s in
       if k \<noteq> CHR ''a'' then Panic ''missing file for redirection'' else parseredirs (redir tok t cmd) s
     else Done (cmd, s))"
  by pat_completeness auto
termination
proof (relation "measure (\<lambda>(c, s). length s)", goal_cases)
  case (2 cmd s x b s1 y tok r u s2 z k r' t s3)
  then have "length s2 < length s" "length s3 \<le> length s2"
    using peek_token [of s "''<>''" s1 tok u s2] gettoken_shorter(1) [of s2 k t s3] by auto
  then show ?case
    by simp
qed simp

declare parseredirs.simps [simp del]

text \<open>\<open>cmd->argv[argc] = q\<close> changes the node that the redirections already read are wrapped around.\<close>

fun add_arg :: "token \<Rightarrow> token cmd \<Rightarrow> token cmd" where
  "add_arg t (EXEC ts) = EXEC (ts @ [t])"
| "add_arg t (REDIR c f m d) = REDIR (add_arg t c) f m d"
| "add_arg t c = c"

lemma parseredirs_length: "parseredirs cmd s = Done (c, r) \<Longrightarrow> length r \<le> length s"
proof (induction cmd s rule: parseredirs.induct)
  case (1 cmd s)
  obtain b s1 where p: "peek s ''<>'' = (b, s1)" by (cases "peek s ''<>''")
  obtain tok u s2 where g: "gettoken s1 = (tok, u, s2)" by (cases "gettoken s1")
  obtain k t s3 where g2: "gettoken s2 = (k, t, s3)" by (cases "gettoken s2")
  have e: "parseredirs cmd s = (if b then if k \<noteq> CHR ''a'' then Panic ''missing file for redirection''
      else parseredirs (redir tok t cmd) s3 else Done (cmd, s1))"
    by (subst parseredirs.simps) (simp add: p g g2)
  have IH: "length r \<le> length s3" if b "k = CHR ''a''" "parseredirs (redir tok t cmd) s3 = Done (c, r)"
    using 1(1) [OF p [symmetric] refl that(1) g [symmetric] refl refl g2 [symmetric] refl refl] that(2,3) by simp
  show ?case
  proof (cases b)
    case False
    then show ?thesis
      using 1(2) e p length_skip [of s] by (simp add: peek_eq)
  next
    case True
    then have "length r \<le> length s3"
      using IH 1(2) e by (auto split: if_splits)
    moreover have "length s2 < length s"
      using peek_token [OF _ g, of s "''<>''"] p True by simp
    ultimately show ?thesis
      using gettoken_shorter(1) [OF g2] by simp
  qed
qed

function parse_args :: "nat \<Rightarrow> token cmd \<Rightarrow> string \<Rightarrow> (token cmd \<times> string) outcome" where
  "parse_args argc ret s =
    (let (b, s) = peek s ''|)&;'' in
     if b then Done (ret, s)
     else let (tok, t, s) = gettoken s in
       if tok = CHR 0x00 then Done (ret, s)
       else if tok \<noteq> CHR ''a'' then Panic ''syntax''
       else if argc + 1 \<ge> MAXARGS then Panic ''too many args''
       else bindO (parseredirs (add_arg t ret) s) (\<lambda>(ret, s). parse_args (argc + 1) ret s))"
  by pat_completeness auto
termination
proof (relation "measure (\<lambda>(a, c, s). length s)", goal_cases)
  case (2 argc ret s x b s1 y tok z t s2 v ret' s3)
  then have g: "gettoken s1 = (tok, t, s2)" and "peek s ''|)&;'' = (b, s1)"
    and d: "parseredirs (add_arg t ret) s2 = Done (ret', s3)"
    by simp_all
  then have p: "s1 = skip s"
    by (simp add: peek_eq)
  have "tok \<noteq> CHR 0x00"
    using 2 by simp
  then have "skip s1 \<noteq> []"
    using g by (auto simp: gettoken_def Let_def split: prod.splits)
  then have "length s2 < length s1"
    by (rule gettoken_shorter(2) [OF g])
  then show ?case
    using p length_skip [of s] parseredirs_length [OF d] by simp
qed simp

declare parse_args.simps [simp del]

function parse_backs :: "token cmd \<Rightarrow> string \<Rightarrow> token cmd \<times> string" where
  "parse_backs cmd s =
    (let (b, s) = peek s ''&'' in
     if b then let (_, _, s) = gettoken s in parse_backs (BACK cmd) s else (cmd, s))"
  by pat_completeness auto
termination
proof (relation "measure (\<lambda>(c, s). length s)", goal_cases)
  case (2 cmd s x b s1 y tok z t s2)
  then show ?case
    using peek_token [of s "''&''" s1 tok t s2] by auto
qed simp

declare parse_backs.simps [simp del]

text \<open>Sequencing of steps that may run out of fuel (\<open>None\<close>) or panic.\<close>

definition bindP :: "'a outcome option \<Rightarrow> ('a \<Rightarrow> 'b outcome option) \<Rightarrow> 'b outcome option" where
  "bindP m f = (case m of None \<Rightarrow> None | Some (Done a) \<Rightarrow> f a | Some (Panic e) \<Rightarrow> Some (Panic e)
     | Some Sleeps \<Rightarrow> Some Sleeps | Some Undef \<Rightarrow> Some Undef)"

text \<open>The four functions call each other; the fuel is used up by one in each call.\<close>

fun parseline and parsepipe and parseexec and parseblock ::
    "nat \<Rightarrow> string \<Rightarrow> (token cmd \<times> string) outcome option" where
  "parseline 0 s = None"
| "parseline (Suc n) s = bindP (parsepipe n s) (\<lambda>(cmd, s).
     let (cmd, s) = parse_backs cmd s; (b, s) = peek s '';'' in
     if b then let (_, _, s) = gettoken s in
       bindP (parseline n s) (\<lambda>(r, s). Some (Done (LIST cmd r, s)))
     else Some (Done (cmd, s)))"
| "parsepipe 0 s = None"
| "parsepipe (Suc n) s = bindP (parseexec n s) (\<lambda>(cmd, s).
     let (b, s) = peek s ''|'' in
     if b then let (_, _, s) = gettoken s in
       bindP (parsepipe n s) (\<lambda>(r, s). Some (Done (PIPE cmd r, s)))
     else Some (Done (cmd, s)))"
| "parseblock 0 s = None"
| "parseblock (Suc n) s =
    (let (b, s) = peek s ''('' in
     if \<not> b then Some (Panic ''parseblock'')
     else let (_, _, s) = gettoken s in
       bindP (parseline n s) (\<lambda>(cmd, s).
         let (b, s) = peek s '')'' in
         if \<not> b then Some (Panic ''syntax - missing )'')
         else let (_, _, s) = gettoken s in Some (parseredirs cmd s)))"
| "parseexec 0 s = None"
| "parseexec (Suc n) s =
    (let (b, s) = peek s ''('' in
     if b then parseblock n s
     else Some (bindO (parseredirs (EXEC []) s) (\<lambda>(ret, s). parse_args 0 ret s)))"

text \<open>\<open>nulterminate\<close> writes a NUL behind every word of the command line \<open>b\<close>.\<close>

definition cut :: "token \<Rightarrow> string \<Rightarrow> string" where
  "cut t b = b[length b - length (snd t) := CHR 0x00]"

fun nulterminate :: "token cmd \<Rightarrow> string \<Rightarrow> string" where
  "nulterminate (EXEC ts) b = fold cut ts b"
| "nulterminate (REDIR c f m d) b = cut f (nulterminate c b)"
| "nulterminate (PIPE l r) b = nulterminate r (nulterminate l b)"
| "nulterminate (LIST l r) b = nulterminate r (nulterminate l b)"
| "nulterminate (BACK c) b = nulterminate c b"

text \<open>The result is the tree and the command line with the words cut off.\<close>

definition parsecmd :: "string \<Rightarrow> (token cmd \<times> string) outcome option" where
  "parsecmd b = bindP (parseline (4 * length b + 4) b) (\<lambda>(cmd, s).
     let (_, s) = peek s [] in
     if s \<noteq> [] then Some (Panic ''syntax'') else Some (Done (cmd, nulterminate cmd b)))"


subsection \<open>Running commands\<close>

text \<open>
  What a file descriptor stands for: something the shell was started with, a file opened with a mode,
  or an end of a pipe. \<open>runcmd\<close> returns what the process and all those it forks do with these descriptors, in
  the order of the program text: the programs they try to execute, with their arguments, and the calls of
  \<open>wait\<close>, each with the descriptors that are open there. A process that reaches the end exits, which closes all of its
  descriptors. \<open>ok\<close> says which files can be opened. The pipes are numbered from \<open>k\<close>. Forks succeed
  (otherwise the shell panics).
\<close>

datatype handle = Inherited nat | FileH string nat | PipeR nat | PipeW nat

type_synonym fds = "nat \<Rightarrow> handle option"

abbreviation SH_NOFILE :: nat where "SH_NOFILE \<equiv> 16"

definition lowest_fd :: "fds \<Rightarrow> nat option" where
  "lowest_fd m = first_index (\<lambda>i. m i = None) SH_NOFILE"

definition sh_close :: "nat \<Rightarrow> fds \<Rightarrow> fds" where "sh_close i m = m(i := None)"

definition sh_open :: "handle \<Rightarrow> fds \<Rightarrow> (nat \<times> fds) option" where
  "sh_open h m = map_option (\<lambda>i. (i, m(i \<mapsto> h))) (lowest_fd m)"

text \<open>The result of \<open>dup\<close> is not checked.\<close>

definition sh_dup :: "nat \<Rightarrow> fds \<Rightarrow> fds" where
  "sh_dup i m = (case m i of None \<Rightarrow> m | Some h \<Rightarrow> (case sh_open h m of None \<Rightarrow> m | Some (_, m) \<Rightarrow> m))"

definition sh_pipe :: "nat \<Rightarrow> fds \<Rightarrow> ((nat \<times> nat) \<times> fds) option" where
  "sh_pipe k m = (case sh_open (PipeR k) m of None \<Rightarrow> None | Some (p0, m) \<Rightarrow>
     (case sh_open (PipeW k) m of None \<Rightarrow> None | Some (p1, m) \<Rightarrow> Some ((p0, p1), m)))"

datatype sh_event = Runs "string list" fds | WaitsWith fds

fun runcmd :: "(string \<Rightarrow> nat \<Rightarrow> bool) \<Rightarrow> string cmd \<Rightarrow> fds \<Rightarrow> nat \<Rightarrow> sh_event list \<times> nat" where
  "runcmd ok (EXEC argv) m k = (if argv = [] then [] else [Runs argv m], k)"
| "runcmd ok (REDIR c f md fd) m k =
    (if \<not> ok f md then ([], k)
     else case sh_open (FileH f md) (sh_close fd m) of None \<Rightarrow> ([], k) | Some (_, m) \<Rightarrow> runcmd ok c m k)"
| "runcmd ok (LIST l r) m k =
    (let (xs, k) = runcmd ok l m k; (ys, k) = runcmd ok r m k in (xs @ [WaitsWith m] @ ys, k))"
| "runcmd ok (PIPE l r) m k =
    (case sh_pipe k m of None \<Rightarrow> ([], k) | Some ((p0, p1), m) \<Rightarrow>
      let (xs, j) = runcmd ok l (sh_close p1 (sh_close p0 (sh_dup p1 (sh_close 1 m)))) (k + 1);
          (ys, j) = runcmd ok r (sh_close p1 (sh_close p0 (sh_dup p0 (sh_close 0 m)))) j;
          m = sh_close p1 (sh_close p0 m)
      in (xs @ ys @ [WaitsWith m, WaitsWith m], j))"
| "runcmd ok (BACK c) m k = runcmd ok c m k"

text \<open>\<open>getcmd\<close>, and the loop of \<open>main\<close> over what standard input still holds: a \<open>cd\<close> is done by the shell itself.\<close>

datatype sh_action = Chdir string | Run string

definition getcmd :: "string \<Rightarrow> string option \<times> string" where
  "getcmd input = (let (buf, rest) = gets 100 input in (if buf = [] then None else Some buf, rest))"

lemma gets_loop_split: "gets_loop i mx acc input = (b, r) \<Longrightarrow> b @ r = acc @ input"
  by (induction i mx acc input rule: gets_loop.induct) (auto split: if_splits)

function sh_main :: "string \<Rightarrow> sh_action list" where
  "sh_main input = (case getcmd input of
     (None, _) \<Rightarrow> []
   | (Some buf, rest) \<Rightarrow>
       (if take 3 buf = ''cd '' then Chdir (drop 3 (butlast buf)) else Run buf) # sh_main rest)"
  by pat_completeness auto
termination
proof (relation "measure length", goal_cases)
  case (2 input x y buf)
  then have "buf @ y = input" "buf \<noteq> []"
    using gets_loop_split [of 0 100 "[]" input] by (auto simp: getcmd_def gets_def split: prod.splits if_splits)
  then show ?case
    by (auto simp: neq_Nil_conv)
qed simp

end
