(* ===== verification/ShellSpec.thy ===== *)
theory ShellSpec
  imports Shell
begin

text \<open>
  What the shell guarantees: the parser ends, reads back the text of every command, cuts the words off
  in place, and \<open>runcmd\<close> connects the programs the way the tree says.
\<close>

subsection \<open>The parser always answers\<close>

text \<open>A parser that stops at a rest of its input or reports a syntax error.\<close>

definition answers :: "string \<Rightarrow> ('a \<times> string) outcome \<Rightarrow> bool" where
  "answers s r \<longleftrightarrow> (\<exists>c t. r = Done (c, t) \<and> length t \<le> length s) \<or> (\<exists>e. r = Panic e)"

lemma answers_Done [simp]: "answers s (Done (c, t)) \<longleftrightarrow> length t \<le> length s"
  by (auto simp: answers_def)

lemma answers_Panic [simp]: "answers s (Panic e)"
  by (simp add: answers_def)

lemma answers_mono: "answers s r \<Longrightarrow> length s \<le> length t \<Longrightarrow> answers t r"
  by (auto simp: answers_def intro: order_trans)

lemma answers_bindO:
  "answers s m \<Longrightarrow> (\<And>c t. m = Done (c, t) \<Longrightarrow> length t \<le> length s \<Longrightarrow> answers s (f (c, t))) \<Longrightarrow> answers s (bindO m f)"
  by (auto simp: answers_def)

lemma answersE: "answers s r \<Longrightarrow> (\<And>c t. r = Done (c, t) \<Longrightarrow> length t \<le> length s \<Longrightarrow> P) \<Longrightarrow> (\<And>e. r = Panic e \<Longrightarrow> P) \<Longrightarrow> P"
  by (auto simp: answers_def)

lemma parseredirs_unfold:
  assumes "peek s ''<>'' = (b, s1)" "gettoken s1 = (tok, u, s2)" "gettoken s2 = (k, t, s3)"
  shows "parseredirs cmd s = (if b then if k \<noteq> CHR ''a'' then Panic ''missing file for redirection''
      else parseredirs (redir tok t cmd) s3 else Done (cmd, s1))"
  by (subst parseredirs.simps) (simp add: assms)

lemma parseredirs_answers: "answers s (parseredirs cmd s)"
proof (induction "length s" arbitrary: cmd s rule: less_induct)
  case less
  obtain b s1 where p: "peek s ''<>'' = (b, s1)" by (cases "peek s ''<>''")
  obtain tok u s2 where g: "gettoken s1 = (tok, u, s2)" by (cases "gettoken s1")
  obtain k t s3 where g2: "gettoken s2 = (k, t, s3)" by (cases "gettoken s2")
  have "length s3 < length s" if b
    using that peek_token [OF _ g, of s "''<>''"] p gettoken_shorter(1) [OF g2] by simp
  then show ?case
    using answers_mono [OF less(1), of s3 s] p length_skip [of s]
    by (auto simp: parseredirs_unfold [OF p g g2] peek_eq)
qed

lemma parse_args_unfold:
  assumes "gettoken (skip s) = (tok, t, s2)"
  shows "parse_args argc ret s =
    (if skip s \<noteq> [] \<and> hd (skip s) \<in> set ''|)&;'' then Done (ret, skip s)
     else if tok = CHR 0x00 then Done (ret, s2)
     else if tok \<noteq> CHR ''a'' then Panic ''syntax''
     else if argc + 1 \<ge> MAXARGS then Panic ''too many args''
     else bindO (parseredirs (add_arg t ret) s2) (\<lambda>(ret, s). parse_args (argc + 1) ret s))"
  by (subst parse_args.simps) (simp only: assms peek_def Let_def prod.case)

lemma parse_args_answers: "answers s (parse_args argc ret s)"
proof (induction "length s" arbitrary: argc ret s rule: less_induct)
  case less
  obtain tok t s2 where g: "gettoken (skip s) = (tok, t, s2)" by (cases "gettoken (skip s)")
  show ?case
  proof (cases "tok = CHR 0x00")
    case True
    then show ?thesis
      using length_skip [of s] gettoken_shorter(1) [OF g] by (simp add: parse_args_unfold [OF g])
  next
    case False
    then have "skip s \<noteq> []"
      using g by (auto simp: gettoken_def Let_def split: prod.splits)
    then have l: "length s2 < length s"
      using gettoken_shorter(2) [OF g] length_skip [of s] by simp
    have "answers s (bindO (parseredirs (add_arg t ret) s2) (\<lambda>(ret, s). parse_args (argc + 1) ret s))"
      using l answers_mono [OF less(1), of _ s] answers_mono [OF parseredirs_answers, of s2 s]
      by (intro answers_bindO) (auto dest!: parseredirs_length)
    then show ?thesis
      using False length_skip [of s] by (simp add: parse_args_unfold [OF g])
  qed
qed

lemma parse_backs_unfold:
  assumes "gettoken (skip s) = (tok, t, s2)"
  shows "parse_backs cmd s = (if skip s \<noteq> [] \<and> hd (skip s) = CHR ''&'' then parse_backs (BACK cmd) s2 else (cmd, skip s))"
  by (subst parse_backs.simps) (simp add: assms peek_def Let_def)

lemma parse_backs_length: "parse_backs cmd s = (c, r) \<Longrightarrow> length r \<le> length s"
proof (induction "length s" arbitrary: cmd s rule: less_induct)
  case less
  obtain tok t s2 where g: "gettoken (skip s) = (tok, t, s2)" by (cases "gettoken (skip s)")
  show ?case
  proof (cases "skip s \<noteq> [] \<and> hd (skip s) = CHR ''&''")
    case True
    then have "length s2 < length s"
      using gettoken_shorter(2) [OF g] length_skip [of s] by simp
    then show ?thesis
      using less True by (fastforce simp: parse_backs_unfold [OF g])
  next
    case False
    then show ?thesis
      using less(2) length_skip [of s] by (auto simp: parse_backs_unfold [OF g])
  qed
qed

definition replies :: "string \<Rightarrow> ('a \<times> string) outcome option \<Rightarrow> bool" where
  "replies s r \<longleftrightarrow> (\<exists>x. r = Some x \<and> answers s x)"

lemma replies_bindP:
  "replies t m \<Longrightarrow> (\<And>c u. m = Some (Done (c, u)) \<Longrightarrow> length u \<le> length t \<Longrightarrow> replies s (f (c, u))) \<Longrightarrow> replies s (bindP m f)"
  by (auto simp: replies_def answers_def bindP_def)

lemma replies_simps [simp]: "replies s (Some (Done (c, t))) \<longleftrightarrow> length t \<le> length s" "replies s (Some (Panic e))"
  by (auto simp: replies_def)

lemma replies_mono: "replies s r \<Longrightarrow> length s \<le> length t \<Longrightarrow> replies t r"
  by (auto simp: replies_def intro: answers_mono)

lemma parser_replies:
  "(4 * length s + 4 \<le> n \<longrightarrow> replies s (parseline n s)) \<and> (4 * length s + 3 \<le> n \<longrightarrow> replies s (parsepipe n s))
   \<and> (4 * length s + 2 \<le> n \<longrightarrow> replies s (parseexec n s)) \<and> (4 * length s + 1 \<le> n \<longrightarrow> replies s (parseblock n s))"
proof (induction n arbitrary: s)
  case (Suc n)
  note line = Suc [THEN conjunct1, rule_format]
  note pip = Suc [THEN conjunct2, THEN conjunct1, rule_format]
  note exe = Suc [THEN conjunct2, THEN conjunct2, THEN conjunct1, rule_format]
  note blk = Suc [THEN conjunct2, THEN conjunct2, THEN conjunct2, rule_format]
  have "replies s (parseline (Suc n) s)" if n: "4 * length s + 4 \<le> Suc n"
    unfolding parseline.simps
  proof (rule replies_bindP)
    show "replies s (parsepipe n s)"
      using n by (intro pip) simp
    fix c :: "token cmd" and u :: string
    assume u: "length u \<le> length s"
    obtain c2 u2 where b: "parse_backs c u = (c2, u2)" by (cases "parse_backs c u")
    obtain x t u3 where g: "gettoken (skip u2) = (x, t, u3)" by (cases "gettoken (skip u2)")
    have l: "length u2 \<le> length s" "skip u2 \<noteq> [] \<Longrightarrow> length u3 < length s"
      using parse_backs_length [OF b] u gettoken_shorter(2) [OF g] length_skip [of u2] by simp_all
    have "replies s (bindP (parseline n u3) (\<lambda>(r, s). Some (Done (LIST c2 r, s))))" if "skip u2 \<noteq> []"
      using n l(2) [OF that] by (intro replies_bindP [OF line]) simp_all
    then show "replies s (case (c, u) of (cmd, s) \<Rightarrow> let (cmd, s) = parse_backs cmd s; (b, s) = peek s '';'' in
     if b then let (_, _, s) = gettoken s in bindP (parseline n s) (\<lambda>(r, s). Some (Done (LIST cmd r, s)))
     else Some (Done (cmd, s)))"
      using b g l(1) length_skip [of u2] by (simp add: peek_def Let_def)
  qed
  moreover have "replies s (parsepipe (Suc n) s)" if n: "4 * length s + 3 \<le> Suc n"
    unfolding parsepipe.simps
  proof (rule replies_bindP)
    show "replies s (parseexec n s)"
      using n by (intro exe) simp
    fix c :: "token cmd" and u :: string
    assume u: "length u \<le> length s"
    obtain x t u3 where g: "gettoken (skip u) = (x, t, u3)" by (cases "gettoken (skip u)")
    have l: "skip u \<noteq> [] \<Longrightarrow> length u3 < length s"
      using u gettoken_shorter(2) [OF g] length_skip [of u] by simp
    have "replies s (bindP (parsepipe n u3) (\<lambda>(r, s). Some (Done (PIPE c r, s))))" if "skip u \<noteq> []"
      using n l [OF that] by (intro replies_bindP [OF pip]) simp_all
    then show "replies s (case (c, u) of (cmd, s) \<Rightarrow> let (b, s) = peek s ''|'' in
     if b then let (_, _, s) = gettoken s in bindP (parsepipe n s) (\<lambda>(r, s). Some (Done (PIPE cmd r, s)))
     else Some (Done (cmd, s)))"
      using g u length_skip [of u] by (simp add: peek_def Let_def)
  qed
  moreover have "replies s (parseexec (Suc n) s)" if n: "4 * length s + 2 \<le> Suc n"
  proof -
    have "replies s (parseblock n (skip s))"
      using n length_skip [of s] by (intro replies_mono [OF blk]) simp_all
    moreover have "answers s (bindO (parseredirs (EXEC []) (skip s)) (\<lambda>(ret, s). parse_args 0 ret s))"
      using length_skip [of s]
      by (intro answers_bindO) (auto intro: answers_mono [OF parseredirs_answers] answers_mono [OF parse_args_answers])
    ultimately show ?thesis
      by (simp add: peek_def Let_def replies_def)
  qed
  moreover have "replies s (parseblock (Suc n) s)" if n: "4 * length s + 1 \<le> Suc n"
  proof -
    obtain x t u where g: "gettoken (skip s) = (x, t, u)" by (cases "gettoken (skip s)")
    have l: "skip s \<noteq> [] \<Longrightarrow> length u < length s"
      using gettoken_shorter(2) [OF g] length_skip [of s] by simp
    have "replies s (bindP (parseline n u) (\<lambda>(cmd, s).
         let (b, s) = peek s '')'' in
         if \<not> b then Some (Panic ''syntax - missing )'')
         else let (_, _, s) = gettoken s in Some (parseredirs cmd s)))" if ne: "skip s \<noteq> []"
    proof (rule replies_bindP)
      show "replies u (parseline n u)"
        using n l [OF ne] by (intro line) simp
      fix c :: "token cmd" and v :: string
      assume v: "length v \<le> length u"
      obtain x t w where w: "gettoken (skip v) = (x, t, w)" by (cases "gettoken (skip v)")
      have "length w \<le> length s"
        using gettoken_shorter(1) [OF w] v l [OF ne] length_skip [of v] by simp
      then have "replies s (Some (parseredirs c w))"
        using answers_mono [OF parseredirs_answers] by (simp add: replies_def)
      then show "replies s (case (c, v) of (cmd, s) \<Rightarrow>
         let (b, s) = peek s '')'' in
         if \<not> b then Some (Panic ''syntax - missing )'')
         else let (_, _, s) = gettoken s in Some (parseredirs cmd s))"
        using w by (simp add: peek_def Let_def)
    qed
    then show ?thesis
      using g by (simp add: peek_def Let_def)
  qed
  ultimately show ?case
    by blast
qed simp

subsection \<open>Wiring\<close>

text \<open>
  What the tree means: programs with their input and output, and shells that wait, which hold the input and
  output they were given and no end of the pipe they have set up.
\<close>

type_synonym wired = "string list option \<times> handle \<times> handle"

fun wire :: "(string \<Rightarrow> nat \<Rightarrow> bool) \<Rightarrow> string cmd \<Rightarrow> handle \<Rightarrow> handle \<Rightarrow> nat \<Rightarrow> wired list \<times> nat" where
  "wire ok (EXEC argv) i out k = (if argv = [] then [] else [(Some argv, i, out)], k)"
| "wire ok (REDIR c f md fd) i out k =
    (if \<not> ok f md then ([], k) else if fd = 0 then wire ok c (FileH f md) out k else wire ok c i (FileH f md) k)"
| "wire ok (LIST l r) i out k =
    (let (xs, k) = wire ok l i out k; (ys, k) = wire ok r i out k in (xs @ [(None, i, out)] @ ys, k))"
| "wire ok (PIPE l r) i out k =
    (let (xs, j) = wire ok l i (PipeW k) (k + 1); (ys, j) = wire ok r (PipeR k) out j
     in (xs @ ys @ [(None, i, out), (None, i, out)], j))"
| "wire ok (BACK c) i out k = wire ok c i out k"

fun redirs_ok :: "'a cmd \<Rightarrow> bool" where
  "redirs_ok (EXEC ts) = True"
| "redirs_ok (REDIR c f md fd) = (redirs_ok c \<and> (fd = 0 \<and> md = 0 \<or> fd = 1 \<and> md = 0x201))"
| "redirs_ok (LIST l r) = (redirs_ok l \<and> redirs_ok r)"
| "redirs_ok (PIPE l r) = (redirs_ok l \<and> redirs_ok r)"
| "redirs_ok (BACK c) = redirs_ok c"

definition std :: "handle \<Rightarrow> handle \<Rightarrow> handle \<Rightarrow> fds" where
  "std i out e = [0 \<mapsto> i, 1 \<mapsto> out, 2 \<mapsto> e]"

lemma lowest_fdI: "i < SH_NOFILE \<Longrightarrow> m i = None \<Longrightarrow> (\<And>j. j < i \<Longrightarrow> m j \<noteq> None) \<Longrightarrow> lowest_fd m = Some i"
  unfolding lowest_fd_def by (rule first_index_eqI) auto

lemma lowest_std:
  "lowest_fd ((std i out e)(0 := None)) = Some 0" "lowest_fd ((std i out e)(1 := None)) = Some 1"
  "lowest_fd (std i out e) = Some 3" "lowest_fd ((std i out e)(3 \<mapsto> x)) = Some 4"
  "lowest_fd ((std i out e)(3 \<mapsto> x, 4 \<mapsto> y, 0 := None)) = Some 0"
  "lowest_fd ((std i out e)(3 \<mapsto> x, 4 \<mapsto> y, 1 := None)) = Some 1"
  by (rule lowest_fdI; auto simp: std_def less_Suc_eq numeral_eq_Suc)+

lemma std_redir:
  "sh_open h (sh_close 0 (std i out e)) = Some (0, std h out e)"
  "sh_open h (sh_close 1 (std i out e)) = Some (1, std i h e)"
  unfolding sh_open_def sh_close_def lowest_std by (auto simp: std_def fun_eq_iff)

lemma std_pipe:
  "sh_pipe k (std i out e) = Some ((3, 4), (std i out e)(3 \<mapsto> PipeR k, 4 \<mapsto> PipeW k))"
  by (simp add: sh_pipe_def sh_open_def lowest_std)

lemma std_left:
  "sh_close 4 (sh_close 3 (sh_dup 4 (sh_close 1 ((std i out e)(3 \<mapsto> PipeR k, 4 \<mapsto> PipeW k))))) = std i (PipeW k) e"
  by (simp add: sh_dup_def sh_open_def sh_close_def lowest_std lowest_std [unfolded One_nat_def]) (auto simp: std_def fun_eq_iff)

lemma std_parent:
  "sh_close 4 (sh_close 3 ((std i out e)(3 \<mapsto> PipeR k, 4 \<mapsto> PipeW k))) = std i out e"
  by (auto simp: sh_close_def std_def fun_eq_iff)

lemma std_right:
  "sh_close 4 (sh_close 3 (sh_dup 3 (sh_close 0 ((std i out e)(3 \<mapsto> PipeR k, 4 \<mapsto> PipeW k))))) = std (PipeR k) out e"
  by (simp add: sh_dup_def sh_open_def sh_close_def lowest_std lowest_std [unfolded One_nat_def]) (auto simp: std_def fun_eq_iff)

text \<open>The event of a wired program or shell.\<close>

definition sh_event :: "handle \<Rightarrow> wired \<Rightarrow> sh_event" where
  "sh_event e x = (case x of (Some a, i, out) \<Rightarrow> Runs a (std i out e) | (None, i, out) \<Rightarrow> WaitsWith (std i out e))"

lemma sh_event_simps [simp]: "sh_event e (Some a, i, out) = Runs a (std i out e)" "sh_event e (None, i, out) = WaitsWith (std i out e)"
  by (simp_all add: sh_event_def)

lemma runcmd_wires:
  "redirs_ok c \<Longrightarrow> runcmd ok c (std i out e) k = (map (sh_event e) (fst (wire ok c i out k)), snd (wire ok c i out k))"
proof (induction c arbitrary: i out k)
  case (REDIR c f md fd)
  then show ?case
    by (auto simp: std_redir std_redir [unfolded One_nat_def])
next
  case (PIPE l r)
  then show ?case
    by (simp add: std_pipe std_left std_left [unfolded One_nat_def] std_right std_parent Let_def split_beta)
qed (auto simp: Let_def split_beta)

subsection \<open>Printing and parsing\<close>

text \<open>
  The text of a tree: parentheses where a command is used at a place for a simpler one. Level 0 is a
  list, 1 a command in the background, 2 a pipeline, 3 a single command.
\<close>

definition show_redir :: "string \<times> nat \<Rightarrow> string" where
  "show_redir r = CHR '' '' # (if snd r = 0 then CHR ''<'' else CHR ''>'') # fst r"

abbreviation show_redirs :: "(string \<times> nat) list \<Rightarrow> string" where
  "show_redirs rs \<equiv> concat (map show_redir rs)"

definition show_words :: "string list \<Rightarrow> string" where
  "show_words ws = concat (map (\<lambda>w. CHR '' '' # w) ws)"

definition paren :: "bool \<Rightarrow> string \<Rightarrow> string" where
  "paren b t = (if b then ''('' @ t @ '')'' else t)"

fun show_at :: "nat \<Rightarrow> string cmd \<Rightarrow> string" where
  "show_at lv (EXEC argv) = show_words argv"
| "show_at lv (REDIR c f md fd) = show_at 3 c @ show_redir (f, fd)"
| "show_at lv (PIPE l r) = paren (2 < lv) (show_at 3 l @ ''|'' @ show_at 2 r)"
| "show_at lv (BACK c) = paren (1 < lv) (show_at 1 c @ ''&'')"
| "show_at lv (LIST l r) = paren (0 < lv) (show_at 1 l @ '';'' @ show_at 0 r)"

definition word_ok :: "string \<Rightarrow> bool" where
  "word_ok w \<longleftrightarrow> w \<noteq> [] \<and> (\<forall>c\<in>set w. word_char c)"

fun cmd_ok :: "string cmd \<Rightarrow> bool" where
  "cmd_ok (EXEC ts) = ((\<forall>w\<in>set ts. word_ok w) \<and> length ts < MAXARGS)"
| "cmd_ok (REDIR c f md fd) = (cmd_ok c \<and> word_ok f \<and> (fd = 0 \<and> md = 0 \<or> fd = 1 \<and> md = 0x201))"
| "cmd_ok (LIST l r) = (cmd_ok l \<and> cmd_ok r)"
| "cmd_ok (PIPE l r) = (cmd_ok l \<and> cmd_ok r)"
| "cmd_ok (BACK c) = cmd_ok c"

definition follow :: "string \<Rightarrow> string \<Rightarrow> bool" where
  "follow F rest \<longleftrightarrow> skip rest = [] \<or> hd (skip rest) \<in> set F"

definition sep :: "string \<Rightarrow> bool" where
  "sep rest \<longleftrightarrow> rest = [] \<or> \<not> word_char (hd rest)"

abbreviation text_of :: "token cmd \<Rightarrow> string cmd" where "text_of \<equiv> map_cmd token_text"

lemma word_char_symbols: "word_char c \<Longrightarrow> c \<notin> set ''<|>&;()''"
  by (auto simp: word_char_def symbols_def)

lemma skip_Cons: "skip (c # s) = (if c \<in> set whitespace then skip s else c # s)"
  by (simp add: skip_def)

lemma skip_space [simp]: "skip (CHR '' '' # s) = skip s"
  by (simp add: skip_Cons whitespace_def)

lemma skip_symbol: "c \<in> set symbols \<Longrightarrow> skip (c # s) = c # s"
  by (auto simp: skip_Cons whitespace_def symbols_def)

lemma follow_sep:
  assumes "follow F rest" "set F \<subseteq> set symbols"
  shows "sep rest"
proof (cases rest)
  case (Cons c s)
  show ?thesis
  proof (cases "c \<in> set whitespace")
    case True
    then show ?thesis by (simp add: sep_def Cons word_char_def)
  next
    case False
    then have "skip rest = c # s" by (simp add: Cons skip_Cons)
    then show ?thesis
      using assms by (auto simp: sep_def follow_def Cons word_char_def)
  qed
qed (simp add: sep_def)

lemma skip_word: "word_ok w \<Longrightarrow> skip (w @ rest) = w @ rest"
  by (cases w) (auto simp: word_ok_def word_char_def skip_Cons)

lemma get_word:
  assumes "word_ok w" "sep rest"
  shows "gettoken (w @ rest) = (CHR ''a'', (w @ rest, rest), skip rest)"
proof -
  obtain c u where w: "w = c # u" and c: "word_char c"
    using assms(1) by (cases w) (auto simp: word_ok_def)
  have d: "dropWhile word_char (w @ rest) = rest"
    using assms by (auto simp: word_ok_def sep_def dropWhile_append2 dropWhile_eq_self_iff)
  have "lex (w @ rest) = (CHR ''a'', rest)"
    using word_char_symbols [OF c] d by (auto simp: w)
  then show ?thesis
    by (simp add: gettoken_def skip_word [OF assms(1)])
qed

lemma get_symbol:
  assumes "c \<in> set ''|();&<''"
  shows "gettoken (c # s) = (c, (c # s, s), skip s)"
proof -
  have "skip (c # s) = c # s"
    using assms by (intro skip_symbol) (auto simp: symbols_def)
  then show ?thesis
    using assms by (simp add: gettoken_def)
qed

lemma token_text_append [simp]: "token_text (w @ rest, rest) = w"
  by (simp add: token_text_def)

fun wrap :: "'a cmd \<Rightarrow> ('a \<times> nat) list \<Rightarrow> 'a cmd" where
  "wrap c [] = c"
| "wrap c ((f, fd) # rs) = wrap (REDIR c f (if fd = 0 then 0 else 0x201) fd) rs"

definition redirs_fit :: "(string \<times> nat) list \<Rightarrow> bool" where
  "redirs_fit rs \<longleftrightarrow> (\<forall>(f, fd)\<in>set rs. word_ok f \<and> fd \<le> 1)"

lemma parseredirs_skip [simp]: "parseredirs c (skip s) = parseredirs c s"
  by (subst (1 2) parseredirs.simps) (simp add: peek_def)

lemma parse_args_skip [simp]: "parse_args a c (skip s) = parse_args a c s"
  by (subst (1 2) parse_args.simps) (simp add: peek_def)

lemma parse_backs_skip [simp]: "parse_backs c (skip s) = parse_backs c s"
  by (subst (1 2) parse_backs.simps) (simp add: peek_def)

lemma parseredirs_stop:
  assumes "skip s = [] \<or> hd (skip s) \<notin> set ''<>''"
  shows "parseredirs c s = Done (c, skip s)"
  using assms by (subst parseredirs.simps) (auto simp: peek_def)

lemma sep_redirs: "redirs_fit rs \<Longrightarrow> sep rest \<Longrightarrow> sep (show_redirs rs @ rest)"
  by (cases rs) (simp_all add: sep_def show_redir_def word_char_def whitespace_def)

lemma parseredirs_reads:
  assumes "redirs_fit rs" "follow ''|)&;'' rest"
  shows "\<exists>ts. parseredirs c (show_redirs rs @ rest) = Done (wrap c ts, skip rest)
    \<and> map (\<lambda>(t, fd). (token_text t, fd)) ts = rs"
  using assms(1)
proof (induction rs arbitrary: c)
  case Nil
  have "parseredirs c rest = Done (c, skip rest)"
    using assms(2) by (intro parseredirs_stop) (auto simp: follow_def)
  then show ?case
    by (intro exI [of _ "[]"]) simp
next
  case (Cons r rs)
  obtain f fd where r: "r = (f, fd)" by (cases r)
  have f: "word_ok f" "fd \<le> 1" "redirs_fit rs"
    using Cons.prems by (simp_all add: r redirs_fit_def)
  have fd: "fd = 0 \<or> fd = 1"
    using f(2) by auto
  define s where "s = show_redirs rs @ rest"
  have "sep rest"
    using assms(2) by (rule follow_sep) (auto simp: symbols_def)
  then have s: "sep s"
    unfolding s_def by (rule sep_redirs [OF f(3)])
  define k where "k = (if fd = 0 then CHR ''<'' else CHR ''>'')"
  have k: "skip (show_redirs (r # rs) @ rest) = k # f @ s"
    by (auto simp: show_redir_def k_def r s_def skip_symbol symbols_def)
  have nf: "f @ s \<noteq> []" "hd (f @ s) \<noteq> CHR ''>''"
    using f(1) word_char_symbols by (cases f; auto simp: word_ok_def)+
  have g: "gettoken (k # f @ s) = (k, (k # f @ s, f @ s), f @ s)"
    using nf skip_word [OF f(1), of s] by (auto simp: k_def gettoken_def skip_symbol symbols_def)
  obtain ts where ts: "parseredirs (redir k (f @ s, s) c) s = Done (wrap (redir k (f @ s, s) c) ts, skip rest)"
    "map (\<lambda>(t, fd). (token_text t, fd)) ts = rs"
    using Cons.IH [OF f(3)] unfolding s_def by blast
  have "parseredirs c (show_redirs (r # rs) @ rest) = parseredirs (redir k (f @ s, s) c) s"
  proof -
    have "peek (show_redirs (r # rs) @ rest) ''<>'' = (True, k # f @ s)"
      unfolding peek_eq k by (simp add: k_def)
    from parseredirs_unfold [OF this g get_word [OF f(1) s]] show ?thesis
      by simp
  qed
  also have "redir k (f @ s, s) c = wrap c [((f @ s, s), fd)]"
    using f(2) by (auto simp: redir_def k_def)
  finally show ?case
    using ts fd by (intro exI [of _ "((f @ s, s), fd) # ts"]) (auto simp: redir_def k_def r)
qed

lemma text_of_wrap: "text_of (wrap c ts) = wrap (text_of c) (map (\<lambda>(t, fd). (token_text t, fd)) ts)"
  by (induction c ts rule: wrap.induct) simp_all


definition exec_ok :: "string \<Rightarrow> string cmd \<Rightarrow> bool" where
  "exec_ok t c \<longleftrightarrow> (\<forall>n rs rest. follow ''|)&;'' rest \<longrightarrow> redirs_fit rs \<longrightarrow> 4 * length (t @ show_redirs rs @ rest) + 2 \<le> n
     \<longrightarrow> (\<exists>c'. parseexec n (t @ show_redirs rs @ rest) = Some (Done (c', skip rest)) \<and> text_of c' = wrap c rs))"

definition pipe_ok :: "string \<Rightarrow> string cmd \<Rightarrow> bool" where
  "pipe_ok t c \<longleftrightarrow> (\<forall>n rest. follow '')&;'' rest \<longrightarrow> 4 * length (t @ rest) + 3 \<le> n
     \<longrightarrow> (\<exists>c'. parsepipe n (t @ rest) = Some (Done (c', skip rest)) \<and> text_of c' = c))"

definition back_ok :: "string \<Rightarrow> string cmd \<Rightarrow> bool" where
  "back_ok t c \<longleftrightarrow> (\<forall>n rest. follow '')&;'' rest \<longrightarrow> 4 * length (t @ rest) + 3 \<le> n
     \<longrightarrow> (\<exists>c1 u c'. parsepipe n (t @ rest) = Some (Done (c1, u)) \<and> parse_backs c1 u = parse_backs c' (skip rest)
          \<and> text_of c' = c))"

definition line_ok :: "string \<Rightarrow> string cmd \<Rightarrow> bool" where
  "line_ok t c \<longleftrightarrow> (\<forall>n rest. follow '')'' rest \<longrightarrow> 4 * length (t @ rest) + 4 \<le> n
     \<longrightarrow> (\<exists>c'. parseline n (t @ rest) = Some (Done (c', skip rest)) \<and> text_of c' = c))"

lemma bindP_Done [simp]: "bindP (Some (Done a)) f = f a"
  by (simp add: bindP_def)

lemma parse_backs_stop:
  assumes "skip s = [] \<or> hd (skip s) \<noteq> CHR ''&''"
  shows "parse_backs c s = (c, skip s)"
  using assms by (subst parse_backs.simps) (auto simp: peek_def)

lemma peek_no: "skip s = [] \<or> hd (skip s) \<notin> set toks \<Longrightarrow> peek s toks = (False, skip s)"
  by (auto simp: peek_eq)

lemma exec_pipe:
  assumes "exec_ok t c"
  shows "pipe_ok t c"
  unfolding pipe_ok_def
proof (intro allI impI)
  fix n rest
  assume f: "follow '')&;'' rest" and n: "4 * length (t @ rest) + 3 \<le> n"
  then obtain m where m: "n = Suc m" "4 * length (t @ rest) + 2 \<le> m"
    by (cases n) auto
  have "follow ''|)&;'' rest"
    using f by (auto simp: follow_def)
  then obtain c' where "parseexec m (t @ rest) = Some (Done (c', skip rest))" "text_of c' = c"
    using assms m(2) unfolding exec_ok_def by (metis append_Nil concat.simps(1) empty_iff list.map(1) list.set(1) redirs_fit_def wrap.simps(1))
  moreover have "peek (skip rest) ''|'' = (False, skip rest)"
    using f peek_no [of "skip rest" "''|''"] by (auto simp: follow_def)
  ultimately show "\<exists>c'. parsepipe n (t @ rest) = Some (Done (c', skip rest)) \<and> text_of c' = c"
    by (simp add: m(1))
qed

lemma pipe_back: "pipe_ok t c \<Longrightarrow> back_ok t c"
  unfolding pipe_ok_def back_ok_def by blast

lemma back_line:
  assumes "back_ok t c"
  shows "line_ok t c"
  unfolding line_ok_def
proof (intro allI impI)
  fix n rest
  assume f: "follow '')'' rest" and n: "4 * length (t @ rest) + 4 \<le> n"
  then obtain m where m: "n = Suc m" "4 * length (t @ rest) + 3 \<le> m"
    by (cases n) auto
  have "follow '')&;'' rest"
    using f by (auto simp: follow_def)
  then obtain c1 u c' where c': "parsepipe m (t @ rest) = Some (Done (c1, u))" "parse_backs c1 u = parse_backs c' (skip rest)"
    "text_of c' = c"
    using assms m(2) unfolding back_ok_def by blast
  have "parse_backs c' (skip rest) = (c', skip rest)"
    using f parse_backs_stop [of "skip rest" c'] by (auto simp: follow_def)
  moreover have "peek (skip rest) '';'' = (False, skip rest)"
    using f peek_no [of "skip rest" "'';''"] by (auto simp: follow_def)
  ultimately show "\<exists>c'. parseline n (t @ rest) = Some (Done (c', skip rest)) \<and> text_of c' = c"
    using c' by (simp add: m(1))
qed

lemma follow_symbol: "c \<in> set F \<Longrightarrow> set F \<subseteq> set symbols \<Longrightarrow> follow F (c # s)"
  by (auto simp: follow_def skip_symbol)

lemma peek_skip [simp]: "peek (skip s) toks = peek s toks"
  by (simp add: peek_def)

lemma parseexec_skip [simp]: "parseexec n (skip s) = parseexec n s"
  by (cases n) simp_all

lemma parsepipe_skip [simp]: "parsepipe n (skip s) = parsepipe n s"
  by (cases n) simp_all

lemma parseline_skip [simp]: "parseline n (skip s) = parseline n s"
  by (cases n) simp_all

text \<open>A command in parentheses.\<close>

lemma line_block:
  assumes "line_ok t c"
  shows "exec_ok (paren True t) c"
  unfolding exec_ok_def
proof (intro allI impI)
  fix n rs rest
  assume f: "follow ''|)&;'' rest" and rs: "redirs_fit rs" and n: "4 * length (paren True t @ show_redirs rs @ rest) + 2 \<le> n"
  define s where "s = show_redirs rs @ rest"
  have e: "paren True t @ show_redirs rs @ rest = CHR ''('' # t @ CHR '')'' # s"
    by (simp add: paren_def s_def)
  have sk: "skip (CHR ''('' # v) = CHR ''('' # v" "skip (CHR '')'' # v) = CHR '')'' # v" for v
    by (simp_all add: skip_symbol symbols_def)
  have g: "gettoken (CHR ''('' # v) = (CHR ''('', (CHR ''('' # v, v), skip v)" for v
    by (rule get_symbol) simp
  have g2: "gettoken (CHR '')'' # v) = (CHR '')'', (CHR '')'' # v, v), skip v)" for v
    by (rule get_symbol) simp
  obtain m where m: "n = Suc (Suc m)" "4 * length (t @ CHR '')'' # s) + 4 \<le> m"
    using n unfolding e by (cases n; cases "n - 1") auto
  obtain c' where c': "parseline m (t @ CHR '')'' # s) = Some (Done (c', CHR '')'' # s))" "text_of c' = c"
    using assms [unfolded line_ok_def, rule_format, OF _ m(2)] follow_symbol [of "CHR '')''" "'')''" s] sk(2) [of s]
    by (auto simp: symbols_def)
  obtain ts where ts: "parseredirs c' s = Done (wrap c' ts, skip rest)" "map (\<lambda>(t, fd). (token_text t, fd)) ts = rs"
    using parseredirs_reads [OF rs f] unfolding s_def by blast
  have "parseexec n (paren True t @ show_redirs rs @ rest) = Some (Done (wrap c' ts, skip rest))"
    unfolding e m(1) using c'(1) ts(1) by (simp add: peek_def sk g g2)
  then show "\<exists>c'. parseexec n (paren True t @ show_redirs rs @ rest) = Some (Done (c', skip rest)) \<and> text_of c' = wrap c rs"
    using ts(2) c'(2) by (auto simp: text_of_wrap)
qed


text \<open>Words, then redirections.\<close>

lemma show_words_simps [simp]: "show_words [] = []" "show_words (w # ws) = CHR '' '' # w @ show_words ws"
  by (simp_all add: show_words_def)

lemma sep_words: "sep rest \<Longrightarrow> sep (show_words ws @ rest)"
  by (cases ws) (simp_all add: sep_def word_char_def whitespace_def)

lemma parse_args_stop:
  assumes "follow ''|)&;'' rest"
  shows "parse_args a c (skip rest) = Done (c, skip rest)"
proof -
  obtain tok t s2 where g2: "gettoken (skip rest) = (tok, t, s2)" by (cases "gettoken (skip rest)")
  show ?thesis
  proof (cases "skip rest = []")
    case True
    have "parse_args a c [] = Done (c, [])"
      by (subst parse_args.simps) (simp add: peek_def gettoken_def)
    then show ?thesis
      using True by simp
  next
    case False
    then show ?thesis
      using assms by (simp add: parse_args_unfold [OF g2] follow_def)
  qed
qed

lemma parse_args_reads:
  assumes "\<forall>w\<in>set ws. word_ok w" "ws \<noteq> []" "length ts + length ws < MAXARGS" "redirs_fit rs" "follow ''|)&;'' rest"
  shows "\<exists>us vs. parse_args (length ts) (EXEC ts) (show_words ws @ show_redirs rs @ rest) = Done (wrap (EXEC (ts @ us)) vs, skip rest)
    \<and> map token_text us = ws \<and> map (\<lambda>(t, fd). (token_text t, fd)) vs = rs"
  using assms(1-3)
proof (induction ws arbitrary: ts)
  case (Cons w ws)
  define s where "s = show_words ws @ show_redirs rs @ rest"
  have "sep rest"
    using assms(5) by (rule follow_sep) (auto simp: symbols_def)
  then have s: "sep s"
    unfolding s_def by (intro sep_words sep_redirs [OF assms(4)])
  have w: "word_ok w" "\<forall>w\<in>set ws. word_ok w"
    using Cons.prems by simp_all
  have sk: "skip (show_words (w # ws) @ show_redirs rs @ rest) = w @ s"
    by (simp add: s_def skip_word [OF w(1)])
  have hw: "w @ s \<noteq> []" "hd (w @ s) \<notin> set ''|)&;''"
    using w(1) word_char_symbols by (cases w; auto simp: word_ok_def)+
  have g: "gettoken (skip (show_words (w # ws) @ show_redirs rs @ rest)) = (CHR ''a'', (w @ s, s), skip s)"
    unfolding sk by (rule get_word [OF w(1) s])
  have pa: "parse_args (length ts) (EXEC ts) (show_words (w # ws) @ show_redirs rs @ rest) =
      bindO (parseredirs (EXEC (ts @ [(w @ s, s)])) s) (\<lambda>(ret, s). parse_args (Suc (length ts)) ret s)"
    unfolding parse_args_unfold [OF g] sk using hw Cons.prems(3) by simp
  show ?case
  proof (cases "ws = []")
    case True
    have s2: "s = show_redirs rs @ rest"
      using True by (simp add: s_def)
    obtain vs where vs: "parseredirs (EXEC (ts @ [(w @ s, s)])) s = Done (wrap (EXEC (ts @ [(w @ s, s)])) vs, skip rest)"
      "map (\<lambda>(t, fd). (token_text t, fd)) vs = rs"
      using parseredirs_reads [OF assms(4,5), of "EXEC (ts @ [(w @ s, s)])"] unfolding s2 [symmetric] by blast
    have "parse_args a c (skip rest) = Done (c, skip rest)" for a c
      by (rule parse_args_stop [OF assms(5)])
    then show ?thesis
      unfolding pa vs(1) using vs(2) True
      by (intro exI [of _ "[(w @ s, s)]"] exI [of _ vs]) simp
  next
    case False
    obtain v vs where v: "ws = v # vs" "word_ok v"
      using False w(2) by (cases ws) auto
    have "skip s = v @ show_words vs @ show_redirs rs @ rest"
      unfolding s_def v(1) by (simp add: skip_word [OF v(2)])
    then have "skip s \<noteq> []" "hd (skip s) \<notin> set ''<>''"
      using v(2) word_char_symbols by (cases v; auto simp: word_ok_def)+
    then have "parseredirs (EXEC (ts @ [(w @ s, s)])) s = Done (EXEC (ts @ [(w @ s, s)]), skip s)"
      by (intro parseredirs_stop) simp
    then have "parse_args (length ts) (EXEC ts) (show_words (w # ws) @ show_redirs rs @ rest)
        = parse_args (length (ts @ [(w @ s, s)])) (EXEC (ts @ [(w @ s, s)])) s"
      unfolding pa by simp
    moreover obtain us xs where "parse_args (length (ts @ [(w @ s, s)])) (EXEC (ts @ [(w @ s, s)])) s
        = Done (wrap (EXEC ((ts @ [(w @ s, s)]) @ us)) xs, skip rest)"
      "map token_text us = ws" "map (\<lambda>(t, fd). (token_text t, fd)) xs = rs"
      using Cons.IH [OF w(2) False, of "ts @ [(w @ s, s)]"] Cons.prems(3) unfolding s_def by auto
    ultimately show ?thesis
      by (intro exI [of _ "(w @ s, s) # us"] exI [of _ xs]) simp
  qed
qed simp

lemma words_exec:
  assumes "\<forall>w\<in>set ws. word_ok w" "length ws < MAXARGS"
  shows "exec_ok (show_words ws) (EXEC ws)"
  unfolding exec_ok_def
proof (intro allI impI)
  fix n rs rest
  assume f: "follow ''|)&;'' rest" and rs: "redirs_fit rs" and n: "4 * length (show_words ws @ show_redirs rs @ rest) + 2 \<le> n"
  define s where "s = show_words ws @ show_redirs rs @ rest"
  obtain m where m: "n = Suc m"
    using n by (cases n) auto
  have first: "skip s = v @ show_words vs @ show_redirs rs @ rest" "word_ok v" if "ws = v # vs" for v vs
    using that assms(1) by (simp_all add: s_def skip_word)
  obtain us vs where pa: "bindO (parseredirs (EXEC []) s) (\<lambda>(ret, s). parse_args 0 ret s) = Done (wrap (EXEC us) vs, skip rest)"
    "map token_text us = ws" "map (\<lambda>(t, fd). (token_text t, fd)) vs = rs"
  proof (cases ws)
    case Nil
    then have "s = show_redirs rs @ rest"
      by (simp add: s_def)
    then obtain vs where "parseredirs (EXEC []) s = Done (wrap (EXEC []) vs, skip rest)" "map (\<lambda>(t, fd). (token_text t, fd)) vs = rs"
      using parseredirs_reads [OF rs f, of "EXEC []"] by auto
    then show ?thesis
      using Nil parse_args_stop [OF f] by (intro that [of "[]" vs]) simp_all
  next
    case (Cons v vs)
    have "skip s \<noteq> []" "hd (skip s) \<notin> set ''<>''"
      using first [OF Cons] word_char_symbols by (cases v; auto simp: word_ok_def)+
    then have "parseredirs (EXEC []) s = Done (EXEC [], skip s)"
      by (intro parseredirs_stop) simp
    moreover obtain us xs where "parse_args 0 (EXEC []) s = Done (wrap (EXEC us) xs, skip rest)"
      "map token_text us = ws" "map (\<lambda>(t, fd). (token_text t, fd)) xs = rs"
      using parse_args_reads [OF assms(1) _ _ rs f, of "[]", folded s_def] Cons assms(2) by auto
    ultimately show ?thesis
      by (intro that [of us xs]) simp_all
  qed
  have "skip s = [] \<or> hd (skip s) \<noteq> CHR ''(''"
  proof (cases ws)
    case (Cons v vs)
    then show ?thesis
      using first [OF Cons] word_char_symbols by (cases v; auto simp: word_ok_def)
  next
    case Nil
    then show ?thesis
      using f by (cases rs) (auto simp: s_def show_redir_def skip_symbol symbols_def follow_def)
  qed
  then have "peek s ''('' = (False, skip s)"
    by (intro peek_no) simp
  then have "parseexec n s = Some (Done (wrap (EXEC us) vs, skip rest))"
    unfolding m using pa(1) by simp
  then show "\<exists>c'. parseexec n (show_words ws @ show_redirs rs @ rest) = Some (Done (c', skip rest)) \<and> text_of c' = wrap (EXEC ws) rs"
    using pa(2,3) unfolding s_def by (auto simp: text_of_wrap)
qed


text \<open>The levels of the grammar.\<close>

lemma pipe_parses:
  assumes "exec_ok t c" "pipe_ok u d"
  shows "pipe_ok (t @ ''|'' @ u) (PIPE c d)"
  unfolding pipe_ok_def
proof (intro allI impI)
  fix n rest
  assume f: "follow '')&;'' rest" and n: "4 * length ((t @ ''|'' @ u) @ rest) + 3 \<le> n"
  define s where "s = CHR ''|'' # u @ rest"
  obtain m where m: "n = Suc m" "4 * length (t @ show_redirs [] @ s) + 2 \<le> m" "4 * length (u @ rest) + 3 \<le> m"
    using n by (cases n) (auto simp: s_def)
  have sk: "skip s = s"
    by (simp add: s_def skip_symbol symbols_def)
  have fs: "follow ''|)&;'' s"
    unfolding s_def by (rule follow_symbol) (auto simp: symbols_def)
  obtain c' where c': "parseexec m (t @ s) = Some (Done (c', s))" "text_of c' = c"
    using assms(1) [unfolded exec_ok_def, rule_format, OF fs _ m(2)] sk by (auto simp: redirs_fit_def)
  obtain d' where d': "parsepipe m (u @ rest) = Some (Done (d', skip rest))" "text_of d' = d"
    using assms(2) [unfolded pipe_ok_def, rule_format, OF f m(3)] by auto
  have g: "gettoken s = (CHR ''|'', (s, u @ rest), skip (u @ rest))"
    unfolding s_def by (rule get_symbol) simp
  have p: "peek s ''|'' = (True, s)"
    unfolding peek_eq sk by (simp add: s_def)
  have "parsepipe n (t @ s) = Some (Done (PIPE c' d', skip rest))"
    using c'(1) d'(1) g p by (simp add: m(1))
  then show "\<exists>c'. parsepipe n ((t @ ''|'' @ u) @ rest) = Some (Done (c', skip rest)) \<and> text_of c' = PIPE c d"
    using c'(2) d'(2) by (auto simp: s_def)
qed

lemma back_parses:
  assumes "back_ok t c"
  shows "back_ok (t @ ''&'') (BACK c)"
  unfolding back_ok_def
proof (intro allI impI)
  fix n rest
  assume f: "follow '')&;'' rest" and n: "4 * length ((t @ ''&'') @ rest) + 3 \<le> n"
  define s where "s = CHR ''&'' # rest"
  have m: "4 * length (t @ s) + 3 \<le> n"
    using n by (simp add: s_def)
  have sk: "skip s = s"
    by (simp add: s_def skip_symbol symbols_def)
  have fs: "follow '')&;'' s"
    unfolding s_def by (rule follow_symbol) (auto simp: symbols_def)
  obtain c1 u c' where c: "parsepipe n (t @ s) = Some (Done (c1, u))" "parse_backs c1 u = parse_backs c' s" "text_of c' = c"
    using assms [unfolded back_ok_def, rule_format, OF fs m] sk by auto
  have g: "gettoken (skip s) = (CHR ''&'', (s, rest), skip rest)"
    unfolding sk by (unfold s_def) (rule get_symbol, simp)
  have "parse_backs c' s = parse_backs (BACK c') (skip rest)"
    unfolding parse_backs_unfold [OF g] sk by (simp add: s_def)
  then show "\<exists>c1 u c'. parsepipe n ((t @ ''&'') @ rest) = Some (Done (c1, u)) \<and> parse_backs c1 u = parse_backs c' (skip rest)
      \<and> text_of c' = BACK c"
    using c by (intro exI [of _ c1] exI [of _ u] exI [of _ "BACK c'"]) (simp add: s_def)
qed

lemma list_parses:
  assumes "back_ok t c" "line_ok u d"
  shows "line_ok (t @ '';'' @ u) (LIST c d)"
  unfolding line_ok_def
proof (intro allI impI)
  fix n rest
  assume f: "follow '')'' rest" and n: "4 * length ((t @ '';'' @ u) @ rest) + 4 \<le> n"
  define s where "s = CHR '';'' # u @ rest"
  obtain m where m: "n = Suc m" "4 * length (t @ s) + 3 \<le> m" "4 * length (u @ rest) + 4 \<le> m"
    using n by (cases n) (auto simp: s_def)
  have sk: "skip s = s"
    by (simp add: s_def skip_symbol symbols_def)
  have fs: "follow '')&;'' s"
    unfolding s_def by (rule follow_symbol) (auto simp: symbols_def)
  obtain c1 v c' where c: "parsepipe m (t @ s) = Some (Done (c1, v))" "parse_backs c1 v = parse_backs c' s" "text_of c' = c"
    using assms(1) [unfolded back_ok_def, rule_format, OF fs m(2)] sk by auto
  have b: "parse_backs c' s = (c', s)"
    using parse_backs_stop [of s c'] sk by (simp add: s_def)
  obtain d' where d': "parseline m (u @ rest) = Some (Done (d', skip rest))" "text_of d' = d"
    using assms(2) [unfolded line_ok_def, rule_format, OF f m(3)] by auto
  have g: "gettoken s = (CHR '';'', (s, u @ rest), skip (u @ rest))"
    unfolding s_def by (rule get_symbol) simp
  have p: "peek s '';'' = (True, s)"
    unfolding peek_eq sk by (simp add: s_def)
  have "parseline n (t @ s) = Some (Done (LIST c' d', skip rest))"
    using c(1,2) b d'(1) g p by (simp add: m(1))
  then show "\<exists>c'. parseline n ((t @ '';'' @ u) @ rest) = Some (Done (c', skip rest)) \<and> text_of c' = LIST c d"
    using c(3) d'(2) by (auto simp: s_def)
qed

lemma redir_exec:
  assumes "exec_ok t c" "word_ok f" "fd \<le> 1"
  shows "exec_ok (t @ show_redir (f, fd)) (REDIR c f (if fd = 0 then 0 else 0x201) fd)"
  unfolding exec_ok_def
proof (intro allI impI)
  fix n rs rest
  assume fo: "follow ''|)&;'' rest" and rs: "redirs_fit rs"
    and n: "4 * length ((t @ show_redir (f, fd)) @ show_redirs rs @ rest) + 2 \<le> n"
  have "redirs_fit ((f, fd) # rs)"
    using rs assms(2,3) by (simp add: redirs_fit_def)
  moreover have "4 * length (t @ show_redirs ((f, fd) # rs) @ rest) + 2 \<le> n"
    using n by simp
  ultimately show "\<exists>c'. parseexec n ((t @ show_redir (f, fd)) @ show_redirs rs @ rest) = Some (Done (c', skip rest))
      \<and> text_of c' = wrap (REDIR c f (if fd = 0 then 0 else 0x201) fd) rs"
    using assms(1) [unfolded exec_ok_def, rule_format, OF fo] by fastforce
qed

definition all_ok :: "string cmd \<Rightarrow> bool" where
  "all_ok c \<longleftrightarrow> line_ok (show_at 0 c) c \<and> back_ok (show_at 1 c) c \<and> pipe_ok (show_at 2 c) c \<and> exec_ok (show_at 3 c) c"

lemma exec_all: "exec_ok t c \<Longrightarrow> line_ok t c \<and> back_ok t c \<and> pipe_ok t c \<and> exec_ok t c"
  using exec_pipe pipe_back back_line by blast

lemma all_parse: "cmd_ok c \<Longrightarrow> all_ok c"
proof (induction c)
  case (EXEC ws)
  then show ?case
    using exec_all [OF words_exec [of ws]] by (simp add: all_ok_def)
next
  case (REDIR c f md fd)
  then have "exec_ok (show_at 3 c @ show_redir (f, fd)) (REDIR c f md fd)"
    using redir_exec [of "show_at 3 c" c f fd] by (auto simp: all_ok_def)
  then show ?case
    using exec_all by (simp add: all_ok_def)
next
  case (PIPE l r)
  then have "pipe_ok (show_at 2 (PIPE l r)) (PIPE l r)"
    using pipe_parses by (simp add: all_ok_def paren_def)
  moreover from this have "line_ok (show_at 0 (PIPE l r)) (PIPE l r)" "back_ok (show_at 1 (PIPE l r)) (PIPE l r)"
    using pipe_back back_line by (auto simp: paren_def)
  moreover from this have "exec_ok (show_at 3 (PIPE l r)) (PIPE l r)"
    using line_block [of "show_at 0 (PIPE l r)" "PIPE l r"] by (simp add: paren_def)
  ultimately show ?case
    by (simp add: all_ok_def)
next
  case (LIST l r)
  then have l: "line_ok (show_at 0 (LIST l r)) (LIST l r)"
    using list_parses by (simp add: all_ok_def paren_def)
  then have "exec_ok (show_at 3 (LIST l r)) (LIST l r)"
    using line_block by (fastforce simp: paren_def)
  then show ?case
    using l exec_all by (simp add: all_ok_def paren_def)
next
  case (BACK c)
  then have b: "back_ok (show_at 1 (BACK c)) (BACK c)"
    using back_parses by (simp add: all_ok_def paren_def)
  then have l: "line_ok (show_at 0 (BACK c)) (BACK c)"
    using back_line by (simp add: paren_def)
  then have "exec_ok (show_at 3 (BACK c)) (BACK c)"
    using line_block by (fastforce simp: paren_def)
  then show ?case
    using b l exec_all by (simp add: all_ok_def paren_def)
qed


subsection \<open>Cutting off the words\<close>

text \<open>A token of the command line \<open>b\<close>: a word that lies in \<open>b\<close> and ends where its characters do.\<close>

definition word_token :: "string \<Rightarrow> token \<Rightarrow> bool" where
  "word_token b t \<longleftrightarrow> suffix (fst t) b \<and> (\<exists>w. fst t = w @ snd t \<and> (\<forall>c\<in>set w. word_char c)) \<and> sep (snd t)"

lemma word_token_gettoken:
  assumes "gettoken s = (CHR ''a'', t, r)" "suffix s b"
  shows "word_token b t" "suffix r b"
proof -
  note x = suffix_gettoken [OF assms(1)]
  show "suffix r b"
    using x assms(2) by (metis suffix_order.trans)
  obtain eq where e: "lex (skip s) = (CHR ''a'', eq)" "t = (skip s, eq)"
    using assms(1) by (auto simp: gettoken_def Let_def split: prod.splits)
  then obtain c u where q: "skip s = c # u"
    by (cases "skip s") auto
  then have "eq = dropWhile word_char (skip s)"
    using e(1) by (auto split: if_splits)
  then have "skip s = takeWhile word_char (skip s) @ eq" "sep eq"
    using hd_dropWhile [of word_char "skip s"] by (auto simp: sep_def)
  then show "word_token b t"
    using x assms(2) e(2) unfolding word_token_def
    by (metis fst_conv set_takeWhileD snd_conv suffix_order.trans)
qed

lemma gettoken_suffix: "gettoken s = (k, t, r) \<Longrightarrow> suffix s b \<Longrightarrow> suffix r b"
  using suffix_gettoken [of s k t r] by (metis suffix_order.trans)

lemma peek_suffix: "suffix s b \<Longrightarrow> suffix (skip s) b"
  using suffix_skip [of s] by (metis suffix_order.trans)

abbreviation fine :: "string \<Rightarrow> token cmd \<Rightarrow> string \<Rightarrow> bool" where
  "fine b c r \<equiv> (\<forall>t\<in>set_cmd c. word_token b t) \<and> suffix r b"

lemma parseredirs_fine:
  "parseredirs c s = Done (d, r) \<Longrightarrow> fine b c s \<Longrightarrow> fine b d r"
proof (induction "length s" arbitrary: c s rule: less_induct)
  case less
  obtain p s1 where p: "peek s ''<>'' = (p, s1)" by (cases "peek s ''<>''")
  obtain tok u s2 where g: "gettoken s1 = (tok, u, s2)" by (cases "gettoken s1")
  obtain k t s3 where g2: "gettoken s2 = (k, t, s3)" by (cases "gettoken s2")
  have s1: "suffix s1 b"
    using p less(3) peek_suffix by (simp add: peek_eq)
  show ?case
  proof (cases p)
    case False
    then show ?thesis
      using less(2,3) s1 by (simp add: parseredirs_unfold [OF p g g2])
  next
    case True
    then have k: "k = CHR ''a''" and d: "parseredirs (redir tok t c) s3 = Done (d, r)"
      using less(2) by (simp_all add: parseredirs_unfold [OF p g g2] split: if_splits)
    have "length s3 < length s"
      using peek_token [OF _ g, of s "''<>''"] p True gettoken_shorter(1) [OF g2] by simp
    moreover have "word_token b t" "suffix s3 b"
      using word_token_gettoken [OF g2 [unfolded k] gettoken_suffix [OF g s1]] by simp_all
    moreover from this have "fine b (redir tok t c) s3"
      using less(3) by (auto simp: redir_def)
    ultimately show ?thesis
      using less(1) d by blast
  qed
qed

lemma set_add_arg: "set_cmd (add_arg t c) \<subseteq> insert t (set_cmd c)"
  by (induction t c rule: add_arg.induct) auto

lemma parse_args_fine:
  "parse_args a c s = Done (d, r) \<Longrightarrow> fine b c s \<Longrightarrow> fine b d r"
proof (induction "length s" arbitrary: a c s rule: less_induct)
  case less
  obtain tok t s2 where g: "gettoken (skip s) = (tok, t, s2)" by (cases "gettoken (skip s)")
  have sk: "suffix (skip s) b" "suffix s2 b"
    using less(3) peek_suffix gettoken_suffix [OF g] by blast+
  show ?case
  proof (cases "tok = CHR ''a'' \<and> (\<exists>x. parseredirs (add_arg t c) s2 = Done x \<and> parse_args (a + 1) (fst x) (snd x) = Done (d, r))")
    case True
    then obtain e u where e: "tok = CHR ''a''" "parseredirs (add_arg t c) s2 = Done (e, u)" "parse_args (a + 1) e u = Done (d, r)"
      by auto
    have "skip s \<noteq> []"
      using g e(1) by (auto simp: gettoken_def)
    then have "length s2 < length s"
      using gettoken_shorter(2) [OF g] length_skip [of s] by simp
    then have l: "length u < length s"
      using parseredirs_length [OF e(2)] by simp
    have "fine b (add_arg t c) s2"
      using word_token_gettoken(1) [OF g [unfolded e(1)] sk(1)] less(3) sk(2) set_add_arg [of t c] by auto
    then have "fine b e u"
      using parseredirs_fine [OF e(2)] by blast
    then show ?thesis
      using less(1) [OF l e(3)] by blast
  next
    case False
    then show ?thesis
      using less(2,3) sk by (auto simp: parse_args_unfold [OF g] bindO_Done_iff split: if_splits)
  qed
qed

lemma parse_backs_fine: "parse_backs c s = (d, r) \<Longrightarrow> fine b c s \<Longrightarrow> fine b d r"
proof (induction "length s" arbitrary: c s rule: less_induct)
  case less
  obtain tok t s2 where g: "gettoken (skip s) = (tok, t, s2)" by (cases "gettoken (skip s)")
  have sk: "suffix (skip s) b" "suffix s2 b"
    using less(3) peek_suffix gettoken_suffix [OF g] by blast+
  show ?case
  proof (cases "skip s \<noteq> [] \<and> hd (skip s) = CHR ''&''")
    case True
    then have "length s2 < length s"
      using gettoken_shorter(2) [OF g] length_skip [of s] by simp
    then show ?thesis
      using less(1) [of s2 "BACK c"] less(2,3) True sk by (simp add: parse_backs_unfold [OF g])
  next
    case False
    then show ?thesis
      using less(2,3) sk by (auto simp: parse_backs_unfold [OF g])
  qed
qed

lemma bindP_DoneE:
  assumes "bindP m f = Some (Done x)"
  obtains a where "m = Some (Done a)" "f a = Some (Done x)"
  using assms by (auto simp: bindP_def split: option.splits outcome.splits)

lemma parser_fine:
  "suffix s b \<Longrightarrow> (parseline n s = Some (Done (c, r)) \<longrightarrow> fine b c r) \<and> (parsepipe n s = Some (Done (c, r)) \<longrightarrow> fine b c r)
   \<and> (parseexec n s = Some (Done (c, r)) \<longrightarrow> fine b c r) \<and> (parseblock n s = Some (Done (c, r)) \<longrightarrow> fine b c r)"
proof (induction n arbitrary: s c r)
  case (Suc n)
  note line = Suc.IH [THEN conjunct1, rule_format]
  note pip = Suc.IH [THEN conjunct2, THEN conjunct1, rule_format]
  note exe = Suc.IH [THEN conjunct2, THEN conjunct2, THEN conjunct1, rule_format]
  note blk = Suc.IH [THEN conjunct2, THEN conjunct2, THEN conjunct2, rule_format]
  have gs: "suffix (snd (snd (gettoken (skip u)))) b" "suffix (skip u) b" if "suffix u b" for u
    using that peek_suffix [OF that] gettoken_suffix [of "skip u" _ _ _ b] by (metis prod.collapse, blast)
  have "fine b c r" if h: "parseline (Suc n) s = Some (Done (c, r))"
  proof -
    obtain d u where d: "parsepipe n s = Some (Done (d, u))"
      using h by (auto simp: bindP_def split: option.splits outcome.splits)
    obtain e v where e: "parse_backs d u = (e, v)" by (cases "parse_backs d u")
    have f: "fine b e v"
      using parse_backs_fine [OF e] pip [OF Suc.prems d] by blast
    show ?thesis
    proof (cases "skip v \<noteq> [] \<and> hd (skip v) = CHR '';''")
      case False
      then show ?thesis
        using h f gs(2) [of v] by (auto simp: d e peek_def Let_def)
    next
      case True
      then obtain w x where "parseline n (snd (snd (gettoken (skip v)))) = Some (Done (w, x))" "c = LIST e w" "r = x"
        using h by (auto simp: d e peek_def Let_def split_beta elim!: bindP_DoneE)
      then show ?thesis
        using line [OF gs(1) [of v]] f by auto
    qed
  qed
  moreover have "fine b c r" if h: "parsepipe (Suc n) s = Some (Done (c, r))"
  proof -
    obtain d u where d: "parseexec n s = Some (Done (d, u))"
      using h by (auto simp: bindP_def split: option.splits outcome.splits)
    have f: "fine b d u"
      using exe [OF Suc.prems d] .
    show ?thesis
    proof (cases "skip u \<noteq> [] \<and> hd (skip u) = CHR ''|''")
      case False
      then show ?thesis
        using h f gs(2) [of u] by (auto simp: d peek_def Let_def)
    next
      case True
      then obtain w x where "parsepipe n (snd (snd (gettoken (skip u)))) = Some (Done (w, x))" "c = PIPE d w" "r = x"
        using h by (auto simp: d peek_def Let_def split_beta elim!: bindP_DoneE)
      then show ?thesis
        using pip [OF gs(1) [of u]] f by auto
    qed
  qed
  moreover have "fine b c r" if h: "parseexec (Suc n) s = Some (Done (c, r))"
  proof (cases "skip s \<noteq> [] \<and> hd (skip s) = CHR ''(''")
    case True
    then show ?thesis
      using h blk [OF gs(2) [OF Suc.prems]] by (simp add: peek_def Let_def)
  next
    case False
    then have "peek s ''('' = (False, skip s)"
      by (intro peek_no) auto
    then obtain d u where d: "parseredirs (EXEC []) s = Done (d, u)" "parse_args 0 d u = Done (c, r)"
      using h by (auto simp: bindO_Done_iff)
    have "fine b d u"
      by (rule parseredirs_fine [OF d(1)]) (simp add: Suc.prems)
    then show ?thesis
      using parse_args_fine [OF d(2)] by blast
  qed
  moreover have "fine b c r" if h: "parseblock (Suc n) s = Some (Done (c, r))"
  proof -
    define u where "u = snd (snd (gettoken (skip s)))"
    have u: "suffix u b"
      using gs(1) [OF Suc.prems] by (simp add: u_def)
    obtain d v where d: "parseline n u = Some (Done (d, v))" "parseredirs d (snd (snd (gettoken (skip v)))) = Done (c, r)"
      using h by (auto simp: peek_def Let_def split_beta u_def split: if_splits elim!: bindP_DoneE)
    have "fine b d v"
      using line [OF u d(1)] .
    then show ?thesis
      using parseredirs_fine [OF d(2)] gs(1) [of v] by blast
  qed
  ultimately show ?case
    by blast
qed simp


text \<open>Writing a NUL where a word ends leaves the characters of every word alone.\<close>

definition keeps_words :: "string \<Rightarrow> string \<Rightarrow> bool" where
  "keeps_words b b' \<longleftrightarrow> length b' = length b \<and> (\<forall>i<length b. word_char (b ! i) \<longrightarrow> b' ! i = b ! i)"

lemma keeps_words_cut:
  assumes "keeps_words b b'" "word_token b t"
  shows "keeps_words b (cut t b')"
proof -
  obtain p where p: "b = p @ snd t"
    using assms(2) by (auto simp: word_token_def suffix_def)
  have "\<not> word_char (b ! i)" if "i = length b - length (snd t)" "i < length b" for i
    using that assms(2) by (cases "snd t") (auto simp: p nth_append word_token_def sep_def)
  then have "length b - length (snd t) \<noteq> i" if "i < length b" "word_char (b ! i)" for i
    using that by blast
  then show ?thesis
    using assms(1) by (simp add: keeps_words_def cut_def nth_list_update_neq)
qed

text \<open>The end of \<open>t\<close> holds a NUL, or is the end of the line.\<close>

definition ended :: "string \<Rightarrow> token \<Rightarrow> bool" where
  "ended b t \<longleftrightarrow> snd t = [] \<or> b ! (length b - length (snd t)) = CHR 0x00"

lemma ended_cut:
  assumes "ended b t \<or> t = u" "length (snd t) \<le> length b"
  shows "ended (cut u b) t"
  using assms by (cases "snd t"; cases "snd u") (auto simp: ended_def cut_def nth_list_update)

lemma nulterminate_cuts:
  "\<forall>t\<in>set_cmd c. word_token b t \<Longrightarrow> keeps_words b b' \<Longrightarrow>
    keeps_words b (nulterminate c b') \<and> (\<forall>t. word_token b t \<and> (ended b' t \<or> t \<in> set_cmd c) \<longrightarrow> ended (nulterminate c b') t)"
proof (induction c arbitrary: b')
  case (EXEC ts)
  then show ?case
  proof (induction ts arbitrary: b')
    case (Cons u ts)
    have k: "keeps_words b (cut u b')"
      using Cons.prems by (intro keeps_words_cut) auto
    have "ended (cut u b') t" if "word_token b t" "ended b' t \<or> t = u" for t
    proof (rule ended_cut)
      have "length (snd t) \<le> length b"
        using that(1) by (auto simp: word_token_def suffix_def)
      then show "length (snd t) \<le> length b'"
        using Cons.prems(2) by (simp add: keeps_words_def)
    qed (use that(2) in blast)
    then show ?case
      using Cons.IH [OF _ k] Cons.prems(1) by auto
  qed simp
next
  case (REDIR c f md fd)
  define d where "d = nulterminate c b'"
  have d: "keeps_words b d" "\<forall>t. word_token b t \<and> (ended b' t \<or> t \<in> set_cmd c) \<longrightarrow> ended d t"
    using REDIR.IH [of b'] REDIR.prems by (auto simp: d_def)
  have "keeps_words b (cut f d)"
    using REDIR.prems(1) d(1) by (intro keeps_words_cut) auto
  moreover have "ended (cut f d) t" if "word_token b t" "ended b' t \<or> t \<in> insert f (set_cmd c)" for t
  proof (rule ended_cut)
    have "length (snd t) \<le> length b"
      using that(1) by (auto simp: word_token_def suffix_def)
    then show "length (snd t) \<le> length d"
      using d(1) by (simp add: keeps_words_def)
  qed (use that d(2) in blast)
  ultimately show ?case
    by (auto simp: d_def [symmetric])
qed auto

text \<open>The C string that starts at a token in the line.\<close>

definition c_string :: "string \<Rightarrow> token \<Rightarrow> string" where
  "c_string b t = takeWhile (\<lambda>c. c \<noteq> CHR 0x00) (drop (length b - length (fst t)) b)"

lemma ended_c_string:
  assumes "word_token b t" "keeps_words b b'" "ended b' t" "CHR 0x00 \<notin> set b"
  shows "c_string b' t = token_text t"
proof -
  obtain p w where p: "b = p @ fst t" "fst t = w @ snd t" "\<forall>c\<in>set w. word_char c"
    using assms(1) by (auto simp: word_token_def suffix_def)
  have l: "length b' = length b" and k: "\<And>i. i < length b \<Longrightarrow> word_char (b ! i) \<Longrightarrow> b' ! i = b ! i"
    using assms(2) by (auto simp: keeps_words_def)
  have "take (length w) (drop (length p) b') = w"
  proof (rule nth_equalityI)
    show "length (take (length w) (drop (length p) b')) = length w"
      using l p(1,2) by simp
    fix i assume "i < length (take (length w) (drop (length p) b'))"
    then have i: "i < length w"
      by simp
    have "b ! (length p + i) = w ! i"
      using i by (simp add: p(1,2) nth_append)
    then show "take (length w) (drop (length p) b') ! i = w ! i"
      using k [of "length p + i"] i p by (simp add: l)
  qed
  then have d: "drop (length p) b' = w @ drop (length p + length w) b'"
    by (metis append_take_drop_id drop_drop add.commute)
  have n: "length b' - length (snd t) = length p + length w"
    using l p(1,2) by simp
  have "drop (length p + length w) b' = [] \<or> hd (drop (length p + length w) b') = CHR 0x00"
    using assms(3) l p(1,2) n by (cases "snd t = []") (auto simp: ended_def hd_drop_conv_nth)
  moreover have "CHR 0x00 \<notin> set w"
    using assms(4) p(1,2) by auto
  ultimately have "takeWhile (\<lambda>c. c \<noteq> CHR 0x00) (drop (length p) b') = w"
    unfolding d by (cases "drop (length p + length w) b'") (auto simp: takeWhile_append)
  moreover have "length b' - length (fst t) = length p"
    using l p(1) by simp
  ultimately show ?thesis
    by (simp add: c_string_def token_text_def p(2))
qed

subsection \<open>Properties\<close>

text \<open>
  C40. The parser of the shell terminates on every line: it returns a tree or reports a syntax error.
\<close>

theorem shell_parser_terminates:
  "(\<exists>c b'. parsecmd b = Some (Done (c, b'))) \<or> (\<exists>e. parsecmd b = Some (Panic e))"
proof -
  have "replies b (parseline (4 * length b + 4) b)"
    using parser_replies [of b "4 * length b + 4"] by blast
  then show ?thesis
    unfolding replies_def
  proof (elim exE conjE answersE)
    fix x c t
    assume "parseline (4 * length b + 4) b = Some x" "x = Done (c, t)"
    then show ?thesis
      by (cases "skip t = []") (simp_all add: parsecmd_def peek_def Let_def)
  next
    fix x e
    assume "parseline (4 * length b + 4) b = Some x" "x = Panic e"
    then show ?thesis
      by (simp add: parsecmd_def bindP_def)
  qed
qed

text \<open>
  C33. Round trip: parsing the text of a command (words of ordinary characters, fewer than 10 arguments,
  redirections of standard input and output, with parentheses where they are needed) gives the command
  back.
\<close>

theorem shell_parses_text:
  assumes "cmd_ok c"
  shows "\<exists>c' b'. parsecmd (show_at 0 c) = Some (Done (c', b')) \<and> text_of c' = c"
proof -
  have "line_ok (show_at 0 c) c"
    using all_parse [OF assms] by (simp add: all_ok_def)
  moreover have "follow '')'' []"
    by (simp add: follow_def)
  ultimately obtain c' where "parseline (4 * length (show_at 0 c) + 4) (show_at 0 c) = Some (Done (c', []))" "text_of c' = c"
    unfolding line_ok_def by (metis append_Nil2 order_refl skip_Nil)
  then show ?thesis
    by (simp add: parsecmd_def peek_def Let_def)
qed

text \<open>
  C35. \<open>nulterminate\<close>: in the command line that \<open>parsecmd\<close> returns, the C string at every argument and
  file name of the tree is exactly the word that was read there.
\<close>

theorem shell_words_end:
  assumes "parsecmd b = Some (Done (c, b'))" "CHR 0x00 \<notin> set b"
  shows "map_cmd (c_string b') c = text_of c"
proof -
  obtain r where r: "parseline (4 * length b + 4) b = Some (Done (c, r))" "b' = nulterminate c b"
    using assms(1) by (auto simp: parsecmd_def peek_def Let_def split: if_splits elim!: bindP_DoneE)
  have w: "\<forall>t\<in>set_cmd c. word_token b t"
    using parser_fine [of b b "4 * length b + 4" c r] r(1) by blast
  have "keeps_words b b"
    by (simp add: keeps_words_def)
  then have "keeps_words b b'" "\<forall>t\<in>set_cmd c. ended b' t"
    using nulterminate_cuts [OF w] w r(2) by blast+
  then show ?thesis
    using ended_c_string w assms(2) by (intro cmd.map_cong) auto
qed

text \<open>
  C34. Running a tree from a shell with the descriptors 0, 1 and 2: every program is executed with exactly
  these three, wired as the tree says: pipelines from left to right through one pipe each, redirections
  innermost last. Every shell on the way waits, once for a list and twice for a pipe, with exactly the three
  descriptors it was given, so that no end of a pipe stays open but as the output and the input of its two sides.
\<close>

theorem shell_wires_programs:
  assumes "redirs_ok c"
  shows "runcmd ok c (std i out e) k = (map (sh_event e) (fst (wire ok c i out k)), snd (wire ok c i out k))"
  using assms by (rule runcmd_wires)

definition sample :: "string cmd" where
  "sample = LIST (BACK (PIPE (REDIR (EXEC [''cat'']) ''in'' 0 0) (EXEC [''grep'', ''x'']))) (EXEC [''ls''])"

theorem shell_parses_text_witness:
  "\<exists>c' b'. parsecmd (show_at 0 sample) = Some (Done (c', b')) \<and> text_of c' = sample"
  by (rule shell_parses_text) (simp add: sample_def word_ok_def word_char_def whitespace_def symbols_def)

theorem shell_words_end_witness:
  "\<exists>c' b'. parsecmd (show_at 0 sample) = Some (Done (c', b')) \<and> map_cmd (c_string b') c' = sample"
proof -
  have "cmd_ok sample"
    by (simp add: sample_def word_ok_def word_char_def whitespace_def symbols_def)
  then have "line_ok (show_at 0 sample) sample"
    using all_parse by (simp add: all_ok_def)
  then obtain c' where c': "parseline (4 * length (show_at 0 sample) + 4) (show_at 0 sample) = Some (Done (c', []))"
    "text_of c' = sample"
    unfolding line_ok_def follow_def by (metis append_Nil2 order_refl skip_Nil)
  then have "parsecmd (show_at 0 sample) = Some (Done (c', nulterminate c' (show_at 0 sample)))"
    by (simp add: parsecmd_def peek_def Let_def)
  moreover from shell_words_end [OF this] have "map_cmd (c_string (nulterminate c' (show_at 0 sample))) c' = sample"
    using c'(2) by (simp add: sample_def show_words_def paren_def show_redir_def)
  ultimately show ?thesis
    by blast
qed

theorem shell_wires_programs_witness:
  "runcmd (\<lambda>_ _. True) sample (std (Inherited 0) (Inherited 1) (Inherited 2)) 7 =
    ([Runs [''cat''] (std (FileH ''in'' 0) (PipeW 7) (Inherited 2)),
      Runs [''grep'', ''x''] (std (PipeR 7) (Inherited 1) (Inherited 2)),
      WaitsWith (std (Inherited 0) (Inherited 1) (Inherited 2)), WaitsWith (std (Inherited 0) (Inherited 1) (Inherited 2)),
      WaitsWith (std (Inherited 0) (Inherited 1) (Inherited 2)),
      Runs [''ls''] (std (Inherited 0) (Inherited 1) (Inherited 2))], 8)"
proof -
  have "redirs_ok sample"
    by (simp add: sample_def)
  from shell_wires_programs [OF this] show ?thesis
    by (simp add: sample_def)
qed

end
