(* ===== verification/Spec2Isabelle.thy ===== *)
theory Spec2Isabelle
  imports MkfsSpec LogRoom SysFile ProcSpec ExecSpec TrapSpec SpinLock IdeSpec TinySpec AnalyzeSpec ScannerSpec Grep UserLib ConsoleSpec Umalloc ShellSpec
begin

text \<open>
  This development models and verifies two systems of the repository: the xv6-based teaching kernel with
  its user programs (\<open>src/2017_ELE3021/xv6-public\<close>) and the C-Minus/Tiny compiler project with its virtual
  machine (\<open>src/2018_ELE4029_2013012041/project\<close>). File names below are relative to these directories.

  \<^bold>\<open>The kernel.\<close> From the disk up: the memory disk driver and the buffer cache (\<open>memide.c\<close>, \<open>bio.c\<close>:
  theory \<open>BufCache\<close>; the driver for a real disk, \<open>ide.c\<close>, in \<open>Ide\<close>), the write-ahead log over it (\<open>log.c\<close>: \<open>DiskLog\<close>), the file system (\<open>fs.c\<close>: \<open>Fs\<close>),
  open files and pipes (\<open>file.c\<close>, \<open>pipe.c\<close>: \<open>File\<close>, \<open>Pipe\<close>), and the file system calls with their argument
  checks (\<open>sysfile.c\<close>, \<open>syscall.c\<close>: \<open>SysFile\<close>, \<open>SysArgs\<close>). Their common state is the record \<open>kst\<close> of theory
  \<open>KernelState\<close>, a field for every global variable and table of the C files. The string functions all of them
  use are in \<open>Strings\<close> (\<open>string.c\<close>). Beside this stack stand the page allocator, page tables and processes
  (\<open>kalloc.c\<close>, \<open>vm.c\<close>, \<open>proc.c\<close>: \<open>Kalloc\<close>, \<open>Vm\<close>, \<open>Proc\<close>) with the state \<open>pst\<close>, which contains the memory
  \<open>mst\<close> and the storage state; \<open>Exec\<close> (\<open>exec.c\<close>) uses both, and \<open>Trap\<close> (\<open>trap.c\<close>, \<open>syscall.c\<close>, \<open>sysproc.c\<close>) is where
  system calls and interrupts come in. \<open>SpinLock\<close> (\<open>spinlock.c\<close>) is the algorithm under
  the sections that the other theories take as one step. \<open>Keyboard\<close> and \<open>Console\<close> (\<open>kbd.c\<close>, \<open>console.c\<close>,
  \<open>uart.c\<close>) are the terminal. The image the file system starts from is made by \<open>mkfs.c\<close> (\<open>Mkfs\<close>), a program
  of the build machine that works on a file of its own.

  \<^bold>\<open>User programs.\<close> \<open>UserLib\<close> (\<open>ulib.c\<close>, \<open>printf.c\<close>), \<open>Umalloc\<close> (\<open>umalloc.c\<close>), \<open>Grep\<close> (\<open>grep.c\<close>) and
  \<open>Shell\<close> (\<open>sh.c\<close>).

  \<^bold>\<open>The compiler project.\<close> The scanner (\<open>scan.c\<close>: \<open>Scanner\<close>), \<open>SyntaxTree\<close> (\<open>globals.h\<close>, \<open>y.tab.h\<close>), the symbol table and the semantic
  analyzer (\<open>symtab.c\<close>, \<open>analyze.c\<close>, \<open>util.c\<close>: \<open>SymTab\<close>, \<open>Analyze\<close>), the code generator and its
  emitter (\<open>cgen.c\<close>, \<open>code.c\<close>: \<open>CodeGen\<close>, \<open>CodeEmit\<close>), and the machine that loads and runs the code
  (\<open>tm.c\<close>: \<open>TinyMachine\<close>).

  \<^bold>\<open>How code becomes definitions.\<close> A C function is a HOL function of the same name from its arguments and the
  state to a value and the new state. \<open>outcome\<close> (theory \<open>Prelude\<close>) distinguishes a call that returned, one
  that called \<open>panic\<close>, one that went to sleep, and one whose behaviour C leaves undefined. Pointers into a
  table are indices; \<open>uint\<close> is \<open>32 word\<close> and wraps around; an \<open>int\<close> is \<open>int\<close>, with the overflow
  checked where the value can reach it (\<open>cint\<close> in \<open>Decimal\<close>). Data that the code casts to bytes (disk
  blocks, pages, the stack of a new program) is bytes here too, read with \<open>get16\<close>, \<open>get32\<close>, \<open>load32\<close> at
  the offsets of the structures. Loops are structural recursion, \<open>function\<close> with a measure, or
  recursion on fuel where only the width of a counter bounds them; running out of fuel is \<open>Undef\<close>, and
  the fuel covers every value of the counter: \<open>2 ^ 19\<close> rounds of \<open>balloc\<close>, one for each bitmap block;
  \<open>2 ^ 31 - 1\<close> of \<open>ialloc\<close>; \<open>2 ^ 28 + 1\<close> of the directory scans, which advance a 32-bit offset by
  16; \<open>2 ^ 20\<close> of the loops over pages; \<open>2 ^ 31 - 1\<close> machine steps of \<open>run_go\<close>, the largest
  count that \<open>tm.c\<close> accepts; four times the length of the line plus four for the parser of the shell, shown to be enough
  by \<open>shell_parser_terminates\<close>. The allocator of \<open>umalloc.c\<close> walks a circular list that may be corrupt and
  is a \<open>partial_function\<close>; \<open>malloc_allocates\<close> shows that it returns on every well-formed heap.

  \<^bold>\<open>Interfaces.\<close> \<open>block_store\<close> (theory \<open>BlockStore\<close>) is what a client of the block layer relies on; it is
  interpreted on the buffer cache (\<open>BufCache\<close>) and on \<open>log_write\<close> inside a transaction (\<open>DiskLog\<close>), and the
  lemmas of \<open>FsAlloc\<close> follow from the second. \<open>fifo\<close> (theory \<open>Ring\<close>) is a bounded queue of bytes; it is
  interpreted on the ring of a pipe (\<open>Pipe\<close>). The arithmetic of free-running counters in \<open>Ring\<close> also
  carries the proofs about the console's input buffer.

  \<^bold>\<open>What is shown.\<close>
  \<^item> Storage: a commit is atomic under crashes at every block write, also during recovery (\<open>DiskLog\<close>); a
    transaction ends with its blocks on the disk; \<open>begin_op\<close> admits three operations into a log that cannot hold
    what they may write (\<open>LogRoom\<close>); allocation and freeing of blocks, reading and writing of
    files through direct, indirect and double-indirect blocks (\<open>FsSpec\<close> over \<open>FsAlloc\<close>, \<open>FsMap\<close>, \<open>FsData\<close>);
    \<open>mkfs\<close> builds an image whose files, directory, bitmap and log are consistent (\<open>MkfsSpec\<close>).
  \<^item> Communication: pipes deliver every byte once and in order under any interleaving; a reader sleeps only on an
    empty pipe and a writer on a full one, and no wakeup is lost, except that a writer killed halfway wakes nobody
    (\<open>Pipe\<close>); spin locks exclude each other on any number of processors (\<open>SpinLock\<close>).
  \<^item> Processes: at most one runs, the scheduler is fair, allocation of pages refines a stack
    (\<open>ProcSpec\<close>, \<open>Kalloc\<close>); system call arguments lie inside the process (\<open>SysArgs\<close>); \<open>exec\<close> is all or
    nothing, and the stack pointer it sets leaves exactly the room of the arguments (\<open>ExecSpec\<close>); a marked process
    exits on every way from the kernel back to user mode, and the waits that test the mark do not go on
    (\<open>TrapSpec\<close>; \<open>begin_op\<close> and \<open>acquiresleep\<close> do not test it).
  \<^item> Terminal: screen, line editing and readers refine operations on lists (\<open>ConsoleSpec\<close>).
  \<^item> User programs: the matcher of \<open>grep\<close> is its declarative meaning; the allocator keeps its free
    list sound; the shell parses back what is printed, ends, wires pipelines as the command says, and waits
    with no end of a pipe left open.
  \<^item> Compiler: the scanner returns the tokens of a reference lexer (\<open>ScannerSpec\<close>); the symbol table implements lexical scoping (\<open>SymTabSpec\<close>; two programs on which the
    analyzer goes wrong are in \<open>AnalyzeSpec\<close>); code of expressions computes their value and loads back from its listing; the machine is type safe
    and stays inside its memories except at the bounds that the code tests off by one (\<open>CodeRun\<close>, \<open>TinySpec\<close>).

  \<^bold>\<open>Parameters and hypotheses.\<close> The device switch (\<open>devsw\<close>) is a parameter of the file system; what \<open>read\<close>
  returns is a parameter of \<open>grep\<close>; the disk controller is a
  parameter of the IDE driver, \<open>ide_device\<close> says what the ATA standard promises of it; \<open>st_lookup\<close> is a parameter of the code generator; whether the kernel has memory is a
  parameter of \<open>malloc\<close>. A property whose premises restrict the state has a witness in the same theory: a
  concrete state at which they hold.

  \<^bold>\<open>Not modelled.\<close> Code that programs devices or CPU registers (\<open>lapic.c\<close>, \<open>ioapic.c\<close>, \<open>picirq.c\<close>,
  \<open>timer.c\<close>, \<open>mp.c\<close>, \<open>bootmain.c\<close>, \<open>seginit\<close> and the task state of \<open>switchuvm\<close>), assembly, start-up
  (\<open>main.c\<close>), the generated parsers (\<open>y.tab.c\<close>, \<open>cminus.tab.c\<close>), test programs
  (\<open>usertests.c\<close>, \<open>threadtest.c\<close> and others), and the other courses of the repository: socket chat
  programs that consist of library calls, Python and blockchain exercises, which are not C. The manifest lists them with
  the reason for each.
\<close>

end
